(* ===== verification/Afl_Prelude.thy ===== *)
theory Afl_Prelude
  imports Main "HOL-Library.Word" "HOL-Library.Monad_Syntax"
begin

unbundle bit_operations_syntax

text \<open>
  Shared vocabulary of the development: the machine integers of \<^verbatim>\<open>types.h\<close>, the little-endian
  view of byte buffers that the C code takes by pointer casts (\<^verbatim>\<open>*(u16*)(buf + i)\<close>,
  \<^verbatim>\<open>*(u64*)mem\<close>), checked reads and writes of buffers (\<open>None\<close> is an access outside the
  buffer), and the generic loop that walks a buffer one machine word at a time.
\<close>

section \<open>Machine integers\<close>

type_synonym u8 = "8 word"
type_synonym u16 = "16 word"
type_synonym u32 = "32 word"
type_synonym u64 = "64 word"

named_theorems buf_simps \<open>lengths and contents of buffers after checked reads and writes\<close>
named_theorems le_simps \<open>little-endian encoding of words\<close>

text \<open>A statement about all values of a byte is a statement about 256 cases.\<close>

lemma all_u8_cases:
  assumes "list_all (\<lambda>n. P (word_of_nat n :: u8)) [0..<256]"
  shows "P b"
proof -
  have "unat b \<in> set [0..<256]" using unsigned_less [of b] by simp
  with assms have "P (word_of_nat (unat b))" unfolding list_all_iff by (rule bspec)
  then show "P b" by simp
qed

text \<open>The lengths of literal lists of one word.\<close>

lemma dvd_literal_length [simp]:
  "4 dvd Suc (Suc (Suc (Suc 0)))" "8 dvd Suc (Suc (Suc (Suc (Suc (Suc (Suc (Suc 0)))))))"
  by (simp_all add: eval_nat_numeral)

section \<open>Little-endian words\<close>

text \<open>The value a cast of a byte pointer reads on x86, and the bytes a store writes.\<close>

primrec le_word :: "u8 list \<Rightarrow> 'a::len word" where
  "le_word [] = 0"
| "le_word (b # bs) = ucast b OR push_bit 8 (le_word bs)"

primrec le_bytes :: "nat \<Rightarrow> 'a::len word \<Rightarrow> u8 list" where
  "le_bytes 0 w = []"
| "le_bytes (Suc n) w = ucast w # le_bytes n (drop_bit 8 w)"

lemma bit_le_word [le_simps]:
  "bit (le_word bs :: 'a::len word) n \<longleftrightarrow>
     n < LENGTH('a) \<and> n div 8 < length bs \<and> bit (bs ! (n div 8)) (n mod 8)"
proof (induction bs arbitrary: n)
  case Nil
  then show ?case by simp
next
  case (Cons b bs)
  show ?case
  proof (cases "n < 8")
    case True
    then show ?thesis
      by (auto simp: bit_or_iff bit_push_bit_iff bit_ucast_iff)
  next
    case False
    then have d: "n div 8 = Suc ((n - 8) div 8)" and m: "(n - 8) mod 8 = n mod 8"
      by (auto simp: le_div_geq le_mod_geq)
    have nb: "\<not> bit b n" using False by (simp add: bit_word.rep_eq)
    show ?thesis using False
      by (auto simp: bit_or_iff bit_push_bit_iff bit_ucast_iff nb Cons.IH d m)
  qed
qed

lemma length_le_bytes [simp, le_simps]: "length (le_bytes n w) = n"
  by (induction n arbitrary: w) auto

lemma nth_le_bytes [le_simps]: "i < n \<Longrightarrow> le_bytes n w ! i = ucast (drop_bit (8 * i) w)"
proof (induction n arbitrary: w i)
  case 0
  then show ?case by simp
next
  case (Suc n)
  show ?case
  proof (cases i)
    case 0
    then show ?thesis by simp
  next
    case (Suc j)
    with Suc.prems Suc.IH show ?thesis by (simp add: add.commute)
  qed
qed

lemma le_bytes_le_word [le_simps]:
  assumes "8 * length bs \<le> LENGTH('a)"
  shows "le_bytes (length bs) (le_word bs :: 'a::len word) = bs"
proof (rule nth_equalityI)
  show "length (le_bytes (length bs) (le_word bs :: 'a word)) = length bs" by simp
next
  fix i assume "i < length (le_bytes (length bs) (le_word bs :: 'a word))"
  then have i: "i < length bs" by simp
  show "le_bytes (length bs) (le_word bs :: 'a word) ! i = bs ! i"
  proof (rule bit_word_eqI)
    fix n assume n: "n < LENGTH(8)"
    then have "8 * i + n < 8 * length bs" using i by simp
    then have "8 * i + n < LENGTH('a)" using assms by linarith
    then show "bit (le_bytes (length bs) (le_word bs :: 'a word) ! i) n \<longleftrightarrow> bit (bs ! i) n"
      using i n by (simp add: nth_le_bytes bit_ucast_iff bit_drop_bit_eq bit_le_word add.commute)
  qed
qed

lemma le_word_le_bytes [le_simps]:
  assumes "LENGTH('a) \<le> 8 * n"
  shows "le_word (le_bytes n (w :: 'a::len word)) = w"
proof (rule bit_word_eqI)
  fix k assume k: "k < LENGTH('a)"
  then have "k div 8 < n" using assms by linarith
  then show "bit (le_word (le_bytes n w) :: 'a word) k \<longleftrightarrow> bit w k"
    using k by (simp add: bit_le_word nth_le_bytes bit_ucast_iff bit_drop_bit_eq)
qed

lemma le_word_and:
  assumes "length xs = length ys"
  shows "(le_word xs :: 'a::len word) AND le_word ys = le_word (map2 (AND) xs ys)"
  using assms by (intro bit_word_eqI) (auto simp: bit_and_iff bit_le_word)

lemma le_word_and_not:
  assumes "length xs = length ys"
  shows "(le_word xs :: 'a::len word) AND NOT (le_word ys) = le_word (map2 (\<lambda>x y. x AND NOT y) xs ys)"
  using assms by (intro bit_word_eqI) (auto simp: bit_and_iff bit_not_iff bit_le_word)

lemma le_word_eq_0_iff:
  assumes "8 * length bs \<le> LENGTH('a)"
  shows "(le_word bs :: 'a::len word) = 0 \<longleftrightarrow> (\<forall>b \<in> set bs. b = 0)"
proof
  assume "(le_word bs :: 'a word) = 0"
  moreover have "le_bytes (length bs) (0 :: 'a word) = replicate (length bs) 0"
    by (intro nth_equalityI) (auto simp: nth_le_bytes)
  ultimately have "bs = replicate (length bs) 0" using le_bytes_le_word [OF assms] by simp
  then show "\<forall>b \<in> set bs. b = 0" by (metis in_set_replicate)
next
  assume z: "\<forall>b \<in> set bs. b = 0"
  show "(le_word bs :: 'a word) = 0"
    by (rule bit_word_eqI) (use z nth_mem in \<open>fastforce simp: bit_le_word\<close>)
qed


section \<open>Checked buffer accesses\<close>

text \<open>
  \<open>None\<close> is an access outside the buffer, which in the C program is undefined behaviour.
  \<open>load n\<close> and \<open>store n\<close> are the reads and writes through a cast pointer of \<open>n\<close> bytes, and
  \<open>put\<close> is \<^verbatim>\<open>memcpy\<close> into the buffer.
\<close>

definition get_at :: "'a list \<Rightarrow> nat \<Rightarrow> 'a option" where
  "get_at buf i = (if i < length buf then Some (buf ! i) else None)"

definition set_at :: "'a list \<Rightarrow> nat \<Rightarrow> 'a \<Rightarrow> 'a list option" where
  "set_at buf i v = (if i < length buf then Some (buf[i := v]) else None)"

definition slice :: "'a list \<Rightarrow> nat \<Rightarrow> nat \<Rightarrow> 'a list option" where
  "slice buf i n = (if i + n \<le> length buf then Some (take n (drop i buf)) else None)"

definition put :: "'a list \<Rightarrow> nat \<Rightarrow> 'a list \<Rightarrow> 'a list option" where
  "put buf i d = (if i + length d \<le> length buf
                  then Some (take i buf @ d @ drop (i + length d) buf) else None)"

definition load :: "nat \<Rightarrow> u8 list \<Rightarrow> nat \<Rightarrow> 'w::len word option" where
  "load n buf i = map_option le_word (slice buf i n)"

definition store :: "nat \<Rightarrow> u8 list \<Rightarrow> nat \<Rightarrow> 'w::len word \<Rightarrow> u8 list option" where
  "store n buf i w = put buf i (le_bytes n w)"

lemma get_at_Some [buf_simps]: "i < length buf \<Longrightarrow> get_at buf i = Some (buf ! i)"
  by (simp add: get_at_def)

lemma set_at_Some [buf_simps]: "i < length buf \<Longrightarrow> set_at buf i v = Some (buf[i := v])"
  by (simp add: set_at_def)

lemma slice_Some [buf_simps]: "i + n \<le> length buf \<Longrightarrow> slice buf i n = Some (take n (drop i buf))"
  by (simp add: slice_def)

lemma put_Some [buf_simps]:
  "i + length d \<le> length buf \<Longrightarrow> put buf i d = Some (take i buf @ d @ drop (i + length d) buf)"
  by (simp add: put_def)

lemma load_Some [buf_simps]:
  "i + n \<le> length buf \<Longrightarrow> load n buf i = Some (le_word (take n (drop i buf)))"
  by (simp add: load_def slice_Some)

lemma store_Some [buf_simps]:
  "i + n \<le> length buf \<Longrightarrow> store n buf i w = Some (take i buf @ le_bytes n w @ drop (i + n) buf)"
  by (simp add: store_def put_Some)

lemma put_length: "put buf i d = Some buf' \<Longrightarrow> length buf' = length buf"
  by (auto simp: put_def split: if_splits)

lemma set_at_length: "set_at buf i v = Some buf' \<Longrightarrow> length buf' = length buf"
  by (auto simp: set_at_def split: if_splits)

lemma store_length: "store n buf i w = Some buf' \<Longrightarrow> length buf' = length buf"
  unfolding store_def by (rule put_length)

text \<open>Writing a slice and writing the old contents back restores the buffer.\<close>

lemma put_put_back:
  assumes "put buf i d = Some buf1"
  shows "put buf1 i (take (length d) (drop i buf)) = Some buf"
proof -
  let ?n = "length d"
  have le: "i + ?n \<le> length buf" and b1: "buf1 = take i buf @ d @ drop (i + ?n) buf"
    using assms by (auto simp: put_def split: if_splits)
  have l: "length (take i buf) = i" "length (take ?n (drop i buf)) = ?n" using le by auto
  have "drop i buf = take ?n (drop i buf) @ drop (i + ?n) buf"
    using append_take_drop_id [of ?n "drop i buf"] by (simp add: add.commute)
  then have split: "take i buf @ take ?n (drop i buf) @ drop (i + ?n) buf = buf"
    using append_take_drop_id [of i buf] by argo
  have "take i buf1 = take i buf" "drop (i + ?n) buf1 = drop (i + ?n) buf"
    unfolding b1 using l by auto
  moreover have "i + ?n \<le> length buf1" unfolding b1 using le by simp
  ultimately show ?thesis using l split by (simp add: put_def)
qed

section \<open>Loops over a buffer, one machine word at a time\<close>

text \<open>
  \<^verbatim>\<open>while (i--) { ... *mem ...; mem++; }\<close> with \<open>f\<close> the effect of the body on the \<open>n\<close> bytes at
  \<^verbatim>\<open>mem\<close>.
\<close>

fun word_loop :: "nat \<Rightarrow> nat \<Rightarrow> ('a list \<Rightarrow> 'a list) \<Rightarrow> 'a list \<Rightarrow> 'a list" where
  "word_loop 0 n f mem = mem"
| "word_loop (Suc i) n f mem = f (take n mem) @ word_loop i n f (drop n mem)"

text \<open>
  The contract of such a body: on one word it does the same as a function of the single bytes.
  The client is the loop, which then is a \<^verbatim>\<open>map\<close> of that function over the whole buffer.
\<close>

locale bytewise =
  fixes n :: nat and f :: "'a list \<Rightarrow> 'a list" and g :: "'a \<Rightarrow> 'a"
  assumes body_bytewise: "length c = n \<Longrightarrow> f c = map g c"
begin

lemma loop_bytewise: "length mem = n * i \<Longrightarrow> word_loop i n f mem = map g mem"
proof (induction i arbitrary: mem)
  case 0
  then show ?case by simp
next
  case (Suc i)
  have "length (take n mem) = n" and "length (drop n mem) = n * i" using Suc.prems by simp_all
  then have "word_loop (Suc i) n f mem = map g (take n mem) @ map g (drop n mem)"
    by (simp add: body_bytewise Suc.IH)
  then show ?case by (simp flip: map_append)
qed

end

text \<open>Counting bodies: the number added for one word is a sum over its bytes.\<close>

fun count_loop :: "nat \<Rightarrow> nat \<Rightarrow> ('a list \<Rightarrow> u32) \<Rightarrow> 'a list \<Rightarrow> u32 \<Rightarrow> u32" where
  "count_loop 0 n f mem ret = ret"
| "count_loop (Suc i) n f mem ret = count_loop i n f (drop n mem) (ret + f (take n mem))"

locale byte_count =
  fixes n :: nat and f :: "'a list \<Rightarrow> u32" and g :: "'a \<Rightarrow> nat"
  assumes body_count: "length c = n \<Longrightarrow> f c = of_nat (sum_list (map g c))"
begin

lemma loop_count:
  "length mem = n * i \<Longrightarrow> count_loop i n f mem ret = ret + of_nat (sum_list (map g mem))"
proof (induction i arbitrary: mem ret)
  case 0
  then show ?case by simp
next
  case (Suc i)
  have "length (take n mem) = n" and "length (drop n mem) = n * i" using Suc.prems by simp_all
  then have "count_loop (Suc i) n f mem ret =
      ret + of_nat (sum_list (map g (take n mem)) + sum_list (map g (drop n mem)))"
    by (simp add: body_count Suc.IH add.assoc)
  also have "sum_list (map g (take n mem)) + sum_list (map g (drop n mem)) = sum_list (map g mem)"
    by (simp flip: map_append sum_list_append)
  finally show ?case .
qed

end

end
