(* ===== verification/Afl_Popcount.thy ===== *)
theory Afl_Popcount
  imports Afl_Prelude
begin

text \<open>
  The branch-free population count of \<^verbatim>\<open>count_bits\<close> (\<^verbatim>\<open>afl-fuzz.c\<close>) on one 32-bit word, and the
  proof that it counts the set bits: the word is read as eight nibbles, and each masked
  shift-and-add acts on the nibbles separately because none of them ever carries into the next.
\<close>

definition swar_step1 :: "u32 \<Rightarrow> u32" where
  "swar_step1 v = v - (drop_bit 1 v AND 0x55555555)"

definition swar_step2 :: "u32 \<Rightarrow> u32" where
  "swar_step2 v = (v AND 0x33333333) + (drop_bit 2 v AND 0x33333333)"

definition swar_step3 :: "u32 \<Rightarrow> u32" where
  "swar_step3 v = drop_bit 24 (((v + drop_bit 4 v) AND 0x0F0F0F0F) * 0x01010101)"

definition swar_popcount :: "u32 \<Rightarrow> u32" where
  "swar_popcount v = swar_step3 (swar_step2 (swar_step1 v))"

text \<open>The reference: the number of bits set in a byte.\<close>

definition bit_count8 :: "u8 \<Rightarrow> nat" where
  "bit_count8 b = (\<Sum>i<8. of_bool (bit b i))"

section \<open>Numbers as lists of nibbles\<close>

primrec nibs :: "nat list \<Rightarrow> nat" where
  "nibs [] = 0"
| "nibs (d # ds) = d + 16 * nibs ds"

lemma nibs_add: "length xs = length ys \<Longrightarrow> nibs (map2 (+) xs ys) = nibs xs + nibs ys"
  by (induction xs ys rule: list_induct2) auto

lemma nibs_mono: "list_all2 (\<le>) xs ys \<Longrightarrow> nibs xs \<le> nibs ys"
  by (induction rule: list_all2_induct) auto

lemma nibs_minus:
  fixes xs ys :: "nat list"
  shows "list_all2 (\<le>) ys xs \<Longrightarrow> nibs (map2 (-) xs ys) = nibs xs - nibs ys"
proof (induction rule: list_all2_induct)
  case Nil
  then show ?case by simp
next
  case (Cons y ys x xs)
  then show ?case using nibs_mono [of ys xs] by simp
qed

lemma and_nibble:
  fixes x m y k :: nat
  assumes "x < 16" "m < 16"
  shows "(x + 16 * y) AND (m + 16 * k) = (x AND m) + 16 * (y AND k)"
proof -
  have xy: "take_bit 4 (x + 16 * y) = x" "drop_bit 4 (x + 16 * y) = y"
    and mk: "take_bit 4 (m + 16 * k) = m" "drop_bit 4 (m + 16 * k) = k"
    using assms by (simp_all add: take_bit_eq_mod drop_bit_eq_div)
  let ?a = "(x + 16 * y) AND (m + 16 * k)"
  have "?a = push_bit 4 (drop_bit 4 ?a) + take_bit 4 ?a" by (rule bits_ident [symmetric])
  also have "\<dots> = push_bit 4 (y AND k) + (x AND m)"
    by (simp only: drop_bit_and take_bit_and xy mk)
  finally show ?thesis by (simp add: push_bit_eq_mult)
qed

lemma nibs_and:
  "list_all (\<lambda>x. x < 16) xs \<Longrightarrow> list_all (\<lambda>x. x < 16) ms \<Longrightarrow> length xs = length ms \<Longrightarrow>
   nibs xs AND nibs ms = nibs (map2 (AND) xs ms)"
proof (induction xs ms rule: list_induct2')
  case (4 x xs m ms)
  then show ?case by (simp add: and_nibble)
qed auto

lemma all_nibbles: "list_all P [0..<16] \<Longrightarrow> x < 16 \<Longrightarrow> P (x :: nat)"
  by (auto simp: list_all_iff)

text \<open>Shifting right and masking with a pattern that keeps only what stays in its nibble.\<close>

lemma shift1_nibble:
  fixes x y k :: nat
  assumes "x < 16"
  shows "((x + 16 * y) div 2) AND (5 + 16 * k) = ((x div 2) AND 5) + 16 * ((y div 2) AND k)"
proof -
  have m: "z < 2 \<Longrightarrow> (x div 2 + 8 * z) AND 5 = (x div 2) AND 5" for z :: nat
  proof -
    have "list_all (\<lambda>x. (x div 2 + 8 * 0) AND 5 = (x div 2) AND 5 \<and>
                        (x div 2 + 8 * 1) AND 5 = (x div 2) AND (5::nat)) [0..<16]" by code_simp
    from all_nibbles [OF this assms] show "z < 2 \<Longrightarrow> ?thesis" by (auto simp: less_2_cases_iff)
  qed
  have lt: "x div 2 + 8 * (y mod 2) < 16"
    using assms mod_less_divisor [of 2 y] div_less_iff_less_mult [of 2 x 8] by linarith
  have "(x + 16 * y) div 2 = (x + (8 * y) * 2) div 2" by simp
  also have "\<dots> = 8 * y + x div 2" by (simp del: mult_numeral_left_semiring_numeral)
  also have "\<dots> = (x div 2 + 8 * (y mod 2)) + 16 * (y div 2)"
    using div_mult_mod_eq [of y 2] by linarith
  finally have "(x + 16 * y) div 2 = (x div 2 + 8 * (y mod 2)) + 16 * (y div 2)" .
  then show ?thesis using and_nibble [OF lt, of 5] m [of "y mod 2"] by simp
qed

lemma shift2_nibble:
  fixes x y k :: nat
  assumes "x < 16"
  shows "((x + 16 * y) div 4) AND (3 + 16 * k) = ((x div 4) AND 3) + 16 * ((y div 4) AND k)"
proof -
  have m: "z < 4 \<Longrightarrow> (x div 4 + 4 * z) AND 3 = (x div 4) AND 3" for z :: nat
  proof -
    have "list_all (\<lambda>x. list_all (\<lambda>z. (x div 4 + 4 * z) AND 3 = (x div 4) AND (3::nat)) [0..<4])
       [0..<16]" by code_simp
    from all_nibbles [OF this assms] show "z < 4 \<Longrightarrow> ?thesis" by (auto simp: list_all_iff)
  qed
  have lt: "x div 4 + 4 * (y mod 4) < 16"
    using assms mod_less_divisor [of 4 y] div_less_iff_less_mult [of 4 x 4] by linarith
  have "(x + 16 * y) div 4 = (x + (4 * y) * 4) div 4" by simp
  also have "\<dots> = 4 * y + x div 4" by (simp del: mult_numeral_left_semiring_numeral)
  also have "\<dots> = (x div 4 + 4 * (y mod 4)) + 16 * (y div 4)"
    using div_mult_mod_eq [of y 4] by linarith
  finally have "(x + 16 * y) div 4 = (x div 4 + 4 * (y mod 4)) + 16 * (y div 4)" .
  then show ?thesis using and_nibble [OF lt, of 3] m [of "y mod 4"] by simp
qed

lemma nibs_shift1:
  "list_all (\<lambda>x. x < 16) xs \<Longrightarrow>
     nibs xs div 2 AND nibs (replicate (length xs) 5) = nibs (map (\<lambda>x. (x div 2) AND 5) xs)"
  by (induction xs) (simp_all add: shift1_nibble)

lemma nibs_shift2:
  "list_all (\<lambda>x. x < 16) xs \<Longrightarrow>
     nibs xs div 4 AND nibs (replicate (length xs) 3) = nibs (map (\<lambda>x. (x div 4) AND 3) xs)"
  by (induction xs) (simp_all add: shift2_nibble)

section \<open>The count of one word\<close>

definition nstep1 :: "nat \<Rightarrow> nat" where
  "nstep1 x = x - ((x div 2) AND 5)"

definition nstep2 :: "nat \<Rightarrow> nat" where
  "nstep2 x = (x AND 3) + ((x div 4) AND 3)"

lemma nibble_steps:
  assumes "x < 16"
  shows "(x div 2) AND 5 \<le> x" and "nstep1 x < 16" and "nstep2 (nstep1 x) \<le> 4"
    and "nstep2 (nstep1 x) = x mod 2 + (x div 2) mod 2 + (x div 4) mod 2 + (x div 8) mod 2"
proof -
  have "list_all (\<lambda>x. (x div 2) AND 5 \<le> x \<and> nstep1 x < 16 \<and> nstep2 (nstep1 x) \<le> 4 \<and>
      nstep2 (nstep1 x) = x mod 2 + (x div 2) mod 2 + (x div 4) mod 2 + (x div 8) mod 2) [0..<16]"
    by code_simp
  from all_nibbles [OF this assms] show "(x div 2) AND 5 \<le> x" and "nstep1 x < 16"
    and "nstep2 (nstep1 x) \<le> 4"
    and "nstep2 (nstep1 x) = x mod 2 + (x div 2) mod 2 + (x div 4) mod 2 + (x div 8) mod 2" by auto
qed

lemma unat_shift: "unat (drop_bit k (v :: u32)) = unat v div 2 ^ k"
  by (rule trans [OF unat_drop_bit_eq drop_bit_eq_div])

lemma replicate_8: "replicate 8 x = [x, x, x, x, x, x, x, x]"
  by (simp add: eval_nat_numeral)

lemma unat_step1:
  assumes "unat v = nibs xs" and "length xs = 8" and "list_all (\<lambda>x. x < 16) xs"
  shows "unat (swar_step1 v) = nibs (map nstep1 xs)"
proof -
  have mask: "nibs (replicate (length xs) 5) = 0x55555555"
    unfolding assms(2) replicate_8 by simp
  have sub: "unat (drop_bit 1 v AND 0x55555555) = nibs (map (\<lambda>x. (x div 2) AND 5) xs)"
    using nibs_shift1 [OF assms(3)] assms(1) mask
    by (simp add: unsigned_and_eq unat_shift)
  have le: "list_all2 (\<le>) (map (\<lambda>x. (x div 2) AND 5) xs) xs"
    using assms(3) nibble_steps(1) by (auto simp: list_all2_conv_all_nth list_all_length)
  have "unat (swar_step1 v) = nibs xs - nibs (map (\<lambda>x. (x div 2) AND 5) xs)"
    unfolding swar_step1_def using sub assms(1) nibs_mono [OF le]
    by (simp add: unat_sub word_le_nat_alt)
  also have "\<dots> = nibs (map2 (-) xs (map (\<lambda>x. (x div 2) AND 5) xs))"
    using nibs_minus [OF le] by simp
  also have "map2 (-) xs (map (\<lambda>x. (x div 2) AND 5) xs) = map nstep1 xs"
    by (simp add: nstep1_def map2_map_map zip_map2 zip_same_conv_map)
  finally show ?thesis .
qed


lemma nibs_bound: "list_all (\<lambda>x. x < 16) xs \<Longrightarrow> nibs xs < 16 ^ length xs"
  by (induction xs) auto

lemma unat_step2:
  assumes "unat v = nibs xs" and "length xs = 8" and "list_all (\<lambda>x. x < 16) xs"
  shows "unat (swar_step2 v) = nibs (map nstep2 xs)"
proof -
  have mask: "nibs (replicate (length xs) 3) = 0x33333333"
    unfolding assms(2) replicate_8 by simp
  have lo: "unat (v AND 0x33333333) = nibs (map (\<lambda>x. x AND 3) xs)"
    using nibs_and [OF assms(3), of "replicate (length xs) 3"] assms(1) mask
    by (simp add: unsigned_and_eq list_all_length zip_replicate2 map2_map_map comp_def)
  have hi: "unat (drop_bit 2 v AND 0x33333333) = nibs (map (\<lambda>x. (x div 4) AND 3) xs)"
    using nibs_shift2 [OF assms(3)] assms(1) mask
    by (simp add: unsigned_and_eq unat_shift)
  have sum: "nibs (map (\<lambda>x. x AND 3) xs) + nibs (map (\<lambda>x. (x div 4) AND 3) xs) = nibs (map nstep2 xs)"
    by (simp add: nstep2_def [abs_def] map2_map_map flip: nibs_add)
  have "nstep2 x < 16" for x
  proof -
    have "y AND 3 = y mod (4::nat)" for y :: nat
      using take_bit_eq_mask [of 2 y] by (simp add: take_bit_eq_mod mask_eq_exp_minus_1)
    then have "y AND 3 < (4::nat)" for y :: nat by simp
    from this [of x] this [of "x div 4"] show ?thesis by (simp add: nstep2_def)
  qed
  then have "nibs (map nstep2 xs) < 16 ^ length xs"
    using nibs_bound [of "map nstep2 xs"] by (simp add: list_all_length)
  then have "unat (v AND 0x33333333) + unat (drop_bit 2 v AND 0x33333333) < 2 ^ LENGTH(32)"
    using lo hi sum assms(2) by simp
  then show ?thesis
    unfolding swar_step2_def unat_add_lem by (simp only: lo hi sum)
qed

lemma unat_step3:
  assumes v: "unat v = nibs [a, b, c, d, e, f, g, h]"
    and le: "a \<le> 4" "b \<le> 4" "c \<le> 4" "d \<le> 4" "e \<le> 4" "f \<le> 4" "g \<le> 4" "h \<le> 4"
  shows "swar_step3 v = of_nat (a + b + c + d + e + f + g + h)"
proof -
  let ?sum = "nibs [a + b, b + c, c + d, d + e, e + f, f + g, g + h, h]"
  have "unat (drop_bit 4 v) = nibs [b, c, d, e, f, g, h]"
    using v le by (simp add: unat_shift)
  then have "unat v + unat (drop_bit 4 v) = ?sum" using v by simp
  moreover have "?sum < 2 ^ LENGTH(32)" using le by simp
  ultimately have "unat (v + drop_bit 4 v) = ?sum" using unat_add_lem [of v "drop_bit 4 v"] by simp
  moreover have "?sum AND nibs [15, 0, 15, 0, 15, 0, 15, 0]
      = nibs [a + b, 0, c + d, 0, e + f, 0, g + h, 0]"
  proof -
    have keep: "x < 16 \<Longrightarrow> x AND 15 = (x :: nat)" for x
      by (rule all_nibbles [of "\<lambda>x. x AND 15 = x"]) code_simp
    show ?thesis by (subst nibs_and) (use le keep in simp_all)
  qed
  ultimately have m: "unat ((v + drop_bit 4 v) AND 0x0F0F0F0F)
      = (a + b) + 256 * (c + d) + 65536 * (e + f) + 16777216 * (g + h)"
    by (simp add: unsigned_and_eq)
  let ?w = "(v + drop_bit 4 v) AND 0x0F0F0F0F"
  have "unat (?w * 0x01010101) = (unat ?w * 0x01010101) mod 2 ^ 32"
    by (simp add: unat_word_ariths)
  also have "\<dots> = ((a + b) + 256 * (a + b + c + d) + 65536 * (a + b + c + d + e + f)
      + 16777216 * (a + b + c + d + e + f + g + h))"
  proof -
    let ?low = "(a + b) + 256 * (a + b + c + d) + 65536 * (a + b + c + d + e + f)
      + 16777216 * (a + b + c + d + e + f + g + h)"
    let ?high = "(c + d + e + f + g + h) + 256 * (e + f + g + h) + 65536 * (g + h)"
    have "unat ?w * 0x01010101 = ?low + ?high * 2 ^ 32" unfolding m by simp
    moreover have "?low < 2 ^ 32" using le by simp
    ultimately show ?thesis by (simp only: mod_mult_self1 mod_less)
  qed
  finally have p: "unat (?w * 0x01010101) = (a + b) + 256 * (a + b + c + d)
      + 65536 * (a + b + c + d + e + f) + 16777216 * (a + b + c + d + e + f + g + h)" .
  have "unat (swar_step3 v) = a + b + c + d + e + f + g + h"
  proof -
    have low: "(a + b) + 256 * (a + b + c + d) + 65536 * (a + b + c + d + e + f) < 16777216"
      using le by simp
    show ?thesis unfolding swar_step3_def unat_shift p using low by simp
  qed
  then show ?thesis by (metis of_nat_unat ucast_id)
qed


text \<open>The nibbles of a word that is loaded from four bytes.\<close>

lemma unat_le_word4:
  "unat (le_word [b0, b1, b2, b3] :: u32)
   = nibs [unat b0 mod 16, unat b0 div 16, unat b1 mod 16, unat b1 div 16,
           unat b2 mod 16, unat b2 div 16, unat b3 mod 16, unat b3 div 16]"
proof -
  have add: "(ucast b OR push_bit 8 w :: u32) = ucast b + 256 * w" for b :: u8 and w
  proof -
    have "(ucast b :: u32) AND push_bit 8 w = 0"
      by (auto simp: bit_eq_iff bit_and_iff bit_ucast_iff bit_push_bit_iff dest: bit_imp_le_length)
    then show ?thesis by (simp add: push_bit_eq_mult flip: disjunctive_add_eq_or)
  qed
  have lt: "unat (b :: u8) < 256" for b using unsigned_less [of b] by simp
  have eq: "(le_word [b0, b1, b2, b3] :: u32)
      = of_nat (unat b0 + 256 * (unat b1 + 256 * (unat b2 + 256 * unat b3)))"
    by (simp add: add)
  have "unat b0 + 256 * (unat b1 + 256 * (unat b2 + 256 * unat b3)) < 2 ^ LENGTH(32)"
    using lt [of b0] lt [of b1] lt [of b2] lt [of b3] by simp
  then have "unat (le_word [b0, b1, b2, b3] :: u32)
      = unat b0 + 256 * (unat b1 + 256 * (unat b2 + 256 * unat b3))"
    by (simp only: eq unat_of_nat mod_less)
  then show ?thesis
    using div_mult_mod_eq [of "unat b0" 16] div_mult_mod_eq [of "unat b1" 16]
      div_mult_mod_eq [of "unat b2" 16] div_mult_mod_eq [of "unat b3" 16] by simp
qed

lemma bit_count8_nibbles:
  "bit_count8 b = nstep2 (nstep1 (unat b mod 16)) + nstep2 (nstep1 (unat b div 16))"
proof -
  have lt: "unat b mod 16 < 16" "unat b div 16 < 16"
    using unsigned_less [of b] by (simp_all add: div_less_iff_less_mult)
  have bit: "of_bool (bit b i) = (unat b div 2 ^ i) mod 2" for i
  proof -
    have "bit b i = bit (unat b) i" by (auto simp: bit_unsigned_iff dest: bit_imp_le_length)
    then show ?thesis by (simp add: bit_iff_odd mod_2_eq_odd)
  qed
  have "bit_count8 b = (\<Sum>i<8. (unat b div 2 ^ i) mod 2)"
    unfolding bit_count8_def by (rule sum.cong [OF refl]) (rule bit)
  also have "\<dots> = unat b mod 2 + (unat b div 2) mod 2 + (unat b div 4) mod 2 + (unat b div 8) mod 2
    + (unat b div 16) mod 2 + (unat b div 32) mod 2 + (unat b div 64) mod 2 + (unat b div 128) mod 2"
  proof -
    have "{..<8::nat} = {0, 1, 2, 3, 4, 5, 6, 7}" by auto
    then show ?thesis by simp
  qed
  also have "\<dots> = nstep2 (nstep1 (unat b mod 16)) + nstep2 (nstep1 (unat b div 16))"
  proof -
    obtain h l where b: "unat b = 16 * h + l" "l < 16"
      using that [of "unat b div 16" "unat b mod 16"] by simp
    then have hl: "unat b div 16 = h" "unat b mod 16 = l" by simp_all
    have "(16 * h + l) div 2 = 8 * h + l div 2" "(16 * h + l) div 4 = 4 * h + l div 4"
      "(16 * h + l) div 8 = 2 * h + l div 8" by arith+
    then have lo: "(unat b div 2) mod 2 = (l div 2) mod 2" "(unat b div 4) mod 2 = (l div 4) mod 2"
      "(unat b div 8) mod 2 = (l div 8) mod 2" "unat b mod 2 = l mod 2"
      unfolding b(1) by (simp_all add: mod_add_eq [symmetric] mod_mult_left_eq [symmetric])
    have hi: "unat b div 32 = h div 2" "unat b div 64 = h div 4" "unat b div 128 = h div 8"
      using div_mult2_eq [of "unat b" 16 2] div_mult2_eq [of "unat b" 16 4]
        div_mult2_eq [of "unat b" 16 8] by (simp_all add: hl)
    have "h < 16" using lt(2) unfolding hl .
    then show ?thesis
      unfolding lo hi hl by (simp only: nibble_steps(4) [OF b(2)] nibble_steps(4) add.assoc)
  qed
  finally show ?thesis .
qed

theorem swar_popcount_bytes:
  "swar_popcount (le_word [b0, b1, b2, b3])
   = of_nat (bit_count8 b0 + bit_count8 b1 + bit_count8 b2 + bit_count8 b3)"
proof -
  let ?v = "le_word [b0, b1, b2, b3] :: u32"
  let ?xs = "[unat b0 mod 16, unat b0 div 16, unat b1 mod 16, unat b1 div 16,
              unat b2 mod 16, unat b2 div 16, unat b3 mod 16, unat b3 div 16]"
  have lt: "unat b div 16 < 16" "unat b mod 16 < 16" for b :: u8
    using unsigned_less [of b] by (simp_all add: div_less_iff_less_mult)
  note n16 = nibble_steps(2) [OF lt(1)] nibble_steps(2) [OF lt(2)]
    and n4 = nibble_steps(3) [OF lt(1)] nibble_steps(3) [OF lt(2)]
  have "unat (swar_step1 ?v) = nibs (map nstep1 ?xs)"
    by (rule unat_step1) (simp_all add: unat_le_word4 lt del: le_word.simps nibs.simps)
  then have "unat (swar_step2 (swar_step1 ?v)) = nibs (map nstep2 (map nstep1 ?xs))"
    by (rule unat_step2) (simp_all add: n16)
  then show ?thesis
    unfolding swar_popcount_def
    by (subst unat_step3 [where v = "swar_step2 (swar_step1 ?v)"])
       (simp_all only: list.map n4 bit_count8_nibbles add.assoc)
qed

end
