(* ===== verification/Afl_Bitmap.thy ===== *)
theory Afl_Bitmap
  imports Afl_Popcount
begin

text \<open>
  The coverage bitmaps of \<^verbatim>\<open>afl-fuzz.c\<close>.  A bitmap is a list of
  \<^verbatim>\<open>MAP_SIZE\<close> bytes; \<^verbatim>\<open>MAP_SIZE\<close> is a constant of \<^verbatim>\<open>config.h\<close> that a build may change, and the model
  reads it off the length of the list (a multiple of 8, as any power of two above 4 is).  Each
  routine walks the map one machine word at a time, in the 64-bit and in the 32-bit flavour that
  \<^verbatim>\<open>WORD_SIZE_64\<close> selects, and is proved equal to a description in terms of single bytes.
\<close>

section \<open>New coverage\<close>

text \<open>\<^verbatim>\<open>cur[k] && vir[k] == 0xff\<close> for some byte \<^verbatim>\<open>k\<close> of the current word.\<close>

definition new_byte_in :: "u8 list \<Rightarrow> u8 list \<Rightarrow> bool" where
  "new_byte_in cur vir \<longleftrightarrow> list_ex (\<lambda>(c, v). c \<noteq> 0 \<and> v = 0xff) (zip cur vir)"

fun has_new_bits64 :: "nat \<Rightarrow> u8 list \<Rightarrow> u8 list \<Rightarrow> u8 \<Rightarrow> u8 list \<times> u8" where
  "has_new_bits64 0 cur vir ret = (vir, ret)"
| "has_new_bits64 (Suc i) cur vir ret =
     (let current = (le_word (take 8 cur) :: u64);
          virgin = (le_word (take 8 vir) :: u64);
          found = (current \<noteq> 0 \<and> current AND virgin \<noteq> 0);
          ret1 = (if found \<and> ret < 2
                  then (if new_byte_in (take 8 cur) (take 8 vir) then 2 else 1) else ret);
          virgin1 = (if found then virgin AND NOT current else virgin);
          (rest, ret2) = has_new_bits64 i (drop 8 cur) (drop 8 vir) ret1
      in (le_bytes 8 virgin1 @ rest, ret2))"

fun has_new_bits32 :: "nat \<Rightarrow> u8 list \<Rightarrow> u8 list \<Rightarrow> u8 \<Rightarrow> u8 list \<times> u8" where
  "has_new_bits32 0 cur vir ret = (vir, ret)"
| "has_new_bits32 (Suc i) cur vir ret =
     (let current = (le_word (take 4 cur) :: u32);
          virgin = (le_word (take 4 vir) :: u32);
          found = (current \<noteq> 0 \<and> current AND virgin \<noteq> 0);
          ret1 = (if found \<and> ret < 2
                  then (if new_byte_in (take 4 cur) (take 4 vir) then 2 else 1) else ret);
          virgin1 = (if found then virgin AND NOT current else virgin);
          (rest, ret2) = has_new_bits32 i (drop 4 cur) (drop 4 vir) ret1
      in (le_bytes 4 virgin1 @ rest, ret2))"

text \<open>
  The result as a function of the two maps: the virgin map loses the bits of the trace, and the
  return value is 2 for a tuple never seen, 1 for a new hit count only, 0 for nothing new.
\<close>

definition clear_seen :: "u8 list \<Rightarrow> u8 list \<Rightarrow> u8 list" where
  "clear_seen cur vir = map2 (\<lambda>v c. v AND NOT c) vir cur"

definition any_new_bit :: "u8 list \<Rightarrow> u8 list \<Rightarrow> bool" where
  "any_new_bit cur vir \<longleftrightarrow> list_ex (\<lambda>(c, v). c AND v \<noteq> 0) (zip cur vir)"

definition new_bits_level :: "u8 list \<Rightarrow> u8 list \<Rightarrow> u8" where
  "new_bits_level cur vir =
     (if new_byte_in cur vir then 2 else if any_new_bit cur vir then 1 else 0)"

text \<open>
  One step of the word loop, for any word size \<open>w\<close>: what the two flavours share.
\<close>

locale new_bits_flavour =
  fixes w :: nat
    and step :: "nat \<Rightarrow> u8 list \<Rightarrow> u8 list \<Rightarrow> u8 \<Rightarrow> u8 list \<times> u8"
  assumes step_0: "step 0 cur vir ret = (vir, ret)"
    and step_Suc: "\<lbrakk>length (take w cur) = w; length (take w vir) = w\<rbrakk> \<Longrightarrow>
      step (Suc i) cur vir ret =
        (let found = any_new_bit (take w cur) (take w vir);
             ret1 = (if found \<and> ret < 2
                     then (if new_byte_in (take w cur) (take w vir) then 2 else 1) else ret);
             (rest, ret2) = step i (drop w cur) (drop w vir) ret1
         in (clear_seen (take w cur) (take w vir) @ rest, ret2))"
begin

lemma new_byte_in_any: "new_byte_in cur vir \<Longrightarrow> any_new_bit cur vir"
proof -
  have "c \<noteq> 0 \<Longrightarrow> c AND (0xff :: u8) \<noteq> 0" for c :: u8
    using and.right_neutral [of c] by (simp add: mask_eq_exp_minus_1 flip: mask_full)
  then show "new_byte_in cur vir \<Longrightarrow> any_new_bit cur vir"
    by (auto simp: new_byte_in_def any_new_bit_def list_ex_iff)
qed

lemma level_split:
  fixes ret :: u8
  assumes "ret \<le> 2"
  shows "max (if any_new_bit c1 v1 \<and> ret < 2 then (if new_byte_in c1 v1 then 2 else 1) else ret)
             (new_bits_level c2 v2)
         = max ret (max (new_bits_level c1 v1) (new_bits_level c2 v2))"
proof -
  have "ret = 0 \<or> ret = 1 \<or> ret = 2" using assms by unat_arith
  then have "(if any_new_bit c1 v1 \<and> ret < 2 then (if new_byte_in c1 v1 then 2 else 1) else ret)
      = max ret (new_bits_level c1 v1)"
    using new_byte_in_any [of c1 v1] by (auto simp: new_bits_level_def)
  then show ?thesis by (simp add: max.assoc)
qed

lemma level_append:
  "length c1 = length v1 \<Longrightarrow>
     new_bits_level (c1 @ c2) (v1 @ v2) = max (new_bits_level c1 v1) (new_bits_level c2 v2)"
  by (auto simp: new_bits_level_def new_byte_in_def any_new_bit_def)

lemma clear_append:
  "length c1 = length v1 \<Longrightarrow> clear_seen (c1 @ c2) (v1 @ v2) = clear_seen c1 v1 @ clear_seen c2 v2"
  by (simp add: clear_seen_def)

lemma loop_level:
  assumes "length cur = w * i" and "length vir = w * i" and "ret \<le> 2"
  shows "step i cur vir ret = (clear_seen cur vir, max ret (new_bits_level cur vir))"
  using assms
proof (induction i arbitrary: cur vir ret)
  case 0
  then show ?case
    by (simp add: step_0 clear_seen_def new_bits_level_def new_byte_in_def any_new_bit_def)
next
  case (Suc i)
  let ?c = "take w cur" and ?v = "take w vir" and ?c' = "drop w cur" and ?v' = "drop w vir"
  let ?r = "if any_new_bit ?c ?v \<and> ret < 2 then (if new_byte_in ?c ?v then 2 else 1) else ret"
  have len: "length ?c = w" "length ?v = w" "length ?c' = w * i" "length ?v' = w * i"
    using Suc.prems by simp_all
  have "?r \<le> 2" using Suc.prems(3) by simp
  note IH = Suc.IH [OF len(3,4) this]
  have "step (Suc i) cur vir ret =
      (clear_seen ?c ?v @ clear_seen ?c' ?v', max ?r (new_bits_level ?c' ?v'))"
    using len by (simp add: step_Suc IH Let_def)
  also have "\<dots> = (clear_seen cur vir, max ret (new_bits_level cur vir))"
    using level_split [OF Suc.prems(3), of ?c ?v ?c' ?v']
      level_append [of ?c ?v ?c' ?v'] clear_append [of ?c ?v ?c' ?v'] len by simp
  finally show ?case .
qed

end


text \<open>The bodies of the two flavours, in terms of the bytes of one word.\<close>

lemma word_found:
  assumes "length c = n" and "length v = n" and "8 * n \<le> LENGTH('a)"
  shows "((le_word c :: 'a::len word) \<noteq> 0 \<and> (le_word c :: 'a word) AND le_word v \<noteq> 0)
         \<longleftrightarrow> any_new_bit c v"
proof -
  have "(le_word c :: 'a word) AND le_word v \<noteq> 0 \<longleftrightarrow> any_new_bit c v"
    using assms by (simp add: le_word_and le_word_eq_0_iff any_new_bit_def list_ex_iff Bex_def)
  moreover have "(le_word c :: 'a word) AND le_word v \<noteq> 0 \<Longrightarrow> (le_word c :: 'a word) \<noteq> 0" by auto
  ultimately show ?thesis by blast
qed

lemma word_clear:
  assumes "length c = n" and "length v = n" and "8 * n = LENGTH('a)"
  shows "le_bytes n ((le_word v :: 'a::len word) AND NOT (le_word c)) = clear_seen c v"
proof -
  let ?m = "map2 (\<lambda>x y. x AND NOT y) v c"
  have "le_bytes (length ?m) (le_word ?m :: 'a word) = ?m"
    by (rule le_bytes_le_word) (use assms in simp)
  then show ?thesis using assms by (simp add: le_word_and_not clear_seen_def)
qed

lemma no_new_bit_clear:
  assumes "length c = length v" and "\<not> any_new_bit c v"
  shows "clear_seen c v = v"
proof (rule nth_equalityI)
  show len: "length (clear_seen c v) = length v" using assms by (simp add: clear_seen_def)
  fix i assume "i < length (clear_seen c v)"
  then have i: "i < length v" "i < length c" using assms len by simp_all
  then have "c ! i AND v ! i = 0"
    using assms by (force simp: any_new_bit_def list_ex_iff set_zip)
  then have "v ! i AND NOT (c ! i) = v ! i"
    by (auto simp: bit_eq_iff bit_and_iff bit_not_iff)
  then show "clear_seen c v ! i = v ! i" using i by (simp add: clear_seen_def)
qed

interpretation flavour64: new_bits_flavour 8 has_new_bits64
proof
  show "has_new_bits64 0 cur vir ret = (vir, ret)" for cur vir ret by simp
next
  fix cur vir :: "u8 list" and ret :: u8 and i
  assume len: "length (take 8 cur) = 8" "length (take 8 vir) = 8"
  have "le_bytes 8 (le_word (take 8 vir) :: u64) = take 8 vir"
    using le_bytes_le_word [of "take 8 vir", where 'a = 64] len by simp
  then show "has_new_bits64 (Suc i) cur vir ret =
        (let found = any_new_bit (take 8 cur) (take 8 vir);
             ret1 = (if found \<and> ret < 2
                     then (if new_byte_in (take 8 cur) (take 8 vir) then 2 else 1) else ret);
             (rest, ret2) = has_new_bits64 i (drop 8 cur) (drop 8 vir) ret1
         in (clear_seen (take 8 cur) (take 8 vir) @ rest, ret2))"
    using word_found [OF len, where 'a = 64] word_clear [OF len, where 'a = 64]
      no_new_bit_clear [of "take 8 cur" "take 8 vir"] len
    by (cases "any_new_bit (take 8 cur) (take 8 vir)") (auto simp: Let_def)
qed

interpretation flavour32: new_bits_flavour 4 has_new_bits32
proof
  show "has_new_bits32 0 cur vir ret = (vir, ret)" for cur vir ret by simp
next
  fix cur vir :: "u8 list" and ret :: u8 and i
  assume len: "length (take 4 cur) = 4" "length (take 4 vir) = 4"
  have "le_bytes 4 (le_word (take 4 vir) :: u32) = take 4 vir"
    using le_bytes_le_word [of "take 4 vir", where 'a = 32] len by simp
  then show "has_new_bits32 (Suc i) cur vir ret =
        (let found = any_new_bit (take 4 cur) (take 4 vir);
             ret1 = (if found \<and> ret < 2
                     then (if new_byte_in (take 4 cur) (take 4 vir) then 2 else 1) else ret);
             (rest, ret2) = has_new_bits32 i (drop 4 cur) (drop 4 vir) ret1
         in (clear_seen (take 4 cur) (take 4 vir) @ rest, ret2))"
    using word_found [OF len, where 'a = 32] word_clear [OF len, where 'a = 32]
      no_new_bit_clear [of "take 4 cur" "take 4 vir"] len
    by (cases "any_new_bit (take 4 cur) (take 4 vir)") (auto simp: Let_def)
qed


text \<open>
  \<^verbatim>\<open>has_new_bits\<close> itself: the map it updates is named by pointer, and only a find in
  \<^verbatim>\<open>virgin_bits\<close> marks the bitmap as changed.
\<close>

datatype virgin_map = Virgin_bits | Virgin_tmout | Virgin_crash

record bitmap_state =
  trace_bits :: "u8 list"
  dfg_bits :: "u32 list"
  virgin_bits :: "u8 list"
  virgin_tmout :: "u8 list"
  virgin_crash :: "u8 list"
  bitmap_changed :: bool

fun get_virgin :: "virgin_map \<Rightarrow> 'a bitmap_state_scheme \<Rightarrow> u8 list" where
  "get_virgin Virgin_bits s = virgin_bits s"
| "get_virgin Virgin_tmout s = virgin_tmout s"
| "get_virgin Virgin_crash s = virgin_crash s"

fun put_virgin :: "virgin_map \<Rightarrow> u8 list \<Rightarrow> 'a bitmap_state_scheme \<Rightarrow> 'a bitmap_state_scheme" where
  "put_virgin Virgin_bits v s = s\<lparr>virgin_bits := v\<rparr>"
| "put_virgin Virgin_tmout v s = s\<lparr>virgin_tmout := v\<rparr>"
| "put_virgin Virgin_crash v s = s\<lparr>virgin_crash := v\<rparr>"

definition has_new_bits ::
  "virgin_map \<Rightarrow> 'a bitmap_state_scheme \<Rightarrow> u8 \<times> 'a bitmap_state_scheme" where
  "has_new_bits vm s =
     (let (vir, ret) = has_new_bits64 (length (get_virgin vm s) div 8) (trace_bits s)
                                      (get_virgin vm s) 0;
          s1 = put_virgin vm vir s
      in (ret, if ret \<noteq> 0 \<and> vm = Virgin_bits then s1\<lparr>bitmap_changed := True\<rparr> else s1))"

definition has_new_bits_32 ::
  "virgin_map \<Rightarrow> 'a bitmap_state_scheme \<Rightarrow> u8 \<times> 'a bitmap_state_scheme" where
  "has_new_bits_32 vm s =
     (let (vir, ret) = has_new_bits32 (length (get_virgin vm s) div 4) (trace_bits s)
                                      (get_virgin vm s) 0;
          s1 = put_virgin vm vir s
      in (ret, if ret \<noteq> 0 \<and> vm = Virgin_bits then s1\<lparr>bitmap_changed := True\<rparr> else s1))"

text \<open>The maps all have the same size, a multiple of the word size.\<close>

definition bitmaps_ok :: "'a bitmap_state_scheme \<Rightarrow> bool" where
  "bitmaps_ok s \<longleftrightarrow> 8 dvd length (trace_bits s) \<and>
     length (virgin_bits s) = length (trace_bits s) \<and>
     length (virgin_tmout s) = length (trace_bits s) \<and>
     length (virgin_crash s) = length (trace_bits s)"

lemma bitmaps_ok_virgin: "bitmaps_ok s \<Longrightarrow> length (get_virgin vm s) = length (trace_bits s)"
  by (cases vm) (auto simp: bitmaps_ok_def)

lemma new_bits_level_le: "new_bits_level c v \<le> 2"
  by (simp add: new_bits_level_def)

lemma loop64_level:
  assumes "8 dvd length cur" and "length vir = length cur"
  shows "has_new_bits64 (length vir div 8) cur vir 0 = (clear_seen cur vir, new_bits_level cur vir)"
  using flavour64.loop_level [of cur "length vir div 8" vir 0] assms
  by (simp add: max_def word_gt_0_no new_bits_level_def)

lemma loop32_level:
  assumes "4 dvd length cur" and "length vir = length cur"
  shows "has_new_bits32 (length vir div 4) cur vir 0 = (clear_seen cur vir, new_bits_level cur vir)"
  using flavour32.loop_level [of cur "length vir div 4" vir 0] assms
  by (simp add: max_def word_gt_0_no new_bits_level_def)

text \<open>
  C1: the word-at-a-time search returns 2 exactly when some byte hit by the run is pristine in the
  virgin map, 1 when only a new hit count shows up, 0 otherwise, and clears exactly the bits of
  the trace from the map.
\<close>

theorem has_new_bits_spec:
  assumes "bitmaps_ok s"
  shows "has_new_bits vm s =
    (let r = new_bits_level (trace_bits s) (get_virgin vm s);
         s1 = put_virgin vm (clear_seen (trace_bits s) (get_virgin vm s)) s
     in (r, if r \<noteq> 0 \<and> vm = Virgin_bits then s1\<lparr>bitmap_changed := True\<rparr> else s1))"
  using loop64_level [of "trace_bits s" "get_virgin vm s"] bitmaps_ok_virgin [OF assms] assms
  by (simp add: has_new_bits_def bitmaps_ok_def Let_def)


definition demo_bitmaps :: bitmap_state where
  "demo_bitmaps = \<lparr>trace_bits = [0, 1, 0, 0, 0, 0, 2, 0], dfg_bits = [3, 4],
     virgin_bits = [255, 254, 255, 255, 255, 255, 255, 255], virgin_tmout = replicate 8 255,
     virgin_crash = replicate 8 255, bitmap_changed = False\<rparr>"

lemma demo_bitmaps_ok: "bitmaps_ok demo_bitmaps"
  by (simp add: demo_bitmaps_def bitmaps_ok_def eval_nat_numeral)

theorem has_new_bits_spec_witness:
  "has_new_bits Virgin_bits demo_bitmaps =
    (2, demo_bitmaps\<lparr>virgin_bits := [255, 254, 255, 255, 255, 255, 253, 255], bitmap_changed := True\<rparr>)"
  unfolding has_new_bits_spec [OF demo_bitmaps_ok]
  by (simp add: demo_bitmaps_def new_bits_level_def new_byte_in_def clear_seen_def)

text \<open>
  C2: the 32-bit build of \<^verbatim>\<open>has_new_bits\<close> and the 64-bit build agree on every input.
\<close>

theorem has_new_bits_flavours:
  assumes "bitmaps_ok s"
  shows "has_new_bits_32 vm s = has_new_bits vm s"
proof -
  have "4 dvd length (trace_bits s)"
    using assms dvd_trans [of 4 8 "length (trace_bits s)"] by (simp add: bitmaps_ok_def)
  then have "has_new_bits32 (length (get_virgin vm s) div 4) (trace_bits s) (get_virgin vm s) 0
      = has_new_bits64 (length (get_virgin vm s) div 8) (trace_bits s) (get_virgin vm s) 0"
    using loop32_level [of "trace_bits s"] loop64_level [of "trace_bits s"]
      bitmaps_ok_virgin [OF assms] assms by (simp add: bitmaps_ok_def)
  then show ?thesis by (simp add: has_new_bits_def has_new_bits_32_def)
qed

theorem has_new_bits_flavours_witness:
  "has_new_bits_32 Virgin_tmout demo_bitmaps = has_new_bits Virgin_tmout demo_bitmaps"
  by (rule has_new_bits_flavours [OF demo_bitmaps_ok])

section \<open>Counting bits and bytes\<close>

text \<open>\<^verbatim>\<open>count_bits\<close>: the all-ones shortcut, and the branch-free population count otherwise.\<close>

definition count_bits_word :: "u8 list \<Rightarrow> u32" where
  "count_bits_word c = (let v = le_word c in if v = 0xffffffff then 32 else swar_popcount v)"

definition count_bits :: "u8 list \<Rightarrow> u32" where
  "count_bits mem = count_loop (length mem div 4) 4 count_bits_word mem 0"

text \<open>\<^verbatim>\<open>#define FF(_b) (0xff << ((_b) << 3))\<close>\<close>

definition FF :: "nat \<Rightarrow> u32" where
  "FF b = push_bit (b * 8) 0xff"

definition count_bytes_word :: "u8 list \<Rightarrow> u32" where
  "count_bytes_word c =
     (let v = le_word c in
      if v = 0 then 0
      else (if v AND FF 0 \<noteq> 0 then 1 else 0) + (if v AND FF 1 \<noteq> 0 then 1 else 0) +
           (if v AND FF 2 \<noteq> 0 then 1 else 0) + (if v AND FF 3 \<noteq> 0 then 1 else 0))"

definition count_bytes :: "u8 list \<Rightarrow> u32" where
  "count_bytes mem = count_loop (length mem div 4) 4 count_bytes_word mem 0"

definition count_non_255_word :: "u8 list \<Rightarrow> u32" where
  "count_non_255_word c =
     (let v = le_word c in
      if v = 0xffffffff then 0
      else (if v AND FF 0 \<noteq> FF 0 then 1 else 0) + (if v AND FF 1 \<noteq> FF 1 then 1 else 0) +
           (if v AND FF 2 \<noteq> FF 2 then 1 else 0) + (if v AND FF 3 \<noteq> FF 3 then 1 else 0))"

definition count_non_255_bytes :: "u8 list \<Rightarrow> u32" where
  "count_non_255_bytes mem = count_loop (length mem div 4) 4 count_non_255_word mem 0"

lemma length_4_cases:
  assumes "length c = 4"
  obtains b0 b1 b2 b3 where "c = [b0, b1, b2, b3]"
  using assms by (auto simp: numeral_eq_Suc length_Suc_conv)

lemma FF_le_word:
  "FF 0 = le_word [0xff, 0, 0, 0]" "FF 1 = le_word [0, 0xff, 0, 0]"
  "FF 2 = le_word [0, 0, 0xff, 0]" "FF 3 = le_word [0, 0, 0, 0xff]"
  by (simp_all add: FF_def)

lemma and_ff [simp]: "(b :: u8) AND 0xff = b" "0xff AND (b :: u8) = b"
proof -
  have ff: "(0xff :: u8) = -1" by simp
  show "b AND 0xff = b" "0xff AND b = b" by (simp_all only: ff and.right_neutral and.left_neutral)
qed

lemma le_word4_and_FF:
  "(le_word [b0, b1, b2, b3] :: u32) AND FF 0 = le_word [b0, 0, 0, 0]"
  "(le_word [b0, b1, b2, b3] :: u32) AND FF 1 = le_word [0, b1, 0, 0]"
  "(le_word [b0, b1, b2, b3] :: u32) AND FF 2 = le_word [0, 0, b2, 0]"
  "(le_word [b0, b1, b2, b3] :: u32) AND FF 3 = le_word [0, 0, 0, b3]"
  unfolding FF_le_word by (simp_all add: le_word_and del: le_word.simps)

lemma le_word4_inject:
  "(le_word [a0, a1, a2, a3] :: u32) = le_word [b0, b1, b2, b3] \<longleftrightarrow>
     a0 = b0 \<and> a1 = b1 \<and> a2 = b2 \<and> a3 = b3"
proof
  assume "(le_word [a0, a1, a2, a3] :: u32) = le_word [b0, b1, b2, b3]"
  then have "le_bytes (length [a0, a1, a2, a3]) (le_word [a0, a1, a2, a3] :: u32)
      = le_bytes (length [b0, b1, b2, b3]) (le_word [b0, b1, b2, b3] :: u32)"
    by (simp only: list.size)
  then have "[a0, a1, a2, a3] = [b0, b1, b2, b3]"
    by (subst (asm) (1 2) le_bytes_le_word) simp_all
  then show "a0 = b0 \<and> a1 = b1 \<and> a2 = b2 \<and> a3 = b3" by simp
qed simp

lemma ones_le_word4: "(0xffffffff :: u32) = le_word [0xff, 0xff, 0xff, 0xff]"
  by simp

interpretation bits: byte_count 4 count_bits_word bit_count8
proof
  fix c :: "u8 list" assume "length c = 4"
  then obtain b0 b1 b2 b3 where c: "c = [b0, b1, b2, b3]" by (rule length_4_cases)
  have swar: "swar_popcount (le_word c) = of_nat (sum_list (map bit_count8 c))"
    by (simp add: c swar_popcount_bytes add.assoc del: le_word.simps)
  have "swar_popcount 0xffffffff = 32" by code_simp
  with swar show "count_bits_word c = of_nat (sum_list (map bit_count8 c))"
    by (auto simp: count_bits_word_def Let_def)
qed

interpretation bytes: byte_count 4 count_bytes_word "\<lambda>b. of_bool (b \<noteq> 0)"
proof
  fix c :: "u8 list" assume "length c = 4"
  then obtain b0 b1 b2 b3 where c: "c = [b0, b1, b2, b3]" by (rule length_4_cases)
  show "count_bytes_word c = of_nat (sum_list (map (\<lambda>b. of_bool (b \<noteq> 0)) c))"
    unfolding count_bytes_word_def c Let_def le_word4_and_FF
    by (simp add: le_word_eq_0_iff del: le_word.simps)
qed

interpretation non_255: byte_count 4 count_non_255_word "\<lambda>b. of_bool (b \<noteq> 0xff)"
proof
  fix c :: "u8 list" assume "length c = 4"
  then obtain b0 b1 b2 b3 where c: "c = [b0, b1, b2, b3]" by (rule length_4_cases)
  show "count_non_255_word c = of_nat (sum_list (map (\<lambda>b. of_bool (b \<noteq> 0xff)) c))"
    unfolding count_non_255_word_def c Let_def ones_le_word4 le_word4_and_FF unfolding FF_le_word
    by (simp add: le_word4_inject del: le_word.simps)
qed

lemma sum_list_of_bool: "sum_list (map (\<lambda>x. of_bool (P x)) xs) = length (filter P xs)"
  by (induction xs) auto

text \<open>
  C3: the three counters of the status screen.  The count of set bits by shifts and adds is the
  number of bits set in the map, and the two byte counters count the nonzero bytes and the bytes
  other than 255.
\<close>

theorem count_spec:
  assumes "4 dvd length mem"
  shows "count_bits mem = of_nat (sum_list (map bit_count8 mem)) \<and>
    count_bytes mem = of_nat (length (filter (\<lambda>b. b \<noteq> 0) mem)) \<and>
    count_non_255_bytes mem = of_nat (length (filter (\<lambda>b. b \<noteq> 0xff) mem))"
proof -
  have "length mem = 4 * (length mem div 4)" using assms by simp
  from bits.loop_count [OF this, of 0] bytes.loop_count [OF this, of 0]
    non_255.loop_count [OF this, of 0]
  show ?thesis
    by (simp add: count_bits_def count_bytes_def count_non_255_bytes_def sum_list_of_bool)
qed


theorem count_spec_witness:
  "count_bytes [0, 255, 3, 0] = 2 \<and> count_non_255_bytes [0, 255, 3, 0] = 3"
proof -
  have "4 dvd length [0, 255, 3, 0 :: u8]" by (simp add: eval_nat_numeral)
  from count_spec [OF this] show ?thesis by simp
qed

section \<open>Proximity score\<close>

text \<open>\<^verbatim>\<open>while (i--) prox_score += dfg_bits[i];\<close> over the data-flow map, from its end.\<close>

fun proximity_loop :: "nat \<Rightarrow> u32 list \<Rightarrow> u64 \<Rightarrow> u64" where
  "proximity_loop 0 dfg prox_score = prox_score"
| "proximity_loop (Suc i) dfg prox_score = proximity_loop i dfg (prox_score + ucast (dfg ! i))"

definition compute_proximity_score :: "u32 list \<Rightarrow> u64" where
  "compute_proximity_score dfg = proximity_loop (length dfg) dfg 0"

lemma proximity_loop_sum:
  "i \<le> length dfg \<Longrightarrow>
     proximity_loop i dfg p = p + of_nat (sum_list (map unat (take i dfg)))"
proof (induction i arbitrary: p)
  case 0
  then show ?case by simp
next
  case (Suc i)
  then show ?case by (simp add: take_Suc_conv_app_nth add.assoc add.commute)
qed

lemma sum_list_u32_bound: "sum_list (map unat (xs :: u32 list)) \<le> length xs * (2 ^ 32 - 1)"
proof (induction xs)
  case Nil
  then show ?case by simp
next
  case (Cons x xs)
  have "unat x < 2 ^ 32" using unsigned_less [of x, where 'a = nat] by simp
  with Cons show ?case by simp
qed

text \<open>
  C4: the proximity score is the exact sum of the data-flow map: \<^verbatim>\<open>DFG_MAP_SIZE\<close> is 16284
  in \<^verbatim>\<open>config.h\<close>, and a map of up to \<open>2 ^ 32\<close> cells of 32 bits cannot overflow 64 bits.
\<close>

theorem compute_proximity_score_exact:
  assumes "length dfg \<le> 2 ^ 32"
  shows "unat (compute_proximity_score dfg) = sum_list (map unat dfg)"
proof -
  have "sum_list (map unat dfg) \<le> length dfg * (2 ^ 32 - 1)" by (rule sum_list_u32_bound)
  also have "\<dots> \<le> 2 ^ 32 * (2 ^ 32 - 1)" by (rule mult_le_mono1 [OF assms])
  also have "\<dots> < 2 ^ 64" by simp
  finally show ?thesis
    by (simp add: compute_proximity_score_def proximity_loop_sum unat_of_nat)
qed

theorem compute_proximity_score_exact_witness:
  "unat (compute_proximity_score [0xffffffff, 0xffffffff, 1]) = 0x1ffffffff"
  using compute_proximity_score_exact [of "[0xffffffff, 0xffffffff, 1]"] by simp

section \<open>Simplifying a trace\<close>

definition simplify_lookup :: "u8 \<Rightarrow> u8" where
  "simplify_lookup b = (if b = 0 then 1 else 128)"

text \<open>The bodies for 64-bit and 32-bit words: a table lookup per byte, or one store for zero.\<close>

definition simplify_word64 :: "u8 list \<Rightarrow> u8 list" where
  "simplify_word64 c =
     (if (le_word c :: u64) \<noteq> 0 then map simplify_lookup c
      else le_bytes 8 (0x0101010101010101 :: u64))"

definition simplify_word32 :: "u8 list \<Rightarrow> u8 list" where
  "simplify_word32 c =
     (if (le_word c :: u32) \<noteq> 0 then map simplify_lookup c
      else le_bytes 4 (0x01010101 :: u32))"

definition simplify_trace :: "u8 list \<Rightarrow> u8 list" where
  "simplify_trace mem = word_loop (length mem div 8) 8 simplify_word64 mem"

definition simplify_trace_32 :: "u8 list \<Rightarrow> u8 list" where
  "simplify_trace_32 mem = word_loop (length mem div 4) 4 simplify_word32 mem"

lemma zero_word_replicate:
  assumes "(le_word c :: 'a::len word) = 0" and "8 * length c \<le> LENGTH('a)"
  shows "c = replicate (length c) 0"
  using assms by (simp add: le_word_eq_0_iff replicate_length_same)

lemma simplify_zeros: "map simplify_lookup (replicate n 0) = replicate n 1"
  by (simp add: simplify_lookup_def map_replicate)

interpretation simplify64: bytewise 8 simplify_word64 simplify_lookup
proof
  fix c :: "u8 list" assume len: "length c = 8"
  have ones: "le_bytes 8 (0x0101010101010101 :: u64) = replicate 8 1" by code_simp
  show "simplify_word64 c = map simplify_lookup c"
  proof (cases "(le_word c :: u64) = 0")
    case True
    from zero_word_replicate [OF this] len have "c = replicate 8 0" by simp
    then have "map simplify_lookup c = replicate 8 1" by (simp only: simplify_zeros)
    then show ?thesis using True by (simp add: simplify_word64_def ones)
  next
    case False
    then show ?thesis by (simp add: simplify_word64_def)
  qed
qed

interpretation simplify32: bytewise 4 simplify_word32 simplify_lookup
proof
  fix c :: "u8 list" assume len: "length c = 4"
  have ones: "le_bytes 4 (0x01010101 :: u32) = replicate 4 1" by code_simp
  show "simplify_word32 c = map simplify_lookup c"
  proof (cases "(le_word c :: u32) = 0")
    case True
    from zero_word_replicate [OF this] len have "c = replicate 4 0" by simp
    then have "map simplify_lookup c = replicate 4 1" by (simp only: simplify_zeros)
    then show ?thesis using True by (simp add: simplify_word32_def ones)
  next
    case False
    then show ?thesis by (simp add: simplify_word32_def)
  qed
qed

end
