(* ===== verification/Afl_Trace.thy ===== *)
theory Afl_Trace
  imports Afl_Bitmap
begin

text \<open>
  What \<^verbatim>\<open>afl-fuzz.c\<close> does with a fresh trace: the classification of hit counts into buckets, the
  reduction of a trace to one bit per byte, and the hash of \<^verbatim>\<open>hash.h\<close> that identifies a trace.
\<close>

section \<open>Classifying hit counts\<close>

definition count_class_lookup8 :: "u8 \<Rightarrow> u8" where
  "count_class_lookup8 b =
     (if b = 0 then 0 else if b = 1 then 1 else if b = 2 then 2 else if b = 3 then 4
      else if b \<le> 7 then 8 else if b \<le> 15 then 16 else if b \<le> 31 then 32
      else if b \<le> 127 then 64 else 128)"

text \<open>The 16-bit table that \<^verbatim>\<open>init_count_class16\<close> fills by two nested loops.\<close>

definition init_count_class16 :: "(nat \<Rightarrow> u16) \<Rightarrow> (nat \<Rightarrow> u16)" where
  "init_count_class16 tbl =
     fold (\<lambda>b1 t. fold (\<lambda>b2 t. t(push_bit 8 b1 + b2 :=
              push_bit 8 (ucast (count_class_lookup8 (of_nat b1))) OR
              ucast (count_class_lookup8 (of_nat b2)))) [0..<256] t) [0..<256] tbl"

definition classify_word64 :: "(nat \<Rightarrow> u16) \<Rightarrow> u8 list \<Rightarrow> u8 list" where
  "classify_word64 tbl c =
     (if (le_word c :: u64) \<noteq> 0
      then concat (map (\<lambda>k. le_bytes 2 (tbl (unat (le_word (take 2 (drop (2 * k) c)) :: u16)))) [0..<4])
      else c)"

definition classify_word32 :: "(nat \<Rightarrow> u16) \<Rightarrow> u8 list \<Rightarrow> u8 list" where
  "classify_word32 tbl c =
     (if (le_word c :: u32) \<noteq> 0
      then concat (map (\<lambda>k. le_bytes 2 (tbl (unat (le_word (take 2 (drop (2 * k) c)) :: u16)))) [0..<2])
      else c)"

definition classify_counts :: "(nat \<Rightarrow> u16) \<Rightarrow> u8 list \<Rightarrow> u8 list" where
  "classify_counts tbl mem = word_loop (length mem div 8) 8 (classify_word64 tbl) mem"

definition classify_counts_32 :: "(nat \<Rightarrow> u16) \<Rightarrow> u8 list \<Rightarrow> u8 list" where
  "classify_counts_32 tbl mem = word_loop (length mem div 4) 4 (classify_word32 tbl) mem"


lemma fold_update_range:
  "fold (\<lambda>j t. t(base + j := g j)) [0..<n] t =
     (\<lambda>x. if base \<le> x \<and> x < base + n then g (x - base) else t x)" for base n :: nat
proof (induction n)
  case 0
  then show ?case by (auto simp: fun_eq_iff)
next
  case (Suc n)
  then show ?case by (auto simp: fun_eq_iff)
qed

lemma init_count_class16_lookup:
  assumes "w < 65536"
  shows "init_count_class16 tbl w =
    push_bit 8 (ucast (count_class_lookup8 (of_nat (w div 256)))) OR
    ucast (count_class_lookup8 (of_nat (w mod 256)))"
proof -
  let ?c = "\<lambda>b1 b2. push_bit 8 (ucast (count_class_lookup8 (of_nat b1))) OR
              ucast (count_class_lookup8 (of_nat b2)) :: u16"
  let ?row = "\<lambda>b1 t x. if 256 * b1 \<le> x \<and> x < 256 * b1 + 256 then ?c b1 (x - 256 * b1) else t x"
  have outer: "fold ?row [0..<m] tbl x = (if x < 256 * m then ?c (x div 256) (x mod 256) else tbl x)"
    for m x
  proof (induction m)
    case 0
    then show ?case by simp
  next
    case (Suc m)
    show ?case
    proof (cases "256 * m \<le> x \<and> x < 256 * m + 256")
      case True
      then obtain d where d: "x = 256 * m + d" "d < 256"
        by (metis less_eqE nat_add_left_cancel_less)
      then show ?thesis using True by simp
    next
      case False
      with Suc show ?thesis by auto
    qed
  qed
  have "(\<lambda>b1 t. fold (\<lambda>b2 t. t(push_bit 8 b1 + b2 := ?c b1 b2)) [0..<256] t) = ?row"
    unfolding fold_update_range by (simp add: push_bit_eq_mult mult.commute fun_eq_iff)
  then have "init_count_class16 tbl w = fold ?row [0..<256] tbl w"
    unfolding init_count_class16_def by (simp only:)
  moreover have "w < 256 * 256" using assms by simp
  ultimately show ?thesis unfolding outer by simp
qed

lemma unat_le_word2: "unat (le_word [b0, b1] :: u16) = unat b0 + 256 * unat b1"
proof -
  have "(ucast b0 :: u16) AND push_bit 8 (ucast b1) = 0"
    by (auto simp: bit_eq_iff bit_and_iff bit_ucast_iff bit_push_bit_iff dest: bit_imp_le_length)
  then have "(le_word [b0, b1] :: u16) = ucast b0 + 256 * ucast b1"
    by (simp add: push_bit_eq_mult flip: disjunctive_add_eq_or)
  then have eq: "(le_word [b0, b1] :: u16) = of_nat (unat b0 + 256 * unat b1)" by simp
  have lt: "unat b < 256" for b :: u8 using unsigned_less [of b] by simp
  have "unat b0 + 256 * unat b1 < 2 ^ LENGTH(16)" using lt [of b0] lt [of b1] by simp
  then show ?thesis by (simp only: eq unat_of_nat mod_less)
qed

lemma classify_pair:
  "le_bytes 2 (init_count_class16 t (unat (le_word [b0, b1] :: u16)))
   = [count_class_lookup8 b0, count_class_lookup8 b1]"
proof -
  have lt: "unat b < 256" for b :: u8 using unsigned_less [of b] by simp
  have w: "unat (le_word [b0, b1] :: u16) < 65536"
    "unat (le_word [b0, b1] :: u16) div 256 = unat b1"
    "unat (le_word [b0, b1] :: u16) mod 256 = unat b0"
    unfolding unat_le_word2 using lt [of b0] lt [of b1] by simp_all
  have "init_count_class16 t (unat (le_word [b0, b1] :: u16))
      = le_word [count_class_lookup8 b0, count_class_lookup8 b1]"
    unfolding init_count_class16_lookup [OF w(1)] w(2,3) by (simp add: or.commute)
  moreover have "le_bytes (length [c0, c1]) (le_word [c0, c1] :: u16) = [c0, c1]" for c0 c1
    by (rule le_bytes_le_word) simp
  moreover have "length [c0, c1] = 2" for c0 c1 :: u8 by simp
  ultimately show ?thesis by (simp only:)
qed

lemma classify_zeros: "map count_class_lookup8 (replicate n 0) = replicate n 0"
  by (simp add: count_class_lookup8_def map_replicate)

interpretation classify64: bytewise 8 "classify_word64 (init_count_class16 t)" count_class_lookup8
proof
  fix c :: "u8 list" assume len: "length c = 8"
  show "classify_word64 (init_count_class16 t) c = map count_class_lookup8 c"
  proof (cases "(le_word c :: u64) = 0")
    case True
    from zero_word_replicate [OF this] len have c: "c = replicate 8 0" by simp
    show ?thesis using True by (simp add: classify_word64_def) (simp only: c classify_zeros)
  next
    case False
    obtain a b d e f g h i where c: "c = [a, b, d, e, f, g, h, i]"
      using len by (auto simp: eval_nat_numeral length_Suc_conv)
    have four: "[0..<4::nat] = [0, 1, 2, 3]" by code_simp
    have drops: "take 2 (drop (2 * 0) c) = [a, b]" "take 2 (drop (2 * 1) c) = [d, e]"
      "take 2 (drop (2 * 2) c) = [f, g]" "take 2 (drop (2 * 3) c) = [h, i]"
      by (simp_all add: c)
    show ?thesis
      unfolding classify_word64_def four using False
      by (simp only: list.map drops classify_pair if_True simp_thms not_False_eq_True concat.simps append.simps)
       (simp only: c list.map)
  qed
qed

interpretation classify32: bytewise 4 "classify_word32 (init_count_class16 t)" count_class_lookup8
proof
  fix c :: "u8 list" assume len: "length c = 4"
  show "classify_word32 (init_count_class16 t) c = map count_class_lookup8 c"
  proof (cases "(le_word c :: u32) = 0")
    case True
    from zero_word_replicate [OF this] len have c: "c = replicate 4 0" by simp
    show ?thesis using True by (simp add: classify_word32_def) (simp only: c classify_zeros)
  next
    case False
    obtain a b d e where c: "c = [a, b, d, e]" using len by (rule length_4_cases)
    have two: "[0..<2::nat] = [0, 1]" by code_simp
    have drops: "take 2 (drop (2 * 0) c) = [a, b]" "take 2 (drop (2 * 1) c) = [d, e]"
      by (simp_all add: c)
    show ?thesis
      unfolding classify_word32_def two using False
      by (simp only: list.map drops classify_pair if_True simp_thms not_False_eq_True concat.simps append.simps)
       (simp only: c list.map)
  qed
qed

text \<open>
  C5: with the table \<^verbatim>\<open>init_count_class16\<close> fills, both builds of \<^verbatim>\<open>classify_counts\<close>, which look up
  two bytes at a time and skip words that are zero, put every single byte of the trace in its
  bucket; likewise both builds of \<^verbatim>\<open>simplify_trace\<close> map every byte to 1 or 128.
\<close>

theorem trace_passes_bytewise:
  assumes "8 dvd length mem"
  shows "classify_counts (init_count_class16 t) mem = map count_class_lookup8 mem \<and>
    classify_counts_32 (init_count_class16 t) mem = map count_class_lookup8 mem \<and>
    simplify_trace mem = map simplify_lookup mem \<and>
    simplify_trace_32 mem = map simplify_lookup mem"
proof -
  have l8: "length mem = 8 * (length mem div 8)" using assms by simp
  have "4 dvd length mem" using dvd_trans [OF _ assms, of 4] by simp
  then have l4: "length mem = 4 * (length mem div 4)" by simp
  show ?thesis
    unfolding classify_counts_def classify_counts_32_def simplify_trace_def simplify_trace_32_def
    using classify64.loop_bytewise [OF l8] classify32.loop_bytewise [OF l4]
      simplify64.loop_bytewise [OF l8] simplify32.loop_bytewise [OF l4] by simp
qed

theorem trace_passes_bytewise_witness:
  "classify_counts (init_count_class16 (\<lambda>_. 0)) [0, 1, 2, 3, 5, 9, 40, 200] = [0, 1, 2, 4, 8, 16, 64, 128] \<and>
   simplify_trace [0, 1, 2, 3, 5, 9, 40, 200] = [1, 128, 128, 128, 128, 128, 128, 128]"
proof -
  have "8 dvd length [0, 1, 2, 3, 5, 9, 40, 200 :: u8]" by (simp add: eval_nat_numeral)
  from trace_passes_bytewise [OF this, of "\<lambda>_. 0"] show ?thesis
    by (simp add: count_class_lookup8_def simplify_lookup_def)
qed

section \<open>One bit per byte\<close>

text \<open>\<^verbatim>\<open>dst[i >> 3] |= 1 << (i & 7)\<close> for the nonzero bytes of the source, in order.\<close>

fun minimize_loop :: "nat \<Rightarrow> u8 list \<Rightarrow> u8 list \<Rightarrow> u8 list option" where
  "minimize_loop i dst [] = Some dst"
| "minimize_loop i dst (b # src) =
     (if b \<noteq> 0
      then do { old \<leftarrow> get_at dst (drop_bit 3 i);
                dst1 \<leftarrow> set_at dst (drop_bit 3 i) (old OR push_bit (i AND 7) 1);
                minimize_loop (Suc i) dst1 src }
      else minimize_loop (Suc i) dst src)"

definition minimize_bits :: "u8 list \<Rightarrow> u8 list \<Rightarrow> u8 list option" where
  "minimize_bits dst src = minimize_loop 0 dst src"

lemma shift3: "drop_bit 3 (i::nat) = i div 8" and mask7: "i AND 7 = i mod (8::nat)"
proof -
  show "drop_bit 3 i = i div 8" by (simp add: drop_bit_eq_div)
  show "i AND 7 = i mod 8"
    using take_bit_eq_mask [of 3 i] by (simp add: take_bit_eq_mod mask_eq_exp_minus_1)
qed

lemma minimize_loop_bits:
  assumes "i + length src \<le> 8 * length dst"
  shows "\<exists>out. minimize_loop i dst src = Some out \<and> length out = length dst \<and>
    (\<forall>k < 8 * length dst. bit (out ! (k div 8)) (k mod 8) \<longleftrightarrow>
       bit (dst ! (k div 8)) (k mod 8) \<or> (i \<le> k \<and> k < i + length src \<and> src ! (k - i) \<noteq> 0))"
  using assms
proof (induction src arbitrary: i dst)
  case Nil
  then show ?case by auto
next
  case (Cons b src)
  have i: "i div 8 < length dst" using Cons.prems by simp
  let ?dst = "dst[i div 8 := dst ! (i div 8) OR push_bit (i mod 8) 1]"
  have bit_set: "bit (?dst ! (k div 8)) (k mod 8) \<longleftrightarrow> bit (dst ! (k div 8)) (k mod 8) \<or> k = i"
    if "k < 8 * length dst" for k
  proof -
    have "k = i" if "k div 8 = i div 8" "k mod 8 = i mod 8"
      using that div_mult_mod_eq [of k 8] div_mult_mod_eq [of i 8] by linarith
    moreover have "bit (2 ^ n :: u8) (k mod 8) \<longleftrightarrow> k mod 8 = n" for n
      by (auto simp: bit_exp_iff)
    ultimately show ?thesis using i by (cases "k div 8 = i div 8") (auto simp: bit_or_iff)
  qed
  have shift: "i \<le> k \<and> k < i + length (b # src) \<and> (b # src) ! (k - i) \<noteq> 0 \<longleftrightarrow>
      k = i \<and> b \<noteq> 0 \<or> Suc i \<le> k \<and> k < Suc i + length src \<and> src ! (k - Suc i) \<noteq> 0" for k
  proof (cases "k \<le> i")
    case False
    then obtain d where "k = Suc (i + d)" using less_iff_Suc_add [of i k] by auto
    then show ?thesis by simp
  qed auto
  show ?case
  proof (cases "b = 0")
    case True
    have "Suc i + length src \<le> 8 * length dst" using Cons.prems by simp
    from Cons.IH [OF this] show ?thesis unfolding shift using True by simp
  next
    case False
    have "Suc i + length src \<le> 8 * length ?dst" using Cons.prems by simp
    from Cons.IH [OF this] obtain out where out: "minimize_loop (Suc i) ?dst src = Some out"
      "length out = length dst"
      "\<forall>k < 8 * length dst. bit (out ! (k div 8)) (k mod 8) \<longleftrightarrow> bit (?dst ! (k div 8)) (k mod 8) \<or>
         Suc i \<le> k \<and> k < Suc i + length src \<and> src ! (k - Suc i) \<noteq> 0" by auto
    have "minimize_loop i dst (b # src) = Some out"
      using False i out(1) by (simp add: shift3 mask7 buf_simps)
    moreover have "bit (out ! (k div 8)) (k mod 8) \<longleftrightarrow> bit (dst ! (k div 8)) (k mod 8) \<or>
        i \<le> k \<and> k < i + length (b # src) \<and> (b # src) ! (k - i) \<noteq> 0" if "k < 8 * length dst" for k
      unfolding shift using out(3) bit_set that False by blast
    ultimately show ?thesis using out(2) by blast
  qed
qed

lemma minimize_bits_set:
  assumes "length src = 8 * length dst" and "\<forall>b \<in> set dst. b = 0"
  shows "\<exists>out. minimize_bits dst src = Some out \<and> length out = length dst \<and>
    (\<forall>k < length src. bit (out ! (k div 8)) (k mod 8) \<longleftrightarrow> src ! k \<noteq> 0)"
proof -
  have "dst ! (k div 8) = 0" if "k < 8 * length dst" for k
    using assms(2) nth_mem [of "k div 8" dst] that by (simp add: div_less_iff_less_mult mult.commute)
  moreover have "0 + length src \<le> 8 * length dst" using assms(1) by simp
  from minimize_loop_bits [OF this] obtain out where "minimize_loop 0 dst src = Some out"
    "length out = length dst"
    "\<forall>k < 8 * length dst. bit (out ! (k div 8)) (k mod 8) \<longleftrightarrow>
       bit (dst ! (k div 8)) (k mod 8) \<or> (0 \<le> k \<and> k < 0 + length src \<and> src ! (k - 0) \<noteq> 0)" by blast
  ultimately show ?thesis using assms(1) by (auto simp: minimize_bits_def)
qed

text \<open>
  The compact trace written by \<^verbatim>\<open>minimize_bits\<close> into a zeroed buffer of an eighth of the size
  stays in bounds and has bit \<open>k\<close> set exactly when byte \<open>k\<close> of the trace is nonzero.
\<close>

theorem minimize_bits_spec:
  assumes "length src = 8 * length dst" and "\<forall>b \<in> set dst. b = 0"
  shows "\<exists>out. minimize_bits dst src = Some out \<and> length out = length dst \<and>
    (\<forall>k < length src. bit (out ! (k div 8)) (k mod 8) \<longleftrightarrow> src ! k \<noteq> 0)"
  using assms by (rule minimize_bits_set)

theorem minimize_bits_spec_witness:
  "\<exists>out. minimize_bits [0] [1, 0, 0, 7, 0, 0, 0, 255] = Some out \<and> length out = length [0 :: u8] \<and>
    (\<forall>k < length [1, 0, 0, 7, 0, 0, 0, 255 :: u8]. bit (out ! (k div 8)) (k mod 8) \<longleftrightarrow> [1, 0, 0, 7, 0, 0, 0, 255 :: u8] ! k \<noteq> 0)"
  by (rule minimize_bits_spec) simp_all

section \<open>The hash of a trace\<close>

text \<open>\<^verbatim>\<open>ROL64\<close>, \<^verbatim>\<open>ROL32\<close> and \<^verbatim>\<open>hash32\<close> of \<^verbatim>\<open>hash.h\<close>, in the 64-bit and the 32-bit version.\<close>

definition ROL64 :: "u64 \<Rightarrow> nat \<Rightarrow> u64" where
  "ROL64 x r = push_bit r x OR drop_bit (64 - r) x"

definition ROL32 :: "u32 \<Rightarrow> nat \<Rightarrow> u32" where
  "ROL32 x r = push_bit r x OR drop_bit (32 - r) x"

definition hash_mix64 :: "u64 \<Rightarrow> u64 \<Rightarrow> u64" where
  "hash_mix64 h1 k =
     (let k1 = ROL64 (k * 0x87c37b91114253d5) 31 * 0x4cf5ad432745937f
      in ROL64 (h1 XOR k1) 27 * 5 + 0x52dce729)"

definition hash_final64 :: "u64 \<Rightarrow> u64" where
  "hash_final64 h =
     (let h1 = (h XOR drop_bit 33 h) * 0xff51afd7ed558ccd;
          h2 = (h1 XOR drop_bit 33 h1) * 0xc4ceb9fe1a85ec53
      in h2 XOR drop_bit 33 h2)"

fun hash_loop64 :: "nat \<Rightarrow> u8 list \<Rightarrow> u64 \<Rightarrow> u64" where
  "hash_loop64 0 key h1 = h1"
| "hash_loop64 (Suc n) key h1 = hash_loop64 n (drop 8 key) (hash_mix64 h1 (le_word (take 8 key)))"

definition hash32 :: "u8 list \<Rightarrow> u32 \<Rightarrow> u32 \<Rightarrow> u32" where
  "hash32 key len seed =
     ucast (hash_final64 (hash_loop64 (unat (drop_bit 3 len)) key (ucast (seed XOR len))))"

definition hash_mix32 :: "u32 \<Rightarrow> u32 \<Rightarrow> u32" where
  "hash_mix32 h1 k =
     (let k1 = ROL32 (k * 0xcc9e2d51) 15 * 0x1b873593
      in ROL32 (h1 XOR k1) 13 * 5 + 0xe6546b64)"

definition hash_final32 :: "u32 \<Rightarrow> u32" where
  "hash_final32 h =
     (let h1 = (h XOR drop_bit 16 h) * 0x85ebca6b;
          h2 = (h1 XOR drop_bit 13 h1) * 0xc2b2ae35
      in h2 XOR drop_bit 16 h2)"

fun hash_loop32 :: "nat \<Rightarrow> u8 list \<Rightarrow> u32 \<Rightarrow> u32" where
  "hash_loop32 0 key h1 = h1"
| "hash_loop32 (Suc n) key h1 = hash_loop32 n (drop 4 key) (hash_mix32 h1 (le_word (take 4 key)))"

definition hash32_32 :: "u8 list \<Rightarrow> u32 \<Rightarrow> u32 \<Rightarrow> u32" where
  "hash32_32 key len seed =
     hash_final32 (hash_loop32 (unat (drop_bit 2 len)) key (seed XOR len))"

text \<open>
  Every step of the mixing can be undone: multiplication by an odd constant, rotation, and
  exclusive-or with a shifted copy of itself.
\<close>

lemma mult_unit_inj:
  fixes x y c d :: "'a::len word"
  assumes "c * d = 1" and "x * c = y * c"
  shows "x = y"
proof -
  have "x * c * d = y * c * d" using assms(2) by simp
  then show ?thesis using assms(1) by (simp add: mult.assoc)
qed

lemma xor_cancel: "(h XOR (k :: 'a::len word)) = h XOR l \<longleftrightarrow> k = l"
proof
  assume "h XOR k = h XOR l"
  then have "h XOR (h XOR k) = h XOR (h XOR l)" by simp
  then show "k = l" by (simp flip: xor.assoc)
qed simp

lemma xor_cancel_right: "((k :: 'a::len word) XOR h) = l XOR h \<longleftrightarrow> k = l"
  using xor_cancel [of h k l] by (simp add: xor.commute)

lemma xorshift_inj:
  fixes x y :: "'a::len word"
  assumes eq: "x XOR drop_bit k x = y XOR drop_bit k y" and k: "0 < k"
  shows "x = y"
proof (rule bit_word_eqI)
  fix n assume "n < LENGTH('a)"
  show "bit x n = bit y n"
  proof (induction "LENGTH('a) - n" arbitrary: n rule: less_induct)
    case less
    show ?case
    proof (cases "n < LENGTH('a)")
      case True
      have "bit x (n + k) = bit y (n + k)" using less [of "n + k"] True k by simp
      moreover have "bit (x XOR drop_bit k x) n = bit (y XOR drop_bit k y) n" using eq by simp
      ultimately show ?thesis by (auto simp: bit_xor_iff bit_drop_bit_eq add.commute)
    next
      case False
      then show ?thesis by (auto dest: bit_imp_le_length)
    qed
  qed
qed

lemma rotate_inj:
  fixes x y :: "'a::len word"
  assumes eq: "push_bit r x OR drop_bit (LENGTH('a) - r) x = push_bit r y OR drop_bit (LENGTH('a) - r) y"
    and r: "r \<le> LENGTH('a)"
  shows "x = y"
proof (rule bit_word_eqI)
  fix n assume n: "n < LENGTH('a)"
  have b: "bit (push_bit r x OR drop_bit (LENGTH('a) - r) x) m
      = bit (push_bit r y OR drop_bit (LENGTH('a) - r) y) m" for m using eq by simp
  show "bit x n = bit y n"
  proof (cases "n + r < LENGTH('a)")
    case True
    then have "\<not> bit z (LENGTH('a) - r + (n + r))" for z :: "'a word"
      using r by (auto dest: bit_imp_le_length)
    with b [of "n + r"] True show ?thesis by (simp add: bit_or_iff bit_push_bit_iff bit_drop_bit_eq)
  next
    case False
    let ?m = "n - (LENGTH('a) - r)"
    have m: "LENGTH('a) - r + ?m = n" "?m < r" using False n r by auto
    with b [of ?m] show ?thesis by (simp add: bit_or_iff bit_push_bit_iff bit_drop_bit_eq)
  qed
qed

lemma ROL64_inj: "r \<le> 64 \<Longrightarrow> ROL64 x r = ROL64 y r \<longleftrightarrow> x = y"
  using rotate_inj [of r x y] by (auto simp: ROL64_def)

lemma ROL32_inj: "r \<le> 32 \<Longrightarrow> ROL32 x r = ROL32 y r \<longleftrightarrow> x = y"
  using rotate_inj [of r x y] by (auto simp: ROL32_def)

lemma mult_inverses:
  "(0x87c37b91114253d5 :: u64) * 0xa98409e882ce4d7d = 1" "(0x4cf5ad432745937f :: u64) * 0xa81e14edd9de2c7f = 1"
  "(5 :: u64) * 0xcccccccccccccccd = 1" "(0xff51afd7ed558ccd :: u64) * 0x4f74430c22a54005 = 1"
  "(0xc4ceb9fe1a85ec53 :: u64) * 0x9cb4b2f8129337db = 1"
  "(0xcc9e2d51 :: u32) * 0xdee13bb1 = 1" "(0x1b873593 :: u32) * 0x56ed309b = 1"
  "(5 :: u32) * 0xcccccccd = 1" "(0x85ebca6b :: u32) * 0xa5cb9243 = 1"
  "(0xc2b2ae35 :: u32) * 0x7ed1b41d = 1"
  by simp_all

lemmas mult_consts_inj = mult_inverses [THEN mult_unit_inj]

lemma hash_mix64_inj:
  "hash_mix64 h k = hash_mix64 h l \<longleftrightarrow> k = l" "hash_mix64 h k = hash_mix64 g k \<longleftrightarrow> h = g"
  unfolding hash_mix64_def Let_def
  by (auto simp: ROL64_inj xor_cancel xor_cancel_right dest!: mult_consts_inj(1,2,3))

lemma hash_mix32_inj:
  "hash_mix32 h k = hash_mix32 h l \<longleftrightarrow> k = l" "hash_mix32 h k = hash_mix32 g k \<longleftrightarrow> h = g"
  unfolding hash_mix32_def Let_def
  by (auto simp: ROL32_inj xor_cancel xor_cancel_right dest!: mult_consts_inj(6,7,8))

lemma hash_final64_inj: "hash_final64 h = hash_final64 g \<longleftrightarrow> h = g"
  unfolding hash_final64_def Let_def
  by (auto dest!: xorshift_inj mult_consts_inj(4,5))

lemma hash_final32_inj: "hash_final32 h = hash_final32 g \<longleftrightarrow> h = g"
  unfolding hash_final32_def Let_def
  by (auto dest!: xorshift_inj mult_consts_inj(9,10))

lemma hash_loop64_start: "hash_loop64 n key h = hash_loop64 n key g \<longleftrightarrow> h = g"
  by (induction n arbitrary: key h g) (simp_all add: hash_mix64_inj)

lemma hash_loop32_start: "hash_loop32 n key h = hash_loop32 n key g \<longleftrightarrow> h = g"
  by (induction n arbitrary: key h g) (simp_all add: hash_mix32_inj)

lemma le_word_inj:
  assumes "length xs = length ys" and "8 * length xs \<le> LENGTH('a)"
    and "(le_word xs :: 'a::len word) = le_word ys"
  shows "xs = ys"
proof -
  have "le_bytes (length xs) (le_word xs :: 'a word) = le_bytes (length ys) (le_word ys :: 'a word)"
    by (simp only: assms(1,3))
  moreover have "8 * length ys \<le> LENGTH('a)" using assms(1,2) by simp
  ultimately show ?thesis using assms(2) by (simp only: le_bytes_le_word)
qed

lemma hash_loop64_one_word:
  assumes "length w = 8" "length w' = 8" "w \<noteq> w'" "i < n"
  shows "length p = 8 * i \<Longrightarrow> hash_loop64 n (p @ w @ s) h \<noteq> hash_loop64 n (p @ w' @ s) h"
  using assms(4)
proof (induction i arbitrary: n p h)
  case 0
  then obtain m where "n = Suc m" by (cases n) auto
  then show ?case
    using 0 assms(1-3) le_word_inj [of w w', where 'a = 64]
    by (auto simp: hash_loop64_start hash_mix64_inj)
next
  case (Suc i)
  then obtain m where n: "n = Suc m" by (cases n) auto
  have "length (drop 8 p) = 8 * i" "i < m" using Suc.prems n by simp_all
  from Suc.IH [OF this] show ?case using Suc.prems(1) n by simp
qed

lemma hash_loop32_one_word:
  assumes "length w = 4" "length w' = 4" "w \<noteq> w'" "i < n"
  shows "length p = 4 * i \<Longrightarrow> hash_loop32 n (p @ w @ s) h \<noteq> hash_loop32 n (p @ w' @ s) h"
  using assms(4)
proof (induction i arbitrary: n p h)
  case 0
  then obtain m where "n = Suc m" by (cases n) auto
  then show ?case
    using 0 assms(1-3) le_word_inj [of w w', where 'a = 32]
    by (auto simp: hash_loop32_start hash_mix32_inj)
next
  case (Suc i)
  then obtain m where n: "n = Suc m" by (cases n) auto
  have "length (drop 4 p) = 4 * i" "i < m" using Suc.prems n by simp_all
  from Suc.IH [OF this] show ?case using Suc.prems(1) n by simp
qed

text \<open>
  The 32-bit build of the hash never identifies two traces of the same size that differ in a
  single aligned word: a new value of one word is always seen.
\<close>

theorem hash32_32_one_word:
  assumes "length w = 4" and "length w' = 4" and "w \<noteq> w'" and "length p = 4 * i"
    and "4 * i + 4 \<le> unat len"
  shows "hash32_32 (p @ w @ s) len seed \<noteq> hash32_32 (p @ w' @ s) len seed"
proof -
  have "unat (drop_bit 2 len) = unat len div 4"
    by (rule trans [OF unat_drop_bit_eq]) (simp add: drop_bit_eq_div)
  then have "i < unat (drop_bit 2 len)" using assms(5) by simp
  from hash_loop32_one_word [OF assms(1-3) this assms(4)] show ?thesis
    by (simp add: hash32_32_def hash_final32_inj)
qed

theorem hash32_32_one_word_witness:
  "hash32_32 ([9, 9, 9, 9] @ [1, 2, 3, 4] @ []) 8 0xa5b35705 \<noteq> hash32_32 ([9, 9, 9, 9] @ [1, 2, 3, 5] @ []) 8 0xa5b35705"
  by (rule hash32_32_one_word [where i = 1]) simp_all

text \<open>
  The 64-bit build keeps two such traces apart up to its final 64-bit state, of which the
  returned hash is the low half.
\<close>

theorem hash32_one_word:
  assumes "length w = 8" and "length w' = 8" and "w \<noteq> w'" and "length p = 8 * i"
    and "8 * i + 8 \<le> unat len"
  shows "\<exists>h g. h \<noteq> g \<and> hash32 (p @ w @ s) len seed = ucast (h :: u64) \<and>
    hash32 (p @ w' @ s) len seed = ucast (g :: u64) \<and>
    h = hash_final64 (hash_loop64 (unat len div 8) (p @ w @ s) (ucast (seed XOR len))) \<and>
    g = hash_final64 (hash_loop64 (unat len div 8) (p @ w' @ s) (ucast (seed XOR len)))"
proof -
  have n: "unat (drop_bit 3 len) = unat len div 8"
    by (rule trans [OF unat_drop_bit_eq]) (simp add: drop_bit_eq_div)
  have "i < unat len div 8" using assms(5) by simp
  from hash_loop64_one_word [OF assms(1-3) this assms(4)] show ?thesis
    by (simp add: hash32_def n hash_final64_inj)
qed

theorem hash32_one_word_witness:
  "\<exists>h g. h \<noteq> g \<and> hash32 ([] @ replicate 8 1 @ []) 8 0xa5b35705 = ucast (h :: u64) \<and>
    hash32 ([] @ replicate 8 2 @ []) 8 0xa5b35705 = ucast (g :: u64)"
proof -
  have "replicate 8 1 \<noteq> replicate 8 (2 :: u8)" by simp
  then show ?thesis
    using hash32_one_word [where w = "replicate 8 1" and w' = "replicate 8 2" and p = "[]" and i = 0
        and len = 8 and s = "[]" and seed = "0xa5b35705"] by auto
qed

end
