(* ===== verification/Afl_Queue.thy ===== *)
theory Afl_Queue
  imports Afl_Trace "HOL-Library.Multiset"
begin

text \<open>
  The seed queue of \<^verbatim>\<open>afl-fuzz.c\<close>: a linked list in the heap, kept in descending order of the
  proximity score, with a table of shortcuts to every hundredth entry and a pointer to the first
  entry not handled in the current cycle.  Pointers are numbers, \<open>None\<close> is \<^verbatim>\<open>NULL\<close>, and the heap is a
  partial map, so that following a dangling pointer is \<open>None\<close> too.  The traversals are partial
  functions: \<open>None\<close> is also a traversal that never returns.
\<close>

section \<open>Entries and the queue\<close>

record queue_entry =
  q_fname :: string
  q_len :: u32
  q_cal_failed :: u8
  q_trim_done :: bool
  q_was_fuzzed :: bool
  q_handled_in_cycle :: bool
  q_passed_det :: bool
  q_has_new_cov :: bool
  q_var_behavior :: bool
  q_favored :: bool
  q_fs_redundant :: bool
  q_bitmap_size :: u32
  q_exec_cksum :: u32
  q_prox_score :: u64
  q_entry_id :: u32
  q_exec_us :: u64
  q_handicap :: u64
  q_depth :: u64
  q_trace_mini :: "u8 list option"
  q_tc_ref :: u32
  q_next :: "nat option"

type_synonym entry_heap = "nat \<rightharpoonup> queue_entry"

record queue_state = bitmap_state +
  entries :: entry_heap
  queue :: "nat option"
  queue_cur :: "nat option"
  queue_last :: "nat option"
  first_unhandled :: "nat option"
  shortcut_per_100 :: "nat option list"
  queued_paths :: u32
  pending_not_fuzzed :: u32
  cur_depth :: u32
  max_depth :: u32
  cycles_wo_finds :: u64
  last_path_time :: u64

definition upd_entry :: "nat \<Rightarrow> (queue_entry \<Rightarrow> queue_entry) \<Rightarrow> entry_heap \<Rightarrow> entry_heap option" where
  "upd_entry p f h = (case h p of None \<Rightarrow> None | Some e \<Rightarrow> Some (h(p \<mapsto> f e)))"

text \<open>\<^verbatim>\<open>ck_alloc\<close> zeroes the entry.\<close>

definition zero_entry :: queue_entry where
  "zero_entry = \<lparr>q_fname = [], q_len = 0, q_cal_failed = 0, q_trim_done = False,
     q_was_fuzzed = False, q_handled_in_cycle = False, q_passed_det = False, q_has_new_cov = False,
     q_var_behavior = False, q_favored = False, q_fs_redundant = False, q_bitmap_size = 0,
     q_exec_cksum = 0, q_prox_score = 0, q_entry_id = 0, q_exec_us = 0, q_handicap = 0,
     q_depth = 0, q_trace_mini = None, q_tc_ref = 0, q_next = None\<rparr>"

section \<open>Insertion\<close>

text \<open>
  The traversal of \<^verbatim>\<open>sorted_insert_to_queue\<close>: it refreshes the shortcuts and the first unhandled
  entry, and links \<open>q\<close> behind \<open>p\<close> at the end of the list or before a smaller score.
\<close>

definition note_position :: "u32 \<Rightarrow> nat \<Rightarrow> queue_entry \<Rightarrow> 'a queue_state_scheme \<Rightarrow> 'a queue_state_scheme" where
  "note_position i p e s =
     (let s1 = (if i mod 100 = 0 \<and> i div 100 < 1024
                then s\<lparr>shortcut_per_100 := (shortcut_per_100 s)[unat (i div 100) := Some p]\<rparr> else s)
      in if first_unhandled s1 = None \<and> \<not> q_handled_in_cycle e
         then s1\<lparr>first_unhandled := Some p\<rparr> else s1)"

definition insert_here :: "nat \<Rightarrow> queue_entry \<Rightarrow> entry_heap \<Rightarrow> bool option" where
  "insert_here q e h =
     (case q_next e of
        None \<Rightarrow> Some True
      | Some n \<Rightarrow> do { en \<leftarrow> h n; eq \<leftarrow> h q; Some (q_prox_score en < q_prox_score eq) })"

partial_function (option) insert_loop ::
  "nat \<Rightarrow> bool \<Rightarrow> u32 \<Rightarrow> nat option \<Rightarrow> 'a queue_state_scheme \<Rightarrow> 'a queue_state_scheme option" where
  "insert_loop q is_inserted i q_probe s =
     (case q_probe of
        None \<Rightarrow> Some s
      | Some p \<Rightarrow> do {
          e \<leftarrow> entries s p;
          let s1 = note_position i p e s;
          now \<leftarrow> (if is_inserted then Some False else insert_here q e (entries s1));
          h1 \<leftarrow> (if now then upd_entry q (q_next_update (\<lambda>_. q_next e)) (entries s1)
                 else Some (entries s1));
          h2 \<leftarrow> (if now then upd_entry p (q_next_update (\<lambda>_. Some q)) h1 else Some h1);
          e2 \<leftarrow> h2 p;
          insert_loop q (is_inserted \<or> now) (i + 1) (q_next e2) (s1\<lparr>entries := h2\<rparr>) })"

definition sorted_insert_to_queue ::
  "nat \<Rightarrow> 'a queue_state_scheme \<Rightarrow> 'a queue_state_scheme option" where
  "sorted_insert_to_queue q s =
     (case queue s of
        None \<Rightarrow> Some (s\<lparr>queue := Some q, shortcut_per_100 := (shortcut_per_100 s)[0 := Some q]\<rparr>)
      | Some first \<Rightarrow> do {
          let s0 = s\<lparr>first_unhandled := None\<rparr>;
          eh \<leftarrow> entries s0 first;
          eq \<leftarrow> entries s0 q;
          if q_prox_score eh < q_prox_score eq
          then do {
            h1 \<leftarrow> upd_entry q (q_next_update (\<lambda>_. Some first)) (entries s0);
            insert_loop q True 0 (Some q) (s0\<lparr>entries := h1, queue := Some q\<rparr>) }
          else insert_loop q False 0 (Some first) s0 })"

text \<open>
  \<^verbatim>\<open>add_to_queue\<close>: \<open>p\<close> is the address \<^verbatim>\<open>ck_alloc\<close> returns and \<open>now\<close> the clock.
\<close>

definition add_to_queue ::
  "nat \<Rightarrow> u64 \<Rightarrow> string \<Rightarrow> u32 \<Rightarrow> bool \<Rightarrow> u64 \<Rightarrow> 'a queue_state_scheme \<Rightarrow> 'a queue_state_scheme option" where
  "add_to_queue p now fname flen passed_det prox_score s =
     (let e = zero_entry\<lparr>q_fname := fname, q_len := flen, q_depth := ucast (cur_depth s + 1),
                q_passed_det := passed_det, q_prox_score := prox_score,
                q_entry_id := queued_paths s\<rparr>;
          s1 = s\<lparr>entries := (entries s)(p \<mapsto> e),
                 max_depth := (if q_depth e > ucast (max_depth s) then ucast (q_depth e)
                               else max_depth s)\<rparr>
      in do {
        s2 \<leftarrow> sorted_insert_to_queue p s1;
        Some (s2\<lparr>queue_last := Some p, queued_paths := queued_paths s2 + 1,
                 pending_not_fuzzed := pending_not_fuzzed s2 + 1, cycles_wo_finds := 0,
                 last_path_time := now\<rparr>) })"

section \<open>Sorting and destroying the queue\<close>

partial_function (option) sort_loop ::
  "nat option \<Rightarrow> 'a queue_state_scheme \<Rightarrow> 'a queue_state_scheme option" where
  "sort_loop q_cur s =
     (case q_cur of
        None \<Rightarrow> Some s
      | Some p \<Rightarrow> do {
          e \<leftarrow> entries s p;
          h1 \<leftarrow> upd_entry p (q_next_update (\<lambda>_. None)) (entries s);
          s1 \<leftarrow> sorted_insert_to_queue p (s\<lparr>entries := h1\<rparr>);
          sort_loop (q_next e) s1 })"

definition sort_queue :: "'a queue_state_scheme \<Rightarrow> 'a queue_state_scheme option" where
  "sort_queue s = sort_loop (queue s) (s\<lparr>queue := None, shortcut_per_100 := replicate 1024 None\<rparr>)"

partial_function (option) destroy_loop :: "nat option \<Rightarrow> entry_heap \<Rightarrow> entry_heap option" where
  "destroy_loop q h =
     (case q of
        None \<Rightarrow> Some h
      | Some p \<Rightarrow> do { e \<leftarrow> h p; destroy_loop (q_next e) (h(p := None)) })"

definition destroy_queue :: "'a queue_state_scheme \<Rightarrow> 'a queue_state_scheme option" where
  "destroy_queue s = do { h \<leftarrow> destroy_loop (queue s) (entries s); Some (s\<lparr>entries := h\<rparr>) }"

section \<open>The queue as a list\<close>

fun qpath :: "entry_heap \<Rightarrow> nat option \<Rightarrow> nat list \<Rightarrow> bool" where
  "qpath h p [] \<longleftrightarrow> p = None"
| "qpath h p (x # xs) \<longleftrightarrow> p = Some x \<and> (case h x of None \<Rightarrow> False | Some e \<Rightarrow> qpath h (q_next e) xs)"

definition score_in :: "entry_heap \<Rightarrow> nat \<Rightarrow> u64" where
  "score_in h p = (case h p of None \<Rightarrow> 0 | Some e \<Rightarrow> q_prox_score e)"

text \<open>Two heaps with the same entries, up to the links between them.\<close>

definition unlinked :: "entry_heap \<Rightarrow> entry_heap" where
  "unlinked h = (\<lambda>p. map_option (q_next_update (\<lambda>_. None)) (h p))"

lemma unlinked_eqD:
  assumes "unlinked h = unlinked h'"
  shows "h x = None \<longleftrightarrow> h' x = None"
    and "\<lbrakk>h x = Some e; h' x = Some e'\<rbrakk> \<Longrightarrow> e\<lparr>q_next := None\<rparr> = e'\<lparr>q_next := None\<rparr>"
proof -
  have "map_option (q_next_update (\<lambda>_. None)) (h x) = map_option (q_next_update (\<lambda>_. None)) (h' x)"
    using assms by (simp add: unlinked_def fun_eq_iff)
  then show "h x = None \<longleftrightarrow> h' x = None"
    and "\<lbrakk>h x = Some e; h' x = Some e'\<rbrakk> \<Longrightarrow> e\<lparr>q_next := None\<rparr> = e'\<lparr>q_next := None\<rparr>"
    by (auto simp: map_option_case split: option.splits)
qed

lemma unlinked_upd_next: "h p = Some e \<Longrightarrow> unlinked (h(p \<mapsto> e\<lparr>q_next := n\<rparr>)) = unlinked h"
  by (auto simp: unlinked_def fun_eq_iff)

lemma unlinked_score:
  assumes "unlinked h = unlinked h'"
  shows "score_in h p = score_in h' p"
proof (cases "h p")
  case None
  then show ?thesis using unlinked_eqD(1) [OF assms, of p] by (simp add: score_in_def)
next
  case (Some e)
  then obtain e' where e': "h' p = Some e'" using unlinked_eqD(1) [OF assms, of p] by fastforce
  from arg_cong [OF unlinked_eqD(2) [OF assms Some e'], of q_prox_score]
  show ?thesis using Some e' by (simp add: score_in_def)
qed

lemma qpath_agree: "qpath h p xs \<Longrightarrow> (\<And>x. x \<in> set xs \<Longrightarrow> h' x = h x) \<Longrightarrow> qpath h' p xs"
  by (induction xs arbitrary: p) (auto split: option.splits)

lemma qpath_in_dom: "qpath h p xs \<Longrightarrow> x \<in> set xs \<Longrightarrow> h x \<noteq> None"
  by (induction xs arbitrary: p) (auto split: option.splits)

text \<open>What a traversal notes, as a function of the list of entries.\<close>

fun note_all :: "u32 \<Rightarrow> nat list \<Rightarrow> entry_heap \<Rightarrow> 'a queue_state_scheme \<Rightarrow> 'a queue_state_scheme" where
  "note_all i [] h s = s"
| "note_all i (p # ps) h s =
     (case h p of None \<Rightarrow> s | Some e \<Rightarrow> note_all (i + 1) ps h (note_position i p e s))"

lemma note_position_entries [simp]:
  "entries (note_position i p e s) = entries s"
  "note_position i p e (s\<lparr>entries := h\<rparr>) = (note_position i p e s)\<lparr>entries := h\<rparr>"
  by (auto simp: note_position_def Let_def)

lemma note_position_link [simp]: "note_position i p (e\<lparr>q_next := n\<rparr>) s = note_position i p e s"
  by (simp add: note_position_def)

lemma note_all_entries [simp]:
  "entries (note_all i ps h s) = entries s"
  "note_all i ps h (s\<lparr>entries := h'\<rparr>) = (note_all i ps h s)\<lparr>entries := h'\<rparr>"
  by (induction ps arbitrary: i s) (auto split: option.splits)

lemma note_all_unlinked:
  assumes "unlinked h = unlinked h'"
  shows "note_all i ps h s = note_all i ps h' s"
proof (induction ps arbitrary: i s)
  case Nil
  then show ?case by simp
next
  case (Cons p ps)
  show ?case
  proof (cases "h p")
    case None
    then show ?thesis using unlinked_eqD(1) [OF assms, of p] by simp
  next
    case (Some e)
    then obtain e' where e': "h' p = Some e'" using unlinked_eqD(1) [OF assms, of p] by fastforce
    have "note_position i p e s = note_position i p (e\<lparr>q_next := None\<rparr>) s" by simp
    also have "\<dots> = note_position i p e' s"
      using unlinked_eqD(2) [OF assms Some e'] by (metis note_position_link)
    finally show ?thesis using Some e' Cons by simp
  qed
qed

text \<open>Past the point of insertion the traversal only takes notes.\<close>

lemma insert_loop_inserted:
  "qpath (entries s) p ys \<Longrightarrow> insert_loop q True i p s = Some (note_all i ys (entries s) s)"
proof (induction ys arbitrary: p i s)
  case Nil
  then show ?case by (simp add: insert_loop.simps)
next
  case (Cons y ys)
  then obtain e where e: "p = Some y" "entries s y = Some e" "qpath (entries s) (q_next e) ys"
    by (auto split: option.splits)
  have "insert_loop q True i p s = insert_loop q True (i + 1) (q_next e) (note_position i y e s)"
    using e(1,2) by (simp add: insert_loop.simps [of q True i "Some y"])
  then show ?case using Cons.IH [of "note_position i y e s"] e by simp
qed

lemma insert_loop_inserted_heap:
  "qpath h p ys \<Longrightarrow>
     insert_loop q True i p (s\<lparr>entries := h\<rparr>) = Some ((note_all i ys h s)\<lparr>entries := h\<rparr>)"
  using insert_loop_inserted [of "s\<lparr>entries := h\<rparr>" p ys q i] by simp

definition insert_by_score :: "(nat \<Rightarrow> u64) \<Rightarrow> nat \<Rightarrow> nat list \<Rightarrow> nat list" where
  "insert_by_score f q xs = takeWhile (\<lambda>x. f q \<le> f x) xs @ q # dropWhile (\<lambda>x. f q \<le> f x) xs"

lemma insert_loop_spec:
  assumes "qpath (entries s) (Some x) (x # ys)" and "distinct (x # ys)" and "q \<notin> set (x # ys)"
    and "entries s q \<noteq> None"
  defines "zs \<equiv> x # insert_by_score (score_in (entries s)) q ys"
  shows "\<exists>h'. insert_loop q False i (Some x) s = Some ((note_all i zs (entries s) s)\<lparr>entries := h'\<rparr>) \<and>
    qpath h' (Some x) zs \<and> unlinked h' = unlinked (entries s) \<and>
    (\<forall>p. p \<notin> insert q (set (x # ys)) \<longrightarrow> h' p = entries s p)"
  using assms(1-4) unfolding zs_def
proof (induction ys arbitrary: x i s)
  case Nil
  then obtain ex eq where e: "entries s x = Some ex" "q_next ex = None" "entries s q = Some eq"
    by (auto split: option.splits)
  let ?h = "(entries s)(q \<mapsto> eq\<lparr>q_next := None\<rparr>, x \<mapsto> ex\<lparr>q_next := Some q\<rparr>)"
  have path: "qpath ?h (Some q) [q]" using Nil.prems e by auto
  have un: "unlinked ?h = unlinked (entries s)"
    using e Nil.prems(3) by (simp add: unlinked_upd_next)
  have "insert_loop q False i (Some x) s = insert_loop q True (i + 1) (Some q)
      ((note_position i x ex s)\<lparr>entries := ?h\<rparr>)"
    using e Nil.prems(3) by (simp add: insert_loop.simps [of q False i "Some x"] insert_here_def upd_entry_def Let_def)
  also have "\<dots> = Some ((note_all (i + 1) [q] ?h (note_position i x ex s))\<lparr>entries := ?h\<rparr>)"
    by (rule insert_loop_inserted_heap [OF path])
  also have "note_all (i + 1) [q] ?h (note_position i x ex s) = note_all i [x, q] (entries s) s"
    using note_all_unlinked [OF un, of "i + 1" "[q]"] e Nil.prems(3) by simp
  finally have "insert_loop q False i (Some x) s =
      Some ((note_all i [x, q] (entries s) s)\<lparr>entries := ?h\<rparr>)" .
  moreover have "qpath ?h (Some x) [x, q]" using path by simp
  moreover have "\<forall>p. p \<notin> insert q (set [x]) \<longrightarrow> ?h p = entries s p" by simp
  moreover have "insert_by_score (score_in (entries s)) q [] = [q]" by (simp add: insert_by_score_def)
  ultimately show ?case using un by metis
next
  case (Cons y ys)
  then obtain ex ey eq where e: "entries s x = Some ex" "q_next ex = Some y" "entries s y = Some ey"
    "entries s q = Some eq" "qpath (entries s) (q_next ey) ys"
    by (auto split: option.splits)
  have path_y: "qpath (entries s) (Some y) (y # ys)" using e by simp
  have ne: "x \<noteq> y" "q \<noteq> x" "q \<noteq> y" "x \<notin> set ys" "q \<notin> set ys" "y \<notin> set ys"
    using Cons.prems(2,3) by auto
  show ?case
  proof (cases "q_prox_score ey < q_prox_score eq")
    case True
    then have "\<not> q_prox_score eq \<le> q_prox_score ey" by simp
    then have zs: "insert_by_score (score_in (entries s)) q (y # ys) = q # y # ys"
      using e by (simp add: insert_by_score_def score_in_def del: linorder_not_le)
    let ?h = "(entries s)(q \<mapsto> eq\<lparr>q_next := Some y\<rparr>, x \<mapsto> ex\<lparr>q_next := Some q\<rparr>)"
    have "qpath ?h (Some y) (y # ys)"
      by (rule qpath_agree [OF path_y]) (use ne in auto)
    then have path: "qpath ?h (Some q) (q # y # ys)" using ne by simp
    have un: "unlinked ?h = unlinked (entries s)"
      using e ne by (simp add: unlinked_upd_next)
    have "insert_loop q False i (Some x) s = insert_loop q True (i + 1) (Some q)
        ((note_position i x ex s)\<lparr>entries := ?h\<rparr>)"
      using e ne True by (simp add: insert_loop.simps [of q False i "Some x"] insert_here_def upd_entry_def Let_def)
    also have "\<dots> = Some ((note_all (i + 1) (q # y # ys) ?h (note_position i x ex s))\<lparr>entries := ?h\<rparr>)"
      by (rule insert_loop_inserted_heap [OF path])
    also have "note_all (i + 1) (q # y # ys) ?h (note_position i x ex s)
        = note_all i (x # q # y # ys) (entries s) s"
      by (simp only: note_all.simps(2) [of i x] e(1) option.case note_all_unlinked [OF un])
    finally have "insert_loop q False i (Some x) s =
        Some ((note_all i (x # q # y # ys) (entries s) s)\<lparr>entries := ?h\<rparr>)" .
    moreover have "qpath ?h (Some x) (x # q # y # ys)" using path by simp
    moreover have "\<forall>p. p \<notin> insert q (set (x # y # ys)) \<longrightarrow> ?h p = entries s p" by simp
    ultimately show ?thesis using un unfolding zs by blast
  next
    case False
    then have zs: "insert_by_score (score_in (entries s)) q (y # ys)
        = y # insert_by_score (score_in (entries s)) q ys"
      using e by (simp add: insert_by_score_def score_in_def not_less)
    let ?s = "note_position i x ex s"
    have same: "?s\<lparr>entries := entries s\<rparr> = ?s"
      by (simp flip: note_position_entries(2) del: note_position_entries(2))
    have step: "insert_loop q False i (Some x) s = insert_loop q False (i + 1) (Some y) ?s"
      using e ne False by (simp add: same insert_loop.simps [of q False i "Some x"] insert_here_def Let_def)
    have "qpath (entries ?s) (Some y) (y # ys)" "distinct (y # ys)" "q \<notin> set (y # ys)" "entries ?s q \<noteq> None"
      using path_y Cons.prems by auto
    from Cons.IH [OF this, of "i + 1"] obtain h' where h':
      "insert_loop q False (i + 1) (Some y) ?s = Some ((note_all (i + 1) (y # insert_by_score (score_in (entries s)) q ys) (entries s) ?s)\<lparr>entries := h'\<rparr>)"
      "qpath h' (Some y) (y # insert_by_score (score_in (entries s)) q ys)"
      "unlinked h' = unlinked (entries s)" "\<forall>p. p \<notin> insert q (set (y # ys)) \<longrightarrow> h' p = entries s p" by auto
    have "h' x = Some ex" using h'(4) ne e by simp
    then show ?thesis using h' step e by (intro exI [of _ h']) (auto simp: zs)
  qed
qed

section \<open>Sorting by stable insertion\<close>

text \<open>
  The contract between one insertion and the sort built from it: insertion adds the element, keeps
  a descending list descending, and places the element behind all elements with its key.
\<close>

locale stable_insertion =
  fixes key :: "'a \<Rightarrow> 'k::linorder" and ins :: "'a \<Rightarrow> 'a list \<Rightarrow> 'a list"
  assumes ins_mset: "mset (ins x xs) = add_mset x (mset xs)"
    and ins_sorted: "sorted_wrt (\<lambda>a b. key b \<le> key a) xs \<Longrightarrow> sorted_wrt (\<lambda>a b. key b \<le> key a) (ins x xs)"
    and ins_stable: "sorted_wrt (\<lambda>a b. key b \<le> key a) xs \<Longrightarrow>
      [y \<leftarrow> ins x xs. key y = k] = [y \<leftarrow> xs. key y = k] @ [y \<leftarrow> [x]. key y = k]"
begin

lemma fold_mset: "mset (fold ins xs ys) = mset xs + mset ys"
  by (induction xs arbitrary: ys) (auto simp: ins_mset)

lemma fold_sorted:
  "sorted_wrt (\<lambda>a b. key b \<le> key a) ys \<Longrightarrow> sorted_wrt (\<lambda>a b. key b \<le> key a) (fold ins xs ys)"
  by (induction xs arbitrary: ys) (auto simp: ins_sorted)

lemma fold_stable: "sorted_wrt (\<lambda>a b. key b \<le> key a) ys \<Longrightarrow>
    [y \<leftarrow> fold ins xs ys. key y = k] = [y \<leftarrow> ys. key y = k] @ [y \<leftarrow> xs. key y = k]"
  by (induction xs arbitrary: ys) (auto simp: ins_stable ins_sorted)

lemma rev_sorted: "sorted_wrt (\<lambda>a b. key b \<le> key a) xs \<Longrightarrow> sorted (map key (rev xs))"
  by (simp add: sorted_wrt_rev sorted_wrt_map)

text \<open>Inserting one by one is the library's stable sort, read backwards.\<close>

lemma fold_is_sort: "fold ins xs [] = rev (sort_key key (rev xs))"
proof -
  have "sort_key key (rev xs) = rev (fold ins xs [])"
  proof (rule properties_for_sort_key)
    show "mset (rev (fold ins xs [])) = mset (rev xs)" by (simp add: fold_mset)
    show "filter (\<lambda>y. key k = key y) (rev (fold ins xs [])) = filter (\<lambda>y. key k = key y) (rev xs)" for k
      using fold_stable [of "[]" "key k" xs] by (simp add: rev_filter eq_commute flip: rev_filter)
    show "sorted (map key (rev (fold ins xs [])))"
      using rev_sorted [OF fold_sorted [of "[]" xs]] by simp
  qed
  then show ?thesis by simp
qed

end

lemma insert_by_score_set: "set (insert_by_score f q xs) = insert q (set xs)"
proof -
  have "set xs = set (takeWhile (\<lambda>x. f q \<le> f x) xs) \<union> set (dropWhile (\<lambda>x. f q \<le> f x) xs)"
    by (metis set_append takeWhile_dropWhile_id)
  then show ?thesis by (auto simp: insert_by_score_def)
qed

lemma insert_by_score_mset: "mset (insert_by_score f q xs) = add_mset q (mset xs)"
proof -
  have "mset xs = mset (takeWhile (\<lambda>x. f q \<le> f x) xs) + mset (dropWhile (\<lambda>x. f q \<le> f x) xs)"
    by (metis mset_append takeWhile_dropWhile_id)
  then show ?thesis by (simp add: insert_by_score_def)
qed

lemma insert_by_score_length [simp]: "length (insert_by_score f q xs) = Suc (length xs)"
  using arg_cong [OF insert_by_score_mset [of f q xs], of size] by simp

lemma insert_by_score_cong:
  "(\<And>p. f p = g p) \<Longrightarrow> insert_by_score f q xs = insert_by_score g q xs"
  by (simp add: insert_by_score_def)

interpretation by_score: stable_insertion f "insert_by_score f" for f
proof
  fix x xs
  show "mset (insert_by_score f x xs) = add_mset x (mset xs)" by (rule insert_by_score_mset)
  show "sorted_wrt (\<lambda>a b. f b \<le> f a) (insert_by_score f x xs)"
    if "sorted_wrt (\<lambda>a b. f b \<le> f a) xs"
    using that
  proof (induction xs)
    case Nil
    then show ?case by (simp add: insert_by_score_def)
  next
    case (Cons y ys)
    show ?case
    proof (cases "f x \<le> f y")
      case True
      then have "insert_by_score f x (y # ys) = y # insert_by_score f x ys"
        by (simp add: insert_by_score_def)
      then show ?thesis using Cons True by (auto simp: insert_by_score_set)
    next
      case False
      then have "insert_by_score f x (y # ys) = x # y # ys" by (simp add: insert_by_score_def)
      then show ?thesis using Cons False by fastforce
    qed
  qed
next
  fix x xs k
  show "[y \<leftarrow> insert_by_score f x xs. f y = k] = [y \<leftarrow> xs. f y = k] @ [y \<leftarrow> [x]. f y = k]"
    if "sorted_wrt (\<lambda>a b. f b \<le> f a) xs"
    using that
  proof (induction xs)
    case Nil
    then show ?case by (simp add: insert_by_score_def)
  next
    case (Cons y ys)
    show ?case
    proof (cases "f x \<le> f y")
      case True
      then have "insert_by_score f x (y # ys) = y # insert_by_score f x ys"
        by (simp add: insert_by_score_def)
      then show ?thesis using Cons True by simp
    next
      case False
      then have "insert_by_score f x (y # ys) = x # y # ys" by (simp add: insert_by_score_def)
      moreover have "[z \<leftarrow> y # ys. f z = k] = []" if "f x = k"
        using Cons.prems False that by (fastforce simp: filter_empty_conv)
      ultimately show ?thesis by auto
    qed
  qed
qed

section \<open>What insertion leaves behind\<close>

definition unhandled :: "entry_heap \<Rightarrow> nat \<Rightarrow> bool" where
  "unhandled h p \<longleftrightarrow> (case h p of None \<Rightarrow> False | Some e \<Rightarrow> \<not> q_handled_in_cycle e)"

text \<open>The shortcuts point to every hundredth entry, as far as the table reaches.\<close>

definition shortcuts_ok :: "'a queue_state_scheme \<Rightarrow> nat list \<Rightarrow> bool" where
  "shortcuts_ok s xs \<longleftrightarrow> length (shortcut_per_100 s) = 1024 \<and>
     (\<forall>k < 1024. 100 * k < length xs \<longrightarrow> shortcut_per_100 s ! k = Some (xs ! (100 * k)))"

text \<open>The queue holds the entries \<open>xs\<close> in descending order of their scores.\<close>

definition queue_ok :: "'a queue_state_scheme \<Rightarrow> nat list \<Rightarrow> bool" where
  "queue_ok s xs \<longleftrightarrow> qpath (entries s) (queue s) xs \<and> distinct xs \<and>
     sorted_wrt (\<lambda>a b. score_in (entries s) b \<le> score_in (entries s) a) xs"

lemma note_all_shortcuts:
  assumes "\<forall>p \<in> set ps. h p \<noteq> None" and "unat i + length ps < 2 ^ 32"
    and "length (shortcut_per_100 s) = 1024"
  shows "length (shortcut_per_100 (note_all i ps h s)) = 1024 \<and>
    (\<forall>k < 1024. shortcut_per_100 (note_all i ps h s) ! k =
       (if unat i \<le> 100 * k \<and> 100 * k < unat i + length ps then Some (ps ! (100 * k - unat i))
        else shortcut_per_100 s ! k))"
  using assms
proof (induction ps arbitrary: i s)
  case Nil
  then show ?case by auto
next
  case (Cons p ps)
  then obtain e where e: "h p = Some e" by auto
  have Si: "unat (i + 1) = Suc (unat i)"
    using Cons.prems(2) unat_add_lem [of i 1] by simp
  let ?s = "note_position i p e s"
  have m: "unat (i mod 100) = unat i mod 100" "unat (i div 100) = unat i div 100"
    by (simp_all add: unat_mod unat_div)
  have cond: "i mod 100 = 0 \<and> i div 100 < 1024 \<longleftrightarrow> 100 dvd unat i \<and> unat i div 100 < 1024"
    using m by (simp add: word_less_nat_alt unat_eq_zero [symmetric] dvd_eq_mod_eq_0 del: unat_eq_zero)
  have sc: "shortcut_per_100 ?s =
      (if 100 dvd unat i \<and> unat i div 100 < 1024 then (shortcut_per_100 s)[unat i div 100 := Some p]
       else shortcut_per_100 s)"
    unfolding note_position_def Let_def cond m(2)
    by (cases "100 dvd unat i \<and> unat i div 100 < 1024") auto
  have "length (shortcut_per_100 ?s) = 1024" using sc Cons.prems(3) by simp
  moreover have "unat (i + 1) + length ps < 2 ^ 32" using Cons.prems(2) Si by simp
  ultimately have IH: "length (shortcut_per_100 (note_all (i + 1) ps h ?s)) = 1024 \<and>
    (\<forall>k < 1024. shortcut_per_100 (note_all (i + 1) ps h ?s) ! k =
       (if Suc (unat i) \<le> 100 * k \<and> 100 * k < Suc (unat i) + length ps then Some (ps ! (100 * k - Suc (unat i)))
        else shortcut_per_100 ?s ! k))"
    using Cons.IH [of "i + 1" ?s] Cons.prems(1) Si by simp
  have here: "shortcut_per_100 ?s ! k = (if 100 * k = unat i then Some p else shortcut_per_100 s ! k)"
    if "k < 1024" for k
  proof -
    have "100 dvd unat i" if "100 * k = unat i" using dvd_triv_left [of 100 k] unfolding that .
    then show ?thesis using that Cons.prems(3) by (auto simp: sc)
  qed
  show ?case
  proof (intro conjI allI impI)
    show "length (shortcut_per_100 (note_all i (p # ps) h s)) = 1024" using IH e by simp
    fix k :: nat assume k: "k < 1024"
    have "shortcut_per_100 (note_all i (p # ps) h s) ! k =
       (if Suc (unat i) \<le> 100 * k \<and> 100 * k < Suc (unat i) + length ps then Some (ps ! (100 * k - Suc (unat i)))
        else if 100 * k = unat i then Some p else shortcut_per_100 s ! k)"
      using IH e k here [OF k] by simp
    moreover consider "100 * k < unat i" | "100 * k = unat i" | d where "100 * k = Suc (unat i + d)"
      using linorder_less_linear [of "100 * k" "unat i"] less_imp_Suc_add [of "unat i" "100 * k"] by blast
    ultimately show "shortcut_per_100 (note_all i (p # ps) h s) ! k =
       (if unat i \<le> 100 * k \<and> 100 * k < unat i + length (p # ps) then Some ((p # ps) ! (100 * k - unat i))
        else shortcut_per_100 s ! k)"
      by cases auto
  qed
qed

lemma note_all_first_unhandled:
  assumes "\<forall>p \<in> set ps. h p \<noteq> None"
  shows "first_unhandled (note_all i ps h s) =
    (case first_unhandled s of None \<Rightarrow> find (unhandled h) ps | Some p \<Rightarrow> Some p)"
  using assms
proof (induction ps arbitrary: i s)
  case Nil
  then show ?case by (simp split: option.splits)
next
  case (Cons p ps)
  then obtain e where e: "h p = Some e" by auto
  have "first_unhandled (note_position i p e s) =
      (if first_unhandled s = None \<and> \<not> q_handled_in_cycle e then Some p else first_unhandled s)"
    by (simp add: note_position_def Let_def)
  then show ?case using Cons e by (auto simp: unhandled_def split: option.splits)
qed

lemma note_position_other [simp]:
  "queue (note_position i p e s) = queue s"
  by (simp add: note_position_def Let_def)

lemma note_all_other [simp]: "queue (note_all i ps h s) = queue s"
  by (induction ps arbitrary: i s) (auto split: option.splits)

text \<open>The fields insertion does not touch.\<close>

definition other_fields :: "'a queue_state_scheme \<Rightarrow> 'a queue_state_scheme" where
  "other_fields s = s\<lparr>entries := Map.empty, queue := None, first_unhandled := None,
     shortcut_per_100 := []\<rparr>"

lemma other_fields_upd [simp]:
  "other_fields (s\<lparr>entries := h\<rparr>) = other_fields s" "other_fields (s\<lparr>queue := q\<rparr>) = other_fields s"
  "other_fields (s\<lparr>first_unhandled := q\<rparr>) = other_fields s"
  "other_fields (s\<lparr>shortcut_per_100 := sc\<rparr>) = other_fields s"
  by (simp_all add: other_fields_def)

lemma note_all_other_fields [simp]: "other_fields (note_all i ps h s) = other_fields s"
proof (induction ps arbitrary: i s)
  case (Cons p ps)
  have "other_fields (note_position i p e s) = other_fields s" for e
    by (simp add: note_position_def Let_def)
  with Cons show ?case by (simp split: option.splits)
qed simp

lemma other_fieldsD:
  assumes "other_fields s = other_fields s'"
  shows "queued_paths s = queued_paths s'" "pending_not_fuzzed s = pending_not_fuzzed s'"
    "max_depth s = max_depth s'" "cur_depth s = cur_depth s'" "queue_cur s = queue_cur s'"
    "queue_state.more s = queue_state.more s'" "trace_bits s = trace_bits s'"
    "virgin_bits s = virgin_bits s'"
  using arg_cong [OF assms, of queued_paths] arg_cong [OF assms, of pending_not_fuzzed]
    arg_cong [OF assms, of max_depth] arg_cong [OF assms, of cur_depth]
    arg_cong [OF assms, of queue_cur] arg_cong [OF assms, of queue_state.more]
    arg_cong [OF assms, of trace_bits] arg_cong [OF assms, of virgin_bits]
  by (simp_all add: other_fields_def)

lemma note_all_from_start:
  assumes "\<forall>p \<in> set ps. h p \<noteq> None" and "length ps < 2 ^ 32"
    and "length (shortcut_per_100 s) = 1024"
  shows "shortcuts_ok (note_all 0 ps h s) ps"
  using note_all_shortcuts [OF assms(1) _ assms(3), of 0] assms(2) by (simp add: shortcuts_ok_def)

text \<open>Insertion, on any list: the abstract effect, and what it does not touch.\<close>

lemma sorted_insert_spec:
  assumes path: "qpath (entries s) (queue s) xs" and dist: "distinct xs" and q: "q \<notin> set xs"
    and eq: "entries s q = Some eq" "q_next eq = None"
    and sc: "length (shortcut_per_100 s) = 1024" and len: "length xs + 1 < 2 ^ 32"
  defines "ys \<equiv> insert_by_score (score_in (entries s)) q xs"
  shows "\<exists>s'. sorted_insert_to_queue q s = Some s' \<and> qpath (entries s') (queue s') ys \<and>
    unlinked (entries s') = unlinked (entries s) \<and>
    (\<forall>p. p \<notin> insert q (set xs) \<longrightarrow> entries s' p = entries s p) \<and>
    shortcuts_ok s' ys \<and> other_fields s' = other_fields s \<and>
    first_unhandled s' = (if xs = [] then first_unhandled s else find (unhandled (entries s)) ys)"
proof (cases xs)
  case Nil
  then have "queue s = None" "ys = [q]" using path by (auto simp: ys_def insert_by_score_def)
  then show ?thesis using Nil eq sc by (auto simp: sorted_insert_to_queue_def shortcuts_ok_def)
next
  case (Cons x zs)
  then obtain ex where ex: "queue s = Some x" "entries s x = Some ex" "qpath (entries s) (q_next ex) zs"
    using path by (auto split: option.splits)
  let ?s = "s\<lparr>first_unhandled := None\<rparr>"
  have dom: "\<forall>p \<in> set ys. entries s p \<noteq> None"
    using qpath_in_dom [OF path] eq unfolding ys_def by (auto simp: insert_by_score_set)
  have len_ys: "length ys < 2 ^ 32" using len by (simp add: ys_def)
  note noted = note_all_from_start [OF dom len_ys] note_all_first_unhandled [OF dom, of 0]
  show ?thesis
  proof (cases "q_prox_score ex < q_prox_score eq")
    case True
    then have "\<not> q_prox_score eq \<le> q_prox_score ex" by simp
    then have ys: "ys = q # xs"
      using ex eq Cons by (simp add: ys_def insert_by_score_def score_in_def del: linorder_not_le)
    let ?h = "(entries s)(q \<mapsto> eq\<lparr>q_next := Some x\<rparr>)"
    let ?s0 = "?s\<lparr>entries := ?h, queue := Some q\<rparr>"
    let ?s' = "note_all 0 ys (entries s) ?s0"
    have "qpath ?h (Some x) xs"
      by (rule qpath_agree [of "entries s"]) (use path ex q in auto)
    then have p: "qpath ?h (Some q) ys" using Cons ys by simp
    have un: "unlinked ?h = unlinked (entries s)" using eq by (simp add: unlinked_upd_next)
    have "sorted_insert_to_queue q s = insert_loop q True 0 (Some q) ?s0"
      using ex eq True by (simp add: sorted_insert_to_queue_def upd_entry_def)
    also have "\<dots> = Some ?s'"
      using insert_loop_inserted [of ?s0 "Some q" ys q 0] p note_all_unlinked [OF un] by simp
    finally have "sorted_insert_to_queue q s = Some ?s'" .
    moreover have "shortcuts_ok ?s' ys" using noted(1) [of ?s0] sc by simp
    ultimately show ?thesis using p un Cons noted(2) [of ?s0] by simp
  next
    case False
    then have ys: "ys = x # insert_by_score (score_in (entries s)) q zs"
      using ex eq Cons by (simp add: ys_def insert_by_score_def score_in_def not_less)
    have "qpath (entries ?s) (Some x) (x # zs)" "distinct (x # zs)" "q \<notin> set (x # zs)" "entries ?s q \<noteq> None"
      using path ex dist q eq Cons by auto
    from insert_loop_spec [OF this, of 0] obtain h' where h':
      "insert_loop q False 0 (Some x) ?s = Some ((note_all 0 ys (entries s) ?s)\<lparr>entries := h'\<rparr>)"
      "qpath h' (Some x) ys" "unlinked h' = unlinked (entries s)"
      "\<forall>p. p \<notin> insert q (set xs) \<longrightarrow> h' p = entries s p" using ys Cons by auto
    have "sorted_insert_to_queue q s = Some ((note_all 0 ys (entries s) ?s)\<lparr>entries := h'\<rparr>)"
      using ex eq False h'(1) by (simp add: sorted_insert_to_queue_def)
    then show ?thesis using h' Cons ex(1) noted [of ?s] sc by (simp add: shortcuts_ok_def)
  qed
qed

lemma unhandled_unlinked:
  assumes "unlinked h = unlinked h'"
  shows "unhandled h = unhandled h'"
proof
  fix p
  show "unhandled h p = unhandled h' p"
  proof (cases "h p")
    case None
    then show ?thesis using unlinked_eqD(1) [OF assms, of p] by (simp add: unhandled_def)
  next
    case (Some e)
    then obtain e' where e': "h' p = Some e'" using unlinked_eqD(1) [OF assms, of p] by fastforce
    from arg_cong [OF unlinked_eqD(2) [OF assms Some e'], of q_handled_in_cycle]
    show ?thesis using Some e' by (simp add: unhandled_def)
  qed
qed

lemma insert_by_score_distinct: "distinct (insert_by_score f q xs) \<longleftrightarrow> distinct (q # xs)"
  by (rule mset_eq_imp_distinct_iff) (simp add: insert_by_score_mset)

lemma sorted_insert_keeps:
  assumes "queue_ok s xs" and "q \<notin> set xs" and "entries s q = Some e" and "q_next e = None"
    and "length (shortcut_per_100 s) = 1024" and "length xs + 1 < 2 ^ 32"
  defines "ys \<equiv> insert_by_score (score_in (entries s)) q xs"
  shows "\<exists>s'. sorted_insert_to_queue q s = Some s' \<and> queue_ok s' ys \<and> shortcuts_ok s' ys \<and>
    unlinked (entries s') = unlinked (entries s) \<and> other_fields s' = other_fields s \<and>
    (xs \<noteq> [] \<longrightarrow> first_unhandled s' = find (unhandled (entries s')) ys)"
proof -
  have d: "distinct xs" "qpath (entries s) (queue s) xs" using assms(1) by (auto simp: queue_ok_def)
  from sorted_insert_spec [OF d(2,1) assms(2-6)] obtain s' where s':
    "sorted_insert_to_queue q s = Some s'" "qpath (entries s') (queue s') ys"
    "unlinked (entries s') = unlinked (entries s)" "shortcuts_ok s' ys"
    "other_fields s' = other_fields s"
    "first_unhandled s' = (if xs = [] then first_unhandled s else find (unhandled (entries s)) ys)"
    unfolding ys_def by blast
  have "score_in (entries s') = score_in (entries s)" by (rule ext) (rule unlinked_score [OF s'(3)])
  moreover have "sorted_wrt (\<lambda>a b. score_in (entries s) b \<le> score_in (entries s) a) ys"
    unfolding ys_def using assms(1) by (intro by_score.ins_sorted) (simp add: queue_ok_def)
  moreover have "distinct ys"
    using d(1) assms(2) by (simp add: ys_def insert_by_score_distinct)
  ultimately have "queue_ok s' ys" using s'(2) by (simp add: queue_ok_def)
  then show ?thesis using s' unhandled_unlinked [OF s'(3)] by auto
qed

text \<open>
  C6: inserting a new entry into a queue that is in descending order of proximity keeps the
  queue an acyclic list in that order, puts the entry behind all entries of the same score, points
  every shortcut at the entry it stands for, and makes \<^verbatim>\<open>first_unhandled\<close> the first entry of the
  new queue that is not handled; the traversal always ends.
\<close>

theorem sorted_insert_keeps_queue:
  assumes "queue_ok s xs" and "q \<notin> set xs" and "entries s q = Some e" and "q_next e = None"
    and "length (shortcut_per_100 s) = 1024" and "length xs + 1 < 2 ^ 32"
  defines "ys \<equiv> insert_by_score (score_in (entries s)) q xs"
  shows "\<exists>s'. sorted_insert_to_queue q s = Some s' \<and> queue_ok s' ys \<and> shortcuts_ok s' ys \<and>
    unlinked (entries s') = unlinked (entries s) \<and> other_fields s' = other_fields s \<and>
    (xs \<noteq> [] \<longrightarrow> first_unhandled s' = find (unhandled (entries s')) ys)"
  unfolding ys_def by (rule sorted_insert_keeps [OF assms(1-6)])

definition demo_entry :: "u64 \<Rightarrow> nat option \<Rightarrow> queue_entry" where
  "demo_entry score n = zero_entry\<lparr>q_fname := ''q/id'', q_len := 4, q_prox_score := score, q_next := n\<rparr>"

definition demo_queue :: queue_state where
  "demo_queue = \<lparr>trace_bits = replicate 8 0, dfg_bits = [], virgin_bits = replicate 8 255,
     virgin_tmout = replicate 8 255, virgin_crash = replicate 8 255, bitmap_changed = False,
     entries = [1 \<mapsto> demo_entry 9 (Some 2), 2 \<mapsto> demo_entry 5 None, 3 \<mapsto> demo_entry 7 None],
     queue = Some 1, queue_cur = None, queue_last = None, first_unhandled = None,
     shortcut_per_100 = replicate 1024 None, queued_paths = 2, pending_not_fuzzed = 2,
     cur_depth = 0, max_depth = 1, cycles_wo_finds = 0, last_path_time = 0\<rparr>"

lemma demo_queue_ok: "queue_ok demo_queue [1, 2]"
  by (simp add: queue_ok_def demo_queue_def demo_entry_def score_in_def)

theorem sorted_insert_keeps_queue_witness:
  "\<exists>s'. sorted_insert_to_queue 3 demo_queue = Some s' \<and> queue_ok s' [1, 3, 2]"
proof -
  have "insert_by_score (score_in (entries demo_queue)) 3 [1, 2] = [1, 3, 2]"
    by (simp add: insert_by_score_def score_in_def demo_queue_def demo_entry_def)
  moreover have "(3 :: nat) \<notin> set [1, 2]" "entries demo_queue 3 = Some (demo_entry 7 None)"
    "q_next (demo_entry 7 None) = None" "length (shortcut_per_100 demo_queue) = 1024"
    "length [1 :: nat, 2] + 1 < 2 ^ 32" by (simp_all add: demo_queue_def demo_entry_def)
  ultimately show ?thesis using sorted_insert_keeps_queue [OF demo_queue_ok] by metis
qed

lemma sort_loop_spec:
  assumes "qpath (entries s) cur rest" and "qpath (entries s) (queue s) done" and "distinct (done @ rest)"
    and "length (done @ rest) < 2 ^ 32" and "shortcuts_ok s done"
  defines "ys \<equiv> fold (insert_by_score (score_in (entries s))) rest done"
  shows "\<exists>s'. sort_loop cur s = Some s' \<and> qpath (entries s') (queue s') ys \<and>
    unlinked (entries s') = unlinked (entries s) \<and> shortcuts_ok s' ys \<and>
    (rest \<noteq> [] \<and> 1 < length (done @ rest) \<longrightarrow> first_unhandled s' = find (unhandled (entries s)) ys)"
  using assms(1-5) unfolding ys_def
proof (induction rest arbitrary: cur s "done")
  case Nil
  then show ?case by (auto simp: sort_loop.simps)
next
  case (Cons p rest)
  then obtain e where e: "cur = Some p" "entries s p = Some e" "qpath (entries s) (q_next e) rest"
    by (auto split: option.splits)
  let ?h = "(entries s)(p \<mapsto> e\<lparr>q_next := None\<rparr>)" and ?f = "score_in (entries s)"
  let ?s = "s\<lparr>entries := ?h\<rparr>" and ?done = "insert_by_score (score_in (entries s)) p done"
  have un: "unlinked ?h = unlinked (entries s)" using e by (simp add: unlinked_upd_next)
  have f: "score_in ?h = ?f" by (rule ext) (rule unlinked_score [OF un])
  have "qpath (entries ?s) (queue ?s) done"
    using Cons.prems(2,3) by (auto intro: qpath_agree [of "entries s"])
  moreover have "length (shortcut_per_100 ?s) = 1024" using Cons.prems(5) by (simp add: shortcuts_ok_def)
  ultimately obtain s2 where s2: "sorted_insert_to_queue p ?s = Some s2"
    "qpath (entries s2) (queue s2) ?done" "unlinked (entries s2) = unlinked (entries s)"
    "\<forall>x. x \<notin> insert p (set done) \<longrightarrow> entries s2 x = entries s x" "shortcuts_ok s2 ?done"
    "first_unhandled s2 = (if done = [] then first_unhandled s else find (unhandled (entries s)) ?done)"
    using sorted_insert_spec [of ?s "done" p "e\<lparr>q_next := None\<rparr>"] Cons.prems(3,4) un f
      unhandled_unlinked [OF un] by auto
  have f2: "score_in (entries s2) = ?f" by (rule ext) (rule unlinked_score [OF s2(3)])
  have "qpath (entries s2) (q_next e) rest"
    by (rule qpath_agree [OF e(3)]) (use s2(4) Cons.prems(3) in auto)
  moreover have "distinct (?done @ rest)"
    using Cons.prems(3) by (auto simp: insert_by_score_set insert_by_score_distinct)
  ultimately obtain s' where s': "sort_loop (q_next e) s2 = Some s'"
    "qpath (entries s') (queue s') (fold (insert_by_score ?f) rest ?done)"
    "unlinked (entries s') = unlinked (entries s)"
    "shortcuts_ok s' (fold (insert_by_score ?f) rest ?done)"
    "rest \<noteq> [] \<and> 1 < length (?done @ rest) \<longrightarrow>
      first_unhandled s' = find (unhandled (entries s)) (fold (insert_by_score ?f) rest ?done)"
    using Cons.IH [of s2 "q_next e" ?done] s2 Cons.prems(4) f2 unhandled_unlinked [OF s2(3)] by auto
  have step: "sort_loop cur s = sort_loop (q_next e) s2"
    using e s2(1) by (simp add: sort_loop.simps [of "Some p"] upd_entry_def)
  show ?case
  proof (cases "rest = []")
    case True
    then have "s' = s2" using s'(1) e(3) by (simp add: sort_loop.simps)
    then show ?thesis using s' step True s2(6) by auto
  next
    case False
    then show ?thesis using s' step by (cases rest) auto
  qed
qed

text \<open>
  C7: sorting the queue after the dry run yields the stable sort of the queue by descending
  proximity (the library's sort, read backwards), with the same entries and correct shortcuts.
\<close>

theorem sort_queue_stable_sort:
  assumes "qpath (entries s) (queue s) xs" and "distinct xs" and "length xs < 2 ^ 32"
  defines "ys \<equiv> rev (sort_key (score_in (entries s)) (rev xs))"
  shows "\<exists>s'. sort_queue s = Some s' \<and> queue_ok s' ys \<and> shortcuts_ok s' ys \<and>
    unlinked (entries s') = unlinked (entries s) \<and>
    (1 < length xs \<longrightarrow> first_unhandled s' = find (unhandled (entries s')) ys)"
proof -
  let ?s = "s\<lparr>queue := None, shortcut_per_100 := replicate 1024 None\<rparr>"
  have ys: "fold (insert_by_score (score_in (entries s))) xs [] = ys"
    unfolding ys_def by (rule by_score.fold_is_sort)
  have "qpath (entries ?s) (queue s) xs" "qpath (entries ?s) (queue ?s) []" "distinct ([] @ xs)"
    "length ([] @ xs) < 2 ^ 32" "shortcuts_ok ?s []"
    using assms(1-3) by (auto simp: shortcuts_ok_def)
  from sort_loop_spec [OF this] obtain s' where s': "sort_queue s = Some s'"
    "qpath (entries s') (queue s') ys" "unlinked (entries s') = unlinked (entries s)"
    "shortcuts_ok s' ys" "xs \<noteq> [] \<and> 1 < length xs \<longrightarrow> first_unhandled s' = find (unhandled (entries s)) ys"
    unfolding sort_queue_def using ys by auto
  have "score_in (entries s') = score_in (entries s)" by (rule ext) (rule unlinked_score [OF s'(3)])
  moreover have "sorted_wrt (\<lambda>a b. score_in (entries s) b \<le> score_in (entries s) a) ys"
    unfolding ys [symmetric] by (rule by_score.fold_sorted) simp
  moreover have "distinct ys" using assms(2) by (simp add: ys_def)
  ultimately have "queue_ok s' ys" using s'(2) by (simp add: queue_ok_def)
  then show ?thesis using s' unhandled_unlinked [OF s'(3)] by auto
qed

theorem sort_queue_stable_sort_witness:
  "\<exists>s'. sort_queue (demo_queue\<lparr>queue := Some 2, entries := [1 \<mapsto> demo_entry 9 None, 2 \<mapsto> demo_entry 5 (Some 1)]\<rparr>) = Some s' \<and>
     queue_ok s' [1, 2]"
  using sort_queue_stable_sort [of "demo_queue\<lparr>queue := Some 2, entries := [1 \<mapsto> demo_entry 9 None, 2 \<mapsto> demo_entry 5 (Some 1)]\<rparr>" "[2, 1]"]
  by (auto simp: demo_entry_def score_in_def)

lemma destroy_loop_frees:
  "qpath h p xs \<Longrightarrow> distinct xs \<Longrightarrow> destroy_loop p h = Some (h |` (- set xs))"
proof (induction xs arbitrary: p h)
  case Nil
  then show ?case by (simp add: destroy_loop.simps)
next
  case (Cons x xs)
  then obtain e where e: "p = Some x" "h x = Some e" "qpath h (q_next e) xs"
    by (auto split: option.splits)
  have "qpath (h(x := None)) (q_next e) xs"
    by (rule qpath_agree [OF e(3)]) (use Cons.prems(2) in auto)
  then have "destroy_loop (q_next e) (h(x := None)) = Some ((h(x := None)) |` (- set xs))"
    by (rule Cons.IH) (use Cons.prems(2) in simp)
  moreover have "destroy_loop p h = destroy_loop (q_next e) (h(x := None))"
    using e by (simp add: destroy_loop.simps [of "Some x"])
  ultimately have "destroy_loop p h = Some ((h(x := None)) |` (- set xs))" by simp
  also have "(h(x := None)) |` (- set xs) = h |` (- set (x # xs))"
    by (auto simp: restrict_map_def fun_eq_iff)
  finally show ?case .
qed

text \<open>
  C8: destroying the queue reads no freed entry, frees every entry of it once and nothing else.
\<close>

theorem destroy_queue_frees_all:
  assumes "queue_ok s xs"
  shows "destroy_queue s = Some (s\<lparr>entries := entries s |` (- set xs)\<rparr>)"
  using assms destroy_loop_frees by (auto simp: queue_ok_def destroy_queue_def)

theorem destroy_queue_frees_all_witness:
  "destroy_queue demo_queue = Some (demo_queue\<lparr>entries := entries demo_queue |` (- set [1, 2])\<rparr>)"
  by (rule destroy_queue_frees_all [OF demo_queue_ok])

lemma unat_ucast_up: "unat (ucast (x :: u32) :: u64) = unat x"
proof -
  have "unat x < 2 ^ 64" using unsigned_less [of x, where 'a = nat] by simp
  then show ?thesis by (simp add: unsigned_ucast_eq take_bit_nat_eq_self)
qed

lemma ucast_down_up: "(ucast (ucast (x :: u32) :: u64) :: u32) = x"
  by (rule bit_word_eqI) (simp add: bit_ucast_iff)

text \<open>What \<^verbatim>\<open>add_to_queue\<close> does to the whole state.\<close>

definition new_entry :: "string \<Rightarrow> u32 \<Rightarrow> bool \<Rightarrow> u64 \<Rightarrow> 'a queue_state_scheme \<Rightarrow> queue_entry" where
  "new_entry fname flen passed_det prox_score s =
     zero_entry\<lparr>q_fname := fname, q_len := flen, q_depth := ucast (cur_depth s + 1),
       q_passed_det := passed_det, q_prox_score := prox_score, q_entry_id := queued_paths s\<rparr>"

lemma add_to_queue_run:
  fixes fname flen passed_det prox_score
  assumes "queue_ok s xs" and "entries s p = None" and "length (shortcut_per_100 s) = 1024"
    and "length xs + 1 < 2 ^ 32"
  defines "h \<equiv> (entries s)(p \<mapsto> new_entry fname flen passed_det prox_score s)"
  shows "\<exists>s'. add_to_queue p now fname flen passed_det prox_score s = Some s' \<and>
    queue_ok s' (insert_by_score (score_in h) p xs) \<and> shortcuts_ok s' (insert_by_score (score_in h) p xs) \<and>
    unlinked (entries s') = unlinked h \<and> max_depth s' = max (max_depth s) (cur_depth s + 1) \<and>
    queued_paths s' = queued_paths s + 1 \<and> pending_not_fuzzed s' = pending_not_fuzzed s + 1 \<and>
    queue_last s' = Some p \<and> cycles_wo_finds s' = 0 \<and> last_path_time s' = now \<and>
    cur_depth s' = cur_depth s \<and> queue_state.more s' = queue_state.more s"
proof -
  define e where "e = new_entry fname flen passed_det prox_score s"
  define s1 where "s1 = s\<lparr>entries := (entries s)(p \<mapsto> e),
                 max_depth := (if q_depth e > ucast (max_depth s) then ucast (q_depth e) else max_depth s)\<rparr>"
  have path: "qpath (entries s) (queue s) xs" using assms(1) by (simp add: queue_ok_def)
  have p: "p \<notin> set xs" using qpath_in_dom [OF path, of p] assms(2) by blast
  have same: "score_in (entries s1) x = score_in (entries s) x" if "x \<in> set xs" for x
    using that p by (auto simp: s1_def score_in_def)
  have "qpath (entries s1) (queue s) xs"
    by (rule qpath_agree [OF path]) (use p in \<open>auto simp: s1_def\<close>)
  moreover have "sorted_wrt (\<lambda>a b. score_in (entries s1) b \<le> score_in (entries s1) a) xs"
  proof (rule sorted_wrt_mono_rel)
    show "sorted_wrt (\<lambda>a b. score_in (entries s) b \<le> score_in (entries s) a) xs"
      using assms(1) by (simp add: queue_ok_def)
  qed (simp only: same)
  ultimately have ok: "queue_ok s1 xs" using assms(1) by (simp add: queue_ok_def s1_def)
  have e: "entries s1 p = Some e" "q_next e = None" by (simp_all add: s1_def e_def new_entry_def zero_entry_def)
  have sc: "length (shortcut_per_100 s1) = 1024" using assms(3) by (simp add: s1_def)
  have h: "entries s1 = h" by (simp add: s1_def h_def e_def)
  obtain s2 where s2: "sorted_insert_to_queue p s1 = Some s2"
    "queue_ok s2 (insert_by_score (score_in (entries s1)) p xs)"
    "shortcuts_ok s2 (insert_by_score (score_in (entries s1)) p xs)"
    "unlinked (entries s2) = unlinked (entries s1)" "other_fields s2 = other_fields s1"
    using sorted_insert_keeps [OF ok p e sc assms(4)] by (elim exE conjE) (rule that)
  have depth: "max_depth s1 = max (max_depth s) (cur_depth s + 1)"
    by (auto simp: s1_def e_def new_entry_def max_def word_le_nat_alt word_less_nat_alt unat_ucast_up
        ucast_down_up intro: unsigned_word_eqI)
  have "cur_depth s1 = cur_depth s" "queue_state.more s1 = queue_state.more s" by (simp_all add: s1_def)
  then show ?thesis
    unfolding add_to_queue_def Let_def new_entry_def [symmetric] e_def [symmetric] s1_def [symmetric]
    using s2(1-4) other_fieldsD [OF s2(5)] depth h
    by (simp add: queue_ok_def shortcuts_ok_def s1_def)
qed

text \<open>
  C9: adding a test case at a fresh address puts it into the ordered queue with the data it was
  given, its depth one more than the current one, and counts it.
\<close>

theorem add_to_queue_spec:
  assumes "queue_ok s xs" and "entries s p = None" and "length (shortcut_per_100 s) = 1024"
    and "length xs + 1 < 2 ^ 32"
  shows "\<exists>s' e. add_to_queue p now fname flen passed_det prox_score s = Some s' \<and>
    queue_ok s' (insert_by_score (score_in (entries s')) p xs) \<and>
    shortcuts_ok s' (insert_by_score (score_in (entries s')) p xs) \<and>
    entries s' p = Some e \<and> q_fname e = fname \<and> q_len e = flen \<and> q_passed_det e = passed_det \<and>
    q_prox_score e = prox_score \<and> q_entry_id e = queued_paths s \<and> \<not> q_was_fuzzed e \<and>
    q_depth e = ucast (cur_depth s + 1) \<and> max_depth s' = max (max_depth s) (cur_depth s + 1) \<and>
    queued_paths s' = queued_paths s + 1 \<and> pending_not_fuzzed s' = pending_not_fuzzed s + 1 \<and>
    queue_last s' = Some p \<and> cycles_wo_finds s' = 0 \<and> last_path_time s' = now"
proof -
  let ?e = "new_entry fname flen passed_det prox_score s"
  obtain s' where s': "add_to_queue p now fname flen passed_det prox_score s = Some s'"
    and un: "unlinked (entries s') = unlinked ((entries s)(p \<mapsto> ?e))"
    and rest: "queue_ok s' (insert_by_score (score_in ((entries s)(p \<mapsto> ?e))) p xs)"
      "shortcuts_ok s' (insert_by_score (score_in ((entries s)(p \<mapsto> ?e))) p xs)"
      "max_depth s' = max (max_depth s) (cur_depth s + 1)"
      "queued_paths s' = queued_paths s + 1" "pending_not_fuzzed s' = pending_not_fuzzed s + 1"
      "queue_last s' = Some p" "cycles_wo_finds s' = 0" "last_path_time s' = now"
    using add_to_queue_run [OF assms, where fname = fname and flen = flen and passed_det = passed_det and prox_score = prox_score and now = now] by (elim exE conjE) (rule that)
  have score: "score_in (entries s') = score_in ((entries s)(p \<mapsto> ?e))"
    by (rule ext) (rule unlinked_score [OF un])
  have "entries s' p \<noteq> None" using unlinked_eqD(1) [OF un, of p] by simp
  then obtain e2 where e2: "entries s' p = Some e2" by blast
  have eq: "e2\<lparr>q_next := None\<rparr> = ?e\<lparr>q_next := None\<rparr>" by (rule unlinked_eqD(2) [OF un e2]) simp
  have fields: "q_fname e2 = fname" "q_len e2 = flen" "q_passed_det e2 = passed_det"
    "q_prox_score e2 = prox_score" "q_entry_id e2 = queued_paths s" "\<not> q_was_fuzzed e2"
    "q_depth e2 = ucast (cur_depth s + 1)"
    using arg_cong [OF eq, of q_fname] arg_cong [OF eq, of q_len]
      arg_cong [OF eq, of q_passed_det] arg_cong [OF eq, of q_prox_score]
      arg_cong [OF eq, of q_entry_id] arg_cong [OF eq, of q_was_fuzzed] arg_cong [OF eq, of q_depth]
    by (simp_all add: new_entry_def zero_entry_def)
  show ?thesis using s' rest e2 fields score by simp
qed

theorem add_to_queue_spec_witness:
  "\<exists>s' e. add_to_queue 4 100 ''q/new'' 12 False 6 demo_queue = Some s' \<and> entries s' 4 = Some e \<and>
     q_depth e = 1 \<and> queued_paths s' = 3"
  using add_to_queue_spec [OF demo_queue_ok, of 4 100 "''q/new''" 12 False 6]
  by (force simp: demo_queue_def)

end
