(* ===== verification/Afl_Favored.thy ===== *)
theory Afl_Favored
  imports Afl_Queue
begin

text \<open>
  The favored entries of \<^verbatim>\<open>afl-fuzz.c\<close>: \<^verbatim>\<open>top_rated\<close> names for every byte of the trace map the best
  entry that hits it, entries that hold a slot keep a compact trace with a reference count, and
  \<^verbatim>\<open>cull_queue\<close> marks a set of winners that covers every slot.  The state directory of the output is
  the set of file names in \<^verbatim>\<open>queue/.state/redundant_edges\<close> and its two siblings.
\<close>

section \<open>State\<close>

record fav_state = queue_state +
  top_rated :: "nat option list"
  score_changed :: bool
  dumb_mode :: u8
  queued_favored :: u32
  pending_favored :: u32
  redundant_edges :: "string set"
  deterministic_done :: "string set"
  variable_behavior :: "string set"

text \<open>The ways the program gives up: \<^verbatim>\<open>PFATAL\<close> and \<^verbatim>\<open>FATAL\<close> end the process with a message.\<close>

datatype fatal = PFATAL string string | FATAL string

section \<open>Marks in the file system\<close>

text \<open>\<^verbatim>\<open>strrchr(fname, '/') + 1\<close>; without a slash it is not a valid pointer.\<close>

definition after_slash :: "string \<Rightarrow> string option" where
  "after_slash fname =
     (if CHR ''/'' \<in> set fname then Some (rev (takeWhile (\<lambda>c. c \<noteq> CHR ''/'') (rev fname))) else None)"

definition mark_as_redundant ::
  "nat \<Rightarrow> bool \<Rightarrow> 'a fav_state_scheme \<Rightarrow> (fatal + 'a fav_state_scheme) option" where
  "mark_as_redundant q state s =
     do { e \<leftarrow> entries s q;
          if state = q_fs_redundant e then Some (Inr s)
          else do {
            let s1 = s\<lparr>entries := (entries s)(q \<mapsto> e\<lparr>q_fs_redundant := state\<rparr>)\<rparr>;
            fn \<leftarrow> after_slash (q_fname e);
            Some (if state
                  then (if fn \<in> redundant_edges s1 then Inl (PFATAL ''Unable to create'' fn)
                        else Inr (s1\<lparr>redundant_edges := insert fn (redundant_edges s1)\<rparr>))
                  else (if fn \<in> redundant_edges s1
                        then Inr (s1\<lparr>redundant_edges := redundant_edges s1 - {fn}\<rparr>)
                        else Inl (PFATAL ''Unable to remove'' fn))) } }"

definition mark_as_det_done ::
  "nat \<Rightarrow> 'a fav_state_scheme \<Rightarrow> (fatal + 'a fav_state_scheme) option" where
  "mark_as_det_done q s =
     do { e \<leftarrow> entries s q;
          fn \<leftarrow> after_slash (q_fname e);
          Some (if fn \<in> deterministic_done s then Inl (PFATAL ''Unable to create'' fn)
                else Inr (s\<lparr>deterministic_done := insert fn (deterministic_done s),
                            entries := (entries s)(q \<mapsto> e\<lparr>q_passed_det := True\<rparr>)\<rparr>)) }"

text \<open>\<^verbatim>\<open>symlink_ok\<close> is the answer of \<^verbatim>\<open>symlink(2)\<close>; both calls need that the name is free.\<close>

definition mark_as_variable ::
  "bool \<Rightarrow> nat \<Rightarrow> 'a fav_state_scheme \<Rightarrow> (fatal + 'a fav_state_scheme) option" where
  "mark_as_variable symlink_ok q s =
     do { e \<leftarrow> entries s q;
          fn \<leftarrow> after_slash (q_fname e);
          Some (if \<not> symlink_ok \<and> fn \<in> variable_behavior s
                then Inl (PFATAL ''Unable to create'' fn)
                else Inr (s\<lparr>variable_behavior := insert fn (variable_behavior s),
                            entries := (entries s)(q \<mapsto> e\<lparr>q_var_behavior := True\<rparr>)\<rparr>)) }"

section \<open>Ranking\<close>

definition fav_factor :: "queue_entry \<Rightarrow> u64" where
  "fav_factor e = q_exec_us e * ucast (q_len e)"

text \<open>The previous winner loses one reference, and its compact trace with the last one.\<close>

definition drop_ref :: "queue_entry \<Rightarrow> queue_entry" where
  "drop_ref e =
     (let e1 = e\<lparr>q_tc_ref := q_tc_ref e - 1\<rparr>
      in if q_tc_ref e1 = 0 then e1\<lparr>q_trace_mini := None\<rparr> else e1)"

definition take_ref :: "u8 list \<Rightarrow> queue_entry \<Rightarrow> queue_entry option" where
  "take_ref trace e =
     (let e1 = e\<lparr>q_tc_ref := q_tc_ref e + 1\<rparr>
      in case q_trace_mini e1 of
           Some tm \<Rightarrow> Some e1
         | None \<Rightarrow> do { tm \<leftarrow> minimize_bits (replicate (length trace div 8) 0) trace;
                       Some (e1\<lparr>q_trace_mini := Some tm\<rparr>) })"

fun score_loop :: "nat \<Rightarrow> nat \<Rightarrow> u64 \<Rightarrow> nat \<Rightarrow> 'a fav_state_scheme \<Rightarrow> 'a fav_state_scheme option" where
  "score_loop 0 q ff i s = Some s"
| "score_loop (Suc n) q ff i s =
     do { t \<leftarrow> get_at (trace_bits s) i;
          if t = 0 then score_loop n q ff (i + 1) s
          else do {
            slot \<leftarrow> get_at (top_rated s) i;
            lost \<leftarrow> (case slot of None \<Rightarrow> Some False
                    | Some p \<Rightarrow> do { ep \<leftarrow> entries s p; Some (ff > fav_factor ep) });
            if lost then score_loop n q ff (i + 1) s
            else do {
              h1 \<leftarrow> (case slot of None \<Rightarrow> Some (entries s) | Some p \<Rightarrow> upd_entry p drop_ref (entries s));
              eq \<leftarrow> h1 q;
              eq1 \<leftarrow> take_ref (trace_bits s) eq;
              score_loop n q ff (i + 1)
                (s\<lparr>entries := h1(q \<mapsto> eq1), top_rated := (top_rated s)[i := Some q],
                   score_changed := True\<rparr>) } } }"

definition update_bitmap_score :: "nat \<Rightarrow> 'a fav_state_scheme \<Rightarrow> 'a fav_state_scheme option" where
  "update_bitmap_score q s =
     do { e \<leftarrow> entries s q; score_loop (length (top_rated s)) q (fav_factor e) 0 s }"

section \<open>Culling\<close>

partial_function (option) unfavor_loop :: "nat option \<Rightarrow> entry_heap \<Rightarrow> entry_heap option" where
  "unfavor_loop q h =
     (case q of None \<Rightarrow> Some h
      | Some p \<Rightarrow> do { e \<leftarrow> h p; unfavor_loop (q_next e) (h(p \<mapsto> e\<lparr>q_favored := False\<rparr>)) })"

text \<open>\<^verbatim>\<open>while (j--) if (trace_mini[j]) temp_v[j] &= ~trace_mini[j];\<close>\<close>

fun clear_covered :: "nat \<Rightarrow> u8 list \<Rightarrow> u8 list \<Rightarrow> u8 list option" where
  "clear_covered 0 tm temp_v = Some temp_v"
| "clear_covered (Suc j) tm temp_v =
     do { t \<leftarrow> get_at tm j;
          v \<leftarrow> get_at temp_v j;
          clear_covered j tm (if t \<noteq> 0 then temp_v[j := v AND NOT t] else temp_v) }"

fun grab_loop ::
  "nat \<Rightarrow> nat \<Rightarrow> u8 list \<Rightarrow> 'a fav_state_scheme \<Rightarrow> 'a fav_state_scheme option" where
  "grab_loop 0 i temp_v s = Some s"
| "grab_loop (Suc n) i temp_v s =
     do { slot \<leftarrow> get_at (top_rated s) i;
          v \<leftarrow> get_at temp_v (drop_bit 3 i);
          case slot of
            None \<Rightarrow> grab_loop n (i + 1) temp_v s
          | Some p \<Rightarrow>
              if v AND push_bit (i AND 7) 1 = 0 then grab_loop n (i + 1) temp_v s
              else do {
                e \<leftarrow> entries s p;
                tm \<leftarrow> q_trace_mini e;
                temp_v1 \<leftarrow> clear_covered (length temp_v) tm temp_v;
                grab_loop n (i + 1) temp_v1
                  (s\<lparr>entries := (entries s)(p \<mapsto> e\<lparr>q_favored := True\<rparr>),
                     queued_favored := queued_favored s + 1,
                     pending_favored := (if q_was_fuzzed e then pending_favored s
                                         else pending_favored s + 1)\<rparr>) } }"

partial_function (option) redundant_loop ::
  "nat option \<Rightarrow> 'a fav_state_scheme \<Rightarrow> (fatal + 'a fav_state_scheme) option" where
  "redundant_loop q s =
     (case q of None \<Rightarrow> Some (Inr s)
      | Some p \<Rightarrow> do {
          e \<leftarrow> entries s p;
          r \<leftarrow> mark_as_redundant p (\<not> q_favored e) s;
          case r of Inl f \<Rightarrow> Some (Inl f) | Inr s1 \<Rightarrow> redundant_loop (q_next e) s1 })"

definition cull_queue :: "'a fav_state_scheme \<Rightarrow> (fatal + 'a fav_state_scheme) option" where
  "cull_queue s =
     (if dumb_mode s \<noteq> 0 \<or> \<not> score_changed s then Some (Inr s)
      else do {
        h \<leftarrow> unfavor_loop (queue s) (entries s);
        s2 \<leftarrow> grab_loop (length (top_rated s)) 0 (replicate (length (top_rated s) div 8) 255)
                (s\<lparr>score_changed := False, entries := h, queued_favored := 0, pending_favored := 0\<rparr>);
        redundant_loop (queue s2) s2 })"

section \<open>Reference counts\<close>

text \<open>Bit \<open>k\<close> of a compact trace, and the slots an entry holds.\<close>

definition tbit :: "u8 list \<Rightarrow> nat \<Rightarrow> bool" where
  "tbit tm k \<longleftrightarrow> bit (tm ! (k div 8)) (k mod 8)"

definition slots :: "nat option list \<Rightarrow> nat \<Rightarrow> nat set" where
  "slots t p = {i. i < length t \<and> t ! i = Some p}"

text \<open>An entry that holds the slots \<open>S\<close> counts them, and keeps a compact trace iff there are any.\<close>

definition refs :: "nat set \<Rightarrow> queue_entry \<Rightarrow> bool" where
  "refs S e \<longleftrightarrow> q_tc_ref e = of_nat (card S) \<and> (q_trace_mini e = None \<longleftrightarrow> S = {})"

text \<open>Entries up to their reference counts and compact traces.\<close>

definition unref :: "entry_heap \<Rightarrow> entry_heap" where
  "unref h = (\<lambda>p. map_option (\<lambda>e. e\<lparr>q_tc_ref := 0, q_trace_mini := None\<rparr>) (h p))"

definition ranking_ok :: "'a fav_state_scheme \<Rightarrow> bool" where
  "ranking_ok s \<longleftrightarrow> length (top_rated s) = length (trace_bits s) \<and> 8 dvd length (trace_bits s) \<and>
     length (trace_bits s) < 2 ^ 32 \<and>
     (\<forall>i < length (top_rated s). \<forall>p. top_rated s ! i = Some p \<longrightarrow> entries s p \<noteq> None) \<and>
     (\<forall>p e. entries s p = Some e \<longrightarrow> refs (slots (top_rated s) p) e)"

lemma slots_finite [simp]: "finite (slots t p)"
  by (simp add: slots_def)

lemma slots_card: "card (slots t p) \<le> length t"
  using card_mono [of "{..<length t}" "slots t p"] by (auto simp: slots_def)

lemma slots_update:
  "i < length t \<Longrightarrow> slots (t[i := Some q]) p = (if p = q then insert i (slots t p) else slots t p - {i})"
  by (auto simp: slots_def nth_list_update split: if_splits)

lemma of_nat_u32_eq_0: "n < 2 ^ 32 \<Longrightarrow> (of_nat n :: u32) = 0 \<longleftrightarrow> n = 0"
  using dvd_imp_le [of "2 ^ 32" n] by (cases "n = 0") (auto simp: word_of_nat_eq_0_iff)

lemma drop_ref_refs:
  assumes "refs S e" and "i \<in> S" and "finite S" and "card S < 2 ^ 32"
  shows "refs (S - {i}) (drop_ref e)"
proof -
  have c: "card S = Suc (card (S - {i}))" using assms(2,3) by (metis card.remove)
  have ref: "q_tc_ref e - 1 = of_nat (card (S - {i}))" using assms(1) c by (simp add: refs_def)
  have "of_nat (card (S - {i})) = (0 :: u32) \<longleftrightarrow> S - {i} = {}"
    using assms(3,4) c by (subst of_nat_u32_eq_0) auto
  moreover have "q_trace_mini e \<noteq> None" using assms(1,2) by (auto simp: refs_def)
  ultimately show ?thesis unfolding refs_def drop_ref_def Let_def by (simp add: ref)
qed

lemma take_ref_refs:
  assumes "refs S e" and "i \<notin> S" and "finite S" and "8 dvd length trace"
  obtains e' tm where "take_ref trace e = Some e'" "refs (insert i S) e'" "q_trace_mini e' = Some tm"
    and "if S = {} then length tm = length trace div 8 \<and> (\<forall>k < length trace. tbit tm k \<longleftrightarrow> trace ! k \<noteq> 0)
         else q_trace_mini e = Some tm"
    and "e'\<lparr>q_tc_ref := 0, q_trace_mini := None\<rparr> = e\<lparr>q_tc_ref := 0, q_trace_mini := None\<rparr>"
proof (cases "q_trace_mini e")
  case None
  obtain tm where tm: "minimize_bits (replicate (length trace div 8) 0) trace = Some tm"
    "length tm = length trace div 8" "\<forall>k < length trace. tbit tm k \<longleftrightarrow> trace ! k \<noteq> 0"
    using minimize_bits_set [of trace "replicate (length trace div 8) 0"] assms(4)
    by (auto simp: tbit_def)
  show ?thesis
    by (rule that [of "e\<lparr>q_tc_ref := q_tc_ref e + 1, q_trace_mini := Some tm\<rparr>" tm])
      (use assms None tm in \<open>auto simp: take_ref_def refs_def\<close>)
next
  case (Some tm)
  show ?thesis
    by (rule that [of "e\<lparr>q_tc_ref := q_tc_ref e + 1\<rparr>" tm])
      (use assms Some in \<open>auto simp: take_ref_def refs_def\<close>)
qed

lemma unref_drop_ref:
  "(drop_ref e)\<lparr>q_tc_ref := 0, q_trace_mini := None\<rparr> = e\<lparr>q_tc_ref := 0, q_trace_mini := None\<rparr>"
  by (simp add: drop_ref_def Let_def)

lemma unref_updD:
  "\<lbrakk>h p = Some e; e'\<lparr>q_tc_ref := 0, q_trace_mini := None\<rparr> = e\<lparr>q_tc_ref := 0, q_trace_mini := None\<rparr>\<rbrakk>
    \<Longrightarrow> unref (h(p \<mapsto> e')) = unref h"
  by (simp add: unref_def fun_eq_iff)

lemma unref_eqD:
  assumes "unref h = unref h'"
  shows "h x = None \<longleftrightarrow> h' x = None"
    and "\<lbrakk>h x = Some e; h' x = Some e'\<rbrakk> \<Longrightarrow>
      e\<lparr>q_tc_ref := 0, q_trace_mini := None\<rparr> = e'\<lparr>q_tc_ref := 0, q_trace_mini := None\<rparr>"
proof -
  let ?f = "\<lambda>e. e\<lparr>q_tc_ref := 0, q_trace_mini := None\<rparr>"
  have "map_option ?f (h x) = map_option ?f (h' x)" using assms by (simp add: unref_def fun_eq_iff)
  then show "h x = None \<longleftrightarrow> h' x = None"
    and "\<lbrakk>h x = Some e; h' x = Some e'\<rbrakk> \<Longrightarrow> ?f e = ?f e'"
    by (auto simp: map_option_case split: option.splits)
qed

definition factor_of :: "entry_heap \<Rightarrow> nat \<Rightarrow> u64" where
  "factor_of h p = (case h p of None \<Rightarrow> 0 | Some e \<Rightarrow> fav_factor e)"

lemma unref_factor:
  assumes "unref h = unref h'"
  shows "factor_of h p = factor_of h' p"
proof (cases "h p")
  case None
  then show ?thesis using unref_eqD(1) [OF assms, of p] by (simp add: factor_of_def)
next
  case (Some e)
  then obtain e' where e': "h' p = Some e'" using unref_eqD(1) [OF assms, of p] by fastforce
  note eq = unref_eqD(2) [OF assms Some e']
  from arg_cong [OF eq, of q_exec_us] arg_cong [OF eq, of q_len]
  show ?thesis using Some e' by (simp add: factor_of_def fav_factor_def)
qed

text \<open>Who holds the slot of a byte after the ranking: the newcomer, unless the holder is better.\<close>

definition slot_winner :: "entry_heap \<Rightarrow> nat \<Rightarrow> u8 \<Rightarrow> nat option \<Rightarrow> nat option" where
  "slot_winner h q t slot =
     (if t = 0 then slot
      else case slot of None \<Rightarrow> Some q
           | Some p \<Rightarrow> if factor_of h q > factor_of h p then Some p else Some q)"

text \<open>The compact trace of an entry has the right size and shows byte \<open>k\<close>.\<close>

definition covers :: "nat \<Rightarrow> entry_heap \<Rightarrow> nat \<Rightarrow> nat \<Rightarrow> bool" where
  "covers n h p k \<longleftrightarrow>
     (case h p of None \<Rightarrow> False
      | Some e \<Rightarrow> (case q_trace_mini e of None \<Rightarrow> False | Some tm \<Rightarrow> length tm = n div 8 \<and> tbit tm k))"

definition slots_covered :: "'a fav_state_scheme \<Rightarrow> bool" where
  "slots_covered s \<longleftrightarrow>
     (\<forall>i < length (top_rated s). \<forall>p. top_rated s ! i = Some p \<longrightarrow>
        covers (length (top_rated s)) (entries s) p i)"

text \<open>If \<open>q\<close> already has a compact trace, it shows every byte of the current trace.\<close>

definition trace_fits :: "nat \<Rightarrow> 'a fav_state_scheme \<Rightarrow> bool" where
  "trace_fits q s \<longleftrightarrow>
     (\<forall>e tm k. entries s q = Some e \<and> q_trace_mini e = Some tm \<and> k < length (trace_bits s) \<and>
        trace_bits s ! k \<noteq> 0 \<longrightarrow> covers (length (trace_bits s)) (entries s) q k)"

lemma win_slot:
  assumes ok: "ranking_ok s" and i: "i < length (top_rated s)"
    and q: "entries s q \<noteq> None"
  obtains h1 eq eq1 where
    "(case top_rated s ! i of None \<Rightarrow> Some (entries s) | Some p \<Rightarrow> upd_entry p drop_ref (entries s)) = Some h1"
    "h1 q = Some eq" "take_ref (trace_bits s) eq = Some eq1"
    "ranking_ok (s\<lparr>entries := h1(q \<mapsto> eq1), top_rated := (top_rated s)[i := Some q], score_changed := True\<rparr>)"
    "unref (h1(q \<mapsto> eq1)) = unref (entries s)"
    "trace_fits q s \<longrightarrow> trace_fits q (s\<lparr>entries := h1(q \<mapsto> eq1), top_rated := (top_rated s)[i := Some q], score_changed := True\<rparr>)"
    "trace_fits q s \<and> slots_covered s \<and> trace_bits s ! i \<noteq> 0 \<longrightarrow>
       slots_covered (s\<lparr>entries := h1(q \<mapsto> eq1), top_rated := (top_rated s)[i := Some q], score_changed := True\<rparr>)"
proof -
  let ?t = "top_rated s" and ?L = "length (trace_bits s)"
  have ok': "length ?t = ?L" "8 dvd ?L" "?L < 2 ^ 32"
    "\<And>i p. i < length ?t \<Longrightarrow> ?t ! i = Some p \<Longrightarrow> entries s p \<noteq> None"
    "\<And>p e. entries s p = Some e \<Longrightarrow> refs (slots ?t p) e"
    using ok by (auto simp: ranking_ok_def)
  have card: "card (slots ?t p) < 2 ^ 32" for p using slots_card [of ?t p] ok'(1,3) by linarith
  define h1 where "h1 = (case ?t ! i of None \<Rightarrow> entries s
     | Some p \<Rightarrow> (entries s)(p \<mapsto> drop_ref (the (entries s p))))"
  have h1: "(case ?t ! i of None \<Rightarrow> Some (entries s) | Some p \<Rightarrow> upd_entry p drop_ref (entries s)) = Some h1"
    using ok'(4) [OF i] by (auto simp: h1_def upd_entry_def split: option.splits)
  have un1: "unref h1 = unref (entries s)"
  proof (cases "?t ! i")
    case None
    then show ?thesis by (simp add: h1_def)
  next
    case (Some p)
    then obtain e where e: "entries s p = Some e" using ok'(4) [OF i] by blast
    show ?thesis using unref_updD [of "entries s", OF e unref_drop_ref [of e]] Some e by (simp add: h1_def)
  qed
  have refs1: "refs (slots ?t p - {i}) e" if "h1 p = Some e" for p e
  proof (cases "?t ! i = Some p")
    case True
    then obtain e0 where e0: "entries s p = Some e0" using ok'(4) [OF i] by blast
    then have "e = drop_ref e0" using that True by (simp add: h1_def)
    moreover have "i \<in> slots ?t p" using True i by (simp add: slots_def)
    ultimately show ?thesis using drop_ref_refs [OF ok'(5) [OF e0]] card by simp
  next
    case False
    then have "i \<notin> slots ?t p" by (simp add: slots_def)
    moreover have "entries s p = Some e" using that False by (auto simp: h1_def split: option.splits if_splits)
    ultimately show ?thesis using ok'(5) by simp
  qed
  obtain eq where eq: "h1 q = Some eq" using q unref_eqD(1) [OF un1, of q] by (cases "h1 q") auto
  have ni: "i \<notin> slots ?t q - {i}" and fin: "finite (slots ?t q - {i})" by simp_all
  obtain eq1 tm where eq1: "take_ref (trace_bits s) eq = Some eq1" "refs (insert i (slots ?t q - {i})) eq1"
    "q_trace_mini eq1 = Some tm"
    "if slots ?t q - {i} = {} then length tm = ?L div 8 \<and> (\<forall>k < ?L. tbit tm k \<longleftrightarrow> trace_bits s ! k \<noteq> 0)
     else q_trace_mini eq = Some tm"
    "eq1\<lparr>q_tc_ref := 0, q_trace_mini := None\<rparr> = eq\<lparr>q_tc_ref := 0, q_trace_mini := None\<rparr>"
    by (rule take_ref_refs [OF refs1 [OF eq] ni fin ok'(2)])
  let ?s1 = "s\<lparr>entries := h1(q \<mapsto> eq1), top_rated := ?t[i := Some q], score_changed := True\<rparr>"
  have un2: "unref (h1(q \<mapsto> eq1)) = unref (entries s)"
    using un1 unref_updD [of h1, OF eq eq1(5)] by simp
  have dom: "(h1(q \<mapsto> eq1)) p \<noteq> None" if "entries s p \<noteq> None" for p
    using that unref_eqD(1) [OF un2, of p] by argo
  have slot1: "?t[i := Some q] ! k = Some p \<Longrightarrow> k < length ?t \<Longrightarrow> p = q \<or> ?t ! k = Some p" for k p
    using i by (cases "k = i") simp_all
  have ok1: "ranking_ok ?s1"
    unfolding ranking_ok_def
  proof (intro conjI allI impI)
    fix k p assume "k < length (top_rated ?s1)" "top_rated ?s1 ! k = Some p"
    then show "entries ?s1 p \<noteq> None" using slot1 [of k p] dom [of p] ok'(4) [of k p] by auto
  next
    fix p e assume "entries ?s1 p = Some e"
    then show "refs (slots (top_rated ?s1) p) e"
      using eq1(2) refs1 [of p e] slots_update [OF i, of q p] by (auto split: if_splits)
  qed (use ok' in simp_all)
  obtain e0 where e0: "entries s q = Some e0" using q by blast
  have tm_old: "q_trace_mini e0 = Some tm" if "slots ?t q - {i} \<noteq> {}"
  proof -
    have tm: "q_trace_mini eq = Some tm" using eq1(4) that by simp
    have "eq = e0 \<or> eq = drop_ref e0" using eq e0 by (auto simp: h1_def split: option.splits if_splits)
    then show ?thesis using tm by (auto simp: drop_ref_def Let_def split: if_splits)
  qed
  have tm_q: "length tm = ?L div 8 \<and> tbit tm k" if fit: "trace_fits q s" and k: "k < ?L" "trace_bits s ! k \<noteq> 0" for k
  proof (cases "slots ?t q - {i} = {}")
    case True
    then show ?thesis using eq1(4) k by simp
  next
    case False
    then show ?thesis using fit k e0 tm_old by (auto simp: trace_fits_def covers_def)
  qed
  have fit1: "trace_fits q ?s1" if "trace_fits q s"
    using tm_q [OF that] eq1(3) by (auto simp: trace_fits_def covers_def)
  have cov1: "slots_covered ?s1" if fit: "trace_fits q s" and cov: "slots_covered s" and t: "trace_bits s ! i \<noteq> 0"
    unfolding slots_covered_def
  proof (intro allI impI)
    fix k p assume k: "k < length (top_rated ?s1)" and p: "top_rated ?s1 ! k = Some p"
    have kL: "k < length ?t" using k by simp
    show "covers (length (top_rated ?s1)) (entries ?s1) p k"
    proof (cases "p = q")
      case True
      show ?thesis
      proof (cases "k = i")
        case True
        then show ?thesis using tm_q [OF fit, of i] i t eq1(3) ok'(1) \<open>p = q\<close> by (simp add: covers_def)
      next
        case False
        then have k_old: "?t ! k = Some q" using p \<open>p = q\<close> by simp
        then have "slots ?t q - {i} \<noteq> {}" using False kL by (auto simp: slots_def)
        from tm_old [OF this] have "length tm = length ?t div 8 \<and> tbit tm k"
          using cov kL k_old e0 by (auto simp: slots_covered_def covers_def split: option.splits)
        then show ?thesis using eq1(3) \<open>p = q\<close> by (simp add: covers_def)
      qed
    next
      case False
      then have p0: "k \<noteq> i" "?t ! k = Some p" using p i by (auto simp: nth_list_update split: if_splits)
      obtain e0 where e0: "entries s p = Some e0" using ok'(4) [OF kL p0(2)] by blast
      obtain e1 where e1: "h1 p = Some e1" using e0 unref_eqD(1) [OF un1, of p] by auto
      have "k \<in> slots ?t p - {i}" using p0 kL by (simp add: slots_def)
      then have "q_trace_mini e1 \<noteq> None" using refs1 [OF e1] by (auto simp: refs_def)
      moreover have "e1 = e0 \<or> e1 = drop_ref e0" using e0 e1 by (auto simp: h1_def split: option.splits if_splits)
      ultimately have "q_trace_mini e1 = q_trace_mini e0"
        by (auto simp: drop_ref_def Let_def split: if_splits)
      moreover have "covers (length ?t) (entries s) p k" using cov kL p0(2) by (simp add: slots_covered_def)
      ultimately show ?thesis using False e0 e1 by (simp add: covers_def)
    qed
  qed
  show ?thesis by (rule that [OF h1 eq eq1(1) ok1 un2]) (use fit1 cov1 in blast)+
qed

text \<open>The fields ranking does not touch.\<close>

definition rank_frame :: "'a fav_state_scheme \<Rightarrow> 'a fav_state_scheme" where
  "rank_frame s = s\<lparr>entries := Map.empty, top_rated := [], score_changed := False\<rparr>"

lemma rank_frame_eqD:
  assumes "rank_frame s = rank_frame s'"
  shows "trace_bits s = trace_bits s'" "queue s = queue s'"
  using arg_cong [OF assms, of trace_bits] arg_cong [OF assms, of queue] by (simp_all add: rank_frame_def)

lemma score_loop_spec:
  assumes "ranking_ok s" and "i + n = length (top_rated s)" and "entries s q \<noteq> None"
    and "ff = factor_of (entries s) q" and "trace_fits q s"
  shows "\<exists>s'. score_loop n q ff i s = Some s' \<and> ranking_ok s' \<and>
    unref (entries s') = unref (entries s) \<and> rank_frame s' = rank_frame s \<and>
    length (top_rated s') = length (top_rated s) \<and>
    (\<forall>k < length (top_rated s). top_rated s' ! k =
       (if k < i then top_rated s ! k else slot_winner (entries s) q (trace_bits s ! k) (top_rated s ! k))) \<and>
    (slots_covered s \<longrightarrow> slots_covered s')"
  using assms
proof (induction n arbitrary: i s)
  case 0
  then show ?case by auto
next
  case (Suc n)
  have i: "i < length (top_rated s)" using Suc.prems(2) by simp
  have iL: "i < length (trace_bits s)" using i Suc.prems(1) by (simp add: ranking_ok_def)
  have next_i: "i + 1 + n = length (top_rated s)" using Suc.prems(2) by simp
  let ?W = "\<lambda>k. slot_winner (entries s) q (trace_bits s ! k) (top_rated s ! k)"
  have slot_dom: "entries s p \<noteq> None" if "top_rated s ! i = Some p" for p
    using Suc.prems(1) i that by (auto simp: ranking_ok_def)
  show ?case
  proof (cases "?W i = top_rated s ! i \<and> (trace_bits s ! i = 0 \<or> (\<exists>p. top_rated s ! i = Some p \<and> ff > factor_of (entries s) p))")
    case True
    have "score_loop (Suc n) q ff i s = score_loop n q ff (i + 1) s"
    proof (cases "trace_bits s ! i = 0")
      case True
      then show ?thesis using iL by (simp add: get_at_Some)
    next
      case False
      then obtain p ep where "top_rated s ! i = Some p" "ff > factor_of (entries s) p" "entries s p = Some ep"
        using True slot_dom by blast
      then show ?thesis using False iL i by (simp add: get_at_Some factor_of_def)
    qed
    moreover from Suc.IH [OF Suc.prems(1) next_i Suc.prems(3-5)] obtain s' where
      "score_loop n q ff (i + 1) s = Some s'" "ranking_ok s'" "unref (entries s') = unref (entries s)"
      "rank_frame s' = rank_frame s" "length (top_rated s') = length (top_rated s)"
      "\<forall>k < length (top_rated s). top_rated s' ! k = (if k < i + 1 then top_rated s ! k else ?W k)"
      "slots_covered s \<longrightarrow> slots_covered s'" by blast
    ultimately show ?thesis using True by (intro exI [of _ s']) (auto simp: less_Suc_eq)
  next
    case False
    have t: "trace_bits s ! i \<noteq> 0" using False by (auto simp: slot_winner_def)
    have not_better: "\<not> ff > factor_of (entries s) p" if "top_rated s ! i = Some p" for p
    proof
      assume "ff > factor_of (entries s) p"
      moreover from this have "?W i = Some p" using t that Suc.prems(4) by (simp add: slot_winner_def)
      ultimately show False using False that by auto
    qed
    have win: "?W i = Some q"
      using not_better t Suc.prems(4) by (simp add: slot_winner_def split: option.split)
    obtain h1 eq eq1 where w:
      "(case top_rated s ! i of None \<Rightarrow> Some (entries s) | Some p \<Rightarrow> upd_entry p drop_ref (entries s)) = Some h1"
      "h1 q = Some eq" "take_ref (trace_bits s) eq = Some eq1"
      "ranking_ok (s\<lparr>entries := h1(q \<mapsto> eq1), top_rated := (top_rated s)[i := Some q], score_changed := True\<rparr>)"
      "unref (h1(q \<mapsto> eq1)) = unref (entries s)"
      "trace_fits q s \<longrightarrow> trace_fits q (s\<lparr>entries := h1(q \<mapsto> eq1), top_rated := (top_rated s)[i := Some q], score_changed := True\<rparr>)"
      "trace_fits q s \<and> slots_covered s \<and> trace_bits s ! i \<noteq> 0 \<longrightarrow>
         slots_covered (s\<lparr>entries := h1(q \<mapsto> eq1), top_rated := (top_rated s)[i := Some q], score_changed := True\<rparr>)"
      by (rule win_slot [OF Suc.prems(1) i Suc.prems(3)])
    let ?s1 = "s\<lparr>entries := h1(q \<mapsto> eq1), top_rated := (top_rated s)[i := Some q], score_changed := True\<rparr>"
    have "(case top_rated s ! i of None \<Rightarrow> Some False
        | Some p \<Rightarrow> do { ep \<leftarrow> entries s p; Some (ff > fav_factor ep) }) = Some False"
    proof (cases "top_rated s ! i")
      case (Some p)
      then show ?thesis using not_better [of p] slot_dom [of p] by (auto simp: factor_of_def)
    qed simp
    then have step: "score_loop (Suc n) q ff i s = score_loop n q ff (i + 1) ?s1"
      using t iL i w(1-3) by (simp add: get_at_Some)
    have "i + 1 + n = length (top_rated ?s1)" "entries ?s1 q \<noteq> None" "ff = factor_of (entries ?s1) q"
      using next_i Suc.prems(4) unref_factor [OF w(5)] by simp_all
    from Suc.IH [OF w(4) this mp [OF w(6) Suc.prems(5)]] obtain s' where s':
      "score_loop n q ff (i + 1) ?s1 = Some s'" "ranking_ok s'" "unref (entries s') = unref (entries ?s1)"
      "rank_frame s' = rank_frame ?s1" "length (top_rated s') = length (top_rated ?s1)"
      "\<forall>k < length (top_rated ?s1). top_rated s' ! k = (if k < i + 1 then top_rated ?s1 ! k
         else slot_winner (entries ?s1) q (trace_bits ?s1 ! k) (top_rated ?s1 ! k))"
      "slots_covered ?s1 \<longrightarrow> slots_covered s'" by blast
    have same_winner: "slot_winner (entries ?s1) q a b = slot_winner (entries s) q a b" for a b
    proof -
      have fac: "factor_of (entries ?s1) = factor_of (entries s)"
        using unref_factor [OF w(5)] by (intro ext) simp
      show ?thesis unfolding slot_winner_def fac ..
    qed
    have "top_rated s' ! k = (if k < i then top_rated s ! k else ?W k)" if "k < length (top_rated s)" for k
      using s'(6) that win same_winner by (cases "k = i") auto
    moreover have "rank_frame ?s1 = rank_frame s" by (simp add: rank_frame_def)
    ultimately show ?thesis
      using s' step w(5) w(7) Suc.prems(5) t by (intro exI [of _ s']) simp
  qed
qed


definition demo_fav :: fav_state where
  "demo_fav = \<lparr>trace_bits = [1, 0, 0, 0, 0, 0, 0, 0], dfg_bits = [], virgin_bits = replicate 8 255,
     virgin_tmout = replicate 8 255, virgin_crash = replicate 8 255, bitmap_changed = False,
     entries = [1 \<mapsto> zero_entry\<lparr>q_fname := ''q/a'', q_exec_us := 10, q_len := 4\<rparr>],
     queue = Some 1, queue_cur = None, queue_last = None, first_unhandled = None,
     shortcut_per_100 = replicate 1024 None, queued_paths = 1, pending_not_fuzzed = 1,
     cur_depth = 0, max_depth = 1, cycles_wo_finds = 0, last_path_time = 0,
     top_rated = replicate 8 None, score_changed = False, dumb_mode = 0, queued_favored = 0,
     pending_favored = 0, redundant_edges = {}, deterministic_done = {}, variable_behavior = {}\<rparr>"


section \<open>Culling covers the map\<close>

text \<open>The heap in which exactly the entries \<open>F\<close> among \<open>X\<close> are favored.\<close>

definition mark_favored :: "nat set \<Rightarrow> nat set \<Rightarrow> entry_heap \<Rightarrow> entry_heap" where
  "mark_favored X F h =
     (\<lambda>p. if p \<in> X then map_option (\<lambda>e. e\<lparr>q_favored := (p \<in> F)\<rparr>) (h p) else h p)"

definition unfuzzed :: "entry_heap \<Rightarrow> nat \<Rightarrow> bool" where
  "unfuzzed h p \<longleftrightarrow> (case h p of None \<Rightarrow> False | Some e \<Rightarrow> \<not> q_was_fuzzed e)"

definition holders :: "'a fav_state_scheme \<Rightarrow> nat set" where
  "holders s = {p. Some p \<in> set (top_rated s)}"

lemma qpath_mark [simp]: "qpath (mark_favored X F h) p xs \<longleftrightarrow> qpath h p xs"
proof (induction xs arbitrary: p)
  case (Cons x xs)
  then show ?case by (auto simp: mark_favored_def split: option.splits)
qed simp

lemma covers_mark [simp]: "covers n (mark_favored X F h) p k \<longleftrightarrow> covers n h p k"
  by (simp add: covers_def mark_favored_def split: option.split)

lemma unfavor_loop_marks:
  "qpath h p xs \<Longrightarrow> distinct xs \<Longrightarrow> unfavor_loop p h = Some (mark_favored (set xs) {} h)"
proof (induction xs arbitrary: p h)
  case Nil
  then show ?case by (simp add: unfavor_loop.simps mark_favored_def)
next
  case (Cons x xs)
  then obtain e where e: "p = Some x" "h x = Some e" "qpath h (q_next e) xs"
    by (auto split: option.splits)
  let ?h = "h(x \<mapsto> e\<lparr>q_favored := False\<rparr>)"
  have "qpath ?h (q_next e) xs" by (rule qpath_agree [OF e(3)]) (use Cons.prems(2) in auto)
  then have "unfavor_loop (q_next e) ?h = Some (mark_favored (set xs) {} ?h)"
    by (rule Cons.IH) (use Cons.prems(2) in simp)
  moreover have "unfavor_loop p h = unfavor_loop (q_next e) ?h"
    using e by (simp add: unfavor_loop.simps [of "Some x"])
  moreover have "mark_favored (set xs) {} ?h = mark_favored (set (x # xs)) {} h"
    using e Cons.prems(2) by (auto simp: mark_favored_def fun_eq_iff)
  ultimately show ?case by simp
qed

lemma clear_covered_spec:
  assumes "j \<le> length temp_v" and "length tm = length temp_v"
  obtains v where "clear_covered j tm temp_v = Some v" "length v = length temp_v"
    "\<forall>k < 8 * length temp_v. tbit v k \<longleftrightarrow> tbit temp_v k \<and> \<not> (k div 8 < j \<and> tbit tm k)"
proof -
  have "\<exists>v. clear_covered j tm temp_v = Some v \<and> length v = length temp_v \<and>
    (\<forall>k < 8 * length temp_v. tbit v k \<longleftrightarrow> tbit temp_v k \<and> \<not> (k div 8 < j \<and> tbit tm k))"
    using assms
  proof (induction j arbitrary: temp_v)
    case 0
    then show ?case by simp
  next
    case (Suc j)
    let ?v1 = "if tm ! j \<noteq> 0 then temp_v[j := temp_v ! j AND NOT (tm ! j)] else temp_v"
    have bit1: "tbit ?v1 k \<longleftrightarrow> tbit temp_v k \<and> \<not> (k div 8 = j \<and> tbit tm k)" for k
      using Suc.prems by (auto simp: tbit_def nth_list_update bit_and_iff bit_not_iff)
    have "j \<le> length ?v1" "length tm = length ?v1" using Suc.prems by simp_all
    from Suc.IH [OF this] obtain v where v: "clear_covered j tm ?v1 = Some v" "length v = length temp_v"
      "\<forall>k < 8 * length temp_v. tbit v k \<longleftrightarrow> tbit ?v1 k \<and> \<not> (k div 8 < j \<and> tbit tm k)"
      by (auto split: if_splits)
    have "clear_covered (Suc j) tm temp_v = Some v"
      using v(1) Suc.prems by (simp add: get_at_Some)
    then show ?case using v(2,3) bit1 by (intro exI [of _ v]) (auto simp: less_Suc_eq)
  qed
  then show ?thesis using that by blast
qed

definition fav_state_of :: "nat set \<Rightarrow> nat set \<Rightarrow> 'a fav_state_scheme \<Rightarrow> 'a fav_state_scheme" where
  "fav_state_of X F s = s\<lparr>entries := mark_favored X F (entries s), queued_favored := of_nat (card F),
     pending_favored := of_nat (card {p \<in> F. unfuzzed (entries s) p})\<rparr>"

lemma grab_loop_spec:
  assumes cov: "slots_covered s" and hold: "holders s \<subseteq> X" and n8: "8 dvd length (top_rated s)"
  shows "i + m = length (top_rated s) \<Longrightarrow> finite F \<Longrightarrow> F \<subseteq> holders s \<Longrightarrow>
    8 * length tv = length (top_rated s) \<Longrightarrow>
    (\<forall>k < length (top_rated s). tbit tv k \<longleftrightarrow> \<not> (\<exists>p \<in> F. covers (length (top_rated s)) (entries s) p k)) \<Longrightarrow>
    \<exists>F'. grab_loop m i tv (fav_state_of X F s) = Some (fav_state_of X F' s) \<and> finite F' \<and>
      F \<subseteq> F' \<and> F' \<subseteq> holders s \<and>
      (\<forall>k. i \<le> k \<and> k < length (top_rated s) \<and> top_rated s ! k \<noteq> None \<longrightarrow>
         (\<exists>p \<in> F'. covers (length (top_rated s)) (entries s) p k))"
proof (induction m arbitrary: i F tv)
  case 0
  then show ?case by (intro exI [of _ F]) auto
next
  case (Suc m)
  let ?n = "length (top_rated s)" and ?h = "entries s"
  have i: "i < ?n" "i div 8 < length tv" and i1: "i + 1 + m = ?n" using Suc.prems(1,4) by auto
  have top: "top_rated (fav_state_of X F s) = top_rated s" by (simp add: fav_state_of_def)
  have extend: "\<forall>k. i \<le> k \<and> k < ?n \<and> top_rated s ! k \<noteq> None \<longrightarrow> (\<exists>p \<in> F'. covers ?n ?h p k)"
    if "\<forall>k. i + 1 \<le> k \<and> k < ?n \<and> top_rated s ! k \<noteq> None \<longrightarrow> (\<exists>p \<in> F'. covers ?n ?h p k)"
      and "G \<subseteq> F'" and "top_rated s ! i \<noteq> None \<longrightarrow> (\<exists>p \<in> G. covers ?n ?h p i)" for G F'
  proof (intro allI impI)
    fix k assume k: "i \<le> k \<and> k < ?n \<and> top_rated s ! k \<noteq> None"
    show "\<exists>p \<in> F'. covers ?n ?h p k"
    proof (cases "k = i")
      case True
      then show ?thesis using k that(2,3) by blast
    next
      case False
      then show ?thesis using k that(1) by auto
    qed
  qed
  show ?case
  proof (cases "top_rated s ! i = None \<or> \<not> tbit tv i")
    case True
    have step: "grab_loop (Suc m) i tv (fav_state_of X F s) = grab_loop m (i + 1) tv (fav_state_of X F s)"
      using True i top by (auto simp: get_at_Some shift3 mask7 and_exp_eq_0_iff_not_bit tbit_def split: option.splits)
    have here: "top_rated s ! i \<noteq> None \<longrightarrow> (\<exists>p \<in> F. covers ?n ?h p i)"
      using True Suc.prems(5) i by auto
    obtain F' where F': "grab_loop m (i + 1) tv (fav_state_of X F s) = Some (fav_state_of X F' s)"
      "finite F'" "F \<subseteq> F'" "F' \<subseteq> holders s"
      "\<forall>k. i + 1 \<le> k \<and> k < ?n \<and> top_rated s ! k \<noteq> None \<longrightarrow> (\<exists>p \<in> F'. covers ?n ?h p k)"
      using Suc.IH [OF i1 Suc.prems(2-5)] by blast
    show ?thesis unfolding step using extend [OF F'(5,3) here] F'(1-4) by blast
  next
    case False
    then obtain p where p: "top_rated s ! i = Some p" and t: "tbit tv i" by auto
    have "covers ?n ?h p i" using cov i p by (simp add: slots_covered_def)
    then obtain e tm where e: "?h p = Some e" "q_trace_mini e = Some tm" "length tm = ?n div 8" "tbit tm i"
      by (auto simp: covers_def split: option.splits)
    have pX: "p \<in> X" and ph: "p \<in> holders s"
      using hold p i nth_mem [of i "top_rated s"] by (auto simp: holders_def)
    have pF: "p \<notin> F" using Suc.prems(5) i t \<open>covers ?n ?h p i\<close> by auto
    have "length tm = length tv" using e(3) Suc.prems(4) by simp
    then obtain v where v: "clear_covered (length tv) tm tv = Some v" "length v = length tv"
      "\<forall>k < 8 * length tv. tbit v k \<longleftrightarrow> tbit tv k \<and> \<not> (k div 8 < length tv \<and> tbit tm k)"
      using clear_covered_spec [of "length tv" tv tm] by blast
    have mark: "(mark_favored X F ?h)(p \<mapsto> e\<lparr>q_favored := True\<rparr>) = mark_favored X (insert p F) ?h"
      using pX e(1) by (auto simp: mark_favored_def fun_eq_iff)
    have unf: "{x \<in> insert p F. unfuzzed ?h x} =
        (if q_was_fuzzed e then {x \<in> F. unfuzzed ?h x} else insert p {x \<in> F. unfuzzed ?h x})"
      using e(1) by (auto simp: unfuzzed_def)
    have step: "grab_loop (Suc m) i tv (fav_state_of X F s) = grab_loop m (i + 1) v (fav_state_of X (insert p F) s)"
    proof -
      have "entries (fav_state_of X F s) p = Some (e\<lparr>q_favored := (p \<in> F)\<rparr>)"
        using e(1) pX by (simp add: fav_state_of_def mark_favored_def)
      then have "grab_loop (Suc m) i tv (fav_state_of X F s) = grab_loop m (i + 1) v
          ((fav_state_of X F s)\<lparr>entries := (entries (fav_state_of X F s))(p \<mapsto> e\<lparr>q_favored := True\<rparr>),
             queued_favored := queued_favored (fav_state_of X F s) + 1,
             pending_favored := (if q_was_fuzzed e then pending_favored (fav_state_of X F s)
                                 else pending_favored (fav_state_of X F s) + 1)\<rparr>)"
        using i top p t e v(1) by (simp add: get_at_Some shift3 mask7 and_exp_eq_0_iff_not_bit tbit_def)
      also have "(fav_state_of X F s)\<lparr>entries := (entries (fav_state_of X F s))(p \<mapsto> e\<lparr>q_favored := True\<rparr>),
             queued_favored := queued_favored (fav_state_of X F s) + 1,
             pending_favored := (if q_was_fuzzed e then pending_favored (fav_state_of X F s)
                                 else pending_favored (fav_state_of X F s) + 1)\<rparr>
          = fav_state_of X (insert p F) s"
        using mark unf pF Suc.prems(2) by (simp add: fav_state_of_def)
      finally show ?thesis .
    qed
    have inv: "\<forall>k < ?n. tbit v k \<longleftrightarrow> \<not> (\<exists>x \<in> insert p F. covers ?n ?h x k)"
      using v(3) Suc.prems(4,5) e by (auto simp: covers_def div_less_iff_less_mult mult.commute)
    have "finite (insert p F)" "insert p F \<subseteq> holders s" "8 * length v = ?n"
      using Suc.prems(2-4) ph v(2) by auto
    from Suc.IH [OF i1 this inv] obtain F' where F':
      "grab_loop m (i + 1) v (fav_state_of X (insert p F) s) = Some (fav_state_of X F' s)"
      "finite F'" "insert p F \<subseteq> F'" "F' \<subseteq> holders s"
      "\<forall>k. i + 1 \<le> k \<and> k < ?n \<and> top_rated s ! k \<noteq> None \<longrightarrow> (\<exists>p \<in> F'. covers ?n ?h p k)"
      by blast
    have here: "top_rated s ! i \<noteq> None \<longrightarrow> (\<exists>x \<in> insert p F. covers ?n ?h x i)"
      using \<open>covers ?n ?h p i\<close> by blast
    have "F \<subseteq> F'" using F'(3) by blast
    then show ?thesis unfolding step using extend [OF F'(5,3) here] F'(1,2,4) by blast
  qed
qed

section \<open>Marks follow the favorites\<close>

definition base_name :: "entry_heap \<Rightarrow> nat \<Rightarrow> string" where
  "base_name h p = (case h p of None \<Rightarrow> [] | Some e \<Rightarrow> (case after_slash (q_fname e) of None \<Rightarrow> [] | Some f \<Rightarrow> f))"

text \<open>File names are distinct, and the directory lists exactly the entries marked redundant.\<close>

definition marks_ok :: "'a fav_state_scheme \<Rightarrow> nat list \<Rightarrow> bool" where
  "marks_ok s xs \<longleftrightarrow> inj_on (base_name (entries s)) (set xs) \<and>
     (\<forall>p \<in> set xs. \<forall>e. entries s p = Some e \<longrightarrow> after_slash (q_fname e) \<noteq> None \<and>
        (base_name (entries s) p \<in> redundant_edges s \<longleftrightarrow> q_fs_redundant e))"

lemma redundant_loop_spec:
  assumes "qpath (entries s) q xs" and "distinct xs" and "marks_ok s xs"
  shows "\<exists>s'. redundant_loop q s = Some (Inr s') \<and>
    (\<forall>p. entries s' p = (if p \<in> set xs then map_option (\<lambda>e. e\<lparr>q_fs_redundant := \<not> q_favored e\<rparr>) (entries s p)
                         else entries s p)) \<and>
    (\<forall>f. f \<notin> base_name (entries s) ` set xs \<longrightarrow> (f \<in> redundant_edges s' \<longleftrightarrow> f \<in> redundant_edges s)) \<and>
    marks_ok s' xs \<and>
    s' = s\<lparr>entries := entries s', redundant_edges := redundant_edges s'\<rparr>"
  using assms
proof (induction xs arbitrary: q s)
  case Nil
  then show ?case by (auto simp: redundant_loop.simps marks_ok_def)
next
  case (Cons x xs)
  then obtain e fn where e: "q = Some x" "entries s x = Some e" "qpath (entries s) (q_next e) xs"
    "after_slash (q_fname e) = Some fn"
    by (auto simp: marks_ok_def split: option.splits)
  have name: "base_name (entries s) x = fn" using e by (simp add: base_name_def)
  have fstate: "fn \<in> redundant_edges s \<longleftrightarrow> q_fs_redundant e"
    using Cons.prems(3) e(2) name by (auto simp: marks_ok_def)
  define s1 where "s1 = s\<lparr>entries := (entries s)(x \<mapsto> e\<lparr>q_fs_redundant := \<not> q_favored e\<rparr>),
    redundant_edges := (if q_favored e then redundant_edges s - {fn} else insert fn (redundant_edges s))\<rparr>"
  have mark: "mark_as_redundant x (\<not> q_favored e) s = Some (Inr s1)"
    using e(2,4) fstate by (auto simp: mark_as_redundant_def s1_def fun_upd_idem insert_absorb)
  have names: "base_name (entries s1) p = base_name (entries s) p" for p
    using e(2) by (simp add: s1_def base_name_def)
  have "qpath (entries s1) (q_next e) xs"
    by (rule qpath_agree [OF e(3)]) (use Cons.prems(2) in \<open>auto simp: s1_def\<close>)
  moreover have other: "f \<noteq> fn \<Longrightarrow> f \<in> redundant_edges s1 \<longleftrightarrow> f \<in> redundant_edges s" for f
    by (simp add: s1_def)
  have inj: "inj_on (base_name (entries s)) (set (x # xs))" using Cons.prems(3) by (simp add: marks_ok_def)
  then have fresh: "fn \<notin> base_name (entries s) ` set xs" using Cons.prems(2) name by auto
  have "marks_ok s1 xs"
    unfolding marks_ok_def
  proof (intro conjI ballI allI impI)
    show "inj_on (base_name (entries s1)) (set xs)"
      using inj names by (auto simp: inj_on_def)
  next
    fix p e' assume p: "p \<in> set xs" "entries s1 p = Some e'"
    then have "p \<noteq> x" using Cons.prems(2) by auto
    then have e': "entries s p = Some e'" using p(2) by (simp add: s1_def)
    show "after_slash (q_fname e') \<noteq> None" using Cons.prems(3) p(1) e' by (auto simp: marks_ok_def)
    have "base_name (entries s) p \<noteq> fn" using fresh p(1) by auto
    then show "base_name (entries s1) p \<in> redundant_edges s1 \<longleftrightarrow> q_fs_redundant e'"
      using other names Cons.prems(3) p(1) e' by (simp add: marks_ok_def)
  qed
  ultimately obtain s' where s': "redundant_loop (q_next e) s1 = Some (Inr s')"
    "\<forall>p. entries s' p = (if p \<in> set xs then map_option (\<lambda>e. e\<lparr>q_fs_redundant := \<not> q_favored e\<rparr>) (entries s1 p)
                         else entries s1 p)"
    "\<forall>f. f \<notin> base_name (entries s1) ` set xs \<longrightarrow> (f \<in> redundant_edges s' \<longleftrightarrow> f \<in> redundant_edges s1)"
    "marks_ok s' xs" "s' = s1\<lparr>entries := entries s', redundant_edges := redundant_edges s'\<rparr>"
    using Cons.IH [of s1 "q_next e"] Cons.prems(2) by auto
  have step: "redundant_loop q s = Some (Inr s')"
    using e(1,2) mark s'(1) by (simp add: redundant_loop.simps [of "Some x"])
  have heap: "entries s' p = (if p \<in> set (x # xs) then map_option (\<lambda>e. e\<lparr>q_fs_redundant := \<not> q_favored e\<rparr>) (entries s p)
                         else entries s p)" for p
    using s'(2) e(2) Cons.prems(2) by (simp add: s1_def)
  have names': "base_name (entries s') p = base_name (entries s) p" for p
    using heap by (simp add: base_name_def split: option.split)
  have files: "f \<in> redundant_edges s' \<longleftrightarrow> f \<in> redundant_edges s"
    if "f \<notin> base_name (entries s) ` set (x # xs)" for f
    using s'(3) that other name names by auto
  have x_file: "fn \<in> redundant_edges s' \<longleftrightarrow> \<not> q_favored e"
    using s'(3) fresh names by (simp add: s1_def)
  have "marks_ok s' (x # xs)"
    unfolding marks_ok_def
  proof (intro conjI ballI allI impI)
    show "inj_on (base_name (entries s')) (set (x # xs))"
      using inj names' by (simp add: inj_on_def)
  next
    fix p e' assume p: "p \<in> set (x # xs)" "entries s' p = Some e'"
    have x: "p = x \<Longrightarrow> e' = e\<lparr>q_fs_redundant := \<not> q_favored e\<rparr>" using heap [of p] p(2) e(2) by simp
    show "after_slash (q_fname e') \<noteq> None"
      using x s'(4) p e(4) by (cases "p = x") (auto simp: marks_ok_def)
    show "base_name (entries s') p \<in> redundant_edges s' \<longleftrightarrow> q_fs_redundant e'"
      using x x_file name names' s'(4) p by (cases "p = x") (auto simp: marks_ok_def)
  qed
  moreover have "s' = s\<lparr>entries := entries s', redundant_edges := redundant_edges s'\<rparr>"
    using s'(5) by (simp add: s1_def)
  ultimately show ?case using step heap files by blast
qed

text \<open>
  C11: culling marks as favored a set of slot holders whose compact traces together show every byte
  that has a holder, counts them and the ones still to be fuzzed, leaves exactly the others marked
  redundant, on disk too, and cannot fail while the marks on disk agree with the entries.
\<close>

theorem cull_queue_covers:
  assumes "dumb_mode s = 0" and "score_changed s" and "qpath (entries s) (queue s) xs" and "distinct xs"
    and "slots_covered s" and "holders s \<subseteq> set xs" and "8 dvd length (top_rated s)" and "marks_ok s xs"
  shows "\<exists>s' F. cull_queue s = Some (Inr s') \<and> F \<subseteq> holders s \<and>
    (\<forall>k < length (top_rated s). top_rated s ! k \<noteq> None \<longrightarrow>
       (\<exists>p \<in> F. covers (length (top_rated s)) (entries s) p k)) \<and>
    (\<forall>p \<in> set xs. \<exists>e. entries s' p = Some e \<and> q_favored e = (p \<in> F) \<and> q_fs_redundant e = (p \<notin> F)) \<and>
    queued_favored s' = of_nat (card F) \<and>
    pending_favored s' = of_nat (card {p \<in> F. unfuzzed (entries s) p}) \<and>
    \<not> score_changed s' \<and> marks_ok s' xs"
proof -
  let ?X = "set xs" and ?n = "length (top_rated s)"
  let ?s0 = "s\<lparr>score_changed := False\<rparr>"
  have same: "slots_covered ?s0" "holders ?s0 \<subseteq> ?X" "8 dvd length (top_rated ?s0)"
    using assms(5-7) by (simp_all add: slots_covered_def holders_def)
  have ones: "tbit (replicate (?n div 8) 255) k" if "k < ?n" for k
  proof -
    have "k div 8 < ?n div 8" using that assms(7) by (auto elim: dvdE simp: div_less_iff_less_mult mult.commute)
    moreover have "bit (255 :: u8) i" if "i < 8" for i
    proof -
      have ff: "(255 :: u8) = -1" by simp
      show ?thesis unfolding ff using that by simp
    qed
    ultimately show ?thesis by (simp add: tbit_def)
  qed
  obtain F where F: "grab_loop ?n 0 (replicate (?n div 8) 255) (fav_state_of ?X {} ?s0)
      = Some (fav_state_of ?X F ?s0)" "finite F" "F \<subseteq> holders s"
    "\<forall>k < ?n. top_rated s ! k \<noteq> None \<longrightarrow> (\<exists>p \<in> F. covers ?n (entries s) p k)"
    using grab_loop_spec [OF same, of 0 ?n "{}" "replicate (?n div 8) 255"] ones assms(7)
    by (auto simp: holders_def)
  let ?s2 = "fav_state_of ?X F ?s0"
  have s2: "entries ?s2 = mark_favored ?X F (entries s)" "queue ?s2 = queue s"
    "redundant_edges ?s2 = redundant_edges s" by (simp_all add: fav_state_of_def)
  have "base_name (mark_favored ?X F (entries s)) p = base_name (entries s) p" for p
    by (simp add: base_name_def mark_favored_def split: option.split)
  then have "marks_ok ?s2 xs"
    using assms(8) unfolding marks_ok_def s2 by (auto simp: mark_favored_def inj_on_def)
  then obtain s' where s': "redundant_loop (queue ?s2) ?s2 = Some (Inr s')"
    "\<forall>p. entries s' p = (if p \<in> set xs then map_option (\<lambda>e. e\<lparr>q_fs_redundant := \<not> q_favored e\<rparr>) (entries ?s2 p)
                         else entries ?s2 p)"
    "marks_ok s' xs" "s' = ?s2\<lparr>entries := entries s', redundant_edges := redundant_edges s'\<rparr>"
    using redundant_loop_spec [of ?s2 "queue s" xs] assms(3,4) s2 by auto
  have "cull_queue s = Some (Inr s')"
    using assms(1,2) unfavor_loop_marks [OF assms(3,4)] F(1) s'(1)
    by (simp add: cull_queue_def fav_state_of_def)
  moreover have "\<exists>e. entries s' p = Some e \<and> q_favored e = (p \<in> F) \<and> q_fs_redundant e = (p \<notin> F)"
    if "p \<in> set xs" for p
    using qpath_in_dom [OF assms(3) that] s'(2) that by (auto simp: s2 mark_favored_def)
  moreover have "queued_favored s' = of_nat (card F)" "\<not> score_changed s'"
    "pending_favored s' = of_nat (card {p \<in> F. unfuzzed (entries s) p})"
    using arg_cong [OF s'(4), of queued_favored] arg_cong [OF s'(4), of pending_favored]
      arg_cong [OF s'(4), of score_changed] by (simp_all add: fav_state_of_def)
  ultimately show ?thesis using F(3,4) s'(3) by blast
qed

definition demo_cull :: fav_state where
  "demo_cull = demo_fav\<lparr>score_changed := True, top_rated := [Some 1, None, None, None, None, None, None, None],
     entries := [1 \<mapsto> zero_entry\<lparr>q_fname := ''q/a'', q_trace_mini := Some [1], q_tc_ref := 1\<rparr>]\<rparr>"

theorem cull_queue_covers_witness:
  "\<exists>s' e. cull_queue demo_cull = Some (Inr s') \<and> entries s' 1 = Some e \<and> q_favored e"
proof -
  have d: "dumb_mode demo_cull = 0" "score_changed demo_cull" "qpath (entries demo_cull) (queue demo_cull) [1]"
    "distinct [1 :: nat]" "8 dvd length (top_rated demo_cull)" "holders demo_cull \<subseteq> set [1]"
    by (auto simp: demo_cull_def demo_fav_def zero_entry_def holders_def)
  have cov: "slots_covered demo_cull"
    by (simp add: slots_covered_def demo_cull_def demo_fav_def covers_def tbit_def nth_Cons')
  have "marks_ok demo_cull [1]"
    by (auto simp: marks_ok_def demo_cull_def demo_fav_def after_slash_def zero_entry_def)
  from cull_queue_covers [OF d(1-4) cov d(6,5) this] obtain s' F where s':
    "cull_queue demo_cull = Some (Inr s')"
    "\<forall>k < length (top_rated demo_cull). top_rated demo_cull ! k \<noteq> None \<longrightarrow>
       (\<exists>p \<in> F. covers (length (top_rated demo_cull)) (entries demo_cull) p k)"
    "\<forall>p \<in> set [1]. \<exists>e. entries s' p = Some e \<and> q_favored e = (p \<in> F) \<and> q_fs_redundant e = (p \<notin> F)" by blast
  have "0 < length (top_rated demo_cull)" "top_rated demo_cull ! 0 \<noteq> None" by (simp_all add: demo_cull_def)
  then have "\<exists>p \<in> F. covers (length (top_rated demo_cull)) (entries demo_cull) p 0" using s'(2) by blast
  then have "1 \<in> F" by (auto simp: covers_def demo_cull_def demo_fav_def split: if_splits)
  then show ?thesis using s'(1,3) by auto
qed

end
