(* ===== verification/Afl_Similar.thy ===== *)
theory Afl_Similar
  imports Afl_Prelude
begin

text \<open>
  The helpers of \<^verbatim>\<open>afl-fuzz.c\<close> that recognise a change as one that an earlier deterministic stage
  makes: \<^verbatim>\<open>could_be_bitflip\<close>, \<^verbatim>\<open>could_be_arith\<close> and \<^verbatim>\<open>could_be_interest\<close>, with the lists of
  interesting values of \<^verbatim>\<open>config.h\<close> and the byte swaps of \<^verbatim>\<open>types.h\<close>.
\<close>

section \<open>Interesting values and byte swaps\<close>

definition INTERESTING_8 :: "int list" where
  "INTERESTING_8 = [-128, -1, 0, 1, 16, 32, 64, 100, 127]"

definition INTERESTING_16 :: "int list" where
  "INTERESTING_16 = [-32768, -129, 128, 255, 256, 512, 1000, 1024, 4096, 32767]"

definition INTERESTING_32 :: "int list" where
  "INTERESTING_32 = [-2147483648, -100663046, -32769, 32768, 65535, 65536, 100663045, 2147483647]"

definition interesting_8 :: "u8 list" where
  "interesting_8 = map word_of_int INTERESTING_8"

definition interesting_16 :: "u16 list" where
  "interesting_16 = map word_of_int (INTERESTING_8 @ INTERESTING_16)"

definition interesting_32 :: "u32 list" where
  "interesting_32 = map word_of_int (INTERESTING_8 @ INTERESTING_16 @ INTERESTING_32)"

definition SWAP16 :: "u16 \<Rightarrow> u16" where
  "SWAP16 x = push_bit 8 x OR drop_bit 8 x"

definition SWAP32 :: "u32 \<Rightarrow> u32" where
  "SWAP32 x = push_bit 24 x OR drop_bit 24 x OR (push_bit 8 x AND 0x00FF0000)
              OR (drop_bit 8 x AND 0x0000FF00)"

definition ARITH_MAX :: nat where "ARITH_MAX = 35"

section \<open>Bit flips\<close>

text \<open>\<^verbatim>\<open>while (!(xor_val & 1)) { sh++; xor_val >>= 1; }\<close>, which needs a nonzero value to end.\<close>

partial_function (option) shift_out :: "u32 \<Rightarrow> u32 \<Rightarrow> (u32 \<times> u32) option" where
  "shift_out xor_val sh =
     (if xor_val AND 1 = 0 then shift_out (drop_bit 1 xor_val) (sh + 1) else Some (xor_val, sh))"

definition could_be_bitflip :: "u32 \<Rightarrow> bool option" where
  "could_be_bitflip xor_val0 =
     (if xor_val0 = 0 then Some True
      else do {
        (xor_val, sh) \<leftarrow> shift_out xor_val0 0;
        if xor_val = 1 \<or> xor_val = 3 \<or> xor_val = 15 then Some True
        else if sh AND 7 \<noteq> 0 then Some False
        else Some (xor_val = 0xff \<or> xor_val = 0xffff \<or> xor_val = 0xffffffff) })"

text \<open>The odd part and the exponent of two of a number.\<close>

lemma odd_part_unique:
  fixes a b :: nat
  assumes "odd a" and "odd b" and "a * 2 ^ i = b * 2 ^ j"
  shows "a = b \<and> i = j"
  using assms(3)
proof (induction i arbitrary: j)
  case 0
  then show ?case using assms(1) by (cases j) auto
next
  case (Suc i)
  then obtain j' where "j = Suc j'" using assms(2) by (cases j) auto
  with Suc show ?case by auto
qed

lemma odd_part_exists: "n \<noteq> 0 \<Longrightarrow> \<exists>i y. n = y * 2 ^ i \<and> odd (y :: nat)"
proof (induction n rule: less_induct)
  case (less n)
  show ?case
  proof (cases "even n")
    case True
    then obtain m where m: "n = 2 * m" by (elim evenE)
    then obtain i y where "m = y * 2 ^ i" "odd y" using less.IH [of m] less.prems by auto
    then have "n = y * 2 ^ Suc i \<and> odd y" using m by simp
    then show ?thesis by blast
  next
    case False
    then have "n = n * 2 ^ 0 \<and> odd n" by simp
    then show ?thesis by blast
  qed
qed

lemma odd_part_pattern:
  assumes "odd y" and "odd c"
  shows "(\<exists>k. P k \<and> y * 2 ^ i = c * 2 ^ k) \<longleftrightarrow> y = (c :: nat) \<and> P i"
  using odd_part_unique [OF assms] by blast

lemma and_1_word: "(x :: 'a::len word) AND 1 = 0 \<longleftrightarrow> even (unat x)"
proof -
  have "x AND 1 = 0 \<longleftrightarrow> \<not> bit x 0" using and_exp_eq_0_iff_not_bit [of x 0] by simp
  also have "bit x 0 \<longleftrightarrow> bit (unat x) 0" by (simp add: bit_unsigned_iff)
  finally show ?thesis by (simp add: bit_0)
qed

lemma shift_out_odd_part:
  "unat x = y * 2 ^ i \<Longrightarrow> odd y \<Longrightarrow> shift_out x sh = Some (of_nat y, sh + of_nat i)"
proof (induction i arbitrary: x sh)
  case 0
  have "x = of_nat (unat x)" by simp
  also have "\<dots> = of_nat y" using 0(1) by simp
  finally have x: "x = of_nat y" .
  have "\<not> x AND 1 = 0" using 0 by (simp add: and_1_word)
  then have "shift_out x sh = Some (x, sh)" by (simp add: shift_out.simps [of x])
  then show ?case unfolding x by simp
next
  case (Suc i)
  have "unat (drop_bit 1 x) = unat x div 2"
    by (rule trans [OF unat_drop_bit_eq]) (simp add: drop_bit_eq_div)
  then have "unat (drop_bit 1 x) = y * 2 ^ i" using Suc.prems(1) by simp
  from Suc.IH [OF this Suc.prems(2)] have "shift_out (drop_bit 1 x) (sh + 1) = Some (of_nat y, sh + 1 + of_nat i)" .
  moreover have "x AND 1 = 0" using Suc.prems(1) by (simp add: and_1_word)
  ultimately show ?case by (simp add: shift_out.simps [of x] add.assoc)
qed

lemma could_be_bitflip_value:
  "could_be_bitflip x = Some (x = 0 \<or>
     (\<exists>k. unat x = 2 ^ k \<or> unat x = 3 * 2 ^ k \<or> unat x = 15 * 2 ^ k) \<or>
     (\<exists>k. 8 dvd k \<and> (unat x = 0xff * 2 ^ k \<or> unat x = 0xffff * 2 ^ k \<or> unat x = 0xffffffff * 2 ^ k)))"
proof (cases "x = 0")
  case True
  then show ?thesis by (simp add: could_be_bitflip_def)
next
  case False
  then have "unat x \<noteq> 0" by (simp add: unat_eq_zero)
  then obtain i y where y: "unat x = y * 2 ^ i" "odd y" using odd_part_exists by blast
  have lt: "y * 2 ^ i < 2 ^ 32" using unsigned_less [of x, where 'a = nat] y(1) by simp
  then have y32: "y < 2 ^ 32" by (metis le_less_trans mult_le_mono2 nat_mult_1_right one_le_power one_le_numeral)
  have "1 \<le> y" using y(2) by (cases y) auto
  then have "2 ^ i \<le> y * 2 ^ i" by simp
  then have "(2::nat) ^ i < 2 ^ 32" using lt by (rule le_less_trans)
  then have i32: "i < 32" using power_less_imp_less_exp [of "2 :: nat" i 32] by simp
  have yc: "(of_nat y :: u32) = c \<longleftrightarrow> y = unat c" for c
  proof -
    have "unat (of_nat y :: u32) = y" using y32 by (simp add: unat_of_nat)
    then show ?thesis by (metis of_nat_unat ucast_id)
  qed
  have sh: "(of_nat i :: u32) AND 7 = 0 \<longleftrightarrow> 8 dvd i"
  proof -
    have "unat (of_nat i :: u32) = i" using i32 by (simp add: unat_of_nat)
    then have "unat ((of_nat i :: u32) AND 7) = i mod 8"
      using take_bit_eq_mask [of 3 i] by (simp add: unsigned_and_eq take_bit_eq_mod mask_eq_exp_minus_1)
    then show ?thesis by (metis dvd_eq_mod_eq_0 unat_eq_zero)
  qed
  have run: "could_be_bitflip x = Some (y = 1 \<or> y = 3 \<or> y = 15 \<or>
      8 dvd i \<and> (y = 0xff \<or> y = 0xffff \<or> y = 0xffffffff))"
    unfolding could_be_bitflip_def using False shift_out_odd_part [OF y, of 0] sh
    by (simp add: yc)
  have pat: "(\<exists>k. P k \<and> unat x = c * 2 ^ k) \<longleftrightarrow> y = c \<and> P i" if "odd c" for P c
    unfolding y(1) by (rule odd_part_pattern [OF y(2) that])
  have any: "(\<exists>k. unat x = 2 ^ k \<or> unat x = 3 * 2 ^ k \<or> unat x = 15 * 2 ^ k) \<longleftrightarrow> y = 1 \<or> y = 3 \<or> y = 15"
    using pat [of 1 "\<lambda>_. True"] pat [of 3 "\<lambda>_. True"] pat [of 15 "\<lambda>_. True"] by auto
  have aligned: "(\<exists>k. 8 dvd k \<and> (unat x = 0xff * 2 ^ k \<or> unat x = 0xffff * 2 ^ k \<or> unat x = 0xffffffff * 2 ^ k))
      \<longleftrightarrow> 8 dvd i \<and> (y = 0xff \<or> y = 0xffff \<or> y = 0xffffffff)"
    using pat [of "0xff" "\<lambda>k. 8 dvd k"] pat [of "0xffff" "\<lambda>k. 8 dvd k"] pat [of "0xffffffff" "\<lambda>k. 8 dvd k"] by auto
  show ?thesis unfolding run any aligned using False by simp
qed

text \<open>
  C12: \<^verbatim>\<open>could_be_bitflip\<close> always returns, and says yes exactly to zero, to runs of 1, 2 or 4 bits at
  any position, and to runs of 8, 16 or 32 bits at a byte boundary.
\<close>

theorem could_be_bitflip_exact:
  "could_be_bitflip x = Some (x = 0 \<or>
     (\<exists>k. unat x = 2 ^ k \<or> unat x = 3 * 2 ^ k \<or> unat x = 15 * 2 ^ k) \<or>
     (\<exists>k. 8 dvd k \<and> (unat x = 0xff * 2 ^ k \<or> unat x = 0xffff * 2 ^ k \<or> unat x = 0xffffffff * 2 ^ k)))"
  by (rule could_be_bitflip_value)

section \<open>Arithmetic\<close>

text \<open>
  The loops over the bytes and the words of the two values: how many differ, and the last pair
  that does.
\<close>

definition find_diff :: "(nat \<Rightarrow> 'a::len word) \<Rightarrow> (nat \<Rightarrow> 'a word) \<Rightarrow> nat \<Rightarrow> nat \<times> u32 \<times> u32" where
  "find_diff a b n =
     fold (\<lambda>i (diffs, ov, nv). if a i \<noteq> b i then (diffs + 1, ucast (a i), ucast (b i)) else (diffs, ov, nv))
       [0..<n] (0, 0, 0)"

definition byte_of :: "u32 \<Rightarrow> nat \<Rightarrow> u8" where
  "byte_of v i = ucast (drop_bit (8 * i) v)"

definition word_of :: "u32 \<Rightarrow> nat \<Rightarrow> u16" where
  "word_of v i = ucast (drop_bit (16 * i) v)"

definition could_be_arith :: "u32 \<Rightarrow> u32 \<Rightarrow> nat \<Rightarrow> bool" where
  "could_be_arith old_val new_val blen =
     (if old_val = new_val then True
      else
        let (diffs, ov, nv) = find_diff (byte_of old_val) (byte_of new_val) blen in
        if diffs = 1 \<and> ((ucast (ov - nv) :: u8) \<le> of_nat ARITH_MAX \<or> (ucast (nv - ov) :: u8) \<le> of_nat ARITH_MAX)
        then True
        else if blen = 1 then False
        else
          let (diffs, ov, nv) = find_diff (word_of old_val) (word_of new_val) (blen div 2) in
          if diffs = 1 \<and> ((ucast (ov - nv) :: u16) \<le> of_nat ARITH_MAX \<or> (ucast (nv - ov) :: u16) \<le> of_nat ARITH_MAX)
          then True
          else
            let ov = (ucast (SWAP16 (ucast ov)) :: u32); nv = (ucast (SWAP16 (ucast nv)) :: u32) in
            if diffs = 1 \<and> ((ucast (ov - nv) :: u16) \<le> of_nat ARITH_MAX \<or> (ucast (nv - ov) :: u16) \<le> of_nat ARITH_MAX)
            then True
            else if blen = 4
            then
              if old_val - new_val \<le> of_nat ARITH_MAX \<or> new_val - old_val \<le> of_nat ARITH_MAX then True
              else
                let new_val = SWAP32 new_val; old_val = SWAP32 old_val
                in old_val - new_val \<le> of_nat ARITH_MAX \<or> new_val - old_val \<le> of_nat ARITH_MAX
            else False)"

lemma find_diff_cases:
  obtains (none) ov nv where "find_diff a b n = (0, ov, nv)" "\<forall>i < n. a i = b i"
  | (one) i where "find_diff a b n = (1, ucast (a i), ucast (b i))" "i < n" "a i \<noteq> b i"
      "\<forall>j < n. j \<noteq> i \<longrightarrow> a j = b j"
  | (more) d ov nv i j where "find_diff a b n = (d, ov, nv)" "2 \<le> d" "i < n" "j < n" "i \<noteq> j"
      "a i \<noteq> b i" "a j \<noteq> b j"
proof -
  have "(\<exists>ov nv. find_diff a b n = (0, ov, nv) \<and> (\<forall>i < n. a i = b i)) \<or>
    (\<exists>i. find_diff a b n = (1, ucast (a i), ucast (b i)) \<and> i < n \<and> a i \<noteq> b i \<and> (\<forall>j < n. j \<noteq> i \<longrightarrow> a j = b j)) \<or>
    (\<exists>d ov nv i j. find_diff a b n = (d, ov, nv) \<and> 2 \<le> d \<and> i < n \<and> j < n \<and> i \<noteq> j \<and> a i \<noteq> b i \<and> a j \<noteq> b j)"
  proof (induction n)
    case 0
    then show ?case by (simp add: find_diff_def)
  next
    case (Suc n)
    have step: "find_diff a b (Suc n) = (case find_diff a b n of (d, ov, nv) \<Rightarrow>
        if a n \<noteq> b n then (d + 1, ucast (a n), ucast (b n)) else (d, ov, nv))"
      by (simp add: find_diff_def split: prod.split)
    show ?case
    proof (cases "a n = b n")
      case True
      then have "find_diff a b (Suc n) = find_diff a b n" using step by (simp split: prod.split)
      then show ?thesis using Suc True by (metis less_Suc_eq)
    next
      case False
      from Suc show ?thesis
      proof (elim disjE exE conjE)
        fix ov nv assume "find_diff a b n = (0, ov, nv)" "\<forall>i < n. a i = b i"
        then have "find_diff a b (Suc n) = (1, ucast (a n), ucast (b n)) \<and> (\<forall>j < Suc n. j \<noteq> n \<longrightarrow> a j = b j)"
          using step False by (simp add: less_Suc_eq)
        then show ?thesis using False by blast
      next
        fix i assume "find_diff a b n = (1, ucast (a i), ucast (b i))" "i < n" "a i \<noteq> b i"
        then have "find_diff a b (Suc n) = (2, ucast (a n), ucast (b n)) \<and> i < Suc n \<and> i \<noteq> n \<and> a i \<noteq> b i"
          using step False by simp
        then show ?thesis using False by (metis lessI order_refl)
      next
        fix d ov nv i j
        assume "find_diff a b n = (d, ov, nv)" "2 \<le> d" "i < n" "j < n" "i \<noteq> j" "a i \<noteq> b i" "a j \<noteq> b j"
        then have "find_diff a b (Suc n) = (d + 1, ucast (a n), ucast (b n)) \<and> 2 \<le> d + 1 \<and>
            i < Suc n \<and> j < Suc n \<and> i \<noteq> j \<and> a i \<noteq> b i \<and> a j \<noteq> b j"
          using step False by simp
        then show ?thesis by blast
      qed
    qed
  qed
  then show ?thesis using none one more by blast
qed

text \<open>Within \<^verbatim>\<open>ARITH_MAX\<close> steps, up or down, with wrap-around.\<close>

definition close_to :: "'a::len word \<Rightarrow> 'a word \<Rightarrow> bool" where
  "close_to a b \<longleftrightarrow> (\<exists>d \<le> ARITH_MAX. b = a + of_nat d \<or> b = a - of_nat d)"

lemma close_to_iff:
  assumes "6 \<le> LENGTH('a::len)"
  shows "close_to a b \<longleftrightarrow> (a - b :: 'a word) \<le> of_nat ARITH_MAX \<or> b - a \<le> of_nat ARITH_MAX"
proof -
  have "2 ^ 6 \<le> (2 :: nat) ^ LENGTH('a)" by (rule power_increasing [OF assms]) simp
  then have lt: "35 < (2 :: nat) ^ LENGTH('a)" by simp
  have small: "x \<le> of_nat ARITH_MAX \<longleftrightarrow> (\<exists>d \<le> ARITH_MAX. x = of_nat d)" for x :: "'a word"
  proof
    assume "x \<le> of_nat ARITH_MAX"
    then have "unat x \<le> ARITH_MAX" using lt by (simp add: word_le_nat_alt unat_of_nat ARITH_MAX_def take_bit_nat_eq_self)
    then show "\<exists>d \<le> ARITH_MAX. x = of_nat d" by (intro exI [of _ "unat x"]) simp
  next
    assume "\<exists>d \<le> ARITH_MAX. x = of_nat d"
    then show "x \<le> of_nat ARITH_MAX" using lt by (auto simp: word_le_nat_alt unat_of_nat ARITH_MAX_def take_bit_nat_eq_self)
  qed
  have up: "b - a = x \<longleftrightarrow> b = a + x" and down: "a - b = x \<longleftrightarrow> b = a - x" for x
    by (auto simp: diff_eq_eq eq_diff_eq add.commute)
  show ?thesis unfolding small close_to_def up down by blast
qed

lemma ucast_diff:
  "(ucast (ucast (a :: u8) - ucast b :: u32) :: u8) = a - b"
  "(ucast (ucast (c :: u16) - ucast d :: u32) :: u16) = c - d"
  by (transfer, simp add: take_bit_diff)+

text \<open>A change that touches one byte, one aligned word or the whole of the value.\<close>

definition only_at :: "nat \<Rightarrow> (nat \<Rightarrow> 'a) \<Rightarrow> (nat \<Rightarrow> 'a) \<Rightarrow> ('a \<Rightarrow> 'a \<Rightarrow> bool) \<Rightarrow> bool" where
  "only_at n a b P \<longleftrightarrow> (\<exists>i < n. a i \<noteq> b i \<and> P (a i) (b i) \<and> (\<forall>j < n. j \<noteq> i \<longrightarrow> a j = b j))"

lemma find_diff_only_at:
  "(case find_diff a b n of (diffs, ov, nv) \<Rightarrow> diffs = 1 \<and> Q ov nv) \<longleftrightarrow>
   only_at n a b (\<lambda>x y. Q (ucast x) (ucast y))"
proof (cases rule: find_diff_cases [of a b n])
  case (none ov nv)
  then show ?thesis by (auto simp: only_at_def)
next
  case (one i)
  then show ?thesis by (auto simp: only_at_def)
next
  case (more d ov nv i j)
  then show ?thesis by (auto simp: only_at_def)
qed

text \<open>
  A two-byte adjustment at an odd offset is not recognised: the arithmetic stage at byte 1 of
  these four bytes decrements 0x0100 to 0x00ff, and the test says no.
\<close>

lemma could_be_arith_unaligned: "\<not> could_be_arith 0x00010000 0x0000ff00 4"
  by code_simp

text \<open>
  C13: \<^verbatim>\<open>could_be_arith\<close> says yes exactly when the new value is the old one, or differs from it in a
  single byte by at most 35, or (for longer values) in a single ALIGNED 16-bit word (bytes 0-1 or
  2-3 of the value, and no other) by at most 35 in either byte order, or (for four bytes) by at
  most 35 as a whole in either byte order. A two-byte change at an odd offset, or one that
  straddles the two aligned words, is answered with no, unless one of the other clauses covers
  it (\<^verbatim>\<open>could_be_arith_unaligned\<close>).
\<close>

theorem could_be_arith_exact:
  "could_be_arith old_val new_val blen \<longleftrightarrow>
     old_val = new_val \<or>
     only_at blen (byte_of old_val) (byte_of new_val) close_to \<or>
     blen \<noteq> 1 \<and>
       (only_at (blen div 2) (word_of old_val) (word_of new_val) close_to \<or>
        only_at (blen div 2) (word_of old_val) (word_of new_val) (\<lambda>a b. close_to (SWAP16 a) (SWAP16 b)) \<or>
        blen = 4 \<and> (close_to old_val new_val \<or> close_to (SWAP32 old_val) (SWAP32 new_val)))"
proof -
  have c8: "(close_to :: u8 \<Rightarrow> u8 \<Rightarrow> bool) = (\<lambda>x y. (ucast (ucast x - ucast y :: u32) :: u8) \<le> of_nat ARITH_MAX \<or> (ucast (ucast y - ucast x :: u32) :: u8) \<le> of_nat ARITH_MAX)"
    by (simp add: fun_eq_iff close_to_iff ucast_diff)
  have c16: "(close_to :: u16 \<Rightarrow> u16 \<Rightarrow> bool) = (\<lambda>x y. (ucast (ucast x - ucast y :: u32) :: u16) \<le> of_nat ARITH_MAX \<or> (ucast (ucast y - ucast x :: u32) :: u16) \<le> of_nat ARITH_MAX)"
    by (simp add: fun_eq_iff close_to_iff ucast_diff)
  have down: "(ucast (ucast x :: u32) :: u16) = x" for x :: u16
    by (rule bit_word_eqI) (simp add: bit_ucast_iff)
  note at8 = find_diff_only_at [where 'a = 8 and Q = "\<lambda>ov nv. (ucast (ov - nv) :: u8) \<le> of_nat ARITH_MAX \<or> (ucast (nv - ov) :: u8) \<le> of_nat ARITH_MAX", folded c8]
  note at16 = find_diff_only_at [where 'a = 16 and Q = "\<lambda>ov nv. (ucast (ov - nv) :: u16) \<le> of_nat ARITH_MAX \<or> (ucast (nv - ov) :: u16) \<le> of_nat ARITH_MAX", folded c16]
  have at16s: "(case find_diff a b n of (diffs, ov, nv) \<Rightarrow> diffs = 1 \<and>
        ((ucast ((ucast (SWAP16 (ucast ov)) :: u32) - ucast (SWAP16 (ucast nv))) :: u16) \<le> of_nat ARITH_MAX \<or>
         (ucast ((ucast (SWAP16 (ucast nv)) :: u32) - ucast (SWAP16 (ucast ov))) :: u16) \<le> of_nat ARITH_MAX))
      \<longleftrightarrow> only_at n a b (\<lambda>x y. close_to (SWAP16 x) (SWAP16 y))" for a b :: "nat \<Rightarrow> u16" and n
    unfolding find_diff_only_at down by (simp add: c16)
  obtain d8 o8 n8 where f8: "find_diff (byte_of old_val) (byte_of new_val) blen = (d8, o8, n8)" by (metis prod_cases3)
  obtain d16 o16 n16 where f16: "find_diff (word_of old_val) (word_of new_val) (blen div 2) = (d16, o16, n16)" by (metis prod_cases3)
  note e8 = at8 [of "byte_of old_val" "byte_of new_val" blen, unfolded f8 prod.case]
  note e16 = at16 [of "word_of old_val" "word_of new_val" "blen div 2", unfolded f16 prod.case]
  note e16s = at16s [of "word_of old_val" "word_of new_val" "blen div 2", unfolded f16 prod.case]
  have c32: "old_val - new_val \<le> of_nat ARITH_MAX \<or> new_val - old_val \<le> of_nat ARITH_MAX \<longleftrightarrow> close_to old_val new_val"
    "SWAP32 old_val - SWAP32 new_val \<le> of_nat ARITH_MAX \<or> SWAP32 new_val - SWAP32 old_val \<le> of_nat ARITH_MAX
      \<longleftrightarrow> close_to (SWAP32 old_val) (SWAP32 new_val)"
    by (rule close_to_iff [symmetric]; simp)+
  show ?thesis
    unfolding could_be_arith_def f8 f16 Let_def prod.case e8 e16 e16s c32 by simp
qed

section \<open>Interesting values\<close>

definition could_be_interest :: "u32 \<Rightarrow> u32 \<Rightarrow> nat \<Rightarrow> bool \<Rightarrow> bool" where
  "could_be_interest old_val new_val blen check_le =
     (if old_val = new_val then True
      else if list_ex (\<lambda>i. list_ex (\<lambda>v.
                new_val = (old_val AND NOT (push_bit (i * 8) 0xff)) OR push_bit (i * 8) (ucast v))
              interesting_8) [0..<blen] then True
      else if blen = 2 \<and> \<not> check_le then False
      else if list_ex (\<lambda>i. list_ex (\<lambda>v.
                new_val = (old_val AND NOT (push_bit (i * 8) 0xffff)) OR push_bit (i * 8) (ucast v) \<or>
                2 < blen \<and>
                new_val = (old_val AND NOT (push_bit (i * 8) 0xffff)) OR push_bit (i * 8) (ucast (SWAP16 v)))
              interesting_16) [0..<blen - 1] then True
      else blen = 4 \<and> check_le \<and> list_ex (\<lambda>v. new_val = v) interesting_32)"

text \<open>A value written into the bytes of another, as masks and shifts.\<close>

lemma put_bytes_masks:
  fixes old new :: u32
  assumes "i + length d \<le> 4"
  shows "put (le_bytes 4 old) i d = Some (le_bytes 4 new) \<longleftrightarrow>
    new = (old AND NOT (push_bit (i * 8) (mask (8 * length d)))) OR push_bit (i * 8) (le_word d)"
proof -
  let ?n = "length d"
  let ?l = "take i (le_bytes 4 old) @ d @ drop (i + ?n) (le_bytes 4 old)"
  have len: "length ?l = 4" using assms by simp
  have "le_bytes (length ?l) (le_word ?l :: u32) = ?l" by (rule le_bytes_le_word) (use len in simp)
  then have "le_bytes 4 (le_word ?l :: u32) = ?l" unfolding len .
  moreover have "le_word (le_bytes 4 new) = new" by (rule le_word_le_bytes) simp
  ultimately have eq: "?l = le_bytes 4 new \<longleftrightarrow> new = le_word ?l" by metis
  have nth: "?l ! j = (if j < i then ucast (drop_bit (8 * j) old)
      else if j < i + ?n then d ! (j - i) else ucast (drop_bit (8 * j) old))" if "j < 4" for j
  proof -
    have "le_bytes 4 old ! j = ucast (drop_bit (8 * j) old)" using that by (rule nth_le_bytes)
    then show ?thesis using that assms by (auto simp: nth_append)
  qed
  have "le_word ?l = (old AND NOT (push_bit (i * 8) (mask (8 * ?n)))) OR push_bit (i * 8) (le_word d)"
  proof (rule bit_word_eqI)
    fix k assume "k < LENGTH(32)"
    then have k: "k < 32" "k div 8 < 4" by simp_all
    have lhs: "bit (le_word ?l :: u32) k \<longleftrightarrow> bit (?l ! (k div 8)) (k mod 8)"
      using k len by (simp add: bit_le_word)
    have old: "bit (ucast (drop_bit (8 * (k div 8)) old) :: u8) (k mod 8) \<longleftrightarrow> bit old k"
      by (simp add: bit_ucast_iff bit_drop_bit_eq)
    have div: "(k - i * 8) div 8 = k div 8 - i" "(k - i * 8) mod 8 = k mod 8" if "i * 8 \<le> k"
    proof -
      from that obtain m where "k = m + i * 8" by (metis le_add_diff_inverse2)
      then show "(k - i * 8) div 8 = k div 8 - i" "(k - i * 8) mod 8 = k mod 8" by simp_all
    qed
    have where_k: "k div 8 < i \<longleftrightarrow> k < i * 8" "k div 8 < i + ?n \<longleftrightarrow> k < i * 8 + 8 * ?n"
      by (auto simp: div_less_iff_less_mult algebra_simps)
    show "bit (le_word ?l :: u32) k \<longleftrightarrow>
        bit ((old AND NOT (push_bit (i * 8) (mask (8 * ?n)))) OR push_bit (i * 8) (le_word d)) k"
      unfolding lhs nth [OF k(2)] where_k
    proof (cases "i * 8 \<le> k \<and> k < i * 8 + 8 * ?n")
      case True
      then have "k div 8 - i < ?n" "k - i * 8 < 32" "k - i * 8 < 8 * ?n" using where_k k by linarith+
      then show "bit (if k < i * 8 then ucast (drop_bit (8 * (k div 8)) old)
          else if k < i * 8 + 8 * ?n then d ! (k div 8 - i) else ucast (drop_bit (8 * (k div 8)) old)) (k mod 8) =
        bit ((old AND NOT (push_bit (i * 8) (mask (8 * ?n)))) OR push_bit (i * 8) (le_word d)) k"
        using True k div by (simp add: bit_or_iff bit_and_iff bit_not_iff bit_push_bit_iff bit_mask_iff bit_le_word)
    next
      case False
      have "\<not> bit (le_word d :: u32) (k - i * 8)" if "i * 8 \<le> k"
        using False that by (simp add: bit_le_word less_diff_conv2 div_less_iff_less_mult) 
      then show "bit (if k < i * 8 then ucast (drop_bit (8 * (k div 8)) old)
          else if k < i * 8 + 8 * ?n then d ! (k div 8 - i) else ucast (drop_bit (8 * (k div 8)) old)) (k mod 8) =
        bit ((old AND NOT (push_bit (i * 8) (mask (8 * ?n)))) OR push_bit (i * 8) (le_word d)) k"
        using False k old by (auto simp: bit_or_iff bit_and_iff bit_not_iff bit_push_bit_iff bit_mask_iff)
    qed
  qed
  then show ?thesis using eq assms by (auto simp: put_def)
qed

lemma ff_masks: "push_bit k (0xff :: u32) = push_bit k (mask (8 * 1))" "push_bit k (0xffff :: u32) = push_bit k (mask (8 * 2))"
  by (simp_all add: mask_eq_exp_minus_1)

lemma le_word_1: "(le_word [b] :: u32) = ucast b"
  by simp

lemma le_word_2: "(le_word (le_bytes 2 (v :: u16)) :: u32) = ucast v"
proof (rule bit_word_eqI)
  fix n assume "n < LENGTH(32)"
  then have n: "n < 32" by simp
  show "bit (le_word (le_bytes 2 v) :: u32) n \<longleftrightarrow> bit (ucast v :: u32) n"
  proof (cases "n < 16")
    case True
    then have "n div 8 < 2" by (simp add: div_less_iff_less_mult)
    then have "bit (le_bytes 2 v ! (n div 8)) (n mod 8) \<longleftrightarrow> bit v n"
      by (simp add: nth_le_bytes bit_ucast_iff bit_drop_bit_eq)
    then show ?thesis using n True by (simp add: bit_le_word bit_ucast_iff div_less_iff_less_mult)
  next
    case False
    then have "\<not> n div 8 < 2" "\<not> bit v n" by (auto simp: div_less_iff_less_mult dest: bit_imp_le_length)
    then show ?thesis by (simp add: bit_le_word bit_ucast_iff)
  qed
qed

text \<open>
  C14: \<^verbatim>\<open>could_be_interest\<close> says yes exactly when the new value is the old one, or the old one with
  an interesting byte stored somewhere, or (for longer values, or when the little-endian pass of
  this width is over) with an interesting 16-bit value stored in either order the earlier stages
  use, or an interesting 32-bit value.
\<close>

theorem could_be_interest_exact:
  assumes "blen \<le> 4"
  shows "could_be_interest old_val new_val blen check_le \<longleftrightarrow>
     old_val = new_val \<or>
     (\<exists>i < blen. \<exists>v \<in> set interesting_8. put (le_bytes 4 old_val) i [v] = Some (le_bytes 4 new_val)) \<or>
     \<not> (blen = 2 \<and> \<not> check_le) \<and>
       ((\<exists>i < blen - 1. \<exists>v \<in> set interesting_16.
           put (le_bytes 4 old_val) i (le_bytes 2 v) = Some (le_bytes 4 new_val) \<or>
           2 < blen \<and> put (le_bytes 4 old_val) i (le_bytes 2 (SWAP16 v)) = Some (le_bytes 4 new_val)) \<or>
        blen = 4 \<and> check_le \<and> new_val \<in> set interesting_32)"
proof -
  have b1: "put (le_bytes 4 old_val) i [v] = Some (le_bytes 4 new_val) \<longleftrightarrow>
      new_val = (old_val AND NOT (push_bit (i * 8) 0xff)) OR push_bit (i * 8) (ucast v)"
    if "i < blen" for i v
    using put_bytes_masks [of i "[v]" old_val new_val] that assms
    by (simp add: ff_masks del: le_bytes.simps)
  have b2: "put (le_bytes 4 old_val) i (le_bytes 2 v) = Some (le_bytes 4 new_val) \<longleftrightarrow>
      new_val = (old_val AND NOT (push_bit (i * 8) 0xffff)) OR push_bit (i * 8) (ucast v)"
    if "i < blen - 1" for i and v :: u16
    using put_bytes_masks [of i "le_bytes 2 v" old_val new_val] that assms
    by (simp only: le_word_2 length_le_bytes ff_masks)
  have e1: "list_ex (\<lambda>i. list_ex (\<lambda>v.
        new_val = (old_val AND NOT (push_bit (i * 8) 0xff)) OR push_bit (i * 8) (ucast v)) interesting_8) [0..<blen]
      \<longleftrightarrow> (\<exists>i < blen. \<exists>v \<in> set interesting_8. put (le_bytes 4 old_val) i [v] = Some (le_bytes 4 new_val))"
    using b1 by (auto simp: list_ex_iff Bex_def)
  have e2: "list_ex (\<lambda>i. list_ex (\<lambda>v.
        new_val = (old_val AND NOT (push_bit (i * 8) 0xffff)) OR push_bit (i * 8) (ucast v) \<or>
        2 < blen \<and> new_val = (old_val AND NOT (push_bit (i * 8) 0xffff)) OR push_bit (i * 8) (ucast (SWAP16 v)))
        interesting_16) [0..<blen - 1]
      \<longleftrightarrow> (\<exists>i < blen - 1. \<exists>v \<in> set interesting_16.
           put (le_bytes 4 old_val) i (le_bytes 2 v) = Some (le_bytes 4 new_val) \<or>
           2 < blen \<and> put (le_bytes 4 old_val) i (le_bytes 2 (SWAP16 v)) = Some (le_bytes 4 new_val))"
    using b2 by (auto simp: list_ex_iff Bex_def)
  show ?thesis
    unfolding could_be_interest_def e1 e2 by (auto simp: list_ex_iff)
qed

theorem could_be_interest_exact_witness:
  "could_be_interest 0x11223344 0x11227f44 4 False"
proof -
  have "put (le_bytes 4 (0x11223344 :: u32)) 1 [0x7f] = Some (le_bytes 4 (0x11227f44 :: u32))" by code_simp
  moreover have "(0x7f :: u8) \<in> set interesting_8" by (simp add: interesting_8_def INTERESTING_8_def)
  ultimately show ?thesis
    using could_be_interest_exact [of 4 "0x11223344" "0x11227f44" False] by fastforce
qed

text \<open>
  The stages flip runs of bits counted from the most significant bit of each byte, so a run that
  crosses a byte boundary joins bit 0 of a byte with bit 7 of the next one.  \<^verbatim>\<open>could_be_bitflip\<close>
  looks for runs in the little-endian value instead.
\<close>

definition FLIP_BIT :: "u8 list \<Rightarrow> nat \<Rightarrow> u8 list option" where
  "FLIP_BIT ar b =
     do { v \<leftarrow> get_at ar (drop_bit 3 b); set_at ar (drop_bit 3 b) (v XOR drop_bit (b AND 7) 128) }"

definition flip_run :: "nat \<Rightarrow> nat \<Rightarrow> u8 list \<Rightarrow> u8 list option" where
  "flip_run n b ar = fold (\<lambda>k r. Option.bind r (\<lambda>a. FLIP_BIT a (b + k))) [0..<n] (Some ar)"

text \<open>
  The two-bit run across a byte boundary that the walking flip makes is not recognised, and
  a pattern it never makes is.
\<close>

theorem bitflip_across_bytes:
  "flip_run 2 7 (le_bytes 2 (0 :: u16)) = Some (le_bytes 2 (0x8001 :: u16)) \<and>
   could_be_bitflip 0x8001 = Some False \<and> could_be_bitflip 0x0180 = Some True \<and>
   list_all (\<lambda>n. list_all (\<lambda>b. flip_run n b (le_bytes 2 (0 :: u16)) \<noteq> Some (le_bytes 2 (0x0180 :: u16)))
     [0..<16]) [1, 2, 4]"
proof -
  have "list_all (\<lambda>n. list_all (\<lambda>b. flip_run n b (le_bytes 2 (0 :: u16)) \<noteq> Some (le_bytes 2 (0x0180 :: u16)))
      [0..<16]) [1, 2, 4]" by code_simp
  moreover have "flip_run 2 7 (le_bytes 2 (0 :: u16)) = Some (le_bytes 2 (0x8001 :: u16))" by code_simp
  moreover have "could_be_bitflip 0x8001 = Some False"
    using shift_out_odd_part [of "0x8001" "0x8001" 0 0] by (simp add: could_be_bitflip_def)
  moreover have "could_be_bitflip 0x0180 = Some True"
    using shift_out_odd_part [of "0x0180" 3 7 0] by (simp add: could_be_bitflip_def)
  ultimately show ?thesis by blast
qed

end
