(* ===== verification/Afl_Target.thy ===== *)
theory Afl_Target
  imports Afl_Prelude
begin

text \<open>
  What the fuzzer and its companion tools have in common: sequencing of steps that may end the
  process, with a triple for them, the status of a target that has run, and \<^verbatim>\<open>next_p2\<close>.
\<close>

section \<open>Sequencing of steps that may end the process\<close>

text \<open>\<open>None\<close>: a memory fault or no return; \<open>Some (Inl f)\<close>: the process ends with a message.\<close>

definition andthen ::
  "('e + 'a) option \<Rightarrow> ('a \<Rightarrow> ('e + 'b) option) \<Rightarrow> ('e + 'b) option" where
  "andthen m f = (case m of None \<Rightarrow> None | Some (Inl e) \<Rightarrow> Some (Inl e) | Some (Inr x) \<Rightarrow> f x)"

lemma andthen_simps [simp]:
  "andthen None f = None" "andthen (Some (Inl e)) f = Some (Inl e)" "andthen (Some (Inr x)) f = f x"
  by (simp_all add: andthen_def)

lemma andthen_Some_Inr:
  "andthen m f = Some (Inr y) \<longleftrightarrow> (\<exists>x. m = Some (Inr x) \<and> f x = Some (Inr y))"
  by (auto simp: andthen_def split: option.splits sum.splits)

lemma andthen_mono [partial_function_mono]:
  assumes "mono_option f" and "\<And>y. mono_option (\<lambda>x. g x y)"
  shows "mono_option (\<lambda>x. andthen (f x) (g x))"
proof -
  have "andthen (f x) (g x) = Option.bind (f x) (\<lambda>r. case r of Inl e \<Rightarrow> Some (Inl e) | Inr y \<Rightarrow> g x y)" for x
    by (cases "f x") (auto simp: andthen_def split: sum.split)
  moreover have "mono_option (\<lambda>x. Option.bind (f x) (\<lambda>r. case r of Inl e \<Rightarrow> Some (Inl e) | Inr y \<Rightarrow> g x y))"
  proof (rule bind_mono [OF assms(1)])
    fix r show "mono_option (\<lambda>x. case r of Inl e \<Rightarrow> Some (Inl e) | Inr y \<Rightarrow> g x y)"
      by (cases r) (auto intro: assms(2) option.const_mono)
  qed
  ultimately show ?thesis by simp
qed

text \<open>
  \<open>ends m E Q\<close>: the step is defined, so it returns and stays inside its buffers, and it ends the process
  with \<open>E\<close> or goes on with \<open>Q\<close>.
\<close>

definition ends :: "('e + 'a) option \<Rightarrow> ('e \<Rightarrow> bool) \<Rightarrow> ('a \<Rightarrow> bool) \<Rightarrow> bool" where
  "ends m E Q = (case m of None \<Rightarrow> False | Some (Inl e) \<Rightarrow> E e | Some (Inr x) \<Rightarrow> Q x)"

lemma ends_simps [simp]:
  "\<not> ends None E Q" "ends (Some (Inl e)) E Q = E e" "ends (Some (Inr x)) E Q = Q x"
  by (simp_all add: ends_def)

lemma ends_andthen:
  assumes "ends m E P" and "\<And>x. P x \<Longrightarrow> ends (f x) E Q"
  shows "ends (andthen m f) E Q"
proof (cases m)
  case (Some r)
  then show ?thesis using assms by (cases r) simp_all
qed (use assms in simp)

lemma ends_bind: "r = Some v \<Longrightarrow> ends (f v) E Q \<Longrightarrow> ends (do { x \<leftarrow> r; f x }) E Q"
  by simp

lemma ends_weaken: "ends m E P \<Longrightarrow> (\<And>e. E e \<Longrightarrow> E' e) \<Longrightarrow> (\<And>x. P x \<Longrightarrow> Q x) \<Longrightarrow> ends m E' Q"
  by (auto simp: ends_def split: option.splits sum.splits)

lemma ends_if: "(c \<Longrightarrow> ends m E Q) \<Longrightarrow> (\<not> c \<Longrightarrow> ends m' E Q) \<Longrightarrow> ends (if c then m else m') E Q"
  by simp

lemma ends_cases:
  assumes "ends m E Q"
  obtains (ended) e where "m = Some (Inl e)" "E e" | (went_on) x where "m = Some (Inr x)" "Q x"
  using assms by (auto simp: ends_def split: option.splits sum.splits)

section \<open>How a target ends\<close>

datatype wait_status = Exited u8 | Signaled u8 | Stopped u8

fun exit_status :: "wait_status \<Rightarrow> u8" where
  "exit_status (Exited c) = c"
| "exit_status (Signaled c) = 0"
| "exit_status (Stopped c) = c"

definition EXEC_FAIL_SIG :: u32 where "EXEC_FAIL_SIG = 0xfee1dead"
definition MSAN_ERROR :: u8 where "MSAN_ERROR = 86"
definition HASH_CONST :: u32 where "HASH_CONST = 0xa5b35705"
definition TRIM_START_STEPS :: u32 where "TRIM_START_STEPS = 16"
definition MAX_AUTO_EXTRA :: nat where "MAX_AUTO_EXTRA = 32"
definition TMIN_MAX_FILE :: nat where "TMIN_MAX_FILE = 10 * 1024 * 1024"
definition SIGKILL :: u8 where "SIGKILL = 9"

text \<open>The shared memory has a fixed size, whatever the target does.\<close>

definition shm :: "nat \<Rightarrow> 'a::zero list \<Rightarrow> 'a list" where
  "shm n xs = take n (xs @ replicate n 0)"

lemma length_shm [simp]: "length (shm n xs) = n"
  by (simp add: shm_def)

section \<open>Powers of two\<close>

text \<open>\<^verbatim>\<open>next_p2\<close> does not return for values above \<open>2 ^ 31\<close>: the shift drops the bit.\<close>

partial_function (option) next_p2_loop :: "u32 \<Rightarrow> u32 \<Rightarrow> u32 option" where
  "next_p2_loop val ret = (if val > ret then next_p2_loop val (push_bit 1 ret) else Some ret)"

definition next_p2 :: "u32 \<Rightarrow> u32 option" where
  "next_p2 val = next_p2_loop val 1"

declare next_p2_loop.simps [code]

lemma unat_two_power: "k < 32 \<Longrightarrow> unat (2 ^ k :: u32) = 2 ^ k"
proof -
  assume "k < 32"
  then have "(2 :: nat) ^ k < 2 ^ 32" by (intro power_strict_increasing) simp_all
  then have "take_bit 32 ((2 :: nat) ^ k) = 2 ^ k" by (rule take_bit_nat_eq_self)
  then have "unat (of_nat (2 ^ k) :: u32) = 2 ^ k" by (simp only: unsigned_of_nat len_num1 len_bit0 len_num0) simp
  then show ?thesis by simp
qed

lemma unat_push_bit_1: "unat (push_bit k (1 :: u32)) \<le> 2 ^ 31"
proof (cases "k < 32")
  case True
  then have "(2 :: nat) ^ k \<le> 2 ^ 31" by (intro power_increasing) simp_all
  then show ?thesis using unat_two_power [OF True] by (simp add: push_bit_eq_mult)
next
  case False
  then have "push_bit k (1 :: u32) = 0" by (intro bit_word_eqI) (auto simp: bit_push_bit_iff simp del: push_bit_of_1)
  then show ?thesis by (simp only: unsigned_0)
qed

lemma next_p2_loop_value:
  assumes "unat val \<le> 2 ^ 31" and "k \<le> 31" and "k = 0 \<or> 2 ^ (k - 1) < unat val"
  shows "\<exists>j\<le>31. next_p2_loop val (2 ^ k) = Some (2 ^ j) \<and> unat val \<le> 2 ^ j \<and> (j = 0 \<or> 2 ^ (j - 1) < unat val)"
  using assms
proof (induction "31 - k" arbitrary: k rule: less_induct)
  case less
  have uk: "unat (2 ^ k :: u32) = 2 ^ k" using less.prems(2) by (intro unat_two_power) simp
  show ?case
  proof (cases "val > 2 ^ k")
    case False
    then have "unat val \<le> 2 ^ k" using uk by (simp add: word_less_nat_alt)
    then show ?thesis using False less.prems by (subst next_p2_loop.simps) auto
  next
    case True
    then have more: "2 ^ k < unat val" using uk by (simp add: word_less_nat_alt)
    then have "(2::nat) ^ k < 2 ^ 31" using less.prems(1) by linarith
    then have k: "k < 31" using power_strict_increasing_iff [of "2::nat" k 31] by linarith
    have "push_bit 1 (2 ^ k :: u32) = 2 ^ Suc k" by (simp add: push_bit_eq_mult)
    then have "next_p2_loop val (2 ^ k) = next_p2_loop val (2 ^ Suc k)"
      using True next_p2_loop.simps [of val "2 ^ k"] by (simp only: if_True)
    then show ?thesis using less.hyps [of "Suc k"] less.prems(1) k more by simp
  qed
qed

lemma next_p2_value:
  assumes "unat val \<le> 2 ^ 31"
  obtains j where "j \<le> 31" and "next_p2 val = Some (2 ^ j)" and "unat val \<le> 2 ^ j" and "j = 0 \<or> 2 ^ (j - 1) < unat val"
  using next_p2_loop_value [OF assms, of 0] unfolding next_p2_def power_0 by blast

lemma next_p2_loop_power:
  assumes "next_p2_loop val ret = Some r" and "unat ret \<le> 2 ^ 31" and "\<exists>k. ret = push_bit k 1"
  shows "\<not> val > r \<and> (\<exists>k. r = push_bit k 1)"
  using assms
proof (induction rule: next_p2_loop.raw_induct [rotated 1, consumes 1, case_names body])
  case (body loop val ret r)
  then show ?case
  proof (cases "val > ret")
    case True
    obtain k where "ret = push_bit k 1" using body.prems by blast
    then have step: "push_bit 1 ret = push_bit (Suc k) (1 :: u32)" by (simp add: push_bit_push_bit)
    then show ?thesis using body True unat_push_bit_1 by metis
  qed auto
qed

text \<open>
  \<^verbatim>\<open>next_p2\<close> yields the least power of two that is not below its argument, and does not return at all for
  arguments above \<open>2 ^ 31\<close>.
\<close>

theorem next_p2_least:
  "next_p2 val = (if unat val \<le> 2 ^ 31 then Some (2 ^ (LEAST j. unat val \<le> 2 ^ j)) else None)"
proof (cases "unat val \<le> 2 ^ 31")
  case True
  obtain j where j: "next_p2 val = Some (2 ^ j)" "unat val \<le> 2 ^ j" "j = 0 \<or> 2 ^ (j - 1) < unat val"
    using next_p2_value [OF True] by metis
  have "(LEAST j. unat val \<le> 2 ^ j) = j"
  proof (rule Least_equality, rule j(2))
    fix i assume i: "unat val \<le> 2 ^ i"
    show "j \<le> i"
    proof (rule ccontr)
      assume "\<not> j \<le> i"
      then have "j \<noteq> 0" "(2 :: nat) ^ i \<le> 2 ^ (j - 1)" by (auto intro: power_increasing)
      then show False using i j(3) by linarith
    qed
  qed
  then show ?thesis using True j(1) by simp
next
  case False
  have "next_p2 val = None"
  proof (cases "next_p2 val")
    case (Some r)
    have one: "\<exists>k. (1 :: u32) = push_bit k 1" by (rule exI [of _ 0]) simp
    have "\<not> val > r \<and> (\<exists>k. r = push_bit k 1)"
      using next_p2_loop_power [OF Some [unfolded next_p2_def] _ one] by simp
    then have "unat val \<le> 2 ^ 31" using unat_push_bit_1 by (metis linorder_not_le order_trans word_le_nat_alt)
    then show ?thesis using False by simp
  qed
  then show ?thesis using False by simp
qed

end
