(* ===== verification/Afl_Extras.thy ===== *)
theory Afl_Extras
  imports Afl_Favored Afl_Similar Afl_Target
begin

text \<open>
  Dictionary tokens of \<^verbatim>\<open>afl-fuzz.c\<close>: the parser for dictionary files, the automatic tokens with
  their case-insensitive lookup, eviction and sorting, and the files they are kept in.  The
  random generator \<^verbatim>\<open>UR\<close> is here too.  What the operating system and the C library leave open
  comes from a \<open>world\<close>: the numbers \<^verbatim>\<open>random\<close> and \<^verbatim>\<open>/dev/urandom\<close> give, the clock, and the order in
  which \<^verbatim>\<open>qsort\<close> leaves equal elements.
\<close>

section \<open>Tokens\<close>

record extra_data =
  x_data :: "u8 list"
  x_len :: u32
  x_hit_cnt :: u32

record world =
  w_random :: "nat \<Rightarrow> u32"
  w_urandom :: "nat \<Rightarrow> u32"
  w_clock_us :: "nat \<Rightarrow> u64"
  w_qsort :: "(extra_data \<Rightarrow> extra_data \<Rightarrow> int) \<Rightarrow> extra_data list \<Rightarrow> extra_data list"

record extras_state = fav_state +
  rand_cnt :: u32
  draws :: nat
  ticks :: nat
  extras :: "extra_data list"
  a_extras :: "extra_data list"
  auto_changed :: bool
  disk :: "string \<rightharpoonup> u8 list"

section \<open>Random numbers and time\<close>

definition RESEED_RNG :: nat where "RESEED_RNG = 10000"

text \<open>
  \<^verbatim>\<open>UR\<close>: a reseed from \<^verbatim>\<open>/dev/urandom\<close> when the counter runs out, then \<^verbatim>\<open>random() % limit\<close>, which
  traps for a limit of 0.
\<close>

definition UR :: "('w) world_scheme \<Rightarrow> u32 \<Rightarrow> 'a extras_state_scheme \<Rightarrow> (u32 \<times> 'a extras_state_scheme) option" where
  "UR w limit s =
     (let s1 = (if rand_cnt s = 0
                then s\<lparr>rand_cnt := of_nat (RESEED_RNG div 2) + w_urandom w (draws s) mod of_nat RESEED_RNG\<rparr>
                else s\<lparr>rand_cnt := rand_cnt s - 1\<rparr>);
          r = w_random w (draws s1)
      in if limit = 0 then None else Some (r mod limit, s1\<lparr>draws := draws s1 + 1\<rparr>))"

definition get_cur_time_us :: "('w) world_scheme \<Rightarrow> 'a extras_state_scheme \<Rightarrow> u64 \<times> 'a extras_state_scheme" where
  "get_cur_time_us w s = (w_clock_us w (ticks s), s\<lparr>ticks := ticks s + 1\<rparr>)"

definition get_cur_time :: "('w) world_scheme \<Rightarrow> 'a extras_state_scheme \<Rightarrow> u64 \<times> 'a extras_state_scheme" where
  "get_cur_time w s = (w_clock_us w (ticks s) div 1000, s\<lparr>ticks := ticks s + 1\<rparr>)"

section \<open>Dictionary files\<close>

text \<open>The character classes of \<^verbatim>\<open>ctype.h\<close> in the C locale, on bytes.\<close>

definition isspace :: "u8 \<Rightarrow> bool" where "isspace c \<longleftrightarrow> c = 32 \<or> (9 \<le> c \<and> c \<le> 13)"
definition isdigit :: "u8 \<Rightarrow> bool" where "isdigit c \<longleftrightarrow> 48 \<le> c \<and> c \<le> 57"
definition isalnum :: "u8 \<Rightarrow> bool" where
  "isalnum c \<longleftrightarrow> isdigit c \<or> (65 \<le> c \<and> c \<le> 90) \<or> (97 \<le> c \<and> c \<le> 122)"
definition isxdigit :: "u8 \<Rightarrow> bool" where
  "isxdigit c \<longleftrightarrow> isdigit c \<or> (65 \<le> c \<and> c \<le> 70) \<or> (97 \<le> c \<and> c \<le> 102)"
definition tolower :: "u8 \<Rightarrow> u8" where "tolower c = (if 65 \<le> c \<and> c \<le> 90 then c + 32 else c)"

text \<open>\<^verbatim>\<open>strchr(hexdigits, c) - hexdigits\<close> for a lower-case digit.\<close>

definition hexdigit :: "u8 \<Rightarrow> u8" where
  "hexdigit c = (if isdigit c then c - 48 else c - 87)"

text \<open>\<^verbatim>\<open>atoi\<close>, with the result converted to \<^verbatim>\<open>u32\<close> as the comparison with the level does.\<close>

definition digits_value :: "u8 list \<Rightarrow> int" where
  "digits_value ds = foldl (\<lambda>v d. 10 * v + (uint d - 48)) 0 ds"

definition atoi :: "u8 list \<Rightarrow> u32" where
  "atoi s =
     (let s1 = dropWhile isspace s;
          neg = (s1 \<noteq> [] \<and> hd s1 = 45);
          s2 = (if s1 \<noteq> [] \<and> (hd s1 = 45 \<or> hd s1 = 43) then tl s1 else s1);
          v = digits_value (takeWhile isdigit s2)
      in word_of_int (if neg then max (- (2 ^ 63)) (- v) else min (2 ^ 63 - 1) v))"

text \<open>The loop that copies the keyword and undoes the escapes.\<close>

fun decode_keyword :: "u8 list \<Rightarrow> fatal + u8 list" where
  "decode_keyword [] = Inr []"
| "decode_keyword (c # s) =
     (if (1 \<le> c \<and> c \<le> 31) \<or> 128 \<le> c then Inl (FATAL ''Non-printable characters'')
      else if c = 92 then
        (case s of
           [] \<Rightarrow> Inl (FATAL ''Invalid escaping'')
         | e # s1 \<Rightarrow>
             if e = 92 \<or> e = 34 then map_sum id (\<lambda>t. e # t) (decode_keyword s1)
             else (case s1 of
                h1 # h2 # s2 \<Rightarrow>
                  if e \<noteq> 120 \<or> \<not> isxdigit h1 \<or> \<not> isxdigit h2 then Inl (FATAL ''Invalid escaping'')
                  else map_sum id (\<lambda>t. (push_bit 4 (hexdigit (tolower h1)) OR hexdigit (tolower h2)) # t)
                         (decode_keyword s2)
              | _ \<Rightarrow> Inl (FATAL ''Invalid escaping'')))
      else map_sum id (\<lambda>t. c # t) (decode_keyword s))"

text \<open>One line: \<open>Inr None\<close> is a line that is skipped, \<open>Inr (Some k)\<close> a keyword.\<close>

definition MAX_DICT_FILE :: nat where "MAX_DICT_FILE = 128"

definition parse_keyword :: "u8 list \<Rightarrow> fatal + u8 list option" where
  "parse_keyword l3 =
     (if l3 = [] \<or> hd l3 \<noteq> 34 then Inl (FATAL ''Malformed name=keyword pair'')
      else if tl l3 = [] then Inl (FATAL ''Empty keyword'')
      else case decode_keyword (tl l3) of
             Inl f \<Rightarrow> Inl f
           | Inr k \<Rightarrow> if length k > MAX_DICT_FILE then Inl (FATAL ''Keyword too big'') else Inr (Some k))"

definition parse_dict_line :: "u32 \<Rightarrow> u8 list \<Rightarrow> fatal + u8 list option" where
  "parse_dict_line dict_level line =
     (let lptr = dropWhile isspace (takeWhile (\<lambda>c. c \<noteq> 0) line);
          trimmed = rev (dropWhile isspace (rev lptr))
      in if trimmed = [] \<or> hd trimmed = 35 then Inr None
         else if last trimmed \<noteq> 34 then Inl (FATAL ''Malformed name=value pair'')
         else
           let l1 = dropWhile (\<lambda>c. isalnum c \<or> c = 95) (butlast trimmed);
               skip = (\<lambda>l. dropWhile (\<lambda>c. isspace c \<or> c = 61) l)
           in if l1 \<noteq> [] \<and> hd l1 = 64
              then (if atoi (tl l1) > dict_level then Inr None
                    else parse_keyword (skip (dropWhile isdigit (tl l1))))
              else parse_keyword (skip l1))"

text \<open>\<^verbatim>\<open>fgets\<close> with a buffer of \<^verbatim>\<open>MAX_LINE\<close> bytes.\<close>

definition MAX_LINE :: nat where "MAX_LINE = 8192"

definition fgets :: "u8 list \<Rightarrow> u8 list \<times> u8 list" where
  "fgets f =
     (let n = min (MAX_LINE - 1) (length (takeWhile (\<lambda>c. c \<noteq> 10) f) + 1) in (take n f, drop n f))"

lemma fgets_shorter: "f \<noteq> [] \<Longrightarrow> length (snd (fgets f)) < length f"
  by (cases f) (auto simp: fgets_def Let_def MAX_LINE_def)

function load_extras_lines ::
  "u32 \<Rightarrow> u8 list \<Rightarrow> u32 \<Rightarrow> u32 \<Rightarrow> extra_data list \<Rightarrow> fatal + u32 \<times> u32 \<times> extra_data list" where
  "load_extras_lines lvl f min_len max_len xs =
     (if f = [] then Inr (min_len, max_len, xs)
      else case parse_dict_line lvl (fst (fgets f)) of
          Inl e \<Rightarrow> Inl e
        | Inr None \<Rightarrow> load_extras_lines lvl (snd (fgets f)) min_len max_len xs
        | Inr (Some k) \<Rightarrow>
            load_extras_lines lvl (snd (fgets f)) (min min_len (of_nat (length k)))
              (max max_len (of_nat (length k)))
              (xs @ [\<lparr>x_data = k, x_len = of_nat (length k), x_hit_cnt = 0\<rparr>]))"
  by pat_completeness auto
termination by (relation "measure (\<lambda>(lvl, f, _). length f)") (auto dest: fgets_shorter)

definition load_extras_file ::
  "u8 list \<Rightarrow> u32 \<Rightarrow> u32 \<Rightarrow> u32 \<Rightarrow> 'a extras_state_scheme \<Rightarrow> fatal + u32 \<times> u32 \<times> 'a extras_state_scheme" where
  "load_extras_file f min_len max_len dict_level s =
     (case load_extras_lines dict_level f min_len max_len (extras s) of
        Inl e \<Rightarrow> Inl e
      | Inr (mn, mx, xs) \<Rightarrow> Inr (mn, mx, s\<lparr>extras := xs\<rparr>))"

section \<open>The dictionary given by the user\<close>

text \<open>What the file system has under the name given with \<^verbatim>\<open>-x\<close>; a directory lists for each entry
  whether it can be accessed, whether it is a regular file, and its contents.\<close>

datatype dict_source = Dict_missing | Dict_file "u8 list" | Dict_dir "(bool \<times> bool \<times> u8 list) list"

definition compare_extras_len :: "extra_data \<Rightarrow> extra_data \<Rightarrow> int" where
  "compare_extras_len e1 e2 = sint (x_len e1 - x_len e2)"

definition compare_extras_use_d :: "extra_data \<Rightarrow> extra_data \<Rightarrow> int" where
  "compare_extras_use_d e1 e2 = sint (x_hit_cnt e2 - x_hit_cnt e1)"

fun load_extras_dir ::
  "(bool \<times> bool \<times> u8 list) list \<Rightarrow> extra_data list \<Rightarrow> fatal + extra_data list" where
  "load_extras_dir [] xs = Inr xs"
| "load_extras_dir ((acc, reg, content) # es) xs =
     (if \<not> acc then Inl (PFATAL ''Unable to access'' [])
      else if \<not> reg \<or> content = [] then load_extras_dir es xs
      else if length content > MAX_DICT_FILE then Inl (FATAL ''Extra is too big'')
      else load_extras_dir es
             (xs @ [\<lparr>x_data = content, x_len = of_nat (length content), x_hit_cnt = 0\<rparr>]))"

definition load_extras ::
  "'w world_scheme \<Rightarrow> (string \<Rightarrow> dict_source) \<Rightarrow> string \<Rightarrow> 'a extras_state_scheme \<Rightarrow> fatal + 'a extras_state_scheme" where
  "load_extras w fs dir s =
     (let name = takeWhile (\<lambda>c. c \<noteq> CHR ''@'') dir;
          x = (CHR ''@'' \<in> set dir);
          dict_level = (if x then atoi (map of_char (drop (length name + 1) dir)) else 0);
          loaded = (case fs name of
              Dict_missing \<Rightarrow> Inl (PFATAL ''Unable to open'' name)
            | Dict_file f \<Rightarrow> map_sum id (\<lambda>(_, _, xs). xs)
                (load_extras_lines dict_level f (of_nat MAX_DICT_FILE) 0 (extras s))
            | Dict_dir es \<Rightarrow>
                (if x then Inl (FATAL ''Dictionary levels not supported for directories'')
                 else load_extras_dir es (extras s)))
      in case loaded of
           Inl f \<Rightarrow> Inl f
         | Inr xs \<Rightarrow> if xs = [] then Inl (FATAL ''No usable files'')
                     else Inr (s\<lparr>extras := w_qsort w compare_extras_len xs\<rparr>))"

section \<open>Automatic tokens\<close>

definition USE_AUTO_EXTRAS :: nat where "USE_AUTO_EXTRAS = 50"
definition MAX_AUTO_EXTRAS :: nat where "MAX_AUTO_EXTRAS = USE_AUTO_EXTRAS * 10"
definition MIN_AUTO_EXTRA :: nat where "MIN_AUTO_EXTRA = 3"

text \<open>Zero (\<open>False\<close>) when the bytes agree up to the case of letters.\<close>

fun memcmp_nocase :: "u8 list \<Rightarrow> u8 list \<Rightarrow> nat \<Rightarrow> bool option" where
  "memcmp_nocase m1 m2 0 = Some False"
| "memcmp_nocase (a # m1) (b # m2) (Suc n) =
     (if tolower a XOR tolower b \<noteq> 0 then Some True else memcmp_nocase m1 m2 n)"
| "memcmp_nocase _ _ (Suc n) = None"

text \<open>\<^verbatim>\<open>i\<close> counts down over the built-in values; the comparison of the 16-bit value is one of \<^verbatim>\<open>int\<close>s.\<close>

definition is_builtin :: "u8 list \<Rightarrow> bool" where
  "is_builtin mem \<longleftrightarrow>
     (length mem = 2 \<and> list_ex (\<lambda>v. uint (le_word mem :: u16) = sint v \<or> (le_word mem :: u16) = SWAP16 v)
                         (rev interesting_16)) \<or>
     (length mem = 4 \<and> list_ex (\<lambda>v. (le_word mem :: u32) = v \<or> (le_word mem :: u32) = SWAP32 v)
                         (rev interesting_32))"

text \<open>The scan of the sorted user tokens of the given length.\<close>

fun in_extras :: "u8 list \<Rightarrow> extra_data list \<Rightarrow> bool option" where
  "in_extras mem [] = Some False"
| "in_extras mem (e # es) =
     (if x_len e \<noteq> of_nat (length mem) then Some False
      else do { d \<leftarrow> memcmp_nocase (x_data e) mem (length mem);
                if \<not> d then Some True else in_extras mem es })"

fun bump_extra :: "u8 list \<Rightarrow> extra_data list \<Rightarrow> extra_data list option option" where
  "bump_extra mem [] = Some None"
| "bump_extra mem (e # es) =
     (if x_len e = of_nat (length mem)
      then do { d \<leftarrow> memcmp_nocase (x_data e) mem (length mem);
                if \<not> d then Some (Some (e\<lparr>x_hit_cnt := x_hit_cnt e + 1\<rparr> # es))
                else do { r \<leftarrow> bump_extra mem es; Some (map_option (\<lambda>es1. e # es1) r) } }
      else do { r \<leftarrow> bump_extra mem es; Some (map_option (\<lambda>es1. e # es1) r) })"

definition sort_a_extras :: "'w world_scheme \<Rightarrow> extra_data list \<Rightarrow> extra_data list" where
  "sort_a_extras w xs =
     (let ys = w_qsort w compare_extras_use_d xs;
          n = min USE_AUTO_EXTRAS (length ys)
      in w_qsort w compare_extras_len (take n ys) @ drop n ys)"

definition maybe_add_auto ::
  "'w world_scheme \<Rightarrow> u8 list \<Rightarrow> 'a extras_state_scheme \<Rightarrow> 'a extras_state_scheme option" where
  "maybe_add_auto w mem s =
     (if mem \<noteq> [] \<and> list_all (\<lambda>b. hd mem XOR b = 0) (tl mem) then Some s
      else if is_builtin mem then Some s
      else do {
        found \<leftarrow> in_extras mem (dropWhile (\<lambda>e. x_len e < of_nat (length mem)) (extras s));
        if found then Some s
        else do {
          let s1 = s\<lparr>auto_changed := True\<rparr>;
          bumped \<leftarrow> bump_extra mem (a_extras s1);
          case bumped of
            Some xs \<Rightarrow> Some (s1\<lparr>a_extras := sort_a_extras w xs\<rparr>)
          | None \<Rightarrow>
              let e = \<lparr>x_data = mem, x_len = of_nat (length mem), x_hit_cnt = 0\<rparr> in
              if length (a_extras s1) < MAX_AUTO_EXTRAS
              then Some (s1\<lparr>a_extras := sort_a_extras w (a_extras s1 @ [e])\<rparr>)
              else do {
                (r, s2) \<leftarrow> UR w (of_nat ((MAX_AUTO_EXTRAS + 1) div 2)) s1;
                xs \<leftarrow> set_at (a_extras s2) (MAX_AUTO_EXTRAS div 2 + unat r) e;
                Some (s2\<lparr>a_extras := sort_a_extras w xs\<rparr>) } } })"

section \<open>Files of automatic tokens\<close>

text \<open>\<^verbatim>\<open>%u\<close> and \<^verbatim>\<open>%06u\<close>.\<close>

fun dec :: "nat \<Rightarrow> string" where
  "dec n = (if n < 10 then [char_of (48 + n)] else dec (n div 10) @ [char_of (48 + n mod 10)])"

definition pad_to :: "nat \<Rightarrow> nat \<Rightarrow> string" where
  "pad_to k n = replicate (k - length (dec n)) (CHR ''0'') @ dec n"

definition auto_name :: "nat \<Rightarrow> string" where
  "auto_name i = ''queue/.state/auto_extras/auto_'' @ pad_to 6 i"

definition save_auto :: "'a extras_state_scheme \<Rightarrow> 'a extras_state_scheme option" where
  "save_auto s =
     (if \<not> auto_changed s then Some s
      else do {
        d \<leftarrow> fold (\<lambda>i r. do { d \<leftarrow> r; e \<leftarrow> get_at (a_extras s) i;
                             c \<leftarrow> slice (x_data e) 0 (unat (x_len e)); Some (d(auto_name i \<mapsto> c)) })
               [0..<min USE_AUTO_EXTRAS (length (a_extras s))] (Some (disk s));
        Some (s\<lparr>auto_changed := False, disk := d\<rparr>) })"

text \<open>\<open>tokens i\<close> is the file \<^verbatim>\<open>auto_%06u\<close> of the input directory.\<close>

fun load_auto_loop ::
  "nat \<Rightarrow> nat \<Rightarrow> 'w world_scheme \<Rightarrow> (nat \<Rightarrow> u8 list option) \<Rightarrow> 'a extras_state_scheme \<Rightarrow> 'a extras_state_scheme option" where
  "load_auto_loop 0 i w tokens s = Some s"
| "load_auto_loop (Suc n) i w tokens s =
     (case tokens i of
        None \<Rightarrow> Some s
      | Some f \<Rightarrow>
          let tmp = take (MAX_AUTO_EXTRA + 1) f in
          do { s1 \<leftarrow> (if MIN_AUTO_EXTRA \<le> length tmp \<and> length tmp \<le> MAX_AUTO_EXTRA
                     then maybe_add_auto w tmp s else Some s);
               load_auto_loop n (i + 1) w tokens s1 })"

definition load_auto ::
  "'w world_scheme \<Rightarrow> (nat \<Rightarrow> u8 list option) \<Rightarrow> 'a extras_state_scheme \<Rightarrow> 'a extras_state_scheme option" where
  "load_auto w tokens s = load_auto_loop USE_AUTO_EXTRAS 0 w tokens s"

definition destroy_extras :: "'a extras_state_scheme \<Rightarrow> 'a extras_state_scheme" where
  "destroy_extras s = s\<lparr>extras := [], a_extras := []\<rparr>"

section \<open>Every token can be written down and read back\<close>

definition hexchar :: "u8 \<Rightarrow> u8" where
  "hexchar c = (if c < 10 then c + 48 else c + 87)"

definition escape :: "u8 \<Rightarrow> u8 list" where
  "escape b = (if b = 34 \<or> b = 92 then [92, b]
               else if b \<le> 31 \<or> 128 \<le> b then [92, 120, hexchar (drop_bit 4 b), hexchar (b AND 15)]
               else [b])"

text \<open>A dictionary line: a label, an equals sign and the quoted token.\<close>

definition print_token :: "u8 list \<Rightarrow> u8 list \<Rightarrow> u8 list" where
  "print_token name k = name @ [61, 34] @ concat (map escape k) @ [34, 10]"

lemma nibble_cases:
  assumes "list_all (\<lambda>n. P (of_nat n :: u8)) [0..<16]" and "c < 16"
  shows "P c"
proof -
  have "unat c \<in> set [0..<16]" using assms(2) by (simp add: word_less_nat_alt)
  with assms(1) have "P (of_nat (unat c))" unfolding list_all_iff by (rule bspec)
  then show ?thesis by simp
qed

lemma hexchar_digit:
  assumes "c < 16"
  shows "isxdigit (hexchar c) \<and> hexdigit (tolower (hexchar c)) = c"
  by (rule nibble_cases [OF _ assms]) code_simp

lemma nibbles_join: "push_bit 4 (drop_bit 4 b) OR (b AND 15) = (b :: u8)"
proof -
  have m: "(15 :: u8) = mask 4" by (simp add: mask_eq_exp_minus_1)
  show ?thesis unfolding m
    by (rule bit_word_eqI) (auto simp: bit_or_iff bit_and_iff bit_push_bit_iff bit_drop_bit_eq bit_mask_iff)
qed

lemma nibbles_small: "drop_bit 4 (b :: u8) < 16" "(b :: u8) AND 15 < 16"
proof -
  have "unat (drop_bit 4 b) = unat b div 16"
    by (rule trans [OF unat_drop_bit_eq]) (simp add: drop_bit_eq_div)
  then show "drop_bit 4 b < 16" using unsigned_less [of b, where 'a = nat] by (simp add: word_less_nat_alt div_less_iff_less_mult)
  have "b AND 15 \<le> 15" by (rule word_and_le1)
  then show "b AND 15 < 16" by (rule le_less_trans) simp
qed

lemma decode_escape:
  "decode_keyword (escape b @ s) = map_sum id (\<lambda>t. b # t) (decode_keyword s)"
proof (cases "b = 34 \<or> b = 92")
  case True
  then show ?thesis by (auto simp: escape_def)
next
  case False
  show ?thesis
  proof (cases "b \<le> 31 \<or> 128 \<le> b")
    case True
    then show ?thesis
      using False hexchar_digit [OF nibbles_small(1), of b] hexchar_digit [OF nibbles_small(2), of b]
      by (simp add: escape_def nibbles_join)
  next
    case False2: False
    then show ?thesis using False by (auto simp: escape_def)
  qed
qed

lemma decode_escapes: "decode_keyword (concat (map escape k)) = Inr k"
  by (induction k) (simp_all add: decode_escape)

lemma escape_nonzero: "c \<in> set (escape b) \<Longrightarrow> c \<noteq> 0"
proof -
  have h: "hexchar n \<noteq> 0" if "n < 16" for n
    by (rule nibble_cases [OF _ that]) code_simp
  show "c \<in> set (escape b) \<Longrightarrow> c \<noteq> 0"
    using h [OF nibbles_small(1), of b] h [OF nibbles_small(2), of b]
    by (auto simp: escape_def split: if_splits)
qed

lemma token_of_body:
  assumes "body \<noteq> []" and "\<forall>c \<in> set name. isalnum c \<or> c = 95"
    and "\<forall>c \<in> set body. c \<noteq> 0"
  shows "parse_dict_line lvl (name @ [61, 34] @ body @ [34, 10]) = parse_keyword (34 # body)"
proof -
  let ?line = "name @ [61, 34] @ body @ [34, 10]" and ?core = "name @ [61, 34] @ body @ [34]"
  have word: "c \<noteq> 0 \<and> \<not> isspace c \<and> c \<noteq> 35 \<and> c \<noteq> 64" if "isalnum c \<or> c = 95" for c :: u8
    using that by (auto simp: isalnum_def isdigit_def isspace_def word_le_nat_alt)
  have nz: "takeWhile (\<lambda>c. c \<noteq> 0) ?line = ?line"
    using assms(2,3) word by (intro takeWhile_eq_all_conv [THEN iffD2]) auto
  have left: "dropWhile isspace ?line = ?line"
    using assms(2) word by (cases name) (auto simp: isspace_def)
  have right: "rev (dropWhile isspace (rev ?line)) = ?core" by (simp add: isspace_def)
  have first: "?core \<noteq> []" "hd ?core \<noteq> 35" "last ?core = 34" "butlast ?core = name @ [61, 34] @ body"
    using assms(2) word by (cases name; auto simp: butlast_append)+
  have label: "dropWhile (\<lambda>c. isalnum c \<or> c = 95) (name @ [61, 34] @ body) = [61, 34] @ body"
  proof -
    have "\<not> isalnum 61" by (simp add: isalnum_def isdigit_def)
    then show ?thesis using assms(2) by (subst dropWhile_append2) auto
  qed
  have "dropWhile (\<lambda>c. isspace c \<or> c = 61) ([61, 34] @ body) = 34 # body" by (simp add: isspace_def)
  then show ?thesis
    unfolding parse_dict_line_def nz left right Let_def using first label by simp
qed

text \<open>
  C15: every token of 1 to 128 bytes, whatever bytes it holds, can be written as a dictionary line
  that the parser reads back as exactly that token at every dictionary level.
\<close>

theorem dictionary_roundtrip:
  assumes "k \<noteq> []" and "length k \<le> 128" and "\<forall>c \<in> set name. isalnum c \<or> c = 95"
  shows "parse_dict_line lvl (print_token name k) = Inr (Some k)"
proof -
  let ?body = "concat (map escape k)"
  have "escape b \<noteq> []" for b by (simp add: escape_def)
  then have ne: "?body \<noteq> []" using assms(1) by (cases k) auto
  moreover have "\<forall>c \<in> set ?body. c \<noteq> 0" using escape_nonzero by auto
  ultimately have "parse_dict_line lvl (print_token name k) = parse_keyword (34 # ?body)"
    unfolding print_token_def by (intro token_of_body) (use assms(3) in auto)
  also have "\<dots> = Inr (Some k)"
    using ne assms(2) by (simp add: parse_keyword_def decode_escapes MAX_DICT_FILE_def)
  finally show ?thesis .
qed

theorem dictionary_roundtrip_witness:
  "parse_dict_line 0 (print_token [107, 49] [0, 34, 92, 65, 255]) = Inr (Some [0, 34, 92, 65, 255])"
  by (rule dictionary_roundtrip) (simp_all add: isalnum_def isdigit_def)

section \<open>The automatic tokens stay well-formed\<close>

text \<open>
  What the documentation of \<^verbatim>\<open>qsort\<close> promises: a permutation, in order when the comparison function
  is a total preorder on the elements.
\<close>

definition cmp_consistent :: "('a \<Rightarrow> 'a \<Rightarrow> int) \<Rightarrow> 'a set \<Rightarrow> bool" where
  "cmp_consistent cmp X \<longleftrightarrow> (\<forall>a \<in> X. \<forall>b \<in> X. cmp a b \<le> 0 \<or> cmp b a \<le> 0) \<and>
     (\<forall>a \<in> X. \<forall>b \<in> X. \<forall>c \<in> X. cmp a b \<le> 0 \<and> cmp b c \<le> 0 \<longrightarrow> cmp a c \<le> 0)"

definition qsort_ok :: "'w world_scheme \<Rightarrow> bool" where
  "qsort_ok w \<longleftrightarrow> (\<forall>cmp xs. mset (w_qsort w cmp xs) = mset xs \<and>
     (cmp_consistent cmp (set xs) \<longrightarrow> sorted_wrt (\<lambda>a b. cmp a b \<le> 0) (w_qsort w cmp xs)))"

definition extra_wf :: "extra_data \<Rightarrow> bool" where
  "extra_wf e \<longleftrightarrow> x_len e = of_nat (length (x_data e)) \<and> length (x_data e) < 2 ^ 31"

definition extras_wf :: "'a extras_state_scheme \<Rightarrow> bool" where
  "extras_wf s \<longleftrightarrow> (\<forall>e \<in> set (extras s). extra_wf e) \<and> (\<forall>e \<in> set (a_extras s). extra_wf e) \<and>
     sorted (map x_len (extras s)) \<and> length (a_extras s) \<le> MAX_AUTO_EXTRAS"

definition same_nocase :: "u8 list \<Rightarrow> u8 list \<Rightarrow> bool" where
  "same_nocase a b \<longleftrightarrow> map tolower a = map tolower b"

lemma memcmp_nocase_eq:
  "length a = n \<Longrightarrow> length b = n \<Longrightarrow> memcmp_nocase a b n = Some (\<not> same_nocase a b)"
proof (induction n arbitrary: a b)
  case 0
  then show ?case by (simp add: same_nocase_def)
next
  case (Suc n)
  then obtain x a' y b' where ab: "a = x # a'" "b = y # b'" by (metis length_Suc_conv)
  have "tolower x XOR tolower y = 0 \<longleftrightarrow> tolower x = tolower y"
    using xor_cancel [of "tolower x" "tolower y" "tolower x"] by auto
  then show ?case using Suc ab by (auto simp: same_nocase_def)
qed

lemma extra_len_iff:
  assumes "extra_wf e" and "length mem < 2 ^ 31"
  shows "x_len e = of_nat (length mem) \<longleftrightarrow> length (x_data e) = length mem"
proof -
  have "length (x_data e) < 2 ^ LENGTH(32)" "length mem < 2 ^ LENGTH(32)"
    using assms by (simp_all add: extra_wf_def)
  then have "unat (of_nat (length (x_data e)) :: u32) = length (x_data e)"
    "unat (of_nat (length mem) :: u32) = length mem" by (simp_all only: unat_of_nat mod_less)
  then show ?thesis using assms(1) unfolding extra_wf_def by metis
qed

lemma in_extras_run:
  assumes "\<forall>e \<in> set xs. extra_wf e" and "length mem < 2 ^ 31"
  shows "in_extras mem xs =
    Some (\<exists>e \<in> set (takeWhile (\<lambda>e. x_len e = of_nat (length mem)) xs). same_nocase (x_data e) mem)"
  using assms(1)
proof (induction xs)
  case Nil
  then show ?case by simp
next
  case (Cons e xs)
  show ?case
  proof (cases "x_len e = of_nat (length mem)")
    case True
    then have "length (x_data e) = length mem" using extra_len_iff [of e mem] Cons.prems assms(2) by simp
    then show ?thesis using True Cons memcmp_nocase_eq [of "x_data e" "length mem" mem] by auto
  next
    case False
    then show ?thesis by simp
  qed
qed

lemma sorted_block:
  assumes "sorted (map f xs)"
  shows "set (takeWhile (\<lambda>e. f e = n) (dropWhile (\<lambda>e. f e < n) xs)) = {e \<in> set xs. f e = (n :: 'k::linorder)}"
  using assms
proof (induction xs)
  case Nil
  then show ?case by simp
next
  case (Cons x xs)
  consider "f x < n" | "f x = n" | "n < f x" by (rule linorder_cases [of "f x" n])
  then show ?case
  proof cases
    case 1
    then show ?thesis using Cons by auto
  next
    case 2
    then have "dropWhile (\<lambda>e. f e < n) xs = xs" using Cons.prems by (cases xs) auto
    then show ?thesis using 2 Cons by auto
  next
    case 3
    then have "\<forall>y \<in> set xs. n < f y" using Cons.prems by auto
    then show ?thesis using 3 by auto
  qed
qed

lemma in_extras_spec:
  assumes "extras_wf s" and "length mem < 2 ^ 31"
  shows "in_extras mem (dropWhile (\<lambda>e. x_len e < of_nat (length mem)) (extras s)) =
    Some (\<exists>e \<in> set (extras s). same_nocase (x_data e) mem)"
proof -
  let ?xs = "dropWhile (\<lambda>e. x_len e < of_nat (length mem)) (extras s)"
  have wf: "\<forall>e \<in> set (extras s). extra_wf e" using assms(1) by (simp add: extras_wf_def)
  then have "\<forall>e \<in> set ?xs. extra_wf e" by (meson set_dropWhileD)
  from in_extras_run [OF this assms(2)]
  have "in_extras mem ?xs = Some (\<exists>e \<in> {e \<in> set (extras s). x_len e = of_nat (length mem)}. same_nocase (x_data e) mem)"
    using sorted_block [of x_len "extras s" "of_nat (length mem)"] assms(1) by (simp add: extras_wf_def)
  also have "(\<exists>e \<in> {e \<in> set (extras s). x_len e = of_nat (length mem)}. same_nocase (x_data e) mem)
      \<longleftrightarrow> (\<exists>e \<in> set (extras s). same_nocase (x_data e) mem)"
  proof -
    have "length a = length b" if "same_nocase a b" for a b
      using that map_eq_imp_length_eq unfolding same_nocase_def by blast
    then show ?thesis using wf extra_len_iff [OF _ assms(2)] by blast
  qed
  finally show ?thesis .
qed

text \<open>
  What storing a token makes of the list, before the list is sorted: the first entry with these
  bytes up to case gets one more hit; without such an entry the token is appended with no hit, or
  takes a place of the lower half of a full list.
\<close>

definition new_token :: "u8 list \<Rightarrow> extra_data" where
  "new_token mem = \<lparr>x_data = mem, x_len = of_nat (length mem), x_hit_cnt = 0\<rparr>"

definition bumped :: "u8 list \<Rightarrow> extra_data list \<Rightarrow> extra_data list \<Rightarrow> bool" where
  "bumped mem xs ys \<longleftrightarrow> (\<exists>pre e post. xs = pre @ e # post \<and>
     (\<forall>d \<in> set pre. \<not> same_nocase (x_data d) mem) \<and> same_nocase (x_data e) mem \<and>
     ys = pre @ e\<lparr>x_hit_cnt := x_hit_cnt e + 1\<rparr> # post)"

definition stored :: "u8 list \<Rightarrow> extra_data list \<Rightarrow> extra_data list \<Rightarrow> bool" where
  "stored mem xs ys \<longleftrightarrow> bumped mem xs ys \<or>
     (\<forall>d \<in> set xs. \<not> same_nocase (x_data d) mem) \<and>
     (if length xs < MAX_AUTO_EXTRAS then ys = xs @ [new_token mem]
      else \<exists>i. MAX_AUTO_EXTRAS div 2 \<le> i \<and> i < MAX_AUTO_EXTRAS \<and> ys = xs[i := new_token mem])"

lemma bumped_keeps:
  assumes "bumped mem xs ys" and "\<forall>e \<in> set xs. extra_wf e"
  shows "length ys = length xs" and "\<forall>e \<in> set ys. extra_wf e" and "\<exists>e \<in> set ys. same_nocase (x_data e) mem"
  using assms unfolding bumped_def by (auto simp: extra_wf_def)

lemma bump_extra_spec:
  assumes "\<forall>e \<in> set xs. extra_wf e" and "length mem < 2 ^ 31"
  shows "\<exists>r. bump_extra mem xs = Some r \<and> (case r of
      None \<Rightarrow> \<forall>e \<in> set xs. \<not> same_nocase (x_data e) mem
    | Some ys \<Rightarrow> bumped mem xs ys)"
  using assms(1)
proof (induction xs)
  case Nil
  then show ?case by simp
next
  case (Cons e xs)
  then obtain r where r: "bump_extra mem xs = Some r" "case r of
      None \<Rightarrow> \<forall>e \<in> set xs. \<not> same_nocase (x_data e) mem
    | Some ys \<Rightarrow> bumped mem xs ys" by auto
  have e: "extra_wf e" using Cons.prems by simp
  note lens = extra_len_iff [OF e assms(2)]
  show ?case
  proof (cases "same_nocase (x_data e) mem")
    case True
    then have "length (x_data e) = length mem" using map_eq_imp_length_eq unfolding same_nocase_def by blast
    then have "bump_extra mem (e # xs) = Some (Some (e\<lparr>x_hit_cnt := x_hit_cnt e + 1\<rparr> # xs))"
      using True lens memcmp_nocase_eq [of "x_data e" "length mem" mem] by simp
    moreover have "bumped mem (e # xs) (e\<lparr>x_hit_cnt := x_hit_cnt e + 1\<rparr> # xs)"
      unfolding bumped_def using True by (intro exI [of _ "[]"] exI [of _ e] exI [of _ xs]) simp
    ultimately show ?thesis by simp
  next
    case False
    have run: "bump_extra mem (e # xs) = Some (map_option (\<lambda>es1. e # es1) r)"
      using False lens r(1) memcmp_nocase_eq [of "x_data e" "length mem" mem] by (cases "length (x_data e) = length mem") auto
    have "bumped mem (e # xs) (e # ys)" if "bumped mem xs ys" for ys
    proof -
      from that obtain pre d post where "xs = pre @ d # post" "\<forall>d \<in> set pre. \<not> same_nocase (x_data d) mem"
        "same_nocase (x_data d) mem" "ys = pre @ d\<lparr>x_hit_cnt := x_hit_cnt d + 1\<rparr> # post"
        unfolding bumped_def by blast
      then show ?thesis unfolding bumped_def using False
        by (intro exI [of _ "e # pre"] exI [of _ d] exI [of _ post]) simp
    qed
    then show ?thesis using run r(2) False by (cases r) simp_all
  qed
qed

lemma sint_diff_le_0:
  assumes "unat a < 2 ^ 31" and "unat b < 2 ^ 31"
  shows "sint ((a :: u32) - b) \<le> 0 \<longleftrightarrow> a \<le> b"
proof -
  have ab: "uint a < 2 ^ 31" "uint b < 2 ^ 31" "0 \<le> uint a" "0 \<le> uint b"
    using assms nat_less_iff [of "uint a" "2 ^ 31"] nat_less_iff [of "uint b" "2 ^ 31"] by simp_all
  have "a - b = word_of_int (uint a - uint b)" by simp
  then have "sint (a - b) = signed_take_bit 31 (uint a - uint b)" by (simp add: sint_sbintrunc' del: of_int_diff)
  also have "\<dots> = uint a - uint b"
  proof (rule signed_take_bit_int_eq_self)
    show "- (2 ^ 31) \<le> uint a - uint b" "uint a - uint b < 2 ^ 31" using ab by linarith+
  qed
  finally show ?thesis by (simp add: word_le_def)
qed

lemma sort_a_extras_spec:
  assumes "qsort_ok w" and "\<forall>e \<in> set xs. extra_wf e"
  shows "mset (sort_a_extras w xs) = mset xs" and
    "sorted (map x_len (take USE_AUTO_EXTRAS (sort_a_extras w xs)))"
proof -
  let ?ys = "w_qsort w compare_extras_use_d xs"
  let ?n = "min USE_AUTO_EXTRAS (length ?ys)"
  let ?zs = "w_qsort w compare_extras_len (take ?n ?ys)"
  have perm: "mset ?ys = mset xs" "mset ?zs = mset (take ?n ?ys)" using assms(1) by (simp_all add: qsort_ok_def)
  have "mset (sort_a_extras w xs) = mset (take ?n ?ys) + mset (drop ?n ?ys)"
    by (simp add: sort_a_extras_def Let_def perm(2))
  also have "\<dots> = mset ?ys" by (metis append_take_drop_id mset_append)
  finally show "mset (sort_a_extras w xs) = mset xs" using perm(1) by simp
  have len: "length ?zs = ?n"
  proof -
    have "length ?zs = length (take ?n ?ys)" using arg_cong [OF perm(2), of size] by simp
    then show ?thesis by simp
  qed
  have wf: "extra_wf e" if "e \<in> set (take ?n ?ys)" for e
    using that assms(2) mset_eq_setD [OF perm(1)] in_set_takeD by metis
  have le: "compare_extras_len a b \<le> 0 \<longleftrightarrow> x_len a \<le> x_len b" if "extra_wf a" "extra_wf b" for a b
  proof -
    have "unat (of_nat (length (x_data e)) :: u32) < 2 ^ 31" if "extra_wf e" for e
      using that by (simp add: extra_wf_def unat_of_nat take_bit_nat_eq_self)
    then show ?thesis using that unfolding compare_extras_len_def extra_wf_def by (metis sint_diff_le_0)
  qed
  have "cmp_consistent compare_extras_len (set (take ?n ?ys))"
    unfolding cmp_consistent_def
  proof (intro conjI ballI impI)
    fix a b assume "a \<in> set (take ?n ?ys)" "b \<in> set (take ?n ?ys)"
    then have "extra_wf a" "extra_wf b" using wf by blast+
    then show "compare_extras_len a b \<le> 0 \<or> compare_extras_len b a \<le> 0"
      using le [of a b] le [of b a] linear [of "x_len a" "x_len b"] by simp
  next
    fix a b c assume "a \<in> set (take ?n ?ys)" "b \<in> set (take ?n ?ys)" "c \<in> set (take ?n ?ys)"
      "compare_extras_len a b \<le> 0 \<and> compare_extras_len b c \<le> 0"
    moreover from this have "extra_wf a" "extra_wf b" "extra_wf c" using wf by blast+
    ultimately show "compare_extras_len a c \<le> 0"
      using le [of a b] le [of b c] le [of a c] order_trans [of "x_len a" "x_len b" "x_len c"] by simp
  qed
  then have "sorted_wrt (\<lambda>a b. compare_extras_len a b \<le> 0) ?zs" using assms(1) by (simp add: qsort_ok_def)
  then have "sorted_wrt (\<lambda>a b. x_len a \<le> x_len b) ?zs"
  proof (rule sorted_wrt_mono_rel [rotated])
    fix a b assume "a \<in> set ?zs" "b \<in> set ?zs" "compare_extras_len a b \<le> 0"
    moreover from this have "extra_wf a" "extra_wf b" using wf mset_eq_setD [OF perm(2)] by blast+
    ultimately show "x_len a \<le> x_len b" using le [of a b] by simp
  qed
  moreover have "take USE_AUTO_EXTRAS (sort_a_extras w xs) = ?zs"
  proof (cases "length ?ys \<le> USE_AUTO_EXTRAS")
    case True
    then have "sort_a_extras w xs = ?zs" by (simp add: sort_a_extras_def Let_def)
    then show ?thesis using len True by simp
  next
    case False
    then have n: "?n = USE_AUTO_EXTRAS" by simp
    then show ?thesis using len by (simp add: sort_a_extras_def Let_def)
  qed
  ultimately show "sorted (map x_len (take USE_AUTO_EXTRAS (sort_a_extras w xs)))"
    by (simp add: sorted_map)
qed

text \<open>No entry behind the first fifty has more hits than one of the fifty.\<close>

lemma sort_a_extras_hot:
  assumes "qsort_ok w" and "\<forall>e \<in> set xs. unat (x_hit_cnt e) < 2 ^ 31"
    and "a \<in> set (take USE_AUTO_EXTRAS (sort_a_extras w xs))" and "b \<in> set (drop USE_AUTO_EXTRAS (sort_a_extras w xs))"
  shows "x_hit_cnt b \<le> x_hit_cnt a"
proof -
  define ys where "ys = w_qsort w compare_extras_use_d xs"
  define n where "n = min USE_AUTO_EXTRAS (length ys)"
  define zs where "zs = w_qsort w compare_extras_len (take n ys)"
  have perm: "mset ys = mset xs" "mset zs = mset (take n ys)" using assms(1) by (simp_all add: qsort_ok_def ys_def zs_def)
  have sets: "set ys = set xs" using perm(1) by (rule mset_eq_setD)
  have le: "compare_extras_use_d c d \<le> 0 \<longleftrightarrow> x_hit_cnt d \<le> x_hit_cnt c" if "c \<in> set xs" "d \<in> set xs" for c d
    unfolding compare_extras_use_d_def by (rule sint_diff_le_0) (use assms(2) that in blast)+
  have "cmp_consistent compare_extras_use_d (set xs)"
    unfolding cmp_consistent_def
  proof (intro conjI ballI impI)
    fix c d assume "c \<in> set xs" "d \<in> set xs"
    then show "compare_extras_use_d c d \<le> 0 \<or> compare_extras_use_d d c \<le> 0"
      using le [of c d] le [of d c] linear [of "x_hit_cnt c" "x_hit_cnt d"] by blast
  next
    fix c d e assume "c \<in> set xs" "d \<in> set xs" "e \<in> set xs"
      "compare_extras_use_d c d \<le> 0 \<and> compare_extras_use_d d e \<le> 0"
    then show "compare_extras_use_d c e \<le> 0"
      using le [of c d] le [of d e] le [of c e] order_trans [of "x_hit_cnt e" "x_hit_cnt d" "x_hit_cnt c"] by simp
  qed
  then have "sorted_wrt (\<lambda>c d. compare_extras_use_d c d \<le> 0) ys" using assms(1) by (simp add: qsort_ok_def ys_def)
  then have "sorted_wrt (\<lambda>c d. compare_extras_use_d c d \<le> 0) (take n ys @ drop n ys)" by simp
  then have hot: "compare_extras_use_d c d \<le> 0" if "c \<in> set (take n ys)" "d \<in> set (drop n ys)" for c d
    using that unfolding sorted_wrt_append by blast
  have sorts: "sort_a_extras w xs = zs @ drop n ys" by (simp add: sort_a_extras_def Let_def ys_def n_def zs_def)
  have len: "length zs = n" using arg_cong [OF perm(2), of size] by (simp add: n_def)
  have b: "b \<in> set (drop n ys) \<and> n = USE_AUTO_EXTRAS"
  proof (cases "length ys \<le> USE_AUTO_EXTRAS")
    case True
    then have "drop USE_AUTO_EXTRAS (sort_a_extras w xs) = []" using len by (simp add: sorts n_def)
    then show ?thesis using assms(4) by simp
  next
    case False
    then show ?thesis using assms(4) len by (simp add: sorts n_def)
  qed
  then have "a \<in> set zs" using assms(3) len by (simp add: sorts)
  then have a: "a \<in> set (take n ys)" using mset_eq_setD [OF perm(2)] by simp
  have "a \<in> set xs" "b \<in> set xs" using a b sets in_set_takeD in_set_dropD by metis+
  then show ?thesis using hot [OF a] b le by blast
qed

lemma UR_run:
  assumes "limit \<noteq> 0"
  obtains r s' where "UR w limit s = Some (r, s')" "r < limit" "extras s' = extras s" "a_extras s' = a_extras s"
    "auto_changed s' = auto_changed s" "fav_state.truncate s' = fav_state.truncate s" "disk s' = disk s"
    "s' = s\<lparr>rand_cnt := rand_cnt s', draws := draws s'\<rparr>"
proof -
  let ?s1 = "if rand_cnt s = 0
                then s\<lparr>rand_cnt := of_nat (RESEED_RNG div 2) + w_urandom w (draws s) mod of_nat RESEED_RNG\<rparr>
                else s\<lparr>rand_cnt := rand_cnt s - 1\<rparr>"
  have "w_random w (draws ?s1) mod limit < limit" using assms by (simp add: word_mod_less_divisor word_gt_0)
  then show ?thesis using assms
    by (intro that [of "w_random w (draws ?s1) mod limit" "?s1\<lparr>draws := draws ?s1 + 1\<rparr>"])
      (auto simp: UR_def Let_def fav_state.truncate_def)
qed

lemma uniform_iff:
  fixes mem :: "u8 list"
  shows "mem \<noteq> [] \<Longrightarrow> mem \<noteq> [] \<and> list_all (\<lambda>b. hd mem XOR b = 0) (tl mem) \<longleftrightarrow> list_all (\<lambda>b. b = hd mem) mem"
proof -
  assume "mem \<noteq> []"
  moreover have "(hd mem XOR b = 0) = (b = hd mem)" for b using xor_cancel [of "hd mem" b "hd mem"] by simp
  ultimately show ?thesis by (cases mem) simp_all
qed

text \<open>The tokens that are not stored: runs of one byte, built-in values, tokens of the user.\<close>

definition token_known :: "u8 list \<Rightarrow> 'a extras_state_scheme \<Rightarrow> bool" where
  "token_known mem s \<longleftrightarrow> list_all (\<lambda>b. b = hd mem) mem \<or> is_builtin mem \<or>
     (\<exists>e \<in> set (extras s). same_nocase (x_data e) mem)"

lemma add_auto_known:
  assumes "extras_wf s" and "mem \<noteq> []" and "length mem < 2 ^ 31" and "token_known mem s"
  shows "maybe_add_auto w mem s = Some s"
  using assms(4) in_extras_spec [OF assms(1,3)]
  unfolding maybe_add_auto_def uniform_iff [OF assms(2)] token_known_def by auto

lemma add_auto_stores:
  assumes "qsort_ok w" and "extras_wf s" and "mem \<noteq> []" and "length mem < 2 ^ 31" and "\<not> token_known mem s"
  obtains s' xs where "maybe_add_auto w mem s = Some s'" "a_extras s' = sort_a_extras w xs" "stored mem (a_extras s) xs"
    "s' = s\<lparr>auto_changed := True, a_extras := a_extras s', rand_cnt := rand_cnt s', draws := draws s'\<rparr>"
proof -
  let ?s1 = "s\<lparr>auto_changed := True\<rparr>"
  let ?e = "new_token mem"
  let ?n = "of_nat ((MAX_AUTO_EXTRAS + 1) div 2) :: u32"
  note look = in_extras_spec [OF assms(2,4)]
  have new: "\<not> list_all (\<lambda>b. b = hd mem) mem" "\<not> is_builtin mem" "\<not> (\<exists>e \<in> set (extras s). same_nocase (x_data e) mem)"
    using assms(5) by (simp_all add: token_known_def)
  have wf: "\<forall>e \<in> set (a_extras s). extra_wf e" "length (a_extras s) \<le> MAX_AUTO_EXTRAS"
    using assms(2) by (simp_all add: extras_wf_def)
  obtain r where r: "bump_extra mem (a_extras s) = Some r"
    "case r of None \<Rightarrow> \<forall>e \<in> set (a_extras s). \<not> same_nocase (x_data e) mem | Some ys \<Rightarrow> bumped mem (a_extras s) ys"
    using bump_extra_spec [OF wf(1) assms(4)] by blast
  note step = maybe_add_auto_def uniform_iff [OF assms(3)] new_token_def [symmetric]
  have frame: "?s1\<lparr>a_extras := xs\<rparr> = s\<lparr>auto_changed := True, a_extras := a_extras (?s1\<lparr>a_extras := xs\<rparr>),
      rand_cnt := rand_cnt (?s1\<lparr>a_extras := xs\<rparr>), draws := draws (?s1\<lparr>a_extras := xs\<rparr>)\<rparr>" for xs
    by (rule extras_state.equality) simp_all
  show thesis
  proof (cases r)
    case (Some ys)
    have "maybe_add_auto w mem s = Some (?s1\<lparr>a_extras := sort_a_extras w ys\<rparr>)"
      unfolding step using look new r(1) Some by simp
    moreover have "stored mem (a_extras s) ys" using r(2) Some by (simp add: stored_def)
    ultimately show thesis by (intro that [OF _ _ _ frame]) simp_all
  next
    case None
    show thesis
    proof (cases "length (a_extras s) < MAX_AUTO_EXTRAS")
      case True
      then have "maybe_add_auto w mem s = Some (?s1\<lparr>a_extras := sort_a_extras w (a_extras s @ [?e])\<rparr>)"
        unfolding step using look new r(1) None by simp
      moreover have "stored mem (a_extras s) (a_extras s @ [?e])" using r(2) None True by (simp add: stored_def)
      ultimately show thesis by (intro that [OF _ _ _ frame]) simp_all
    next
      case full: False
      obtain n s2 where ur: "UR w ?n ?s1 = Some (n, s2)" "n < ?n" "extras s2 = extras ?s1" "a_extras s2 = a_extras ?s1"
        "s2 = ?s1\<lparr>rand_cnt := rand_cnt s2, draws := draws s2\<rparr>"
        by (rule UR_run [of ?n w ?s1]) (simp_all add: MAX_AUTO_EXTRAS_def USE_AUTO_EXTRAS_def)
      have i: "MAX_AUTO_EXTRAS div 2 + unat n < MAX_AUTO_EXTRAS"
        using ur(2) by (simp add: MAX_AUTO_EXTRAS_def USE_AUTO_EXTRAS_def word_less_nat_alt)
      let ?xs = "(a_extras s)[MAX_AUTO_EXTRAS div 2 + unat n := ?e]"
      have "set_at (a_extras s2) (MAX_AUTO_EXTRAS div 2 + unat n) ?e = Some ?xs"
        using ur(4) i full by (simp add: set_at_Some)
      then have "maybe_add_auto w mem s = Some (s2\<lparr>a_extras := sort_a_extras w ?xs\<rparr>)"
        unfolding step using look new r(1) None full ur(1) by simp
      moreover have "stored mem (a_extras s) ?xs"
        using r(2) None full i unfolding stored_def
        by (simp, intro disjI2 exI [of _ "MAX_AUTO_EXTRAS div 2 + unat n"]) simp
      moreover have "s2\<lparr>a_extras := sort_a_extras w ?xs\<rparr> =
          s\<lparr>auto_changed := True, a_extras := sort_a_extras w ?xs, rand_cnt := rand_cnt s2, draws := draws s2\<rparr>"
        by (subst ur(5)) simp
      ultimately show thesis by (intro that [of "s2\<lparr>a_extras := sort_a_extras w ?xs\<rparr>" ?xs]) simp_all
    qed
  qed
qed

lemma stored_keeps:
  assumes "stored mem xs ys" and "\<forall>e \<in> set xs. extra_wf e" and "length xs \<le> MAX_AUTO_EXTRAS" and "length mem < 2 ^ 31"
  shows "\<forall>e \<in> set ys. extra_wf e" and "length ys \<le> MAX_AUTO_EXTRAS" and "\<exists>e \<in> set ys. same_nocase (x_data e) mem"
proof -
  have new: "extra_wf (new_token mem)" "same_nocase (x_data (new_token mem)) mem"
    using assms(4) by (simp_all add: new_token_def extra_wf_def same_nocase_def)
  have "(\<forall>e \<in> set ys. extra_wf e) \<and> length ys \<le> MAX_AUTO_EXTRAS \<and> (\<exists>e \<in> set ys. same_nocase (x_data e) mem)"
  proof (cases "bumped mem xs ys")
    case True
    then show ?thesis using bumped_keeps [OF True assms(2)] assms(3) by simp
  next
    case False
    show ?thesis
    proof (cases "length xs < MAX_AUTO_EXTRAS")
      case True
      then show ?thesis using assms(1,2) False new by (simp add: stored_def)
    next
      case full: False
      then obtain i where i: "i < MAX_AUTO_EXTRAS" "ys = xs[i := new_token mem]" using assms(1) False by (auto simp: stored_def)
      then have "new_token mem \<in> set ys" using full by (auto intro: set_update_memI)
      moreover have "\<forall>e \<in> set ys. extra_wf e" using i(2) assms(2) new(1) set_update_subset_insert by fastforce
      ultimately show ?thesis using new(2) i(2) assms(3) by (auto intro: bexI [of _ "new_token mem"])
    qed
  qed
  then show "\<forall>e \<in> set ys. extra_wf e" and "length ys \<le> MAX_AUTO_EXTRAS" and "\<exists>e \<in> set ys. same_nocase (x_data e) mem"
    by blast+
qed

lemma stored_hits:
  assumes "stored mem xs ys" and "\<forall>e \<in> set xs. unat (x_hit_cnt e) < 2 ^ 31 - 1"
  shows "\<forall>e \<in> set ys. unat (x_hit_cnt e) < 2 ^ 31"
proof -
  have up: "unat (c + 1 :: u32) < 2 ^ 31" if "unat c < 2 ^ 31 - 1" for c
  proof -
    have "unat (c + 1) = unat c + 1" using that by (simp add: unat_word_ariths)
    then show ?thesis using that by simp
  qed
  have old: "\<forall>e \<in> set xs. unat (x_hit_cnt e) < 2 ^ 31" using assms(2) by fastforce
  have new: "unat (x_hit_cnt (new_token mem)) < 2 ^ 31" by (simp add: new_token_def)
  show ?thesis
  proof (cases "bumped mem xs ys")
    case True
    then show ?thesis using assms(2) old up unfolding bumped_def by auto
  next
    case False
    then show ?thesis using assms(1) old new set_update_subset_insert [of xs _ "new_token mem"]
      unfolding stored_def by (fastforce split: if_split_asm)
  qed
qed

lemma add_auto_spec:
  assumes "qsort_ok w" and "extras_wf s" and "mem \<noteq> []" and "length mem < 2 ^ 31"
  shows "\<exists>s'. maybe_add_auto w mem s = Some s' \<and> extras_wf s' \<and> extras s' = extras s \<and>
    (s' \<noteq> s \<longrightarrow> sorted (map x_len (take USE_AUTO_EXTRAS (a_extras s'))))"
proof (cases "token_known mem s")
  case True
  then show ?thesis using add_auto_known [OF assms(2-4)] assms(2) by blast
next
  case False
  obtain s' xs where s': "maybe_add_auto w mem s = Some s'" "a_extras s' = sort_a_extras w xs" "stored mem (a_extras s) xs"
    "s' = s\<lparr>auto_changed := True, a_extras := a_extras s', rand_cnt := rand_cnt s', draws := draws s'\<rparr>"
    by (rule add_auto_stores [OF assms False])
  have wf: "\<forall>e \<in> set (a_extras s). extra_wf e" "length (a_extras s) \<le> MAX_AUTO_EXTRAS"
    using assms(2) by (simp_all add: extras_wf_def)
  note xs = stored_keeps [OF s'(3) wf assms(4)]
  note sorts = sort_a_extras_spec [OF assms(1) xs(1), folded s'(2)]
  have "set (a_extras s') = set xs" "length (a_extras s') = length xs" using sorts(1) by (rule mset_eq_setD, rule mset_eq_length)
  moreover have "extras s' = extras s" by (subst s'(4)) simp
  ultimately show ?thesis using s'(1) xs sorts(2) assms(2) by (auto simp: extras_wf_def)
qed

text \<open>
  C16: a run of one byte, a built-in value, or a token that the user's dictionary already has up to
  the case of letters leaves the state as it was. Any other token is recorded as a change and
  stored: the first automatic token with the same bytes up to case gets exactly one more hit; if
  there is none the token is added with no hit, in place of one of the entries 250 to 499 when 500
  are stored already. Only the order of the list changes besides: its first fifty entries are
  sorted by length and, as long as no hit count gets near 2^31, none behind them has more hits.
  Nothing else of the state changes but the random generator, and both dictionaries stay
  well-formed.
\<close>

theorem maybe_add_auto_spec:
  assumes "qsort_ok w" and "extras_wf s" and "mem \<noteq> []" and "length mem < 2 ^ 31"
  shows "\<exists>s'. maybe_add_auto w mem s = Some s' \<and> extras_wf s' \<and> extras s' = extras s \<and>
    (if list_all (\<lambda>b. b = hd mem) mem \<or> is_builtin mem \<or> (\<exists>e \<in> set (extras s). same_nocase (x_data e) mem)
     then s' = s
     else
       (\<exists>xs. stored mem (a_extras s) xs \<and> mset (a_extras s') = mset xs) \<and>
       s' = s\<lparr>auto_changed := True, a_extras := a_extras s', rand_cnt := rand_cnt s', draws := draws s'\<rparr> \<and>
       (\<exists>e \<in> set (a_extras s'). same_nocase (x_data e) mem) \<and>
       sorted (map x_len (take USE_AUTO_EXTRAS (a_extras s'))) \<and>
       ((\<forall>e \<in> set (a_extras s). unat (x_hit_cnt e) < 2 ^ 31 - 1) \<longrightarrow>
        (\<forall>a \<in> set (take USE_AUTO_EXTRAS (a_extras s')).
           \<forall>b \<in> set (drop USE_AUTO_EXTRAS (a_extras s')). x_hit_cnt b \<le> x_hit_cnt a)))"
proof (cases "token_known mem s")
  case True
  then show ?thesis using add_auto_known [OF assms(2-4)] assms(2) by (auto simp: token_known_def)
next
  case False
  obtain s' xs where s': "maybe_add_auto w mem s = Some s'" "a_extras s' = sort_a_extras w xs" "stored mem (a_extras s) xs"
    "s' = s\<lparr>auto_changed := True, a_extras := a_extras s', rand_cnt := rand_cnt s', draws := draws s'\<rparr>"
    by (rule add_auto_stores [OF assms False])
  have wf: "\<forall>e \<in> set (a_extras s). extra_wf e" "length (a_extras s) \<le> MAX_AUTO_EXTRAS"
    using assms(2) by (simp_all add: extras_wf_def)
  note xs = stored_keeps [OF s'(3) wf assms(4)]
  note sorts = sort_a_extras_spec [OF assms(1) xs(1), folded s'(2)]
  have "extras_wf s'" "extras s' = extras s" using add_auto_spec [OF assms] s'(1) by auto
  moreover have "\<exists>e \<in> set (a_extras s'). same_nocase (x_data e) mem" using xs(3) mset_eq_setD [OF sorts(1)] by simp
  moreover have "x_hit_cnt b \<le> x_hit_cnt a"
    if "\<forall>e \<in> set (a_extras s). unat (x_hit_cnt e) < 2 ^ 31 - 1" "a \<in> set (take USE_AUTO_EXTRAS (a_extras s'))"
      "b \<in> set (drop USE_AUTO_EXTRAS (a_extras s'))" for a b
    using sort_a_extras_hot [OF assms(1) stored_hits [OF s'(3) that(1)]] that(2,3) unfolding s'(2) by blast
  ultimately show ?thesis using s'(1,3,4) sorts False unfolding token_known_def
    by (intro exI [of _ s']) (simp del: ball_simps bex_simps, blast)
qed

text \<open>A sorting function that keeps the promise, for the concrete runs.\<close>

fun cmp_insert :: "('a \<Rightarrow> 'a \<Rightarrow> int) \<Rightarrow> 'a \<Rightarrow> 'a list \<Rightarrow> 'a list" where
  "cmp_insert cmp x [] = [x]"
| "cmp_insert cmp x (y # ys) = (if cmp x y \<le> 0 then x # y # ys else y # cmp_insert cmp x ys)"

definition cmp_sort :: "('a \<Rightarrow> 'a \<Rightarrow> int) \<Rightarrow> 'a list \<Rightarrow> 'a list" where
  "cmp_sort cmp xs = foldr (cmp_insert cmp) xs []"

lemma cmp_consistent_subset:
  assumes "cmp_consistent cmp Y" and "X \<subseteq> Y"
  shows "cmp_consistent cmp X"
  unfolding cmp_consistent_def
proof (intro conjI ballI impI)
  fix a b assume "a \<in> X" "b \<in> X"
  then have "a \<in> Y" "b \<in> Y" using assms(2) by auto
  then show "cmp a b \<le> 0 \<or> cmp b a \<le> 0"
    by (rule assms(1) [unfolded cmp_consistent_def, THEN conjunct1, rule_format])
next
  fix a b c assume "a \<in> X" "b \<in> X" "c \<in> X" and le: "cmp a b \<le> 0 \<and> cmp b c \<le> 0"
  then have "a \<in> Y" "b \<in> Y" "c \<in> Y" using assms(2) by auto
  from assms(1) [unfolded cmp_consistent_def, THEN conjunct2, rule_format, OF this le]
  show "cmp a c \<le> 0" .
qed

lemma cmp_insert_mset [simp]: "mset (cmp_insert cmp x ys) = add_mset x (mset ys)"
  by (induction ys) auto

lemma cmp_sort_mset [simp]: "mset (cmp_sort cmp xs) = mset xs"
  unfolding cmp_sort_def by (induction xs) auto

lemma cmp_insert_set [simp]: "set (cmp_insert cmp x ys) = insert x (set ys)"
  by (induction ys) auto

lemma cmp_insert_sorted:
  assumes "cmp_consistent cmp (insert x (set ys))" and "sorted_wrt (\<lambda>a b. cmp a b \<le> 0) ys"
  shows "sorted_wrt (\<lambda>a b. cmp a b \<le> 0) (cmp_insert cmp x ys)"
  using assms
proof (induction ys)
  case Nil
  then show ?case by simp
next
  case (Cons y ys)
  have c: "cmp_consistent cmp (insert x (set ys))"
    by (rule cmp_consistent_subset [OF Cons.prems(1)]) auto
  show ?case
  proof (cases "cmp x y \<le> 0")
    case True
    have "\<forall>z \<in> set ys. cmp x z \<le> 0"
    proof
      fix z assume z: "z \<in> set ys"
      then have "cmp y z \<le> 0" using Cons.prems(2) by simp
      then show "cmp x z \<le> 0"
        using True z Cons.prems(1) [unfolded cmp_consistent_def, THEN conjunct2, rule_format, of x y z] by simp
    qed
    then show ?thesis using True Cons.prems(2) by simp
  next
    case False
    then have "cmp y x \<le> 0"
      using Cons.prems(1) [unfolded cmp_consistent_def, THEN conjunct1, rule_format, of x y] by simp
    then show ?thesis using False Cons.IH [OF c] Cons.prems(2) by simp
  qed
qed

lemma cmp_sort_sorted: "cmp_consistent cmp (set xs) \<Longrightarrow> sorted_wrt (\<lambda>a b. cmp a b \<le> 0) (cmp_sort cmp xs)"
proof (induction xs)
  case Nil
  then show ?case by (simp add: cmp_sort_def)
next
  case (Cons x xs)
  have "set (cmp_sort cmp xs) = set xs" by (rule mset_eq_setD) simp
  moreover have "cmp_consistent cmp (set xs)" by (rule cmp_consistent_subset [OF Cons.prems]) auto
  ultimately show ?case
    using Cons cmp_insert_sorted [of cmp x "cmp_sort cmp xs"] by (simp add: cmp_sort_def)
qed

definition demo_world :: world where
  "demo_world = \<lparr>w_random = (\<lambda>n. of_nat (7 * n)), w_urandom = (\<lambda>_. 3), w_clock_us = (\<lambda>n. of_nat (1000 * n)),
     w_qsort = cmp_sort\<rparr>"

lemma demo_world_ok: "qsort_ok demo_world"
  by (simp add: qsort_ok_def demo_world_def cmp_sort_sorted)

definition demo_extras :: extras_state where
  "demo_extras = fav_state.extend demo_fav
     \<lparr>rand_cnt = 0, draws = 0, ticks = 0, extras = [\<lparr>x_data = [65, 66, 67], x_len = 3, x_hit_cnt = 0\<rparr>],
      a_extras = [], auto_changed = False, disk = Map.empty\<rparr>"

text \<open>\<open>XyZ\<close> comes by again: the entry \<open>xyz\<close>, with four hits, has five afterwards.\<close>

definition demo_autos :: extras_state where
  "demo_autos = demo_extras\<lparr>a_extras :=
     [\<lparr>x_data = [1, 2, 3, 4], x_len = 4, x_hit_cnt = 7\<rparr>, \<lparr>x_data = [120, 121, 122], x_len = 3, x_hit_cnt = 4\<rparr>]\<rparr>"

theorem maybe_add_auto_spec_witness:
  "\<exists>s'. maybe_add_auto demo_world [88, 121, 90] demo_autos = Some s' \<and> auto_changed s' \<and>
     mset (a_extras s') = {#\<lparr>x_data = [1, 2, 3, 4], x_len = 4, x_hit_cnt = 7\<rparr>, \<lparr>x_data = [120, 121, 122], x_len = 3, x_hit_cnt = 5\<rparr>#}"
proof -
  let ?mem = "[88, 121, 90] :: u8 list"
  have wf: "extras_wf demo_autos"
    by (simp add: extras_wf_def demo_autos_def demo_extras_def fav_state.defs extra_wf_def MAX_AUTO_EXTRAS_def USE_AUTO_EXTRAS_def)
  have short: "?mem \<noteq> []" "length ?mem < 2 ^ 31" by simp_all
  have new: "\<not> (list_all (\<lambda>b. b = hd ?mem) ?mem \<or> is_builtin ?mem \<or>
      (\<exists>e \<in> set (extras demo_autos). same_nocase (x_data e) ?mem))"
    by (simp add: demo_autos_def demo_extras_def fav_state.defs same_nocase_def tolower_def is_builtin_def)
  obtain s' xs where s': "maybe_add_auto demo_world ?mem demo_autos = Some s'" "stored ?mem (a_extras demo_autos) xs"
    "mset (a_extras s') = mset xs"
    "s' = demo_autos\<lparr>auto_changed := True, a_extras := a_extras s', rand_cnt := rand_cnt s', draws := draws s'\<rparr>"
    using maybe_add_auto_spec [OF demo_world_ok wf short] unfolding if_not_P [OF new] by blast
  have "xs = [\<lparr>x_data = [1, 2, 3, 4], x_len = 4, x_hit_cnt = 7\<rparr>, \<lparr>x_data = [120, 121, 122], x_len = 3, x_hit_cnt = 5\<rparr>]"
    using s'(2) by (auto simp: stored_def bumped_def demo_autos_def same_nocase_def tolower_def Cons_eq_append_conv)
  moreover have "auto_changed s'" by (subst s'(4)) simp
  ultimately show ?thesis using s'(1,3) by auto
qed

end
