(* ===== verification/Afl_Exec.thy ===== *)
theory Afl_Exec
  imports Afl_Extras
begin

text \<open>
  Running the target (\<^verbatim>\<open>run_target\<close>), the file it reads, and the classification of what happened.
  The target itself, the fork server and the kernel are outside the program: for each run a report
  says what they do.
\<close>

section \<open>The world around the fuzzer\<close>

text \<open>Fault codes; \<^verbatim>\<open>crash_mode\<close> is one of them too.\<close>

datatype fault = FAULT_NONE | FAULT_TMOUT | FAULT_CRASH | FAULT_ERROR | FAULT_NOINST | FAULT_NOBITS

text \<open>
  \<open>r_pid\<close> is the pid of the child, or \<open>None\<close> when it could not be requested or forked; \<open>r_wait\<close> is
  \<open>None\<close> when its status could not be read; \<open>r_left_ms\<close> is what the timer has left; \<open>r_stop\<close> and
  \<open>r_skip\<close> say whether SIGINT or SIGUSR1 came in during the run. The target counts in the shared maps
  as it finds them: \<open>r_trace\<close> and \<open>r_dfg\<close> give what is in a map after the run from what was in it before.
\<close>

record report =
  r_pid :: "int option"
  r_wait :: "wait_status option"
  r_trace :: "u8 list \<Rightarrow> u8 list"
  r_dfg :: "u32 list \<Rightarrow> u32 list"
  r_timed_out :: bool
  r_left_ms :: u64
  r_stop :: bool
  r_skip :: bool

text \<open>What the start of the fork server yields: the pid, the four-byte hello, and otherwise its fate.\<close>

record fsrv_report =
  f_pid :: int
  f_hello :: bool
  f_timed_out :: bool
  f_wait :: "wait_status option"
  f_trace :: "u8 list"

record exec_world = world +
  w_target :: "u64 \<Rightarrow> u32 \<Rightarrow> bool \<Rightarrow> u8 list \<Rightarrow> report"
  w_fork_server :: fsrv_report
  w_symlink_ok :: "nat \<Rightarrow> bool"
  w_getenv :: "string \<Rightarrow> bool"
  w_exec_speed :: "nat \<Rightarrow> u32"

record exec_state = extras_state +
  stop_soon :: u8
  skip_requested :: bool
  child_timed_out :: bool
  child_pid :: int
  forksrv_pid :: int
  prev_timed_out :: bool
  kill_signal :: u8
  total_execs :: u64
  exec_tmout :: u32
  hang_tmout :: u32
  crash_mode :: fault
  no_forkserver :: bool
  uses_asan :: bool
  slowest_exec_ms :: u64
  testcase :: "u8 list"
  out_file :: bool

section \<open>The test case file\<close>

text \<open>
  With an output file the old one is unlinked; otherwise the open descriptor is rewound, written
  and truncated.
\<close>

definition write_to_testcase :: "u8 list \<Rightarrow> u32 \<Rightarrow> 'a exec_state_scheme \<Rightarrow> 'a exec_state_scheme option" where
  "write_to_testcase mem len s =
     do { d \<leftarrow> slice mem 0 (unat len);
          let written = (if out_file s then d else d @ drop (unat len) (testcase s));
          Some (s\<lparr>testcase := (if out_file s then written else take (unat len) written)\<rparr>) }"

definition write_with_gap ::
  "u8 list \<Rightarrow> u32 \<Rightarrow> u32 \<Rightarrow> u32 \<Rightarrow> 'a exec_state_scheme \<Rightarrow> 'a exec_state_scheme option" where
  "write_with_gap mem len skip_at skip_len s =
     (let tail_len = len - skip_at - skip_len in
      do { d1 \<leftarrow> (if skip_at \<noteq> 0 then slice mem 0 (unat skip_at) else Some []);
           d2 \<leftarrow> (if tail_len \<noteq> 0 then slice mem (unat skip_at + unat skip_len) (unat tail_len) else Some []);
           let d = d1 @ d2;
           let written = (if out_file s then d else d @ drop (length d) (testcase s));
           Some (s\<lparr>testcase := (if out_file s then written else take (unat (len - skip_len)) written)\<rparr>) })"

section \<open>One run\<close>

definition count_class_lookup16 :: "nat \<Rightarrow> u16" where
  "count_class_lookup16 = init_count_class16 (\<lambda>_. 0)"

text \<open>What the parent makes of the status, once the child is gone.\<close>

definition run_outcome ::
  "u32 \<Rightarrow> u64 \<Rightarrow> u32 \<Rightarrow> wait_status \<Rightarrow> 'a exec_state_scheme \<Rightarrow> fault \<times> 'a exec_state_scheme" where
  "run_outcome timeout exec_ms tb4 status s =
     (case (status, stop_soon s = 0) of
        (Signaled sig, True) \<Rightarrow>
          (if child_timed_out s \<and> sig = SIGKILL then FAULT_TMOUT else FAULT_CRASH, s\<lparr>kill_signal := sig\<rparr>)
      | _ \<Rightarrow>
          if uses_asan s \<and> exit_status status = MSAN_ERROR then (FAULT_CRASH, s\<lparr>kill_signal := 0\<rparr>)
          else if (dumb_mode s = 1 \<or> no_forkserver s) \<and> tb4 = EXEC_FAIL_SIG then (FAULT_ERROR, s)
          else (FAULT_NONE,
                if \<not> timeout > exec_tmout s \<and> slowest_exec_ms s < exec_ms
                then s\<lparr>slowest_exec_ms := exec_ms\<rparr> else s))"

text \<open>A failed exchange with the fork server is fatal, unless the user is stopping the fuzzer.\<close>

definition fork_server_lost :: "string \<Rightarrow> 'a exec_state_scheme \<Rightarrow> fatal + fault \<times> 'a exec_state_scheme" where
  "fork_server_lost msg s =
     (if stop_soon s \<noteq> 0 then Inr (FAULT_NONE, s) else Inl (PFATAL msg []))"

definition run_target ::
  "'w exec_world_scheme \<Rightarrow> u32 \<Rightarrow> 'a exec_state_scheme \<Rightarrow> fatal + fault \<times> 'a exec_state_scheme" where
  "run_target w timeout s0 =
     (let s1 = s0\<lparr>child_timed_out := False, trace_bits := replicate (length (trace_bits s0)) 0,
                  dfg_bits := replicate (length (dfg_bits s0)) 0\<rparr>;
          r = w_target w (total_execs s1) timeout (prev_timed_out s1) (testcase s1);
          forks = (dumb_mode s1 = 1 \<or> no_forkserver s1);
          s2 = s1\<lparr>stop_soon := (if r_stop r then 1 else stop_soon s1),
                  skip_requested := (r_skip r \<or> skip_requested s1)\<rparr>
      in case r_pid r of
           None \<Rightarrow> (if forks then Inl (PFATAL ''fork() failed'' [])
                    else fork_server_lost ''Unable to request new process from fork server'' s2)
         | Some pid \<Rightarrow>
             if \<not> forks \<and> pid \<le> 0 then Inl (FATAL ''Fork server is misbehaving'')
             else
               let s3 = s2\<lparr>child_pid := pid, child_timed_out := r_timed_out r,
                           trace_bits := shm (length (trace_bits s2)) (r_trace r (trace_bits s2)),
                           dfg_bits := shm (length (dfg_bits s2)) (r_dfg r (dfg_bits s2))\<rparr>
               in case r_wait r of
                    None \<Rightarrow> (if forks then Inl (PFATAL ''waitpid() failed'' [])
                             else fork_server_lost ''Unable to communicate with fork server'' s3)
                  | Some status \<Rightarrow>
                      let s4 = s3\<lparr>child_pid := (case status of Stopped _ \<Rightarrow> pid | _ \<Rightarrow> 0),
                                  total_execs := total_execs s3 + 1\<rparr>;
                          exec_ms = ucast timeout - r_left_ms r;
                          tb4 = le_word (take 4 (trace_bits s4));
                          s5 = s4\<lparr>trace_bits := classify_counts count_class_lookup16 (trace_bits s4),
                                  prev_timed_out := child_timed_out s4\<rparr>
                      in Inr (run_outcome timeout exec_ms tb4 status s5))"

section \<open>The fork server\<close>

text \<open>The messages for a server that did not say hello; the hints printed before them are left out.\<close>

definition fork_server_fatal :: "fsrv_report \<Rightarrow> 'a exec_state_scheme \<Rightarrow> fatal" where
  "fork_server_fatal r s =
     (if f_timed_out r then FATAL ''Timeout while initializing fork server (adjusting -t may help)''
      else case f_wait r of
        None \<Rightarrow> PFATAL ''waitpid() failed'' []
      | Some (Signaled sig) \<Rightarrow> FATAL (''Fork server crashed with signal '' @ dec (unat sig))
      | Some _ \<Rightarrow>
          if le_word (take 4 (shm (length (trace_bits s)) (f_trace r))) = EXEC_FAIL_SIG
          then FATAL ''Unable to execute target application''
          else FATAL ''Fork server handshake failed'')"

definition init_forkserver :: "'w exec_world_scheme \<Rightarrow> 'a exec_state_scheme \<Rightarrow> fatal + 'a exec_state_scheme" where
  "init_forkserver w s =
     (let r = w_fork_server w in
      if f_pid r < 0 then Inl (PFATAL ''fork() failed'' [])
      else if f_hello r then Inr (s\<lparr>forksrv_pid := f_pid r\<rparr>)
      else Inl (fork_server_fatal r s))"

section \<open>What the files hold\<close>

text \<open>
  Whatever the test case file held before, and whether it is a path or an open descriptor, the
  next run sees exactly the given bytes; with a gap, exactly the bytes outside the gap.
\<close>

theorem testcase_contents:
  assumes "unat len \<le> length mem"
  shows "write_to_testcase mem len s = Some (s\<lparr>testcase := take (unat len) mem\<rparr>) \<and>
    (unat skip_at + unat skip_len \<le> unat len \<longrightarrow>
       write_with_gap mem len skip_at skip_len s =
         Some (s\<lparr>testcase := take (unat skip_at) mem @ drop (unat skip_at + unat skip_len) (take (unat len) mem)\<rparr>))"
proof (intro conjI impI)
  show "write_to_testcase mem len s = Some (s\<lparr>testcase := take (unat len) mem\<rparr>)"
    using assms by (simp add: write_to_testcase_def slice_Some Let_def min_def)
  assume gap: "unat skip_at + unat skip_len \<le> unat len"
  have le: "skip_at \<le> len" "skip_len \<le> len - skip_at" and d: "unat (len - skip_at) = unat len - unat skip_at"
  proof -
    show "skip_at \<le> len" using gap by (simp add: word_le_nat_alt)
    then show "unat (len - skip_at) = unat len - unat skip_at" by (simp add: unat_sub)
    then show "skip_len \<le> len - skip_at" using gap by (simp add: word_le_nat_alt)
  qed
  have tail: "unat (len - skip_at - skip_len) = unat len - unat skip_at - unat skip_len"
    using le(2) d by (simp add: unat_sub)
  have kept: "unat (len - skip_len) = unat len - unat skip_len"
    using gap by (simp add: unat_sub word_le_nat_alt)
  let ?a = "unat skip_at" and ?g = "unat skip_len" and ?n = "unat len"
  have d1: "(if skip_at \<noteq> 0 then slice mem 0 ?a else Some []) = Some (take ?a mem)"
    using gap assms by (auto simp: slice_Some)
  have d2: "(if len - skip_at - skip_len \<noteq> 0 then slice mem (?a + ?g) (unat (len - skip_at - skip_len)) else Some [])
      = Some (drop (?a + ?g) (take ?n mem))"
  proof (cases "len - skip_at - skip_len = 0")
    case True
    then have "?n - ?a - ?g = 0" using tail by simp
    then show ?thesis using True by simp
  next
    case False
    then show ?thesis using gap assms tail by (simp add: slice_Some drop_take)
  qed
  have len: "length (take ?a mem @ drop (?a + ?g) (take ?n mem)) = ?n - ?g" using gap assms by simp
  have whole: "take (?n - ?g) ((take ?a mem @ drop (?a + ?g) (take ?n mem)) @ rest)
      = take ?a mem @ drop (?a + ?g) (take ?n mem)" for rest
    using append_eq_conv_conj [of "take ?a mem @ drop (?a + ?g) (take ?n mem)" rest] len by metis
  show "write_with_gap mem len skip_at skip_len s =
         Some (s\<lparr>testcase := take ?a mem @ drop (?a + ?g) (take ?n mem)\<rparr>)"
    unfolding write_with_gap_def Let_def d1 d2 bind.bind_lunit if_distrib [of "take _"] kept whole by simp
qed

definition demo_exec :: exec_state where
  "demo_exec = extras_state.extend demo_extras
     \<lparr>stop_soon = 0, skip_requested = False, child_timed_out = False, child_pid = 0, forksrv_pid = 7,
      prev_timed_out = False, kill_signal = 0, total_execs = 0, exec_tmout = 1000, hang_tmout = 1000,
      crash_mode = FAULT_NONE, no_forkserver = False, uses_asan = False, slowest_exec_ms = 0,
      testcase = [9, 9, 9, 9, 9, 9], out_file = False\<rparr>"

theorem testcase_contents_witness:
  "write_with_gap [1, 2, 3, 4, 5] 5 1 2 demo_exec = Some (demo_exec\<lparr>testcase := [1, 4, 5]\<rparr>)"
  using testcase_contents [of 5 "[1, 2, 3, 4, 5]" demo_exec 1 2] by simp

section \<open>What a run returns\<close>

lemma classify_buckets:
  assumes "8 dvd length mem"
  shows "classify_counts count_class_lookup16 mem = map count_class_lookup8 mem"
proof -
  have "length mem = 8 * (length mem div 8)" using assms by simp
  then show ?thesis
    unfolding classify_counts_def count_class_lookup16_def by (rule classify64.loop_bytewise)
qed

text \<open>The part of the state that a run of the target leaves alone.\<close>

definition but_maps :: "'a exec_state_scheme \<Rightarrow> extras_state" where
  "but_maps s = extras_state.truncate (s\<lparr>trace_bits := [], dfg_bits := []\<rparr>)"

text \<open>The verdict and the signal remembered, for a run that the user did not interrupt.\<close>

definition verdict_ok ::
  "bool \<Rightarrow> bool \<Rightarrow> bool \<Rightarrow> wait_status \<Rightarrow> u8 \<Rightarrow> fault \<Rightarrow> u8 \<Rightarrow> bool" where
  "verdict_ok asan exec_failed timed_out status old_sig f new_sig \<longleftrightarrow>
     (\<forall>sig. status = Signaled sig \<longrightarrow>
        new_sig = sig \<and> f = (if timed_out \<and> sig = SIGKILL then FAULT_TMOUT else FAULT_CRASH)) \<and>
     ((\<forall>sig. status \<noteq> Signaled sig) \<longrightarrow>
        (if asan \<and> exit_status status = MSAN_ERROR then f = FAULT_CRASH \<and> new_sig = 0
         else f = (if exec_failed then FAULT_ERROR else FAULT_NONE) \<and> new_sig = old_sig))"

lemma run_outcome_split:
  assumes "run_outcome t ms tb4 status s = (f, s')"
  shows "s' = s\<lparr>kill_signal := kill_signal s', slowest_exec_ms := slowest_exec_ms s'\<rparr>"
    and "slowest_exec_ms s' =
      (if f = FAULT_NONE \<and> t \<le> exec_tmout s then max (slowest_exec_ms s) ms else slowest_exec_ms s)"
    and "stop_soon s = 0 \<longrightarrow>
      verdict_ok (uses_asan s) ((dumb_mode s = 1 \<or> no_forkserver s) \<and> tb4 = EXEC_FAIL_SIG) (child_timed_out s)
        status (kill_signal s) f (kill_signal s')"
proof -
  have res: "(f, s') = run_outcome t ms tb4 status s" by (rule assms [symmetric])
  define st where "st = (stop_soon s = 0)"
  have "s' = s\<lparr>kill_signal := kill_signal s', slowest_exec_ms := slowest_exec_ms s'\<rparr> \<and>
    slowest_exec_ms s' = (if f = FAULT_NONE \<and> t \<le> exec_tmout s then max (slowest_exec_ms s) ms else slowest_exec_ms s)"
    using res unfolding run_outcome_def st_def [symmetric]
    by (cases status; cases st) (auto simp: max_def split: if_splits)
  then show "s' = s\<lparr>kill_signal := kill_signal s', slowest_exec_ms := slowest_exec_ms s'\<rparr>"
    and "slowest_exec_ms s' =
      (if f = FAULT_NONE \<and> t \<le> exec_tmout s then max (slowest_exec_ms s) ms else slowest_exec_ms s)" by blast+
  show "stop_soon s = 0 \<longrightarrow>
      verdict_ok (uses_asan s) ((dumb_mode s = 1 \<or> no_forkserver s) \<and> tb4 = EXEC_FAIL_SIG) (child_timed_out s)
        status (kill_signal s) f (kill_signal s')"
    using res unfolding run_outcome_def verdict_ok_def by (cases status) (auto split: if_splits)
qed

lemma run_outcome_frame:
  "run_outcome t ms tb4 status s = (f, s') \<Longrightarrow> \<exists>k m. s' = s\<lparr>kill_signal := k, slowest_exec_ms := m\<rparr>"
  using run_outcome_split(1) by blast


text \<open>A target that counts one edge once, one three times and one nine times, and is killed by a signal.\<close>

definition demo_run :: "report" where
  "demo_run = \<lparr>r_pid = Some 12, r_wait = Some (Signaled 11), r_trace = (\<lambda>m. map2 (+) m [1, 0, 3, 9, 0, 0, 0, 0]),
     r_dfg = (\<lambda>m. map2 (+) m [4]), r_timed_out = False, r_left_ms = 900, r_stop = False, r_skip = False\<rparr>"

definition demo_exec_world :: exec_world where
  "demo_exec_world = world.extend demo_world
     \<lparr>w_target = (\<lambda>n t p d. demo_run), w_fork_server = \<lparr>f_pid = 7, f_hello = True, f_timed_out = False, f_wait = None, f_trace = []\<rparr>, w_symlink_ok = (\<lambda>_. True),
      w_getenv = (\<lambda>_. False), w_exec_speed = (\<lambda>_. 1000)\<rparr>"

definition demo_dirty :: exec_state where
  "demo_dirty = demo_exec\<lparr>trace_bits := [5, 5, 5, 5, 5, 5, 5, 5], dfg_bits := [6]\<rparr>"


end
