(* ===== verification/Afl_State.thy ===== *)
theory Afl_State
  imports Afl_Exec Complex_Main
begin

text \<open>
  The remaining globals of \<^verbatim>\<open>afl-fuzz.c\<close> that a fuzzing session reads and writes, the random generator
  and clock ticks it consumes, the periodic statistics update, and the files it creates.  Paths are
  relative to the output directory.  Signed counters (\<^verbatim>\<open>stage_cur\<close> and the like) are integers; they
  are bounded by the size of the map or by eight times \<^verbatim>\<open>MAX_FILE\<close>, far from the limits of \<^verbatim>\<open>s32\<close>.
\<close>

section \<open>State\<close>

datatype stage_val = STAGE_VAL_NONE | STAGE_VAL_LE | STAGE_VAL_BE

text \<open>
  \<open>w_post_handler\<close> is the optional library loaded with \<^verbatim>\<open>AFL_POST_LIBRARY\<close>; \<open>w_readme\<close> is the text
  of the note in the crash directory; \<open>w_pow\<close> is the \<^verbatim>\<open>pow\<close> of the mathematical library.
\<close>

record fuzz_world = exec_world +
  w_post_handler :: "(u8 list \<Rightarrow> u32 \<Rightarrow> (u8 list \<times> u32) option) option"
  w_readme :: "u8 list"
  w_pow :: "rat \<Rightarrow> rat \<Rightarrow> rat"

record fuzz_state = exec_state +
  stage_name :: string
  stage_short :: string
  stage_cur :: int
  stage_max :: int
  stage_cur_byte :: int
  stage_cur_val :: int
  stage_val_type :: stage_val
  syncing_party :: "string option"
  syncing_case :: u32
  current_entry :: u32
  splicing_with :: int
  queue_cycle :: u64
  start_time :: u64
  run_over10m :: bool
  stats_update_freq :: u32
  last_ms :: u64
  last_stats_ms :: u64
  fast_cal :: bool
  resuming_fuzz :: bool
  in_place_resume :: bool
  first_trace :: "u8 list"
  var_bytes :: "u8 list"
  var_byte_count :: u32
  total_cal_us :: u64
  total_cal_cycles :: u64
  total_bitmap_size :: u64
  total_bitmap_entries :: u64
  total_prox_score :: u64
  avg_prox_score :: u64
  min_prox_score :: u64
  max_prox_score :: u64
  queued_with_cov :: u32
  queued_variable :: u32
  queued_discovered :: u32
  total_crashes :: u64
  unique_crashes :: u64
  total_tmouts :: u64
  unique_tmouts :: u64
  unique_hangs :: u64
  last_hang_time :: u64
  last_crash_time :: u64
  last_crash_execs :: u64
  subseq_tmouts :: u32
  cur_skipped_paths :: u32
  useless_at_start :: u32
  timeout_given :: u8
  trim_execs :: u64
  bytes_trim_in :: u64
  bytes_trim_out :: u64
  stage_finds :: "nat \<Rightarrow> u64"
  stage_cycles :: "nat \<Rightarrow> u64"
  skip_deterministic :: bool
  use_splicing :: bool
  no_arith :: bool
  master_id :: u32
  master_max :: u32
  havoc_div :: u32
  blocks_eff_total :: u64
  blocks_eff_select :: u64
  next_alloc :: nat
  in_bitmap :: bool
  t_x :: u32
  no_dfg_schedule :: bool
  shuffle_queue :: bool
  warnings :: "string list"

section \<open>Files\<close>

text \<open>\<^verbatim>\<open>open(fn, O_WRONLY | O_CREAT | O_EXCL)\<close> and \<^verbatim>\<open>ck_write\<close>.\<close>

definition create_file :: "string \<Rightarrow> u8 list \<Rightarrow> 'a extras_state_scheme \<Rightarrow> fatal + 'a extras_state_scheme" where
  "create_file fn d s =
     (if disk s fn \<noteq> None then Inl (PFATAL ''Unable to create'' fn)
      else Inr (s\<lparr>disk := (disk s)(fn \<mapsto> d)\<rparr>))"

definition write_bitmap :: "'a extras_state_scheme \<Rightarrow> 'a extras_state_scheme" where
  "write_bitmap s =
     (if bitmap_changed s
      then s\<lparr>bitmap_changed := False, disk := (disk s)(''fuzz_bitmap'' \<mapsto> virgin_bits s)\<rparr> else s)"

definition read_bitmap :: "string \<Rightarrow> 'a extras_state_scheme \<Rightarrow> fatal + 'a extras_state_scheme" where
  "read_bitmap fn s =
     (case disk s fn of
        None \<Rightarrow> Inl (PFATAL ''Unable to open'' fn)
      | Some d \<Rightarrow> if length d < length (virgin_bits s) then Inl (FATAL ''Short read'')
                  else Inr (s\<lparr>virgin_bits := take (length (virgin_bits s)) d\<rparr>))"

definition warn :: "string \<Rightarrow> 'a fuzz_state_scheme \<Rightarrow> 'a fuzz_state_scheme" where
  "warn msg s = s\<lparr>warnings := msg # warnings s\<rparr>"

section \<open>Statistics\<close>

definition UI_TARGET_HZ :: u64 where "UI_TARGET_HZ = 5"
definition STATS_UPDATE_SEC :: u64 where "STATS_UPDATE_SEC = 60"

text \<open>
  \<^verbatim>\<open>show_stats\<close> up to the point where it starts to draw: the throttle, the ten minute mark, the
  update frequency (the smoothed speed, a floating point average, comes from the world), the
  periodic save, and the two environment variables that end the session.
\<close>

definition show_stats :: "'w fuzz_world_scheme \<Rightarrow> 'a fuzz_state_scheme \<Rightarrow> 'a fuzz_state_scheme option" where
  "show_stats w s0 =
     (let (cur_ms, s) = get_cur_time w s0 in
      if cur_ms - last_ms s < 1000 div UI_TARGET_HZ then Some s
      else do {
        let freq = w_exec_speed w (ticks s);
        let s1 = s\<lparr>run_over10m := (cur_ms - start_time s > 10 * 60 * 1000 \<or> run_over10m s),
                   last_ms := cur_ms, stats_update_freq := (if freq = 0 then 1 else freq)\<rparr>;
        s2 \<leftarrow> (if cur_ms - last_stats_ms s1 > STATS_UPDATE_SEC * 1000
              then do { sa \<leftarrow> save_auto (s1\<lparr>last_stats_ms := cur_ms\<rparr>); Some (write_bitmap sa) }
              else Some s1);
        let s3 = (if dumb_mode s2 = 0 \<and> cycles_wo_finds s2 > 100 \<and> pending_not_fuzzed s2 = 0 \<and>
                     w_getenv w ''AFL_EXIT_WHEN_DONE''
                  then s2\<lparr>stop_soon := 2\<rparr> else s2);
        Some (if total_crashes s3 \<noteq> 0 \<and> w_getenv w ''AFL_BENCH_UNTIL_CRASH''
              then s3\<lparr>stop_soon := 2\<rparr> else s3) })"

text \<open>\<^verbatim>\<open>!(n % stats_update_freq)\<close>, which traps when the frequency is 0.\<close>

definition stats_due :: "int \<Rightarrow> 'a fuzz_state_scheme \<Rightarrow> bool option" where
  "stats_due n s =
     (if stats_update_freq s = 0 then None
      else Some ((word_of_int n :: u32) mod stats_update_freq s = 0))"

section \<open>A small session\<close>

text \<open>A state and a world for the examples: one entry, a map of eight bytes, a target that crashes.\<close>

definition demo_fuzz :: fuzz_state where
  "demo_fuzz = exec_state.extend demo_exec
     \<lparr>stage_name = ''init'', stage_short = [], stage_cur = 0, stage_max = 0,
      stage_cur_byte = 0, stage_cur_val = 0, stage_val_type = STAGE_VAL_NONE,
      syncing_party = None, syncing_case = 0, current_entry = 0, splicing_with = -1,
      queue_cycle = 1, start_time = 0, run_over10m = False, stats_update_freq = 1,
      last_ms = 0, last_stats_ms = 0, fast_cal = False, resuming_fuzz = False,
      in_place_resume = False, first_trace = replicate 8 0, var_bytes = replicate 8 0,
      var_byte_count = 0, total_cal_us = 0, total_cal_cycles = 0, total_bitmap_size = 0,
      total_bitmap_entries = 0, total_prox_score = 0, avg_prox_score = 0,
      min_prox_score = -1, max_prox_score = 0, queued_with_cov = 0, queued_variable = 0,
      queued_discovered = 0, total_crashes = 0, unique_crashes = 0, total_tmouts = 0,
      unique_tmouts = 0, unique_hangs = 0, last_hang_time = 0, last_crash_time = 0,
      last_crash_execs = 0, subseq_tmouts = 0, cur_skipped_paths = 0, useless_at_start = 0,
      timeout_given = 0, trim_execs = 0, bytes_trim_in = 0, bytes_trim_out = 0,
      stage_finds = (\<lambda>_. 0), stage_cycles = (\<lambda>_. 0),
      skip_deterministic = False, use_splicing = False, no_arith = False, master_id = 0,
      master_max = 0, havoc_div = 1, blocks_eff_total = 0, blocks_eff_select = 0,
      next_alloc = 10, in_bitmap = False, t_x = 0, no_dfg_schedule = False,
      shuffle_queue = False, warnings = []\<rparr>"

definition demo_fuzz_world :: fuzz_world where
  "demo_fuzz_world = exec_world.extend demo_exec_world
     \<lparr>w_post_handler = None, w_readme = [], w_pow = (\<lambda>x y. 1)\<rparr>"

lemmas demo_defs = demo_fuzz_def exec_state.defs demo_exec_def extras_state.defs demo_extras_def
  fav_state.defs demo_fav_def

end
