(* ===== verification/Afl_Case.thy ===== *)
theory Afl_Case
  imports Afl_State
begin

text \<open>
  One test case: its calibration, the first pass over the given inputs, the naming and saving of
  finds, crashes and hangs, and \<^verbatim>\<open>common_fuzz_stuff\<close>, through which every fuzzing stage runs the
  target.
\<close>

section \<open>Calibration\<close>

definition CAL_CYCLES :: int where "CAL_CYCLES = 8"
definition CAL_CYCLES_LONG :: int where "CAL_CYCLES_LONG = 40"
definition CAL_TMOUT_ADD :: u32 where "CAL_TMOUT_ADD = 50"
definition CAL_TMOUT_PERC :: u32 where "CAL_TMOUT_PERC = 125"
definition CAL_CHANCES :: u8 where "CAL_CHANCES = 3"

definition trace_cksum :: "'a bitmap_state_scheme \<Rightarrow> u32" where
  "trace_cksum s = hash32 (trace_bits s) (of_nat (length (trace_bits s))) HASH_CONST"

text \<open>Bytes that differ from the first trace become variable and stay so.\<close>

definition now_variable :: "u8 list \<Rightarrow> u8 list \<Rightarrow> u8 list \<Rightarrow> bool list" where
  "now_variable vb ft tb = map (\<lambda>(v, f, t). v = 0 \<and> f \<noteq> t) (zip vb (zip ft tb))"

definition note_variable :: "'a fuzz_state_scheme \<Rightarrow> 'a fuzz_state_scheme" where
  "note_variable s =
     (let new = now_variable (var_bytes s) (first_trace s) (trace_bits s) in
      s\<lparr>var_bytes := map2 (\<lambda>v n. if n then 1 else v) (var_bytes s) new,
        stage_max := (if list_ex id new then CAL_CYCLES_LONG else stage_max s)\<rparr>)"

text \<open>
  The outcome of one round: \<open>True\<close> to abort, the fault, \<^verbatim>\<open>new_bits\<close> and \<^verbatim>\<open>var_detected\<close>.
\<close>

definition cal_round ::
  "'w fuzz_world_scheme \<Rightarrow> nat \<Rightarrow> u8 list \<Rightarrow> u32 \<Rightarrow> bool \<Rightarrow> u8 \<Rightarrow> bool \<Rightarrow> 'a fuzz_state_scheme \<Rightarrow>
   (fatal + (bool \<times> fault \<times> u8 \<times> bool) \<times> 'a fuzz_state_scheme) option" where
  "cal_round w q use_mem use_tmout first_run new_bits var_detected s =
     do { due \<leftarrow> (if first_run then Some False else stats_due (stage_cur s) s);
          s1 \<leftarrow> (if due then show_stats w s else Some s);
          e \<leftarrow> entries s1 q;
          s2 \<leftarrow> write_to_testcase use_mem (q_len e) s1;
          case run_target w use_tmout s2 of
            Inl f \<Rightarrow> Some (Inl f)
          | Inr (fault, s3) \<Rightarrow>
              if stop_soon s3 \<noteq> 0 \<or> fault \<noteq> crash_mode s3
              then Some (Inr ((True, fault, new_bits, var_detected), s3))
              else if dumb_mode s3 = 0 \<and> stage_cur s3 = 0 \<and> count_bytes (trace_bits s3) = 0
              then Some (Inr ((True, FAULT_NOINST, new_bits, var_detected), s3))
              else
                let cksum = trace_cksum s3 in
                if q_exec_cksum e = cksum then Some (Inr ((False, fault, new_bits, var_detected), s3))
                else
                  let (hnb, s4) = has_new_bits Virgin_bits s3;
                      nb = (if hnb > new_bits then hnb else new_bits)
                  in if q_exec_cksum e \<noteq> 0 then Some (Inr ((False, fault, nb, True), note_variable s4))
                     else Some (Inr ((False, fault, nb, var_detected),
                                     s4\<lparr>entries := (entries s4)(q \<mapsto> e\<lparr>q_exec_cksum := cksum\<rparr>),
                                        first_trace := trace_bits s4\<rparr>)) }"

partial_function (option) cal_loop ::
  "'w fuzz_world_scheme \<Rightarrow> nat \<Rightarrow> u8 list \<Rightarrow> u32 \<Rightarrow> bool \<Rightarrow> fault \<Rightarrow> u8 \<Rightarrow> bool \<Rightarrow> 'a fuzz_state_scheme \<Rightarrow>
   (fatal + (bool \<times> fault \<times> u8 \<times> bool) \<times> 'a fuzz_state_scheme) option" where
  "cal_loop w q use_mem use_tmout first_run fault new_bits var_detected s =
     (if \<not> stage_cur s < stage_max s then Some (Inr ((False, fault, new_bits, var_detected), s))
      else andthen (cal_round w q use_mem use_tmout first_run new_bits var_detected s)
        (\<lambda>((stop, fault1, nb, vd), s1).
           if stop then Some (Inr ((True, fault1, nb, vd), s1))
           else cal_loop w q use_mem use_tmout first_run fault1 nb vd (s1\<lparr>stage_cur := stage_cur s1 + 1\<rparr>)))"

text \<open>What a completed calibration records.\<close>

definition cal_finish ::
  "'w fuzz_world_scheme \<Rightarrow> nat \<Rightarrow> u32 \<Rightarrow> u64 \<Rightarrow> 'a fuzz_state_scheme \<Rightarrow> 'a fuzz_state_scheme option" where
  "cal_finish w q handicap start_us s0 =
     (let (stop_us, s) = get_cur_time_us w s0;
          score = compute_proximity_score (dfg_bits s);
          size = count_bytes (trace_bits s);
          s1 = s\<lparr>total_cal_us := total_cal_us s + (stop_us - start_us),
                 total_cal_cycles := total_cal_cycles s + word_of_int (stage_max s)\<rparr>
      in do {
        e \<leftarrow> entries s1 q;
        let s2 = s1\<lparr>entries := (entries s1)(q \<mapsto> e\<lparr>q_exec_us := (stop_us - start_us) div word_of_int (stage_max s1),
                      q_bitmap_size := size, q_prox_score := score, q_handicap := ucast handicap,
                      q_cal_failed := 0\<rparr>),
                    total_bitmap_size := total_bitmap_size s1 + ucast size,
                    total_bitmap_entries := total_bitmap_entries s1 + 1,
                    total_prox_score := total_prox_score s1 + score\<rparr>;
        if queued_paths s2 = 0 then None
        else update_bitmap_score q
               (s2\<lparr>avg_prox_score := total_prox_score s2 div ucast (queued_paths s2),
                   min_prox_score := (if min_prox_score s2 > score then score else min_prox_score s2),
                   max_prox_score := (if max_prox_score s2 < score then score else max_prox_score s2)\<rparr>) })"

text \<open>From the label \<^verbatim>\<open>abort_calibration\<close> on.\<close>

definition cal_exit ::
  "'w fuzz_world_scheme \<Rightarrow> nat \<Rightarrow> string \<Rightarrow> int \<Rightarrow> int \<Rightarrow> bool \<Rightarrow> u8 \<Rightarrow> bool \<Rightarrow> 'a fuzz_state_scheme \<Rightarrow>
   (fatal + 'a fuzz_state_scheme) option" where
  "cal_exit w q old_sn old_sc old_sm first_run new_bits var_detected s =
     do { e \<leftarrow> entries s q;
          let s1 = (if new_bits = 2 \<and> \<not> q_has_new_cov e
                    then s\<lparr>entries := (entries s)(q \<mapsto> e\<lparr>q_has_new_cov := True\<rparr>),
                           queued_with_cov := queued_with_cov s + 1\<rparr>
                    else s);
          andthen
            (if \<not> var_detected then Some (Inr s1)
             else
               let s2 = s1\<lparr>var_byte_count := count_bytes (var_bytes s1)\<rparr> in
               if q_var_behavior e then Some (Inr s2)
               else andthen (mark_as_variable (w_symlink_ok w q) q s2)
                      (\<lambda>s3. Some (Inr (s3\<lparr>queued_variable := queued_variable s3 + 1\<rparr>))))
            (\<lambda>s4. let s5 = s4\<lparr>stage_name := old_sn, stage_cur := old_sc, stage_max := old_sm\<rparr>
                  in map_option Inr (if first_run then Some s5 else show_stats w s5)) }"

text \<open>Before the loop: the fork server is up, and a trace that is already known is remembered.\<close>

definition cal_start ::
  "'w fuzz_world_scheme \<Rightarrow> bool \<Rightarrow> 'a fuzz_state_scheme \<Rightarrow> fatal + u8 \<times> u64 \<times> 'a fuzz_state_scheme" where
  "cal_start w first_run s1 =
     map_sum id
       (\<lambda>s2. let (nb, s3) = (if first_run then (0, s2)
                           else has_new_bits Virgin_bits (s2\<lparr>first_trace := trace_bits s2\<rparr>));
                 (start_us, s4) = get_cur_time_us w s3
             in (nb, start_us, s4\<lparr>stage_cur := 0\<rparr>))
       (if dumb_mode s1 \<noteq> 1 \<and> \<not> no_forkserver s1 \<and> forksrv_pid s1 = 0 then init_forkserver w s1 else Inr s1)"

definition calibrate_case ::
  "'w fuzz_world_scheme \<Rightarrow> nat \<Rightarrow> u8 list \<Rightarrow> u32 \<Rightarrow> bool \<Rightarrow> 'a fuzz_state_scheme \<Rightarrow>
   (fatal + fault \<times> 'a fuzz_state_scheme) option" where
  "calibrate_case w q use_mem handicap from_queue s =
     do { e \<leftarrow> entries s q;
          let first_run = (q_exec_cksum e = 0);
          let use_tmout = (if \<not> from_queue \<or> resuming_fuzz s
                           then max (exec_tmout s + CAL_TMOUT_ADD) (exec_tmout s * CAL_TMOUT_PERC div 100)
                           else exec_tmout s);
          andthen (Some (cal_start w first_run
                     (s\<lparr>entries := (entries s)(q \<mapsto> e\<lparr>q_cal_failed := q_cal_failed e + 1\<rparr>),
                        stage_name := ''calibration'', stage_max := (if fast_cal s then 3 else CAL_CYCLES)\<rparr>)))
            (\<lambda>(nb, start_us, s4).
               andthen (cal_loop w q use_mem use_tmout first_run FAULT_NONE nb False s4)
                 (\<lambda>((stop, fault, nb1, vd), s5).
                    do { s6 \<leftarrow> (if stop then Some s5 else cal_finish w q handicap start_us s5);
                         let fault1 = (if \<not> stop \<and> dumb_mode s6 = 0 \<and> first_run \<and> fault = FAULT_NONE \<and> nb1 = 0
                                       then FAULT_NOBITS else fault);
                         andthen (cal_exit w q (stage_name s) (stage_cur s) (stage_max s) first_run nb1 vd s6)
                           (\<lambda>s7. Some (Inr (fault1, s7))) })) }"

section \<open>Names\<close>

definition printf_d :: "int \<Rightarrow> string" where
  "printf_d v = (if v < 0 then ''-'' @ dec (nat (- v)) else ''+'' @ dec (nat v))"

definition printf_u :: "int \<Rightarrow> string" where
  "printf_u v = dec (unat (word_of_int v :: u32))"

text \<open>\<^verbatim>\<open>describe_op\<close> writes to a static buffer of 256 bytes; a longer text is a memory fault.\<close>

definition describe_op :: "u8 \<Rightarrow> 'a fuzz_state_scheme \<Rightarrow> string option" where
  "describe_op hnb s =
     (let ret = (case syncing_party s of
            Some party \<Rightarrow> ''sync:'' @ party @ '',src:'' @ pad_to 6 (unat (syncing_case s))
          | None \<Rightarrow>
              ''src:'' @ pad_to 6 (unat (current_entry s)) @
              (if splicing_with s \<ge> 0 then ''+'' @ pad_to 6 (nat (splicing_with s)) else []) @
              '',op:'' @ stage_short s @
              (if stage_cur_byte s \<ge> 0
               then '',pos:'' @ printf_u (stage_cur_byte s) @
                    (if stage_val_type s \<noteq> STAGE_VAL_NONE
                     then '',val:'' @ (if stage_val_type s = STAGE_VAL_BE then ''be:'' else []) @
                          printf_d (stage_cur_val s)
                     else [])
               else '',rep:'' @ printf_u (stage_cur_val s)));
          ret1 = (if hnb = 2 then ret @ '',+cov'' else ret)
      in if length ret1 < 256 then Some ret1 else None)"

definition write_crash_readme :: "'w fuzz_world_scheme \<Rightarrow> 'a extras_state_scheme \<Rightarrow> 'a extras_state_scheme" where
  "write_crash_readme w s =
     (if disk s ''crashes/README.txt'' \<noteq> None then s
      else s\<lparr>disk := (disk s)(''crashes/README.txt'' \<mapsto> w_readme w)\<rparr>)"

end
