(* ===== verification/Afl_Save.thy ===== *)
theory Afl_Save
  imports Afl_Case
begin

text \<open>
  What becomes of a test case that has been run: finds go to the queue, crashes and hangs to their
  directories, within limits and once per new behaviour; and \<^verbatim>\<open>common_fuzz_stuff\<close>, through which
  every fuzzing stage runs the target.
\<close>

section \<open>Keeping a test case\<close>

definition KEEP_UNIQUE_HANG :: u64 where "KEEP_UNIQUE_HANG = 500"
definition KEEP_UNIQUE_CRASH :: u64 where "KEEP_UNIQUE_CRASH = 5000"
definition TMOUT_LIMIT :: u32 where "TMOUT_LIMIT = 250"

definition decimal :: "'a::len word \<Rightarrow> string" where
  "decimal x = dec (unat x)"

text \<open>
  The first half of \<^verbatim>\<open>save_if_interesting\<close>: a run with the expected outcome that shows something new
  becomes a queue entry, is calibrated, and is written to disk.  The result is \<^verbatim>\<open>keeping\<close>, with
  \<open>None\<close> for the early return.  New entries get the addresses \<open>next_alloc\<close>, \<open>next_alloc + 1\<close>, ...
\<close>

definition queue_name :: "u64 \<Rightarrow> string \<Rightarrow> 'a fuzz_state_scheme \<Rightarrow> string" where
  "queue_name prox_score op s =
     ''queue/id:'' @ pad_to 6 (unat (queued_paths s)) @ '','' @ decimal prox_score @ '','' @ op"

definition keep_in_queue ::
  "'w fuzz_world_scheme \<Rightarrow> u8 list \<Rightarrow> u32 \<Rightarrow> 'a fuzz_state_scheme \<Rightarrow>
   (fatal + bool \<times> 'a fuzz_state_scheme) option" where
  "keep_in_queue w mem len s =
     (let (hnb, s1) = has_new_bits Virgin_bits s in
      if hnb = 0 then
        Some (Inr (False, if crash_mode s1 \<noteq> FAULT_NONE then s1\<lparr>total_crashes := total_crashes s1 + 1\<rparr> else s1))
      else do {
        let prox_score = compute_proximity_score (dfg_bits s1);
        op \<leftarrow> describe_op hnb s1;
        let fn = queue_name prox_score op s1;
        let q = next_alloc s1;
        let (now, s2) = get_cur_time w s1;
        s3 \<leftarrow> add_to_queue q now fn len False prox_score (s2\<lparr>next_alloc := q + 1\<rparr>);
        e \<leftarrow> entries s3 q;
        let s4 = s3\<lparr>entries := (entries s3)(q \<mapsto> e\<lparr>q_has_new_cov := (q_has_new_cov e \<or> hnb = 2),
                                                  q_exec_cksum := trace_cksum s3\<rparr>),
                    queued_with_cov := (if hnb = 2 then queued_with_cov s3 + 1 else queued_with_cov s3)\<rparr>;
        andthen (calibrate_case w q mem (ucast (queue_cycle s4 - 1)) False s4)
          (\<lambda>(res, s5).
             if res = FAULT_ERROR then Some (Inl (FATAL ''Unable to execute target application''))
             else do {
               d \<leftarrow> slice mem 0 (unat len);
               Some (map_sum id (\<lambda>s6. (True, s6)) (create_file fn d s5)) }) })"

text \<open>A crash, from the label \<^verbatim>\<open>keep_as_crash\<close> on; the result is \<open>None\<close> or the name to save it under.\<close>

definition crash_name :: "u64 \<Rightarrow> string \<Rightarrow> 'a fuzz_state_scheme \<Rightarrow> string" where
  "crash_name prox_score op s =
     ''crashes/id:'' @ pad_to 6 (unat (unique_crashes s)) @ '','' @ decimal prox_score @ '',sig:'' @
     pad_to 2 (unat (kill_signal s)) @ '','' @ op"

definition keep_crash ::
  "'w fuzz_world_scheme \<Rightarrow> 'a fuzz_state_scheme \<Rightarrow> (string option \<times> 'a fuzz_state_scheme) option" where
  "keep_crash w s0 =
     (let s = s0\<lparr>total_crashes := total_crashes s0 + 1\<rparr> in
      if unique_crashes s \<ge> KEEP_UNIQUE_CRASH then Some (None, s)
      else
        let (new, s1) = (if dumb_mode s \<noteq> 0 then (1, s)
                         else has_new_bits Virgin_crash (s\<lparr>trace_bits := simplify_trace (trace_bits s)\<rparr>))
        in if new = 0 then Some (None, s1)
           else do {
             let s2 = (if unique_crashes s1 = 0 then write_crash_readme w s1 else s1);
             op \<leftarrow> describe_op 0 s2;
             let fn = crash_name (compute_proximity_score (dfg_bits s2)) op s2;
             let (now, s3) = get_cur_time w (s2\<lparr>unique_crashes := unique_crashes s2 + 1\<rparr>);
             Some (Some fn, s3\<lparr>last_crash_time := now, last_crash_execs := total_execs s3\<rparr>) })"

text \<open>A timeout: only a genuine hang is kept, and what crashes with more time is kept as a crash.\<close>

definition hang_name :: "string \<Rightarrow> 'a fuzz_state_scheme \<Rightarrow> string" where
  "hang_name op s = ''hangs/id:'' @ pad_to 6 (unat (unique_hangs s)) @ '','' @ op"

definition record_hang ::
  "'w fuzz_world_scheme \<Rightarrow> 'a fuzz_state_scheme \<Rightarrow> (string option \<times> 'a fuzz_state_scheme) option" where
  "record_hang w s =
     do { op \<leftarrow> describe_op 0 s;
          let (now, s1) = get_cur_time w (s\<lparr>unique_hangs := unique_hangs s + 1\<rparr>);
          Some (Some (hang_name op s), s1\<lparr>last_hang_time := now\<rparr>) }"

definition keep_hang ::
  "'w fuzz_world_scheme \<Rightarrow> u8 list \<Rightarrow> u32 \<Rightarrow> 'a fuzz_state_scheme \<Rightarrow>
   (fatal + string option \<times> 'a fuzz_state_scheme) option" where
  "keep_hang w mem len s0 =
     (let s = s0\<lparr>total_tmouts := total_tmouts s0 + 1\<rparr> in
      if unique_hangs s \<ge> KEEP_UNIQUE_HANG then Some (Inr (None, s))
      else
        let (new, s1) = (if dumb_mode s \<noteq> 0 then (1, s)
                         else has_new_bits Virgin_tmout (s\<lparr>trace_bits := simplify_trace (trace_bits s)\<rparr>))
        in if new = 0 then Some (Inr (None, s1))
           else
             let s2 = s1\<lparr>unique_tmouts := unique_tmouts s1 + 1\<rparr> in
             if exec_tmout s2 < hang_tmout s2
             then do {
               s3 \<leftarrow> write_to_testcase mem len s2;
               case run_target w (hang_tmout s3) s3 of
                 Inl f \<Rightarrow> Some (Inl f)
               | Inr (new_fault, s4) \<Rightarrow>
                   if stop_soon s4 = 0 \<and> new_fault = FAULT_CRASH then map_option Inr (keep_crash w s4)
                   else if stop_soon s4 \<noteq> 0 \<or> new_fault \<noteq> FAULT_TMOUT then Some (Inr (None, s4))
                   else map_option Inr (record_hang w s4) }
             else map_option Inr (record_hang w s2))"

definition save_if_interesting ::
  "'w fuzz_world_scheme \<Rightarrow> u8 list \<Rightarrow> u32 \<Rightarrow> fault \<Rightarrow> 'a fuzz_state_scheme \<Rightarrow>
   (fatal + bool \<times> 'a fuzz_state_scheme) option" where
  "save_if_interesting w mem len fault s =
     andthen
       (if fault = crash_mode s
        then andthen (keep_in_queue w mem len s) (\<lambda>(keeping, s1). Some (Inr (\<not> keeping, keeping, s1)))
        else Some (Inr (False, False, s)))
       (\<lambda>(early, keeping, s1).
          if early then Some (Inr (False, s1))
          else andthen
            (case fault of
               FAULT_TMOUT \<Rightarrow> keep_hang w mem len s1
             | FAULT_CRASH \<Rightarrow> map_option Inr (keep_crash w s1)
             | FAULT_ERROR \<Rightarrow> Some (Inl (FATAL ''Unable to execute target application''))
             | _ \<Rightarrow> Some (Inr (None, s1)))
            (\<lambda>(fn, s2).
               case fn of
                 None \<Rightarrow> Some (Inr (keeping, s2))
               | Some name \<Rightarrow> do { d \<leftarrow> slice mem 0 (unat len);
                                   Some (map_sum id (\<lambda>s3. (keeping, s3)) (create_file name d s2)) }))"

section \<open>Running a mutated input\<close>

text \<open>What follows a run; the result is \<open>True\<close> when it is time to bail out.\<close>

definition after_run ::
  "'w fuzz_world_scheme \<Rightarrow> u8 list \<Rightarrow> u32 \<Rightarrow> fault \<Rightarrow> 'a fuzz_state_scheme \<Rightarrow>
   (fatal + bool \<times> 'a fuzz_state_scheme) option" where
  "after_run w out_buf len fault s2 =
     (if stop_soon s2 \<noteq> 0 then Some (Inr (True, s2))
      else if fault = FAULT_TMOUT \<and> subseq_tmouts s2 > TMOUT_LIMIT
      then Some (Inr (True, s2\<lparr>subseq_tmouts := subseq_tmouts s2 + 1,
                               cur_skipped_paths := cur_skipped_paths s2 + 1\<rparr>))
      else
        let s3 = s2\<lparr>subseq_tmouts := (if fault = FAULT_TMOUT then subseq_tmouts s2 + 1 else 0)\<rparr> in
        if skip_requested s3
        then Some (Inr (True, s3\<lparr>skip_requested := False, cur_skipped_paths := cur_skipped_paths s3 + 1\<rparr>))
        else andthen (save_if_interesting w out_buf len fault s3)
          (\<lambda>(kept, s4). do {
             let s5 = s4\<lparr>queued_discovered := queued_discovered s4 + (if kept then 1 else 0)\<rparr>;
             due \<leftarrow> stats_due (stage_cur s5) s5;
             s6 \<leftarrow> (if due \<or> stage_cur s5 + 1 = stage_max s5 then show_stats w s5 else Some s5);
             Some (Inr (False, s6)) }))"

definition post_process :: "'w fuzz_world_scheme \<Rightarrow> u8 list \<Rightarrow> u32 \<Rightarrow> (u8 list \<times> u32) option" where
  "post_process w b len =
     (case w_post_handler w of
        None \<Rightarrow> Some (b, len)
      | Some h \<Rightarrow> (case h b len of None \<Rightarrow> None | Some (b1, len1) \<Rightarrow> if len1 = 0 then None else Some (b1, len1)))"

definition common_fuzz_stuff ::
  "'w fuzz_world_scheme \<Rightarrow> u8 list \<Rightarrow> u32 \<Rightarrow> 'a fuzz_state_scheme \<Rightarrow>
   (fatal + bool \<times> 'a fuzz_state_scheme) option" where
  "common_fuzz_stuff w out_buf0 len0 s =
     (case post_process w out_buf0 len0 of
        None \<Rightarrow> Some (Inr (False, s))
      | Some (out_buf, len) \<Rightarrow> do {
          s1 \<leftarrow> write_to_testcase out_buf len s;
          andthen (Some (run_target w (exec_tmout s1) s1))
            (\<lambda>(fault, s2). after_run w out_buf len fault s2) })"

end
