(* ===== verification/Afl_Score.thy ===== *)
theory Afl_Score
  imports Afl_State
begin

text \<open>
  How long an entry is fuzzed: the performance score, the factor derived from its proximity to the
  target, and the size of the blocks the random stage works on.  The code computes in \<^verbatim>\<open>double\<close>; the
  model computes the same expressions exactly, so it differs from the code where a product does not
  fit into 53 bits.
\<close>

section \<open>Performance score\<close>

definition HAVOC_MAX_MULT :: u32 where "HAVOC_MAX_MULT = 16"

text \<open>\<^verbatim>\<open>q->exec_us * 0.1 > avg_exec_us\<close> is \<open>x > 10 * a\<close>, and so on.\<close>

definition speed_score :: "u64 \<Rightarrow> u32 \<Rightarrow> u32" where
  "speed_score x a =
     (if unat x > 10 * unat a then 10
      else if unat x > 4 * unat a then 25
      else if unat x > 2 * unat a then 50
      else if 3 * unat x > 4 * unat a then 75
      else if x * 4 < ucast a then 300
      else if x * 3 < ucast a then 200
      else if x * 2 < ucast a then 150
      else 100)"

text \<open>\<^verbatim>\<open>perf_score *= 1.5\<close> truncates.\<close>

definition times_quarters :: "nat \<Rightarrow> u32 \<Rightarrow> u32" where
  "times_quarters k p = of_nat (unat p * k div 4)"

definition size_score :: "u32 \<Rightarrow> u32 \<Rightarrow> u32 \<Rightarrow> u32" where
  "size_score b a p =
     (if 3 * unat b > 10 * unat a then p * 3
      else if unat b > 2 * unat a then p * 2
      else if 3 * unat b > 4 * unat a then times_quarters 6 p
      else if b * 3 < a then times_quarters 1 p
      else if b * 2 < a then times_quarters 2 p
      else if 3 * unat b < 2 * unat a then times_quarters 3 p
      else p)"

definition depth_score :: "u64 \<Rightarrow> u32 \<Rightarrow> u32" where
  "depth_score d p =
     (if d \<le> 3 then p else if d \<le> 7 then p * 2 else if d \<le> 13 then p * 3 else if d \<le> 25 then p * 4 else p * 5)"

definition calculate_score :: "nat \<Rightarrow> 'a fuzz_state_scheme \<Rightarrow> (u32 \<times> 'a fuzz_state_scheme) option" where
  "calculate_score q s =
     (if total_cal_cycles s = 0 \<or> total_bitmap_entries s = 0 then None
      else do {
        e \<leftarrow> entries s q;
        let avg_exec_us = (ucast (total_cal_us s div total_cal_cycles s) :: u32);
        let avg_bitmap_size = (ucast (total_bitmap_size s div total_bitmap_entries s) :: u32);
        let p1 = speed_score (q_exec_us e) avg_exec_us;
        let p2 = size_score (q_bitmap_size e) avg_bitmap_size p1;
        let (p3, h) = (if q_handicap e \<ge> 4 then (p2 * 4, q_handicap e - 4)
                       else if q_handicap e \<noteq> 0 then (p2 * 2, q_handicap e - 1) else (p2, q_handicap e));
        let p4 = depth_score (q_depth e) p3;
        Some (if p4 > HAVOC_MAX_MULT * 100 then HAVOC_MAX_MULT * 100 else p4,
              s\<lparr>entries := (entries s)(q \<mapsto> e\<lparr>q_handicap := h\<rparr>)\<rparr>) })"

section \<open>Proximity factor\<close>

text \<open>With \<^verbatim>\<open>t_x\<close> the annealing schedule of AFLGo, otherwise the ratio to the average proximity.\<close>

definition calculate_factor ::
  "'w fuzz_world_scheme \<Rightarrow> u64 \<Rightarrow> 'a fuzz_state_scheme \<Rightarrow> rat \<times> 'a fuzz_state_scheme" where
  "calculate_factor w prox_score s =
     (if t_x s \<noteq> 0 then
        let normalized =
              (if min_prox_score s = max_prox_score s then 1 / 2
               else of_nat (unat (prox_score - min_prox_score s)) / of_nat (unat (max_prox_score s - min_prox_score s)));
            (cur_ms, s1) = get_cur_time w s;
            t = (cur_ms - start_time s1) div 1000;
            progress_to_tx = of_nat (unat t) / (of_nat (unat (t_x s1)) * 60);
            T = 1 / w_pow w 20 progress_to_tx;
            p = normalized * (1 - T) + 1 / 2 * T
        in (w_pow w 2 (5 * 2 * (p - 1 / 2)), s1)
      else if no_dfg_schedule s \<or> avg_prox_score s = 0 then (1, s)
      else (of_nat (unat prox_score) / of_nat (unat (avg_prox_score s)), s))"

text \<open>\<^verbatim>\<open>(u32) (factor * (double) perf_score)\<close>.\<close>

definition scale_score :: "rat \<Rightarrow> u32 \<Rightarrow> u32" where
  "scale_score factor p = word_of_int \<lfloor>factor * of_nat (unat p)\<rfloor>"

section \<open>Block lengths\<close>

definition HAVOC_BLK_SMALL :: u32 where "HAVOC_BLK_SMALL = 32"
definition HAVOC_BLK_MEDIUM :: u32 where "HAVOC_BLK_MEDIUM = 128"
definition HAVOC_BLK_LARGE :: u32 where "HAVOC_BLK_LARGE = 1500"
definition HAVOC_BLK_XL :: u32 where "HAVOC_BLK_XL = 32768"

definition choose_block_len ::
  "'w world_scheme \<Rightarrow> u32 \<Rightarrow> 'a fuzz_state_scheme \<Rightarrow> (u32 \<times> 'a fuzz_state_scheme) option" where
  "choose_block_len w limit s =
     (let rlim = (if run_over10m s then ucast (min (queue_cycle s) 3) else 1) in
      do {
        (r, s1) \<leftarrow> UR w rlim s;
        (min_value, max_value, s2) \<leftarrow>
          (if r = 0 then Some (1, HAVOC_BLK_SMALL, s1)
           else if r = 1 then Some (HAVOC_BLK_SMALL, HAVOC_BLK_MEDIUM, s1)
           else do {
             (r10, s2) \<leftarrow> UR w 10 s1;
             Some (if r10 \<noteq> 0 then (HAVOC_BLK_MEDIUM, HAVOC_BLK_LARGE, s2)
                   else (HAVOC_BLK_LARGE, HAVOC_BLK_XL, s2)) });
        let mn = (if min_value \<ge> limit then 1 else min_value);
        (d, s3) \<leftarrow> UR w (min max_value limit - mn + 1) s2;
        Some (mn + d, s3) })"

section \<open>Bounds\<close>

lemma UR_less: "UR w limit s = Some (r, s') \<Longrightarrow> r < limit"
proof -
  assume "UR w limit s = Some (r, s')"
  then obtain x where "r = x mod limit" "limit \<noteq> 0" by (auto simp: UR_def Let_def split: if_splits)
  then show ?thesis by (simp add: word_mod_less_divisor word_neq_0_conv)
qed

lemma UR_defined: "limit \<noteq> 0 \<Longrightarrow> \<exists>r s'. UR w limit s = Some (r, s')"
  by (simp add: UR_def Let_def)

lemma unat_times:
  fixes p :: u32
  shows "unat p * k < 2 ^ 32 \<Longrightarrow> unat (p * of_nat k) = unat p * k"
proof -
  assume a: "unat p * k < 2 ^ 32"
  show ?thesis
  proof (cases "unat p = 0")
    case False
    then have "k \<le> unat p * k" by simp
    then have "k < 2 ^ 32" using a by (rule le_less_trans)
    then have "unat (of_nat k :: u32) = k" by (simp add: unsigned_of_nat take_bit_nat_eq_self)
    then show ?thesis using a by (simp add: unat_word_ariths)
  qed (simp add: unat_eq_zero)
qed

lemmas unat_times_numeral = unat_times [of _ "numeral k" for k, simplified]

lemma unat_times_quarters: "unat p * k < 2 ^ 32 \<Longrightarrow> unat (times_quarters k p) = unat p * k div 4"
proof -
  assume "unat p * k < 2 ^ 32"
  moreover have "unat p * k div 4 \<le> unat p * k" by (rule div_le_dividend)
  ultimately have "unat p * k div 4 < 2 ^ 32" by simp
  then show ?thesis by (simp add: times_quarters_def unsigned_of_nat take_bit_nat_eq_self)
qed

lemma speed_score_range: "unat (speed_score x a) \<in> {10..300}"
  by (simp add: speed_score_def)

lemma size_score_range:
  assumes "unat p \<in> {10..300}"
  shows "unat (size_score b a p) \<in> {2..900}"
proof -
  define n where "n = unat p"
  have n: "10 \<le> n" "n \<le> 300" using assms by (simp_all add: n_def)
  then have "n * 6 div 4 \<in> {2..900}" "n * 1 div 4 \<in> {2..900}" "n * 2 div 4 \<in> {2..900}" "n * 3 div 4 \<in> {2..900}"
    by auto
  moreover have "unat (times_quarters k p) = n * k div 4" if "k \<le> 6" for k
    unfolding n_def by (rule unat_times_quarters) (use n that mult_mono [of "unat p" 300 k 6] in \<open>simp add: n_def\<close>)
  moreover have "unat (p * 3) = n * 3" "unat (p * 2) = n * 2"
    using n by (simp_all add: unat_times_numeral n_def)
  ultimately show ?thesis using n by (simp add: size_score_def n_def)
qed

lemma depth_score_range:
  assumes "unat p \<in> {2..3600}"
  shows "unat (depth_score d p) \<in> {2..18000}"
  using assms by (simp add: depth_score_def unat_times_numeral)

text \<open>
  The score over the natural numbers: percent for the speed, quarters for the bitmap size, and
  factors for the handicap and the depth.
\<close>

definition speed_percent :: "nat \<Rightarrow> nat \<Rightarrow> nat" where
  "speed_percent x a =
     (if 10 * a < x then 10 else if 4 * a < x then 25 else if 2 * a < x then 50 else if 4 * a < 3 * x then 75
      else if 4 * x < a then 300 else if 3 * x < a then 200 else if 2 * x < a then 150 else 100)"

definition size_quarters :: "nat \<Rightarrow> nat \<Rightarrow> nat" where
  "size_quarters b a =
     (if 10 * a < 3 * b then 12 else if 2 * a < b then 8 else if 4 * a < 3 * b then 6
      else if 3 * b < a then 1 else if 2 * b < a then 2 else if 3 * b < 2 * a then 3 else 4)"

definition handicap_factor :: "nat \<Rightarrow> nat" where
  "handicap_factor h = (if 4 \<le> h then 4 else if h \<noteq> 0 then 2 else 1)"

definition depth_factor :: "nat \<Rightarrow> nat" where
  "depth_factor d = (if d \<le> 3 then 1 else if d \<le> 7 then 2 else if d \<le> 13 then 3 else if d \<le> 25 then 4 else 5)"

definition ideal_score :: "nat \<Rightarrow> nat \<Rightarrow> nat \<Rightarrow> nat \<Rightarrow> nat \<Rightarrow> nat \<Rightarrow> nat" where
  "ideal_score x avg_x b avg_b h d =
     speed_percent x avg_x * size_quarters b avg_b div 4 * handicap_factor h * depth_factor d"

lemma speed_score_exact: "unat x < 2 ^ 62 \<Longrightarrow> unat (speed_score x a) = speed_percent (unat x) (unat a)"
proof -
  assume x: "unat x < 2 ^ 62"
  have "unat a < 2 ^ LENGTH(32)" by (rule unsigned_less)
  then have up: "unat (ucast a :: u64) = unat a" by (simp add: unsigned_ucast_eq take_bit_nat_eq_self)
  have "unat (x * 4) = 4 * unat x" "unat (x * 3) = 3 * unat x" "unat (x * 2) = 2 * unat x"
    using x by (simp_all add: unat_word_ariths)
  then show ?thesis unfolding speed_score_def speed_percent_def word_less_nat_alt up by simp
qed

lemma size_score_exact:
  assumes "unat b < 2 ^ 30" and "unat p \<le> 300"
  shows "unat (size_score b a p) = unat p * size_quarters (unat b) (unat a) div 4"
proof -
  have b: "unat (b * 3) = 3 * unat b" "unat (b * 2) = 2 * unat b" using assms(1) by (simp_all add: unat_word_ariths)
  have p: "unat (p * 3) = unat p * 12 div 4" "unat (p * 2) = unat p * 8 div 4"
    using assms(2) by (simp_all add: unat_times_numeral)
  have q: "unat (times_quarters k p) = unat p * k div 4" if "k \<le> 6" for k
    by (rule unat_times_quarters) (use assms(2) that mult_mono [of "unat p" 300 k 6] in simp)
  show ?thesis unfolding size_score_def size_quarters_def word_less_nat_alt b by (simp add: p q)
qed

lemma depth_score_exact: "unat p \<le> 3600 \<Longrightarrow> unat (depth_score d p) = unat p * depth_factor (unat d)"
  by (simp add: depth_score_def depth_factor_def unat_times_numeral word_le_nat_alt)

text \<open>
  C18: once an entry has been calibrated, its score is defined and lies between 2 and 1600. For
  an entry that ran less than 2^62 microseconds and has less than 2^30 bitmap bytes no product
  and no comparison wraps around: the score is the one computed over the natural numbers, percent
  for the speed times the factors for the bitmap size, the handicap and the depth, cut at 1600.
  The handicap shrinks by 4, by 1, or is used up; nothing else of the state changes.
\<close>

theorem calculate_score_bounds:
  assumes "total_cal_cycles s \<noteq> 0" and "total_bitmap_entries s \<noteq> 0" and "entries s q = Some e"
  shows "\<exists>p s' e'. calculate_score q s = Some (p, s') \<and> 2 \<le> unat p \<and> unat p \<le> 1600 \<and>
    entries s' q = Some e' \<and>
    unat (q_handicap e') = (if 4 \<le> unat (q_handicap e) then unat (q_handicap e) - 4 else unat (q_handicap e) - 1) \<and>
    (unat (q_exec_us e) < 2 ^ 62 \<and> unat (q_bitmap_size e) < 2 ^ 30 \<longrightarrow>
       unat p = min 1600
         (ideal_score (unat (q_exec_us e)) (unat (total_cal_us s) div unat (total_cal_cycles s) mod 2 ^ 32)
            (unat (q_bitmap_size e)) (unat (total_bitmap_size s) div unat (total_bitmap_entries s) mod 2 ^ 32)
            (unat (q_handicap e)) (unat (q_depth e)))) \<and>
    s' = s\<lparr>entries := (entries s)(q \<mapsto> e\<lparr>q_handicap := q_handicap e'\<rparr>)\<rparr>"
proof -
  define ax where "ax = (ucast (total_cal_us s div total_cal_cycles s) :: u32)"
  define ab where "ab = (ucast (total_bitmap_size s div total_bitmap_entries s) :: u32)"
  define p1 where "p1 = speed_score (q_exec_us e) ax"
  define p2 where "p2 = size_score (q_bitmap_size e) ab p1"
  have p1: "unat p1 \<in> {10..300}" unfolding p1_def by (rule speed_score_range)
  have p2: "unat p2 \<in> {2..900}" unfolding p2_def by (rule size_score_range [OF p1])
  define p3 where "p3 = (if q_handicap e \<ge> 4 then p2 * 4 else if q_handicap e \<noteq> 0 then p2 * 2 else p2)"
  define h where "h = (if q_handicap e \<ge> 4 then q_handicap e - 4
    else if q_handicap e \<noteq> 0 then q_handicap e - 1 else q_handicap e)"
  have p3: "unat p3 \<in> {2..3600}" using p2 by (simp add: p3_def unat_times_numeral)
  note p4 = depth_score_range [OF p3, of "q_depth e"]
  define p where "p = (if depth_score (q_depth e) p3 > HAVOC_MAX_MULT * 100
      then HAVOC_MAX_MULT * 100 else depth_score (q_depth e) p3)"
  have top: "unat (HAVOC_MAX_MULT * 100) = 1600" by (simp add: HAVOC_MAX_MULT_def)
  then have pmin: "unat p = min 1600 (unat (depth_score (q_depth e) p3))"
    by (auto simp: p_def word_less_nat_alt)
  have avg: "unat ax = unat (total_cal_us s) div unat (total_cal_cycles s) mod 2 ^ 32"
    "unat ab = unat (total_bitmap_size s) div unat (total_bitmap_entries s) mod 2 ^ 32"
    by (simp_all add: ax_def ab_def unsigned_ucast_eq take_bit_eq_mod unat_div_distrib)
  have "unat p3 = unat p2 * handicap_factor (unat (q_handicap e))"
    using p2 by (simp add: p3_def handicap_factor_def unat_times_numeral word_le_nat_alt unat_eq_zero)
  then have ideal: "unat p = min 1600 (ideal_score (unat (q_exec_us e)) (unat ax) (unat (q_bitmap_size e)) (unat ab)
      (unat (q_handicap e)) (unat (q_depth e)))"
    if "unat (q_exec_us e) < 2 ^ 62" "unat (q_bitmap_size e) < 2 ^ 30"
    using size_score_exact [OF that(2), of p1 ab] speed_score_exact [OF that(1), of ax] p1 p3
      depth_score_exact [of p3 "q_depth e"]
    unfolding pmin ideal_score_def p2_def [symmetric] p1_def [symmetric] by simp
  have "unat h = (if 4 \<le> unat (q_handicap e) then unat (q_handicap e) - 4 else unat (q_handicap e) - 1)"
    using unat_sub [of 4 "q_handicap e"] unat_sub [of 1 "q_handicap e"] unat_gt_0 [of "q_handicap e"]
    by (auto simp: h_def word_le_nat_alt Suc_le_eq split: if_splits)
  moreover have "calculate_score q s = Some (p, s\<lparr>entries := (entries s)(q \<mapsto> e\<lparr>q_handicap := h\<rparr>)\<rparr>)"
    using assms by (simp add: calculate_score_def Let_def p_def p3_def p2_def p1_def ax_def ab_def h_def)
  moreover have "2 \<le> unat p" "unat p \<le> 1600" using p4 pmin by auto
  ultimately show ?thesis using ideal unfolding avg
    by (intro exI [of _ p] exI [of _ "s\<lparr>entries := (entries s)(q \<mapsto> e\<lparr>q_handicap := h\<rparr>)\<rparr>"]
        exI [of _ "e\<lparr>q_handicap := h\<rparr>"]) simp
qed

theorem calculate_score_bounds_witness:
  "\<exists>s'. calculate_score 1 (demo_fuzz\<lparr>total_cal_us := 800, total_cal_cycles := 8, total_bitmap_entries := 1\<rparr>) = Some (300, s')"
proof -
  let ?s = "demo_fuzz\<lparr>total_cal_us := 800, total_cal_cycles := 8, total_bitmap_entries := 1\<rparr>"
  define e where "e = zero_entry\<lparr>q_fname := ''q/a'', q_exec_us := 10, q_len := 4\<rparr>"
  have e: "entries ?s 1 = Some e" by (simp add: demo_defs e_def)
  have small: "unat (q_exec_us e) < 2 ^ 62 \<and> unat (q_bitmap_size e) < 2 ^ 30"
    by (simp add: e_def zero_entry_def)
  obtain p s' where p: "calculate_score 1 ?s = Some (p, s')" "unat p = min 1600
         (ideal_score (unat (q_exec_us e)) (unat (total_cal_us ?s) div unat (total_cal_cycles ?s) mod 2 ^ 32)
            (unat (q_bitmap_size e)) (unat (total_bitmap_size ?s) div unat (total_bitmap_entries ?s) mod 2 ^ 32)
            (unat (q_handicap e)) (unat (q_depth e)))"
    using calculate_score_bounds [OF _ _ e] small by (auto simp: demo_fuzz_def exec_state.defs)
  have "unat p = 300"
    unfolding p(2) by (simp add: demo_fuzz_def exec_state.defs e_def zero_entry_def ideal_score_def speed_percent_def
        size_quarters_def handicap_factor_def depth_factor_def)
  then have "p = 300" by (simp add: word_unat_eq_iff)
  then show ?thesis using p(1) by blast
qed

lemma choose_block_len_range:
  assumes "limit \<noteq> 0" and "run_over10m s \<Longrightarrow> queue_cycle s \<noteq> 0"
  shows "\<exists>n s'. choose_block_len w limit s = Some (n, s') \<and> 1 \<le> n \<and> n \<le> limit \<and> n \<le> 32768"
proof -
  let ?rlim = "if run_over10m s then ucast (min (queue_cycle s) 3) else (1 :: u32)"
  have small: "ucast y \<noteq> (0 :: u32)" if "y \<noteq> 0" "y \<le> 3" for y :: u64
  proof -
    have "unat y < 4" "unat y \<noteq> 0" using that by (simp_all add: word_le_nat_alt unat_eq_zero)
    moreover have "unat (ucast y :: u32) = unat y"
      using calculation by (simp add: unsigned_ucast_eq take_bit_nat_eq_self)
    ultimately show ?thesis by auto
  qed
  have "?rlim \<noteq> 0" using small [of "min (queue_cycle s) 3"] assms(2) by (simp add: min_def)
  then obtain r s1 where r: "UR w ?rlim s = Some (r, s1)" using UR_defined by blast
  obtain mn mx s2 where band: "(if r = 0 then Some (1, HAVOC_BLK_SMALL, s1)
           else if r = 1 then Some (HAVOC_BLK_SMALL, HAVOC_BLK_MEDIUM, s1)
           else do {
             (r10, s2) \<leftarrow> UR w 10 s1;
             Some (if r10 \<noteq> 0 then (HAVOC_BLK_MEDIUM, HAVOC_BLK_LARGE, s2)
                   else (HAVOC_BLK_LARGE, HAVOC_BLK_XL, s2)) }) = Some (mn, mx, s2)"
    and range: "1 \<le> unat mn" "unat mn < unat mx" "unat mx \<le> 32768"
  proof (cases "r = 0 \<or> r = 1")
    case True
    then show ?thesis using that by (auto simp: HAVOC_BLK_SMALL_def HAVOC_BLK_MEDIUM_def)
  next
    case False
    obtain r10 s2 where "UR w 10 s1 = Some (r10, s2)" using UR_defined [of 10 w s1] by auto
    then show ?thesis
      using that [of "if r10 \<noteq> 0 then HAVOC_BLK_MEDIUM else HAVOC_BLK_LARGE" "if r10 \<noteq> 0 then HAVOC_BLK_LARGE else HAVOC_BLK_XL" s2] False
      by (simp add: HAVOC_BLK_MEDIUM_def HAVOC_BLK_LARGE_def HAVOC_BLK_XL_def)
  qed
  define lo where "lo = (if mn \<ge> limit then 1 else mn)"
  have lim: "1 \<le> unat limit" using assms(1) unat_eq_zero [of limit] by linarith
  have up: "unat (min mx limit) = min (unat mx) (unat limit)" by (simp add: min_def word_le_nat_alt)
  have lo: "1 \<le> unat lo" "unat lo \<le> unat (min mx limit)"
    using range lim unfolding up by (auto simp: lo_def word_le_nat_alt)
  have width: "unat (min mx limit - lo + 1) = unat (min mx limit) - unat lo + 1"
  proof -
    have d: "unat (min mx limit - lo) = unat (min mx limit) - unat lo"
      using lo(2) by (simp add: unat_sub word_le_nat_alt)
    moreover have "unat (min mx limit - lo) + 1 < 2 ^ 32" using d up range(3) by simp
    ultimately show ?thesis by (simp add: unat_word_ariths)
  qed
  have "min mx limit - lo + 1 \<noteq> 0" using width unat_eq_zero [of "min mx limit - lo + 1"] by linarith
  then obtain d s3 where d: "UR w (min mx limit - lo + 1) s2 = Some (d, s3)" using UR_defined by blast
  have "unat d \<le> unat (min mx limit) - unat lo" using UR_less [OF d] width by (simp add: word_less_nat_alt)
  then have sum: "unat lo + unat d \<le> min (unat mx) (unat limit)" using lo(2) up by linarith
  have "unat (lo + d) = unat lo + unat d"
    using sum range(3) by (simp add: unat_word_ariths)
  then have "1 \<le> lo + d" "lo + d \<le> limit" "lo + d \<le> 32768"
    using lo(1) sum range(3) by (simp_all add: word_le_nat_alt)
  moreover have "choose_block_len w limit s = Some (lo + d, s3)"
    unfolding choose_block_len_def Let_def r using band d by (simp add: lo_def)
  ultimately show ?thesis by blast
qed

text \<open>
  A block length for a non-empty input is at least 1 and at most the input, and at most 32768;
  it is always defined, from the first queue cycle on.
\<close>

theorem choose_block_len_bounds:
  assumes "limit \<noteq> 0" and "run_over10m s \<Longrightarrow> queue_cycle s \<noteq> 0"
  shows "\<exists>n s'. choose_block_len w limit s = Some (n, s') \<and> 1 \<le> n \<and> n \<le> limit \<and> n \<le> 32768"
  by (rule choose_block_len_range [OF assms])

theorem choose_block_len_bounds_witness:
  "\<exists>n s'. choose_block_len demo_world 5 demo_fuzz = Some (n, s') \<and> 1 \<le> n \<and> n \<le> 5"
  using choose_block_len_bounds [of 5 demo_fuzz demo_world] by (fastforce simp: demo_defs)

end
