(* ===== verification/Afl_Trim.thy ===== *)
theory Afl_Trim
  imports Afl_Case
begin

text \<open>
  Trimming (\<^verbatim>\<open>trim_case\<close>): blocks of the input are left out, from large to small, and stay out when
  the trace does not change.
\<close>

section \<open>The trimmer\<close>

definition TRIM_MIN_BYTES :: u32 where "TRIM_MIN_BYTES = 4"
definition TRIM_END_STEPS :: u32 where "TRIM_END_STEPS = 1024"

text \<open>
  The locals of \<^verbatim>\<open>trim_case\<close>: the buffer, \<^verbatim>\<open>len_p2\<close>, \<^verbatim>\<open>trim_exec\<close>, the clean trace once one has been
  saved (\<^verbatim>\<open>needs_write\<close>), and the last fault.
\<close>

record trim_locals =
  tr_buf :: "u8 list"
  tr_len_p2 :: u32
  tr_exec :: u32
  tr_clean :: "u8 list option"
  tr_fault :: fault

text \<open>\<^verbatim>\<open>memmove(in_buf + pos, in_buf + pos + avail, tail)\<close>.\<close>

definition move_down :: "u8 list \<Rightarrow> nat \<Rightarrow> nat \<Rightarrow> nat \<Rightarrow> u8 list option" where
  "move_down buf pos avail tail_len = do { d \<leftarrow> slice buf (pos + avail) tail_len; put buf pos d }"

text \<open>One attempt to leave out \<^verbatim>\<open>trim_avail\<close> bytes; the result is \<open>True\<close> for \<^verbatim>\<open>goto abort_trimming\<close>.\<close>

definition trim_step ::
  "'w fuzz_world_scheme \<Rightarrow> nat \<Rightarrow> u32 \<Rightarrow> u32 \<Rightarrow> trim_locals \<Rightarrow> 'a fuzz_state_scheme \<Rightarrow>
   (fatal + bool \<times> u32 \<times> trim_locals \<times> 'a fuzz_state_scheme) option" where
  "trim_step w q remove_len remove_pos l s =
     do { e \<leftarrow> entries s q;
          let trim_avail = min remove_len (q_len e - remove_pos);
          s1 \<leftarrow> write_with_gap (tr_buf l) (q_len e) remove_pos trim_avail s;
          case run_target w (exec_tmout s1) s1 of
            Inl f \<Rightarrow> Some (Inl f)
          | Inr (fault, s2) \<Rightarrow>
              let s3 = s2\<lparr>trim_execs := trim_execs s2 + 1\<rparr>; l1 = l\<lparr>tr_fault := fault\<rparr> in
              if stop_soon s3 \<noteq> 0 \<or> fault = FAULT_ERROR then Some (Inr (True, remove_pos, l1, s3))
              else do {
                (pos, l2, s4) \<leftarrow>
                  (if trace_cksum s3 = q_exec_cksum e
                   then do {
                     let new_len = q_len e - trim_avail;
                     p2 \<leftarrow> next_p2 new_len;
                     buf \<leftarrow> move_down (tr_buf l1) (unat remove_pos) (unat trim_avail)
                             (unat (q_len e - remove_pos - trim_avail));
                     Some (remove_pos,
                           l1\<lparr>tr_buf := buf, tr_len_p2 := p2,
                              tr_clean := (case tr_clean l1 of None \<Rightarrow> Some (trace_bits s3) | Some t \<Rightarrow> Some t)\<rparr>,
                           s3\<lparr>entries := (entries s3)(q \<mapsto> e\<lparr>q_len := new_len\<rparr>)\<rparr>) }
                   else Some (remove_pos + remove_len, l1, s3));
                due \<leftarrow> stats_due (uint (tr_exec l2)) s4;
                s5 \<leftarrow> (if due then show_stats w s4 else Some s4);
                Some (Inr (False, pos, l2\<lparr>tr_exec := tr_exec l2 + 1\<rparr>, s5\<lparr>stage_cur := stage_cur s5 + 1\<rparr>)) } }"

partial_function (option) trim_inner ::
  "'w fuzz_world_scheme \<Rightarrow> nat \<Rightarrow> u32 \<Rightarrow> u32 \<Rightarrow> trim_locals \<Rightarrow> 'a fuzz_state_scheme \<Rightarrow>
   (fatal + bool \<times> trim_locals \<times> 'a fuzz_state_scheme) option" where
  "trim_inner w q remove_len remove_pos l s =
     do { e \<leftarrow> entries s q;
          if remove_pos < q_len e
          then andthen (trim_step w q remove_len remove_pos l s)
                 (\<lambda>(stop, pos, l1, s1).
                    if stop then Some (Inr (True, l1, s1)) else trim_inner w q remove_len pos l1 s1)
          else Some (Inr (False, l, s)) }"

text \<open>\<^verbatim>\<open>DI\<close> abbreviates numbers of five digits and more; the name is only displayed.\<close>

definition trim_name :: "u32 \<Rightarrow> string" where
  "trim_name n = ''trim '' @ dec (unat n) @ ''/'' @ dec (unat n)"

partial_function (option) trim_outer ::
  "'w fuzz_world_scheme \<Rightarrow> nat \<Rightarrow> u32 \<Rightarrow> trim_locals \<Rightarrow> 'a fuzz_state_scheme \<Rightarrow>
   (fatal + bool \<times> trim_locals \<times> 'a fuzz_state_scheme) option" where
  "trim_outer w q remove_len l s =
     (if remove_len \<ge> max (tr_len_p2 l div TRIM_END_STEPS) TRIM_MIN_BYTES
      then do {
        e \<leftarrow> entries s q;
        let s1 = s\<lparr>stage_name := trim_name remove_len, stage_cur := 0,
                   stage_max := uint (q_len e div remove_len)\<rparr>;
        andthen (trim_inner w q remove_len remove_len l s1)
          (\<lambda>(stop, l1, s2).
             if stop then Some (Inr (True, l1, s2)) else trim_outer w q (drop_bit 1 remove_len) l1 s2) }
      else Some (Inr (False, l, s)))"

text \<open>
  The result is the fault and the new contents of the buffer; the file of the entry is replaced
  when anything was left out.
\<close>

definition trim_case ::
  "'w fuzz_world_scheme \<Rightarrow> nat \<Rightarrow> u8 list \<Rightarrow> 'a fuzz_state_scheme \<Rightarrow>
   (fatal + (fault \<times> u8 list) \<times> 'a fuzz_state_scheme) option" where
  "trim_case w q in_buf s =
     do { e \<leftarrow> entries s q;
          if q_len e < 5 then Some (Inr ((FAULT_NONE, in_buf), s))
          else do {
            p2 \<leftarrow> next_p2 (q_len e);
            let l = \<lparr>tr_buf = in_buf, tr_len_p2 = p2, tr_exec = 0, tr_clean = None, tr_fault = FAULT_NONE\<rparr>;
            andthen (trim_outer w q (max (p2 div TRIM_START_STEPS) TRIM_MIN_BYTES) l
                       (s\<lparr>bytes_trim_in := bytes_trim_in s + ucast (q_len e)\<rparr>))
              (\<lambda>(stop, l1, s1). do {
                 e1 \<leftarrow> entries s1 q;
                 s3 \<leftarrow> (if stop then Some s1
                       else case tr_clean l1 of
                         None \<Rightarrow> Some s1
                       | Some t \<Rightarrow> do {
                           d \<leftarrow> slice (tr_buf l1) 0 (unat (q_len e1));
                           update_bitmap_score q
                             (s1\<lparr>disk := (disk s1)(q_fname e1 \<mapsto> d), trace_bits := t\<rparr>) });
                 e3 \<leftarrow> entries s3 q;
                 Some (Inr ((tr_fault l1, tr_buf l1),
                            s3\<lparr>bytes_trim_out := bytes_trim_out s3 + ucast (q_len e3)\<rparr>)) }) } }"

end
