(* ===== verification/Afl_Stages.thy ===== *)
theory Afl_Stages
  imports Afl_Save Afl_Score Afl_Trim
begin

text \<open>
  The deterministic stages of \<^verbatim>\<open>fuzz_one\<close>: walking bits and bytes with the search for syntax tokens
  and the effector map, additions and subtractions, interesting values, and dictionary tokens.  Each
  changes the buffer in place, runs the target, and takes the change back.
\<close>

section \<open>Locals and control flow\<close>

text \<open>The local variables of \<^verbatim>\<open>fuzz_one\<close>.\<close>

record fuzz_locals =
  orig_in :: "u8 list"
  in_buf :: "u8 list"
  out_buf :: "u8 list"
  f_len :: nat
  eff_map :: "u8 list"
  eff_cnt :: u32
  a_collect :: "u8 list"
  a_len :: u32
  prev_cksum :: u32
  orig_hit_cnt :: u64
  new_hit_cnt :: u64
  last_len :: nat
  ex_tmp :: "u8 list"
  doing_det :: bool
  perf_score :: u32
  orig_perf :: u32
  splice_cycle :: u32
  temp_len :: nat
  havoc_queued :: u64
  splice_target :: "nat option"

text \<open>A piece of \<^verbatim>\<open>fuzz_one\<close>; its result is \<open>True\<close> for \<^verbatim>\<open>goto abandon_entry\<close>.\<close>

type_synonym 'a fuzz_step =
  "fuzz_locals \<Rightarrow> 'a fuzz_state_scheme \<Rightarrow> (fatal + bool \<times> fuzz_locals \<times> 'a fuzz_state_scheme) option"

definition continue :: "'a fuzz_step" where
  "continue l s = Some (Inr (False, l, s))"

definition bail :: "'a fuzz_step \<Rightarrow> 'a fuzz_step \<Rightarrow> 'a fuzz_step" where
  "bail m f l s = andthen (m l s) (\<lambda>(stop, l1, s1). if stop then Some (Inr (True, l1, s1)) else f l1 s1)"

text \<open>\<^verbatim>\<open>for (i = a; i < b; i++)\<close> over a local index, and the loops over the global \<^verbatim>\<open>stage_cur\<close>.\<close>

fun for_loop :: "'i list \<Rightarrow> ('i \<Rightarrow> 'a fuzz_step) \<Rightarrow> 'a fuzz_step" where
  "for_loop [] f l s = continue l s"
| "for_loop (i # is) f l s = bail (f i) (for_loop is f) l s"

partial_function (option) stage_loop :: "'a fuzz_step \<Rightarrow> 'a fuzz_step" where
  "stage_loop f l s =
     (if stage_cur s < stage_max s
      then andthen (f l s)
        (\<lambda>(stop, l1, s1). if stop then Some (Inr (True, l1, s1))
                         else stage_loop f l1 (s1\<lparr>stage_cur := stage_cur s1 + 1\<rparr>))
      else Some (Inr (False, l, s)))"

text \<open>\<^verbatim>\<open>if (common_fuzz_stuff(argv, out_buf, len)) goto abandon_entry;\<close>\<close>

definition run_buf :: "'w fuzz_world_scheme \<Rightarrow> 'a fuzz_step" where
  "run_buf w l s =
     andthen (common_fuzz_stuff w (out_buf l) (of_nat (f_len l)) s) (\<lambda>(stop, s1). Some (Inr (stop, l, s1)))"

definition set_buf :: "u8 list option \<Rightarrow> 'a fuzz_step" where
  "set_buf b l s = do { buf \<leftarrow> b; continue (l\<lparr>out_buf := buf\<rparr>) s }"

text \<open>The head and the tail that the stages share.\<close>

definition hits :: "'a fuzz_state_scheme \<Rightarrow> u64" where
  "hits s = ucast (queued_paths s) + unique_crashes s"

definition stage_begin :: "string \<Rightarrow> string \<Rightarrow> int \<Rightarrow> 'a fuzz_step" where
  "stage_begin name short mx l s =
     continue (l\<lparr>orig_hit_cnt := new_hit_cnt l\<rparr>)
              (s\<lparr>stage_name := name, stage_short := short, stage_cur := 0, stage_max := mx\<rparr>)"

definition stage_end :: "nat \<Rightarrow> 'a fuzz_step" where
  "stage_end n l s =
     continue (l\<lparr>new_hit_cnt := hits s\<rparr>)
       (s\<lparr>stage_finds := (stage_finds s)(n := stage_finds s n + (hits s - orig_hit_cnt l)),
          stage_cycles := (stage_cycles s)(n := stage_cycles s n + word_of_int (stage_max s))\<rparr>)"

section \<open>Walking bits\<close>

text \<open>Collecting syntax tokens while the last bit of every byte is flipped.\<close>

definition collect_byte :: "fuzz_locals \<Rightarrow> u8 \<Rightarrow> fuzz_locals" where
  "collect_byte l b =
     l\<lparr>a_collect := (if unat (a_len l) < MAX_AUTO_EXTRA then (a_collect l)[unat (a_len l) := b] else a_collect l),
       a_len := a_len l + 1\<rparr>"

definition add_collected :: "'w world_scheme \<Rightarrow> 'a fuzz_step" where
  "add_collected w l s =
     (if MIN_AUTO_EXTRA \<le> unat (a_len l) \<and> unat (a_len l) \<le> MAX_AUTO_EXTRA
      then do { s1 \<leftarrow> maybe_add_auto w (take (unat (a_len l)) (a_collect l)) s; continue l s1 }
      else continue l s)"

definition collect_token :: "'w world_scheme \<Rightarrow> nat \<Rightarrow> 'a fuzz_step" where
  "collect_token w q l s =
     (if dumb_mode s = 0 \<and> stage_cur s mod 8 = 7
      then do {
        let cksum = trace_cksum s;
        b \<leftarrow> get_at (out_buf l) (nat (stage_cur s) div 8);
        e \<leftarrow> entries s q;
        bail (\<lambda>l s. if stage_cur s = stage_max s - 1 \<and> cksum = prev_cksum l
                    then add_collected w (collect_byte l b) s
                    else if cksum \<noteq> prev_cksum l
                    then bail (add_collected w) (\<lambda>l s. continue (l\<lparr>a_len := 0, prev_cksum := cksum\<rparr>) s) l s
                    else continue l s)
          (\<lambda>l s. continue (if cksum \<noteq> q_exec_cksum e then collect_byte l b else l) s) l s }
      else continue l s)"

definition flip_bits :: "nat \<Rightarrow> 'a fuzz_step" where
  "flip_bits n l s = set_buf (flip_run n (nat (stage_cur s)) (out_buf l)) l s"

definition walk_bits :: "'w fuzz_world_scheme \<Rightarrow> nat \<Rightarrow> 'a fuzz_step \<Rightarrow> 'a fuzz_step" where
  "walk_bits w n after =
     stage_loop (\<lambda>l s. bail (flip_bits n) (bail (run_buf w) (bail (flip_bits n) after)) l
                         (s\<lparr>stage_cur_byte := stage_cur s div 8\<rparr>))"

definition flip1_stage :: "'w fuzz_world_scheme \<Rightarrow> nat \<Rightarrow> 'a fuzz_step" where
  "flip1_stage w q l s =
     do { e \<leftarrow> entries s q;
          bail (bail (stage_begin ''bitflip 1/1'' ''flip1'' (8 * int (f_len l))) (walk_bits w 1 (collect_token w q)))
            (stage_end 0) (l\<lparr>new_hit_cnt := hits s, prev_cksum := q_exec_cksum e\<rparr>)
            (s\<lparr>stage_val_type := STAGE_VAL_NONE\<rparr>) }"

definition flip2_stage :: "'w fuzz_world_scheme \<Rightarrow> 'a fuzz_step" where
  "flip2_stage w l s =
     bail (bail (stage_begin ''bitflip 2/1'' ''flip2'' (8 * int (f_len l) - 1)) (walk_bits w 2 continue))
       (stage_end 1) l s"

definition flip4_stage :: "'w fuzz_world_scheme \<Rightarrow> 'a fuzz_step" where
  "flip4_stage w l s =
     bail (bail (stage_begin ''bitflip 4/1'' ''flip4'' (8 * int (f_len l) - 3)) (walk_bits w 4 continue))
       (stage_end 2) l s"

section \<open>Walking bytes and the effector map\<close>

definition EFF_MAP_SCALE2 :: nat where "EFF_MAP_SCALE2 = 3"
definition EFF_MIN_LEN :: nat where "EFF_MIN_LEN = 128"
definition EFF_MAX_PERC :: u32 where "EFF_MAX_PERC = 90"

definition EFF_APOS :: "nat \<Rightarrow> nat" where "EFF_APOS p = drop_bit EFF_MAP_SCALE2 p"
definition EFF_REM :: "nat \<Rightarrow> nat" where "EFF_REM x = x AND (push_bit EFF_MAP_SCALE2 1 - 1)"
definition EFF_ALEN :: "nat \<Rightarrow> nat" where "EFF_ALEN n = EFF_APOS n + (if EFF_REM n \<noteq> 0 then 1 else 0)"

text \<open>For spans of at least one byte, which tokens are.\<close>

definition EFF_SPAN_ALEN :: "nat \<Rightarrow> nat \<Rightarrow> nat" where
  "EFF_SPAN_ALEN p n = EFF_APOS (p + n - 1) - EFF_APOS p + 1"

definition eff_setup :: "'a fuzz_step" where
  "eff_setup l s =
     do { m0 \<leftarrow> set_at (replicate (EFF_ALEN (f_len l)) 0) 0 1;
          if EFF_APOS (f_len l - 1) \<noteq> 0
          then do { m1 \<leftarrow> set_at m0 (EFF_APOS (f_len l - 1)) 1;
                    continue (l\<lparr>eff_map := m1, eff_cnt := eff_cnt l + 1\<rparr>) s }
          else continue (l\<lparr>eff_map := m0\<rparr>) s }"

text \<open>Whether all blocks of the given positions are still clear.\<close>

fun eff_clear :: "u8 list \<Rightarrow> nat list \<Rightarrow> bool option" where
  "eff_clear m [] = Some True"
| "eff_clear m (i # is) = do { b \<leftarrow> get_at m (EFF_APOS i); if b \<noteq> 0 then Some False else eff_clear m is }"

text \<open>\<^verbatim>\<open>*(uN*)(out_buf + i) ^= ~0\<close>.\<close>

definition flip_bytes :: "nat \<Rightarrow> nat \<Rightarrow> 'a fuzz_step" where
  "flip_bytes n i l s =
     set_buf (do { d \<leftarrow> slice (out_buf l) i n; put (out_buf l) i (map (\<lambda>b. b XOR 0xff) d) }) l s"

definition note_effect :: "nat \<Rightarrow> 'a fuzz_step" where
  "note_effect q l s =
     do { clear \<leftarrow> eff_clear (eff_map l) [nat (stage_cur s)];
          e \<leftarrow> entries s q;
          if \<not> clear then continue l s
          else
            let cksum = (if dumb_mode s = 0 \<and> f_len l \<ge> EFF_MIN_LEN then trace_cksum s else NOT (q_exec_cksum e)) in
            if cksum \<noteq> q_exec_cksum e
            then continue (l\<lparr>eff_map := (eff_map l)[EFF_APOS (nat (stage_cur s)) := 1], eff_cnt := eff_cnt l + 1\<rparr>) s
            else continue l s }"

definition eff_finish :: "'a fuzz_step" where
  "eff_finish l s =
     (let alen = (of_nat (EFF_ALEN (f_len l)) :: u32) in
      if alen = 0 then None
      else
        let full = (eff_cnt l \<noteq> alen \<and> eff_cnt l * 100 div alen > EFF_MAX_PERC);
            l1 = (if full then l\<lparr>eff_map := replicate (EFF_ALEN (f_len l)) 1\<rparr> else l)
        in continue l1 (s\<lparr>blocks_eff_select := blocks_eff_select s + (if full then ucast alen else ucast (eff_cnt l)),
                          blocks_eff_total := blocks_eff_total s + ucast alen\<rparr>))"

definition flip8_stage :: "'w fuzz_world_scheme \<Rightarrow> nat \<Rightarrow> 'a fuzz_step" where
  "flip8_stage w q l s =
     bail eff_setup
     (bail (\<lambda>l. stage_begin ''bitflip 8/8'' ''flip8'' (int (f_len l)) l)
     (bail (stage_loop (\<lambda>l s.
        let i = nat (stage_cur s) in
        bail (flip_bytes 1 i) (bail (run_buf w) (bail (note_effect q) (flip_bytes 1 i))) l
          (s\<lparr>stage_cur_byte := stage_cur s\<rparr>)))
     (bail eff_finish (stage_end 3)))) l s"

text \<open>The loops that consult the effector map: a block that has no effect is not worth its runs.\<close>

definition skip_runs :: "int \<Rightarrow> 'a fuzz_step" where
  "skip_runs n l s = continue l (s\<lparr>stage_max := stage_max s - n\<rparr>)"

definition at_effective :: "nat \<Rightarrow> int \<Rightarrow> nat \<Rightarrow> 'a fuzz_step \<Rightarrow> 'a fuzz_step" where
  "at_effective width runs i f l s =
     do { clear \<leftarrow> eff_clear (eff_map l) [i..<i + width];
          if clear then skip_runs runs l s else f l (s\<lparr>stage_cur_byte := int i\<rparr>) }"

definition count_run :: "'w fuzz_world_scheme \<Rightarrow> 'a fuzz_step" where
  "count_run w = bail (run_buf w) (\<lambda>l s. continue l (s\<lparr>stage_cur := stage_cur s + 1\<rparr>))"

definition flip16_stage :: "'w fuzz_world_scheme \<Rightarrow> 'a fuzz_step" where
  "flip16_stage w l s =
     bail (stage_begin ''bitflip 16/8'' ''flip16'' (int (f_len l) - 1))
     (bail (for_loop [0..<f_len l - 1]
        (\<lambda>i. at_effective 2 1 i (bail (flip_bytes 2 i) (bail (count_run w) (flip_bytes 2 i)))))
     (stage_end 4)) l s"

definition flip32_stage :: "'w fuzz_world_scheme \<Rightarrow> 'a fuzz_step" where
  "flip32_stage w l s =
     bail (stage_begin ''bitflip 32/8'' ''flip32'' (int (f_len l) - 3))
     (bail (for_loop [0..<f_len l - 3]
        (\<lambda>i. at_effective 4 1 i (bail (flip_bytes 4 i) (bail (count_run w) (flip_bytes 4 i)))))
     (stage_end 5)) l s"

definition bitflip_stages :: "'w fuzz_world_scheme \<Rightarrow> nat \<Rightarrow> 'a fuzz_step" where
  "bitflip_stages w q l s =
     bail (flip1_stage w q) (bail (flip2_stage w) (bail (flip4_stage w) (bail (flip8_stage w q)
       (\<lambda>l. if f_len l < 2 then continue l
            else bail (flip16_stage w) (\<lambda>l. if f_len l < 4 then continue l else flip32_stage w l) l)))) l s"

end
