(* ===== verification/Afl_Det.thy ===== *)
theory Afl_Det
  imports Afl_Stages
begin

text \<open>
  The deterministic stages of \<^verbatim>\<open>fuzz_one\<close>, continued: arithmetic, interesting values, tokens.
\<close>

section \<open>Arithmetic\<close>

text \<open>One candidate value: it is run, or counted as not worth running.\<close>

definition try_value ::
  "'w fuzz_world_scheme \<Rightarrow> bool option \<Rightarrow> int \<Rightarrow> (u8 list \<Rightarrow> u8 list option) \<Rightarrow> 'a fuzz_step" where
  "try_value w ok v wr l s =
     do { go \<leftarrow> ok;
          if go then bail (\<lambda>l. set_buf (wr (out_buf l)) l) (count_run w) l (s\<lparr>stage_cur_val := v\<rparr>)
          else skip_runs 1 l s }"

definition not_flip :: "bool \<Rightarrow> 'n::len word \<Rightarrow> bool option" where
  "not_flip c r = (if c then map_option Not (could_be_bitflip (ucast r)) else Some False)"

definition set_val_type :: "stage_val \<Rightarrow> 'a fuzz_step" where
  "set_val_type t l s = continue l (s\<lparr>stage_val_type := t\<rparr>)"

definition arith8_at :: "'w fuzz_world_scheme \<Rightarrow> nat \<Rightarrow> 'a fuzz_step" where
  "arith8_at w i l s =
     do { orig \<leftarrow> get_at (out_buf l) i;
          for_loop [1..<ARITH_MAX + 1]
            (\<lambda>j. bail (try_value w (not_flip True (orig XOR (orig + of_nat j))) (int j)
                        (\<lambda>b. set_at b i (orig + of_nat j)))
                (bail (try_value w (not_flip True (orig XOR (orig - of_nat j))) (- int j)
                        (\<lambda>b. set_at b i (orig - of_nat j)))
                      (\<lambda>l. set_buf (set_at (out_buf l) i orig) l))) l s }"

definition arith8_stage :: "'w fuzz_world_scheme \<Rightarrow> 'a fuzz_step" where
  "arith8_stage w l s =
     bail (stage_begin ''arith 8/8'' ''arith8'' (2 * int (f_len l) * int ARITH_MAX))
     (bail (set_val_type STAGE_VAL_LE)
     (bail (for_loop [0..<f_len l] (\<lambda>i. at_effective 1 (2 * int ARITH_MAX) i (arith8_at w i)))
     (stage_end 6))) l s"

text \<open>Only when more than one byte changes: the shorter stage has tried the others.\<close>

definition arith16_at :: "'w fuzz_world_scheme \<Rightarrow> nat \<Rightarrow> 'a fuzz_step" where
  "arith16_at w i l s =
     do { orig \<leftarrow> (load 2 (out_buf l) i :: u16 option);
          let lo = uint (orig AND 0xff);
          let hi = uint (drop_bit 8 orig);
          for_loop [1..<ARITH_MAX + 1]
            (\<lambda>j. let r1 = orig + of_nat j; r2 = orig - of_nat j;
                     r3 = SWAP16 (SWAP16 orig + of_nat j); r4 = SWAP16 (SWAP16 orig - of_nat j)
                 in bail (set_val_type STAGE_VAL_LE)
                   (bail (try_value w (not_flip (lo + int j > 0xff) (orig XOR r1)) (int j) (\<lambda>b. store 2 b i r1))
                   (bail (try_value w (not_flip (lo < int j) (orig XOR r2)) (- int j) (\<lambda>b. store 2 b i r2))
                   (bail (set_val_type STAGE_VAL_BE)
                   (bail (try_value w (not_flip (hi + int j > 0xff) (orig XOR r3)) (int j) (\<lambda>b. store 2 b i r3))
                   (bail (try_value w (not_flip (hi < int j) (orig XOR r4)) (- int j) (\<lambda>b. store 2 b i r4))
                         (\<lambda>l. set_buf (store 2 (out_buf l) i orig) l))))))) l s }"

definition arith16_stage :: "'w fuzz_world_scheme \<Rightarrow> 'a fuzz_step" where
  "arith16_stage w l s =
     bail (stage_begin ''arith 16/8'' ''arith16'' (4 * (int (f_len l) - 1) * int ARITH_MAX))
     (bail (for_loop [0..<f_len l - 1] (\<lambda>i. at_effective 2 (4 * int ARITH_MAX) i (arith16_at w i)))
     (stage_end 7)) l s"

definition arith32_at :: "'w fuzz_world_scheme \<Rightarrow> nat \<Rightarrow> 'a fuzz_step" where
  "arith32_at w i l s =
     do { orig \<leftarrow> (load 4 (out_buf l) i :: u32 option);
          let lo = uint (orig AND 0xffff);
          let hi = uint (SWAP32 orig AND 0xffff);
          for_loop [1..<ARITH_MAX + 1]
            (\<lambda>j. let r1 = orig + of_nat j; r2 = orig - of_nat j;
                     r3 = SWAP32 (SWAP32 orig + of_nat j); r4 = SWAP32 (SWAP32 orig - of_nat j)
                 in bail (set_val_type STAGE_VAL_LE)
                   (bail (try_value w (not_flip (lo + int j > 0xffff) (orig XOR r1)) (int j) (\<lambda>b. store 4 b i r1))
                   (bail (try_value w (not_flip (lo < int j) (orig XOR r2)) (- int j) (\<lambda>b. store 4 b i r2))
                   (bail (set_val_type STAGE_VAL_BE)
                   (bail (try_value w (not_flip (hi + int j > 0xffff) (orig XOR r3)) (int j) (\<lambda>b. store 4 b i r3))
                   (bail (try_value w (not_flip (hi < int j) (orig XOR r4)) (- int j) (\<lambda>b. store 4 b i r4))
                         (\<lambda>l. set_buf (store 4 (out_buf l) i orig) l))))))) l s }"

definition arith32_stage :: "'w fuzz_world_scheme \<Rightarrow> 'a fuzz_step" where
  "arith32_stage w l s =
     bail (stage_begin ''arith 32/8'' ''arith32'' (4 * (int (f_len l) - 3) * int ARITH_MAX))
     (bail (for_loop [0..<f_len l - 3] (\<lambda>i. at_effective 4 (4 * int ARITH_MAX) i (arith32_at w i)))
     (stage_end 8)) l s"

definition arith_stages :: "'w fuzz_world_scheme \<Rightarrow> 'a fuzz_step" where
  "arith_stages w l s =
     (if no_arith s then continue l s
      else bail (arith8_stage w) (\<lambda>l. if f_len l < 2 then continue l
        else bail (arith16_stage w) (\<lambda>l. if f_len l < 4 then continue l else arith32_stage w l) l) l s)"

section \<open>Interesting values\<close>

text \<open>Only when no earlier stage has produced the value.\<close>

definition interest8_at :: "'w fuzz_world_scheme \<Rightarrow> nat \<Rightarrow> 'a fuzz_step" where
  "interest8_at w i l s =
     do { orig \<leftarrow> get_at (out_buf l) i;
          for_loop interesting_8
            (\<lambda>v. let ok = (if could_be_arith (ucast orig) (ucast v) 1 then Some False else not_flip True (orig XOR v))
                 in bail (try_value w ok (sint v) (\<lambda>b. set_at b i v))
                         (\<lambda>l. set_buf (set_at (out_buf l) i orig) l)) l s }"

definition interest8_stage :: "'w fuzz_world_scheme \<Rightarrow> 'a fuzz_step" where
  "interest8_stage w l s =
     bail (stage_begin ''interest 8/8'' ''int8'' (int (f_len l) * int (length interesting_8)))
     (bail (set_val_type STAGE_VAL_LE)
     (bail (for_loop [0..<f_len l] (\<lambda>i. at_effective 1 (int (length interesting_8)) i (interest8_at w i)))
     (stage_end 9))) l s"

definition set_cur_val :: "int \<Rightarrow> 'a fuzz_step" where
  "set_cur_val v l s = continue l (s\<lparr>stage_cur_val := v\<rparr>)"

definition try_wide ::
  "'w fuzz_world_scheme \<Rightarrow> bool option \<Rightarrow> stage_val \<Rightarrow> (u8 list \<Rightarrow> u8 list option) \<Rightarrow> 'a fuzz_step" where
  "try_wide w ok t wr l s =
     do { go \<leftarrow> ok;
          if go then bail (\<lambda>l. set_buf (wr (out_buf l)) l) (count_run w) l (s\<lparr>stage_val_type := t\<rparr>)
          else skip_runs 1 l s }"

definition not_seen :: "bool \<Rightarrow> 'n::len word \<Rightarrow> 'n word \<Rightarrow> nat \<Rightarrow> bool \<Rightarrow> bool option" where
  "not_seen c orig v n le =
     (if c \<and> \<not> could_be_arith (ucast orig) (ucast v) n \<and> \<not> could_be_interest (ucast orig) (ucast v) n le
      then not_flip True (orig XOR v) else Some False)"

definition interest16_at :: "'w fuzz_world_scheme \<Rightarrow> nat \<Rightarrow> 'a fuzz_step" where
  "interest16_at w i l s =
     do { orig \<leftarrow> (load 2 (out_buf l) i :: u16 option);
          bail (for_loop interesting_16
              (\<lambda>v. bail (set_cur_val (sint v))
                  (bail (try_wide w (not_seen True orig v 2 False) STAGE_VAL_LE (\<lambda>b. store 2 b i v))
                        (try_wide w (not_seen (v \<noteq> SWAP16 v) orig (SWAP16 v) 2 True) STAGE_VAL_BE
                           (\<lambda>b. store 2 b i (SWAP16 v))))))
            (\<lambda>l. set_buf (store 2 (out_buf l) i orig) l) l s }"

definition interest16_stage :: "'w fuzz_world_scheme \<Rightarrow> 'a fuzz_step" where
  "interest16_stage w l s =
     bail (stage_begin ''interest 16/8'' ''int16'' (2 * (int (f_len l) - 1) * int (length interesting_16)))
     (bail (for_loop [0..<f_len l - 1]
        (\<lambda>i. at_effective 2 (2 * int (length interesting_16)) i (interest16_at w i)))
     (stage_end 10)) l s"

definition interest32_at :: "'w fuzz_world_scheme \<Rightarrow> nat \<Rightarrow> 'a fuzz_step" where
  "interest32_at w i l s =
     do { orig \<leftarrow> (load 4 (out_buf l) i :: u32 option);
          bail (for_loop interesting_32
              (\<lambda>v. bail (set_cur_val (sint v))
                  (bail (try_wide w (not_seen True orig v 4 False) STAGE_VAL_LE (\<lambda>b. store 4 b i v))
                        (try_wide w (not_seen (v \<noteq> SWAP32 v) orig (SWAP32 v) 4 True) STAGE_VAL_BE
                           (\<lambda>b. store 4 b i (SWAP32 v))))))
            (\<lambda>l. set_buf (store 4 (out_buf l) i orig) l) l s }"

definition interest32_stage :: "'w fuzz_world_scheme \<Rightarrow> 'a fuzz_step" where
  "interest32_stage w l s =
     bail (stage_begin ''interest 32/8'' ''int32'' (2 * (int (f_len l) - 3) * int (length interesting_32)))
     (bail (for_loop [0..<f_len l - 3]
        (\<lambda>i. at_effective 4 (2 * int (length interesting_32)) i (interest32_at w i)))
     (stage_end 11)) l s"

definition interest_stages :: "'w fuzz_world_scheme \<Rightarrow> 'a fuzz_step" where
  "interest_stages w l s =
     bail (interest8_stage w) (\<lambda>l s. if no_arith s \<or> f_len l < 2 then continue l s
        else bail (interest16_stage w) (\<lambda>l. if f_len l < 4 then continue l else interest32_stage w l) l s) l s"

section \<open>Tokens\<close>

definition MAX_DET_EXTRAS :: nat where "MAX_DET_EXTRAS = 200"
definition MAX_FILE :: nat where "MAX_FILE = 1024 * 1024"

text \<open>Whether a token is left out by chance, when there are too many of them.\<close>

definition token_skipped :: "'w world_scheme \<Rightarrow> nat \<Rightarrow> 'a fuzz_state_scheme \<Rightarrow> (bool \<times> 'a fuzz_state_scheme) option" where
  "token_skipped w n s =
     (if n > MAX_DET_EXTRAS then do { (r, s1) \<leftarrow> UR w (of_nat n) s; Some (unat r \<ge> MAX_DET_EXTRAS, s1) }
      else Some (False, s))"

definition over_token :: "'w fuzz_world_scheme \<Rightarrow> nat \<Rightarrow> extra_data \<Rightarrow> bool \<Rightarrow> 'a fuzz_step" where
  "over_token w i e skip l s =
     (if skip \<or> unat (x_len e) > f_len l - i then skip_runs 1 l s
      else do {
        d \<leftarrow> slice (x_data e) 0 (unat (x_len e));
        old \<leftarrow> slice (out_buf l) i (unat (x_len e));
        m \<leftarrow> slice (eff_map l) (EFF_APOS i) (EFF_SPAN_ALEN i (unat (x_len e)));
        if d = old \<or> 1 \<notin> set m then skip_runs 1 l s
        else bail (set_buf (put (out_buf l) i d)) (count_run w) (l\<lparr>last_len := unat (x_len e)\<rparr>) s })"

text \<open>Tokens come in order of their length, so the longest one written covers the others.\<close>

definition restore_span :: "nat \<Rightarrow> 'a fuzz_step" where
  "restore_span i l s =
     set_buf (do { d \<leftarrow> slice (in_buf l) i (last_len l); put (out_buf l) i d }) l s"

definition start_span :: "nat \<Rightarrow> 'a fuzz_step" where
  "start_span i l s = continue (l\<lparr>last_len := 0\<rparr>) (s\<lparr>stage_cur_byte := int i\<rparr>)"

definition ext_UO_stage :: "'w fuzz_world_scheme \<Rightarrow> 'a fuzz_step" where
  "ext_UO_stage w l s =
     (let n = length (extras s) in
      bail (stage_begin ''user extras (over)'' ''ext_UO'' (int n * int (f_len l)))
     (bail (set_val_type STAGE_VAL_NONE)
     (bail (for_loop [0..<f_len l] (\<lambda>i.
        bail (start_span i)
       (bail (for_loop [0..<n] (\<lambda>j l s. do {
                (skip, s1) \<leftarrow> token_skipped w n s;
                e \<leftarrow> get_at (extras s1) j;
                over_token w i e skip l s1 }))
             (restore_span i))))
     (stage_end 12))) l s)"

definition ext_AO_stage :: "'w fuzz_world_scheme \<Rightarrow> 'a fuzz_step" where
  "ext_AO_stage w l s =
     (let n = min (length (a_extras s)) USE_AUTO_EXTRAS in
      bail (stage_begin ''auto extras (over)'' ''ext_AO'' (int n * int (f_len l)))
     (bail (set_val_type STAGE_VAL_NONE)
     (bail (for_loop [0..<f_len l] (\<lambda>i.
        bail (start_span i)
       (bail (for_loop [0..<n] (\<lambda>j l s. do { e \<leftarrow> get_at (a_extras s) j; over_token w i e False l s }))
             (restore_span i))))
     (stage_end 14))) l s)"

text \<open>
  The last round copies the byte after the input to \<^verbatim>\<open>ex_tmp\<close>.  When the buffer is no longer than the
  input, that is the byte 0xF0 with which the allocator ends every block; it is never used.
\<close>

definition insert_token :: "'w fuzz_world_scheme \<Rightarrow> nat \<Rightarrow> extra_data \<Rightarrow> 'a fuzz_step" where
  "insert_token w i e l s =
     (if f_len l + unat (x_len e) > MAX_FILE then skip_runs 1 l s
      else do {
        d \<leftarrow> slice (x_data e) 0 (unat (x_len e));
        t1 \<leftarrow> put (ex_tmp l) i d;
        rest \<leftarrow> slice (out_buf l) i (f_len l - i);
        t2 \<leftarrow> put t1 (i + unat (x_len e)) rest;
        andthen (common_fuzz_stuff w t2 (of_nat (f_len l + unat (x_len e))) s)
          (\<lambda>(stop, s1). Some (Inr (stop, l\<lparr>ex_tmp := t2\<rparr>,
                                    if stop then s1 else s1\<lparr>stage_cur := stage_cur s1 + 1\<rparr>))) })"

definition copy_head :: "nat \<Rightarrow> 'a fuzz_step" where
  "copy_head i l s =
     do { t \<leftarrow> set_at (ex_tmp l) i (if i < length (out_buf l) then out_buf l ! i else 0xf0);
          continue (l\<lparr>ex_tmp := t\<rparr>) s }"

definition ext_UI_stage :: "'w fuzz_world_scheme \<Rightarrow> 'a fuzz_step" where
  "ext_UI_stage w l s =
     (let n = length (extras s) in
      bail (stage_begin ''user extras (insert)'' ''ext_UI'' (int n * int (f_len l)))
     (bail (for_loop [0..<f_len l + 1] (\<lambda>i.
        bail (\<lambda>l s. continue l (s\<lparr>stage_cur_byte := int i\<rparr>))
       (bail (for_loop [0..<n] (\<lambda>j l s. do { e \<leftarrow> get_at (extras s) j; insert_token w i e l s }))
             (copy_head i))))
     (stage_end 13)) (l\<lparr>ex_tmp := replicate (f_len l + MAX_DICT_FILE) 0\<rparr>) s)"

definition token_stages :: "'w fuzz_world_scheme \<Rightarrow> 'a fuzz_step" where
  "token_stages w l s =
     bail (\<lambda>l s. if extras s = [] then continue l s else bail (ext_UO_stage w) (ext_UI_stage w) l s)
          (\<lambda>l s. if a_extras s = [] then continue l s else ext_AO_stage w l s) l s"

section \<open>All of them\<close>

definition det_done :: "nat \<Rightarrow> 'a fuzz_step" where
  "det_done q l s =
     do { e \<leftarrow> entries s q;
          if q_passed_det e then continue l s
          else andthen (mark_as_det_done q s) (continue l) }"

definition det_stages :: "'w fuzz_world_scheme \<Rightarrow> nat \<Rightarrow> 'a fuzz_step" where
  "det_stages w q l s =
     bail (bitflip_stages w q) (bail (arith_stages w) (bail (interest_stages w) (bail (token_stages w) (det_done q))))
       (l\<lparr>doing_det := True\<rparr>) s"

end
