(* ===== verification/Afl_Havoc.thy ===== *)
theory Afl_Havoc
  imports Afl_Det
begin

text \<open>
  The random stage of \<^verbatim>\<open>fuzz_one\<close>: stacked random edits of the buffer.  \<^verbatim>\<open>temp_len\<close> is the length of the
  current input; the buffer may be longer.  Where C leaves the order of two random draws in one
  expression open, the model draws from left to right.
\<close>

section \<open>Single edits\<close>

type_synonym 'a edit = "fuzz_locals \<Rightarrow> 'a fuzz_state_scheme \<Rightarrow> (fuzz_locals \<times> 'a fuzz_state_scheme) option"

definition draw :: "'w world_scheme \<Rightarrow> nat \<Rightarrow> 'a extras_state_scheme \<Rightarrow> (nat \<times> 'a extras_state_scheme) option" where
  "draw w n s = do { (r, s1) \<leftarrow> UR w (of_nat n) s; Some (unat r, s1) }"

definition edit_buf :: "u8 list option \<Rightarrow> 'a edit" where
  "edit_buf b l s = do { buf \<leftarrow> b; Some (l\<lparr>out_buf := buf\<rparr>, s) }"

definition havoc_flip :: "'w world_scheme \<Rightarrow> 'a edit" where
  "havoc_flip w l s = do { (k, s1) \<leftarrow> draw w (8 * temp_len l) s; edit_buf (FLIP_BIT (out_buf l) k) l s1 }"

definition havoc_set8 :: "'w world_scheme \<Rightarrow> 'a edit" where
  "havoc_set8 w l s =
     do { (pos, s1) \<leftarrow> draw w (temp_len l) s;
          (k, s2) \<leftarrow> draw w (length interesting_8) s1;
          edit_buf (set_at (out_buf l) pos (interesting_8 ! k)) l s2 }"

definition havoc_set16 :: "'w world_scheme \<Rightarrow> 'a edit" where
  "havoc_set16 w l s =
     (if temp_len l < 2 then Some (l, s)
      else do {
        (le, s1) \<leftarrow> draw w 2 s;
        (pos, s2) \<leftarrow> draw w (temp_len l - 1) s1;
        (k, s3) \<leftarrow> draw w (length interesting_16) s2;
        edit_buf (store 2 (out_buf l) pos
          (if le \<noteq> 0 then interesting_16 ! k else SWAP16 (interesting_16 ! k))) l s3 })"

definition havoc_set32 :: "'w world_scheme \<Rightarrow> 'a edit" where
  "havoc_set32 w l s =
     (if temp_len l < 4 then Some (l, s)
      else do {
        (le, s1) \<leftarrow> draw w 2 s;
        (pos, s2) \<leftarrow> draw w (temp_len l - 3) s1;
        (k, s3) \<leftarrow> draw w (length interesting_32) s2;
        edit_buf (store 4 (out_buf l) pos
          (if le \<noteq> 0 then interesting_32 ! k else SWAP32 (interesting_32 ! k))) l s3 })"

text \<open>Subtraction and addition in one definition: \<open>sub\<close> chooses.\<close>

definition plus_minus :: "bool \<Rightarrow> 'n::len word \<Rightarrow> 'n word \<Rightarrow> 'n word" where
  "plus_minus sub x y = (if sub then x - y else x + y)"

definition havoc_arith8 :: "bool \<Rightarrow> 'w world_scheme \<Rightarrow> 'a edit" where
  "havoc_arith8 sub w l s =
     do { (pos, s1) \<leftarrow> draw w (temp_len l) s;
          (k, s2) \<leftarrow> draw w ARITH_MAX s1;
          v \<leftarrow> get_at (out_buf l) pos;
          edit_buf (set_at (out_buf l) pos (plus_minus sub v (of_nat (1 + k)))) l s2 }"

definition havoc_arith16 :: "bool \<Rightarrow> 'w world_scheme \<Rightarrow> 'a edit" where
  "havoc_arith16 sub w l s =
     (if temp_len l < 2 then Some (l, s)
      else do {
        (le, s1) \<leftarrow> draw w 2 s;
        (pos, s2) \<leftarrow> draw w (temp_len l - 1) s1;
        (k, s3) \<leftarrow> draw w ARITH_MAX s2;
        v \<leftarrow> (load 2 (out_buf l) pos :: u16 option);
        edit_buf (store 2 (out_buf l) pos
          (if le \<noteq> 0 then plus_minus sub v (of_nat (1 + k))
           else SWAP16 (plus_minus sub (SWAP16 v) (of_nat (1 + k))))) l s3 })"

definition havoc_arith32 :: "bool \<Rightarrow> 'w world_scheme \<Rightarrow> 'a edit" where
  "havoc_arith32 sub w l s =
     (if temp_len l < 4 then Some (l, s)
      else do {
        (le, s1) \<leftarrow> draw w 2 s;
        (pos, s2) \<leftarrow> draw w (temp_len l - 3) s1;
        (k, s3) \<leftarrow> draw w ARITH_MAX s2;
        v \<leftarrow> (load 4 (out_buf l) pos :: u32 option);
        edit_buf (store 4 (out_buf l) pos
          (if le \<noteq> 0 then plus_minus sub v (of_nat (1 + k))
           else SWAP32 (plus_minus sub (SWAP32 v) (of_nat (1 + k))))) l s3 })"

definition havoc_xor :: "'w world_scheme \<Rightarrow> 'a edit" where
  "havoc_xor w l s =
     do { (pos, s1) \<leftarrow> draw w (temp_len l) s;
          (k, s2) \<leftarrow> draw w 255 s1;
          v \<leftarrow> get_at (out_buf l) pos;
          edit_buf (set_at (out_buf l) pos (v XOR of_nat (1 + k))) l s2 }"

definition block_len :: "'w world_scheme \<Rightarrow> nat \<Rightarrow> 'a fuzz_state_scheme \<Rightarrow> (nat \<times> 'a fuzz_state_scheme) option" where
  "block_len w limit s = do { (n, s1) \<leftarrow> choose_block_len w (of_nat limit) s; Some (unat n, s1) }"

definition havoc_delete :: "'w world_scheme \<Rightarrow> 'a edit" where
  "havoc_delete w l s =
     (if temp_len l < 2 then Some (l, s)
      else do {
        (del_len, s1) \<leftarrow> block_len w (temp_len l - 1) s;
        (del_from, s2) \<leftarrow> draw w (temp_len l - del_len + 1) s1;
        buf \<leftarrow> move_down (out_buf l) del_from del_len (temp_len l - del_from - del_len);
        Some (l\<lparr>out_buf := buf, temp_len := temp_len l - del_len\<rparr>, s2) })"

text \<open>\<^verbatim>\<open>UR(2) ? UR(256) : out_buf[UR(temp_len)]\<close>.\<close>

definition filler :: "'w world_scheme \<Rightarrow> fuzz_locals \<Rightarrow> 'a extras_state_scheme \<Rightarrow> (u8 \<times> 'a extras_state_scheme) option" where
  "filler w l s =
     do { (c, s1) \<leftarrow> draw w 2 s;
          if c \<noteq> 0 then do { (b, s2) \<leftarrow> draw w 256 s1; Some (of_nat b, s2) }
          else do { (pos, s2) \<leftarrow> draw w (temp_len l) s1; b \<leftarrow> get_at (out_buf l) pos; Some (b, s2) } }"

text \<open>Head, inserted part and tail go to a new buffer.\<close>

definition insert_part :: "nat \<Rightarrow> u8 list \<Rightarrow> 'a edit" where
  "insert_part at_pos d l s =
     do { head \<leftarrow> slice (out_buf l) 0 at_pos;
          tail \<leftarrow> slice (out_buf l) at_pos (temp_len l - at_pos);
          Some (l\<lparr>out_buf := head @ d @ tail, temp_len := temp_len l + length d\<rparr>, s) }"

definition havoc_clone :: "'w world_scheme \<Rightarrow> 'a edit" where
  "havoc_clone w l s =
     (if \<not> temp_len l + unat HAVOC_BLK_XL < MAX_FILE then Some (l, s)
      else do {
        (actually_clone, s1) \<leftarrow> draw w 4 s;
        (clone_len, clone_from, s2) \<leftarrow>
          (if actually_clone \<noteq> 0
           then do { (n, s2) \<leftarrow> block_len w (temp_len l) s1;
                     (from, s3) \<leftarrow> draw w (temp_len l - n + 1) s2; Some (n, from, s3) }
           else do { (n, s2) \<leftarrow> block_len w (unat HAVOC_BLK_XL) s1; Some (n, 0, s2) });
        (clone_to, s3) \<leftarrow> draw w (temp_len l) s2;
        (d, s4) \<leftarrow>
          (if actually_clone \<noteq> 0
           then do { d \<leftarrow> slice (out_buf l) clone_from clone_len; Some (d, s3) }
           else do { (b, s4) \<leftarrow> filler w l s3; Some (replicate clone_len b, s4) });
        insert_part clone_to d l s4 })"

definition havoc_overwrite :: "'w world_scheme \<Rightarrow> 'a edit" where
  "havoc_overwrite w l s =
     (if temp_len l < 2 then Some (l, s)
      else do {
        (copy_len, s1) \<leftarrow> block_len w (temp_len l - 1) s;
        (copy_from, s2) \<leftarrow> draw w (temp_len l - copy_len + 1) s1;
        (copy_to, s3) \<leftarrow> draw w (temp_len l - copy_len + 1) s2;
        (c, s4) \<leftarrow> draw w 4 s3;
        if c \<noteq> 0
        then (if copy_from \<noteq> copy_to
              then edit_buf (do { d \<leftarrow> slice (out_buf l) copy_from copy_len; put (out_buf l) copy_to d }) l s4
              else Some (l, s4))
        else do { (b, s5) \<leftarrow> filler w l s4; edit_buf (put (out_buf l) copy_to (replicate copy_len b)) l s5 } })"

text \<open>The dice for a token: an automatic one or one of the user's.\<close>

definition choose_token ::
  "'w world_scheme \<Rightarrow> 'a extras_state_scheme \<Rightarrow> (extra_data \<times> 'a extras_state_scheme) option" where
  "choose_token w s =
     do { (auto, s1) \<leftarrow>
            (if extras s = [] then Some (True, s)
             else if a_extras s = [] then Some (False, s)
             else do { (c, s1) \<leftarrow> draw w 2 s; Some (c \<noteq> 0, s1) });
          let xs = (if auto then a_extras s1 else extras s1);
          (k, s2) \<leftarrow> draw w (length xs) s1;
          e \<leftarrow> get_at xs k;
          Some (e, s2) }"

definition havoc_over_extra :: "'w world_scheme \<Rightarrow> 'a edit" where
  "havoc_over_extra w l s =
     do { (e, s1) \<leftarrow> choose_token w s;
          let n = unat (x_len e);
          if n > temp_len l then Some (l, s1)
          else do {
            (at_pos, s2) \<leftarrow> draw w (temp_len l - n + 1) s1;
            edit_buf (do { d \<leftarrow> slice (x_data e) 0 n; put (out_buf l) at_pos d }) l s2 } }"

definition havoc_insert_extra :: "'w world_scheme \<Rightarrow> 'a edit" where
  "havoc_insert_extra w l s =
     do { (at_pos, s1) \<leftarrow> draw w (temp_len l + 1) s;
          (e, s2) \<leftarrow> choose_token w s1;
          let n = unat (x_len e);
          if temp_len l + n \<ge> MAX_FILE then Some (l, s2)
          else do { d \<leftarrow> slice (x_data e) 0 n; insert_part at_pos d l s2 } }"

text \<open>\<^verbatim>\<open>switch (UR(15 + ...))\<close>.\<close>

definition havoc_edit :: "'w world_scheme \<Rightarrow> nat \<Rightarrow> 'a edit" where
  "havoc_edit w k =
     (if k = 0 then havoc_flip w else if k = 1 then havoc_set8 w
      else if k = 2 then havoc_set16 w else if k = 3 then havoc_set32 w
      else if k = 4 \<or> k = 5 then havoc_arith8 (k = 4) w
      else if k = 6 \<or> k = 7 then havoc_arith16 (k = 6) w
      else if k = 8 \<or> k = 9 then havoc_arith32 (k = 8) w
      else if k = 10 then havoc_xor w
      else if k = 11 \<or> k = 12 then havoc_delete w
      else if k = 13 then havoc_clone w
      else if k = 14 then havoc_overwrite w
      else if k = 15 then havoc_over_extra w
      else havoc_insert_extra w)"

section \<open>The stage\<close>

definition HAVOC_STACK_POW2 :: nat where "HAVOC_STACK_POW2 = 7"
definition HAVOC_CYCLES :: u32 where "HAVOC_CYCLES = 256"
definition HAVOC_CYCLES_INIT :: u32 where "HAVOC_CYCLES_INIT = 1024"
definition HAVOC_MIN :: int where "HAVOC_MIN = 16"
definition SPLICE_CYCLES :: u32 where "SPLICE_CYCLES = 15"
definition SPLICE_HAVOC :: u32 where "SPLICE_HAVOC = 32"

fun havoc_stack :: "'w world_scheme \<Rightarrow> nat \<Rightarrow> 'a edit" where
  "havoc_stack w 0 l s = Some (l, s)"
| "havoc_stack w (Suc n) l s =
     do { (k, s1) \<leftarrow> draw w (if extras s = [] \<and> a_extras s = [] then 15 else 17) s;
          (l1, s2) \<leftarrow> havoc_edit w k l s1;
          havoc_stack w n l1 s2 }"

text \<open>The buffer gets its original size and contents back.\<close>

definition restore_buf :: "fuzz_locals \<Rightarrow> fuzz_locals option" where
  "restore_buf l =
     do { d \<leftarrow> slice (in_buf l) 0 (f_len l);
          let b = (if temp_len l < f_len l then take (f_len l) (out_buf l @ replicate (f_len l) 0) else out_buf l);
          buf \<leftarrow> put b 0 d;
          Some (l\<lparr>out_buf := buf, temp_len := f_len l\<rparr>) }"

text \<open>New finds prolong the stage, within limits.\<close>

definition prolong :: "'a fuzz_step" where
  "prolong l s =
     (if ucast (queued_paths s) \<noteq> havoc_queued l
      then (let more = (perf_score l \<le> HAVOC_MAX_MULT * 100) in
            continue (l\<lparr>perf_score := (if more then perf_score l * 2 else perf_score l),
                        havoc_queued := ucast (queued_paths s)\<rparr>)
                     (s\<lparr>stage_max := (if more then stage_max s * 2 else stage_max s)\<rparr>))
      else continue l s)"

definition havoc_round :: "'w fuzz_world_scheme \<Rightarrow> 'a fuzz_step" where
  "havoc_round w l s =
     do { (p, s1) \<leftarrow> draw w HAVOC_STACK_POW2 s;
          let use_stacking = (2 :: nat) ^ (1 + p);
          (l1, s2) \<leftarrow> havoc_stack w use_stacking l (s1\<lparr>stage_cur_val := int use_stacking\<rparr>);
          andthen (common_fuzz_stuff w (out_buf l1) (of_nat (temp_len l1)) s2)
            (\<lambda>(stop, s3).
               if stop then Some (Inr (True, l1, s3))
               else do { l2 \<leftarrow> restore_buf l1; prolong l2 s3 }) }"

text \<open>The number of rounds: the score of the entry, times the factor from its proximity to the target.\<close>

definition havoc_begin :: "'w fuzz_world_scheme \<Rightarrow> nat \<Rightarrow> 'a fuzz_step" where
  "havoc_begin w q l s0 =
     do { e \<leftarrow> entries s0 q;
          let s = s0\<lparr>stage_cur_byte := -1\<rparr>;
          (cycles, prox, base) \<leftarrow>
            (if splice_cycle l = 0
             then Some (if doing_det l then HAVOC_CYCLES_INIT else HAVOC_CYCLES, q_prox_score e, perf_score l)
             else do { t \<leftarrow> splice_target l; et \<leftarrow> entries s t;
                       Some (SPLICE_HAVOC, (q_prox_score e + q_prox_score et) div 2, orig_perf l) });
          let (factor, s1) = calculate_factor w prox s;
          let p = scale_score factor base;
          if havoc_div s1 = 0 then None
          else
            let mx = sint (cycles * p div havoc_div s1 div 100) in
            continue (l\<lparr>perf_score := p, temp_len := f_len l, orig_hit_cnt := hits s1,
                        havoc_queued := ucast (queued_paths s1)\<rparr>)
              (s1\<lparr>stage_name := (if splice_cycle l = 0 then ''havoc'' else ''splice '' @ dec (unat (splice_cycle l))),
                  stage_short := (if splice_cycle l = 0 then ''havoc'' else ''splice''),
                  stage_max := (if mx < HAVOC_MIN then HAVOC_MIN else mx), stage_cur := 0\<rparr>) }"

definition havoc_stage :: "'w fuzz_world_scheme \<Rightarrow> nat \<Rightarrow> 'a fuzz_step" where
  "havoc_stage w q =
     bail (havoc_begin w q)
       (bail (stage_loop (havoc_round w)) (\<lambda>l. stage_end (if splice_cycle l = 0 then 15 else 16) l))"

section \<open>Splicing\<close>

text \<open>\<^verbatim>\<open>locate_diffs\<close>: the first and the last position where the buffers differ, or -1.\<close>

fun locate_diffs_loop :: "nat \<Rightarrow> nat \<Rightarrow> u8 list \<Rightarrow> u8 list \<Rightarrow> int \<Rightarrow> int \<Rightarrow> (int \<times> int) option" where
  "locate_diffs_loop 0 pos p1 p2 f_loc l_loc = Some (f_loc, l_loc)"
| "locate_diffs_loop (Suc n) pos p1 p2 f_loc l_loc =
     do { a \<leftarrow> get_at p1 pos;
          b \<leftarrow> get_at p2 pos;
          if a \<noteq> b
          then locate_diffs_loop n (pos + 1) p1 p2 (if f_loc = -1 then int pos else f_loc) (int pos)
          else locate_diffs_loop n (pos + 1) p1 p2 f_loc l_loc }"

definition locate_diffs :: "u8 list \<Rightarrow> u8 list \<Rightarrow> nat \<Rightarrow> (int \<times> int) option" where
  "locate_diffs p1 p2 n = locate_diffs_loop n 0 p1 p2 (-1) (-1)"

text \<open>\<^verbatim>\<open>while (idx--) target = target->next;\<close>: running off the list is a memory fault.\<close>

fun walk_next :: "nat \<Rightarrow> nat option \<Rightarrow> entry_heap \<Rightarrow> nat option option" where
  "walk_next 0 p h = Some p"
| "walk_next (Suc n) None h = None"
| "walk_next (Suc n) (Some p) h = do { e \<leftarrow> h p; walk_next n (q_next e) h }"

partial_function (option) skip_short :: "nat \<Rightarrow> nat option \<Rightarrow> entry_heap \<Rightarrow> nat option option" where
  "skip_short q target h =
     (case target of
        None \<Rightarrow> Some None
      | Some t \<Rightarrow> do { e \<leftarrow> h t; if q_len e < 2 \<or> t = q then skip_short q (q_next e) h else Some (Some t) })"

definition pick_target ::
  "'w world_scheme \<Rightarrow> nat \<Rightarrow> 'a fuzz_state_scheme \<Rightarrow> (nat option \<times> 'a fuzz_state_scheme) option" where
  "pick_target w q s =
     do { (idx, s1) \<leftarrow> UR w (queued_paths s) s;
          let idx_div = idx div 100;
          (t0, k) \<leftarrow>
            (if idx_div < 1024
             then do { t \<leftarrow> get_at (shortcut_per_100 s1) (unat idx_div); Some (t, idx - idx_div * 100) }
             else do { t \<leftarrow> get_at (shortcut_per_100 s1) 1023; Some (t, idx - idx_div * 1024) });
          t1 \<leftarrow> walk_next (unat k) t0 (entries s1);
          t2 \<leftarrow> skip_short q t1 (entries s1);
          Some (t2, s1) }"

text \<open>Prefix of the input and suffix of the target, split where they differ; \<open>None\<close> to try another.\<close>

definition splice_with ::
  "'w world_scheme \<Rightarrow> nat \<Rightarrow> fuzz_locals \<Rightarrow> 'a fuzz_state_scheme \<Rightarrow>
   (fatal + fuzz_locals option \<times> 'a fuzz_state_scheme) option" where
  "splice_with w t l s =
     do { e \<leftarrow> entries s t;
          let s1 = s\<lparr>splicing_with := sint (q_entry_id e)\<rparr>;
          case disk s1 (q_fname e) of
            None \<Rightarrow> Some (Inl (PFATAL ''Unable to open'' (q_fname e)))
          | Some f \<Rightarrow>
              if length f < unat (q_len e) then Some (Inl (FATAL ''Short read''))
              else do {
                let new_buf = take (unat (q_len e)) f;
                (f_diff, l_diff) \<leftarrow> locate_diffs (in_buf l) new_buf (min (f_len l) (unat (q_len e)));
                if f_diff < 0 \<or> l_diff < 2 \<or> f_diff = l_diff then Some (Inr (None, s1))
                else do {
                  (r, s2) \<leftarrow> draw w (nat (l_diff - f_diff)) s1;
                  let split_at = nat f_diff + r;
                  head \<leftarrow> slice (in_buf l) 0 split_at;
                  buf \<leftarrow> put new_buf 0 head;
                  Some (Inr (Some (l\<lparr>f_len := unat (q_len e), in_buf := buf, out_buf := buf,
                                     splice_target := Some t\<rparr>), s2)) } } }"

end
