(* ===== verification/Afl_FuzzOne.thy ===== *)
theory Afl_FuzzOne
  imports Afl_Havoc
begin

text \<open>
  \<^verbatim>\<open>fuzz_one\<close>: the choice to skip an entry, loading, late calibration, trimming, scoring, then the
  deterministic, the random and the splicing stages, and the bookkeeping at the end.
\<close>

section \<open>Skipping\<close>

definition SKIP_TO_NEW_PROB :: u32 where "SKIP_TO_NEW_PROB = 99"
definition SKIP_NFAV_OLD_PROB :: u32 where "SKIP_NFAV_OLD_PROB = 95"
definition SKIP_NFAV_NEW_PROB :: u32 where "SKIP_NFAV_NEW_PROB = 75"

definition skip_by_chance :: "'w world_scheme \<Rightarrow> u32 \<Rightarrow> 'a fuzz_state_scheme \<Rightarrow> (bool \<times> 'a fuzz_state_scheme) option" where
  "skip_by_chance w prob s = do { (r, s1) \<leftarrow> UR w 100 s; Some (r < prob, s1) }"

definition skip_entry ::
  "'w world_scheme \<Rightarrow> queue_entry \<Rightarrow> 'a fuzz_state_scheme \<Rightarrow> (bool \<times> 'a fuzz_state_scheme) option" where
  "skip_entry w e s =
     (if pending_favored s \<noteq> 0
      then (if q_was_fuzzed e \<or> \<not> q_favored e then skip_by_chance w SKIP_TO_NEW_PROB s else Some (False, s))
      else if dumb_mode s = 0 \<and> \<not> q_favored e \<and> queued_paths s > 10
      then (if queue_cycle s > 1 \<and> \<not> q_was_fuzzed e then skip_by_chance w SKIP_NFAV_NEW_PROB s
            else skip_by_chance w SKIP_NFAV_OLD_PROB s)
      else Some (False, s))"

section \<open>Preparing an entry\<close>

text \<open>Calibration, only if it failed earlier; the result is \<open>True\<close> to give the entry up.\<close>

definition late_calibration ::
  "'w fuzz_world_scheme \<Rightarrow> nat \<Rightarrow> u8 list \<Rightarrow> 'a fuzz_state_scheme \<Rightarrow>
   (fatal + bool \<times> 'a fuzz_state_scheme) option" where
  "late_calibration w q buf s =
     do { e \<leftarrow> entries s q;
          if q_cal_failed e = 0 then Some (Inr (False, s))
          else andthen
            (if q_cal_failed e < CAL_CHANCES
             then andthen (calibrate_case w q buf (ucast (queue_cycle s - 1)) False
                             (s\<lparr>entries := (entries s)(q \<mapsto> e\<lparr>q_exec_cksum := 0\<rparr>)\<rparr>))
                    (\<lambda>(res, s1). if res = FAULT_ERROR then Some (Inl (FATAL ''Unable to execute target application''))
                                else Some (Inr (res, s1)))
             else Some (Inr (FAULT_TMOUT, s)))
            (\<lambda>(res, s1).
               if stop_soon s1 \<noteq> 0 \<or> res \<noteq> crash_mode s1
               then Some (Inr (True, s1\<lparr>cur_skipped_paths := cur_skipped_paths s1 + 1\<rparr>))
               else Some (Inr (False, s1))) }"

definition trim_entry ::
  "'w fuzz_world_scheme \<Rightarrow> nat \<Rightarrow> u8 list \<Rightarrow> 'a fuzz_state_scheme \<Rightarrow>
   (fatal + (bool \<times> u8 list) \<times> 'a fuzz_state_scheme) option" where
  "trim_entry w q buf s =
     do { e \<leftarrow> entries s q;
          if dumb_mode s \<noteq> 0 \<or> q_trim_done e then Some (Inr ((False, buf), s))
          else andthen (trim_case w q buf s)
            (\<lambda>((res, buf1), s1).
               if res = FAULT_ERROR then Some (Inl (FATAL ''Unable to execute target application''))
               else if stop_soon s1 \<noteq> 0
               then Some (Inr ((True, buf1), s1\<lparr>cur_skipped_paths := cur_skipped_paths s1 + 1\<rparr>))
               else do { h \<leftarrow> upd_entry q (q_trim_done_update (\<lambda>_. True)) (entries s1);
                         Some (Inr ((False, buf1), s1\<lparr>entries := h\<rparr>)) }) }"

text \<open>Whether the deterministic stages are left out.\<close>

definition skip_det :: "queue_entry \<Rightarrow> 'a fuzz_state_scheme \<Rightarrow> bool" where
  "skip_det e s \<longleftrightarrow> skip_deterministic s \<or> q_was_fuzzed e \<or> q_passed_det e \<or>
     (master_max s \<noteq> 0 \<and> q_exec_cksum e mod master_max s \<noteq> master_id s - 1)"

definition start_locals :: "u8 list \<Rightarrow> nat \<Rightarrow> nat \<Rightarrow> u32 \<Rightarrow> fuzz_locals" where
  "start_locals buf old_len new_len perf =
     \<lparr>orig_in = buf, in_buf = buf, out_buf = take new_len buf @ replicate (old_len - new_len) 0,
      f_len = new_len, eff_map = [], eff_cnt = 1, a_collect = replicate MAX_AUTO_EXTRA 0, a_len = 0,
      prev_cksum = 0, orig_hit_cnt = 0, new_hit_cnt = 0, last_len = 0, ex_tmp = [], doing_det = False,
      perf_score = perf, orig_perf = perf, splice_cycle = 0, temp_len = new_len, havoc_queued = 0,
      splice_target = None\<rparr>"

section \<open>Havoc and splicing\<close>

text \<open>\<open>havoc\<close> is \<open>False\<close> for \<^verbatim>\<open>goto retry_splicing\<close>.\<close>

partial_function (option) havoc_and_splice :: "'w fuzz_world_scheme \<Rightarrow> nat \<Rightarrow> bool \<Rightarrow> 'a fuzz_step" where
  "havoc_and_splice w q havoc l s =
     andthen (if havoc then havoc_stage w q l s else continue l s)
       (\<lambda>(stop, l1, s1).
          if stop then Some (Inr (True, l1, s1))
          else do {
            e \<leftarrow> entries s1 q;
            if use_splicing s1 \<and> splice_cycle l1 < SPLICE_CYCLES \<and> queued_paths s1 > 1 \<and> q_len e > 1
            then do {
              let l2 = l1\<lparr>splice_cycle := splice_cycle l1 + 1, in_buf := orig_in l1, f_len := unat (q_len e)\<rparr>;
              (target, s2) \<leftarrow> pick_target w q s1;
              case target of
                None \<Rightarrow> havoc_and_splice w q False l2 s2
              | Some t \<Rightarrow> andthen (splice_with w t l2 s2)
                  (\<lambda>(spliced, s3).
                     case spliced of
                       None \<Rightarrow> havoc_and_splice w q False l2 s3
                     | Some l3 \<Rightarrow> havoc_and_splice w q True l3 s3) }
            else Some (Inr (False, l1, s1)) })"

section \<open>The whole\<close>

definition abandon_entry :: "nat \<Rightarrow> 'a fuzz_state_scheme \<Rightarrow> 'a fuzz_state_scheme option" where
  "abandon_entry q s =
     do { e \<leftarrow> entries s q;
          let s1 = s\<lparr>splicing_with := -1\<rparr>;
          Some (if stop_soon s1 = 0 \<and> q_cal_failed e = 0 \<and> \<not> q_was_fuzzed e
                then s1\<lparr>entries := (entries s1)(q \<mapsto> e\<lparr>q_was_fuzzed := True\<rparr>),
                        pending_not_fuzzed := pending_not_fuzzed s1 - 1,
                        pending_favored := (if q_favored e then pending_favored s1 - 1 else pending_favored s1)\<rparr>
                else s1) }"

definition fuzz_stages ::
  "'w fuzz_world_scheme \<Rightarrow> nat \<Rightarrow> u8 list \<Rightarrow> nat \<Rightarrow> 'a fuzz_state_scheme \<Rightarrow>
   (fatal + bool \<times> 'a fuzz_state_scheme) option" where
  "fuzz_stages w q buf old_len s =
     do { (perf, s1) \<leftarrow> calculate_score q s;
          e \<leftarrow> entries s1 q;
          let l = start_locals buf old_len (unat (q_len e)) perf;
          andthen (bail (if skip_det e s1 then continue else det_stages w q) (havoc_and_splice w q True) l s1)
            (\<lambda>(stop, l1, s2). Some (Inr (stop, s2))) }"

text \<open>The result is \<open>True\<close> (1 in the code) when the entry was skipped or given up.\<close>

definition fuzz_one ::
  "'w fuzz_world_scheme \<Rightarrow> 'a fuzz_state_scheme \<Rightarrow> (fatal + bool \<times> 'a fuzz_state_scheme) option" where
  "fuzz_one w s =
     do { q \<leftarrow> queue_cur s;
          e \<leftarrow> entries s q;
          (skip, s1) \<leftarrow> skip_entry w e s;
          if skip then Some (Inr (True, s1))
          else case disk s1 (q_fname e) of
            None \<Rightarrow> Some (Inl (PFATAL ''Unable to open'' (q_fname e)))
          | Some f \<Rightarrow>
              if q_len e = 0 then Some (Inl (PFATAL ''Unable to mmap'' (q_fname e)))
              else do {
                buf \<leftarrow> slice f 0 (unat (q_len e));
                andthen (late_calibration w q buf (s1\<lparr>subseq_tmouts := 0, cur_depth := ucast (q_depth e)\<rparr>))
                  (\<lambda>(give_up, s2).
                     andthen
                       (if give_up then Some (Inr (True, s2))
                        else andthen (trim_entry w q buf s2)
                          (\<lambda>((give_up1, buf1), s3).
                             if give_up1 then Some (Inr (True, s3))
                             else fuzz_stages w q buf1 (unat (q_len e)) s3))
                       (\<lambda>(ret, s4). map_option (\<lambda>s5. Inr (ret, s5)) (abandon_entry q s4))) } }"

end
