(* ===== verification/Afl_Dry.thy ===== *)
theory Afl_Dry
  imports Afl_Case
begin

text \<open>
  The start of a session: the dry run over the given inputs, with its verdict on each, and their
  move into the queue directory under names that record where they came from.
\<close>

section \<open>Dry run\<close>

text \<open>Whether the warning about the instrumentation is due: many bytes hit, none in the upper half.\<close>

definition check_map_coverage :: "'a bitmap_state_scheme \<Rightarrow> bool" where
  "check_map_coverage s \<longleftrightarrow>
     \<not> count_bytes (trace_bits s) < 100 \<and>
     list_all (\<lambda>b. b = 0) (drop (length (trace_bits s) div 2) (trace_bits s))"

text \<open>What the dry run makes of one result; it counts the inputs it sets aside.\<close>

definition set_aside :: "nat \<Rightarrow> string \<Rightarrow> u32 \<Rightarrow> 'a fuzz_state_scheme \<Rightarrow> (u32 \<times> 'a fuzz_state_scheme) option" where
  "set_aside q msg cal_failures s =
     do { h \<leftarrow> upd_entry q (q_cal_failed_update (\<lambda>_. CAL_CHANCES)) (entries s);
          Some (cal_failures + 1, warn msg s\<lparr>entries := h\<rparr>) }"

definition dry_verdict ::
  "'w fuzz_world_scheme \<Rightarrow> nat \<Rightarrow> fault \<Rightarrow> u32 \<Rightarrow> 'a fuzz_state_scheme \<Rightarrow>
   (fatal + u32 \<times> 'a fuzz_state_scheme) option" where
  "dry_verdict w q res cal_failures s =
     (case res of
        FAULT_NONE \<Rightarrow>
          let s1 = (if queue s = Some q \<and> check_map_coverage s then warn ''Recompile binary'' s else s) in
          if crash_mode s1 \<noteq> FAULT_NONE then Some (Inl (FATAL ''Test case does *NOT* crash''))
          else Some (Inr (cal_failures, s1))
      | FAULT_TMOUT \<Rightarrow>
          if timeout_given s > 1
          then map_option Inr (set_aside q ''Test case results in a timeout (skipping)'' cal_failures s)
          else Some (Inl (FATAL ''Test case results in a timeout''))
      | FAULT_CRASH \<Rightarrow>
          if crash_mode s \<noteq> FAULT_NONE then Some (Inr (cal_failures, s))
          else if w_getenv w ''AFL_SKIP_CRASHES''
          then map_option Inr (set_aside q ''Test case results in a crash (skipping)'' cal_failures s)
          else Some (Inl (FATAL ''Test case results in a crash''))
      | FAULT_ERROR \<Rightarrow> Some (Inl (FATAL ''Unable to execute target application''))
      | FAULT_NOINST \<Rightarrow> Some (Inl (FATAL ''No instrumentation detected''))
      | FAULT_NOBITS \<Rightarrow>
          let s1 = s\<lparr>useless_at_start := useless_at_start s + 1\<rparr> in
          Some (Inr (cal_failures,
                     if \<not> in_bitmap s1 \<and> \<not> shuffle_queue s1
                     then warn ''No new instrumentation output'' s1 else s1)))"

text \<open>The result is \<open>True\<close> when the user is stopping the fuzzer.\<close>

partial_function (option) dry_run_loop ::
  "'w fuzz_world_scheme \<Rightarrow> nat option \<Rightarrow> u32 \<Rightarrow> 'a fuzz_state_scheme \<Rightarrow>
   (fatal + bool \<times> u32 \<times> 'a fuzz_state_scheme) option" where
  "dry_run_loop w q cal_failures s =
     (case q of
        None \<Rightarrow> Some (Inr (False, cal_failures, s))
      | Some p \<Rightarrow> do {
          e \<leftarrow> entries s p;
          fn \<leftarrow> after_slash (q_fname e);
          case disk s (q_fname e) of
            None \<Rightarrow> Some (Inl (PFATAL ''Unable to open'' (q_fname e)))
          | Some d \<Rightarrow>
              if length d < unat (q_len e) then Some (Inl (FATAL ''Short read''))
              else andthen (calibrate_case w p (take (unat (q_len e)) d) 0 True s)
                (\<lambda>(res, s1).
                   if stop_soon s1 \<noteq> 0 then Some (Inr (True, cal_failures, s1))
                   else andthen (dry_verdict w p res cal_failures s1)
                     (\<lambda>(cf, s2). do {
                        e2 \<leftarrow> entries s2 p;
                        dry_run_loop w (q_next e2) cf
                          (if q_var_behavior e2 then warn ''Instrumentation output varies across runs'' s2 else s2) })) })"

definition perform_dry_run ::
  "'w fuzz_world_scheme \<Rightarrow> 'a fuzz_state_scheme \<Rightarrow> (fatal + 'a fuzz_state_scheme) option" where
  "perform_dry_run w s =
     andthen (dry_run_loop w (queue s) 0 s)
       (\<lambda>(stopped, cal_failures, s1).
          if stopped \<or> cal_failures = 0 then Some (Inr s1)
          else if cal_failures = queued_paths s1 then Some (Inl (FATAL ''All test cases time out, giving up!''))
          else
            let s2 = warn ''Skipped test cases due to timeouts'' s1 in
            Some (Inr (if cal_failures * 5 > queued_paths s2
                       then warn ''High percentage of rejected test cases, check settings!'' s2 else s2)))"

section \<open>Names of the initial inputs\<close>

text \<open>A hard link, or a copy into a new file.\<close>

definition link_or_copy :: "string \<Rightarrow> string \<Rightarrow> 'a extras_state_scheme \<Rightarrow> fatal + 'a extras_state_scheme" where
  "link_or_copy old_path new_path s =
     (case disk s old_path of
        None \<Rightarrow> Inl (PFATAL ''Unable to open'' old_path)
      | Some d \<Rightarrow> create_file new_path d s)"

text \<open>\<^verbatim>\<open>sscanf(s, "%06u", ...)\<close>: at most six characters, a sign among them, after white space.\<close>

definition char_digit :: "char \<Rightarrow> bool" where
  "char_digit c \<longleftrightarrow> c \<in> set ''0123456789''"

definition char_space :: "char \<Rightarrow> bool" where
  "char_space c \<longleftrightarrow> isspace (of_char c)"

definition scan_u6 :: "string \<Rightarrow> u32 option" where
  "scan_u6 str =
     (let s1 = take 6 (dropWhile char_space str);
          neg = (s1 \<noteq> [] \<and> hd s1 = CHR ''-'');
          s2 = (if s1 \<noteq> [] \<and> (hd s1 = CHR ''-'' \<or> hd s1 = CHR ''+'') then tl s1 else s1);
          ds = takeWhile char_digit s2;
          v = foldl (\<lambda>v c. 10 * v + (of_char c - 48)) 0 ds
      in if ds = [] then None else Some (word_of_int (if neg then - v else v)))"

text \<open>\<^verbatim>\<open>strstr\<close>: the text after the first occurrence of the pattern.\<close>

fun after_substr :: "string \<Rightarrow> string \<Rightarrow> string option" where
  "after_substr pat s =
     (if take (length pat) s = pat then Some (drop (length pat) s)
      else case s of [] \<Rightarrow> None | c # cs \<Rightarrow> after_substr pat cs)"

definition base_or_all :: "string \<Rightarrow> string" where
  "base_or_all fname = (case after_slash fname of None \<Rightarrow> fname | Some b \<Rightarrow> b)"

text \<open>\<^verbatim>\<open>while (src_id-- && s) s = s->next;\<close>\<close>

fun walk_queue :: "nat \<Rightarrow> nat option \<Rightarrow> entry_heap \<Rightarrow> nat option option" where
  "walk_queue 0 p h = Some p"
| "walk_queue (Suc n) None h = Some None"
| "walk_queue (Suc n) (Some p) h = do { e \<leftarrow> h p; walk_queue n (q_next e) h }"

text \<open>The depth a resumed entry gets from its parent, and the record depth.\<close>

definition inherit_depth :: "nat \<Rightarrow> u32 \<Rightarrow> 'a fuzz_state_scheme \<Rightarrow> 'a fuzz_state_scheme option" where
  "inherit_depth q src_id s =
     do { src \<leftarrow> walk_queue (unat src_id) (queue s) (entries s);
          e \<leftarrow> entries s q;
          d \<leftarrow> (case src of None \<Rightarrow> Some (q_depth e) | Some p \<Rightarrow> do { ep \<leftarrow> entries s p; Some (q_depth ep + 1) });
          Some (s\<lparr>entries := (entries s)(q \<mapsto> e\<lparr>q_depth := d\<rparr>),
                  max_depth := (if ucast (max_depth s) < d then ucast d else max_depth s)\<rparr>) }"

definition pivot_name :: "nat \<Rightarrow> u32 \<Rightarrow> string \<Rightarrow> 'a fuzz_state_scheme \<Rightarrow> (string \<times> 'a fuzz_state_scheme) option" where
  "pivot_name q num rsl s =
     (if take 3 rsl = ''id:'' \<and> scan_u6 (drop 3 rsl) = Some num
      then
        let s1 = s\<lparr>resuming_fuzz := True\<rparr>;
            src_str = dropWhile (\<lambda>c. c \<noteq> CHR '':'') (drop 3 rsl);
            src_id = (if src_str = [] then None else scan_u6 (tl src_str))
        in do { s2 \<leftarrow> (case src_id of None \<Rightarrow> Some s1 | Some i \<Rightarrow> inherit_depth q i s1);
                Some (''queue/'' @ rsl, s2) }
      else
        let use_name = (case after_substr '',orig:'' rsl of None \<Rightarrow> rsl | Some n \<Rightarrow> n)
        in Some (''queue/id:'' @ pad_to 6 (unat num) @ '',orig:'' @ use_name, s))"

partial_function (option) pivot_loop ::
  "nat option \<Rightarrow> u32 \<Rightarrow> 'a fuzz_state_scheme \<Rightarrow> (fatal + 'a fuzz_state_scheme) option" where
  "pivot_loop q num s =
     (case q of
        None \<Rightarrow> Some (Inr s)
      | Some p \<Rightarrow> do {
          e \<leftarrow> entries s p;
          (nfn, s1) \<leftarrow> pivot_name p num (base_or_all (q_fname e)) s;
          case link_or_copy (q_fname e) nfn s1 of
            Inl f \<Rightarrow> Some (Inl f)
          | Inr s2 \<Rightarrow> do {
              h \<leftarrow> upd_entry p (q_fname_update (\<lambda>_. nfn)) (entries s2);
              let s3 = s2\<lparr>entries := h\<rparr>;
              andthen (if q_passed_det e then mark_as_det_done p s3 else Some (Inr s3))
                (\<lambda>s4. do { e4 \<leftarrow> entries s4 p; pivot_loop (q_next e4) (num + 1) s4 }) } })"

definition pivot_inputs :: "'a fuzz_state_scheme \<Rightarrow> (fatal + 'a fuzz_state_scheme) option" where
  "pivot_inputs s = pivot_loop (queue s) 0 s"

end
