(* ===== verification/Afl_HavocSafe.thy ===== *)
theory Afl_HavocSafe
  imports Afl_Havoc
begin

text \<open>
  The random edits stay inside the buffer: whatever the generator draws, every edit is defined, and
  leaves a non-empty input of at most \<^verbatim>\<open>MAX_FILE\<close> bytes in a buffer that holds it.
\<close>

section \<open>The contract of an edit\<close>

definition rng_only :: "'a extras_state_scheme \<Rightarrow> 'a extras_state_scheme \<Rightarrow> bool" where
  "rng_only s s' \<longleftrightarrow> (\<exists>a b. s' = s\<lparr>rand_cnt := a, draws := b\<rparr>)"

definition buf_ok :: "fuzz_locals \<Rightarrow> bool" where
  "buf_ok l \<longleftrightarrow> 1 \<le> temp_len l \<and> temp_len l \<le> length (out_buf l) \<and> temp_len l \<le> MAX_FILE"

definition tokens_ok :: "'a extras_state_scheme \<Rightarrow> bool" where
  "tokens_ok s \<longleftrightarrow> length (extras s) < 2 ^ 31 \<and> length (a_extras s) < 2 ^ 31 \<and>
     list_all (\<lambda>e. unat (x_len e) \<le> length (x_data e)) (extras s @ a_extras s)"

definition draw_env :: "'a fuzz_state_scheme \<Rightarrow> bool" where
  "draw_env s \<longleftrightarrow> tokens_ok s \<and> (run_over10m s \<longrightarrow> queue_cycle s \<noteq> 0)"

definition safe ::
  "fuzz_locals \<Rightarrow> 'a fuzz_state_scheme \<Rightarrow> (fuzz_locals \<times> 'a fuzz_state_scheme) option \<Rightarrow> bool" where
  "safe l s r \<longleftrightarrow> (\<exists>b n s'. r = Some (l\<lparr>out_buf := b, temp_len := n\<rparr>, s') \<and>
     buf_ok (l\<lparr>out_buf := b, temp_len := n\<rparr>) \<and> rng_only s s')"

lemma rng_only_refl [simp, intro]: "rng_only s s"
  unfolding rng_only_def by (intro exI [of _ "rand_cnt s"] exI [of _ "draws s"]) simp

lemma rng_only_trans: "rng_only s t \<Longrightarrow> rng_only t u \<Longrightarrow> rng_only s u"
  unfolding rng_only_def by (elim exE, simp) blast

lemma rng_only_tokens [simp]: "rng_only s s' \<Longrightarrow> tokens_ok s' \<longleftrightarrow> tokens_ok s"
  by (auto simp: rng_only_def tokens_ok_def)

lemma rng_only_env [simp]: "rng_only s s' \<Longrightarrow> draw_env s' \<longleftrightarrow> draw_env s"
  by (auto simp: rng_only_def tokens_ok_def draw_env_def)

lemma rng_only_extras: "rng_only s s' \<Longrightarrow> extras s' = extras s \<and> a_extras s' = a_extras s"
  by (auto simp: rng_only_def)

lemma UR_rng_only: "UR w n s = Some (r, s') \<Longrightarrow> rng_only s s'"
proof -
  assume u: "UR w n s = Some (r, s')"
  have "\<exists>a. s' = s\<lparr>rand_cnt := a, draws := draws s + 1\<rparr>"
    using u by (auto simp: UR_def Let_def split: if_splits)
  then show ?thesis by (auto simp: rng_only_def)
qed

lemma draw_defined:
  assumes "0 < n" and "n < 2 ^ 32"
  shows "\<exists>r s'. draw w n s = Some (r, s') \<and> r < n \<and> rng_only s s'"
proof -
  have n: "unat (of_nat n :: u32) = n" using assms(2) by (simp add: unsigned_of_nat take_bit_nat_eq_self)
  then have "(of_nat n :: u32) \<noteq> 0" using assms(1) by force
  then obtain r s' where u: "UR w (of_nat n) s = Some (r, s')" using UR_defined by blast
  then have "unat r < n" using UR_less [OF u] n by (simp add: word_less_nat_alt)
  then show ?thesis using u UR_rng_only [OF u] by (simp add: draw_def)
qed

lemma block_len_defined:
  assumes "0 < n" and "n < 2 ^ 32" and "draw_env s"
  shows "\<exists>r s'. block_len w n s = Some (r, s') \<and> 1 \<le> r \<and> r \<le> n \<and> r \<le> 32768 \<and> rng_only s s'"
proof -
  have n: "unat (of_nat n :: u32) = n" using assms(2) by (simp add: unsigned_of_nat take_bit_nat_eq_self)
  then have "(of_nat n :: u32) \<noteq> 0" using assms(1) by force
  then obtain r s' where c: "choose_block_len w (of_nat n) s = Some (r, s')"
    "1 \<le> r" "r \<le> of_nat n" "r \<le> 32768"
    using choose_block_len_range [of "of_nat n" s w] assms(3) by (auto simp: draw_env_def)
  have "rng_only s s'"
    using c(1) by (auto simp: choose_block_len_def Let_def split: bind_splits if_splits
        dest!: UR_rng_only) (blast intro: rng_only_trans)+
  then show ?thesis using c n by (auto simp: block_len_def word_le_nat_alt)
qed

subsection \<open>Rules\<close>

named_theorems safe_rules \<open>one rule for each construct of the edits\<close>

lemma safe_draw [safe_rules]:
  assumes "rng_only s0 s" and "0 < n" and "n < 2 ^ 32"
    and "\<And>r s1. r < n \<Longrightarrow> rng_only s0 s1 \<Longrightarrow> safe l s0 (f (r, s1))"
  shows "safe l s0 (draw w n s \<bind> f)"
  using draw_defined [OF assms(2,3), of w s] assms(1,4) rng_only_trans [OF assms(1)] by fastforce

lemma safe_block [safe_rules]:
  assumes "rng_only s0 s" and "draw_env s0" and "0 < n" and "n < 2 ^ 32"
    and "\<And>r s1. 1 \<le> r \<Longrightarrow> r \<le> n \<Longrightarrow> r \<le> 32768 \<Longrightarrow> rng_only s0 s1 \<Longrightarrow> safe l s0 (f (r, s1))"
  shows "safe l s0 (block_len w n s \<bind> f)"
proof -
  have "draw_env s" using assms(1,2) by simp
  from block_len_defined [OF assms(3,4) this, of w] obtain r s' where
    "block_len w n s = Some (r, s')" "1 \<le> r" "r \<le> n" "r \<le> 32768" "rng_only s s'" by blast
  then show ?thesis using assms(5) rng_only_trans [OF assms(1)] by simp
qed

lemma safe_same [safe_rules]: "buf_ok l \<Longrightarrow> rng_only s0 s \<Longrightarrow> safe l s0 (Some (l, s))"
  unfolding safe_def by (intro exI [of _ "out_buf l"] exI [of _ "temp_len l"] exI [of _ s]) simp

lemma safe_edit_buf:
  assumes "buf_ok l" and "rng_only s0 s" and "length b = length (out_buf l)"
  shows "safe l s0 (edit_buf (Some b) l s)"
  unfolding safe_def edit_buf_def
  using assms by (intro exI [of _ b] exI [of _ "temp_len l"] exI [of _ s]) (simp add: buf_ok_def)

lemma safe_if [safe_rules]:
  "(c \<Longrightarrow> safe l s a) \<Longrightarrow> (\<not> c \<Longrightarrow> safe l s b) \<Longrightarrow> safe l s (if c then a else b)"
  by simp

text \<open>The accesses of the edits are inside the buffer.\<close>

lemma safe_set_at [safe_rules]:
  "buf_ok l \<Longrightarrow> rng_only s0 s \<Longrightarrow> i < temp_len l \<Longrightarrow> safe l s0 (edit_buf (set_at (out_buf l) i v) l s)"
  using safe_edit_buf [of l s0 s "(out_buf l)[i := v]"] by (simp add: buf_ok_def set_at_Some)

lemma safe_store [safe_rules]:
  "buf_ok l \<Longrightarrow> rng_only s0 s \<Longrightarrow> i + n \<le> temp_len l \<Longrightarrow> safe l s0 (edit_buf (store n (out_buf l) i v) l s)"
proof -
  assume a: "buf_ok l" "rng_only s0 s" "i + n \<le> temp_len l"
  then obtain b where b: "store n (out_buf l) i v = Some b" by (simp add: buf_ok_def store_Some)
  show ?thesis unfolding b using a by (intro safe_edit_buf) (simp_all add: store_length [OF b])
qed

lemma safe_put [safe_rules]:
  "buf_ok l \<Longrightarrow> rng_only s0 s \<Longrightarrow> i + length d \<le> temp_len l \<Longrightarrow> safe l s0 (edit_buf (put (out_buf l) i d) l s)"
proof -
  assume a: "buf_ok l" "rng_only s0 s" "i + length d \<le> temp_len l"
  then obtain b where b: "put (out_buf l) i d = Some b" by (simp add: buf_ok_def put_Some)
  show ?thesis unfolding b using a by (intro safe_edit_buf) (simp_all add: put_length [OF b])
qed

lemma safe_copy [safe_rules]:
  assumes "buf_ok l" and "rng_only s0 s" and "i + n \<le> temp_len l" and "j + n \<le> temp_len l"
  shows "safe l s0 (edit_buf (slice (out_buf l) i n \<bind> put (out_buf l) j) l s)"
proof -
  have "slice (out_buf l) i n = Some (take n (drop i (out_buf l)))" "length (take n (drop i (out_buf l))) = n"
    using assms by (auto simp: buf_ok_def slice_Some)
  then show ?thesis using safe_put [OF assms(1,2), of j "take n (drop i (out_buf l))"] assms(4) by simp
qed

lemma safe_get_at [safe_rules]:
  "buf_ok l \<Longrightarrow> i < temp_len l \<Longrightarrow> (\<And>v. safe l s (f v)) \<Longrightarrow> safe l s (get_at (out_buf l) i \<bind> f)"
  by (simp add: buf_ok_def get_at_Some)

lemma safe_load [safe_rules]:
  "buf_ok l \<Longrightarrow> i + n \<le> temp_len l \<Longrightarrow> (\<And>v. safe l s (f v)) \<Longrightarrow> safe l s (load n (out_buf l) i \<bind> f)"
  by (simp add: buf_ok_def load_Some)

lemma safe_slice [safe_rules]:
  "buf_ok l \<Longrightarrow> i + n \<le> temp_len l \<Longrightarrow> (\<And>d. length d = n \<Longrightarrow> safe l s (f d)) \<Longrightarrow>
     safe l s (slice (out_buf l) i n \<bind> f)"
  by (auto simp: buf_ok_def slice_Some)

lemma safe_flip [safe_rules]:
  assumes "buf_ok l" and "rng_only s0 s" and "k < 8 * temp_len l"
  shows "safe l s0 (edit_buf (FLIP_BIT (out_buf l) k) l s)"
proof -
  have "k div 8 < temp_len l" using assms(3) by (simp add: div_less_iff_less_mult mult.commute)
  then obtain b where b: "FLIP_BIT (out_buf l) k = Some b" "length b = length (out_buf l)"
    using assms(1) by (auto simp: FLIP_BIT_def shift3 buf_ok_def get_at_Some set_at_Some)
  show ?thesis unfolding b(1) using assms b(2) by (intro safe_edit_buf) simp_all
qed

lemma safe_insert [safe_rules]:
  assumes "buf_ok l" and "rng_only s0 s" and "at_pos \<le> temp_len l" and "temp_len l + length d \<le> MAX_FILE"
  shows "safe l s0 (insert_part at_pos d l s)"
proof -
  have "insert_part at_pos d l s = Some (l\<lparr>out_buf := take at_pos (out_buf l) @ d @
      take (temp_len l - at_pos) (drop at_pos (out_buf l)), temp_len := temp_len l + length d\<rparr>, s)"
    using assms by (simp add: insert_part_def buf_ok_def slice_Some)
  then show ?thesis
    unfolding safe_def using assms
    by (intro exI conjI) (auto simp: buf_ok_def)
qed

section \<open>Every edit is safe\<close>

lemma max_file: "MAX_FILE = 1048576" "unat HAVOC_BLK_XL = 32768"
  by (simp_all add: MAX_FILE_def HAVOC_BLK_XL_def)

lemma buf_ok_bounds: "buf_ok l \<Longrightarrow> 0 < temp_len l \<and> temp_len l \<le> 1048576"
  by (simp add: buf_ok_def max_file)

lemma interesting_lengths: "length interesting_8 = 9" "length interesting_16 = 19" "length interesting_32 = 27"
  by (simp_all add: interesting_8_def interesting_16_def interesting_32_def INTERESTING_8_def INTERESTING_16_def INTERESTING_32_def)

lemma simple_edits_safe:
  assumes "buf_ok l"
  shows "safe l s (havoc_flip w l s)" "safe l s (havoc_set8 w l s)" "safe l s (havoc_set16 w l s)"
    "safe l s (havoc_set32 w l s)" "safe l s (havoc_arith8 sub w l s)" "safe l s (havoc_arith16 sub w l s)"
    "safe l s (havoc_arith32 sub w l s)" "safe l s (havoc_xor w l s)"
  using assms buf_ok_bounds [OF assms]
  unfolding havoc_flip_def havoc_set8_def havoc_set16_def havoc_set32_def havoc_arith8_def
    havoc_arith16_def havoc_arith32_def havoc_xor_def
  by (auto intro!: safe_rules simp: interesting_lengths ARITH_MAX_def)

text \<open>The edits that move blocks.\<close>

lemma safe_bind_pair:
  assumes "\<exists>x s1. m = Some (x, s1) \<and> P x \<and> rng_only s0 s1"
    and "\<And>x s1. P x \<Longrightarrow> rng_only s0 s1 \<Longrightarrow> safe l s0 (f (x, s1))"
  shows "safe l s0 (m \<bind> f)"
  using assms by auto

lemma filler_defined:
  assumes "buf_ok l" and "rng_only s0 s"
  shows "\<exists>b s1. filler w l s = Some (b, s1) \<and> True \<and> rng_only s0 s1"
proof -
  obtain c s1 where c: "draw w 2 s = Some (c, s1)" "rng_only s s1" using draw_defined [of 2 w s] by auto
  obtain b s2 where b: "draw w 256 s1 = Some (b, s2)" "rng_only s1 s2" using draw_defined [of 256 w s1] by auto
  obtain p s3 where p: "draw w (temp_len l) s1 = Some (p, s3)" "p < temp_len l" "rng_only s1 s3"
    using draw_defined [of "temp_len l" w s1] buf_ok_bounds [OF assms(1)] by auto
  have "p < length (out_buf l)" using p(2) assms(1) by (simp add: buf_ok_def)
  then show ?thesis
    using b c p rng_only_trans [OF assms(2)] rng_only_trans [OF c(2)]
    by (auto simp: filler_def get_at_Some)
qed

lemma safe_filler [safe_rules]:
  assumes "buf_ok l" and "rng_only s0 s" and "\<And>b s1. rng_only s0 s1 \<Longrightarrow> safe l s0 (f (b, s1))"
  shows "safe l s0 (filler w l s \<bind> f)"
  by (rule safe_bind_pair [OF filler_defined [OF assms(1,2)]]) (rule assms(3))

lemma safe_if_bind [safe_rules]:
  "(c \<Longrightarrow> safe l s (a \<bind> f)) \<Longrightarrow> (\<not> c \<Longrightarrow> safe l s (b \<bind> f)) \<Longrightarrow> safe l s ((if c then a else b) \<bind> f)"
  by simp

lemma safe_assoc [safe_rules]: "safe l s (m \<bind> (\<lambda>x. g x \<bind> f)) \<Longrightarrow> safe l s ((m \<bind> g) \<bind> f)"
  by simp

lemma safe_move_down [safe_rules]:
  assumes "buf_ok l" and "rng_only s0 s" and "1 \<le> n" and "n < temp_len l" and "k \<le> temp_len l - n"
  shows "safe l s0 (move_down (out_buf l) k n (temp_len l - (k + n)) \<bind>
      (\<lambda>buf. Some (l\<lparr>out_buf := buf, temp_len := temp_len l - n\<rparr>, s)))"
proof -
  have "k + n + (temp_len l - (k + n)) \<le> length (out_buf l)" using assms by (simp add: buf_ok_def)
  then obtain b where "move_down (out_buf l) k n (temp_len l - (k + n)) = Some b" "length b = length (out_buf l)"
    using assms by (fastforce simp: move_down_def slice_Some put_Some buf_ok_def)
  then show ?thesis
    using assms unfolding safe_def by (intro exI conjI) (auto simp: buf_ok_def)
qed

lemma block_edits_safe:
  assumes "buf_ok l" and "draw_env s"
  shows "safe l s (havoc_delete w l s)" "safe l s (havoc_clone w l s)" "safe l s (havoc_overwrite w l s)"
proof -
  note b = buf_ok_bounds [OF assms(1)]
  show "safe l s (havoc_delete w l s)"
    unfolding havoc_delete_def using assms b by (auto intro!: safe_rules)
  show "safe l s (havoc_clone w l s)"
  proof (cases "temp_len l + unat HAVOC_BLK_XL < MAX_FILE")
    case False
    then show ?thesis using assms by (simp add: havoc_clone_def safe_same)
  next
    case True
    then have room: "temp_len l + 32768 < MAX_FILE" by (simp add: max_file)
    show ?thesis
      unfolding havoc_clone_def
    proof (simp only: True not_True_eq_False if_False, rule safe_draw, simp_all only: rng_only_refl prod.case)
      fix c and s1 assume "rng_only s s1"
      then show "safe l s (do {
        (clone_len, clone_from, s2) \<leftarrow>
          (if c \<noteq> 0
           then do { (n, s2) \<leftarrow> block_len w (temp_len l) s1;
                     (from, s3) \<leftarrow> draw w (temp_len l - n + 1) s2; Some (n, from, s3) }
           else do { (n, s2) \<leftarrow> block_len w (unat HAVOC_BLK_XL) s1; Some (n, 0, s2) });
        (clone_to, s3) \<leftarrow> draw w (temp_len l) s2;
        (d, s4) \<leftarrow>
          (if c \<noteq> 0
           then do { d \<leftarrow> slice (out_buf l) clone_from clone_len; Some (d, s3) }
           else do { (b, s4) \<leftarrow> filler w l s3; Some (replicate clone_len b, s4) });
        insert_part clone_to d l s4 })"
        using assms b room
        by (cases "c = 0") (auto intro!: safe_block safe_draw safe_filler safe_slice safe_insert simp: max_file(2))
    qed simp_all
  qed
  show "safe l s (havoc_overwrite w l s)"
    unfolding havoc_overwrite_def using assms b by (auto intro!: safe_rules)
qed

text \<open>The edits with tokens, which are drawn only when there are some.\<close>

lemma choose_token_defined:
  assumes "tokens_ok s" and "extras s \<noteq> [] \<or> a_extras s \<noteq> []"
  shows "\<exists>e s1. choose_token w s = Some (e, s1) \<and> unat (x_len e) \<le> length (x_data e) \<and> rng_only s s1"
proof -
  obtain auto s1 where c: "(if extras s = [] then Some (True, s)
             else if a_extras s = [] then Some (False, s)
             else do { (c, s1) \<leftarrow> draw w 2 s; Some (c \<noteq> 0, s1) }) = Some (auto, s1)" "rng_only s s1"
    and ne: "(if auto then a_extras s else extras s) \<noteq> []"
    using draw_defined [of 2 w s] assms(2)
    by (cases "extras s = []"; cases "a_extras s = []") fastforce+
  define xs where "xs = (if auto then a_extras s1 else extras s1)"
  have xs: "xs \<noteq> []" "length xs < 2 ^ 32" "list_all (\<lambda>e. unat (x_len e) \<le> length (x_data e)) xs"
    using ne assms(1) rng_only_extras [OF c(2)] by (auto simp: xs_def tokens_ok_def)
  then obtain k s2 where k: "draw w (length xs) s1 = Some (k, s2)" "k < length xs" "rng_only s1 s2"
    using draw_defined [of "length xs" w s1] by auto
  then have "unat (x_len (xs ! k)) \<le> length (x_data (xs ! k))" using xs(3) by (simp add: list_all_length)
  then show ?thesis
    using c(1) k rng_only_trans [OF c(2) k(3)]
    by (simp add: choose_token_def flip: xs_def) (simp add: get_at_Some)
qed

lemma safe_choose_token [safe_rules]:
  assumes "rng_only s0 s" and "draw_env s0" and "extras s0 \<noteq> [] \<or> a_extras s0 \<noteq> []"
    and "\<And>e s1. unat (x_len e) \<le> length (x_data e) \<Longrightarrow> rng_only s0 s1 \<Longrightarrow> safe l s0 (f (e, s1))"
  shows "safe l s0 (choose_token w s \<bind> f)"
proof -
  have "tokens_ok s" "extras s \<noteq> [] \<or> a_extras s \<noteq> []"
    using assms(1-3) rng_only_extras [OF assms(1)] by (auto simp: draw_env_def)
  from choose_token_defined [OF this, of w] obtain e s1 where
    "choose_token w s = Some (e, s1)" "unat (x_len e) \<le> length (x_data e)" "rng_only s s1" by blast
  then show ?thesis using assms(4) rng_only_trans [OF assms(1)] by simp
qed

lemma token_edits_safe:
  assumes "buf_ok l" and "draw_env s" and "extras s \<noteq> [] \<or> a_extras s \<noteq> []"
  shows "safe l s (havoc_over_extra w l s)" "safe l s (havoc_insert_extra w l s)"
proof -
  note b = buf_ok_bounds [OF assms(1)]
  show "safe l s (havoc_over_extra w l s)"
    unfolding havoc_over_extra_def
  proof (rule safe_choose_token [OF rng_only_refl assms(2,3)], simp only: prod.case Let_def, rule safe_if)
    fix e s1 assume e: "unat (x_len e) \<le> length (x_data e)" "rng_only s s1"
    show "safe l s (Some (l, s1))" using assms(1) e(2) by (rule safe_same)
    assume "\<not> temp_len l < unat (x_len e)"
    then show "safe l s (draw w (temp_len l - unat (x_len e) + 1) s1 \<bind>
        (\<lambda>(at_pos, s2). edit_buf (slice (x_data e) 0 (unat (x_len e)) \<bind> (\<lambda>d. put (out_buf l) at_pos d)) l s2))"
      using assms(1) e b by (intro safe_draw) (auto intro: safe_put simp: slice_Some)
  qed
  have body: "safe l s (choose_token w s1 \<bind> (\<lambda>(e, s2). let n = unat (x_len e) in
        if MAX_FILE \<le> temp_len l + n then Some (l, s2)
        else slice (x_data e) 0 n \<bind> (\<lambda>d. insert_part k d l s2)))"
    if k: "k < temp_len l + 1" "rng_only s s1" for k s1
  proof (rule safe_choose_token [OF k(2) assms(2,3)], simp only: prod.case Let_def, rule safe_if)
    fix e s2 assume e: "unat (x_len e) \<le> length (x_data e)" "rng_only s s2"
    show "safe l s (Some (l, s2))" using assms(1) e(2) by (rule safe_same)
    assume "\<not> MAX_FILE \<le> temp_len l + unat (x_len e)"
    then show "safe l s (slice (x_data e) 0 (unat (x_len e)) \<bind> (\<lambda>d. insert_part k d l s2))"
      using assms(1) e k(1) by (simp add: slice_Some) (intro safe_insert, auto)
  qed
  show "safe l s (havoc_insert_extra w l s)"
    unfolding havoc_insert_extra_def
    by (rule safe_draw [OF rng_only_refl]) (use b body in simp_all)
qed

lemma havoc_edit_safe:
  assumes "buf_ok l" and "draw_env s" and "k < (if extras s = [] \<and> a_extras s = [] then 15 else 17)"
  shows "safe l s (havoc_edit w k l s)"
proof -
  have "k < 15 \<or> extras s \<noteq> [] \<or> a_extras s \<noteq> []" "k < 17" using assms(3) by (auto split: if_splits)
  moreover have "k = 0 \<or> k = 1 \<or> k = 2 \<or> k = 3 \<or> k = 4 \<or> k = 5 \<or> k = 6 \<or> k = 7 \<or> k = 8 \<or> k = 9 \<or> k = 10 \<or>
      k = 11 \<or> k = 12 \<or> k = 13 \<or> k = 14 \<or> k = 15 \<or> k = 16"
    using calculation(2) by arith
  ultimately show ?thesis
    using simple_edits_safe [OF assms(1)] block_edits_safe [OF assms(1,2)] token_edits_safe [OF assms(1,2)]
    unfolding havoc_edit_def by (elim disjE) simp_all
qed

lemma havoc_stack_safe:
  assumes "buf_ok l" and "draw_env s"
  shows "safe l s (havoc_stack w n l s)"
  using assms
proof (induction n arbitrary: l s)
  case 0
  then show ?case by (simp add: safe_same)
next
  case (Suc n)
  define m where "m = (if extras s = [] \<and> a_extras s = [] then 15 else 17 :: nat)"
  have "0 < m" "m < 2 ^ 32" by (simp_all add: m_def)
  then obtain k s1 where k: "draw w m s = Some (k, s1)" "k < m" "rng_only s s1"
    using draw_defined [of m w s] by blast
  have "k < (if extras s1 = [] \<and> a_extras s1 = [] then 15 else 17)"
    using k(2) rng_only_extras [OF k(3)] by (simp add: m_def)
  then have "safe l s1 (havoc_edit w k l s1)" using Suc.prems k(3) by (intro havoc_edit_safe) simp_all
  then obtain b i s2 where e: "havoc_edit w k l s1 = Some (l\<lparr>out_buf := b, temp_len := i\<rparr>, s2)"
    "buf_ok (l\<lparr>out_buf := b, temp_len := i\<rparr>)" "rng_only s1 s2" by (auto simp: safe_def)
  have "draw_env s2" using Suc.prems k(3) e(3) by simp
  from Suc.IH [OF e(2) this] obtain b' m' s3 where r:
    "havoc_stack w n (l\<lparr>out_buf := b, temp_len := i\<rparr>) s2 = Some (l\<lparr>out_buf := b', temp_len := m'\<rparr>, s3)"
    "buf_ok (l\<lparr>out_buf := b', temp_len := m'\<rparr>)" "rng_only s2 s3" by (auto simp: safe_def)
  have "rng_only s s3" using rng_only_trans [OF rng_only_trans [OF k(3) e(3)] r(3)] .
  then show ?case unfolding safe_def using k(1) e(1) r(1,2) by (auto simp: m_def)
qed

text \<open>
  C19: whatever the generator draws and however many edits are stacked, none of them reads or writes
  outside the buffer or draws from an empty range; the input stays non-empty and within
  \<^verbatim>\<open>MAX_FILE\<close>, the tokens and all other state stay as they are.
\<close>

theorem havoc_stack_in_bounds:
  assumes "1 \<le> temp_len l" and "temp_len l \<le> length (out_buf l)" and "temp_len l \<le> MAX_FILE"
    and "tokens_ok s" and "run_over10m s \<Longrightarrow> queue_cycle s \<noteq> 0"
  shows "\<exists>b n s'. havoc_stack w k l s = Some (l\<lparr>out_buf := b, temp_len := n\<rparr>, s') \<and>
    1 \<le> n \<and> n \<le> length b \<and> n \<le> MAX_FILE \<and> (\<exists>c d. s' = s\<lparr>rand_cnt := c, draws := d\<rparr>)"
proof -
  have "buf_ok l" "draw_env s" using assms by (simp_all add: buf_ok_def draw_env_def)
  from havoc_stack_safe [OF this] show ?thesis by (auto simp: safe_def buf_ok_def rng_only_def)
qed

definition demo_locals :: fuzz_locals where
  "demo_locals =
     \<lparr>orig_in = [1, 2, 3, 4], in_buf = [1, 2, 3, 4], out_buf = [1, 2, 3, 4], f_len = 4, eff_map = [1],
      eff_cnt = 1, a_collect = replicate 32 0, a_len = 0, prev_cksum = 0, orig_hit_cnt = 0,
      new_hit_cnt = 0, last_len = 0, ex_tmp = [], doing_det = False, perf_score = 100, orig_perf = 100,
      splice_cycle = 0, temp_len = 4, havoc_queued = 0, splice_target = None\<rparr>"

theorem havoc_stack_in_bounds_witness:
  "\<exists>b n s'. havoc_stack demo_fuzz_world 64 demo_locals demo_fuzz = Some (demo_locals\<lparr>out_buf := b, temp_len := n\<rparr>, s') \<and>
     1 \<le> n \<and> n \<le> length b"
proof -
  have "1 \<le> temp_len demo_locals" "temp_len demo_locals \<le> length (out_buf demo_locals)"
    "temp_len demo_locals \<le> MAX_FILE" by (simp_all add: demo_locals_def MAX_FILE_def)
  moreover have "tokens_ok demo_fuzz" by (simp add: tokens_ok_def demo_defs)
  moreover have "run_over10m demo_fuzz \<Longrightarrow> queue_cycle demo_fuzz \<noteq> 0" by (simp add: demo_defs)
  ultimately show ?thesis using havoc_stack_in_bounds [of demo_locals demo_fuzz demo_fuzz_world 64] by blast
qed

end
