(* ===== verification/Afl_Frame.thy ===== *)
theory Afl_Frame
  imports Afl_Save
begin

text \<open>
  What \<^verbatim>\<open>common_fuzz_stuff\<close> leaves alone: the stage it is called from and the dictionaries.  The
  routines on the queue and on the ranking do not touch the state that extends theirs.
\<close>

definition rest :: "'a fuzz_state_scheme \<Rightarrow>
    string \<times> int \<times> int \<times> stage_val \<times> extra_data list \<times> extra_data list" where
  "rest s = (stage_short s, stage_cur_byte s, stage_cur_val s, stage_val_type s, extras s, a_extras s)"

definition kept :: "'a fuzz_state_scheme \<Rightarrow>
    (string \<times> int \<times> int) \<times> string \<times> int \<times> int \<times> stage_val \<times> extra_data list \<times> extra_data list" where
  "kept s = ((stage_name s, stage_cur s, stage_max s), rest s)"

section \<open>Extensions of the state\<close>

lemma more_note_position [simp]: "queue_state.more (note_position i p e s) = queue_state.more s"
  by (simp add: note_position_def Let_def)

lemma more_insert_loop: "insert_loop q ins i p s = Some s' \<Longrightarrow> queue_state.more s' = queue_state.more s"
proof (induction arbitrary: rule: insert_loop.raw_induct [rotated 1, consumes 1, case_names body])
  case (body f q ins i p s s')
  then show ?case
    by (auto simp: Let_def split: option.splits bind_splits if_splits)
qed

lemma more_sorted_insert: "sorted_insert_to_queue p s = Some s' \<Longrightarrow> queue_state.more s' = queue_state.more s"
  by (auto simp: sorted_insert_to_queue_def Let_def split: option.splits bind_splits if_splits dest!: more_insert_loop)

lemma more_add_to_queue:
  "add_to_queue p now fn len pd score s = Some s' \<Longrightarrow> queue_state.more s' = queue_state.more s"
  by (auto simp: add_to_queue_def Let_def split: bind_splits dest!: more_sorted_insert)

lemma more_score_loop: "score_loop n q ff i s = Some s' \<Longrightarrow> fav_state.more s' = fav_state.more s"
  by (induction n q ff i s rule: score_loop.induct)
     (auto split: bind_splits if_splits option.splits)

lemma more_update_bitmap_score: "update_bitmap_score q s = Some s' \<Longrightarrow> fav_state.more s' = fav_state.more s"
  by (auto simp: update_bitmap_score_def split: bind_splits dest: more_score_loop)

lemma more_mark_as_variable: "mark_as_variable b q s = Some (Inr s') \<Longrightarrow> fav_state.more s' = fav_state.more s"
  by (auto simp: mark_as_variable_def split: bind_splits if_splits)

lemma more_has_new_bits [simp]: "bitmap_state.more (snd (has_new_bits vm s)) = bitmap_state.more s"
  by (cases vm) (auto simp: has_new_bits_def Let_def split: prod.split)

lemma kept_queue: "queue_state.more s' = queue_state.more s \<Longrightarrow> kept s' = kept s"
  by (cases s; cases s') (simp add: kept_def rest_def)

lemma kept_fav: "fav_state.more s' = fav_state.more s \<Longrightarrow> kept s' = kept s"
  by (cases s; cases s') (simp add: kept_def rest_def)

lemma kept_bitmap: "bitmap_state.more s' = bitmap_state.more s \<Longrightarrow> kept s' = kept s"
  by (cases s; cases s') (simp add: kept_def rest_def)

section \<open>Runs, statistics and calibration\<close>

lemma kept_rest: "kept s' = kept s \<Longrightarrow> rest s' = rest s"
  by (simp add: kept_def)

lemma kept_new_bits: "has_new_bits vm s = (r, s') \<Longrightarrow> kept s' = kept s"
  using more_has_new_bits [of vm s] by (intro kept_bitmap) simp

lemma kept_write: "write_to_testcase mem len s = Some s' \<Longrightarrow> kept s' = kept s"
  by (auto simp: write_to_testcase_def Let_def kept_def rest_def split: bind_splits)

lemma kept_outcome: "run_outcome t ms tb st s = (f, s') \<Longrightarrow> kept s' = kept s"
  using run_outcome_frame [of t ms tb st s f s'] by (auto simp: kept_def rest_def)

lemma kept_run_target: "run_target w t s = Inr (f, s') \<Longrightarrow> kept s' = kept s"
  by (auto simp: run_target_def Let_def fork_server_lost_def kept_def rest_def
      dest!: kept_outcome split: option.splits if_splits)

lemma kept_upd [simp]:
  "kept (s\<lparr>stop_soon := n\<rparr>) = kept s" "kept (s\<lparr>ticks := m\<rparr>) = kept s"
  "kept (s\<lparr>run_over10m := b\<rparr>) = kept s" "kept (s\<lparr>last_ms := t\<rparr>) = kept s"
  "kept (s\<lparr>stats_update_freq := f\<rparr>) = kept s" "kept (s\<lparr>last_stats_ms := t\<rparr>) = kept s"
  by (simp_all add: kept_def rest_def)

lemma kept_save_auto: "save_auto s = Some s' \<Longrightarrow> kept s' = kept s"
  by (auto simp: save_auto_def kept_def rest_def split: if_splits bind_splits)

lemma kept_write_bitmap [simp]: "kept (write_bitmap s) = kept s"
  by (simp add: write_bitmap_def kept_def rest_def)

lemma kept_show_stats: "show_stats w s = Some s' \<Longrightarrow> kept s' = kept s"
  unfolding show_stats_def get_cur_time_def Let_def prod.case
  by (auto dest!: kept_save_auto split: if_split_asm bind_splits)

section \<open>Calibration\<close>

lemma rest_upd [simp]:
  "rest (s\<lparr>entries := h\<rparr>) = rest s" "rest (s\<lparr>first_trace := t\<rparr>) = rest s"
  "rest (s\<lparr>stage_cur := c\<rparr>) = rest s" "rest (note_variable s) = rest s"
  "rest (s\<lparr>ticks := n\<rparr>) = rest s"
  by (simp_all add: rest_def note_variable_def Let_def)

lemma rest_cal_round:
  "cal_round w q mem t fr nb vd s = Some (Inr (r, s')) \<Longrightarrow> rest s' = rest s"
  by (auto simp: cal_round_def Let_def split: bind_splits if_split_asm sum.splits prod.splits
        dest!: kept_show_stats [THEN kept_rest] kept_write [THEN kept_rest]
          kept_run_target [THEN kept_rest] kept_new_bits [THEN kept_rest])

lemma rest_cal_loop:
  "cal_loop w q mem t fr f nb vd s = Some x \<Longrightarrow> x = Inr (r, s') \<Longrightarrow> rest s' = rest s"
proof (induction arbitrary: r s' rule: cal_loop.raw_induct [rotated 1, consumes 1, case_names body])
  case (body g w q mem t fr f nb vd s x)
  from body(2,3) show ?case
    by (auto simp: andthen_Some_Inr split: if_splits dest!: body(1) rest_cal_round)
qed

lemma rest_cal_upd [simp]:
  "rest (s\<lparr>total_cal_us := u\<rparr>) = rest s" "rest (s\<lparr>total_cal_cycles := u\<rparr>) = rest s"
  "rest (s\<lparr>total_bitmap_size := u\<rparr>) = rest s" "rest (s\<lparr>total_bitmap_entries := u\<rparr>) = rest s"
  "rest (s\<lparr>total_prox_score := u\<rparr>) = rest s" "rest (s\<lparr>avg_prox_score := u\<rparr>) = rest s"
  "rest (s\<lparr>min_prox_score := u\<rparr>) = rest s" "rest (s\<lparr>max_prox_score := u\<rparr>) = rest s"
  "rest (s\<lparr>queued_with_cov := v\<rparr>) = rest s" "rest (s\<lparr>queued_variable := v\<rparr>) = rest s"
  "rest (s\<lparr>var_byte_count := v\<rparr>) = rest s" "rest (s\<lparr>stage_name := n\<rparr>) = rest s"
  "rest (s\<lparr>stage_max := c\<rparr>) = rest s" "rest (s\<lparr>forksrv_pid := p\<rparr>) = rest s"
  by (simp_all add: rest_def)

lemma rest_cal_finish: "cal_finish w q hc us s = Some s' \<Longrightarrow> rest s' = rest s"
  by (auto simp: cal_finish_def Let_def get_cur_time_us_def split: bind_splits if_split_asm
      dest!: more_update_bitmap_score [THEN kept_fav, THEN kept_rest])

lemma cal_exit_kept:
  "cal_exit w q n c m fr nb vd s = Some (Inr s') \<Longrightarrow> kept s' = ((n, c, m), rest s)"
proof -
  have upd: "kept (x\<lparr>stage_name := n, stage_cur := c, stage_max := m\<rparr>) = ((n, c, m), rest x)" for x :: "'a fuzz_state_scheme"
    by (simp add: kept_def)
  assume "cal_exit w q n c m fr nb vd s = Some (Inr s')"
  then show ?thesis
    by (auto simp: cal_exit_def Let_def andthen_Some_Inr upd split: bind_splits if_split_asm
        dest!: kept_show_stats more_mark_as_variable [THEN kept_fav, THEN kept_rest])
qed

lemma rest_cal_start: "cal_start w fr s = Inr (nb, us, s') \<Longrightarrow> rest s' = rest s"
  by (auto simp: cal_start_def Let_def get_cur_time_us_def init_forkserver_def
      split: if_split_asm prod.split_asm dest!: kept_new_bits [THEN kept_rest])

lemma kept_calibrate_case:
  assumes "calibrate_case w q mem hc fq s = Some (Inr (f, s'))"
  shows "kept s' = kept s"
proof -
  have "((stage_name s, stage_cur s, stage_max s), rest s) = kept s" by (simp add: kept_def)
  then show ?thesis
    using assms
    by (auto simp: calibrate_case_def Let_def andthen_Some_Inr bind_eq_Some_conv split: if_split_asm
        dest!: cal_exit_kept rest_cal_finish rest_cal_loop [OF _ refl] rest_cal_start)
qed

section \<open>Saving\<close>

lemma kept_save_upd [simp]:
  "kept (s\<lparr>total_crashes := u\<rparr>) = kept s" "kept (s\<lparr>unique_crashes := u\<rparr>) = kept s"
  "kept (s\<lparr>total_tmouts := u\<rparr>) = kept s" "kept (s\<lparr>unique_tmouts := u\<rparr>) = kept s"
  "kept (s\<lparr>unique_hangs := u\<rparr>) = kept s" "kept (s\<lparr>last_hang_time := u\<rparr>) = kept s"
  "kept (s\<lparr>last_crash_time := u\<rparr>) = kept s" "kept (s\<lparr>last_crash_execs := u\<rparr>) = kept s"
  "kept (s\<lparr>trace_bits := t\<rparr>) = kept s" "kept (s\<lparr>next_alloc := n\<rparr>) = kept s"
  "kept (s\<lparr>entries := h\<rparr>) = kept s" "kept (s\<lparr>queued_with_cov := v\<rparr>) = kept s"
  "kept (s\<lparr>subseq_tmouts := v\<rparr>) = kept s" "kept (s\<lparr>cur_skipped_paths := v\<rparr>) = kept s"
  "kept (s\<lparr>skip_requested := b\<rparr>) = kept s" "kept (s\<lparr>queued_discovered := v\<rparr>) = kept s"
  "kept (write_crash_readme w s) = kept s"
  by (simp_all add: kept_def rest_def write_crash_readme_def)

lemma kept_create_file: "create_file fn d s = Inr s' \<Longrightarrow> kept s' = kept s"
  by (auto simp: create_file_def kept_def rest_def split: if_split_asm)

lemma map_sum_Inr: "map_sum id f x = Inr y \<longleftrightarrow> (\<exists>z. x = Inr z \<and> y = f z)"
  by (cases x) auto

lemma kept_keep_in_queue: "keep_in_queue w mem len s = Some (Inr (k, s')) \<Longrightarrow> kept s' = kept s"
  by (auto simp: keep_in_queue_def Let_def andthen_Some_Inr get_cur_time_def map_sum_Inr
      split: bind_splits if_split_asm prod.splits
      dest!: kept_new_bits kept_calibrate_case kept_create_file more_add_to_queue [THEN kept_queue])

lemma kept_keep_crash: "keep_crash w s = Some (fn, s') \<Longrightarrow> kept s' = kept s"
  by (auto simp: keep_crash_def Let_def get_cur_time_def split: bind_splits if_split_asm prod.splits
      dest!: kept_new_bits)

lemma kept_record_hang: "record_hang w s = Some (fn, s') \<Longrightarrow> kept s' = kept s"
  by (auto simp: record_hang_def Let_def get_cur_time_def split: bind_splits)

lemma kept_keep_hang: "keep_hang w mem len s = Some (Inr (fn, s')) \<Longrightarrow> kept s' = kept s"
  by (auto simp: keep_hang_def Let_def split: bind_splits if_split_asm prod.splits sum.splits
      dest!: kept_new_bits kept_write kept_run_target kept_keep_crash kept_record_hang)

lemma kept_save_if_interesting:
  "save_if_interesting w mem len fault s = Some (Inr (k, s')) \<Longrightarrow> kept s' = kept s"
  by (auto simp: save_if_interesting_def andthen_Some_Inr map_sum_Inr bind_eq_Some_conv
      split: if_split_asm fault.split_asm option.split_asm
      dest!: kept_keep_in_queue kept_keep_crash kept_keep_hang kept_create_file)

lemma kept_after_run: "after_run w b n f s = Some (Inr (stop, s')) \<Longrightarrow> kept s' = kept s"
  by (auto simp: after_run_def Let_def andthen_Some_Inr bind_eq_Some_conv split: if_split_asm
      dest!: kept_save_if_interesting kept_show_stats)

lemma kept_common_fuzz_stuff:
  "common_fuzz_stuff w b n s = Some (Inr (stop, s')) \<Longrightarrow> kept s' = kept s"
  by (auto simp: common_fuzz_stuff_def andthen_Some_Inr bind_eq_Some_conv split: option.split_asm
      dest!: kept_after_run kept_run_target kept_write)

end
