(* ===== verification/Afl_Hoare.thy ===== *)
theory Afl_Hoare
  imports Afl_Frame Afl_Det
begin

text \<open>
  Triples for the pieces of \<^verbatim>\<open>fuzz_one\<close>.  \<open>total P f Q\<close>: from a state with \<open>P\<close> the step is defined,
  so it terminates and stays inside its buffers, and unless it gives the entry up or ends the program
  it leads to a state with \<open>Q\<close>.
\<close>

definition post ::
  "(fatal + bool \<times> fuzz_locals \<times> 'a fuzz_state_scheme) option \<Rightarrow>
   (fuzz_locals \<Rightarrow> 'a fuzz_state_scheme \<Rightarrow> bool) \<Rightarrow> bool" where
  "post r Q \<longleftrightarrow> (\<exists>x. r = Some x \<and> (\<forall>l' s'. x = Inr (False, l', s') \<longrightarrow> Q l' s'))"

definition total ::
  "(fuzz_locals \<Rightarrow> 'a fuzz_state_scheme \<Rightarrow> bool) \<Rightarrow> 'a fuzz_step \<Rightarrow>
   (fuzz_locals \<Rightarrow> 'a fuzz_state_scheme \<Rightarrow> bool) \<Rightarrow> bool" where
  "total P f Q \<longleftrightarrow> (\<forall>l s. P l s \<longrightarrow> post (f l s) Q)"

lemma totalI: "(\<And>l s. P l s \<Longrightarrow> post (f l s) Q) \<Longrightarrow> total P f Q"
  by (simp add: total_def)

lemma totalD: "total P f Q \<Longrightarrow> P l s \<Longrightarrow> post (f l s) Q"
  by (simp add: total_def)

lemma total_weaken: "total P' f Q' \<Longrightarrow> (\<And>l s. P l s \<Longrightarrow> P' l s) \<Longrightarrow> (\<And>l s. Q' l s \<Longrightarrow> Q l s) \<Longrightarrow> total P f Q"
  unfolding total_def post_def by meson

lemma post_weaken: "post r Q \<Longrightarrow> (\<And>l s. Q l s \<Longrightarrow> R l s) \<Longrightarrow> post r R"
  unfolding post_def by blast

section \<open>Results\<close>

lemma post_continue: "Q l s \<Longrightarrow> post (continue l s) Q"
  by (simp add: post_def continue_def)

lemma post_set_buf: "b = Some c \<Longrightarrow> Q (l\<lparr>out_buf := c\<rparr>) s \<Longrightarrow> post (set_buf b l s) Q"
  by (simp add: set_buf_def post_continue)

lemma post_bind: "r = Some v \<Longrightarrow> post (f v) Q \<Longrightarrow> post (do { x \<leftarrow> r; f x }) Q"
  by simp

lemma post_if: "(c \<Longrightarrow> post r Q) \<Longrightarrow> (\<not> c \<Longrightarrow> post r' Q) \<Longrightarrow> post (if c then r else r') Q"
  by simp

lemma post_andthen:
  assumes "m = Some x" and "\<And>y. x = Inr y \<Longrightarrow> post (f y) Q"
  shows "post (andthen m f) Q"
  using assms by (cases x) (simp_all add: post_def)

lemma post_bail:
  assumes "post (f l s) Q" and "total Q g R"
  shows "post (bail f g l s) R"
proof -
  obtain x where x: "f l s = Some x" "\<And>l' s'. x = Inr (False, l', s') \<Longrightarrow> Q l' s'"
    using assms(1) by (auto simp: post_def)
  show ?thesis
    unfolding bail_def
  proof (rule post_andthen [OF x(1)])
    fix y assume y: "x = Inr y"
    obtain stop l1 s1 where "y = (stop, l1, s1)" by (cases y)
    then show "post (case y of (stop, l1, s1) \<Rightarrow> if stop then Some (Inr (True, l1, s1)) else g l1 s1) R"
      using x(2) y totalD [OF assms(2), of l1 s1] by (simp add: post_def)
  qed
qed

section \<open>Steps\<close>

lemma total_continue: "total P continue P"
  by (simp add: total_def post_continue)

lemma total_bail: "total P f Q \<Longrightarrow> total Q g R \<Longrightarrow> total P (bail f g) R"
  by (rule totalI) (rule post_bail [OF totalD])

lemma total_for_loop_upt:
  assumes "\<And>j. k \<le> j \<Longrightarrow> j < m \<Longrightarrow> total (P j) (f j) (P (Suc j))"
  shows "k \<le> m \<Longrightarrow> total (P k) (for_loop [k..<m] f) (P m)"
  using assms
proof (induction "m - k" arbitrary: k)
  case 0
  then show ?case by (simp add: total_def post_continue)
next
  case (Suc d)
  then have "[k..<m] = k # [Suc k..<m]" by (simp add: upt_conv_Cons)
  moreover have "total (P k) (bail (f k) (for_loop [Suc k..<m] f)) (P m)"
    using Suc by (intro total_bail [of "P k" _ "P (Suc k)"]) auto
  ultimately show ?case by (simp add: total_def)
qed

lemma total_for_loop: "(\<And>i. i \<in> set is \<Longrightarrow> total P (f i) P) \<Longrightarrow> total P (for_loop is f) P"
proof (induction "is")
  case Nil
  then show ?case by (simp add: total_def post_continue)
next
  case (Cons i "is")
  have "total P (bail (f i) (for_loop is f)) P"
    using Cons by (intro total_bail [of P "f i" P]) auto
  then show ?case by (simp add: total_def)
qed

text \<open>A loop over \<open>stage_cur\<close> ends when its body leaves \<open>stage_cur\<close> and \<open>stage_max\<close> alone.\<close>

lemma total_stage_loop:
  assumes body: "\<And>c. 0 \<le> c \<Longrightarrow> c < m \<Longrightarrow> total (\<lambda>l s. P l s \<and> stage_cur s = c \<and> stage_max s = m) f
      (\<lambda>l s. P l (s\<lparr>stage_cur := c + 1\<rparr>) \<and> stage_cur s = c \<and> stage_max s = m)"
  shows "total (\<lambda>l s. P l s \<and> 0 \<le> stage_cur s \<and> stage_max s = m) (stage_loop f) P"
proof (rule totalI, elim conjE)
  fix l s assume "P l s" and "0 \<le> stage_cur s" and "stage_max s = m"
  then show "post (stage_loop f l s) P"
  proof (induction "nat (m - stage_cur s)" arbitrary: l s rule: less_induct)
    case less
    show ?case
    proof (cases "stage_cur s < m")
      case False
      then show ?thesis using less.prems by (simp add: stage_loop.simps [of f l s] post_def)
    next
      case True
      have "post (f l s) (\<lambda>l s'. P l (s'\<lparr>stage_cur := stage_cur s + 1\<rparr>) \<and> stage_cur s' = stage_cur s \<and> stage_max s' = m)"
        using totalD [OF body [of "stage_cur s"]] less.prems True by simp
      then obtain x where x: "f l s = Some x" "\<And>l' s'. x = Inr (False, l', s') \<Longrightarrow>
          P l' (s'\<lparr>stage_cur := stage_cur s + 1\<rparr>) \<and> stage_cur s' = stage_cur s \<and> stage_max s' = m"
        by (auto simp: post_def)
      show ?thesis
        unfolding stage_loop.simps [of f l s]
      proof (simp add: True less.prems(3), rule post_andthen [OF x(1)])
        fix y assume y: "x = Inr y"
        obtain stop l1 s1 where ls: "y = (stop, l1, s1)" by (cases y)
        show "post (case y of (stop, l1, s1) \<Rightarrow> if stop then Some (Inr (True, l1, s1))
            else stage_loop f l1 (s1\<lparr>stage_cur := stage_cur s1 + 1\<rparr>)) P"
        proof (cases stop)
          case True
          then show ?thesis by (simp add: ls post_def)
        next
          case False
          then have "P l1 (s1\<lparr>stage_cur := stage_cur s + 1\<rparr>)" "stage_cur s1 = stage_cur s" "stage_max s1 = m"
            using x(2) [of l1 s1] y ls by simp_all
          then show ?thesis
            using less.hyps [of "s1\<lparr>stage_cur := stage_cur s1 + 1\<rparr>" l1] less.prems True \<open>stage_cur s < m\<close> False
            by (simp add: ls)
        qed
      qed
    qed
  qed
qed

end
