(* ===== verification/Afl_Flip.thy ===== *)
theory Afl_Flip
  imports Afl_Similar Afl_Extras
begin

text \<open>
  Runs of bits in a buffer: which bits \<^verbatim>\<open>FLIP_BIT\<close> changes, and that flipping a run twice gives the
  buffer back.
\<close>

text \<open>Bits in the order the stages count them: from the most significant bit of the first byte.\<close>

definition bit_at :: "u8 list \<Rightarrow> nat \<Rightarrow> bool" where
  "bit_at b k = bit (b ! (k div 8)) (7 - k mod 8)"

lemma bit_at_eqI:
  assumes "length b = length c" and "\<And>k. k < 8 * length b \<Longrightarrow> bit_at b k = bit_at c k"
  shows "b = c"
proof (rule nth_equalityI [OF assms(1)])
  fix i assume i: "i < length b"
  show "b ! i = c ! i"
  proof (rule bit_word_eqI)
    fix n assume "n < LENGTH(8)"
    then have "n = 7 - (7 - n)" "7 - n < 8" by auto
    then obtain m where m: "n = 7 - m" "m < 8" by blast
    have "8 * i + m < 8 * length b" "(8 * i + m) div 8 = i" "(8 * i + m) mod 8 = m" using i m(2) by auto
    then show "bit (b ! i) n = bit (c ! i) n"
      using assms(2) [of "8 * i + m"] by (simp add: bit_at_def m(1))
  qed
qed

lemma bit_128: "m < 8 \<Longrightarrow> bit (drop_bit m (128 :: u8)) n \<longleftrightarrow> n = 7 - m"
proof -
  assume "m < 8"
  have p: "(128 :: u8) = 2 ^ 7" by simp
  have "bit ((2 :: u8) ^ 7) j \<longleftrightarrow> j = 7" for j
    by (simp only: bit_exp_iff) (auto simp: possible_bit_word)
  then have b: "bit (128 :: u8) j \<longleftrightarrow> j = 7" for j by (simp only: p)
  have "bit (drop_bit m (128 :: u8)) n \<longleftrightarrow> m + n = 7" by (simp only: bit_drop_bit_eq comp_def b)
  then show ?thesis using \<open>m < 8\<close> by linarith
qed

lemma FLIP_BIT_bits:
  assumes "k < 8 * length b"
  shows "\<exists>c. FLIP_BIT b k = Some c \<and> length c = length b \<and>
    (\<forall>j < 8 * length b. bit_at c j = (bit_at b j \<noteq> (j = k)))"
proof -
  have i: "k div 8 < length b" using assms by (simp add: div_less_iff_less_mult mult.commute)
  let ?c = "b[k div 8 := b ! (k div 8) XOR drop_bit (k mod 8) 128]"
  have "FLIP_BIT b k = Some ?c"
    using i by (simp add: FLIP_BIT_def shift3 mask7 get_at_Some set_at_Some)
  moreover have "bit_at ?c j = (bit_at b j \<noteq> (j = k))" if "j < 8 * length b" for j
  proof -
    have m: "j mod 8 < 8" "k mod 8 < 8" by simp_all
    then have "7 - j mod 8 = 7 - k mod 8 \<longleftrightarrow> j mod 8 = k mod 8" by linarith
    moreover have "j = k \<longleftrightarrow> j div 8 = k div 8 \<and> j mod 8 = k mod 8" by (metis div_mult_mod_eq)
    ultimately have eq: "j = k \<longleftrightarrow> j div 8 = k div 8 \<and> 7 - j mod 8 = 7 - k mod 8" by simp
    show ?thesis
    proof (cases "j div 8 = k div 8")
      case True
      then have "bit_at ?c j = bit (b ! (k div 8) XOR drop_bit (k mod 8) 128) (7 - j mod 8)"
        using i by (simp add: bit_at_def)
      then show ?thesis
        unfolding bit_xor_iff bit_128 [OF m(2)] using eq True by (simp add: bit_at_def)
    next
      case False
      then have "bit_at ?c j = bit_at b j" by (simp add: bit_at_def)
      then show ?thesis using eq False by simp
    qed
  qed
  ultimately show ?thesis by auto
qed

lemma flip_run_Suc: "flip_run (Suc n) k b = Option.bind (flip_run n k b) (\<lambda>a. FLIP_BIT a (k + n))"
  by (simp add: flip_run_def)

lemma flip_run_bits:
  assumes "k + n \<le> 8 * length b"
  shows "\<exists>c. flip_run n k b = Some c \<and> length c = length b \<and>
    (\<forall>j < 8 * length b. bit_at c j = (bit_at b j \<noteq> (k \<le> j \<and> j < k + n)))"
  using assms
proof (induction n)
  case 0
  then show ?case by (auto simp: flip_run_def)
next
  case (Suc n)
  then obtain c where c: "flip_run n k b = Some c" "length c = length b"
    "\<forall>j < 8 * length b. bit_at c j = (bit_at b j \<noteq> (k \<le> j \<and> j < k + n))" by auto
  obtain d where d: "FLIP_BIT c (k + n) = Some d" "length d = length b"
    "\<forall>j < 8 * length b. bit_at d j = (bit_at c j \<noteq> (j = k + n))"
    using FLIP_BIT_bits [of "k + n" c] c(2) Suc.prems by auto
  have "bit_at d j = (bit_at b j \<noteq> (k \<le> j \<and> j < k + Suc n))" if "j < 8 * length b" for j
    using c(3) d(3) that by (cases "j < k + n"; cases "j = k + n") auto
  then show ?case using c(1) d(1,2) by (simp add: flip_run_Suc)
qed

lemma flip_run_back:
  assumes "flip_run n k b = Some c" and "k + n \<le> 8 * length b"
  shows "flip_run n k c = Some b"
proof -
  have c: "length c = length b" "\<forall>j < 8 * length b. bit_at c j = (bit_at b j \<noteq> (k \<le> j \<and> j < k + n))"
    using flip_run_bits [OF assms(2)] assms(1) by auto
  obtain d where d: "flip_run n k c = Some d" "length d = length b"
    "\<forall>j < 8 * length b. bit_at d j = (bit_at c j \<noteq> (k \<le> j \<and> j < k + n))"
    using flip_run_bits [of k n c] assms(2) c(1) by auto
  have "d = b" by (rule bit_at_eqI) (use c d in auto)
  then show ?thesis using d(1) by simp
qed

lemma flip_run_in_range: "flip_run n k b = Some c \<Longrightarrow> n = 0 \<or> k + n \<le> 8 * length b \<and> length c = length b"
proof (induction n arbitrary: c)
  case 0
  then show ?case by simp
next
  case (Suc n)
  then obtain a where a: "flip_run n k b = Some a" "FLIP_BIT a (k + n) = Some c"
    by (auto simp: flip_run_Suc bind_eq_Some_conv)
  have "length a = length b" using Suc.IH [OF a(1)] a(1) by (cases "n = 0") (auto simp: flip_run_def)
  then show ?case
    using a(2) by (auto simp: FLIP_BIT_def shift3 bind_eq_Some_conv get_at_def set_at_def split: if_splits)
qed

lemma flip_run_back_some: "flip_run n k b = Some c \<Longrightarrow> flip_run n k c = Some b"
  using flip_run_back [of n k b c] flip_run_in_range [of n k b c] by (auto simp: flip_run_def)

end
