(* ===== verification/Afl_Undo.thy ===== *)
theory Afl_Undo
  imports Afl_Hoare Afl_Flip
begin

text \<open>
  The deterministic stages edit the buffer in place and take every edit back.  They are also total:
  if each run of the target comes to an end, so does each stage, and it never leaves its buffers.
  This theory has the framework and the walking stages.
\<close>

section \<open>What a stage relies on\<close>

text \<open>The state apart from what the stages themselves write between two runs.\<close>

definition core :: "'a fuzz_state_scheme \<Rightarrow> 'a fuzz_state_scheme" where
  "core s = s\<lparr>rand_cnt := 0, draws := 0, a_extras := [], auto_changed := False, stage_name := [],
     stage_short := [], stage_cur := 0, stage_max := 0, stage_cur_byte := 0, stage_cur_val := 0,
     stage_val_type := STAGE_VAL_NONE, stage_finds := (\<lambda>_. 0), stage_cycles := (\<lambda>_. 0),
     blocks_eff_total := 0, blocks_eff_select := 0\<rparr>"

text \<open>
  The contract of a run: on states with \<open>I\<close> it comes to an end, and keeps \<open>I\<close> when the stage goes
  on; \<open>I\<close> knows the entry that is fuzzed, and does not depend on what the stages write.
\<close>

definition runs_ok :: "'w fuzz_world_scheme \<Rightarrow> nat \<Rightarrow> ('a fuzz_state_scheme \<Rightarrow> bool) \<Rightarrow> bool" where
  "runs_ok w q I \<longleftrightarrow>
     (\<forall>b n s. I s \<and> unat n \<le> length b \<longrightarrow>
        (\<exists>x. common_fuzz_stuff w b n s = Some x \<and> (\<forall>s'. x = Inr (False, s') \<longrightarrow> I s'))) \<and>
     (\<forall>s. I s \<longrightarrow> (\<exists>e. entries s q = Some e \<and> CHR ''/'' \<in> set (q_fname e))) \<and>
     (\<forall>s s'. I s \<and> core s' = core s \<and> extras_wf s' \<longrightarrow> I s')"

lemma inv_core: "runs_ok w q I \<Longrightarrow> I s \<Longrightarrow> core s' = core s \<Longrightarrow> extras_wf s' \<Longrightarrow> I s'"
  unfolding runs_ok_def by blast

text \<open>A call of a stage: the world, the entry, the contract, the buffer, the input and its length.\<close>

record ('w, 'a) stage_call =
  c_world :: "'w fuzz_world_scheme"
  c_entry :: nat
  c_inv :: "'a fuzz_state_scheme \<Rightarrow> bool"
  c_buf :: "u8 list"
  c_in :: "u8 list"
  c_len :: nat

definition call_ok :: "('w, 'a) stage_call \<Rightarrow> bool" where
  "call_ok k \<longleftrightarrow> runs_ok (c_world k) (c_entry k) (c_inv k) \<and> qsort_ok (c_world k) \<and>
     1 \<le> c_len k \<and> c_len k \<le> MAX_FILE \<and> c_len k \<le> length (c_buf k) \<and> c_len k \<le> length (c_in k) \<and>
     take (c_len k) (c_in k) = take (c_len k) (c_buf k)"

text \<open>
  The dictionaries are well-formed and the tokens in use are in order of their length, which is what
  the last stages need to take their tokens back; a new token fits the buffer it is collected in.
\<close>

definition tokens_fit :: "extra_data list \<Rightarrow> bool" where
  "tokens_fit es \<longleftrightarrow> length es < 2 ^ 32 \<and> list_all (\<lambda>e. unat (x_len e) \<le> MAX_DICT_FILE) es"

definition dict_ok :: "fuzz_locals \<Rightarrow> 'a fuzz_state_scheme \<Rightarrow> bool" where
  "dict_ok l s \<longleftrightarrow> length (a_collect l) = MAX_AUTO_EXTRA \<and> extras_wf s \<and> tokens_fit (extras s) \<and>
     sorted (map x_len (take USE_AUTO_EXTRAS (a_extras s)))"

text \<open>The buffer is as \<open>R\<close> says, and the effector map has \<open>m\<close> entries.\<close>

definition at_buf ::
  "('w, 'a) stage_call \<Rightarrow> nat \<Rightarrow> (u8 list \<Rightarrow> bool) \<Rightarrow> fuzz_locals \<Rightarrow> 'a fuzz_state_scheme \<Rightarrow> bool" where
  "at_buf k m R l s \<longleftrightarrow> call_ok k \<and> c_inv k s \<and> dict_ok l s \<and> length (eff_map l) = m \<and>
     f_len l = c_len k \<and> in_buf l = c_in k \<and> R (out_buf l) \<and> length (out_buf l) = length (c_buf k)"

abbreviation buf_is :: "('w, 'a) stage_call \<Rightarrow> nat \<Rightarrow> fuzz_locals \<Rightarrow> 'a fuzz_state_scheme \<Rightarrow> bool" where
  "buf_is k m \<equiv> at_buf k m ((=) (c_buf k))"

section \<open>Parts of a buffer\<close>

text \<open>Part of the buffer, \<open>w\<close> bytes at \<open>i\<close>, may be overwritten.\<close>

definition near :: "nat \<Rightarrow> nat \<Rightarrow> u8 list \<Rightarrow> u8 list \<Rightarrow> bool" where
  "near i w b c \<longleftrightarrow> i + w \<le> length b \<and> (\<exists>d. length d = w \<and> c = take i b @ d @ drop (i + w) b)"

lemma near_refl: "i + w \<le> length b \<Longrightarrow> near i w b b"
  unfolding near_def by (auto intro!: exI [of _ "take w (drop i b)"] simp: add.commute [of i w] simp flip: drop_drop)

lemma near_put: "near i w b c \<Longrightarrow> length d = w \<Longrightarrow> put c i d = Some (take i b @ d @ drop (i + w) b)"
  by (auto simp: near_def put_def)

lemma near_store: "near i w b c \<Longrightarrow> store w c i r = Some c' \<Longrightarrow> near i w b c'"
  by (auto simp: store_def near_put near_def)

lemma near_set_at: "near i 1 b c \<Longrightarrow> set_at c i v = Some (take i b @ [v] @ drop (i + 1) b)"
  by (auto simp: near_def set_at_def length_Suc_conv list_update_append)

lemma near_set_at_near: "near i 1 b c \<Longrightarrow> set_at c i v = Some c' \<Longrightarrow> near i 1 b c'"
  using near_set_at [of i b c v] by (auto simp: near_def)

lemma put_take_back: "i + w \<le> length b \<Longrightarrow> take i b @ take w (drop i b) @ drop (i + w) b = b"
  by (simp add: add.commute [of i w] flip: drop_drop)

text \<open>Loading a word and storing it again, over whatever has been written there.\<close>

lemma near_restore:
  assumes "near i w b c" and "load w b i = Some (r :: 'n::len word)" and "8 * w \<le> LENGTH('n)"
    and "store w c i r = Some c'"
  shows "c' = b"
proof -
  have i: "i + w \<le> length b" using assms(1) by (simp add: near_def)
  then have r: "r = le_word (take w (drop i b))" using assms(2) by (simp add: load_Some)
  have "le_bytes w r = take w (drop i b)" 
    using le_bytes_le_word [of "take w (drop i b)", where ?'a = 'n] assms(3) i unfolding r by simp
  moreover have l: "length (take w (drop i b)) = w" using i by simp
  ultimately show ?thesis using assms(4) near_put [OF assms(1) l] put_take_back [OF i] by (simp add: store_def)
qed

lemma near_restore_byte:
  assumes "near i 1 b c" and "get_at b i = Some v" and "set_at c i v = Some c'"
  shows "c' = b"
proof -
  have "i + 1 \<le> length b" "v = b ! i" using assms(1,2) by (auto simp: near_def get_at_def split: if_splits)
  then show ?thesis
    using near_set_at [OF assms(1), of v] assms(3) by (auto simp: id_take_nth_drop [symmetric])
qed

section \<open>Steps that leave the buffer alone\<close>

text \<open>What the stages must not lose sight of, as one value.\<close>

definition bufs :: "fuzz_locals \<Rightarrow> 'a fuzz_state_scheme \<Rightarrow>
    ((u8 list \<times> u8 list \<times> nat) \<times> nat \<times> nat) \<times> extra_data list \<times> extra_data list" where
  "bufs l s = (((out_buf l, in_buf l, f_len l), length (a_collect l), length (eff_map l)), extras s, a_extras s)"

lemma bufs_at_buf_to:
  assumes "bufs l' s' = bufs l s" and "core s' = core s" and "at_buf k m R l s"
  shows "at_buf k m R l' s'"
proof -
  have "extras_wf s'" using assms(1,3) by (auto simp: at_buf_def dict_ok_def bufs_def extras_wf_def)
  then have "c_inv k s'" using assms(2,3) unfolding at_buf_def call_ok_def runs_ok_def by blast
  then show ?thesis using assms(1,3) by (auto simp: at_buf_def dict_ok_def bufs_def extras_wf_def)
qed

lemma bufs_at_buf: "bufs l' s' = bufs l s \<Longrightarrow> core s' = core s \<Longrightarrow> at_buf k m R l' s' = at_buf k m R l s"
  using bufs_at_buf_to [of l' s' l s k m R] bufs_at_buf_to [of l s l' s' k m R] by (auto simp: eq_commute)

lemma bufs_upd [simp]:
  "bufs (l\<lparr>eff_map := e, eff_cnt := c\<rparr>) s = (if length e = length (eff_map l) then bufs l s else bufs (l\<lparr>eff_map := e\<rparr>) s)"
  "length e = length (eff_map l) \<Longrightarrow> bufs (l\<lparr>eff_map := e\<rparr>) s = bufs l s"
  "bufs (l\<lparr>orig_hit_cnt := h\<rparr>) s = bufs l s" "bufs (l\<lparr>new_hit_cnt := h\<rparr>) s = bufs l s"
  "bufs (l\<lparr>new_hit_cnt := h, prev_cksum := j\<rparr>) s = bufs l s"
  "bufs (l\<lparr>a_len := d, prev_cksum := j\<rparr>) s = bufs l s"
  "bufs (l\<lparr>last_len := i\<rparr>) s = bufs l s" "bufs (l\<lparr>ex_tmp := t\<rparr>) s = bufs l s"
  "bufs (l\<lparr>doing_det := z\<rparr>) s = bufs l s"
  by (simp_all add: bufs_def)

lemma bufs_collect_byte [simp]: "bufs (collect_byte l c) s = bufs l s"
  by (simp add: bufs_def collect_byte_def)

lemma at_buf_locals [simp]:
  "length e = length (eff_map l) \<Longrightarrow> at_buf k n R (l\<lparr>eff_map := e, eff_cnt := c\<rparr>) s = at_buf k n R l s"
  "length e = length (eff_map l) \<Longrightarrow> at_buf k n R (l\<lparr>eff_map := e\<rparr>) s = at_buf k n R l s"
  "at_buf k n R (l\<lparr>orig_hit_cnt := h\<rparr>) s = at_buf k n R l s" "at_buf k n R (l\<lparr>new_hit_cnt := h\<rparr>) s = at_buf k n R l s"
  "at_buf k n R (l\<lparr>new_hit_cnt := h, prev_cksum := j\<rparr>) s = at_buf k n R l s"
  "at_buf k n R (l\<lparr>a_len := d, prev_cksum := j\<rparr>) s = at_buf k n R l s"
  "at_buf k n R (l\<lparr>last_len := i\<rparr>) s = at_buf k n R l s" "at_buf k n R (l\<lparr>ex_tmp := t\<rparr>) s = at_buf k n R l s"
  "at_buf k n R (l\<lparr>doing_det := z\<rparr>) s = at_buf k n R l s"
  "at_buf k n R (collect_byte l b) s = at_buf k n R l s"
  by (rule bufs_at_buf; simp)+

lemma at_buf_state [simp]:
  "at_buf k n R l (s\<lparr>stage_name := a\<rparr>) = at_buf k n R l s"
  "at_buf k n R l (s\<lparr>stage_short := c\<rparr>) = at_buf k n R l s"
  "at_buf k n R l (s\<lparr>stage_finds := f\<rparr>) = at_buf k n R l s"
  "at_buf k n R l (s\<lparr>stage_cycles := g\<rparr>) = at_buf k n R l s"
  "at_buf k n R l (s\<lparr>stage_val_type := t\<rparr>) = at_buf k n R l s"
  "at_buf k n R l (s\<lparr>stage_cur_val := v\<rparr>) = at_buf k n R l s"
  "at_buf k n R l (s\<lparr>stage_max := m\<rparr>) = at_buf k n R l s"
  "at_buf k n R l (s\<lparr>stage_cur := i\<rparr>) = at_buf k n R l s"
  "at_buf k n R l (s\<lparr>stage_cur_byte := i\<rparr>) = at_buf k n R l s"
  "at_buf k n R l (s\<lparr>blocks_eff_select := u\<rparr>) = at_buf k n R l s"
  "at_buf k n R l (s\<lparr>blocks_eff_total := u'\<rparr>) = at_buf k n R l s"
  by (rule bufs_at_buf; simp add: bufs_def core_def)+

lemma at_buf_out [simp]:
  "length c = length (c_buf k) \<Longrightarrow> at_buf k m R l s \<Longrightarrow> R' c \<Longrightarrow> at_buf k m R' (l\<lparr>out_buf := c\<rparr>) s"
  by (simp add: at_buf_def dict_ok_def)

lemma at_buf_D:
  assumes "at_buf k m R l s"
  shows "f_len l = c_len k" "in_buf l = c_in k" "R (out_buf l)" "length (out_buf l) = length (c_buf k)"
    "length (eff_map l) = m" "dict_ok l s" "1 \<le> c_len k" "c_len k \<le> MAX_FILE" "c_len k \<le> length (c_buf k)"
    "c_len k \<le> length (c_in k)" "qsort_ok (c_world k)"
    "\<exists>e. entries s (c_entry k) = Some e \<and> CHR ''/'' \<in> set (q_fname e)"
  using assms unfolding at_buf_def call_ok_def runs_ok_def by blast+

lemma at_buf_move: "at_buf k m R l s \<Longrightarrow> dict_ok l s' \<Longrightarrow> c_inv k s' \<Longrightarrow> at_buf k m R l s'"
  unfolding at_buf_def by blast

text \<open>A run of the target.\<close>

lemma post_common:
  assumes "at_buf k m R l s" and "unat n \<le> length b"
  obtains x where "common_fuzz_stuff (c_world k) b n s = Some x"
    and "\<And>s'. x = Inr (False, s') \<Longrightarrow> at_buf k m R l s' \<and> kept s' = kept s"
proof -
  have "runs_ok (c_world k) (c_entry k) (c_inv k)" "c_inv k s"
    using assms(1) by (simp_all add: at_buf_def call_ok_def)
  then obtain x where x: "common_fuzz_stuff (c_world k) b n s = Some x"
      "\<And>s'. x = Inr (False, s') \<Longrightarrow> c_inv k s'"
    using assms(2) unfolding runs_ok_def by blast
  show thesis
  proof (rule that [OF x(1)])
    fix s' assume "x = Inr (False, s')"
    then have i: "c_inv k s'" and kp: "kept s' = kept s" using x kept_common_fuzz_stuff by simp_all
    then have "extras s' = extras s" "a_extras s' = a_extras s" by (simp_all add: kept_def rest_def)
    then show "at_buf k m R l s' \<and> kept s' = kept s"
      using assms(1) i kp by (simp add: at_buf_def dict_ok_def extras_wf_def)
  qed
qed

lemma post_run:
  assumes "at_buf k m R l s" and "\<And>s'. at_buf k m R l s' \<Longrightarrow> kept s' = kept s \<Longrightarrow> Q l s'"
  shows "post (run_buf (c_world k) l s) Q"
proof -
  have "unat (of_nat (f_len l) :: u32) \<le> length (out_buf l)"
    using at_buf_D [OF assms(1)] by (simp add: unsigned_of_nat take_bit_eq_mod)
  from post_common [OF assms(1) this] obtain x where x: "common_fuzz_stuff (c_world k) (out_buf l) (of_nat (f_len l)) s = Some x"
    "\<And>s'. x = Inr (False, s') \<Longrightarrow> at_buf k m R l s' \<and> kept s' = kept s" by blast
  show ?thesis
    unfolding run_buf_def
    by (rule post_andthen [OF x(1)]) (use x(2) assms(2) in \<open>auto simp: post_def\<close>)
qed

section \<open>Steps that keep what they find\<close>

named_theorems keeps \<open>total steps that leave things as they found them\<close>

lemma keeps_bail [keeps]: "total P f P \<Longrightarrow> total P g P \<Longrightarrow> total P (bail f g) P"
  by (rule total_bail)

lemmas keeps_loop [keeps] = total_for_loop

lemma keeps_continue [keeps]: "total P continue P"
  by (rule total_continue)

lemma keeps_simple [keeps]:
  "total (at_buf k m R) (stage_begin a c i) (at_buf k m R)"
  "total (at_buf k m R) (stage_end j) (at_buf k m R)"
  "total (at_buf k m R) (set_val_type t) (at_buf k m R)"
  "total (at_buf k m R) (set_cur_val v) (at_buf k m R)"
  "total (at_buf k m R) (skip_runs i) (at_buf k m R)"
  "total (at_buf k m R) (run_buf (c_world k)) (at_buf k m R)"
  "total (at_buf k m R) (\<lambda>l s. continue l (s\<lparr>stage_cur := stage_cur s + 1\<rparr>)) (at_buf k m R)"
  "total (at_buf k m R) (\<lambda>l s. continue l (s\<lparr>stage_cur_byte := b\<rparr>)) (at_buf k m R)"
  by (rule totalI; (simp only: stage_begin_def stage_end_def set_val_type_def set_cur_val_def skip_runs_def)?;
      (rule post_continue | rule post_run); simp)+

lemma keeps_count_run [keeps]: "total (at_buf k m R) (count_run (c_world k)) (at_buf k m R)"
  unfolding count_run_def by (intro keeps)

lemma keeps_if_len [keeps]:
  "total P f P \<Longrightarrow> total P (\<lambda>l. if f_len l < n then continue l else f l) P"
  by (simp add: total_def post_continue)

text \<open>The same with a condition on the length, which later steps need.\<close>

lemma total_if_len:
  "(n \<le> c_len k \<Longrightarrow> total (at_buf k m R) f (at_buf k m R)) \<Longrightarrow>
     total (at_buf k m R) (\<lambda>l. if f_len l < n then continue l else f l) (at_buf k m R)"
  by (auto simp: total_def post_continue at_buf_D(1))

section \<open>Collecting tokens\<close>

lemma core_add_auto:
  "maybe_add_auto w mem s = Some s' \<Longrightarrow> core s' = core s \<and> stage_cur s' = stage_cur s \<and> stage_max s' = stage_max s"
  by (auto simp: maybe_add_auto_def Let_def UR_def core_def bind_eq_Some_conv split: if_split_asm option.split_asm)

text \<open>A collected token goes to the dictionary, which stays in order.\<close>

definition on_bit :: "('w, 'a) stage_call \<Rightarrow> nat \<Rightarrow> int \<Rightarrow> int \<Rightarrow> fuzz_locals \<Rightarrow> 'a fuzz_state_scheme \<Rightarrow> bool" where
  "on_bit k m c i l s \<longleftrightarrow> buf_is k m l s \<and> stage_cur s = c \<and> stage_max s = i"

lemma on_bit_upd [simp]:
  "on_bit k m c i (collect_byte l b) s = on_bit k m c i l s"
  "on_bit k m c i (l\<lparr>a_len := d, prev_cksum := j\<rparr>) s = on_bit k m c i l s"
  "on_bit k m c i l (s\<lparr>stage_cur_byte := z\<rparr>) = on_bit k m c i l s"
  by (simp_all add: on_bit_def)

lemma add_collected_total: "total (on_bit k m c i) (add_collected (c_world k)) (on_bit k m c i)"
proof (rule totalI)
  fix l s assume P: "on_bit k m c i l s"
  then have B: "buf_is k m l s" by (simp add: on_bit_def)
  let ?mem = "take (unat (a_len l)) (a_collect l)"
  show "post (add_collected (c_world k) l s) (on_bit k m c i)"
    unfolding add_collected_def
  proof (rule post_if)
    assume len: "MIN_AUTO_EXTRA \<le> unat (a_len l) \<and> unat (a_len l) \<le> MAX_AUTO_EXTRA"
    have d: "dict_ok l s" "qsort_ok (c_world k)" using at_buf_D [OF B] by simp_all
    then have "length ?mem = unat (a_len l)" using len by (simp add: dict_ok_def)
    then have mem: "?mem \<noteq> []" "length ?mem < 2 ^ 31"
      using len by (auto simp: MIN_AUTO_EXTRA_def MAX_AUTO_EXTRA_def)
    have wf: "extras_wf s" using d(1) by (simp add: dict_ok_def)
    obtain s' where s': "maybe_add_auto (c_world k) ?mem s = Some s'" "extras_wf s'" "extras s' = extras s"
      "s' \<noteq> s \<longrightarrow> sorted (map x_len (take USE_AUTO_EXTRAS (a_extras s')))"
      using add_auto_spec [OF d(2) wf mem] by blast
    note core = core_add_auto [OF s'(1)]
    have "dict_ok l s'" using d(1) s'(2,3,4) by (cases "s' = s") (simp_all add: dict_ok_def)
    moreover have "c_inv k s'"
      using inv_core [of "c_world k" "c_entry k" "c_inv k" s s'] B core s'(2) by (simp add: at_buf_def call_ok_def)
    ultimately have "buf_is k m l s'" by (intro at_buf_move [OF B])
    then have "on_bit k m c i l s'" using P core unfolding on_bit_def by simp
    then show "post (do { s1 \<leftarrow> maybe_add_auto (c_world k) ?mem s; continue l s1 }) (on_bit k m c i)"
      by (intro post_bind [OF s'(1)] post_continue)
  qed (rule post_continue, rule P)
qed

lemma collect_token_total:
  assumes "0 \<le> c" and "c < 8 * int (c_len k)"
  shows "total (on_bit k m c i) (collect_token (c_world k) (c_entry k)) (on_bit k m c i)"
proof (rule totalI)
  fix l s assume P: "on_bit k m c i l s"
  then have B: "buf_is k m l s" and cur: "stage_cur s = c" by (simp_all add: on_bit_def)
  let ?P = "on_bit k m c i"
  have "nat c div 8 < length (out_buf l)" using assms at_buf_D(4,9) [OF B] by linarith
  then obtain b where b: "get_at (out_buf l) (nat (stage_cur s) div 8) = Some b" using cur by (simp add: get_at_def)
  obtain e where e: "entries s (c_entry k) = Some e" using at_buf_D(12) [OF B] by blast
  have reset: "total ?P (\<lambda>l s. continue (l\<lparr>a_len := 0, prev_cksum := h\<rparr>) s) ?P" for h
    by (rule totalI, rule post_continue) simp
  have first: "total ?P (\<lambda>l s. if stage_cur s = stage_max s - 1 \<and> h = prev_cksum l
        then add_collected (c_world k) (collect_byte l b) s
        else if h \<noteq> prev_cksum l
        then bail (add_collected (c_world k)) (\<lambda>l s. continue (l\<lparr>a_len := 0, prev_cksum := h\<rparr>) s) l s
        else continue l s) ?P" for h
    by (rule totalI, intro post_if totalD [OF add_collected_total] totalD [OF keeps_bail [OF add_collected_total reset]] post_continue)
       simp_all
  have second: "total ?P (\<lambda>l s. continue (if z then collect_byte l b else l) s) ?P" for z
    by (rule totalI, rule post_continue) simp
  show "post (collect_token (c_world k) (c_entry k) l s) ?P"
    unfolding collect_token_def Let_def
    by (intro post_if post_bind [OF b] post_bind [OF e] totalD [OF keeps_bail [OF first second]] post_continue P)
qed

section \<open>Walking bits\<close>

lemma walk_bits_total:
  assumes "\<And>c. 0 \<le> c \<Longrightarrow> c < i \<Longrightarrow> total (on_bit k m c i) after (on_bit k m c i)"
    and "i + int n \<le> 8 * int (c_len k) + 1"
  shows "total (on_bit k m 0 i) (walk_bits (c_world k) n after) (buf_is k m)"
proof -
  let ?body = "\<lambda>l s. bail (flip_bits n) (bail (run_buf (c_world k)) (bail (flip_bits n) after)) l (s\<lparr>stage_cur_byte := stage_cur s div 8\<rparr>)"
  have body: "total (\<lambda>l s. buf_is k m l s \<and> stage_cur s = c \<and> stage_max s = i) ?body
     (\<lambda>l s. buf_is k m l (s\<lparr>stage_cur := c + 1\<rparr>) \<and> stage_cur s = c \<and> stage_max s = i)" if c: "0 \<le> c" "c < i" for c
  proof (rule totalI, elim conjE)
    fix l s assume B: "buf_is k m l s" and cm: "stage_cur s = c" "stage_max s = i"
    have "n + nat c \<le> 8 * c_len k" using c assms(2) by linarith
    moreover have "c_len k \<le> length (c_buf k)" using at_buf_D(9) [OF B] .
    ultimately have r: "nat c + n \<le> 8 * length (c_buf k)" by linarith
    obtain b where b: "flip_run n (nat c) (c_buf k) = Some b" "length b = length (c_buf k)"
      using flip_run_bits [OF r] by blast
    note again = flip_run_back [OF b(1) r]
    let ?Q = "\<lambda>l s. at_buf k m ((=) b) l s \<and> stage_cur s = c \<and> stage_max s = i"
    have there: "post (flip_bits n l (s\<lparr>stage_cur_byte := stage_cur s div 8\<rparr>)) ?Q"
      unfolding flip_bits_def
      by (rule post_set_buf [of _ b]) (use B cm b at_buf_D(3) [OF B] in auto)
    have run: "total ?Q (run_buf (c_world k)) ?Q"
      by (rule totalI) (auto intro!: post_run simp: kept_def)
    have here: "total ?Q (flip_bits n) (on_bit k m c i)"
    proof (rule totalI)
      fix l1 s1 assume Q: "?Q l1 s1"
      then have "out_buf l1 = b" using at_buf_D(3) by blast
      then have "flip_run n (nat (stage_cur s1)) (out_buf l1) = Some (c_buf k)" using again Q by simp
      then show "post (flip_bits n l1 s1) (on_bit k m c i)"
        unfolding flip_bits_def by (rule post_set_buf) (use Q in \<open>auto simp: on_bit_def\<close>)
    qed
    have "post (?body l s) (on_bit k m c i)"
      by (rule post_bail [where f = "flip_bits n", OF there]) (intro total_bail [OF run] total_bail [OF here] assms(1) c)
    then show "post (?body l s) (\<lambda>l s. buf_is k m l (s\<lparr>stage_cur := c + 1\<rparr>) \<and> stage_cur s = c \<and> stage_max s = i)"
      by (rule post_weaken) (simp add: on_bit_def)
  qed
  show ?thesis
    unfolding walk_bits_def by (rule total_weaken [OF total_stage_loop [OF body]]) (auto simp: on_bit_def)
qed

lemma begin_on_bit: "total (buf_is k m) (stage_begin a c i) (on_bit k m 0 i)"
  by (rule totalI) (simp add: stage_begin_def post_continue on_bit_def)

lemma walk_stage:
  assumes "\<And>c. 0 \<le> c \<Longrightarrow> c < i \<Longrightarrow> total (on_bit k m c i) after (on_bit k m c i)"
    and "i + int n \<le> 8 * int (c_len k) + 1"
  shows "total (buf_is k m) (bail (bail (stage_begin a b i) (walk_bits (c_world k) n after)) (stage_end j)) (buf_is k m)"
  by (intro total_bail [OF total_bail [OF begin_on_bit walk_bits_total [OF assms]] keeps_simple(2)])

lemma flip1_keeps [keeps]: "total (buf_is k m) (flip1_stage (c_world k) (c_entry k)) (buf_is k m)"
proof (rule totalI)
  fix l s assume B: "buf_is k m l s"
  then obtain e where e: "entries s (c_entry k) = Some e" using at_buf_D(12) by blast
  have st: "total (buf_is k m) (bail (bail (stage_begin ''bitflip 1/1'' ''flip1'' (8 * int (f_len l)))
      (walk_bits (c_world k) 1 (collect_token (c_world k) (c_entry k)))) (stage_end 0)) (buf_is k m)"
    unfolding at_buf_D(1) [OF B] by (rule walk_stage) (simp_all add: collect_token_total)
  show "post (flip1_stage (c_world k) (c_entry k) l s) (buf_is k m)"
    unfolding flip1_stage_def by (rule post_bind [OF e], rule totalD [OF st]) (use B in simp)
qed

lemma flip2_keeps [keeps]: "total (buf_is k m) (flip2_stage (c_world k)) (buf_is k m)"
proof (rule totalI)
  fix l s assume B: "buf_is k m l s"
  show "post (flip2_stage (c_world k) l s) (buf_is k m)"
    unfolding flip2_stage_def at_buf_D(1) [OF B] by (rule totalD [where P = "buf_is k m"], rule walk_stage) (use B in \<open>simp_all add: total_continue\<close>)
qed

lemma flip4_keeps [keeps]: "total (buf_is k m) (flip4_stage (c_world k)) (buf_is k m)"
proof (rule totalI)
  fix l s assume B: "buf_is k m l s"
  show "post (flip4_stage (c_world k) l s) (buf_is k m)"
    unfolding flip4_stage_def at_buf_D(1) [OF B] by (rule totalD [where P = "buf_is k m"], rule walk_stage) (use B in \<open>simp_all add: total_continue\<close>)
qed

section \<open>Walking bytes\<close>

lemma EFF_APOS_less: "i < n \<Longrightarrow> EFF_APOS i < EFF_ALEN n"
proof -
  assume i: "i < n"
  have "(push_bit 3 1 - 1 :: nat) = 7" by (simp add: push_bit_eq_mult)
  then have r: "EFF_REM n = n mod 8" by (simp add: EFF_REM_def EFF_MAP_SCALE2_def mask7)
  have "i div 8 \<le> n div 8" "n mod 8 = 0 \<Longrightarrow> i div 8 < n div 8"
    using i by (simp_all add: div_le_mono) (metis div_less_iff_less_mult mult.commute div_mult_mod_eq add.right_neutral zero_less_numeral)
  then show ?thesis by (auto simp: EFF_ALEN_def EFF_APOS_def EFF_MAP_SCALE2_def shift3 r)
qed

lemma eff_clear_defined:
  "(\<And>i. i \<in> set is \<Longrightarrow> i < n) \<Longrightarrow> length m = EFF_ALEN n \<Longrightarrow> \<exists>z. eff_clear m is = Some z"
proof (induction "is")
  case Nil
  show ?case by (rule exI [of _ True]) simp
next
  case (Cons i "is")
  then have "EFF_APOS i < length m" using EFF_APOS_less by simp
  moreover obtain z where "eff_clear m is = Some z" using Cons by auto
  ultimately have "eff_clear m (i # is) = Some (m ! EFF_APOS i = 0 \<and> z)" by (simp add: get_at_Some)
  then show ?case by blast
qed

text \<open>From here on the effector map is in place.\<close>

abbreviation with_eff :: "('w, 'a) stage_call \<Rightarrow> (u8 list \<Rightarrow> bool) \<Rightarrow> fuzz_locals \<Rightarrow> 'a fuzz_state_scheme \<Rightarrow> bool" where
  "with_eff k R \<equiv> at_buf k (EFF_ALEN (c_len k)) R"

lemma at_buf_eff_map:
  "at_buf k m R l s \<Longrightarrow> length e = m' \<Longrightarrow> at_buf k m' R (l\<lparr>eff_map := e\<rparr>) s"
  "at_buf k m R l s \<Longrightarrow> length e = m' \<Longrightarrow> at_buf k m' R (l\<lparr>eff_map := e, eff_cnt := c\<rparr>) s"
  unfolding at_buf_def dict_ok_def by simp_all

lemma eff_setup_total: "total (buf_is k m) eff_setup (with_eff k ((=) (c_buf k)))"
proof (rule totalI)
  fix l s assume B: "buf_is k m l s"
  have n: "f_len l = c_len k" "1 \<le> c_len k" using at_buf_D [OF B] by simp_all
  have "EFF_APOS 0 < EFF_ALEN (c_len k)" "EFF_APOS (c_len k - 1) < EFF_ALEN (c_len k)"
    using n(2) by (auto intro!: EFF_APOS_less)
  then have a: "0 < EFF_ALEN (c_len k)" "EFF_APOS (c_len k - 1) < EFF_ALEN (c_len k)" by linarith+
  show "post (eff_setup l s) (with_eff k ((=) (c_buf k)))"
    unfolding eff_setup_def n(1)
    by (rule post_bind [OF set_at_Some], simp only: length_replicate a, rule post_if,
        rule post_bind [OF set_at_Some], simp only: length_list_update length_replicate a)
       (rule post_continue, rule at_buf_eff_map [OF B], simp)+
qed

text \<open>A change of some bytes that is its own inverse.\<close>

lemma map_xor_twice: "map (\<lambda>b. b XOR 255) (map (\<lambda>b. b XOR 255) d) = (d :: u8 list)"
  by (simp add: comp_def xor.assoc)

lemma flip_bytes_twice:
  assumes "i + n \<le> c_len k" and "\<And>b. total (\<lambda>l s. with_eff k ((=) b) l s \<and> S s) f (\<lambda>l s. with_eff k ((=) b) l s \<and> S s)"
  shows "total (\<lambda>l s. with_eff k ((=) (c_buf k)) l s \<and> S s) (bail (flip_bytes n i) (bail f (flip_bytes n i)))
    (\<lambda>l s. with_eff k ((=) (c_buf k)) l s \<and> S s)"
proof (rule totalI)
  fix l s assume BS: "with_eff k ((=) (c_buf k)) l s \<and> S s"
  then have B: "with_eff k ((=) (c_buf k)) l s" by simp
  let ?c = "c_buf k" and ?P = "\<lambda>b l s. with_eff k ((=) b) l s \<and> S s"
  let ?d = "take n (drop i ?c)"
  let ?b = "take i ?c @ map (\<lambda>b. b XOR 255) ?d @ drop (i + n) ?c"
  have i: "i + n \<le> length ?c" using assms(1) at_buf_D(9) [OF B] by simp
  have p: "put ?c i (map (\<lambda>b. b XOR 255) ?d) = Some ?b" using i by (simp add: put_Some)
  have p': "put ?b i (map (\<lambda>b. b XOR 255) (map (\<lambda>b. b XOR 255) ?d)) = Some ?c"
    using put_put_back [OF p] i by (simp only: map_xor_twice length_map) simp
  have len: "length ?b = length ?c" using put_length [OF p] .
  have there: "total (?P ?c) (flip_bytes n i) (?P ?b)"
  proof (rule totalI)
    fix l s assume "?P ?c l s"
    then have Q: "with_eff k ((=) ?c) l s" and S: "S s" by simp_all
    have o: "out_buf l = ?c" using at_buf_D(3) [OF Q] by simp
    have "do { d \<leftarrow> slice (out_buf l) i n; put (out_buf l) i (map (\<lambda>b. b XOR 255) d) } = Some ?b"
      using i p by (simp add: o slice_Some)
    then show "post (flip_bytes n i l s) (?P ?b)"
      unfolding flip_bytes_def by (rule post_set_buf) (rule conjI [OF at_buf_out [OF len Q refl] S])
  qed
  have here: "total (?P ?b) (flip_bytes n i) (?P ?c)"
  proof (rule totalI)
    fix l s assume "?P ?b l s"
    then have Q: "with_eff k ((=) ?b) l s" and S: "S s" by simp_all
    have o: "out_buf l = ?b" using at_buf_D(3) [OF Q] by simp
    have "slice ?b i n = Some (map (\<lambda>b. b XOR 255) ?d)" using i by (simp add: slice_def)
    then have "do { d \<leftarrow> slice (out_buf l) i n; put (out_buf l) i (map (\<lambda>b. b XOR 255) d) } = Some ?c"
      using p' by (simp only: o bind.bind_lunit)
    then show "post (flip_bytes n i l s) (?P ?c)"
      unfolding flip_bytes_def by (rule post_set_buf) (rule conjI [OF at_buf_out [OF refl Q refl] S])
  qed
  have "total (?P ?c) (bail (flip_bytes n i) (bail f (flip_bytes n i))) (?P ?c)"
    by (intro total_bail [OF there] total_bail [OF assms(2)] here)
  then show "post (bail (flip_bytes n i) (bail f (flip_bytes n i)) l s) (?P ?c)" using BS by (rule totalD)
qed

lemma flip_bytes_run [keeps]:
  assumes "i + n \<le> c_len k"
  shows "total (with_eff k ((=) (c_buf k))) (bail (flip_bytes n i) (bail (count_run (c_world k)) (flip_bytes n i)))
    (with_eff k ((=) (c_buf k)))"
proof -
  have "total (\<lambda>l s. with_eff k ((=) b) l s \<and> True) (count_run (c_world k)) (\<lambda>l s. with_eff k ((=) b) l s \<and> True)" for b
    using keeps_count_run by simp
  from flip_bytes_twice [OF assms, where S = "\<lambda>_. True", OF this] show ?thesis by simp
qed

lemma bail_assoc: "bail (bail f g) h = bail f (bail g h)"
proof (intro ext)
  fix l s
  show "bail (bail f g) h l s = bail f (bail g h) l s"
  proof (cases "f l s")
    case None
    then show ?thesis by (simp add: bail_def)
  next
    case (Some x)
    then show ?thesis by (cases x) (auto simp: bail_def)
  qed
qed

lemma note_effect_total:
  assumes "0 \<le> c" and "c < int (c_len k)"
  shows "total (\<lambda>l s. with_eff k R l s \<and> stage_cur s = c \<and> stage_max s = i) (note_effect (c_entry k))
    (\<lambda>l s. with_eff k R l s \<and> stage_cur s = c \<and> stage_max s = i)"
proof (rule totalI, elim conjE)
  fix l s assume B: "with_eff k R l s" and c: "stage_cur s = c" "stage_max s = i"
  have "nat c < c_len k" using assms by linarith
  then obtain z where z: "eff_clear (eff_map l) [nat (stage_cur s)] = Some z"
    using eff_clear_defined [of "[nat c]" "c_len k" "eff_map l"] at_buf_D(5) [OF B] c(1) by auto
  obtain e where e: "entries s (c_entry k) = Some e" using at_buf_D(12) [OF B] by blast
  show "post (note_effect (c_entry k) l s) (\<lambda>l s. with_eff k R l s \<and> stage_cur s = c \<and> stage_max s = i)"
    unfolding note_effect_def Let_def
    by (intro post_bind [OF z] post_bind [OF e] post_if post_continue) (use B c in simp_all)
qed

lemma eff_finish_total: "total (with_eff k R) eff_finish (with_eff k R)"
proof (rule totalI)
  fix l s assume B: "with_eff k R l s"
  have n: "f_len l = c_len k" "1 \<le> c_len k" "c_len k \<le> MAX_FILE" using at_buf_D [OF B] by simp_all
  have pos: "0 < EFF_ALEN (c_len k)" using EFF_APOS_less [of 0 "c_len k"] n(2) by simp
  have "EFF_ALEN (c_len k) \<le> c_len k div 8 + 1" by (simp add: EFF_ALEN_def EFF_APOS_def EFF_MAP_SCALE2_def shift3)
  then have "EFF_ALEN (c_len k) \<le> c_len k + 1" using div_le_dividend [of "c_len k" 8] by linarith
  then have "EFF_ALEN (c_len k) < 2 ^ 32" using n(3) by (simp add: MAX_FILE_def)
  then have "unat (of_nat (EFF_ALEN (c_len k)) :: u32) = EFF_ALEN (c_len k)"
    by (simp add: unsigned_of_nat take_bit_nat_eq_self)
  then have "(of_nat (EFF_ALEN (c_len k)) :: u32) \<noteq> 0" using pos by (metis unat_0 less_irrefl)
  then show "post (eff_finish l s) (with_eff k R)"
    unfolding eff_finish_def Let_def n(1)
    by (simp only: if_False) (rule post_continue, use B at_buf_D(5) [OF B] in simp)
qed

lemma flip8_loop:
  "total (\<lambda>l s. with_eff k ((=) (c_buf k)) l s \<and> 0 \<le> stage_cur s \<and> stage_max s = int (c_len k))
     (stage_loop (\<lambda>l s.
       let i = nat (stage_cur s) in
       bail (flip_bytes 1 i) (bail (run_buf (c_world k)) (bail (note_effect (c_entry k)) (flip_bytes 1 i))) l
         (s\<lparr>stage_cur_byte := stage_cur s\<rparr>)))
     (with_eff k ((=) (c_buf k)))"
proof (rule total_stage_loop)
  fix c assume c: "0 \<le> c" "c < int (c_len k)"
  let ?S = "\<lambda>s :: 'a fuzz_state_scheme. stage_cur s = c \<and> stage_max s = int (c_len k)"
  let ?P = "\<lambda>R l s. with_eff k R l s \<and> ?S s"
  have run: "total (?P R) (run_buf (c_world k)) (?P R)" for R
    by (rule totalI) (auto intro!: post_run simp: kept_def)
  have i: "nat c + 1 \<le> c_len k" using c by linarith
  have mid: "total (?P R) (bail (run_buf (c_world k)) (note_effect (c_entry k))) (?P R)" for R
    by (rule total_bail [OF run]) (rule note_effect_total [OF c])
  have body: "total (?P ((=) (c_buf k)))
      (bail (flip_bytes 1 (nat c)) (bail (run_buf (c_world k)) (bail (note_effect (c_entry k)) (flip_bytes 1 (nat c)))))
      (?P ((=) (c_buf k)))"
    using flip_bytes_twice [OF i, of ?S, OF mid] unfolding bail_assoc .
  show "total (?P ((=) (c_buf k)))
     (\<lambda>l s. let i = nat (stage_cur s) in
       bail (flip_bytes 1 i) (bail (run_buf (c_world k)) (bail (note_effect (c_entry k)) (flip_bytes 1 i))) l
         (s\<lparr>stage_cur_byte := stage_cur s\<rparr>))
     (\<lambda>l s. with_eff k ((=) (c_buf k)) l (s\<lparr>stage_cur := c + 1\<rparr>) \<and> ?S s)"
  proof (rule totalI, elim conjE)
    fix l s assume "with_eff k ((=) (c_buf k)) l s" and s: "stage_cur s = c" "stage_max s = int (c_len k)"
    then have "?P ((=) (c_buf k)) l (s\<lparr>stage_cur_byte := c\<rparr>)" by simp
    from totalD [OF body this]
    show "post (let i = nat (stage_cur s) in
       bail (flip_bytes 1 i) (bail (run_buf (c_world k)) (bail (note_effect (c_entry k)) (flip_bytes 1 i))) l
         (s\<lparr>stage_cur_byte := stage_cur s\<rparr>)) (\<lambda>l s. with_eff k ((=) (c_buf k)) l (s\<lparr>stage_cur := c + 1\<rparr>) \<and> ?S s)"
      unfolding Let_def s(1) by (rule post_weaken) simp
  qed
qed

lemma flip8_total: "total (buf_is k m) (flip8_stage (c_world k) (c_entry k)) (with_eff k ((=) (c_buf k)))"
proof -
  have head: "total (with_eff k ((=) (c_buf k))) (\<lambda>l. stage_begin a c (int (f_len l)) l)
      (\<lambda>l s. with_eff k ((=) (c_buf k)) l s \<and> 0 \<le> stage_cur s \<and> stage_max s = int (c_len k))" for a c
    by (rule totalI) (simp add: stage_begin_def post_continue at_buf_D(1))
  show ?thesis
  proof (rule totalI)
    fix l s assume "buf_is k m l s"
    then show "post (flip8_stage (c_world k) (c_entry k) l s) (with_eff k ((=) (c_buf k)))"
      unfolding flip8_stage_def
      by (rule totalD [rotated]) (intro total_bail [OF eff_setup_total] total_bail [OF head]
          total_bail [OF flip8_loop] total_bail [OF eff_finish_total] keeps_simple)
  qed
qed

text \<open>A position with its bytes: either no block it touches has an effect, or the step is taken there.\<close>

lemma at_effective_total:
  assumes "i + n \<le> c_len k" and "total (with_eff k R) f (with_eff k R)"
  shows "total (with_eff k R) (at_effective n r i f) (with_eff k R)"
proof (rule totalI)
  fix l s assume B: "with_eff k R l s"
  obtain z where z: "eff_clear (eff_map l) [i..<i + n] = Some z"
    using eff_clear_defined [of "[i..<i + n]" "c_len k" "eff_map l"] assms(1) at_buf_D(5) [OF B] by fastforce
  have "post (skip_runs r l s) (with_eff k R)" by (rule totalD [OF keeps_simple(5) B])
  moreover have "post (f l (s\<lparr>stage_cur_byte := int i\<rparr>)) (with_eff k R)"
    by (rule totalD [OF assms(2)]) (use B in simp)
  ultimately show "post (at_effective n r i f l s) (with_eff k R)"
    unfolding at_effective_def by (intro post_bind [OF z]) (simp split: if_split)
qed

text \<open>The loop over all positions that leave room for \<open>n\<close> bytes.\<close>

lemma positions_total:
  assumes "1 \<le> n" and "\<And>i. i + n \<le> c_len k \<Longrightarrow> total (with_eff k R) (f i) (with_eff k R)"
  shows "total (with_eff k R) (for_loop [0..<c_len k + 1 - n] (\<lambda>i. at_effective n r i (f i))) (with_eff k R)"
  using assms by (intro total_for_loop at_effective_total) auto

end
