(* ===== verification/Afl_UndoDet.thy ===== *)
theory Afl_UndoDet
  imports Afl_Undo Afl_HavocSafe
begin

text \<open>
  The other deterministic stages leave the buffer as they found it, and end whenever the runs do:
  wider flips, arithmetic, interesting values, tokens.
\<close>

section \<open>Wider flips\<close>

lemma flip16_keeps:
  assumes "2 \<le> c_len k"
  shows "total (with_eff k ((=) (c_buf k))) (flip16_stage (c_world k)) (with_eff k ((=) (c_buf k)))"
proof (rule totalI)
  fix l s assume B: "with_eff k ((=) (c_buf k)) l s"
  have r: "[0..<c_len k - 1] = [0..<c_len k + 1 - 2]" by simp
  show "post (flip16_stage (c_world k) l s) (with_eff k ((=) (c_buf k)))"
    unfolding flip16_stage_def at_buf_D(1) [OF B] r
    by (rule totalD [where P = "with_eff k ((=) (c_buf k))"],
        intro total_bail [OF keeps_simple(1)] total_bail [OF positions_total] keeps_simple(2), simp_all add: B flip_bytes_run)
qed

lemma flip32_keeps:
  assumes "4 \<le> c_len k"
  shows "total (with_eff k ((=) (c_buf k))) (flip32_stage (c_world k)) (with_eff k ((=) (c_buf k)))"
proof (rule totalI)
  fix l s assume B: "with_eff k ((=) (c_buf k)) l s"
  have r: "[0..<c_len k - 3] = [0..<c_len k + 1 - 4]" by simp
  show "post (flip32_stage (c_world k) l s) (with_eff k ((=) (c_buf k)))"
    unfolding flip32_stage_def at_buf_D(1) [OF B] r
    by (rule totalD [where P = "with_eff k ((=) (c_buf k))"],
        intro total_bail [OF keeps_simple(1)] total_bail [OF positions_total] keeps_simple(2), simp_all add: B flip_bytes_run)
qed

lemma bitflips_total: "total (buf_is k m) (bitflip_stages (c_world k) (c_entry k)) (with_eff k ((=) (c_buf k)))"
proof (rule totalI)
  fix l s assume B: "buf_is k m l s"
  show "post (bitflip_stages (c_world k) (c_entry k) l s) (with_eff k ((=) (c_buf k)))"
    unfolding bitflip_stages_def
    by (rule totalD [where P = "buf_is k m"], intro total_bail [OF flip1_keeps] total_bail [OF flip2_keeps]
        total_bail [OF flip4_keeps] total_bail [OF flip8_total] total_if_len total_bail [OF flip16_keeps] flip32_keeps,
        simp_all add: B)
qed

section \<open>Values\<close>

abbreviation near_eff :: "('w, 'a) stage_call \<Rightarrow> nat \<Rightarrow> nat \<Rightarrow> fuzz_locals \<Rightarrow> 'a fuzz_state_scheme \<Rightarrow> bool" where
  "near_eff k i n \<equiv> with_eff k (near i n (c_buf k))"

lemma not_flip_defined: "\<exists>z. not_flip c r = Some z"
  by (cases c) (auto simp: not_flip_def could_be_bitflip_value)

lemma not_seen_defined: "\<exists>z. not_seen c a b n le = Some z"
  using not_flip_defined [of True "a XOR b"] by (simp add: not_seen_def) blast

lemma not_arith_defined: "\<exists>z. (if a then Some False else not_flip c r) = Some z"
  using not_flip_defined [of c r] by auto

text \<open>A value is written where it fits, over bytes that may be overwritten.\<close>

definition writes :: "nat \<Rightarrow> nat \<Rightarrow> u8 list \<Rightarrow> (u8 list \<Rightarrow> u8 list option) \<Rightarrow> bool" where
  "writes i n b wr \<longleftrightarrow> (\<forall>c. near i n b c \<longrightarrow> (\<exists>c'. wr c = Some c' \<and> near i n b c'))"

lemma near_length: "near i n b c \<Longrightarrow> length c = length b"
  by (auto simp: near_def)

lemma writes_store: "writes i n b (\<lambda>b. store n b i v)"
  unfolding writes_def
proof (intro allI impI)
  fix c assume c: "near i n b c"
  then have "i + n \<le> length c" using near_length [OF c] by (simp add: near_def)
  then show "\<exists>c'. store n c i v = Some c' \<and> near i n b c'"
    using near_store [OF c] by (auto simp: store_Some)
qed

lemma writes_set_at: "writes i 1 b (\<lambda>b. set_at b i v)"
  unfolding writes_def using near_set_at near_set_at_near by blast

lemma write_total:
  assumes "writes i n (c_buf k) wr"
  shows "total (near_eff k i n) (\<lambda>l. set_buf (wr (out_buf l)) l) (near_eff k i n)"
proof (rule totalI)
  fix l s assume B: "near_eff k i n l s"
  obtain c where c: "wr (out_buf l) = Some c" "near i n (c_buf k) c"
    using assms at_buf_D(3) [OF B] unfolding writes_def by blast
  show "post (set_buf (wr (out_buf l)) l s) (near_eff k i n)"
    by (rule post_set_buf [OF c(1)]) (rule at_buf_out, rule near_length [OF c(2)], rule B, rule c(2))
qed

lemma try_value_total:
  assumes "\<exists>z. ok = Some z" and "writes i n (c_buf k) wr"
  shows "total (near_eff k i n) (try_value (c_world k) ok v wr) (near_eff k i n)"
proof (rule totalI)
  fix l s assume B: "near_eff k i n l s"
  obtain z where z: "ok = Some z" using assms(1) by blast
  have "post (bail (\<lambda>l. set_buf (wr (out_buf l)) l) (count_run (c_world k)) l (s\<lparr>stage_cur_val := v\<rparr>)) (near_eff k i n)"
    by (rule totalD [OF total_bail [OF write_total [OF assms(2)] keeps_count_run]]) (use B in simp)
  moreover have "post (skip_runs 1 l s) (near_eff k i n)" by (rule totalD [OF keeps_simple(5) B])
  ultimately show "post (try_value (c_world k) ok v wr l s) (near_eff k i n)"
    by (simp add: try_value_def z)
qed

lemma try_wide_total:
  assumes "\<exists>z. ok = Some z" and "writes i n (c_buf k) wr"
  shows "total (near_eff k i n) (try_wide (c_world k) ok t wr) (near_eff k i n)"
proof (rule totalI)
  fix l s assume B: "near_eff k i n l s"
  obtain z where z: "ok = Some z" using assms(1) by blast
  have "post (bail (\<lambda>l. set_buf (wr (out_buf l)) l) (count_run (c_world k)) l (s\<lparr>stage_val_type := t\<rparr>)) (near_eff k i n)"
    by (rule totalD [OF total_bail [OF write_total [OF assms(2)] keeps_count_run]]) (use B in simp)
  moreover have "post (skip_runs 1 l s) (near_eff k i n)" by (rule totalD [OF keeps_simple(5) B])
  ultimately show "post (try_wide (c_world k) ok t wr l s) (near_eff k i n)"
    by (simp add: try_wide_def z)
qed

lemmas tries = try_value_total [OF not_flip_defined] try_value_total [OF not_arith_defined] try_wide_total [OF not_seen_defined]
  writes_store writes_set_at

text \<open>The old value is written back.\<close>

lemma restore_byte:
  assumes "get_at (c_buf k) i = Some v"
  shows "total (near_eff k i 1) (\<lambda>l. set_buf (set_at (out_buf l) i v) l) (with_eff k ((=) (c_buf k)))"
proof (rule totalI)
  fix l s assume B: "near_eff k i 1 l s"
  obtain c where c: "set_at (out_buf l) i v = Some c"
    using writes_set_at at_buf_D(3) [OF B] unfolding writes_def by blast
  have "c = c_buf k" by (rule near_restore_byte [OF at_buf_D(3) [OF B] assms c])
  then show "post (set_buf (set_at (out_buf l) i v) l s) (with_eff k ((=) (c_buf k)))"
    by (intro post_set_buf [OF c]) (rule at_buf_out, simp, rule B, simp)
qed

lemma restore_word:
  assumes "load n (c_buf k) i = Some (v :: 'n::len word)" and "8 * n \<le> LENGTH('n)"
  shows "total (near_eff k i n) (\<lambda>l. set_buf (store n (out_buf l) i v) l) (with_eff k ((=) (c_buf k)))"
proof (rule totalI)
  fix l s assume B: "near_eff k i n l s"
  obtain c where c: "store n (out_buf l) i v = Some c"
    using writes_store at_buf_D(3) [OF B] unfolding writes_def by blast
  have "c = c_buf k" by (rule near_restore [OF at_buf_D(3) [OF B] assms c])
  then show "post (set_buf (store n (out_buf l) i v) l s) (with_eff k ((=) (c_buf k)))"
    by (intro post_set_buf [OF c]) (rule at_buf_out, simp, rule B, simp)
qed

lemma to_near:
  assumes "i + n \<le> c_len k" and "total (near_eff k i n) f Q"
  shows "total (with_eff k ((=) (c_buf k))) f Q"
proof (rule total_weaken [OF assms(2)])
  fix l s assume B: "with_eff k ((=) (c_buf k)) l s"
  then have "near i n (c_buf k) (out_buf l)" using near_refl [of i n "c_buf k"] at_buf_D(3,9) [OF B] assms(1) by auto
  then show "near_eff k i n l s" using B unfolding at_buf_def by blast
qed auto

lemma keeps_then: "total P f P \<Longrightarrow> total P g Q \<Longrightarrow> total P (bail f g) Q"
  by (rule total_bail)

lemma load_there: "i + n \<le> length b \<Longrightarrow> \<exists>v. load n b i = Some v"
  by (simp add: load_Some)

lemma get_there: "i + 1 \<le> length b \<Longrightarrow> \<exists>v. get_at b i = Some v"
  by (simp add: get_at_Some)

lemma loop_then_restore:
  "total P (for_loop is f) P \<Longrightarrow> total P g Q \<Longrightarrow> total P (bail (for_loop is f) g) Q"
  by (rule total_bail)

lemma arith8_at_total:
  assumes "i + 1 \<le> c_len k"
  shows "total (with_eff k ((=) (c_buf k))) (arith8_at (c_world k) i) (with_eff k ((=) (c_buf k)))"
proof (rule totalI)
  fix l s assume B: "with_eff k ((=) (c_buf k)) l s"
  have o: "out_buf l = c_buf k" and len: "i + 1 \<le> length (c_buf k)" using at_buf_D(3,9) [OF B] assms by simp_all
  obtain v where v: "get_at (c_buf k) i = Some v" using get_there [OF len] by blast
  show "post (arith8_at (c_world k) i l s) (with_eff k ((=) (c_buf k)))"
    unfolding arith8_at_def o Let_def
    by (intro post_bind [OF v], rule totalD [where P = "with_eff k ((=) (c_buf k))"], intro total_for_loop,
        rule to_near [OF assms], intro keeps_then keeps_simple tries restore_byte [OF v], simp_all add: B)
qed

lemma arith16_at_total:
  assumes "i + 2 \<le> c_len k"
  shows "total (with_eff k ((=) (c_buf k))) (arith16_at (c_world k) i) (with_eff k ((=) (c_buf k)))"
proof (rule totalI)
  fix l s assume B: "with_eff k ((=) (c_buf k)) l s"
  have o: "out_buf l = c_buf k" and len: "i + 2 \<le> length (c_buf k)" using at_buf_D(3,9) [OF B] assms by simp_all
  obtain v where v: "load 2 (c_buf k) i = Some (v :: u16)" using load_there [OF len] by blast
  show "post (arith16_at (c_world k) i l s) (with_eff k ((=) (c_buf k)))"
    unfolding arith16_at_def o Let_def
    by (intro post_bind [OF v], rule totalD [where P = "with_eff k ((=) (c_buf k))"], intro total_for_loop,
        rule to_near [OF assms], intro keeps_then keeps_simple tries restore_word [OF v], simp_all add: B)
qed

lemma arith32_at_total:
  assumes "i + 4 \<le> c_len k"
  shows "total (with_eff k ((=) (c_buf k))) (arith32_at (c_world k) i) (with_eff k ((=) (c_buf k)))"
proof (rule totalI)
  fix l s assume B: "with_eff k ((=) (c_buf k)) l s"
  have o: "out_buf l = c_buf k" and len: "i + 4 \<le> length (c_buf k)" using at_buf_D(3,9) [OF B] assms by simp_all
  obtain v where v: "load 4 (c_buf k) i = Some (v :: u32)" using load_there [OF len] by blast
  show "post (arith32_at (c_world k) i l s) (with_eff k ((=) (c_buf k)))"
    unfolding arith32_at_def o Let_def
    by (intro post_bind [OF v], rule totalD [where P = "with_eff k ((=) (c_buf k))"], intro total_for_loop,
        rule to_near [OF assms], intro keeps_then keeps_simple tries restore_word [OF v], simp_all add: B)
qed

lemma interest8_at_total:
  assumes "i + 1 \<le> c_len k"
  shows "total (with_eff k ((=) (c_buf k))) (interest8_at (c_world k) i) (with_eff k ((=) (c_buf k)))"
proof (rule totalI)
  fix l s assume B: "with_eff k ((=) (c_buf k)) l s"
  have o: "out_buf l = c_buf k" and len: "i + 1 \<le> length (c_buf k)" using at_buf_D(3,9) [OF B] assms by simp_all
  obtain v where v: "get_at (c_buf k) i = Some v" using get_there [OF len] by blast
  show "post (interest8_at (c_world k) i l s) (with_eff k ((=) (c_buf k)))"
    unfolding interest8_at_def o Let_def
    by (intro post_bind [OF v], rule totalD [where P = "with_eff k ((=) (c_buf k))"], intro total_for_loop,
        rule to_near [OF assms], intro keeps_then keeps_simple tries restore_byte [OF v], simp_all add: B)
qed

lemma interest16_at_total:
  assumes "i + 2 \<le> c_len k"
  shows "total (with_eff k ((=) (c_buf k))) (interest16_at (c_world k) i) (with_eff k ((=) (c_buf k)))"
proof (rule totalI)
  fix l s assume B: "with_eff k ((=) (c_buf k)) l s"
  have o: "out_buf l = c_buf k" and len: "i + 2 \<le> length (c_buf k)" using at_buf_D(3,9) [OF B] assms by simp_all
  obtain v where v: "load 2 (c_buf k) i = Some (v :: u16)" using load_there [OF len] by blast
  show "post (interest16_at (c_world k) i l s) (with_eff k ((=) (c_buf k)))"
    unfolding interest16_at_def o Let_def
    by (intro post_bind [OF v], rule totalD [where P = "with_eff k ((=) (c_buf k))"],
        rule to_near [OF assms], intro loop_then_restore total_for_loop keeps_then keeps_simple tries restore_word [OF v], simp_all add: B)
qed

lemma interest32_at_total:
  assumes "i + 4 \<le> c_len k"
  shows "total (with_eff k ((=) (c_buf k))) (interest32_at (c_world k) i) (with_eff k ((=) (c_buf k)))"
proof (rule totalI)
  fix l s assume B: "with_eff k ((=) (c_buf k)) l s"
  have o: "out_buf l = c_buf k" and len: "i + 4 \<le> length (c_buf k)" using at_buf_D(3,9) [OF B] assms by simp_all
  obtain v where v: "load 4 (c_buf k) i = Some (v :: u32)" using load_there [OF len] by blast
  show "post (interest32_at (c_world k) i l s) (with_eff k ((=) (c_buf k)))"
    unfolding interest32_at_def o Let_def
    by (intro post_bind [OF v], rule totalD [where P = "with_eff k ((=) (c_buf k))"],
        rule to_near [OF assms], intro loop_then_restore total_for_loop keeps_then keeps_simple tries restore_word [OF v], simp_all add: B)
qed

lemma arith8_total:
  shows "total (with_eff k ((=) (c_buf k))) (arith8_stage (c_world k)) (with_eff k ((=) (c_buf k)))"
proof (rule totalI)
  fix l s assume B: "with_eff k ((=) (c_buf k)) l s"
  have r: "[0..<c_len k] = [0..<c_len k + 1 - 1]" by simp
  show "post (arith8_stage (c_world k) l s) (with_eff k ((=) (c_buf k)))"
    unfolding arith8_stage_def at_buf_D(1) [OF B] r
    by (rule totalD [where P = "with_eff k ((=) (c_buf k))"],
        intro keeps_then keeps_simple positions_total arith8_at_total, simp_all add: B)
qed

lemma arith16_total:
  assumes "2 \<le> c_len k"
  shows "total (with_eff k ((=) (c_buf k))) (arith16_stage (c_world k)) (with_eff k ((=) (c_buf k)))"
proof (rule totalI)
  fix l s assume B: "with_eff k ((=) (c_buf k)) l s"
  have r: "[0..<c_len k - 1] = [0..<c_len k + 1 - 2]" by simp
  show "post (arith16_stage (c_world k) l s) (with_eff k ((=) (c_buf k)))"
    unfolding arith16_stage_def at_buf_D(1) [OF B] r
    by (rule totalD [where P = "with_eff k ((=) (c_buf k))"],
        intro keeps_then keeps_simple positions_total arith16_at_total, simp_all add: B)
qed

lemma arith32_total:
  assumes "4 \<le> c_len k"
  shows "total (with_eff k ((=) (c_buf k))) (arith32_stage (c_world k)) (with_eff k ((=) (c_buf k)))"
proof (rule totalI)
  fix l s assume B: "with_eff k ((=) (c_buf k)) l s"
  have r: "[0..<c_len k - 3] = [0..<c_len k + 1 - 4]" by simp
  show "post (arith32_stage (c_world k) l s) (with_eff k ((=) (c_buf k)))"
    unfolding arith32_stage_def at_buf_D(1) [OF B] r
    by (rule totalD [where P = "with_eff k ((=) (c_buf k))"],
        intro keeps_then keeps_simple positions_total arith32_at_total, simp_all add: B)
qed

lemma interest8_total:
  shows "total (with_eff k ((=) (c_buf k))) (interest8_stage (c_world k)) (with_eff k ((=) (c_buf k)))"
proof (rule totalI)
  fix l s assume B: "with_eff k ((=) (c_buf k)) l s"
  have r: "[0..<c_len k] = [0..<c_len k + 1 - 1]" by simp
  show "post (interest8_stage (c_world k) l s) (with_eff k ((=) (c_buf k)))"
    unfolding interest8_stage_def at_buf_D(1) [OF B] r
    by (rule totalD [where P = "with_eff k ((=) (c_buf k))"],
        intro keeps_then keeps_simple positions_total interest8_at_total, simp_all add: B)
qed

lemma interest16_total:
  assumes "2 \<le> c_len k"
  shows "total (with_eff k ((=) (c_buf k))) (interest16_stage (c_world k)) (with_eff k ((=) (c_buf k)))"
proof (rule totalI)
  fix l s assume B: "with_eff k ((=) (c_buf k)) l s"
  have r: "[0..<c_len k - 1] = [0..<c_len k + 1 - 2]" by simp
  show "post (interest16_stage (c_world k) l s) (with_eff k ((=) (c_buf k)))"
    unfolding interest16_stage_def at_buf_D(1) [OF B] r
    by (rule totalD [where P = "with_eff k ((=) (c_buf k))"],
        intro keeps_then keeps_simple positions_total interest16_at_total, simp_all add: B)
qed

lemma interest32_total:
  assumes "4 \<le> c_len k"
  shows "total (with_eff k ((=) (c_buf k))) (interest32_stage (c_world k)) (with_eff k ((=) (c_buf k)))"
proof (rule totalI)
  fix l s assume B: "with_eff k ((=) (c_buf k)) l s"
  have r: "[0..<c_len k - 3] = [0..<c_len k + 1 - 4]" by simp
  show "post (interest32_stage (c_world k) l s) (with_eff k ((=) (c_buf k)))"
    unfolding interest32_stage_def at_buf_D(1) [OF B] r
    by (rule totalD [where P = "with_eff k ((=) (c_buf k))"],
        intro keeps_then keeps_simple positions_total interest32_at_total, simp_all add: B)
qed

lemma arith_stages_total: "total (with_eff k ((=) (c_buf k))) (arith_stages (c_world k)) (with_eff k ((=) (c_buf k)))"
proof (rule totalI)
  fix l s assume B: "with_eff k ((=) (c_buf k)) l s"
  show "post (arith_stages (c_world k) l s) (with_eff k ((=) (c_buf k)))"
    unfolding arith_stages_def
    by (rule post_if, rule post_continue, rule B, rule totalD [where P = "with_eff k ((=) (c_buf k))"],
        intro keeps_then arith8_total total_if_len arith16_total arith32_total, simp_all add: B)
qed

lemma interest_stages_total: "total (with_eff k ((=) (c_buf k))) (interest_stages (c_world k)) (with_eff k ((=) (c_buf k)))"
proof (rule totalI)
  fix l s assume B: "with_eff k ((=) (c_buf k)) l s"
  have wide: "total (with_eff k ((=) (c_buf k))) (\<lambda>l s. if no_arith s \<or> f_len l < 2 then continue l s
      else bail (interest16_stage (c_world k)) (\<lambda>l. if f_len l < 4 then continue l else interest32_stage (c_world k) l) l s)
      (with_eff k ((=) (c_buf k)))"
  proof (rule totalI)
    fix l s assume B: "with_eff k ((=) (c_buf k)) l s"
    show "post (if no_arith s \<or> f_len l < 2 then continue l s
      else bail (interest16_stage (c_world k)) (\<lambda>l. if f_len l < 4 then continue l else interest32_stage (c_world k) l) l s)
      (with_eff k ((=) (c_buf k)))"
      unfolding at_buf_D(1) [OF B]
      by (rule post_if, rule post_continue, rule B, rule totalD [where P = "with_eff k ((=) (c_buf k))"],
          intro keeps_then total_if_len interest16_total interest32_total, simp_all add: B)
  qed
  show "post (interest_stages (c_world k) l s) (with_eff k ((=) (c_buf k)))"
    unfolding interest_stages_def
    by (rule totalD [where P = "with_eff k ((=) (c_buf k))"], intro keeps_then interest8_total wide, rule B)
qed

section \<open>Tokens\<close>

text \<open>
  A token is not taken back after its run: the next ones, which are no shorter, overwrite it, and the
  span of the last one written is copied from the input in the end.
\<close>

definition tokens_used :: "bool \<Rightarrow> 'a fuzz_state_scheme \<Rightarrow> extra_data list" where
  "tokens_used user s = (if user then extras s else take USE_AUTO_EXTRAS (a_extras s))"

definition spans ::
  "('w, 'a) stage_call \<Rightarrow> bool \<Rightarrow> extra_data list \<Rightarrow> nat \<Rightarrow> nat \<Rightarrow> fuzz_locals \<Rightarrow> 'a fuzz_state_scheme \<Rightarrow> bool" where
  "spans k user T i j l s \<longleftrightarrow>
     near_eff k i (last_len l) l s \<and> i + last_len l \<le> c_len k \<and>
     (\<forall>t \<in> set (drop j T). last_len l \<le> unat (x_len t)) \<and> tokens_used user s = T"

definition with_tokens :: "('w, 'a) stage_call \<Rightarrow> bool \<Rightarrow> extra_data list \<Rightarrow> fuzz_locals \<Rightarrow> 'a fuzz_state_scheme \<Rightarrow> bool" where
  "with_tokens k user T l s \<longleftrightarrow> with_eff k ((=) (c_buf k)) l s \<and> tokens_used user s = T"

lemma tokens_used_upd [simp]:
  "tokens_used u (s\<lparr>stage_max := m\<rparr>) = tokens_used u s" "tokens_used u (s\<lparr>stage_cur := c\<rparr>) = tokens_used u s"
  "tokens_used u (s\<lparr>stage_cur_byte := c\<rparr>) = tokens_used u s"
  "tokens_used u (s\<lparr>stage_name := a\<rparr>) = tokens_used u s"
  "tokens_used u (s\<lparr>stage_short := a\<rparr>) = tokens_used u s"
  "tokens_used u (s\<lparr>stage_val_type := t\<rparr>) = tokens_used u s"
  "tokens_used u (s\<lparr>stage_finds := f\<rparr>) = tokens_used u s"
  "tokens_used u (s\<lparr>stage_cycles := f\<rparr>) = tokens_used u s"
  by (simp_all add: tokens_used_def)

lemma kept_tokens: "kept s' = kept s \<Longrightarrow> tokens_used u s' = tokens_used u s"
  by (simp add: kept_def rest_def tokens_used_def)

lemma tokens_wf:
  assumes "with_eff k R l s" and "tokens_used u s = T"
  shows "sorted (map x_len T)" and "\<And>t. t \<in> set T \<Longrightarrow> unat (x_len t) = length (x_data t)"
proof -
  have d: "dict_ok l s" using at_buf_D(6) [OF assms(1)] .
  then show "sorted (map x_len T)" using assms(2) by (auto simp: dict_ok_def tokens_used_def extras_wf_def)
  fix t assume "t \<in> set T"
  then have "extra_wf t" using d assms(2)
    by (auto simp: dict_ok_def tokens_used_def extras_wf_def dest: in_set_takeD split: if_split_asm)
  then show "unat (x_len t) = length (x_data t)"
    by (simp add: extra_wf_def unsigned_of_nat take_bit_nat_eq_self)
qed

text \<open>The steps that only look after the stage.\<close>

lemma with_tokens_keeps [keeps]:
  "total (with_tokens k u T) (stage_begin a c i) (with_tokens k u T)"
  "total (with_tokens k u T) (stage_end j) (with_tokens k u T)"
  "total (with_tokens k u T) (set_val_type t) (with_tokens k u T)"
  by (rule totalI; (simp only: stage_begin_def stage_end_def set_val_type_def)?;
      rule post_continue; simp add: with_tokens_def)+

lemma near_grow:
  assumes "near i m b c" and "m \<le> length d" and "i + length d \<le> length b" and "put c i d = Some c'"
  shows "near i (length d) b c'"
proof -
  obtain d0 where d0: "length d0 = m" "c = take i b @ d0 @ drop (i + m) b" "i + m \<le> length b"
    using assms(1) by (auto simp: near_def)
  have "take i c = take i b" "drop (i + length d) c = drop (i + length d) b" "length c = length b"
    using assms(2,3) d0 by (auto simp: add.commute)
  then show ?thesis using assms(3,4) by (auto simp: near_def put_def)
qed

lemma near_restore_span:
  assumes "near i m b c" and "i + m \<le> n" and "take n x = take n b" and "n \<le> length b" "n \<le> length x"
  shows "slice x i m = Some (take m (drop i b)) \<and> put c i (take m (drop i b)) = Some b"
proof -
  have "take m (drop i x) = take m (drop i (take n x))" using assms(2) by (simp add: drop_take)
  also have "\<dots> = take m (drop i b)" using assms(2) unfolding assms(3) by (simp add: drop_take)
  finally have "take m (drop i x) = take m (drop i b)" .
  moreover have "put c i (take m (drop i b)) = Some b"
    using near_put [OF assms(1), of "take m (drop i b)"] put_take_back [of i m b] assms(2,4) by simp
  ultimately show ?thesis using assms(2,5) by (simp add: slice_def)
qed

lemma spans_next:
  assumes "spans k user T i j l s"
  shows "spans k user T i (Suc j) l s"
proof -
  have "set (drop (Suc j) T) \<subseteq> set (drop j T)" by (rule set_drop_subset_set_drop) simp
  then show ?thesis using assms by (auto simp: spans_def)
qed

lemma longer_ahead:
  assumes "sorted (map x_len T)" and "j < length T" and "t \<in> set (drop (Suc j) T)"
  shows "unat (x_len (T ! j)) \<le> unat (x_len t)"
proof -
  obtain i where "i < length (drop (Suc j) T)" "t = drop (Suc j) T ! i" using assms(3) by (metis in_set_conv_nth)
  then have "t = T ! (Suc j + i)" "Suc j + i < length T" by auto
  then show ?thesis using assms(1,2) sorted_nth_mono [of "map x_len T" j "Suc j + i"] by (simp add: word_le_nat_alt)
qed

lemma spans_count_run: "total (spans k u T i j) (count_run (c_world k)) (spans k u T i j)"
proof -
  have run: "total (spans k u T i j) (run_buf (c_world k)) (spans k u T i j)"
  proof (rule totalI)
    fix l s assume S: "spans k u T i j l s"
    then have B: "near_eff k i (last_len l) l s" by (simp add: spans_def)
    show "post (run_buf (c_world k) l s) (spans k u T i j)"
      by (rule post_run [OF B]) (insert S, drule kept_tokens [where u = u], simp add: spans_def)
  qed
  show ?thesis
    unfolding count_run_def
    by (rule total_bail [OF run], rule totalI, rule post_continue) (simp add: spans_def)
qed

lemma span_blocks:
  assumes "i + n \<le> m" and "i < m"
  shows "EFF_APOS i + EFF_SPAN_ALEN i n \<le> EFF_ALEN m"
proof -
  have "i + n - 1 < m" using assms by linarith
  then have a: "EFF_APOS (i + n - 1) < EFF_ALEN m" by (rule EFF_APOS_less)
  have b: "EFF_APOS i < EFF_ALEN m" using assms(2) by (rule EFF_APOS_less)
  show ?thesis
  proof (cases "EFF_APOS i \<le> EFF_APOS (i + n - 1)")
    case True
    then show ?thesis using a by (simp add: EFF_SPAN_ALEN_def)
  next
    case False
    then show ?thesis using b by (simp add: EFF_SPAN_ALEN_def)
  qed
qed

lemma spans_write:
  assumes "spans k u T i j l s" and "j < length T" and "length d = unat (x_len (T ! j))" and "i + length d \<le> c_len k"
    and "put (out_buf l) i d = Some c"
  shows "spans k u T i (Suc j) (l\<lparr>last_len := length d, out_buf := c\<rparr>) s"
proof -
  have B: "near_eff k i (last_len l) l s" and t: "tokens_used u s = T" using assms(1) by (simp_all add: spans_def)
  have "T ! j \<in> set (drop j T)" using assms(2) by (simp flip: Cons_nth_drop_Suc)
  then have "last_len l \<le> length d" using assms(1,3) by (simp add: spans_def)
  then have n: "near i (length d) (c_buf k) c"
    using near_grow [OF at_buf_D(3) [OF B] _ _ assms(5)] assms(4) at_buf_D(9) [OF B] by simp
  have B1: "near_eff k i (last_len l) (l\<lparr>last_len := length d\<rparr>) s" using B by simp
  have "near_eff k i (length d) (l\<lparr>last_len := length d, out_buf := c\<rparr>) s"
    by (rule at_buf_out, rule near_length [OF n], rule B1, rule n)
  moreover have "length d \<le> unat (x_len x)" if "x \<in> set (drop (Suc j) T)" for x
    using longer_ahead [OF tokens_wf(1) [OF B t] assms(2) that] assms(3) by simp
  ultimately show ?thesis using t assms(4) by (simp add: spans_def)
qed

lemma over_token_total:
  assumes "j < length T" and "i < c_len k"
  shows "total (spans k u T i j) (over_token (c_world k) i (T ! j) skip) (spans k u T i (Suc j))"
proof (rule totalI)
  fix l s assume S: "spans k u T i j l s"
  then have B: "near_eff k i (last_len l) l s" and t: "tokens_used u s = T" by (simp_all add: spans_def)
  let ?e = "T ! j"
  let ?n = "unat (x_len ?e)"
  have skips: "post (skip_runs 1 l s) (spans k u T i (Suc j))"
    unfolding skip_runs_def by (rule post_continue) (use spans_next [OF S] in \<open>simp add: spans_def\<close>)
  have x: "?n = length (x_data ?e)" using tokens_wf(2) [OF B t] assms(1) by simp
  show "post (over_token (c_world k) i ?e skip l s) (spans k u T i (Suc j))"
    unfolding over_token_def
  proof (rule post_if, rule skips)
    assume "\<not> (skip \<or> ?n > f_len l - i)"
    then have "?n \<le> c_len k - i" using at_buf_D(1) [OF B] by simp
    then have n: "i + ?n \<le> c_len k" using assms(2) by linarith
    have d: "slice (x_data ?e) 0 ?n = Some (x_data ?e)" using x by (simp add: slice_def)
    have old: "slice (out_buf l) i ?n = Some (take ?n (drop i (out_buf l)))"
      using n at_buf_D(4,9) [OF B] by (simp add: slice_Some)
    have m: "slice (eff_map l) (EFF_APOS i) (EFF_SPAN_ALEN i ?n) =
        Some (take (EFF_SPAN_ALEN i ?n) (drop (EFF_APOS i) (eff_map l)))"
      using span_blocks [OF n assms(2)] at_buf_D(5) [OF B] by (simp add: slice_Some)
    have "i + length (x_data ?e) \<le> length (out_buf l)" using n x at_buf_D(4,9) [OF B] by simp
    then obtain c where c: "put (out_buf l) i (x_data ?e) = Some c" by (simp add: put_Some)
    have w: "spans k u T i (Suc j) (l\<lparr>last_len := ?n, out_buf := c\<rparr>) s"
      using spans_write [OF S assms(1) x [symmetric] _ c] n x by simp
    have run: "post (bail (set_buf (put (out_buf l) i (x_data ?e))) (count_run (c_world k)) (l\<lparr>last_len := ?n\<rparr>) s)
        (spans k u T i (Suc j))"
      by (rule post_bail [where f = "set_buf (put (out_buf l) i (x_data ?e))", OF _ spans_count_run])
         (rule post_set_buf [OF c], use w in simp)
    show "post (do { d \<leftarrow> slice (x_data ?e) 0 ?n; old \<leftarrow> slice (out_buf l) i ?n;
        m \<leftarrow> slice (eff_map l) (EFF_APOS i) (EFF_SPAN_ALEN i ?n);
        if d = old \<or> 1 \<notin> set m then skip_runs 1 l s
        else bail (set_buf (put (out_buf l) i d)) (count_run (c_world k)) (l\<lparr>last_len := ?n\<rparr>) s })
        (spans k u T i (Suc j))"
      by (rule post_bind [OF d], rule post_bind [OF old], rule post_bind [OF m], rule post_if, rule skips, rule run)
  qed
qed

lemma start_span_total: "i \<le> c_len k \<Longrightarrow> total (with_tokens k u T) (start_span i) (spans k u T i 0)"
proof (rule totalI)
  fix l s assume i: "i \<le> c_len k" and "with_tokens k u T l s"
  then have B: "with_eff k ((=) (c_buf k)) l s" and t: "tokens_used u s = T" by (simp_all add: with_tokens_def)
  have "near i 0 (c_buf k) (out_buf l)"
    using near_refl [of i 0 "c_buf k"] i at_buf_D(3,9) [OF B] by auto
  then have "near_eff k i 0 l s" using B unfolding at_buf_def by blast
  then show "post (start_span i l s) (spans k u T i 0)"
    unfolding start_span_def by (intro post_continue) (use i t in \<open>simp add: spans_def\<close>)
qed

lemma restore_span_total: "total (spans k u T i j) (restore_span i) (with_tokens k u T)"
proof (rule totalI)
  fix l s assume S: "spans k u T i j l s"
  then have B: "near_eff k i (last_len l) l s" and n: "i + last_len l \<le> c_len k" by (simp_all add: spans_def)
  have x: "in_buf l = c_in k" "take (c_len k) (c_in k) = take (c_len k) (c_buf k)"
    using B by (simp_all add: at_buf_def call_ok_def)
  have "slice (in_buf l) i (last_len l) = Some (take (last_len l) (drop i (c_buf k))) \<and>
      put (out_buf l) i (take (last_len l) (drop i (c_buf k))) = Some (c_buf k)"
    unfolding x(1) by (rule near_restore_span [OF at_buf_D(3) [OF B] n x(2) at_buf_D(9,10) [OF B]])
  then have b: "do { d \<leftarrow> slice (in_buf l) i (last_len l); put (out_buf l) i d } = Some (c_buf k)" by simp
  have "with_eff k ((=) (c_buf k)) (l\<lparr>out_buf := c_buf k\<rparr>) s" by (rule at_buf_out, simp, rule B, simp)
  then show "post (restore_span i l s) (with_tokens k u T)"
    unfolding restore_span_def by (intro post_set_buf [OF b]) (use S in \<open>simp add: with_tokens_def spans_def\<close>)
qed

lemma span_total:
  assumes "i < c_len k" and "\<And>j. j < length T \<Longrightarrow> total (spans k u T i j) (f j) (spans k u T i (Suc j))"
  shows "total (with_tokens k u T) (bail (start_span i) (bail (for_loop [0..<length T] f) (restore_span i))) (with_tokens k u T)"
proof -
  have "total (spans k u T i 0) (for_loop [0..<length T] f) (spans k u T i (length T))"
    by (rule total_for_loop_upt) (use assms(2) in auto)
  then show ?thesis
    using assms(1) by (intro total_bail [OF start_span_total] total_bail [OF _ restore_span_total]) simp_all
qed

lemma token_skipped_total:
  assumes "spans k u T i j l s" and "length T < 2 ^ 32"
  shows "\<exists>z s'. token_skipped w (length T) s = Some (z, s') \<and> spans k u T i j l s'"
proof (cases "length T > MAX_DET_EXTRAS")
  case False
  then have "token_skipped w (length T) s = Some (False, s)" by (simp add: token_skipped_def)
  then show ?thesis using assms(1) by blast
next
  case True
  then have "unat (of_nat (length T) :: u32) = length T" using assms(2) by (simp add: unsigned_of_nat take_bit_nat_eq_self)
  then have ne: "(of_nat (length T) :: u32) \<noteq> 0" using True by auto
  obtain r s' where u: "UR w (of_nat (length T)) s = Some (r, s')" using UR_defined [OF ne] by blast
  then obtain a b where s': "s' = s\<lparr>rand_cnt := a, draws := b\<rparr>"
    by (auto simp: UR_def Let_def split: if_split_asm)
  have "at_buf k m R l s' = at_buf k m R l s" for m R
    by (rule bufs_at_buf) (simp_all add: s' bufs_def core_def)
  then have "spans k u T i j l s'" using assms(1) by (cases u) (simp_all add: spans_def s' tokens_used_def)
  then show ?thesis using u True by (auto simp: token_skipped_def)
qed

lemma ext_UO_total: "total (with_eff k ((=) (c_buf k))) (ext_UO_stage (c_world k)) (with_eff k ((=) (c_buf k)))"
proof (rule totalI)
  fix l s assume B: "with_eff k ((=) (c_buf k)) l s"
  let ?T = "extras s" and ?P = "with_tokens k True (extras s)"
  have P: "?P l s" using B by (simp add: with_tokens_def tokens_used_def)
  have few: "length ?T < 2 ^ 32" using at_buf_D(6) [OF B] by (simp add: dict_ok_def tokens_fit_def)
  have step: "total (spans k True ?T i j) (\<lambda>l s. do {
      (skip, s1) \<leftarrow> token_skipped (c_world k) (length ?T) s; e \<leftarrow> get_at (extras s1) j; over_token (c_world k) i e skip l s1 })
      (spans k True ?T i (Suc j))" if "j < length ?T" "i < c_len k" for i j
  proof (rule totalI)
    fix l s1 assume Q: "spans k True ?T i j l s1"
    obtain z s2 where z: "token_skipped (c_world k) (length ?T) s1 = Some (z, s2)" and Q2: "spans k True ?T i j l s2"
      using token_skipped_total [OF Q few] by blast
    then have "get_at (extras s2) j = Some (?T ! j)" using that(1) by (simp add: spans_def tokens_used_def get_at_Some)
    then show "post (do { (skip, s1) \<leftarrow> token_skipped (c_world k) (length ?T) s1; e \<leftarrow> get_at (extras s1) j;
        over_token (c_world k) i e skip l s1 }) (spans k True ?T i (Suc j))"
      using totalD [OF over_token_total [OF that] Q2] by (simp add: z)
  qed
  have "post (ext_UO_stage (c_world k) l s) ?P"
    unfolding ext_UO_stage_def Let_def at_buf_D(1) [OF B]
    by (rule totalD [where P = ?P], intro keeps_then with_tokens_keeps total_for_loop span_total step, simp_all add: P)
  then show "post (ext_UO_stage (c_world k) l s) (with_eff k ((=) (c_buf k)))"
    by (rule post_weaken) (simp add: with_tokens_def)
qed

lemma ext_AO_total: "total (with_eff k ((=) (c_buf k))) (ext_AO_stage (c_world k)) (with_eff k ((=) (c_buf k)))"
proof (rule totalI)
  fix l s assume B: "with_eff k ((=) (c_buf k)) l s"
  let ?T = "tokens_used False s" and ?P = "with_tokens k False (tokens_used False s)"
  have P: "?P l s" using B by (simp add: with_tokens_def)
  have m: "min (length (a_extras s)) USE_AUTO_EXTRAS = length ?T" by (simp add: tokens_used_def)
  have step: "total (spans k False ?T i j) (\<lambda>l s. do { e \<leftarrow> get_at (a_extras s) j; over_token (c_world k) i e False l s })
      (spans k False ?T i (Suc j))" if "j < length ?T" "i < c_len k" for i j
  proof (rule totalI)
    fix l s1 assume Q: "spans k False ?T i j l s1"
    then have t: "tokens_used False s1 = ?T" by (simp add: spans_def)
    then have "j < length (tokens_used False s1)" using that(1) by simp
    then have "get_at (a_extras s1) j = Some (tokens_used False s1 ! j)" by (simp add: tokens_used_def get_at_Some)
    then show "post (do { e \<leftarrow> get_at (a_extras s1) j; over_token (c_world k) i e False l s1 }) (spans k False ?T i (Suc j))"
      using totalD [OF over_token_total [OF that] Q] by (simp add: t)
  qed
  have "post (ext_AO_stage (c_world k) l s) ?P"
    unfolding ext_AO_stage_def Let_def m at_buf_D(1) [OF B]
    by (rule totalD [where P = ?P], intro keeps_then with_tokens_keeps total_for_loop span_total step, simp_all add: P)
  then show "post (ext_AO_stage (c_world k) l s) (with_eff k ((=) (c_buf k)))"
    by (rule post_weaken) (simp add: with_tokens_def)
qed

text \<open>Insertion works on a copy.\<close>

definition with_copy :: "('w, 'a) stage_call \<Rightarrow> nat \<Rightarrow> fuzz_locals \<Rightarrow> 'a fuzz_state_scheme \<Rightarrow> bool" where
  "with_copy k n l s \<longleftrightarrow> with_eff k ((=) (c_buf k)) l s \<and> length (ex_tmp l) = c_len k + MAX_DICT_FILE \<and> length (extras s) = n"

lemma with_copy_simple:
  "total (with_copy k n) (stage_begin a c i) (with_copy k n)"
  "total (with_copy k n) (stage_end j) (with_copy k n)"
  "total (with_copy k n) (\<lambda>l s. continue l (s\<lparr>stage_cur_byte := b\<rparr>)) (with_copy k n)"
  by (rule totalI; (simp only: stage_begin_def stage_end_def)?; rule post_continue; simp add: with_copy_def)+

lemma unat_of_nat_le: "unat (of_nat n :: u32) \<le> n"
  by (simp add: unsigned_of_nat take_bit_eq_mod)

lemma insert_token_total:
  assumes "i \<le> c_len k" and "j < n"
  shows "total (with_copy k n) (\<lambda>l s. do { e \<leftarrow> get_at (extras s) j; insert_token (c_world k) i e l s }) (with_copy k n)"
proof (rule totalI)
  fix l s assume C: "with_copy k n l s"
  then have B: "with_eff k ((=) (c_buf k)) l s" and t: "length (ex_tmp l) = c_len k + MAX_DICT_FILE"
    and ln: "length (extras s) = n" by (simp_all add: with_copy_def)
  let ?e = "extras s ! j"
  let ?n = "unat (x_len ?e)"
  have e: "get_at (extras s) j = Some ?e" "?e \<in> set (extras s)" using assms(2) ln by (simp_all add: get_at_Some)
  have x: "?n = length (x_data ?e)" using tokens_wf(2) [OF B, of True] e(2) by (simp add: tokens_used_def)
  have fits: "?n \<le> MAX_DICT_FILE" using at_buf_D(6) [OF B] e(2) by (auto simp: dict_ok_def tokens_fit_def list_all_iff)
  have d: "slice (x_data ?e) 0 ?n = Some (x_data ?e)" using x by (simp add: slice_def)
  have "i + length (x_data ?e) \<le> length (ex_tmp l)" using assms(1) fits x t by simp
  then obtain t1 where t1: "put (ex_tmp l) i (x_data ?e) = Some t1" by (simp add: put_Some)
  let ?r = "take (c_len k - i) (drop i (out_buf l))"
  have rs: "slice (out_buf l) i (c_len k - i) = Some ?r"
    using assms(1) at_buf_D(4,9) [OF B] by (simp add: slice_Some)
  have "length ?r = c_len k - i" using assms(1) at_buf_D(4,9) [OF B] by simp
  then have "i + ?n + length ?r \<le> length t1" using assms(1) fits t put_length [OF t1] by simp
  then obtain t2 where t2: "put t1 (i + ?n) ?r = Some t2" by (simp add: put_Some)
  have t2l: "length t2 = c_len k + MAX_DICT_FILE" using put_length [OF t1] put_length [OF t2] t by simp
  have "unat (of_nat (c_len k + ?n) :: u32) \<le> c_len k + ?n" by (rule unat_of_nat_le)
  then have "unat (of_nat (c_len k + ?n) :: u32) \<le> length t2" using fits t2l by linarith
  from post_common [OF B this] obtain r where r: "common_fuzz_stuff (c_world k) t2 (of_nat (c_len k + ?n)) s = Some r"
    "\<And>s'. r = Inr (False, s') \<Longrightarrow> with_eff k ((=) (c_buf k)) l s' \<and> kept s' = kept s" by blast
  have skips: "post (skip_runs 1 l s) (with_copy k n)"
    unfolding skip_runs_def by (rule post_continue) (use C in \<open>simp add: with_copy_def\<close>)
  have run: "post (andthen (common_fuzz_stuff (c_world k) t2 (of_nat (c_len k + ?n)) s)
      (\<lambda>(stop, s1). Some (Inr (stop, l\<lparr>ex_tmp := t2\<rparr>, if stop then s1 else s1\<lparr>stage_cur := stage_cur s1 + 1\<rparr>))))
      (with_copy k n)"
  proof (rule post_andthen [OF r(1)])
    fix y assume y: "r = Inr y"
    obtain stop s1 where ys: "y = (stop, s1)" by (cases y)
    show "post (case y of (stop, s1) \<Rightarrow> Some (Inr (stop, l\<lparr>ex_tmp := t2\<rparr>, if stop then s1 else s1\<lparr>stage_cur := stage_cur s1 + 1\<rparr>)))
        (with_copy k n)"
    proof (cases stop)
      case True
      then show ?thesis by (simp add: ys post_def)
    next
      case False
      then have "with_eff k ((=) (c_buf k)) l s1" "extras s1 = extras s"
        using r(2) y ys by (simp_all add: kept_def rest_def)
      then show ?thesis using False t2l ln by (simp add: ys post_def with_copy_def)
    qed
  qed
  show "post (do { e \<leftarrow> get_at (extras s) j; insert_token (c_world k) i e l s }) (with_copy k n)"
    unfolding insert_token_def at_buf_D(1) [OF B]
    by (rule post_bind [OF e(1)], rule post_if, rule skips, rule post_bind [OF d], rule post_bind [OF t1],
        rule post_bind [OF rs], rule post_bind [OF t2], rule run)
qed

lemma copy_head_total: "i \<le> c_len k \<Longrightarrow> total (with_copy k n) (copy_head i) (with_copy k n)"
proof (rule totalI)
  fix l s assume i: "i \<le> c_len k" and C: "with_copy k n l s"
  then have "i < length (ex_tmp l)" by (simp add: with_copy_def MAX_DICT_FILE_def)
  then show "post (copy_head i l s) (with_copy k n)"
    unfolding copy_head_def by (intro post_bind [OF set_at_Some] post_continue) (use C in \<open>simp_all add: with_copy_def\<close>)
qed

lemma ext_UI_total: "total (with_eff k ((=) (c_buf k))) (ext_UI_stage (c_world k)) (with_eff k ((=) (c_buf k)))"
proof (rule totalI)
  fix l s assume B: "with_eff k ((=) (c_buf k)) l s"
  let ?P = "with_copy k (length (extras s))"
  have C: "?P (l\<lparr>ex_tmp := replicate (c_len k + MAX_DICT_FILE) 0\<rparr>) s" using B by (simp add: with_copy_def)
  have "post (ext_UI_stage (c_world k) l s) ?P"
    unfolding ext_UI_stage_def Let_def at_buf_D(1) [OF B]
    by (rule totalD [where P = ?P], intro keeps_then with_copy_simple total_for_loop insert_token_total copy_head_total,
        simp_all only: C) auto
  then show "post (ext_UI_stage (c_world k) l s) (with_eff k ((=) (c_buf k)))"
    by (rule post_weaken) (simp add: with_copy_def)
qed

lemma token_stages_total: "total (with_eff k ((=) (c_buf k))) (token_stages (c_world k)) (with_eff k ((=) (c_buf k)))"
proof -
  let ?P = "with_eff k ((=) (c_buf k))"
  have user: "total ?P (\<lambda>l s. if extras s = [] then continue l s else bail (ext_UO_stage (c_world k)) (ext_UI_stage (c_world k)) l s) ?P"
    by (rule totalI, rule post_if, rule post_continue, assumption, rule totalD [OF keeps_then [OF ext_UO_total ext_UI_total]])
  have auto: "total ?P (\<lambda>l s. if a_extras s = [] then continue l s else ext_AO_stage (c_world k) l s) ?P"
    by (rule totalI, rule post_if, rule post_continue, assumption, rule totalD [OF ext_AO_total])
  show ?thesis
    by (rule totalI, unfold token_stages_def, rule totalD [OF keeps_then [OF user auto]])
qed

section \<open>All stages\<close>

text \<open>What is left in the end, when the mark on the entry may have changed the state the runs rely on.\<close>

definition same_input :: "('w, 'a) stage_call \<Rightarrow> fuzz_locals \<Rightarrow> 'a fuzz_state_scheme \<Rightarrow> bool" where
  "same_input k l s \<longleftrightarrow> out_buf l = c_buf k \<and> in_buf l = c_in k \<and> f_len l = c_len k \<and> dict_ok l s"

lemma more_dict: "fav_state.more s' = fav_state.more s \<Longrightarrow> dict_ok l s' = dict_ok l s"
  using kept_fav [of s' s] by (simp add: kept_def rest_def dict_ok_def extras_wf_def)

lemma more_det_done: "mark_as_det_done q s = Some (Inr s') \<Longrightarrow> fav_state.more s' = fav_state.more s"
  by (auto simp: mark_as_det_done_def split: bind_splits if_splits)

lemma det_done_total: "total (with_eff k ((=) (c_buf k))) (det_done (c_entry k)) (same_input k)"
proof (rule totalI)
  fix l s assume B: "with_eff k ((=) (c_buf k)) l s"
  have same: "same_input k l s" using at_buf_D(1,2,3,6) [OF B] by (simp add: same_input_def)
  obtain e where e: "entries s (c_entry k) = Some e" "CHR ''/'' \<in> set (q_fname e)" using at_buf_D(12) [OF B] by blast
  obtain x where x: "mark_as_det_done (c_entry k) s = Some x"
    using e by (simp add: mark_as_det_done_def after_slash_def)
  have mark: "post (andthen (mark_as_det_done (c_entry k) s) (continue l)) (same_input k)"
  proof (rule post_andthen [OF x])
    fix s' assume "x = Inr s'"
    then have "dict_ok l s' = dict_ok l s" using x by (intro more_dict more_det_done) simp
    then show "post (continue l s') (same_input k)" using same by (intro post_continue) (simp add: same_input_def)
  qed
  show "post (det_done (c_entry k) l s) (same_input k)"
    unfolding det_done_def by (rule post_bind [OF e(1)], rule post_if, rule post_continue, rule same, rule mark)
qed

lemma det_stages_total: "total (buf_is k m) (det_stages (c_world k) (c_entry k)) (same_input k)"
proof (rule totalI)
  fix l s assume B: "buf_is k m l s"
  show "post (det_stages (c_world k) (c_entry k) l s) (same_input k)"
    unfolding det_stages_def
    by (rule totalD [where P = "buf_is k m"], intro total_bail [OF bitflips_total] total_bail [OF arith_stages_total]
        total_bail [OF interest_stages_total] total_bail [OF token_stages_total] det_done_total, simp add: B)
qed

text \<open>
  C20: The deterministic stages come to an end whenever each run of the target does, and stay inside
  their buffers; when they run to the end without giving the entry up, the buffer they edited in
  place is the input again, and the dictionaries are in order.
\<close>

theorem det_stages_undo:
  assumes "runs_ok w q I" and "I s" and "qsort_ok w" and "dict_ok l s"
    and "1 \<le> f_len l" and "f_len l \<le> MAX_FILE" and "f_len l \<le> length (out_buf l)" and "f_len l \<le> length (in_buf l)"
    and "take (f_len l) (in_buf l) = take (f_len l) (out_buf l)"
  shows "\<exists>x. det_stages w q l s = Some x \<and>
    (\<forall>l' s'. x = Inr (False, l', s') \<longrightarrow>
       out_buf l' = out_buf l \<and> in_buf l' = in_buf l \<and> f_len l' = f_len l \<and> dict_ok l' s')"
proof -
  define k where "k = \<lparr>c_world = w, c_entry = q, c_inv = I, c_buf = out_buf l, c_in = in_buf l, c_len = f_len l\<rparr>"
  have "buf_is k (length (eff_map l)) l s" using assms by (simp add: at_buf_def call_ok_def k_def)
  from totalD [OF det_stages_total this] show ?thesis by (simp add: post_def same_input_def k_def)
qed

text \<open>A world whose post-processor drops every test case: the runs come to an end at once.\<close>

definition drop_world :: fuzz_world where
  "drop_world = demo_fuzz_world\<lparr>w_post_handler := Some (\<lambda>_ _. None)\<rparr>"

lemma drop_world_runs: "runs_ok drop_world 1 (\<lambda>s :: fuzz_state. \<exists>e. entries s 1 = Some e \<and> CHR ''/'' \<in> set (q_fname e))"
  unfolding runs_ok_def
proof (intro conjI allI impI)
  fix s s' :: fuzz_state
  assume a: "(\<exists>e. entries s 1 = Some e \<and> CHR ''/'' \<in> set (q_fname e)) \<and> core s' = core s \<and> extras_wf s'"
  then have "entries (core s') = entries (core s)" by simp
  then have "entries s' = entries s" by (simp add: core_def)
  then show "\<exists>e. entries s' 1 = Some e \<and> CHR ''/'' \<in> set (q_fname e)" using a by simp
qed (auto simp: common_fuzz_stuff_def post_process_def drop_world_def)

theorem det_stages_undo_witness:
  "\<exists>x. det_stages drop_world 1 demo_locals demo_fuzz = Some x \<and>
    (case x of Inr (False, l', s') \<Rightarrow> out_buf l' = [1, 2, 3, 4] \<and> dict_ok l' s' | _ \<Rightarrow> True)"
proof -
  have e: "\<exists>e. entries demo_fuzz 1 = Some e \<and> CHR ''/'' \<in> set (q_fname e)" by (simp add: demo_defs)
  have q: "qsort_ok drop_world"
    using demo_world_ok by (simp add: qsort_ok_def drop_world_def demo_fuzz_world_def demo_exec_world_def exec_world.defs world.defs)
  have d: "dict_ok demo_locals demo_fuzz"
    by (simp add: dict_ok_def demo_locals_def demo_defs extras_wf_def extra_wf_def tokens_fit_def MAX_DICT_FILE_def
        MAX_AUTO_EXTRA_def MAX_AUTO_EXTRAS_def USE_AUTO_EXTRAS_def)
  have l: "out_buf demo_locals = [1, 2, 3, 4]" "in_buf demo_locals = [1, 2, 3, 4]" "f_len demo_locals = 4"
    by (simp_all add: demo_locals_def)
  obtain x where x: "det_stages drop_world 1 demo_locals demo_fuzz = Some x"
    "\<And>l' s'. x = Inr (False, l', s') \<Longrightarrow> out_buf l' = [1, 2, 3, 4] \<and> dict_ok l' s'"
    using det_stages_undo [OF drop_world_runs e q d] by (auto simp: l MAX_FILE_def)
  have "case x of Inr (False, l', s') \<Rightarrow> out_buf l' = [1, 2, 3, 4] \<and> dict_ok l' s' | _ \<Rightarrow> True"
    using x(2) by (auto split: sum.split prod.split bool.split)
  then show ?thesis using x(1) by blast
qed

end
