(* ===== verification/Afl_Alloc.thy ===== *)
theory Afl_Alloc
  imports Afl_Target
begin

text \<open>
  The allocator of \<^verbatim>\<open>alloc-inl.h\<close>: blocks with guard values before and after the user's bytes, and the
  table of live allocations of debugging builds.  \<^verbatim>\<open>malloc\<close>, \<^verbatim>\<open>realloc\<close> and \<^verbatim>\<open>free\<close> are the C library's.
\<close>

section \<open>Blocks and the C library\<close>

text \<open>\<^verbatim>\<open>ABORT\<close> ends the program; \<open>None\<close> is an access outside a block, or a write to a freed one.\<close>

datatype abort = ABORT string | FATAL_EXIT string

type_synonym 'a outcome = "(abort + 'a) option"

text \<open>Blocks by the address that \<^verbatim>\<open>malloc\<close> returned; a freed block keeps some contents.\<close>

record chunk =
  live :: bool
  raw :: "u8 list"

type_synonym mem_heap = "nat \<rightharpoonup> chunk"

text \<open>
  The library: where a new or resized block goes (\<open>None\<close> for \<^verbatim>\<open>NULL\<close>), what fresh memory holds, what
  \<^verbatim>\<open>free\<close> leaves of a block, and whether the program is built with \<^verbatim>\<open>DEBUG_BUILD\<close>.
\<close>

record libc =
  l_malloc :: "mem_heap \<Rightarrow> nat \<Rightarrow> nat option"
  l_realloc :: "mem_heap \<Rightarrow> nat \<Rightarrow> nat \<Rightarrow> nat option"
  l_junk :: "nat \<Rightarrow> u8"
  l_scrub :: "u8 list \<Rightarrow> u8 list"
  l_debug :: bool

definition is_live :: "mem_heap \<Rightarrow> nat \<Rightarrow> bool" where
  "is_live h p = (case h p of None \<Rightarrow> False | Some c \<Rightarrow> live c)"

definition lc_malloc :: "'w libc_scheme \<Rightarrow> nat \<Rightarrow> mem_heap \<Rightarrow> (nat \<times> mem_heap) option" where
  "lc_malloc w n h =
     (case l_malloc w h n of
        None \<Rightarrow> None
      | Some p \<Rightarrow> Some (p, h(p \<mapsto> \<lparr>live = True, raw = map (l_junk w) [0..<n]\<rparr>)))"

definition lc_free :: "'w libc_scheme \<Rightarrow> nat \<Rightarrow> mem_heap \<Rightarrow> mem_heap option" where
  "lc_free w p h =
     do { c \<leftarrow> h p; if live c then Some (h(p \<mapsto> \<lparr>live = False, raw = l_scrub w (raw c)\<rparr>)) else None }"

text \<open>The outer option is for a pointer that is not a live block, the inner one for \<^verbatim>\<open>NULL\<close>.\<close>

definition lc_realloc :: "'w libc_scheme \<Rightarrow> nat option \<Rightarrow> nat \<Rightarrow> mem_heap \<Rightarrow> (nat \<times> mem_heap) option option" where
  "lc_realloc w orig n h =
     (case orig of
        None \<Rightarrow> Some (lc_malloc w n h)
      | Some p \<Rightarrow> do {
          c \<leftarrow> h p;
          if \<not> live c then None
          else case l_realloc w h p n of
            None \<Rightarrow> Some None
          | Some q \<Rightarrow> do {
              h1 \<leftarrow> lc_free w p h;
              Some (Some (q, h1(q \<mapsto> \<lparr>live = True, raw = take n (raw c) @ map (l_junk w) [length (raw c)..<n]\<rparr>))) } })"

section \<open>Guards\<close>

definition MAX_ALLOC :: u32 where "MAX_ALLOC = 0x40000000"
definition ALLOC_MAGIC_C1 :: u32 where "ALLOC_MAGIC_C1 = 0xFF00FF00"
definition ALLOC_MAGIC_F :: u32 where "ALLOC_MAGIC_F = 0xFE00FE00"
definition ALLOC_MAGIC_C2 :: u8 where "ALLOC_MAGIC_C2 = 0xF0"
definition ALLOC_OFF_HEAD :: nat where "ALLOC_OFF_HEAD = 8"
definition ALLOC_OFF_TOTAL :: u32 where "ALLOC_OFF_TOTAL = 9"
definition ALLOC_BLK_INC :: u32 where "ALLOC_BLK_INC = 256"

text \<open>A user pointer is the address of its block plus \<^verbatim>\<open>ALLOC_OFF_HEAD\<close>; it is named by the block here.\<close>

definition rd_mem :: "mem_heap \<Rightarrow> nat \<Rightarrow> nat \<Rightarrow> nat \<Rightarrow> u8 list option" where
  "rd_mem h p off n = do { c \<leftarrow> h p; slice (raw c) off n }"

definition wr_mem :: "nat \<Rightarrow> nat \<Rightarrow> u8 list \<Rightarrow> mem_heap \<Rightarrow> mem_heap option" where
  "wr_mem p off d h =
     do { c \<leftarrow> h p; if live c then do { r \<leftarrow> put (raw c) off d; Some (h(p \<mapsto> c\<lparr>raw := r\<rparr>)) } else None }"

definition ALLOC_C1 :: "mem_heap \<Rightarrow> nat \<Rightarrow> u32 option" where
  "ALLOC_C1 h p = map_option le_word (rd_mem h p 0 4)"

definition ALLOC_S :: "mem_heap \<Rightarrow> nat \<Rightarrow> u32 option" where
  "ALLOC_S h p = map_option le_word (rd_mem h p 4 4)"

definition ALLOC_C2 :: "mem_heap \<Rightarrow> nat \<Rightarrow> u8 option" where
  "ALLOC_C2 h p = do { n \<leftarrow> ALLOC_S h p; map_option hd (rd_mem h p (ALLOC_OFF_HEAD + unat n) 1) }"

definition CHECK_PTR :: "mem_heap \<Rightarrow> nat \<Rightarrow> unit outcome" where
  "CHECK_PTR h p =
     do { c1 \<leftarrow> ALLOC_C1 h p;
          if c1 XOR ALLOC_MAGIC_C1 \<noteq> 0
          then Some (Inl (ABORT (if c1 = ALLOC_MAGIC_F then ''Use after free.'' else ''Corrupted head alloc canary.'')))
          else do {
            c2 \<leftarrow> ALLOC_C2 h p;
            Some (if c2 XOR ALLOC_MAGIC_C2 \<noteq> 0 then Inl (ABORT ''Corrupted tail alloc canary.'') else Inr ()) } }"

definition set_guards :: "nat \<Rightarrow> u32 \<Rightarrow> mem_heap \<Rightarrow> mem_heap option" where
  "set_guards p sz h =
     do { h1 \<leftarrow> wr_mem p 0 (le_bytes 4 ALLOC_MAGIC_C1) h;
          h2 \<leftarrow> wr_mem p 4 (le_bytes 4 sz) h1;
          n \<leftarrow> ALLOC_S h2 p;
          wr_mem p (ALLOC_OFF_HEAD + unat n) [ALLOC_MAGIC_C2] h2 }"

definition set_user :: "nat \<Rightarrow> u32 \<Rightarrow> u8 list \<Rightarrow> mem_heap \<Rightarrow> mem_heap option" where
  "set_user p off d h = wr_mem p (ALLOC_OFF_HEAD + unat off) d h"

section \<open>Allocation\<close>

text \<open>The size check, \<^verbatim>\<open>malloc\<close> with \<open>extra\<close> bytes, its check, and the guards.\<close>

definition guarded_malloc :: "'w libc_scheme \<Rightarrow> u32 \<Rightarrow> u32 \<Rightarrow> mem_heap \<Rightarrow> (nat \<times> mem_heap) outcome" where
  "guarded_malloc w sz extra h =
     (if sz > MAX_ALLOC then Some (Inl (ABORT ''Bad alloc request''))
      else case lc_malloc w (unat (sz + ALLOC_OFF_TOTAL + extra)) h of
        None \<Rightarrow> Some (Inl (ABORT ''Out of memory''))
      | Some (p, h1) \<Rightarrow> do { h2 \<leftarrow> set_guards p sz h1; Some (Inr (p, h2)) })"

definition ck_alloc_nozero :: "'w libc_scheme \<Rightarrow> u32 \<Rightarrow> mem_heap \<Rightarrow> (nat option \<times> mem_heap) outcome" where
  "ck_alloc_nozero w sz h =
     (if sz = 0 then Some (Inr (None, h))
      else andthen (guarded_malloc w sz 0 h) (\<lambda>(p, h1). Some (Inr (Some p, h1))))"

definition ck_alloc :: "'w libc_scheme \<Rightarrow> u32 \<Rightarrow> mem_heap \<Rightarrow> (nat option \<times> mem_heap) outcome" where
  "ck_alloc w sz h =
     (if sz = 0 then Some (Inr (None, h))
      else andthen (ck_alloc_nozero w sz h)
        (\<lambda>(r, h1). do { p \<leftarrow> r; h2 \<leftarrow> set_user p 0 (replicate (unat sz) 0) h1; Some (Inr (r, h2)) }))"

text \<open>\<^verbatim>\<open>snprintf\<close> yields the text, or \<open>None\<close> when it fails.\<close>

definition alloc_printf :: "'w libc_scheme \<Rightarrow> u8 list option \<Rightarrow> mem_heap \<Rightarrow> (nat option \<times> mem_heap) outcome" where
  "alloc_printf w str h =
     (case str of
        None \<Rightarrow> Some (Inl (FATAL_EXIT ''Whoa, snprintf() fails?!''))
      | Some s \<Rightarrow> andthen (ck_alloc w (of_nat (length s) + 1) h)
          (\<lambda>(r, h1). do { p \<leftarrow> r; h2 \<leftarrow> set_user p 0 (s @ [0]) h1; Some (Inr (r, h2)) }))"

definition ck_free :: "'w libc_scheme \<Rightarrow> nat option \<Rightarrow> mem_heap \<Rightarrow> mem_heap outcome" where
  "ck_free w m h =
     (case m of
        None \<Rightarrow> Some (Inr h)
      | Some p \<Rightarrow> andthen (CHECK_PTR h p) (\<lambda>_. do {
          h1 \<leftarrow> (if l_debug w then do { n \<leftarrow> ALLOC_S h p; set_user p 0 (replicate (unat n) 0xff) h } else Some h);
          h2 \<leftarrow> wr_mem p 0 (le_bytes 4 ALLOC_MAGIC_F) h1;
          h3 \<leftarrow> lc_free w p h2;
          Some (Inr h3) }))"

text \<open>The part of \<^verbatim>\<open>DFL_ck_realloc\<close> that looks at the old block; it yields its size.\<close>

definition check_orig :: "'w libc_scheme \<Rightarrow> nat option \<Rightarrow> mem_heap \<Rightarrow> (u32 \<times> mem_heap) outcome" where
  "check_orig w orig h =
     (case orig of
        None \<Rightarrow> Some (Inr (0, h))
      | Some p \<Rightarrow> andthen (CHECK_PTR h p) (\<lambda>_. do {
          h1 \<leftarrow> (if l_debug w then Some h else wr_mem p 0 (le_bytes 4 ALLOC_MAGIC_F) h);
          old_size \<leftarrow> ALLOC_S h1 p;
          Some (if old_size > MAX_ALLOC then Inl (ABORT ''Bad alloc request'') else Inr (old_size, h1)) }))"

text \<open>The debugging variant always moves the block, and wipes the old one.\<close>

definition move_block ::
  "'w libc_scheme \<Rightarrow> nat option \<Rightarrow> u32 \<Rightarrow> u32 \<Rightarrow> mem_heap \<Rightarrow> (nat \<times> mem_heap) outcome" where
  "move_block w orig old_size sz h =
     (case lc_malloc w (unat (sz + ALLOC_OFF_TOTAL)) h of
        None \<Rightarrow> Some (Inl (ABORT ''Out of memory''))
      | Some (q, h1) \<Rightarrow>
          (case orig of
             None \<Rightarrow> Some (Inr (q, h1))
           | Some p \<Rightarrow> do {
               d \<leftarrow> rd_mem h1 p ALLOC_OFF_HEAD (unat (min sz old_size));
               h2 \<leftarrow> set_user q 0 d h1;
               h3 \<leftarrow> set_user p 0 (replicate (unat old_size) 0xff) h2;
               h4 \<leftarrow> wr_mem p 0 (le_bytes 4 ALLOC_MAGIC_F) h3;
               h5 \<leftarrow> lc_free w p h4;
               Some (Inr (q, h5)) }))"

definition resize_block ::
  "'w libc_scheme \<Rightarrow> nat option \<Rightarrow> u32 \<Rightarrow> mem_heap \<Rightarrow> (nat \<times> mem_heap) outcome" where
  "resize_block w orig sz h =
     do { r \<leftarrow> lc_realloc w orig (unat (sz + ALLOC_OFF_TOTAL)) h;
          case r of None \<Rightarrow> Some (Inl (ABORT ''Out of memory'')) | Some x \<Rightarrow> Some (Inr x) }"

definition ck_realloc :: "'w libc_scheme \<Rightarrow> nat option \<Rightarrow> u32 \<Rightarrow> mem_heap \<Rightarrow> (nat option \<times> mem_heap) outcome" where
  "ck_realloc w orig sz h =
     (if sz = 0 then andthen (ck_free w orig h) (\<lambda>h1. Some (Inr (None, h1)))
      else andthen (check_orig w orig h) (\<lambda>(old_size, h1).
        if sz > MAX_ALLOC then Some (Inl (ABORT ''Bad alloc request''))
        else andthen (if l_debug w then move_block w orig old_size sz h1 else resize_block w orig sz h1)
          (\<lambda>(q, h2). do {
             h3 \<leftarrow> set_guards q sz h2;
             h4 \<leftarrow> (if sz > old_size then set_user q old_size (replicate (unat (sz - old_size)) 0) h3 else Some h3);
             Some (Inr (Some q, h4)) })))"

definition ck_realloc_block :: "'w libc_scheme \<Rightarrow> nat option \<Rightarrow> u32 \<Rightarrow> mem_heap \<Rightarrow> (nat option \<times> mem_heap) outcome" where
  "ck_realloc_block w orig sz h =
     (case orig of
        None \<Rightarrow> ck_realloc w orig sz h
      | Some p \<Rightarrow>
          if l_debug w then ck_realloc w orig sz h
          else andthen (CHECK_PTR h p) (\<lambda>_. do {
            n \<leftarrow> ALLOC_S h p;
            if n \<ge> sz then Some (Inr (orig, h)) else ck_realloc w orig (sz + ALLOC_BLK_INC) h }))"

text \<open>Copies of memory that is given by its bytes; a string ends with its first zero byte.\<close>

definition strlen :: "u8 list \<Rightarrow> nat option" where
  "strlen s = (if 0 \<in> set s then Some (length (takeWhile (\<lambda>c. c \<noteq> 0) s)) else None)"

definition copy_in :: "'w libc_scheme \<Rightarrow> u32 \<Rightarrow> u32 \<Rightarrow> u8 list \<Rightarrow> mem_heap \<Rightarrow> (nat \<times> mem_heap) outcome" where
  "copy_in w sz extra mem h =
     andthen (guarded_malloc w sz extra h)
       (\<lambda>(p, h1). do { d \<leftarrow> slice mem 0 (unat sz); h2 \<leftarrow> set_user p 0 d h1; Some (Inr (p, h2)) })"

definition ck_strdup :: "'w libc_scheme \<Rightarrow> u8 list option \<Rightarrow> mem_heap \<Rightarrow> (nat option \<times> mem_heap) outcome" where
  "ck_strdup w str h =
     (case str of
        None \<Rightarrow> Some (Inr (None, h))
      | Some s \<Rightarrow> do {
          n \<leftarrow> strlen s;
          andthen (copy_in w (of_nat n + 1) 0 s h) (\<lambda>(p, h1). Some (Inr (Some p, h1))) })"

definition ck_memdup :: "'w libc_scheme \<Rightarrow> u8 list option \<Rightarrow> u32 \<Rightarrow> mem_heap \<Rightarrow> (nat option \<times> mem_heap) outcome" where
  "ck_memdup w mem sz h =
     (case mem of
        None \<Rightarrow> Some (Inr (None, h))
      | Some m \<Rightarrow> if sz = 0 then Some (Inr (None, h))
                  else andthen (copy_in w sz 0 m h) (\<lambda>(p, h1). Some (Inr (Some p, h1))))"

definition ck_memdup_str :: "'w libc_scheme \<Rightarrow> u8 list option \<Rightarrow> u32 \<Rightarrow> mem_heap \<Rightarrow> (nat option \<times> mem_heap) outcome" where
  "ck_memdup_str w mem sz h =
     (case mem of
        None \<Rightarrow> Some (Inr (None, h))
      | Some m \<Rightarrow> if sz = 0 then Some (Inr (None, h))
                  else andthen (copy_in w sz 1 m h)
                    (\<lambda>(p, h1). do { h2 \<leftarrow> set_user p sz [0] h1; Some (Inr (Some p, h2)) }))"

section \<open>The abstract view: the user's bytes by pointer\<close>

text \<open>What a program that respects the guards sees of a live block.\<close>

definition user_bytes :: "mem_heap \<Rightarrow> nat \<rightharpoonup> u8 list" where
  "user_bytes h p =
     (if is_live h p \<and> CHECK_PTR h p = Some (Inr ())
      then do { n \<leftarrow> ALLOC_S h p; rd_mem h p ALLOC_OFF_HEAD (unat n) } else None)"

text \<open>A block with its guards: \<open>m\<close> in front of the size, the user's bytes, the tail guard, and what is left.\<close>

definition block :: "u32 \<Rightarrow> u8 list \<Rightarrow> u8 list \<Rightarrow> u8 list" where
  "block m d t = le_bytes 4 m @ le_bytes 4 (of_nat (length d) :: u32) @ d @ ALLOC_MAGIC_C2 # t"

definition holds_block :: "mem_heap \<Rightarrow> nat \<Rightarrow> u8 list \<Rightarrow> bool" where
  "holds_block h p d \<longleftrightarrow> length d < 2 ^ 32 \<and> (\<exists>t. h p = Some \<lparr>live = True, raw = block ALLOC_MAGIC_C1 d t\<rparr>)"

lemma length_block [simp]: "length (block m d t) = length d + length t + 9"
  by (simp add: block_def)

lemma block_parts:
  assumes "length d < 2 ^ 32"
  shows "slice (block m d t) 0 4 = Some (le_bytes 4 m)"
    and "slice (block m d t) 4 4 = Some (le_bytes 4 (of_nat (length d) :: u32))"
    and "unat (of_nat (length d) :: u32) = length d"
    and "slice (block m d t) 8 (length d) = Some d"
    and "slice (block m d t) (8 + length d) 1 = Some [ALLOC_MAGIC_C2]"
  using assms by (simp_all add: slice_def block_def unsigned_of_nat take_bit_nat_eq_self)

lemma guards_of_block:
  assumes "h p = Some \<lparr>live = b, raw = block m d t\<rparr>" and "length d < 2 ^ 32"
  shows "ALLOC_C1 h p = Some m" "ALLOC_S h p = Some (of_nat (length d))" "ALLOC_C2 h p = Some ALLOC_MAGIC_C2"
    "rd_mem h p 8 (length d) = Some d"
  using assms block_parts [OF assms(2)]
  by (simp_all add: ALLOC_C1_def ALLOC_S_def ALLOC_C2_def rd_mem_def ALLOC_OFF_HEAD_def le_word_le_bytes)

lemma xor_zero_iff: "(a :: 'a::len word) XOR b = 0 \<longleftrightarrow> a = b"
  by (metis xor.assoc xor.left_neutral xor.right_neutral xor_self_eq)

lemma check_block:
  assumes "h p = Some \<lparr>live = b, raw = block m d t\<rparr>" and "length d < 2 ^ 32"
  shows "CHECK_PTR h p = Some (if m = ALLOC_MAGIC_C1 then Inr ()
    else Inl (ABORT (if m = ALLOC_MAGIC_F then ''Use after free.'' else ''Corrupted head alloc canary.'')))"
  using guards_of_block [of h p b m d t, OF assms] by (simp add: CHECK_PTR_def xor_zero_iff)

lemma block_of_parts:
  assumes "slice r 0 4 = Some (le_bytes 4 m)" and "slice r 4 4 = Some (le_bytes 4 (of_nat (length d) :: u32))"
    and "slice r 8 (length d) = Some d" and "slice r (8 + length d) 1 = Some [ALLOC_MAGIC_C2]"
  shows "r = block m d (drop (9 + length d) r)"
proof -
  have len: "9 + length d \<le> length r" using assms(4) by (auto simp: slice_def split: if_splits)
  have "drop 4 r = take 4 (drop 4 r) @ drop 8 r"
    using append_take_drop_id [of 4 "drop 4 r"] by simp
  moreover have "drop 8 r = take (length d) (drop 8 r) @ drop (8 + length d) r"
    using append_take_drop_id [of "length d" "drop 8 r"] by (simp add: add.commute)
  moreover have "drop (8 + length d) r = take 1 (drop (8 + length d) r) @ drop (9 + length d) r"
    using append_take_drop_id [of 1 "drop (8 + length d) r"] by (simp add: add.commute)
  ultimately have "r = take 4 r @ take 4 (drop 4 r) @ take (length d) (drop 8 r) @ take 1 (drop (8 + length d) r) @ drop (9 + length d) r"
    by (metis append_take_drop_id)
  then show ?thesis using assms len by (simp add: slice_def block_def)
qed

lemma le_word_slice:
  assumes "map_option le_word (slice r i 4) = Some (v :: u32)"
  shows "slice r i 4 = Some (le_bytes 4 v)"
proof -
  obtain x where x: "slice r i 4 = Some x" "v = le_word x" using assms by auto
  then have "length x = 4" by (auto simp: slice_def split: if_splits)
  then show ?thesis using x le_bytes_le_word [of x, where ?'a = 32] by simp
qed

text \<open>The executable view says exactly that the block has its guards.\<close>

lemma user_bytes_iff: "user_bytes h p = Some d \<longleftrightarrow> holds_block h p d"
proof
  assume "holds_block h p d"
  then obtain t where t: "h p = Some \<lparr>live = True, raw = block ALLOC_MAGIC_C1 d t\<rparr>" and l: "length d < 2 ^ 32"
    by (auto simp: holds_block_def)
  then show "user_bytes h p = Some d"
    using check_block [of h p True ALLOC_MAGIC_C1 d t, OF t l] guards_of_block [of h p True ALLOC_MAGIC_C1 d t, OF t l]
      block_parts(3) [OF l]
    by (simp add: user_bytes_def is_live_def ALLOC_OFF_HEAD_def)
next
  assume u: "user_bytes h p = Some d"
  then obtain c where c: "h p = Some c" "live c" and chk: "CHECK_PTR h p = Some (Inr ())"
    by (auto simp: user_bytes_def is_live_def split: if_splits option.splits)
  obtain n where n: "ALLOC_S h p = Some n" and d: "slice (raw c) 8 (unat n) = Some d"
    using u chk c by (auto simp: user_bytes_def rd_mem_def ALLOC_OFF_HEAD_def bind_eq_Some_conv split: if_splits)
  have len: "length d = unat n" using d by (auto simp: slice_def split: if_splits)
  then have small: "length d < 2 ^ 32" and nn: "of_nat (length d) = n" using unsigned_less [of n] by simp_all
  have c1: "ALLOC_C1 h p = Some ALLOC_MAGIC_C1" and c2: "ALLOC_C2 h p = Some ALLOC_MAGIC_C2"
    using chk by (auto simp: CHECK_PTR_def xor_zero_iff bind_eq_Some_conv split: if_splits)
  have "slice (raw c) 0 4 = Some (le_bytes 4 ALLOC_MAGIC_C1)"
    using c1 c by (intro le_word_slice) (simp add: ALLOC_C1_def rd_mem_def)
  moreover have "slice (raw c) 4 4 = Some (le_bytes 4 (of_nat (length d) :: u32))"
    using n c by (simp only: nn, intro le_word_slice) (simp add: ALLOC_S_def rd_mem_def)
  moreover have "slice (raw c) (8 + length d) 1 = Some [ALLOC_MAGIC_C2]"
  proof -
    obtain x where x: "slice (raw c) (8 + length d) 1 = Some x" "hd x = ALLOC_MAGIC_C2"
      using c2 c n len by (auto simp: ALLOC_C2_def rd_mem_def ALLOC_OFF_HEAD_def bind_eq_Some_conv)
    then have "length x = 1" by (auto simp: slice_def split: if_splits)
    then show ?thesis using x by (auto simp: length_Suc_conv)
  qed
  ultimately have "raw c = block ALLOC_MAGIC_C1 d (drop (9 + length d) (raw c))"
    using d by (intro block_of_parts) (simp_all add: len)
  then have "h p = Some \<lparr>live = True, raw = block ALLOC_MAGIC_C1 d (drop (9 + length d) (raw c))\<rparr>"
    using c by (cases c) simp
  then show "holds_block h p d" using small unfolding holds_block_def by blast
qed

lemma user_bytes_dead: "\<not> is_live h p \<Longrightarrow> user_bytes h p = None"
  by (simp add: user_bytes_def)

text \<open>Only the block itself matters.\<close>

lemma user_bytes_other:
  assumes "h' q = h q"
  shows "user_bytes h' q = user_bytes h q"
proof -
  have "user_bytes h' q = Some d \<longleftrightarrow> user_bytes h q = Some d" for d
    by (simp add: user_bytes_iff holds_block_def assms)
  then show ?thesis by (cases "user_bytes h q"; cases "user_bytes h' q") auto
qed

lemma user_bytes_upd:
  assumes "user_bytes h' p = r" and "\<And>q. q \<noteq> p \<Longrightarrow> h' q = h q"
  shows "user_bytes h' = (user_bytes h)(p := r)"
proof
  fix q show "user_bytes h' q = ((user_bytes h)(p := r)) q"
    using assms(1) user_bytes_other [of h' q h] assms(2) by (cases "q = p") auto
qed

section \<open>What each operation does to a block\<close>

lemma wr_block:
  assumes "h p = Some \<lparr>live = True, raw = block m d t\<rparr>" and "unat off + length x \<le> length d"
  shows "set_user p off x h = Some (h(p \<mapsto> \<lparr>live = True, raw = block m (take (unat off) d @ x @ drop (unat off + length x) d) t\<rparr>))"
  using assms by (simp add: set_user_def wr_mem_def ALLOC_OFF_HEAD_def put_def block_def)

lemma wr_magic:
  assumes "h p = Some \<lparr>live = True, raw = block m d t\<rparr>"
  shows "wr_mem p 0 (le_bytes 4 m') h = Some (h(p \<mapsto> \<lparr>live = True, raw = block m' d t\<rparr>))"
  using assms by (simp add: wr_mem_def put_def block_def)

lemma guards_set:
  assumes "h p = Some \<lparr>live = True, raw = r\<rparr>" and "9 + unat n \<le> length r"
  shows "set_guards p n h = Some (h(p \<mapsto> \<lparr>live = True,
    raw = block ALLOC_MAGIC_C1 (take (unat n) (drop 8 r)) (drop (9 + unat n) r)\<rparr>))"
proof -
  let ?r1 = "le_bytes 4 ALLOC_MAGIC_C1 @ drop 4 r"
  let ?r2 = "le_bytes 4 ALLOC_MAGIC_C1 @ le_bytes 4 n @ drop 8 r"
  have 1: "wr_mem p 0 (le_bytes 4 ALLOC_MAGIC_C1) h = Some (h(p \<mapsto> \<lparr>live = True, raw = ?r1\<rparr>))"
    using assms by (simp add: wr_mem_def put_def)
  have 2: "wr_mem p 4 (le_bytes 4 n) (h(p \<mapsto> \<lparr>live = True, raw = ?r1\<rparr>)) = Some (h(p \<mapsto> \<lparr>live = True, raw = ?r2\<rparr>))"
    using assms by (simp add: wr_mem_def put_def)
  have 3: "ALLOC_S (h(p \<mapsto> \<lparr>live = True, raw = ?r2\<rparr>)) p = Some n"
    using assms by (simp add: ALLOC_S_def rd_mem_def slice_def le_word_le_bytes)
  have l: "length (take (unat n) (drop 8 r)) = unat n" using assms(2) by simp
  have 4: "wr_mem p (ALLOC_OFF_HEAD + unat n) [ALLOC_MAGIC_C2] (h(p \<mapsto> \<lparr>live = True, raw = ?r2\<rparr>)) =
      Some (h(p \<mapsto> \<lparr>live = True, raw = block ALLOC_MAGIC_C1 (take (unat n) (drop 8 r)) (drop (9 + unat n) r)\<rparr>))"
    using assms(2) l by (simp add: wr_mem_def put_def block_def ALLOC_OFF_HEAD_def add.commute)
  show ?thesis unfolding set_guards_def 1 bind.bind_lunit 2 3 4 ..
qed

text \<open>The library never hands out a block that is in use.\<close>

definition libc_ok :: "'w libc_scheme \<Rightarrow> bool" where
  "libc_ok w \<longleftrightarrow> (\<forall>h n p. l_malloc w h n = Some p \<longrightarrow> \<not> is_live h p) \<and>
     (\<forall>h p n q. l_realloc w h p n = Some q \<longrightarrow> q = p \<or> \<not> is_live h q)"

lemma total_size:
  assumes "n \<le> MAX_ALLOC" and "e \<le> 1"
  shows "unat (n + ALLOC_OFF_TOTAL + e) = unat n + 9 + unat e"
proof -
  have "unat n \<le> 2 ^ 30" "unat e \<le> 1" using assms by (simp_all add: MAX_ALLOC_def word_le_nat_alt)
  then have 1: "unat (n + 9) = unat n + 9" by (subst unat_add_lem [THEN iffD1]) simp_all
  then have "unat (n + 9 + e) = unat (n + 9) + unat e"
    using \<open>unat n \<le> 2 ^ 30\<close> \<open>unat e \<le> 1\<close> by (subst unat_add_lem [THEN iffD1]) simp_all
  then show ?thesis using 1 by (simp add: ALLOC_OFF_TOTAL_def)
qed

lemma small_size: "n \<le> MAX_ALLOC \<Longrightarrow> unat n \<le> 2 ^ 30"
  by (simp add: MAX_ALLOC_def word_le_nat_alt)

lemma guarded_malloc_block:
  assumes "n \<le> MAX_ALLOC" and "e \<le> 1" and "l_malloc w h (unat n + 9 + unat e) = Some p"
  obtains d t where "length d = unat n" and "length t = unat e"
    and "guarded_malloc w n e h = Some (Inr (p, h(p \<mapsto> \<lparr>live = True, raw = block ALLOC_MAGIC_C1 d t\<rparr>)))"
proof -
  let ?r = "map (l_junk w) [0..<unat n + 9 + unat e]"
  let ?h = "h(p \<mapsto> \<lparr>live = True, raw = ?r\<rparr>)"
  have m: "lc_malloc w (unat (n + ALLOC_OFF_TOTAL + e)) h = Some (p, ?h)"
    unfolding total_size [OF assms(1,2)] by (simp only: lc_malloc_def assms(3) option.case)
  have g: "set_guards p n ?h = Some (?h(p \<mapsto> \<lparr>live = True,
      raw = block ALLOC_MAGIC_C1 (take (unat n) (drop 8 ?r)) (drop (9 + unat n) ?r)\<rparr>))"
    by (rule guards_set) simp_all
  show thesis
    by (rule that [of "take (unat n) (drop 8 ?r)" "drop (9 + unat n) ?r"])
      (use assms(1) in \<open>simp_all add: guarded_malloc_def m g not_less [symmetric] del: upt_Suc\<close>)
qed

lemma new_block_view:
  assumes "length d < 2 ^ 32"
  shows "user_bytes (h(p \<mapsto> \<lparr>live = True, raw = block ALLOC_MAGIC_C1 d t\<rparr>)) = (user_bytes h)(p \<mapsto> d)"
  by (rule user_bytes_upd) (use assms in \<open>auto simp: user_bytes_iff holds_block_def\<close>)

lemma freed_block_view:
  assumes "\<not> is_live h' p" and "\<And>q. q \<noteq> p \<Longrightarrow> h' q = h q"
  shows "user_bytes h' = (user_bytes h)(p := None)"
  by (rule user_bytes_upd [OF user_bytes_dead [OF assms(1)] assms(2)])

lemma free_block:
  assumes "h p = Some \<lparr>live = True, raw = block ALLOC_MAGIC_C1 d t\<rparr>" and "length d < 2 ^ 32"
  shows "\<exists>h'. ck_free w (Some p) h = Some (Inr h') \<and> \<not> is_live h' p \<and> (\<forall>q. q \<noteq> p \<longrightarrow> h' q = h q)"
proof -
  note chk = check_block [of h p True ALLOC_MAGIC_C1 d t, OF assms]
  note gs = guards_of_block [of h p True ALLOC_MAGIC_C1 d t, OF assms]
  have "\<exists>d1. (if l_debug w then do { n \<leftarrow> ALLOC_S h p; set_user p 0 (replicate (unat n) 0xff) h } else Some h) =
      Some (h(p \<mapsto> \<lparr>live = True, raw = block ALLOC_MAGIC_C1 d1 t\<rparr>))"
  proof (cases "l_debug w")
    case True
    then show ?thesis
      using wr_block [of h p ALLOC_MAGIC_C1 d t 0 "replicate (length d) 0xff"] assms gs(2) block_parts(3) [OF assms(2)] by auto
  next
    case False
    have "h = h(p \<mapsto> \<lparr>live = True, raw = block ALLOC_MAGIC_C1 d t\<rparr>)" using assms(1) by (simp add: fun_upd_idem)
    then show ?thesis using False by auto
  qed
  then obtain d1 where d1: "(if l_debug w then do { n \<leftarrow> ALLOC_S h p; set_user p 0 (replicate (unat n) 0xff) h } else Some h) =
      Some (h(p \<mapsto> \<lparr>live = True, raw = block ALLOC_MAGIC_C1 d1 t\<rparr>))" by blast
  let ?h1 = "h(p \<mapsto> \<lparr>live = True, raw = block ALLOC_MAGIC_C1 d1 t\<rparr>)"
  have m: "wr_mem p 0 (le_bytes 4 ALLOC_MAGIC_F) ?h1 = Some (?h1(p \<mapsto> \<lparr>live = True, raw = block ALLOC_MAGIC_F d1 t\<rparr>))"
    by (rule wr_magic) simp
  have f: "ck_free w (Some p) h = Some (Inr (h(p \<mapsto> \<lparr>live = False, raw = l_scrub w (block ALLOC_MAGIC_F d1 t)\<rparr>)))"
    by (simp add: ck_free_def chk d1 m lc_free_def)
  then show ?thesis by (simp add: is_live_def)
qed

section \<open>Resizing\<close>

lemma check_orig_block:
  assumes "h p = Some \<lparr>live = True, raw = block ALLOC_MAGIC_C1 d t\<rparr>" and "length d \<le> unat MAX_ALLOC"
  shows "check_orig w (Some p) h = Some (Inr (of_nat (length d),
    h(p \<mapsto> \<lparr>live = True, raw = block (if l_debug w then ALLOC_MAGIC_C1 else ALLOC_MAGIC_F) d t\<rparr>)))"
proof -
  have l: "length d < 2 ^ 32" using assms(2) by (simp add: MAX_ALLOC_def)
  have le: "(of_nat (length d) :: u32) \<le> MAX_ALLOC" using assms(2) block_parts(3) [OF l] by (simp add: word_le_nat_alt)
  let ?m = "if l_debug w then ALLOC_MAGIC_C1 else ALLOC_MAGIC_F"
  let ?h = "h(p \<mapsto> \<lparr>live = True, raw = block ?m d t\<rparr>)"
  have "h(p \<mapsto> \<lparr>live = True, raw = block ALLOC_MAGIC_C1 d t\<rparr>) = h" using assms(1) by (simp add: fun_upd_idem)
  then have h1: "(if l_debug w then Some h else wr_mem p 0 (le_bytes 4 ALLOC_MAGIC_F) h) = Some ?h"
    using wr_magic [of h p ALLOC_MAGIC_C1 d t ALLOC_MAGIC_F, OF assms(1)] by simp
  have "ALLOC_S ?h p = Some (of_nat (length d))" by (rule guards_of_block(2) [OF _ l]) simp
  then show ?thesis
    using check_block [of h p True ALLOC_MAGIC_C1 d t, OF assms(1) l] le h1
    by (simp add: check_orig_def not_less [symmetric] del: fun_upd_apply)
qed

text \<open>What the new place holds before the guards are written: the common part, and junk.\<close>

definition moved :: "mem_heap \<Rightarrow> mem_heap \<Rightarrow> nat \<Rightarrow> nat \<Rightarrow> u8 list \<Rightarrow> nat \<Rightarrow> bool" where
  "moved h h2 p q d n \<longleftrightarrow>
     (\<exists>r. h2 q = Some \<lparr>live = True, raw = r\<rparr> \<and> length r = n + 9 \<and>
        take (min n (length d)) (drop 8 r) = take n d) \<and>
     (q \<noteq> p \<longrightarrow> \<not> is_live h2 p) \<and> (\<forall>x. x \<noteq> p \<and> x \<noteq> q \<longrightarrow> h2 x = h x)"

lemma resize_block_moved:
  assumes "libc_ok w" and "h p = Some \<lparr>live = True, raw = block m d t\<rparr>" and "n \<le> MAX_ALLOC"
  shows "resize_block w (Some p) n h = Some (Inl (ABORT ''Out of memory'')) \<and> l_realloc w h p (unat n + 9) = None \<or>
    (\<exists>q h2. resize_block w (Some p) n h = Some (Inr (q, h2)) \<and> moved h h2 p q d (unat n) \<and> (q = p \<or> \<not> is_live h q))"
proof -
  have n: "unat (n + ALLOC_OFF_TOTAL) = unat n + 9" using total_size [OF assms(3), of 0] by simp
  show ?thesis
  proof (cases "l_realloc w h p (unat n + 9)")
    case None
    then show ?thesis using assms(2) by (simp add: resize_block_def lc_realloc_def n)
  next
    case (Some q)
    let ?r = "take (unat n + 9) (block m d t) @ map (l_junk w) [length (block m d t)..<unat n + 9]"
    let ?h = "(h(p \<mapsto> \<lparr>live = False, raw = l_scrub w (block m d t)\<rparr>))(q \<mapsto> \<lparr>live = True, raw = ?r\<rparr>)"
    have r: "resize_block w (Some p) n h = Some (Inr (q, ?h))"
      using assms(2) Some by (simp add: resize_block_def lc_realloc_def lc_free_def n del: length_block upt_Suc)
    have "take (min (unat n) (length d)) (drop 8 ?r) = take (unat n) d"
      by (auto simp: block_def min_def)
    then have "moved h ?h p q d (unat n)" by (simp add: moved_def is_live_def)
    moreover have "q = p \<or> \<not> is_live h q" using assms(1) Some by (auto simp: libc_ok_def)
    ultimately show ?thesis using r by blast
  qed
qed

lemma move_block_moved:
  assumes "libc_ok w" and "h p = Some \<lparr>live = True, raw = block ALLOC_MAGIC_C1 d t\<rparr>" and "n \<le> MAX_ALLOC"
    and "length d \<le> unat MAX_ALLOC"
  shows "move_block w (Some p) (of_nat (length d)) n h = Some (Inl (ABORT ''Out of memory'')) \<and> l_malloc w h (unat n + 9) = None \<or>
    (\<exists>q h2. move_block w (Some p) (of_nat (length d)) n h = Some (Inr (q, h2)) \<and> moved h h2 p q d (unat n) \<and> \<not> is_live h q)"
proof -
  have n: "unat (n + ALLOC_OFF_TOTAL) = unat n + 9" using total_size [OF assms(3), of 0] by simp
  have l: "length d < 2 ^ 32" using assms(4) by (simp add: MAX_ALLOC_def)
  show ?thesis
  proof (cases "l_malloc w h (unat n + 9)")
    case None
    then show ?thesis by (simp add: move_block_def lc_malloc_def n)
  next
    case (Some q)
    have q: "\<not> is_live h q" using assms(1) Some by (auto simp: libc_ok_def)
    then have ne: "q \<noteq> p" using assms(2) by (auto simp: is_live_def)
    let ?j = "map (l_junk w) [0..<unat n + 9]"
    let ?k = "min (unat n) (length d)"
    let ?x = "take ?k d"
    let ?r = "take 8 ?j @ ?x @ drop (8 + ?k) ?j"
    have k: "unat (min n (of_nat (length d))) = ?k"
      using block_parts(3) [OF l] by (simp add: min_def word_le_nat_alt)
    let ?h1 = "h(q \<mapsto> \<lparr>live = True, raw = ?j\<rparr>)"
    let ?h2 = "?h1(q \<mapsto> \<lparr>live = True, raw = ?r\<rparr>)"
    let ?z = "replicate (length d) 0xff :: u8 list"
    let ?h3 = "?h2(p \<mapsto> \<lparr>live = True, raw = block ALLOC_MAGIC_C1 ?z t\<rparr>)"
    let ?h5 = "?h2(p \<mapsto> \<lparr>live = False, raw = l_scrub w (block ALLOC_MAGIC_F ?z t)\<rparr>)"
    have m: "lc_malloc w (unat (n + ALLOC_OFF_TOTAL)) h = Some (q, ?h1)"
      unfolding n by (simp only: lc_malloc_def Some option.case)
    have d: "rd_mem ?h1 p ALLOC_OFF_HEAD ?k = Some ?x"
      using ne assms(2) by (simp add: rd_mem_def ALLOC_OFF_HEAD_def slice_def block_def min_def)
    have s2: "set_user q 0 ?x ?h1 = Some ?h2"
      by (simp add: set_user_def wr_mem_def ALLOC_OFF_HEAD_def put_def min_def del: upt_Suc)
    have s3: "set_user p 0 (replicate (unat (of_nat (length d) :: u32)) 0xff) ?h2 = Some ?h3"
      using wr_block [of ?h2 p ALLOC_MAGIC_C1 d t 0 ?z] ne assms(2) block_parts(3) [OF l] by simp
    have s4: "wr_mem p 0 (le_bytes 4 ALLOC_MAGIC_F) ?h3 = Some (?h3(p \<mapsto> \<lparr>live = True, raw = block ALLOC_MAGIC_F ?z t\<rparr>))"
      by (rule wr_magic) simp
    have s5: "lc_free w p (?h3(p \<mapsto> \<lparr>live = True, raw = block ALLOC_MAGIC_F ?z t\<rparr>)) = Some ?h5"
      by (simp add: lc_free_def)
    have "move_block w (Some p) (of_nat (length d)) n h = Some (Inr (q, ?h5))"
      unfolding move_block_def m option.case prod.case k d bind.bind_lunit s2 s3 s4 s5 ..
    moreover have "moved h ?h5 p q d (unat n)"
      using ne by (simp add: moved_def is_live_def min_def del: upt_Suc)
    ultimately show ?thesis using q by blast
  qed
qed

lemma ck_realloc_view:
  assumes "libc_ok w" and "user_bytes h p = Some d" and "length d \<le> unat MAX_ALLOC" and "n \<noteq> 0" and "n \<le> MAX_ALLOC"
  shows "(ck_realloc w (Some p) n h = Some (Inl (ABORT ''Out of memory'')) \<and>
      (\<exists>h1. l_malloc w h1 (unat n + 9) = None \<or> l_realloc w h1 p (unat n + 9) = None)) \<or>
    (\<exists>q h'. ck_realloc w (Some p) n h = Some (Inr (Some q, h')) \<and> (q = p \<or> \<not> is_live h q) \<and>
       user_bytes h' = ((user_bytes h)(p := None))(q \<mapsto> take (unat n) d @ replicate (unat n - length d) 0))"
proof -
  obtain t where t: "h p = Some \<lparr>live = True, raw = block ALLOC_MAGIC_C1 d t\<rparr>" and l: "length d < 2 ^ 32"
    using assms(2) unfolding user_bytes_iff holds_block_def by blast
  let ?m = "if l_debug w then ALLOC_MAGIC_C1 else ALLOC_MAGIC_F"
  let ?h1 = "h(p \<mapsto> \<lparr>live = True, raw = block ?m d t\<rparr>)"
  let ?step = "if l_debug w then move_block w (Some p) (of_nat (length d)) n ?h1 else resize_block w (Some p) n ?h1"
  note orig = check_orig_block [of h p d t w, OF t assms(3)]
  have live1: "is_live ?h1 q = is_live h q" for q using t by (simp add: is_live_def)
  have "?step = Some (Inl (ABORT ''Out of memory'')) \<and> (\<exists>h1. l_malloc w h1 (unat n + 9) = None \<or> l_realloc w h1 p (unat n + 9) = None) \<or>
      (\<exists>q h2. ?step = Some (Inr (q, h2)) \<and> moved ?h1 h2 p q d (unat n) \<and> (q = p \<or> \<not> is_live ?h1 q))"
  proof (cases "l_debug w")
    case True
    then show ?thesis using move_block_moved [OF assms(1) _ assms(5,3), of ?h1 p t] by auto
  next
    case False
    then show ?thesis using resize_block_moved [OF assms(1) _ assms(5), of ?h1 p ?m d t] by auto
  qed
  then consider (oom) "?step = Some (Inl (ABORT ''Out of memory''))"
      "\<exists>h1. l_malloc w h1 (unat n + 9) = None \<or> l_realloc w h1 p (unat n + 9) = None"
    | (moved) q h2 where "?step = Some (Inr (q, h2))" "moved ?h1 h2 p q d (unat n)" "q = p \<or> \<not> is_live ?h1 q"
    by blast
  then show ?thesis
  proof cases
    case oom
    have "ck_realloc w (Some p) n h = Some (Inl (ABORT ''Out of memory''))"
      using assms(4,5) orig oom(1) by (simp add: ck_realloc_def not_less [symmetric] del: fun_upd_apply)
    then show ?thesis using oom(2) by blast
  next
    case (moved q h2)
    note st = moved(1) and mv = moved(2) and fr = moved(3)
    obtain r where r: "h2 q = Some \<lparr>live = True, raw = r\<rparr>" "length r = unat n + 9"
      "take (min (unat n) (length d)) (drop 8 r) = take (unat n) d"
      using mv by (auto simp: moved_def)
    let ?u = "take (unat n) (drop 8 r)" and ?t = "drop (9 + unat n) r"
    let ?v = "take (unat n) d @ replicate (unat n - length d) 0"
    let ?h3 = "h2(q \<mapsto> \<lparr>live = True, raw = block ALLOC_MAGIC_C1 ?u ?t\<rparr>)"
    have u: "length ?u = unat n" using r(2) by simp
    have g: "set_guards q n h2 = Some ?h3" by (rule guards_set [of h2 q r n, OF r(1)]) (simp add: r(2))
    have more: "n > of_nat (length d) \<longleftrightarrow> unat n > length d" using block_parts(3) [OF l] by (simp add: word_less_nat_alt)
    have z: "(if n > of_nat (length d) then set_user q (of_nat (length d)) (replicate (unat (n - of_nat (length d))) 0) ?h3 else Some ?h3)
        = Some (h2(q \<mapsto> \<lparr>live = True, raw = block ALLOC_MAGIC_C1 ?v ?t\<rparr>))"
    proof (cases "unat n > length d")
      case True
      have "unat (n - of_nat (length d)) = unat n - length d"
        using True block_parts(3) [OF l] by (simp add: unat_sub word_le_nat_alt)
      moreover have "take (length d) ?u = d" using r(3) True by simp
      ultimately show ?thesis
        using True more wr_block [of ?h3 q ALLOC_MAGIC_C1 ?u ?t "of_nat (length d)" "replicate (unat n - length d) 0"]
          block_parts(3) [OF l] u by simp
    next
      case False
      then have "?u = ?v" using r(3) by simp
      then show ?thesis using False more by simp
    qed
    have lv: "length ?v < 2 ^ 32" using small_size [OF assms(5)] by (simp add: min_def)
    have view: "user_bytes (h2(q \<mapsto> \<lparr>live = True, raw = block ALLOC_MAGIC_C1 ?v ?t\<rparr>)) = (user_bytes h2)(q \<mapsto> ?v)"
      by (rule new_block_view [OF lv])
    have "(user_bytes h2)(q \<mapsto> ?v) = ((user_bytes h)(p := None))(q \<mapsto> ?v)"
    proof
      fix x show "((user_bytes h2)(q \<mapsto> ?v)) x = (((user_bytes h)(p := None))(q \<mapsto> ?v)) x"
      proof (cases "x = q")
        case False
        show ?thesis
        proof (cases "x = p")
          case True
          then show ?thesis using False mv user_bytes_dead [of h2 p] by (auto simp: moved_def)
        next
          case other: False
          then have "h2 x = h x" using False mv by (auto simp: moved_def)
          then show ?thesis using False other user_bytes_other [of h2 x h] by simp
        qed
      qed simp
    qed
    moreover have "ck_realloc w (Some p) n h = Some (Inr (Some q, h2(q \<mapsto> \<lparr>live = True, raw = block ALLOC_MAGIC_C1 ?v ?t\<rparr>)))"
      using assms(4,5) orig st g z by (simp add: ck_realloc_def not_less [symmetric] del: fun_upd_apply)
    moreover have "q = p \<or> \<not> is_live h q" using fr live1 by simp
    ultimately show ?thesis using view by (intro disjI2) auto
  qed
qed

lemma ck_alloc_view:
  assumes "n \<noteq> 0" and "n \<le> MAX_ALLOC" and "l_malloc w h (unat n + 9) = Some p"
  shows "\<exists>h'. ck_alloc w n h = Some (Inr (Some p, h')) \<and> user_bytes h' = (user_bytes h)(p \<mapsto> replicate (unat n) 0)"
proof -
  obtain d t where d: "length d = unat n"
    "guarded_malloc w n 0 h = Some (Inr (p, h(p \<mapsto> \<lparr>live = True, raw = block ALLOC_MAGIC_C1 d t\<rparr>)))"
    by (rule guarded_malloc_block [of n 0 w h p]) (use assms in simp_all)
  let ?z = "replicate (unat n) 0 :: u8 list"
  have "set_user p 0 ?z (h(p \<mapsto> \<lparr>live = True, raw = block ALLOC_MAGIC_C1 d t\<rparr>)) =
      Some (h(p \<mapsto> \<lparr>live = True, raw = block ALLOC_MAGIC_C1 ?z t\<rparr>))"
    using wr_block [of "h(p \<mapsto> \<lparr>live = True, raw = block ALLOC_MAGIC_C1 d t\<rparr>)" p ALLOC_MAGIC_C1 d t 0 ?z] d(1) by simp
  then have "ck_alloc w n h = Some (Inr (Some p, h(p \<mapsto> \<lparr>live = True, raw = block ALLOC_MAGIC_C1 ?z t\<rparr>)))"
    using assms(1) d(2) by (simp add: ck_alloc_def ck_alloc_nozero_def)
  moreover have "length ?z < 2 ^ 32" using small_size [OF assms(2)] by simp
  ultimately show ?thesis using new_block_view by blast
qed

lemma ck_free_view:
  assumes "user_bytes h p = Some d"
  shows "\<exists>h'. ck_free w (Some p) h = Some (Inr h') \<and> user_bytes h' = (user_bytes h)(p := None) \<and> \<not> is_live h' p"
proof -
  obtain t where t: "h p = Some \<lparr>live = True, raw = block ALLOC_MAGIC_C1 d t\<rparr>" and l: "length d < 2 ^ 32"
    using assms unfolding user_bytes_iff holds_block_def by blast
  show ?thesis using free_block [of h p d t w, OF t l] freed_block_view [of _ p h] by blast
qed

section \<open>What the guards catch\<close>

lemma overrun_block:
  assumes "h p = Some \<lparr>live = True, raw = block ALLOC_MAGIC_C1 d t\<rparr>" and "length d < 2 ^ 32" and "b \<noteq> ALLOC_MAGIC_C2"
  obtains h' where "wr_mem p (ALLOC_OFF_HEAD + length d) [b] h = Some h'"
    and "CHECK_PTR h' p = Some (Inl (ABORT ''Corrupted tail alloc canary.''))"
proof -
  let ?r = "le_bytes 4 ALLOC_MAGIC_C1 @ le_bytes 4 (of_nat (length d) :: u32) @ d @ b # t"
  let ?h = "h(p \<mapsto> \<lparr>live = True, raw = ?r\<rparr>)"
  have w: "wr_mem p (ALLOC_OFF_HEAD + length d) [b] h = Some ?h"
    using assms(1) by (simp add: wr_mem_def put_def block_def ALLOC_OFF_HEAD_def)
  have "ALLOC_C1 ?h p = Some ALLOC_MAGIC_C1" "ALLOC_S ?h p = Some (of_nat (length d))"
    by (simp_all add: ALLOC_C1_def ALLOC_S_def rd_mem_def slice_def le_word_le_bytes)
  moreover have "rd_mem ?h p (ALLOC_OFF_HEAD + length d) 1 = Some [b]"
    by (simp add: rd_mem_def slice_def ALLOC_OFF_HEAD_def)
  ultimately have "CHECK_PTR ?h p = Some (Inl (ABORT ''Corrupted tail alloc canary.''))"
    using assms(3) block_parts(3) [OF assms(2)] by (simp add: CHECK_PTR_def ALLOC_C2_def xor_zero_iff)
  then show thesis using that w by blast
qed

text \<open>Every operation on a pointer starts with the check.\<close>

lemma check_first:
  assumes "CHECK_PTR h p = Some (Inl e)"
  shows "ck_free w (Some p) h = Some (Inl e)" and "ck_realloc w (Some p) sz h = Some (Inl e)"
    and "\<not> l_debug w \<Longrightarrow> ck_realloc_block w (Some p) sz h = Some (Inl e)"
  by (simp_all add: assms ck_free_def ck_realloc_def ck_realloc_block_def check_orig_def)

lemma freed_block:
  assumes "user_bytes h p = Some d" and "ck_free w (Some p) h = Some (Inr h')"
  shows "\<exists>d1 t. length d1 = length d \<and> h' p = Some \<lparr>live = False, raw = l_scrub w (block ALLOC_MAGIC_F d1 t)\<rparr>"
proof -
  obtain t where t: "h p = Some \<lparr>live = True, raw = block ALLOC_MAGIC_C1 d t\<rparr>" and l: "length d < 2 ^ 32"
    using assms(1) unfolding user_bytes_iff holds_block_def by blast
  note chk = check_block [of h p True ALLOC_MAGIC_C1 d t, OF t l]
  note gs = guards_of_block [of h p True ALLOC_MAGIC_C1 d t, OF t l]
  let ?z = "if l_debug w then replicate (length d) 0xff else d"
  have "h(p \<mapsto> \<lparr>live = True, raw = block ALLOC_MAGIC_C1 d t\<rparr>) = h" using t by (simp add: fun_upd_idem)
  then have z: "(if l_debug w then do { n \<leftarrow> ALLOC_S h p; set_user p 0 (replicate (unat n) 0xff) h } else Some h) =
      Some (h(p \<mapsto> \<lparr>live = True, raw = block ALLOC_MAGIC_C1 ?z t\<rparr>))"
    using wr_block [of h p ALLOC_MAGIC_C1 d t 0 "replicate (length d) 0xff"] t gs(2) block_parts(3) [OF l] by simp
  let ?h1 = "h(p \<mapsto> \<lparr>live = True, raw = block ALLOC_MAGIC_C1 ?z t\<rparr>)"
  have m: "wr_mem p 0 (le_bytes 4 ALLOC_MAGIC_F) ?h1 = Some (?h1(p \<mapsto> \<lparr>live = True, raw = block ALLOC_MAGIC_F ?z t\<rparr>))"
    by (rule wr_magic) simp
  have "ck_free w (Some p) h = Some (Inr (h(p \<mapsto> \<lparr>live = False, raw = l_scrub w (block ALLOC_MAGIC_F ?z t)\<rparr>)))"
    by (simp add: ck_free_def chk z m lc_free_def)
  then have "h' p = Some \<lparr>live = False, raw = l_scrub w (block ALLOC_MAGIC_F ?z t)\<rparr>" using assms(2) by simp
  moreover have "length ?z = length d" by simp
  ultimately show ?thesis by blast
qed

lemma check_dead_head:
  assumes "h p = Some c" and "4 \<le> length (raw c)" and "take 4 (raw c) \<noteq> le_bytes 4 ALLOC_MAGIC_C1"
  shows "\<exists>msg. CHECK_PTR h p = Some (Inl (ABORT msg))"
proof -
  have "rd_mem h p 0 4 = Some (take 4 (raw c))" using assms by (simp add: rd_mem_def slice_def)
  moreover have "(le_word (take 4 (raw c)) :: u32) \<noteq> ALLOC_MAGIC_C1"
    using assms(2,3) le_bytes_le_word [of "take 4 (raw c)", where ?'a = 32] by (auto simp: min_absorb2)
  ultimately show ?thesis by (simp add: CHECK_PTR_def ALLOC_C1_def xor_zero_iff)
qed

lemma memdup_str_check:
  assumes "n \<noteq> 0" and "n \<le> MAX_ALLOC" and "l_malloc w h (unat n + 10) = Some p" and "unat n \<le> length m"
  obtains h' where "ck_memdup_str w (Some m) n h = Some (Inr (Some p, h'))"
    and "rd_mem h' p ALLOC_OFF_HEAD (unat n + 1) = Some (take (unat n) m @ [0])"
    and "CHECK_PTR h' p = Some (Inl (ABORT ''Corrupted tail alloc canary.''))"
proof -
  have mal: "l_malloc w h (unat n + 9 + unat (1 :: u32)) = Some p" using assms(3) by (simp add: add.commute)
  obtain d t where d: "length d = unat n"
    "guarded_malloc w n 1 h = Some (Inr (p, h(p \<mapsto> \<lparr>live = True, raw = block ALLOC_MAGIC_C1 d t\<rparr>)))"
    by (rule guarded_malloc_block [of n 1 w h p, OF assms(2) _ mal]) simp_all
  let ?m = "take (unat n) m"
  let ?h = "h(p \<mapsto> \<lparr>live = True, raw = block ALLOC_MAGIC_C1 ?m t\<rparr>)"
  have lm: "length ?m = unat n" using assms(4) by simp
  then have small: "length ?m < 2 ^ 32" using small_size [OF assms(2)] by simp
  have "set_user p 0 ?m (h(p \<mapsto> \<lparr>live = True, raw = block ALLOC_MAGIC_C1 d t\<rparr>)) = Some ?h"
    using wr_block [of "h(p \<mapsto> \<lparr>live = True, raw = block ALLOC_MAGIC_C1 d t\<rparr>)" p ALLOC_MAGIC_C1 d t 0 ?m] d(1) lm by simp
  then have copy: "copy_in w n 1 m h = Some (Inr (p, ?h))"
    using d(2) assms(4) by (simp add: copy_in_def slice_def)
  have blk: "?h p = Some \<lparr>live = True, raw = block ALLOC_MAGIC_C1 ?m t\<rparr>" by simp
  obtain h' where h': "wr_mem p (ALLOC_OFF_HEAD + length ?m) [0] ?h = Some h'"
    "CHECK_PTR h' p = Some (Inl (ABORT ''Corrupted tail alloc canary.''))"
    by (rule overrun_block [of ?h p ?m t 0, OF blk small]) (simp add: ALLOC_MAGIC_C2_def)
  have "h' = ?h(p \<mapsto> \<lparr>live = True, raw = le_bytes 4 ALLOC_MAGIC_C1 @ le_bytes 4 (of_nat (length ?m) :: u32) @ ?m @ 0 # t\<rparr>)"
    using h'(1) assms(4) by (simp add: wr_mem_def put_def block_def ALLOC_OFF_HEAD_def min_absorb2)
  then have "rd_mem h' p ALLOC_OFF_HEAD (unat n + 1) = Some (?m @ [0])"
    using lm by (simp add: rd_mem_def slice_def ALLOC_OFF_HEAD_def)
  moreover have "ck_memdup_str w (Some m) n h = Some (Inr (Some p, h'))"
    using assms(1) copy h'(1) lm by (simp add: ck_memdup_str_def set_user_def)
  ultimately show thesis using that h'(2) by blast
qed

lemma realloc_block_view:
  assumes "libc_ok w" and "user_bytes h p = Some d" and "length d \<le> unat MAX_ALLOC" and "sz \<noteq> 0"
    and "unat sz + 256 \<le> unat MAX_ALLOC"
  shows "ck_realloc_block w (Some p) sz h = Some (Inl (ABORT ''Out of memory'')) \<or>
    (\<exists>q h1 d1. ck_realloc_block w (Some p) sz h = Some (Inr (Some q, h1)) \<and> (q = p \<or> \<not> is_live h q) \<and>
       user_bytes h1 = ((user_bytes h)(p := None))(q \<mapsto> d1) \<and> unat sz \<le> length d1 \<and>
       take (unat sz) d1 = take (unat sz) (d @ replicate (unat sz - length d) 0))"
    (is "?oom \<or> ?done")
proof -
  obtain t where t: "h p = Some \<lparr>live = True, raw = block ALLOC_MAGIC_C1 d t\<rparr>" and l: "length d < 2 ^ 32"
    using assms(2) unfolding user_bytes_iff holds_block_def by blast
  note chk = check_block [of h p True ALLOC_MAGIC_C1 d t, OF t l]
  note gs = guards_of_block [of h p True ALLOC_MAGIC_C1 d t, OF t l]
  have max: "unat MAX_ALLOC = 2 ^ 30" by (simp add: MAX_ALLOC_def)
  have big: "unat (sz + ALLOC_BLK_INC) = unat sz + 256"
    using assms(5) max by (subst unat_add_lem [THEN iffD1]) (simp_all add: ALLOC_BLK_INC_def)
  have grow: "ck_realloc w (Some p) n h = Some (Inl (ABORT ''Out of memory'')) \<or>
      (\<exists>q h1 d1. ck_realloc w (Some p) n h = Some (Inr (Some q, h1)) \<and> (q = p \<or> \<not> is_live h q) \<and>
        user_bytes h1 = ((user_bytes h)(p := None))(q \<mapsto> d1) \<and> unat sz \<le> length d1 \<and>
        take (unat sz) d1 = take (unat sz) (d @ replicate (unat sz - length d) 0))"
    if n: "unat sz \<le> unat n" "unat n \<le> unat MAX_ALLOC" for n
  proof -
    have "n \<noteq> 0" "n \<le> MAX_ALLOC" using n assms(4) by (auto simp: word_le_nat_alt unat_eq_zero)
    then consider "ck_realloc w (Some p) n h = Some (Inl (ABORT ''Out of memory''))"
      | q h1 where "ck_realloc w (Some p) n h = Some (Inr (Some q, h1))" "q = p \<or> \<not> is_live h q"
        "user_bytes h1 = ((user_bytes h)(p := None))(q \<mapsto> take (unat n) d @ replicate (unat n - length d) 0)"
      using ck_realloc_view [OF assms(1-3)] by blast
    then show ?thesis
    proof cases
      case (2 q h1)
      have "unat sz \<le> length (take (unat n) d @ replicate (unat n - length d) 0)" using n(1) by auto
      moreover have "take (unat sz) (take (unat n) d @ replicate (unat n - length d) 0) =
          take (unat sz) (d @ replicate (unat sz - length d) 0)"
        using n(1) by (auto simp: min_def)
      ultimately show ?thesis using 2 by blast
    qed simp
  qed
  show ?thesis
  proof (cases "l_debug w")
    case True
    then show ?thesis using grow [of sz] assms(5) by (simp add: ck_realloc_block_def)
  next
    case False
    show ?thesis
    proof (cases "of_nat (length d) \<ge> sz")
      case enough: True
      then have len: "unat sz \<le> length d" using block_parts(3) [OF l] by (simp add: word_le_nat_alt)
      have "ck_realloc_block w (Some p) sz h = Some (Inr (Some p, h))"
        using False enough chk gs(2) by (simp add: ck_realloc_block_def)
      moreover have "user_bytes h = ((user_bytes h)(p := None))(p \<mapsto> d)" using assms(2) by (simp add: fun_upd_idem)
      moreover have "take (unat sz) d = take (unat sz) (d @ replicate (unat sz - length d) 0)" using len by simp
      ultimately have ?done using len by blast
      then show ?thesis ..
    next
      case less: False
      have "ck_realloc_block w (Some p) sz h = ck_realloc w (Some p) (sz + ALLOC_BLK_INC) h"
        using False less chk gs(2) by (simp add: ck_realloc_block_def)
      then show ?thesis using grow [of "sz + ALLOC_BLK_INC"] big assms(5) by simp
    qed
  qed
qed

section \<open>The properties\<close>

text \<open>
  C21: \<^verbatim>\<open>ck_alloc\<close> yields a zeroed block of the asked size at the place the library chose, \<^verbatim>\<open>ck_free\<close>
  accepts it, and what every other pointer of the program sees is never touched: on the user's view
  of memory an allocation is a map update and a release takes the pointer out again.
\<close>

theorem alloc_then_free:
  assumes "n \<noteq> 0" and "n \<le> MAX_ALLOC" and "l_malloc w h (unat n + 9) = Some p" and "\<not> is_live h p"
  shows "\<exists>h1 h2. ck_alloc w n h = Some (Inr (Some p, h1)) \<and>
     user_bytes h1 = (user_bytes h)(p \<mapsto> replicate (unat n) 0) \<and>
     ck_free w (Some p) h1 = Some (Inr h2) \<and> user_bytes h2 = user_bytes h \<and> \<not> is_live h2 p"
proof -
  obtain h1 where h1: "ck_alloc w n h = Some (Inr (Some p, h1))" "user_bytes h1 = (user_bytes h)(p \<mapsto> replicate (unat n) 0)"
    using ck_alloc_view [OF assms(1,2,3)] by blast
  then obtain h2 where "ck_free w (Some p) h1 = Some (Inr h2)" "user_bytes h2 = (user_bytes h1)(p := None)" "\<not> is_live h2 p"
    using ck_free_view [of h1 p "replicate (unat n) 0" w] by auto
  moreover have "(user_bytes h1)(p := None) = user_bytes h"
    using h1(2) user_bytes_dead [OF assms(4)] by (simp add: fun_upd_idem)
  ultimately show ?thesis using h1 by metis
qed

text \<open>
  C22: resizing a sound block either reports that the library has no memory, or moves the pointer: in
  both kinds of build the common part is kept, the new part is zero, the old pointer is gone, and no
  other pointer is affected.
\<close>

theorem ck_realloc_refines:
  assumes "libc_ok w" and "user_bytes h p = Some d" and "length d \<le> unat MAX_ALLOC" and "n \<noteq> 0" and "n \<le> MAX_ALLOC"
  shows "(ck_realloc w (Some p) n h = Some (Inl (ABORT ''Out of memory'')) \<and>
      (\<exists>h1. l_malloc w h1 (unat n + 9) = None \<or> l_realloc w h1 p (unat n + 9) = None)) \<or>
    (\<exists>q h'. ck_realloc w (Some p) n h = Some (Inr (Some q, h')) \<and> (q = p \<or> \<not> is_live h q) \<and>
       user_bytes h' = ((user_bytes h)(p := None))(q \<mapsto> take (unat n) d @ replicate (unat n - length d) 0))"
  using assms by (rule ck_realloc_view)

text \<open>
  C23: the byte after the user's bytes is watched: whatever else than the tail guard is written there,
  releasing or resizing the block aborts the program with a report of the overrun.
\<close>

theorem overrun_aborts:
  assumes "user_bytes h p = Some d" and "b \<noteq> ALLOC_MAGIC_C2"
  shows "\<exists>h1. wr_mem p (ALLOC_OFF_HEAD + length d) [b] h = Some h1 \<and>
     ck_free w (Some p) h1 = Some (Inl (ABORT ''Corrupted tail alloc canary.'')) \<and>
     ck_realloc w (Some p) n h1 = Some (Inl (ABORT ''Corrupted tail alloc canary.''))"
proof -
  obtain t where t: "h p = Some \<lparr>live = True, raw = block ALLOC_MAGIC_C1 d t\<rparr>" and l: "length d < 2 ^ 32"
    using assms(1) unfolding user_bytes_iff holds_block_def by blast
  obtain h1 where "wr_mem p (ALLOC_OFF_HEAD + length d) [b] h = Some h1"
    and "CHECK_PTR h1 p = Some (Inl (ABORT ''Corrupted tail alloc canary.''))"
    by (rule overrun_block [of h p d t b, OF t l assms(2)])
  then show ?thesis using check_first by blast
qed

text \<open>
  A second release of a pointer aborts, and so does resizing it, as long as what the C library leaves
  in the first four bytes of a freed block is not by chance the guard of a live one.
\<close>

theorem double_free_aborts:
  assumes "user_bytes h p = Some d" and "ck_free w (Some p) h = Some (Inr h1)"
    and "\<And>r. take 4 r = le_bytes 4 ALLOC_MAGIC_F \<Longrightarrow>
      4 \<le> length (l_scrub w r) \<and> take 4 (l_scrub w r) \<noteq> le_bytes 4 ALLOC_MAGIC_C1"
  shows "\<exists>msg. ck_free w (Some p) h1 = Some (Inl (ABORT msg)) \<and> ck_realloc w (Some p) n h1 = Some (Inl (ABORT msg))"
proof -
  obtain d1 t where h1: "h1 p = Some \<lparr>live = False, raw = l_scrub w (block ALLOC_MAGIC_F d1 t)\<rparr>"
    using freed_block [OF assms(1,2)] by blast
  have "take 4 (block ALLOC_MAGIC_F d1 t) = le_bytes 4 ALLOC_MAGIC_F" by (simp add: block_def)
  then obtain msg where "CHECK_PTR h1 p = Some (Inl (ABORT msg))"
    using check_dead_head [of h1 p, OF h1] assms(3) by auto
  then show ?thesis using check_first by blast
qed

text \<open>
  \<^verbatim>\<open>ck_memdup_str\<close> copies the text and ends it with a zero byte, but the zero lies on the block's own
  tail guard, so every later release or resize of the copy aborts the program.
\<close>

theorem memdup_str_breaks_guard:
  assumes "n \<noteq> 0" and "n \<le> MAX_ALLOC" and "l_malloc w h (unat n + 10) = Some p" and "unat n \<le> length m"
  shows "\<exists>h1. ck_memdup_str w (Some m) n h = Some (Inr (Some p, h1)) \<and>
     rd_mem h1 p ALLOC_OFF_HEAD (unat n + 1) = Some (take (unat n) m @ [0]) \<and>
     ck_free w (Some p) h1 = Some (Inl (ABORT ''Corrupted tail alloc canary.''))"
  by (rule memdup_str_check [OF assms]) (use check_first in blast)

text \<open>
  \<^verbatim>\<open>ck_realloc_block\<close> gives a block of at least the asked size that starts with the old bytes, unless
  the library has no memory; a block that is large enough already stays where it is, untouched.
\<close>

theorem realloc_block_grows:
  assumes "libc_ok w" and "user_bytes h p = Some d" and "length d \<le> unat MAX_ALLOC" and "sz \<noteq> 0"
    and "unat sz + 256 \<le> unat MAX_ALLOC"
  shows "ck_realloc_block w (Some p) sz h = Some (Inl (ABORT ''Out of memory'')) \<or>
    (\<exists>q h1 d1. ck_realloc_block w (Some p) sz h = Some (Inr (Some q, h1)) \<and> (q = p \<or> \<not> is_live h q) \<and>
       user_bytes h1 = ((user_bytes h)(p := None))(q \<mapsto> d1) \<and> unat sz \<le> length d1 \<and>
       take (unat sz) d1 = take (unat sz) (d @ replicate (unat sz - length d) 0))"
  by (rule realloc_block_view [OF assms])

text \<open>A library for the examples: memory is handed out from the bottom, and resizing is done in place.\<close>

definition demo_libc :: libc where
  "demo_libc = \<lparr>l_malloc = (\<lambda>h n. if is_live h 16 then None else Some 16), l_realloc = (\<lambda>h p n. Some p),
     l_junk = (\<lambda>_. 0xaa), l_scrub = (\<lambda>r. replicate 8 0 @ drop 8 r), l_debug = False\<rparr>"

lemma demo_libc_ok: "libc_ok demo_libc"
  by (simp add: libc_ok_def demo_libc_def)

abbreviation demo_heap :: "mem_heap" where
  "demo_heap \<equiv> Map.empty(16 \<mapsto> \<lparr>live = True, raw = block ALLOC_MAGIC_C1 [1, 2] []\<rparr>)"

lemma demo_heap_view: "user_bytes demo_heap 16 = Some [1, 2]"
  by (auto simp: user_bytes_iff holds_block_def)

lemma small_blocks: "length [1, 2 :: u8] \<le> unat MAX_ALLOC" "(3 :: u32) \<noteq> 0" "(3 :: u32) \<le> MAX_ALLOC"
  "unat (3 :: u32) + 256 \<le> unat MAX_ALLOC"
  by (simp_all add: MAX_ALLOC_def)

theorem alloc_then_free_witness:
  "\<exists>h1. ck_alloc demo_libc 3 Map.empty = Some (Inr (Some 16, h1)) \<and> user_bytes h1 16 = Some [0, 0, 0]"
proof -
  have l: "l_malloc demo_libc Map.empty (unat (3 :: u32) + 9) = Some 16" "\<not> is_live Map.empty 16"
    by (simp_all add: demo_libc_def is_live_def)
  have n: "(3 :: u32) \<noteq> 0" "(3 :: u32) \<le> MAX_ALLOC" by (simp_all add: MAX_ALLOC_def)
  obtain h1 where "ck_alloc demo_libc 3 Map.empty = Some (Inr (Some 16, h1))"
    "user_bytes h1 = (user_bytes Map.empty)(16 \<mapsto> replicate (unat (3 :: u32)) 0)"
    using alloc_then_free [OF n l] by blast
  moreover have "replicate (unat (3 :: u32)) 0 = [0, 0, 0 :: u8]" by code_simp
  ultimately show ?thesis by (intro exI [of _ h1]) (simp only: fun_upd_same simp_thms)
qed

theorem ck_realloc_refines_witness:
  "\<exists>q h1. ck_realloc demo_libc (Some 16) 3 demo_heap = Some (Inr (Some q, h1)) \<and> user_bytes h1 q = Some [1, 2, 0]"
proof -
  have "case ck_realloc demo_libc (Some 16) 3 demo_heap of Some (Inl _) \<Rightarrow> False | _ \<Rightarrow> True" by code_simp
  then have "ck_realloc demo_libc (Some 16) 3 demo_heap \<noteq> Some (Inl (ABORT ''Out of memory''))" by auto
  then obtain q h1 where "ck_realloc demo_libc (Some 16) 3 demo_heap = Some (Inr (Some q, h1))"
    "user_bytes h1 = ((user_bytes demo_heap)(16 := None))(q \<mapsto> take (unat (3 :: u32)) [1, 2] @ replicate (unat (3 :: u32) - length [1, 2 :: u8]) 0)"
    using ck_realloc_refines [OF demo_libc_ok demo_heap_view small_blocks(1-3)] by blast
  moreover have "take (unat (3 :: u32)) [1, 2] @ replicate (unat (3 :: u32) - length [1, 2 :: u8]) 0 = [1, 2, 0 :: u8]"
    by code_simp
  ultimately show ?thesis by (intro exI [of _ q] exI [of _ h1]) (simp only: fun_upd_same simp_thms)
qed

theorem overrun_aborts_witness:
  "\<exists>h1. wr_mem 16 10 [0] demo_heap = Some h1 \<and>
     ck_free demo_libc (Some 16) h1 = Some (Inl (ABORT ''Corrupted tail alloc canary.''))"
  using overrun_aborts [OF demo_heap_view, of 0 demo_libc] by (auto simp: ALLOC_MAGIC_C2_def ALLOC_OFF_HEAD_def)

theorem double_free_aborts_witness:
  "\<exists>h1 msg. ck_free demo_libc (Some 16) demo_heap = Some (Inr h1) \<and>
     ck_free demo_libc (Some 16) h1 = Some (Inl (ABORT msg))"
proof -
  obtain h1 where h1: "ck_free demo_libc (Some 16) demo_heap = Some (Inr h1)"
    using ck_free_view [OF demo_heap_view] by blast
  have "le_bytes 4 ALLOC_MAGIC_C1 \<noteq> replicate 4 (0 :: u8)" by code_simp
  then show ?thesis
    using h1 double_free_aborts [OF demo_heap_view h1, of 3] by (fastforce simp: demo_libc_def min_def)
qed

theorem memdup_str_breaks_guard_witness:
  "\<exists>h1. ck_memdup_str demo_libc (Some [104, 105, 33]) 3 Map.empty = Some (Inr (Some 16, h1)) \<and>
     ck_free demo_libc (Some 16) h1 = Some (Inl (ABORT ''Corrupted tail alloc canary.''))"
proof -
  have l: "l_malloc demo_libc Map.empty (unat (3 :: u32) + 10) = Some 16" by (simp add: demo_libc_def is_live_def)
  have m: "unat (3 :: u32) \<le> length [104, 105, 33 :: u8]" by simp
  show ?thesis using memdup_str_breaks_guard [OF small_blocks(2,3) l m] by blast
qed

theorem realloc_block_grows_witness:
  "\<exists>q h1 d1. ck_realloc_block demo_libc (Some 16) 3 demo_heap = Some (Inr (Some q, h1)) \<and>
     user_bytes h1 q = Some d1 \<and> take 3 d1 = [1, 2, 0]"
proof -
  have "case ck_realloc_block demo_libc (Some 16) 3 demo_heap of Some (Inl _) \<Rightarrow> False | _ \<Rightarrow> True" by code_simp
  then have "ck_realloc_block demo_libc (Some 16) 3 demo_heap \<noteq> Some (Inl (ABORT ''Out of memory''))" by auto
  then obtain q h1 d1 where 1: "ck_realloc_block demo_libc (Some 16) 3 demo_heap = Some (Inr (Some q, h1))"
    "user_bytes h1 = ((user_bytes demo_heap)(16 := None))(q \<mapsto> d1)"
    "take (unat (3 :: u32)) d1 = take (unat (3 :: u32)) ([1, 2] @ replicate (unat (3 :: u32) - length [1, 2 :: u8]) 0)"
    using realloc_block_grows [OF demo_libc_ok demo_heap_view small_blocks(1,2,4)] by blast
  have "take (unat (3 :: u32)) ([1, 2] @ replicate (unat (3 :: u32) - length [1, 2 :: u8]) 0) = [1, 2, 0 :: u8]"
    by code_simp
  moreover have "unat (3 :: u32) = 3" by simp
  ultimately have "take 3 d1 = [1, 2, 0]" using 1(3) by metis
  then show ?thesis using 1 by (intro exI [of _ q] exI [of _ h1] exI [of _ d1]) simp
qed

end
