(* ===== verification/Afl_Track.thy ===== *)
theory Afl_Track
  imports Afl_Alloc
begin

text \<open>
  The table of live allocations that debugging builds keep (\<^verbatim>\<open>alloc-inl.h\<close>, from \<^verbatim>\<open>struct TRK_obj\<close> on):
  4096 buckets of slots, filled by the allocating wrappers and emptied by the releasing ones, and the
  report of what was never released.
\<close>

section \<open>The table\<close>

text \<open>A null pointer marks an empty slot; pointers are 64 bits wide, as on the hosts the fuzzer runs on.\<close>

record trk_obj =
  ptr :: u64
  src_file :: string
  func :: string
  line :: u32

definition ALLOC_BUCKETS :: nat where "ALLOC_BUCKETS = 4096"

text \<open>
  \<open>TRK_cnt\<close> of a bucket is the length of its list of slots; \<open>trk_mem\<close> is where the slots are stored.
  \<open>heap\<close> is the memory of the program, and \<open>warnings\<close> what \<^verbatim>\<open>WARNF\<close> printed.
\<close>

datatype warning = FREE_UNKNOWN string string u32 | NEVER_FREED string string u32

record tracked =
  trk :: "nat \<Rightarrow> trk_obj list"
  trk_mem :: "nat \<Rightarrow> nat option"
  heap :: mem_heap
  warnings :: "warning list"

definition TRKH :: "u64 \<Rightarrow> nat" where
  "TRKH p = unat ((drop_bit 16 (ucast p :: u32) XOR ucast p) mod of_nat ALLOC_BUCKETS)"

text \<open>The loops over a bucket: the first slot with the given pointer.\<close>

primrec find_slot :: "u64 \<Rightarrow> trk_obj list \<Rightarrow> nat option" where
  "find_slot p [] = None"
| "find_slot p (x # xs) = (if ptr x = p then Some 0 else map_option Suc (find_slot p xs))"

definition sizeof_TRK_obj :: u32 where "sizeof_TRK_obj = 32"

definition TRK_alloc_buf :: "'w libc_scheme \<Rightarrow> u64 \<Rightarrow> string \<Rightarrow> string \<Rightarrow> u32 \<Rightarrow> tracked \<Rightarrow> tracked outcome" where
  "TRK_alloc_buf w p f g l s =
     (if p = 0 then Some (Inr s)
      else
        let bucket = TRKH p; slots = trk s bucket; obj = \<lparr>ptr = p, src_file = f, func = g, line = l\<rparr> in
        case find_slot 0 slots of
          Some i \<Rightarrow> Some (Inr (s\<lparr>trk := (trk s)(bucket := slots[i := obj])\<rparr>))
        | None \<Rightarrow>
            andthen (ck_realloc_block w (trk_mem s bucket) ((of_nat (length slots) + 1) * sizeof_TRK_obj) (heap s))
              (\<lambda>(m, h). Some (Inr (s\<lparr>trk := (trk s)(bucket := slots @ [obj]),
                 trk_mem := (trk_mem s)(bucket := m), heap := h\<rparr>))))"

definition TRK_free_buf :: "u64 \<Rightarrow> string \<Rightarrow> string \<Rightarrow> u32 \<Rightarrow> tracked \<Rightarrow> tracked" where
  "TRK_free_buf p f g l s =
     (if p = 0 then s
      else
        let bucket = TRKH p; slots = trk s bucket in
        case find_slot p slots of
          Some i \<Rightarrow> s\<lparr>trk := (trk s)(bucket := slots[i := (slots ! i)\<lparr>ptr := 0\<rparr>])\<rparr>
        | None \<Rightarrow> s\<lparr>warnings := warnings s @ [FREE_UNKNOWN g f l]\<rparr>)"

definition TRK_report :: "tracked \<Rightarrow> tracked" where
  "TRK_report s = s\<lparr>warnings := warnings s @
     concat (map (\<lambda>bucket. map (\<lambda>x. NEVER_FREED (func x) (src_file x) (line x)) (filter (\<lambda>x. ptr x \<noteq> 0) (trk s bucket)))
       [0..<ALLOC_BUCKETS])\<rparr>"

section \<open>The wrappers\<close>

text \<open>The pointer a program sees for a block: its address plus the head, and \<open>0\<close> for none.\<close>

definition to_ptr :: "nat option \<Rightarrow> u64" where
  "to_ptr r = (case r of None \<Rightarrow> 0 | Some b \<Rightarrow> of_nat (b + ALLOC_OFF_HEAD))"

text \<open>An allocating function's result is entered in the table.\<close>

definition then_track ::
  "'w libc_scheme \<Rightarrow> string \<Rightarrow> string \<Rightarrow> u32 \<Rightarrow> (nat option \<times> mem_heap) outcome \<Rightarrow> tracked \<Rightarrow> (nat option \<times> tracked) outcome" where
  "then_track w f g l r s =
     andthen r (\<lambda>(m, h). andthen (TRK_alloc_buf w (to_ptr m) f g l (s\<lparr>heap := h\<rparr>)) (\<lambda>s1. Some (Inr (m, s1))))"

definition TRK_ck_alloc :: "'w libc_scheme \<Rightarrow> u32 \<Rightarrow> string \<Rightarrow> string \<Rightarrow> u32 \<Rightarrow> tracked \<Rightarrow> (nat option \<times> tracked) outcome" where
  "TRK_ck_alloc w sz f g l s = then_track w f g l (ck_alloc w sz (heap s)) s"

definition TRK_ck_strdup :: "'w libc_scheme \<Rightarrow> u8 list option \<Rightarrow> string \<Rightarrow> string \<Rightarrow> u32 \<Rightarrow> tracked \<Rightarrow> (nat option \<times> tracked) outcome" where
  "TRK_ck_strdup w str f g l s = then_track w f g l (ck_strdup w str (heap s)) s"

definition TRK_ck_memdup :: "'w libc_scheme \<Rightarrow> u8 list option \<Rightarrow> u32 \<Rightarrow> string \<Rightarrow> string \<Rightarrow> u32 \<Rightarrow> tracked \<Rightarrow> (nat option \<times> tracked) outcome" where
  "TRK_ck_memdup w mem sz f g l s = then_track w f g l (ck_memdup w mem sz (heap s)) s"

definition TRK_ck_memdup_str :: "'w libc_scheme \<Rightarrow> u8 list option \<Rightarrow> u32 \<Rightarrow> string \<Rightarrow> string \<Rightarrow> u32 \<Rightarrow> tracked \<Rightarrow> (nat option \<times> tracked) outcome" where
  "TRK_ck_memdup_str w mem sz f g l s = then_track w f g l (ck_memdup_str w mem sz (heap s)) s"

text \<open>The resizing wrappers take the old pointer out before they enter the new one.\<close>

definition TRK_ck_realloc :: "'w libc_scheme \<Rightarrow> nat option \<Rightarrow> u32 \<Rightarrow> string \<Rightarrow> string \<Rightarrow> u32 \<Rightarrow> tracked \<Rightarrow> (nat option \<times> tracked) outcome" where
  "TRK_ck_realloc w orig sz f g l s =
     then_track w f g l (ck_realloc w orig sz (heap s)) (TRK_free_buf (to_ptr orig) f g l s)"

definition TRK_ck_realloc_block :: "'w libc_scheme \<Rightarrow> nat option \<Rightarrow> u32 \<Rightarrow> string \<Rightarrow> string \<Rightarrow> u32 \<Rightarrow> tracked \<Rightarrow> (nat option \<times> tracked) outcome" where
  "TRK_ck_realloc_block w orig sz f g l s =
     then_track w f g l (ck_realloc_block w orig sz (heap s)) (TRK_free_buf (to_ptr orig) f g l s)"

definition TRK_ck_free :: "'w libc_scheme \<Rightarrow> nat option \<Rightarrow> string \<Rightarrow> string \<Rightarrow> u32 \<Rightarrow> tracked \<Rightarrow> tracked outcome" where
  "TRK_ck_free w m f g l s =
     (let s1 = TRK_free_buf (to_ptr m) f g l s in
      andthen (ck_free w m (heap s1)) (\<lambda>h. Some (Inr (s1\<lparr>heap := h\<rparr>))))"

section \<open>What the table stands for\<close>

text \<open>A map from the pointers in use to what is known about them.\<close>

definition tracked_obj :: "tracked \<Rightarrow> u64 \<rightharpoonup> trk_obj" where
  "tracked_obj s p = (if p = 0 then None else map_option (nth (trk s (TRKH p))) (find_slot p (trk s (TRKH p))))"

text \<open>The invariant: each object is in the bucket of its pointer, and no pointer is there twice.\<close>

definition used :: "trk_obj list \<Rightarrow> trk_obj list" where
  "used slots = filter (\<lambda>x. ptr x \<noteq> 0) slots"

definition trk_ok :: "tracked \<Rightarrow> bool" where
  "trk_ok s \<longleftrightarrow> (\<forall>b<ALLOC_BUCKETS. distinct (map ptr (used (trk s b))) \<and> (\<forall>x \<in> set (used (trk s b)). TRKH (ptr x) = b))"

lemma TRKH_less: "TRKH p < ALLOC_BUCKETS"
proof -
  have "unat ((x :: u32) mod of_nat ALLOC_BUCKETS) < ALLOC_BUCKETS" for x
    by (simp add: ALLOC_BUCKETS_def unat_mod)
  then show ?thesis by (simp add: TRKH_def)
qed

lemma find_slot_Some: "find_slot p xs = Some i \<Longrightarrow> i < length xs \<and> ptr (xs ! i) = p"
  by (induction xs arbitrary: i) (auto split: if_splits)

lemma find_slot_None: "find_slot p xs = None \<longleftrightarrow> (\<forall>x \<in> set xs. ptr x \<noteq> p)"
  by (induction xs) auto

text \<open>In a bucket with different pointers, the search finds the object.\<close>

definition look :: "trk_obj list \<Rightarrow> u64 \<rightharpoonup> trk_obj" where
  "look slots p = map_option (nth slots) (find_slot p slots)"

lemma tracked_obj_look: "tracked_obj s p = (if p = 0 then None else look (trk s (TRKH p)) p)"
  by (simp add: tracked_obj_def look_def)

lemma look_Cons: "look (x # xs) p = (if ptr x = p then Some x else look xs p)"
  by (cases "find_slot p xs") (auto simp: look_def)

lemma look_Nil: "look [] p = None"
  by (simp add: look_def)

lemma look_iff:
  assumes "distinct (map ptr (used xs))" and "p \<noteq> 0"
  shows "look xs p = Some x \<longleftrightarrow> x \<in> set xs \<and> ptr x = p"
  using assms by (induction xs) (force simp: look_Cons look_Nil used_def split: if_splits)+

lemma look_None: "look xs p = None \<longleftrightarrow> (\<forall>x \<in> set xs. ptr x \<noteq> p)"
  by (simp add: look_def find_slot_None)

text \<open>Filling a slot, appending one, clearing one.\<close>

lemma used_split:
  assumes "i < length xs"
  shows "used xs = used (take i xs) @ used [xs ! i] @ used (drop (Suc i) xs)"
    and "used (xs[i := x]) = used (take i xs) @ used [x] @ used (drop (Suc i) xs)"
proof -
  have "used (as @ bs) = used as @ used bs" for as bs by (simp add: used_def)
  note app = this [symmetric]
  show "used xs = used (take i xs) @ used [xs ! i] @ used (drop (Suc i) xs)"
    unfolding app using id_take_nth_drop [OF assms] by simp
  show "used (xs[i := x]) = used (take i xs) @ used [x] @ used (drop (Suc i) xs)"
    unfolding app using upd_conv_take_nth_drop [OF assms] by simp
qed

lemma used_update:
  assumes "i < length xs" and "ptr (xs ! i) = 0" and "ptr x \<noteq> 0"
  shows "set (used (xs[i := x])) = insert x (set (used xs))"
    and "distinct (map ptr (used (xs[i := x]))) \<longleftrightarrow> ptr x \<notin> ptr ` set (used xs) \<and> distinct (map ptr (used xs))"
proof -
  have one: "used [xs ! i] = []" "used [x] = [x]" using assms by (simp_all add: used_def)
  show "set (used (xs[i := x])) = insert x (set (used xs))"
    unfolding used_split [OF assms(1)] one by simp
  show "distinct (map ptr (used (xs[i := x]))) \<longleftrightarrow> ptr x \<notin> ptr ` set (used xs) \<and> distinct (map ptr (used xs))"
    unfolding used_split [OF assms(1)] one by auto
qed

lemma used_clear:
  assumes "i < length xs" and "ptr (xs ! i) \<noteq> 0" and "ptr x = 0" and "distinct (map ptr (used xs))"
  shows "set (used (xs[i := x])) = {y \<in> set (used xs). ptr y \<noteq> ptr (xs ! i)}" and "distinct (map ptr (used (xs[i := x])))"
proof -
  have one: "used [xs ! i] = [xs ! i]" "used [x] = []" using assms by (simp_all add: used_def)
  have d: "distinct (map ptr (used (take i xs) @ [xs ! i] @ used (drop (Suc i) xs)))"
    using assms(4) unfolding used_split(1) [OF assms(1)] one .
  show "set (used (xs[i := x])) = {y \<in> set (used xs). ptr y \<noteq> ptr (xs ! i)}"
    unfolding used_split [OF assms(1)] one using d by (auto simp: image_iff)
  show "distinct (map ptr (used (xs[i := x])))" unfolding used_split [OF assms(1)] one using d by simp
qed

lemma tracked_obj_iff:
  assumes "trk_ok s"
  shows "tracked_obj s p = Some x \<longleftrightarrow> p \<noteq> 0 \<and> x \<in> set (used (trk s (TRKH p))) \<and> ptr x = p"
  using assms TRKH_less [of p] look_iff [of "trk s (TRKH p)" p x]
  by (auto simp: tracked_obj_look trk_ok_def used_def)

text \<open>A changed bucket, and what follows for the map.\<close>

lemma tracked_obj_upd:
  assumes "trk_ok s" and "trk s' = (trk s)(TRKH p := xs)" and "p \<noteq> 0"
    and "distinct (map ptr (used xs))" and "\<forall>x \<in> set (used xs). TRKH (ptr x) = TRKH p"
    and "set (used xs) = {y \<in> set (used (trk s (TRKH p))). ptr y \<noteq> p} \<union> set_option r" and "\<forall>x \<in> set_option r. ptr x = p"
  shows "trk_ok s' \<and> tracked_obj s' = (tracked_obj s)(p := r)"
proof
  show ok: "trk_ok s'" using assms(1,2,4,5) by (simp add: trk_ok_def)
  show "tracked_obj s' = (tracked_obj s)(p := r)"
  proof
    fix q
    have "tracked_obj s' q = Some x \<longleftrightarrow> ((tracked_obj s)(p := r)) q = Some x" for x
    proof (cases "q = p")
      case True
      then show ?thesis using tracked_obj_iff [OF ok, of p x] assms(2,3,6,7) by (cases r) auto
    next
      case False
      then show ?thesis
        using tracked_obj_iff [OF ok, of q x] tracked_obj_iff [OF assms(1), of q x] assms(2,6,7) by auto
    qed
    then show "tracked_obj s' q = ((tracked_obj s)(p := r)) q" by (metis option.exhaust)
  qed
qed

lemma TRK_alloc_buf_view:
  assumes "trk_ok s" and "p \<noteq> 0" and "tracked_obj s p = None" and "TRK_alloc_buf w p f g l s = Some (Inr s')"
  shows "trk_ok s' \<and> tracked_obj s' = (tracked_obj s)(p \<mapsto> \<lparr>ptr = p, src_file = f, func = g, line = l\<rparr>) \<and>
    warnings s' = warnings s"
proof -
  let ?obj = "\<lparr>ptr = p, src_file = f, func = g, line = l\<rparr>"
  let ?slots = "trk s (TRKH p)"
  have fresh: "\<forall>x \<in> set ?slots. ptr x \<noteq> p" using assms(2,3) by (simp add: tracked_obj_look look_None)
  have d: "distinct (map ptr (used ?slots))" "\<forall>x \<in> set (used ?slots). TRKH (ptr x) = TRKH p"
    using assms(1) TRKH_less [of p] by (simp_all add: trk_ok_def)
  consider (fill) i where "find_slot 0 ?slots = Some i" "s' = s\<lparr>trk := (trk s)(TRKH p := ?slots[i := ?obj])\<rparr>"
    | (more) m h where "s' = s\<lparr>trk := (trk s)(TRKH p := ?slots @ [?obj]), trk_mem := (trk_mem s)(TRKH p := m), heap := h\<rparr>"
    using assms(2,4) by (auto simp: TRK_alloc_buf_def Let_def andthen_def split: option.splits sum.splits prod.splits)
  then show ?thesis
  proof cases
    case (fill i)
    have i: "i < length ?slots" "ptr (?slots ! i) = 0" using find_slot_Some [OF fill(1)] by auto
    have "trk_ok s' \<and> tracked_obj s' = (tracked_obj s)(p := Some ?obj)"
      by (rule tracked_obj_upd [OF assms(1), of s' p "?slots[i := ?obj]"])
        (use fill assms(2) d fresh used_update [OF i, of ?obj] in \<open>auto simp: used_def\<close>)
    then show ?thesis using fill(2) by simp
  next
    case (more m h)
    have "trk_ok s' \<and> tracked_obj s' = (tracked_obj s)(p := Some ?obj)"
      by (rule tracked_obj_upd [OF assms(1), of s' p "?slots @ [?obj]"])
        (use more assms(2) d fresh in \<open>auto simp: used_def\<close>)
    then show ?thesis using more by simp
  qed
qed

lemma TRK_free_buf_view:
  assumes "trk_ok s" and "p \<noteq> 0"
  shows "trk_ok (TRK_free_buf p f g l s) \<and> tracked_obj (TRK_free_buf p f g l s) = (tracked_obj s)(p := None) \<and>
    warnings (TRK_free_buf p f g l s) = warnings s @ (if tracked_obj s p = None then [FREE_UNKNOWN g f l] else [])"
proof (cases "find_slot p (trk s (TRKH p))")
  case None
  then have n: "tracked_obj s p = None" by (simp add: tracked_obj_def)
  have eq: "TRK_free_buf p f g l s = s\<lparr>warnings := warnings s @ [FREE_UNKNOWN g f l]\<rparr>"
    using None assms(2) by (simp add: TRK_free_buf_def)
  have "tracked_obj (s\<lparr>warnings := v\<rparr>) = tracked_obj s" "trk_ok (s\<lparr>warnings := v\<rparr>) = trk_ok s" for v
    by (simp_all add: tracked_obj_def fun_eq_iff trk_ok_def)
  then show ?thesis using n assms(1) unfolding eq by (simp add: fun_upd_idem)
next
  case (Some i)
  let ?slots = "trk s (TRKH p)"
  let ?obj = "(?slots ! i)\<lparr>ptr := 0\<rparr>"
  have i: "i < length ?slots" "ptr (?slots ! i) = p" using find_slot_Some [OF Some] by auto
  have eq: "TRK_free_buf p f g l s = s\<lparr>trk := (trk s)(TRKH p := ?slots[i := ?obj])\<rparr>"
    using Some assms(2) by (simp add: TRK_free_buf_def Let_def)
  have d: "distinct (map ptr (used ?slots))" "\<forall>x \<in> set (used ?slots). TRKH (ptr x) = TRKH p"
    using assms(1) TRKH_less [of p] by (simp_all add: trk_ok_def)
  have nz: "ptr (?slots ! i) \<noteq> 0" using i(2) assms(2) by simp
  have c: "set (used (?slots[i := ?obj])) = {y \<in> set (used ?slots). ptr y \<noteq> p}" "distinct (map ptr (used (?slots[i := ?obj])))"
    using used_clear [OF i(1) nz _ d(1), of ?obj] i(2) by simp_all
  have "trk_ok (TRK_free_buf p f g l s) \<and> tracked_obj (TRK_free_buf p f g l s) = (tracked_obj s)(p := None)"
    by (rule tracked_obj_upd [OF assms(1), of _ p "?slots[i := ?obj]"]) (use eq assms(2) d c in auto)
  moreover have "tracked_obj s p \<noteq> None" using Some assms(2) by (simp add: tracked_obj_def)
  ultimately show ?thesis using eq by simp
qed

lemma TRK_report_view:
  assumes "trk_ok s"
  obtains ws where "warnings (TRK_report s) = warnings s @ ws"
    and "set ws = (\<lambda>x. NEVER_FREED (func x) (src_file x) (line x)) ` ran (tracked_obj s)"
proof
  let ?ws = "concat (map (\<lambda>bucket. map (\<lambda>x. NEVER_FREED (func x) (src_file x) (line x)) (filter (\<lambda>x. ptr x \<noteq> 0) (trk s bucket)))
       [0..<ALLOC_BUCKETS])"
  show "warnings (TRK_report s) = warnings s @ ?ws" by (simp add: TRK_report_def)
  have "x \<in> ran (tracked_obj s) \<longleftrightarrow> (\<exists>b<ALLOC_BUCKETS. x \<in> set (used (trk s b)))" for x
  proof
    assume "x \<in> ran (tracked_obj s)"
    then show "\<exists>b<ALLOC_BUCKETS. x \<in> set (used (trk s b))"
      using tracked_obj_iff [OF assms] TRKH_less unfolding ran_def by blast
  next
    assume "\<exists>b<ALLOC_BUCKETS. x \<in> set (used (trk s b))"
    then obtain b where b: "b < ALLOC_BUCKETS" "x \<in> set (used (trk s b))" by blast
    then have "TRKH (ptr x) = b" "ptr x \<noteq> 0" using assms by (auto simp: trk_ok_def used_def)
    then have "tracked_obj s (ptr x) = Some x" using tracked_obj_iff [OF assms] b(2) by simp
    then show "x \<in> ran (tracked_obj s)" by (rule ranI)
  qed
  then have r: "ran (tracked_obj s) = (\<Union>b<ALLOC_BUCKETS. set (used (trk s b)))" by auto
  then show "set ?ws = (\<lambda>x. NEVER_FREED (func x) (src_file x) (line x)) ` ran (tracked_obj s)"
    unfolding r by (auto simp: used_def image_Union)
qed

section \<open>Whole runs\<close>

datatype trk_event = T_ALLOC u64 string string u32 | T_FREE u64 string string u32

text \<open>What a program's calls do to the table, and the map that they stand for.\<close>

fun TRK_run :: "'w libc_scheme \<Rightarrow> trk_event list \<Rightarrow> tracked \<Rightarrow> tracked outcome" where
  "TRK_run w [] s = Some (Inr s)"
| "TRK_run w (T_ALLOC p f g l # es) s = andthen (TRK_alloc_buf w p f g l s) (TRK_run w es)"
| "TRK_run w (T_FREE p f g l # es) s = TRK_run w es (TRK_free_buf p f g l s)"

fun in_use :: "(u64 \<rightharpoonup> trk_obj) \<Rightarrow> trk_event list \<Rightarrow> u64 \<rightharpoonup> trk_obj" where
  "in_use m [] = m"
| "in_use m (T_ALLOC p f g l # es) = in_use (if p = 0 then m else m(p \<mapsto> \<lparr>ptr = p, src_file = f, func = g, line = l\<rparr>)) es"
| "in_use m (T_FREE p f g l # es) = in_use (m(p := None)) es"

fun unknown_frees :: "(u64 \<rightharpoonup> trk_obj) \<Rightarrow> trk_event list \<Rightarrow> warning list" where
  "unknown_frees m [] = []"
| "unknown_frees m (T_ALLOC p f g l # es) = unknown_frees (if p = 0 then m else m(p \<mapsto> \<lparr>ptr = p, src_file = f, func = g, line = l\<rparr>)) es"
| "unknown_frees m (T_FREE p f g l # es) =
     (if p \<noteq> 0 \<and> m p = None then [FREE_UNKNOWN g f l] else []) @ unknown_frees (m(p := None)) es"

text \<open>The allocator never returns a pointer that is in use.\<close>

fun fresh_allocs :: "(u64 \<rightharpoonup> trk_obj) \<Rightarrow> trk_event list \<Rightarrow> bool" where
  "fresh_allocs m [] = True"
| "fresh_allocs m (T_ALLOC p f g l # es) =
     (m p = None \<and> fresh_allocs (if p = 0 then m else m(p \<mapsto> \<lparr>ptr = p, src_file = f, func = g, line = l\<rparr>)) es)"
| "fresh_allocs m (T_FREE p f g l # es) = fresh_allocs (m(p := None)) es"

definition TRK_init :: "mem_heap \<Rightarrow> tracked" where
  "TRK_init h = \<lparr>trk = (\<lambda>_. []), trk_mem = (\<lambda>_. None), heap = h, warnings = []\<rparr>"

lemma TRK_init_ok: "trk_ok (TRK_init h)" "tracked_obj (TRK_init h) = Map.empty" "warnings (TRK_init h) = []"
  by (simp_all add: trk_ok_def TRK_init_def used_def tracked_obj_def fun_eq_iff)

lemma TRK_run_view:
  assumes "trk_ok s" and "fresh_allocs (tracked_obj s) es" and "TRK_run w es s = Some (Inr s')"
  shows "trk_ok s' \<and> tracked_obj s' = in_use (tracked_obj s) es \<and> warnings s' = warnings s @ unknown_frees (tracked_obj s) es"
  using assms
proof (induction es arbitrary: s)
  case (Cons e es)
  show ?case
  proof (cases e)
    case (T_ALLOC p f g l)
    then obtain s1 where s1: "TRK_alloc_buf w p f g l s = Some (Inr s1)" and rest: "TRK_run w es s1 = Some (Inr s')"
      using Cons.prems(3) by (auto simp: andthen_def split: option.splits sum.splits)
    show ?thesis
    proof (cases "p = 0")
      case True
      then have "s1 = s" using s1 by (simp add: TRK_alloc_buf_def)
      then show ?thesis using True Cons.IH [of s] Cons.prems rest T_ALLOC by simp
    next
      case False
      have "tracked_obj s p = None" using Cons.prems(2) T_ALLOC by simp
      then have v: "trk_ok s1" "tracked_obj s1 = (tracked_obj s)(p \<mapsto> \<lparr>ptr = p, src_file = f, func = g, line = l\<rparr>)"
        "warnings s1 = warnings s"
        using TRK_alloc_buf_view [OF Cons.prems(1) False _ s1] by simp_all
      then show ?thesis using Cons.IH [OF v(1) _ rest] Cons.prems(2) T_ALLOC False by (simp del: fun_upd_apply)
    qed
  next
    case (T_FREE p f g l)
    show ?thesis
    proof (cases "p = 0")
      case True
      then have "TRK_free_buf p f g l s = s" "(tracked_obj s)(p := None) = tracked_obj s"
        by (simp_all add: TRK_free_buf_def tracked_obj_def fun_upd_idem)
      then show ?thesis using Cons True T_FREE by simp
    next
      case False
      note v = TRK_free_buf_view [OF Cons.prems(1) False, of f g l]
      then show ?thesis using Cons.IH [of "TRK_free_buf p f g l s"] Cons.prems T_FREE False by (simp del: fun_upd_apply)
    qed
  qed
qed simp

text \<open>
  C24: after any sequence of allocations and releases, the report of a debugging build warns about exactly
  the objects that were allocated and not released, with the place of their allocation, and before
  that there is one warning for each release of a pointer that was not allocated at the time.
\<close>

theorem report_lists_leaks:
  assumes "fresh_allocs Map.empty es" and "TRK_run w es (TRK_init h) = Some (Inr s)"
  shows "\<exists>ws. warnings (TRK_report s) = unknown_frees Map.empty es @ ws \<and>
     set ws = (\<lambda>x. NEVER_FREED (func x) (src_file x) (line x)) ` ran (in_use Map.empty es)"
proof -
  have v: "trk_ok s" "tracked_obj s = in_use Map.empty es" "warnings s = unknown_frees Map.empty es"
    using TRK_run_view [OF TRK_init_ok(1) _ assms(2)] assms(1) by (simp_all add: TRK_init_ok)
  obtain ws where "warnings (TRK_report s) = warnings s @ ws"
    and "set ws = (\<lambda>x. NEVER_FREED (func x) (src_file x) (line x)) ` ran (tracked_obj s)"
    by (rule TRK_report_view [OF v(1)])
  then show ?thesis unfolding v by blast
qed

definition track_libc :: libc where
  "track_libc = demo_libc\<lparr>l_malloc := (\<lambda>h n. List.find (\<lambda>p. \<not> is_live h p) [64, 256, 1024])\<rparr>"

text \<open>Two allocations, of which the second is released twice.\<close>

definition track_events :: "trk_event list" where
  "track_events = [T_ALLOC 16 ''a.c'' ''f'' 1, T_ALLOC 32 ''a.c'' ''g'' 2, T_FREE 32 ''a.c'' ''h'' 3, T_FREE 32 ''a.c'' ''h'' 4]"

theorem report_lists_leaks_witness:
  "\<exists>s ws. TRK_run track_libc track_events (TRK_init Map.empty) = Some (Inr s) \<and>
     warnings (TRK_report s) = FREE_UNKNOWN ''h'' ''a.c'' 4 # ws \<and> set ws = {NEVER_FREED ''f'' ''a.c'' 1}"
proof -
  have "case TRK_run track_libc track_events (TRK_init Map.empty) of Some (Inr _) \<Rightarrow> True | _ \<Rightarrow> False" by code_simp
  then obtain s where s: "TRK_run track_libc track_events (TRK_init Map.empty) = Some (Inr s)"
    by (auto split: option.splits sum.splits)
  have f: "fresh_allocs Map.empty track_events" by (simp add: track_events_def)
  have u: "unknown_frees Map.empty track_events = [FREE_UNKNOWN ''h'' ''a.c'' 4]" by (simp add: track_events_def)
  have "in_use Map.empty track_events = Map.empty(16 \<mapsto> \<lparr>ptr = 16, src_file = ''a.c'', func = ''f'', line = 1\<rparr>)"
    by (auto simp: track_events_def fun_eq_iff)
  then have "ran (in_use Map.empty track_events) = {\<lparr>ptr = 16, src_file = ''a.c'', func = ''f'', line = 1\<rparr>}" by simp
  then show ?thesis using report_lists_leaks [OF f s] s unfolding u by auto
qed

end
