(* ===== verification/Afl_Tools.thy ===== *)
theory Afl_Tools
  imports Afl_Target Afl_Trace
begin

text \<open>
  What \<^verbatim>\<open>afl-tmin.c\<close> and \<^verbatim>\<open>afl-analyze.c\<close> share: how a run of the target is reported, the slow
  classification of hit counts, and the test for an empty trace.
\<close>

section \<open>A run of the target\<close>

text \<open>
  What one run of the target comes to: whether its input file could be created and the process
  forked, the status (\<open>None\<close> when \<^verbatim>\<open>waitpid\<close> fails), the trace in shared memory, and whether the timer
  or a request to stop came in.
\<close>

record tool_report =
  t_created :: bool
  t_forked :: bool
  t_wait :: "wait_status option"
  t_map :: "u8 list"
  t_timed_out :: bool
  t_stop :: bool

section \<open>The trace\<close>

definition slow_classify_counts :: "bool \<Rightarrow> u8 list \<Rightarrow> u8 list" where
  "slow_classify_counts edges mem =
     (if edges then map (\<lambda>b. if b \<noteq> 0 then 1 else b) mem else map count_class_lookup8 mem)"

fun anything_set_loop :: "nat \<Rightarrow> u8 list \<Rightarrow> bool" where
  "anything_set_loop 0 mem = False"
| "anything_set_loop (Suc i) mem = ((le_word (take 4 mem) :: u32) \<noteq> 0 \<or> anything_set_loop i (drop 4 mem))"

lemma length_slow_classify_counts [simp]: "length (slow_classify_counts e mem) = length mem"
  by (simp add: slow_classify_counts_def)

lemma anything_set_bytes: "length mem = 4 * i \<Longrightarrow> anything_set_loop i mem \<longleftrightarrow> (\<exists>b \<in> set mem. b \<noteq> 0)"
proof (induction i arbitrary: mem)
  case (Suc i)
  have "set mem = set (take 4 mem) \<union> set (drop 4 mem)" by (metis append_take_drop_id set_append)
  moreover have "(le_word (take 4 mem) :: u32) = 0 \<longleftrightarrow> (\<forall>b \<in> set (take 4 mem). b = 0)"
    by (rule le_word_eq_0_iff) simp
  ultimately show ?case using Suc by auto
qed simp

end
