(* ===== verification/Afl_Tmin.thy ===== *)
theory Afl_Tmin
  imports Afl_Tools
begin

text \<open>
  The test case minimizer \<^verbatim>\<open>afl-tmin.c\<close>: blocks of the input are removed and bytes are replaced by zero
  digits as long as the target, which is outside the program, still behaves the same way.
\<close>

section \<open>The minimizer and the world around it\<close>

text \<open>The target may behave differently each time; \<open>x_out\<close> says whether the output file can be created.\<close>

record tmin_world =
  x_run :: "u32 \<Rightarrow> u8 list \<Rightarrow> tool_report"
  x_out :: bool

record tmin_state =
  in_data :: "u8 list"
  in_len :: u32
  orig_cksum :: u32
  total_execs :: u32
  missed_hangs :: u32
  missed_crashes :: u32
  missed_paths :: u32
  trace_bits :: "u8 list"
  mask_bitmap :: "u8 list option"
  crash_mode :: bool
  exit_crash :: bool
  edges_only :: bool
  exact_mode :: bool
  stop_soon :: bool
  child_timed_out :: bool
  prog_in :: "u8 list"

text \<open>How the process ends before its time; the last case has written its best input so far.\<close>

datatype tmin_end = TMIN_FATAL string | TMIN_PFATAL string | TMIN_STOPPED "u8 list"

definition TMIN_SET_MIN_SIZE :: u32 where "TMIN_SET_MIN_SIZE = 4"
definition TMIN_SET_STEPS :: u32 where "TMIN_SET_STEPS = 128"

section \<open>Running the target\<close>

text \<open>\<^verbatim>\<open>*mem &= ~*mask\<close> for one machine word after the other.\<close>

fun mask_loop :: "nat \<Rightarrow> u8 list \<Rightarrow> u8 list \<Rightarrow> u8 list" where
  "mask_loop 0 mem msk = mem"
| "mask_loop (Suc i) mem msk =
     le_bytes 4 ((le_word (take 4 mem) :: u32) AND NOT (le_word (take 4 msk))) @ mask_loop i (drop 4 mem) (drop 4 msk)"

definition apply_mask :: "u8 list \<Rightarrow> u8 list option \<Rightarrow> u8 list" where
  "apply_mask mem msk = (case msk of None \<Rightarrow> mem | Some m \<Rightarrow> mask_loop (length mem div 4) mem m)"

definition anything_set :: "'a tmin_state_scheme \<Rightarrow> bool" where
  "anything_set s = anything_set_loop (length (trace_bits s) div 4) (trace_bits s)"

fun tmin_crashed :: "bool \<Rightarrow> wait_status \<Rightarrow> bool" where
  "tmin_crashed xc (Signaled sig) = True"
| "tmin_crashed xc (Exited code) = (code = MSAN_ERROR \<or> (code \<noteq> 0 \<and> xc))"
| "tmin_crashed xc (Stopped sig) = False"

text \<open>What becomes of a run that ended in time.\<close>

definition tmin_verdict :: "bool \<Rightarrow> wait_status \<Rightarrow> 'a tmin_state_scheme \<Rightarrow> bool \<times> 'a tmin_state_scheme" where
  "tmin_verdict first_run status s =
     (let crashed = tmin_crashed (exit_crash s) status;
          s1 = (if crashed \<and> first_run then s\<lparr>crash_mode := True\<rparr> else s)
      in if crashed \<and> crash_mode s1 \<and> \<not> exact_mode s1 then (True, s1)
         else if crashed \<and> \<not> crash_mode s1 then (False, s1\<lparr>missed_crashes := missed_crashes s1 + 1\<rparr>)
         else if \<not> crashed \<and> crash_mode s1 then (False, s1\<lparr>missed_paths := missed_paths s1 + 1\<rparr>)
         else
           let cksum = hash32 (trace_bits s1) (of_nat (length (trace_bits s1))) HASH_CONST;
               s2 = (if first_run then s1\<lparr>orig_cksum := cksum\<rparr> else s1)
           in if orig_cksum s2 = cksum then (True, s2) else (False, s2\<lparr>missed_paths := missed_paths s2 + 1\<rparr>))"

definition tmin_run_target ::
  "tmin_world \<Rightarrow> u8 list \<Rightarrow> u32 \<Rightarrow> bool \<Rightarrow> 'a tmin_state_scheme \<Rightarrow>
   (tmin_end + bool \<times> 'a tmin_state_scheme) option" where
  "tmin_run_target w mem len first_run s =
     do {
       d \<leftarrow> slice mem 0 (unat len);
       let r = x_run w (total_execs s) d;
       if \<not> t_created r then Some (Inl (TMIN_PFATAL ''Unable to create''))
       else if \<not> t_forked r then Some (Inl (TMIN_PFATAL ''fork() failed''))
       else case t_wait r of
         None \<Rightarrow> Some (Inl (TMIN_FATAL ''waitpid() failed''))
       | Some status \<Rightarrow>
           let tb = shm (length (trace_bits s)) (t_map r) in
           if (le_word (take 4 tb) :: u32) = EXEC_FAIL_SIG then Some (Inl (TMIN_FATAL ''Unable to execute''))
           else
             let s1 = s\<lparr>prog_in := d, child_timed_out := t_timed_out r, stop_soon := (stop_soon s \<or> t_stop r),
                        trace_bits := apply_mask (slow_classify_counts (edges_only s) tb) (mask_bitmap s),
                        total_execs := total_execs s + 1\<rparr>
             in if stop_soon s1
                then do { out \<leftarrow> slice (in_data s1) 0 (unat (in_len s1));
                          Some (Inl (if x_out w then TMIN_STOPPED out else TMIN_PFATAL ''Unable to create'')) }
                else if child_timed_out s1 then Some (Inr (False, s1\<lparr>missed_hangs := missed_hangs s1 + 1\<rparr>))
                else Some (Inr (tmin_verdict first_run status s1)) }"

section \<open>The stages of minimize\<close>

text \<open>The locals of \<^verbatim>\<open>minimize\<close>.\<close>

record minimizer = tmin_state +
  tmp_buf :: "u8 list"
  changed_any :: bool
  cur_pass :: u32
  alpha_d_total :: u32

abbreviation digit_0 :: u8 where "digit_0 \<equiv> 0x30"

text \<open>A run on the first \<open>len\<close> bytes of \<^verbatim>\<open>tmp_buf\<close>, and how to go on when it may stay and when not.\<close>

definition try_tmp ::
  "tmin_world \<Rightarrow> u32 \<Rightarrow> minimizer \<Rightarrow> (minimizer \<Rightarrow> (tmin_end + minimizer) option) \<Rightarrow>
   (minimizer \<Rightarrow> (tmin_end + minimizer) option) \<Rightarrow> (tmin_end + minimizer) option" where
  "try_tmp w len s keep drop_it =
     andthen (tmin_run_target w (tmp_buf s) len False s) (\<lambda>(res, s1). if res then keep s1 else drop_it s1)"

lemma try_tmp_mono [partial_function_mono]:
  assumes "\<And>s. mono_option (\<lambda>f. k f s)" and "\<And>s. mono_option (\<lambda>f. d f s)"
  shows "mono_option (\<lambda>f. try_tmp w len s (k f) (d f))"
  unfolding try_tmp_def
proof (intro andthen_mono option.const_mono)
  fix y :: "bool \<times> minimizer"
  show "mono_option (\<lambda>f. case y of (res, s1) \<Rightarrow> if res then k f s1 else d f s1)"
    using assms by (cases y; cases "fst y") simp_all
qed

text \<open>The first \<open>len\<close> bytes of one buffer copied to the start of another.\<close>

definition copy_front :: "u8 list \<Rightarrow> u8 list \<Rightarrow> nat \<Rightarrow> u8 list option" where
  "copy_front dst src len = do { d \<leftarrow> slice src 0 len; put dst 0 d }"

text \<open>Stage 0: whole blocks of zero digits.\<close>

partial_function (option) norm_loop ::
  "tmin_world \<Rightarrow> u32 \<Rightarrow> u32 \<Rightarrow> minimizer \<Rightarrow> (tmin_end + minimizer) option" where
  "norm_loop w set_len set_pos s =
     (if set_pos < in_len s
      then do {
        let use_len = min set_len (in_len s - set_pos);
        blk \<leftarrow> slice (in_data s) (unat set_pos) (unat use_len);
        if list_all (\<lambda>b. b = digit_0) blk then norm_loop w set_len (set_pos + set_len) s
        else do {
          t1 \<leftarrow> copy_front (tmp_buf s) (in_data s) (unat (in_len s));
          t2 \<leftarrow> put t1 (unat set_pos) (replicate (unat use_len) digit_0);
          try_tmp w (in_len s) (s\<lparr>tmp_buf := t2\<rparr>)
            (\<lambda>s1. do {
               d \<leftarrow> put (in_data s1) (unat set_pos) (replicate (unat use_len) digit_0);
               norm_loop w set_len (set_pos + set_len)
                 (s1\<lparr>in_data := d, changed_any := True, alpha_d_total := alpha_d_total s1 + use_len\<rparr>) })
            (\<lambda>s1. norm_loop w set_len (set_pos + set_len) s1) } }
      else Some (Inr s))"

text \<open>Stage 1: \<^verbatim>\<open>memcmp\<close> of a block with the one before it, and the removal of one block.\<close>

definition same_as_previous :: "u32 \<Rightarrow> u32 \<Rightarrow> minimizer \<Rightarrow> bool option" where
  "same_as_previous del_len del_pos s =
     (if del_len \<le> del_pos
      then do {
        a \<leftarrow> slice (in_data s) (unat del_pos - unat del_len) (unat del_len);
        b \<leftarrow> slice (in_data s) (unat del_pos) (unat del_len);
        Some (a = b) }
      else None)"

definition tail_of :: "u32 \<Rightarrow> u32 \<Rightarrow> minimizer \<Rightarrow> u32" where
  "tail_of del_len del_pos s = (let t = in_len s - del_pos - del_len in if sint t < 0 then 0 else t)"

definition without_block :: "u32 \<Rightarrow> u32 \<Rightarrow> minimizer \<Rightarrow> u8 list option" where
  "without_block del_len del_pos s =
     do { t1 \<leftarrow> copy_front (tmp_buf s) (in_data s) (unat del_pos);
          let tail_len = tail_of del_len del_pos s;
          d \<leftarrow> (if tail_len = 0 then Some [] else slice (in_data s) (unat del_pos + unat del_len) (unat tail_len));
          put t1 (unat del_pos) d }"

partial_function (option) del_loop ::
  "tmin_world \<Rightarrow> u32 \<Rightarrow> bool \<Rightarrow> u32 \<Rightarrow> minimizer \<Rightarrow> (tmin_end + minimizer) option" where
  "del_loop w del_len prev_del del_pos s =
     (if del_pos < in_len s
      then do {
        let tail_len = tail_of del_len del_pos s;
        skip \<leftarrow> (if \<not> prev_del \<and> tail_len \<noteq> 0 then same_as_previous del_len del_pos s else Some False);
        if skip then del_loop w del_len prev_del (del_pos + del_len) s
        else do {
          t \<leftarrow> without_block del_len del_pos s;
          try_tmp w (del_pos + tail_len) (s\<lparr>tmp_buf := t\<rparr>)
            (\<lambda>s1. do {
               d \<leftarrow> copy_front (in_data s1) (tmp_buf s1) (unat (del_pos + tail_len));
               del_loop w del_len True del_pos (s1\<lparr>in_data := d, in_len := del_pos + tail_len, changed_any := True\<rparr>) })
            (\<lambda>s1. del_loop w del_len False (del_pos + del_len) s1) } }
      else Some (Inr s))"

partial_function (option) del_sizes :: "tmin_world \<Rightarrow> u32 \<Rightarrow> minimizer \<Rightarrow> (tmin_end + minimizer) option" where
  "del_sizes w len s =
     (let del_len = (if len = 0 then 1 else len) in
      andthen (del_loop w del_len True 0 s)
        (\<lambda>s1. if del_len > 1 \<and> in_len s1 \<ge> 1 then del_sizes w (del_len div 2) s1 else Some (Inr s1)))"

text \<open>Stage 2: all occurrences of a byte at once.\<close>

definition alpha_map :: "minimizer \<Rightarrow> (nat \<Rightarrow> u32) option" where
  "alpha_map s = map_option (\<lambda>d i. of_nat (length (filter (\<lambda>b. unat b = i) d))) (slice (in_data s) 0 (unat (in_len s)))"

fun alpha_loop :: "tmin_world \<Rightarrow> (nat \<Rightarrow> u32) \<Rightarrow> nat list \<Rightarrow> minimizer \<Rightarrow> (tmin_end + minimizer) option" where
  "alpha_loop w am [] s = Some (Inr s)"
| "alpha_loop w am (i # is) s =
     (if i = unat digit_0 \<or> am i = 0 then alpha_loop w am is s
      else do {
        d \<leftarrow> slice (in_data s) 0 (unat (in_len s));
        t \<leftarrow> put (tmp_buf s) 0 (map (\<lambda>b. if unat b = i then digit_0 else b) d);
        try_tmp w (in_len s) (s\<lparr>tmp_buf := t\<rparr>)
          (\<lambda>s1. do {
             e \<leftarrow> copy_front (in_data s1) (tmp_buf s1) (unat (in_len s1));
             alpha_loop w am is (s1\<lparr>in_data := e, changed_any := True, alpha_d_total := alpha_d_total s1 + am i\<rparr>) })
          (alpha_loop w am is) })"

text \<open>Stage 3: single bytes.\<close>

partial_function (option) char_loop :: "tmin_world \<Rightarrow> u32 \<Rightarrow> minimizer \<Rightarrow> (tmin_end + minimizer) option" where
  "char_loop w i s =
     (if i < in_len s
      then do {
        orig \<leftarrow> get_at (tmp_buf s) (unat i);
        if orig = digit_0 then char_loop w (i + 1) s
        else do {
          t \<leftarrow> set_at (tmp_buf s) (unat i) digit_0;
          try_tmp w (in_len s) (s\<lparr>tmp_buf := t\<rparr>)
            (\<lambda>s1. do {
               d \<leftarrow> set_at (in_data s1) (unat i) digit_0;
               char_loop w (i + 1) (s1\<lparr>in_data := d, changed_any := True, alpha_d_total := alpha_d_total s1 + 1\<rparr>) })
            (\<lambda>s1. do { t1 \<leftarrow> set_at (tmp_buf s1) (unat i) orig; char_loop w (i + 1) (s1\<lparr>tmp_buf := t1\<rparr>) }) } }
      else Some (Inr s))"

partial_function (option) passes :: "tmin_world \<Rightarrow> minimizer \<Rightarrow> (tmin_end + minimizer) option" where
  "passes w s =
     do { del_len \<leftarrow> next_p2 (in_len s div TRIM_START_STEPS);
          andthen (del_sizes w del_len (s\<lparr>cur_pass := cur_pass s + 1, changed_any := False\<rparr>)) (\<lambda>s1.
            if cur_pass s1 > 1 \<and> \<not> changed_any s1 then Some (Inr s1)
            else do {
              am \<leftarrow> alpha_map s1;
              andthen (alpha_loop w am [0..<256] s1) (\<lambda>s2. do {
                t \<leftarrow> copy_front (tmp_buf s2) (in_data s2) (unat (in_len s2));
                andthen (char_loop w 0 (s2\<lparr>tmp_buf := t\<rparr>)) (\<lambda>s3.
                  if changed_any s3 then passes w s3 else Some (Inr s3)) }) }) }"

text \<open>What \<^verbatim>\<open>ck_alloc_nozero\<close> leaves in the new buffer does not matter; \<open>junk\<close> is one choice.\<close>

definition begin_min :: "(nat \<Rightarrow> u8) \<Rightarrow> tmin_state \<Rightarrow> minimizer" where
  "begin_min junk s = tmin_state.extend s (minimizer.fields (map junk [0..<unat (in_len s)]) False 0 0)"

definition minimize :: "tmin_world \<Rightarrow> (nat \<Rightarrow> u8) \<Rightarrow> tmin_state \<Rightarrow> (tmin_end + minimizer) option" where
  "minimize w junk s =
     do { set_len \<leftarrow> next_p2 (in_len s div TMIN_SET_STEPS);
          andthen (norm_loop w (if set_len < TMIN_SET_MIN_SIZE then TMIN_SET_MIN_SIZE else set_len) 0 (begin_min junk s))
            (passes w) }"

text \<open>The part of \<^verbatim>\<open>main\<close> after the options: the file is read, run once and minimized, the result written.\<close>

definition read_initial_file :: "u8 list option \<Rightarrow> 'a tmin_state_scheme \<Rightarrow> tmin_end + 'a tmin_state_scheme" where
  "read_initial_file contents s =
     (case contents of
        None \<Rightarrow> Inl (TMIN_PFATAL ''Unable to open'')
      | Some d \<Rightarrow>
          if d = [] then Inl (TMIN_FATAL ''Zero-sized input file.'')
          else if length d \<ge> TMIN_MAX_FILE then Inl (TMIN_FATAL ''Input file is too large'')
          else Inr (s\<lparr>in_data := d, in_len := of_nat (length d)\<rparr>))"

definition tmin_main ::
  "tmin_world \<Rightarrow> (nat \<Rightarrow> u8) \<Rightarrow> u8 list option \<Rightarrow> tmin_state \<Rightarrow> (tmin_end + u8 list) option" where
  "tmin_main w junk contents s =
     andthen (Some (read_initial_file contents s)) (\<lambda>s1.
     andthen (tmin_run_target w (in_data s1) (in_len s1) True s1) (\<lambda>(res, s2).
       if child_timed_out s2 then Some (Inl (TMIN_FATAL ''Target binary times out (adjusting -t may help).''))
       else if \<not> crash_mode s2 \<and> \<not> anything_set s2 then Some (Inl (TMIN_FATAL ''No instrumentation detected.''))
       else andthen (minimize w junk s2) (\<lambda>s3. do {
         out \<leftarrow> slice (in_data s3) 0 (unat (in_len s3));
         Some (if x_out w then Inr out else Inl (TMIN_PFATAL ''Unable to create'')) })))"

end
