(* ===== verification/Afl_TminGood.thy ===== *)
theory Afl_TminGood
  imports Afl_Tmin
begin

text \<open>
  What \<^verbatim>\<open>afl-tmin\<close> guarantees: it comes to an end, stays inside its buffers, and leaves an input that
  still behaves like the original and from which no single byte can be removed.
\<close>

section \<open>The maps\<close>

lemma mask_loop_bytes:
  assumes "length mem = 4 * i" and "length m = 4 * i"
  shows "mask_loop i mem m = map2 (\<lambda>x y. x AND NOT y) mem m"
  using assms
proof (induction i arbitrary: mem m)
  case (Suc i)
  have l: "length (take 4 mem) = 4" "length (take 4 m) = 4" using Suc.prems by simp_all
  let ?c = "map2 (\<lambda>x y. x AND NOT y) (take 4 mem) (take 4 m)"
  have "(le_word (take 4 mem) :: u32) AND NOT (le_word (take 4 m)) = le_word ?c"
    using l by (intro le_word_and_not) simp
  moreover have "le_bytes 4 (le_word ?c :: u32) = ?c" using le_bytes_le_word [of ?c, where ?'a = 32] l by simp
  moreover have "mem = take 4 mem @ drop 4 mem" "m = take 4 m @ drop 4 m" by simp_all
  then have "map2 (\<lambda>x y. x AND NOT y) mem m = ?c @ map2 (\<lambda>x y. x AND NOT y) (drop 4 mem) (drop 4 m)"
    using l by (metis map_append zip_append)
  ultimately show ?case using Suc by simp
qed simp

lemma length_mask_loop: "4 * i \<le> length mem \<Longrightarrow> length (mask_loop i mem m) = length mem"
  by (induction i arbitrary: mem m) auto

lemma length_apply_mask [simp]: "length (apply_mask mem m) = length mem"
  by (auto simp: apply_mask_def intro!: length_mask_loop split: option.split)

section \<open>The verdict\<close>

text \<open>What stays as it is during \<^verbatim>\<open>minimize\<close> and decides whether a run is accepted.\<close>

definition settings :: "'a tmin_state_scheme \<Rightarrow> u32 \<times> bool \<times> u8 list option \<times> bool \<times> bool \<times> bool \<times> nat" where
  "settings s = (orig_cksum s, crash_mode s, mask_bitmap s, exit_crash s, edges_only s, exact_mode s, length (trace_bits s))"

definition final_map :: "'a tmin_state_scheme \<Rightarrow> tool_report \<Rightarrow> u8 list" where
  "final_map s r = apply_mask (slow_classify_counts (edges_only s) (shm (length (trace_bits s)) (t_map r))) (mask_bitmap s)"

definition map_cksum :: "'a tmin_state_scheme \<Rightarrow> tool_report \<Rightarrow> u32" where
  "map_cksum s r = hash32 (final_map s r) (of_nat (length (trace_bits s))) HASH_CONST"

definition crashes :: "'a tmin_state_scheme \<Rightarrow> tool_report \<Rightarrow> bool" where
  "crashes s r = (case t_wait r of None \<Rightarrow> False | Some status \<Rightarrow> tmin_crashed (exit_crash s) status)"

definition accepted :: "'a tmin_state_scheme \<Rightarrow> tool_report \<Rightarrow> bool" where
  "accepted s r =
     (\<not> t_timed_out r \<and> crashes s r = crash_mode s \<and>
      (crash_mode s \<and> \<not> exact_mode s \<or> map_cksum s r = orig_cksum s))"

lemma accepted_settings: "settings s = settings t \<Longrightarrow> accepted s r = accepted t r"
  unfolding settings_def accepted_def crashes_def map_cksum_def final_map_def prod.inject
  by (elim conjE) (simp only:)

text \<open>The part of the input that counts.\<close>

definition input :: "'a tmin_state_scheme \<Rightarrow> u8 list" where
  "input s = take (unat (in_len s)) (in_data s)"

definition bufs_ok :: "minimizer \<Rightarrow> bool" where
  "bufs_ok s \<longleftrightarrow> unat (in_len s) \<le> length (in_data s) \<and> length (tmp_buf s) = length (in_data s) \<and> length (in_data s) < TMIN_MAX_FILE"

text \<open>A run leaves all of this alone.\<close>

definition run_kept :: "minimizer \<Rightarrow> minimizer \<Rightarrow> bool" where
  "run_kept s t \<longleftrightarrow> in_data t = in_data s \<and> in_len t = in_len s \<and> settings t = settings s \<and>
     tmp_buf t = tmp_buf s \<and> changed_any t = changed_any s \<and> cur_pass t = cur_pass s"

definition stop_ok :: "(u8 list \<Rightarrow> bool) \<Rightarrow> tmin_end \<Rightarrow> bool" where
  "stop_ok G e = (case e of TMIN_STOPPED out \<Rightarrow> G out | _ \<Rightarrow> True)"

lemma stop_ok_simps [simp]:
  "stop_ok G (TMIN_STOPPED out) = G out" "stop_ok G (TMIN_FATAL m)" "stop_ok G (TMIN_PFATAL m)"
  by (simp_all add: stop_ok_def)

lemma verdict_accepted:
  assumes "t_wait r = Some status" and "trace_bits s = final_map s0 r" and "settings s = settings s0" and "\<not> t_timed_out r"
  shows "fst (tmin_verdict False status s) = accepted s0 r"
  using assms by (auto simp: tmin_verdict_def accepted_def crashes_def map_cksum_def settings_def Let_def)

lemma verdict_frame:
  fixes s :: minimizer
  shows "run_kept s (snd (tmin_verdict False status s))"
  by (auto simp: tmin_verdict_def run_kept_def settings_def Let_def)

lemma run_target_ends:
  fixes s :: minimizer
  assumes "unat len \<le> length mem" and "unat (in_len s) \<le> length (in_data s)" and "G (input s)"
  shows "ends (tmin_run_target w mem len False s) (stop_ok G)
    (\<lambda>(res, t). run_kept s t \<and> res = accepted s (x_run w (total_execs s) (take (unat len) mem)))"
proof -
  let ?d = "take (unat len) mem"
  let ?r = "x_run w (total_execs s) ?d"
  have d: "slice mem 0 (unat len) = Some ?d" and out: "slice (in_data s) 0 (unat (in_len s)) = Some (input s)"
    using assms(1,2) by (simp_all add: slice_def input_def)
  show ?thesis
  proof (cases "t_created ?r \<and> t_forked ?r")
    case False
    then show ?thesis by (auto simp: tmin_run_target_def d Let_def)
  next
    case True
    show ?thesis
    proof (cases "t_wait ?r")
      case None
      then show ?thesis using True by (simp add: tmin_run_target_def d Let_def)
    next
      case (Some status)
      let ?s1 = "s\<lparr>prog_in := ?d, child_timed_out := t_timed_out ?r, stop_soon := (stop_soon s \<or> t_stop ?r),
        trace_bits := final_map s ?r, total_execs := total_execs s + 1\<rparr>"
      have run: "tmin_run_target w mem len False s =
          (if (le_word (take 4 (shm (length (trace_bits s)) (t_map ?r))) :: u32) = EXEC_FAIL_SIG
           then Some (Inl (TMIN_FATAL ''Unable to execute''))
           else if stop_soon s \<or> t_stop ?r
           then Some (Inl (if x_out w then TMIN_STOPPED (input s) else TMIN_PFATAL ''Unable to create''))
           else if t_timed_out ?r then Some (Inr (False, ?s1\<lparr>missed_hangs := missed_hangs s + 1\<rparr>))
           else Some (Inr (tmin_verdict False status ?s1)))"
        using True Some d out by (simp add: tmin_run_target_def final_map_def Let_def)
      have fr: "settings ?s1 = settings s" by (simp add: settings_def final_map_def)
      have "run_kept s (?s1\<lparr>missed_hangs := missed_hangs s + 1\<rparr>)" by (simp add: run_kept_def settings_def final_map_def)
      moreover have "run_kept s (snd (tmin_verdict False status ?s1))"
        using verdict_frame [of ?s1 status] fr unfolding run_kept_def by simp
      moreover have "fst (tmin_verdict False status ?s1) = accepted s ?r" if "\<not> t_timed_out ?r"
        by (rule verdict_accepted [OF Some _ fr that]) simp
      ultimately show ?thesis unfolding run using assms(3) by (auto simp: accepted_def split: prod.split)
    qed
  qed
qed

section \<open>Progress\<close>

text \<open>
  \<open>G\<close> holds for the inputs that a run has accepted, \<open>R\<close> for those that one has rejected.
\<close>

definition judges :: "tmin_world \<Rightarrow> u32 \<times> bool \<times> u8 list option \<times> bool \<times> bool \<times> bool \<times> nat \<Rightarrow>
    (u8 list \<Rightarrow> bool) \<Rightarrow> (u8 list \<Rightarrow> bool) \<Rightarrow> bool" where
  "judges w S G R \<longleftrightarrow> (\<forall>(s :: minimizer) n d. settings s = S \<longrightarrow> (if accepted s (x_run w n d) then G d else R d))"

definition good :: "u32 \<times> bool \<times> u8 list option \<times> bool \<times> bool \<times> bool \<times> nat \<Rightarrow> (u8 list \<Rightarrow> bool) \<Rightarrow> minimizer \<Rightarrow> bool" where
  "good S G s \<longleftrightarrow> bufs_ok s \<and> G (input s) \<and> settings s = S"

definition weight :: "u8 list \<Rightarrow> nat" where
  "weight d = length d + length (filter (\<lambda>b. b \<noteq> digit_0) d)"

text \<open>A stage either changes nothing, or reports a change and makes the input lighter.\<close>

definition progress :: "minimizer \<Rightarrow> minimizer \<Rightarrow> bool" where
  "progress s t \<longleftrightarrow> cur_pass t = cur_pass s \<and> in_len t \<le> in_len s \<and>
     (changed_any t \<and> weight (input t) < weight (input s) \<or> changed_any t = changed_any s \<and> input t = input s)"

lemma progress_refl [simp]: "progress s s"
  by (simp add: progress_def)

lemma progress_trans [trans]: "progress s t \<Longrightarrow> progress t u \<Longrightarrow> progress s u"
  unfolding progress_def by auto

lemma progress_weight: "progress s t \<Longrightarrow> weight (input t) \<le> weight (input s)"
  unfolding progress_def by auto

lemma run_kept_progress: "run_kept s t \<Longrightarrow> progress s t"
  by (simp add: run_kept_def progress_def input_def)

lemma length_input: "bufs_ok s \<Longrightarrow> length (input s) = unat (in_len s)"
  by (simp add: bufs_ok_def input_def)

lemma good_run_kept: "good S G s \<Longrightarrow> run_kept s t \<Longrightarrow> good S G t"
  by (simp add: good_def run_kept_def bufs_ok_def input_def)

text \<open>The rule for one attempt.\<close>

lemma try_tmp_ends:
  assumes "judges w S G R" and "good S G s" and "unat len \<le> length (tmp_buf s)"
    and keep: "\<And>t. run_kept s t \<Longrightarrow> good S G t \<Longrightarrow> G (take (unat len) (tmp_buf s)) \<Longrightarrow> ends (k t) (stop_ok G) Q"
    and drop_it: "\<And>t. run_kept s t \<Longrightarrow> good S G t \<Longrightarrow> R (take (unat len) (tmp_buf s)) \<Longrightarrow> ends (d t) (stop_ok G) Q"
  shows "ends (try_tmp w len s k d) (stop_ok G) Q"
  unfolding try_tmp_def
proof (rule ends_andthen)
  show "ends (tmin_run_target w (tmp_buf s) len False s) (stop_ok G)
    (\<lambda>(res, t). run_kept s t \<and> res = accepted s (x_run w (total_execs s) (take (unat len) (tmp_buf s))))"
    by (rule run_target_ends) (use assms(2,3) in \<open>simp_all add: good_def bufs_ok_def\<close>)
next
  fix x :: "bool \<times> minimizer"
  obtain res t where x: "x = (res, t)" by (cases x)
  assume "case x of (res, t) \<Rightarrow> run_kept s t \<and> res = accepted s (x_run w (total_execs s) (take (unat len) (tmp_buf s)))"
  then have t: "run_kept s t" and res: "res = accepted s (x_run w (total_execs s) (take (unat len) (tmp_buf s)))" using x by auto
  have g: "good S G t" by (rule good_run_kept [OF assms(2) t])
  have "if res then G (take (unat len) (tmp_buf s)) else R (take (unat len) (tmp_buf s))"
    using assms(1,2) unfolding res judges_def good_def by blast
  then show "ends (case x of (res, s1) \<Rightarrow> if res then k s1 else d s1) (stop_ok G) Q"
    using x keep [OF t g] drop_it [OF t g] by simp
qed

section \<open>Replacing bytes by zero digits\<close>

lemma copy_front_Some: "n \<le> length src \<Longrightarrow> n \<le> length dst \<Longrightarrow> copy_front dst src n = Some (take n src @ drop n dst)"
  by (simp add: copy_front_def slice_def put_def)

text \<open>Bytes replaced within the input: fewer of them are left.\<close>

definition zeroed :: "u8 list \<Rightarrow> u8 list \<Rightarrow> bool" where
  "zeroed d e \<longleftrightarrow> length e = length d \<and> (\<forall>i<length d. e ! i = d ! i \<or> e ! i = digit_0)"

lemma zeroed_weight: "zeroed d e \<Longrightarrow> e \<noteq> d \<Longrightarrow> weight e < weight d"
proof -
  assume z: "zeroed d e" and ne: "e \<noteq> d"
  have "{i. i < length e \<and> e ! i \<noteq> digit_0} \<subset> {i. i < length d \<and> d ! i \<noteq> digit_0}"
  proof -
    obtain i where i: "i < length d" "e ! i \<noteq> d ! i" using z ne nth_equalityI [of e d] unfolding zeroed_def by auto
    then have "e ! i = digit_0" using z unfolding zeroed_def by blast
    then have "i \<in> {i. i < length d \<and> d ! i \<noteq> digit_0} - {i. i < length e \<and> e ! i \<noteq> digit_0}" using i by auto
    moreover have "{i. i < length e \<and> e ! i \<noteq> digit_0} \<subseteq> {i. i < length d \<and> d ! i \<noteq> digit_0}"
      using z unfolding zeroed_def by fastforce
    ultimately show ?thesis by blast
  qed
  then have "length (filter (\<lambda>b. b \<noteq> digit_0) e) < length (filter (\<lambda>b. b \<noteq> digit_0) d)"
    unfolding length_filter_conv_card by (intro psubset_card_mono) simp_all
  then show ?thesis using z by (simp add: weight_def zeroed_def)
qed

text \<open>A replacement that a run has accepted becomes the input.\<close>

lemma progress_zeroed:
  assumes "good S G s" and "zeroed (input s) e" and "e \<noteq> input s" and "G e"
    and "in_len t = in_len s" and "in_data t = e @ drop (unat (in_len s)) (in_data s)" and "changed_any t"
    and "settings t = settings s" and "length (tmp_buf t) = length (tmp_buf s)" and "cur_pass t = cur_pass s"
  shows "good S G t" and "progress s t" and "input t = e"
proof -
  have len: "length e = unat (in_len s)" using assms(1,2) by (simp add: zeroed_def good_def length_input)
  have le: "unat (in_len s) \<le> length (in_data s)" using assms(1) by (simp add: good_def bufs_ok_def)
  show inp: "input t = e" using assms(5,6) len by (simp add: input_def)
  show "good S G t" using assms len le inp by (simp add: good_def bufs_ok_def)
  show "progress s t" using zeroed_weight [OF assms(2,3)] assms(5,7,10) inp by (simp add: progress_def)
qed

text \<open>A stretch of zero digits.\<close>

definition fill :: "u8 list \<Rightarrow> nat \<Rightarrow> nat \<Rightarrow> u8 list" where
  "fill xs i n = take i xs @ replicate n digit_0 @ drop (i + n) xs"

lemma put_fill: "i + n \<le> length xs \<Longrightarrow> put xs i (replicate n digit_0) = Some (fill xs i n)"
  by (simp add: put_def fill_def)

lemma length_fill [simp]: "i + n \<le> length xs \<Longrightarrow> length (fill xs i n) = length xs"
  by (simp add: fill_def)

lemma fill_append: "i + n \<le> length xs \<Longrightarrow> fill (xs @ ys) i n = fill xs i n @ ys"
  by (simp add: fill_def)

lemma zeroed_fill: "i + n \<le> length xs \<Longrightarrow> zeroed xs (fill xs i n)"
  by (auto simp: zeroed_def fill_def nth_append min_def)

lemma fill_same: "i + n \<le> length xs \<Longrightarrow> fill xs i n = xs \<Longrightarrow> list_all (\<lambda>b. b = digit_0) (take n (drop i xs))"
proof -
  assume le: "i + n \<le> length xs" and eq: "fill xs i n = xs"
  have "take n (drop i (fill xs i n)) = replicate n digit_0" using le by (simp add: fill_def)
  then show ?thesis unfolding eq by (simp add: list_all_iff)
qed

lemma input_split: "bufs_ok s \<Longrightarrow> in_data s = input s @ drop (unat (in_len s)) (in_data s)"
  by (simp add: input_def)

lemma small_add:
  assumes "unat (a :: u32) < 2 ^ 30" and "unat b \<le> 2 ^ 30"
  shows "unat (a + b) = unat a + unat b"
  using assms by (subst unat_add_lem [THEN iffD1]) simp_all

lemma in_len_small: "bufs_ok s \<Longrightarrow> unat (in_len s) < 2 ^ 24"
  by (simp add: bufs_ok_def TMIN_MAX_FILE_def)

lemma norm_loop_ends:
  assumes "judges w S G R" and "good S G s" and "1 \<le> unat set_len" and "unat set_len \<le> 2 ^ 30"
  shows "ends (norm_loop w set_len set_pos s) (stop_ok G) (\<lambda>t. good S G t \<and> progress s t)"
  using assms(2)
proof (induction "unat (in_len s) - unat set_pos" arbitrary: s set_pos rule: less_induct)
  case less
  have ok: "bufs_ok s" and gi: "G (input s)" using less.prems by (simp_all add: good_def)
  show ?case
  proof (cases "set_pos < in_len s")
    case False
    then show ?thesis using less.prems by (subst norm_loop.simps) simp
  next
    case True
    define use_len where "use_len = min set_len (in_len s - set_pos)"
    let ?m = "unat (in_len s)" and ?i = "unat set_pos" and ?n = "unat use_len"
    have im: "?i < ?m" using True by (simp add: word_less_nat_alt)
    have "unat (in_len s - set_pos) = ?m - ?i" using True by (simp add: unat_sub)
    then have n: "?n \<le> ?m - ?i" by (simp add: use_len_def min_def word_le_nat_alt)
    then have fits: "?i + ?n \<le> ?m" using im by simp
    have li: "length (input s) = ?m" by (rule length_input [OF ok])
    have le: "?m \<le> length (in_data s)" "?m \<le> length (tmp_buf s)" using ok by (simp_all add: bufs_ok_def)
    have nx: "unat (set_pos + set_len) = ?i + unat set_len"
      using assms(4) im in_len_small [OF ok] by (intro small_add) simp_all
    have smaller: "unat (in_len t) - unat (set_pos + set_len) < ?m - ?i" if "in_len t = in_len s" for t :: minimizer
      using that nx assms(3) im by simp
    have go_on: "ends (norm_loop w set_len (set_pos + set_len) t) (stop_ok G) (\<lambda>u. good S G u \<and> progress s u)"
      if "good S G t" "progress s t" "in_len t = in_len s" for t
      by (rule ends_weaken [OF less.hyps [OF smaller [OF that(3)] that(1)]]) (auto intro: progress_trans [OF that(2)])
    have blk: "slice (in_data s) ?i ?n = Some (take ?n (drop ?i (input s)))"
      using fits le by (simp add: slice_def input_def take_drop min_def)
    show ?thesis
    proof (cases "list_all (\<lambda>b. b = digit_0) (take ?n (drop ?i (input s)))")
      case True
      then show ?thesis using \<open>set_pos < in_len s\<close> blk go_on [OF less.prems progress_refl]
        by (subst norm_loop.simps) (simp add: use_len_def Let_def)
    next
      case False
      let ?e = "fill (input s) ?i ?n"
      let ?t2 = "?e @ drop ?m (tmp_buf s)"
      have ne: "?e \<noteq> input s" using False fill_same [of ?i ?n "input s"] fits li by auto
      have z: "zeroed (input s) ?e" using fits li by (intro zeroed_fill) simp
      have t1: "copy_front (tmp_buf s) (in_data s) ?m = Some (input s @ drop ?m (tmp_buf s))"
        using le by (simp add: copy_front_Some input_def)
      have t2: "put (input s @ drop ?m (tmp_buf s)) ?i (replicate ?n digit_0) = Some ?t2"
        using fits li by (simp add: put_fill fill_append)
      have lt: "length ?t2 = length (tmp_buf s)" using fits li le by simp
      let ?s = "s\<lparr>tmp_buf := ?t2\<rparr>"
      have gs: "good S G ?s" using less.prems lt by (simp add: good_def bufs_ok_def input_def settings_def)
      have att: "ends (try_tmp w (in_len s) ?s
            (\<lambda>s1. do {
               d \<leftarrow> put (in_data s1) ?i (replicate ?n digit_0);
               norm_loop w set_len (set_pos + set_len)
                 (s1\<lparr>in_data := d, changed_any := True, alpha_d_total := alpha_d_total s1 + use_len\<rparr>) })
            (\<lambda>s1. norm_loop w set_len (set_pos + set_len) s1)) (stop_ok G) (\<lambda>t. good S G t \<and> progress s t)"
      proof (rule try_tmp_ends [OF assms(1) gs])
        show "unat (in_len s) \<le> length (tmp_buf ?s)" using lt le by simp
      next
        fix t assume t: "run_kept ?s t" "good S G t" "G (take (unat (in_len s)) (tmp_buf ?s))"
        have G: "G ?e" using t(3) fits li by simp
        have td: "in_data t = input s @ drop ?m (in_data s)" "in_len t = in_len s" "settings t = settings s"
          "length (tmp_buf t) = length (tmp_buf s)" "cur_pass t = cur_pass s"
          using t(1) input_split [OF ok] lt by (simp_all add: run_kept_def settings_def)
        let ?u = "t\<lparr>in_data := ?e @ drop ?m (in_data s), changed_any := True, alpha_d_total := alpha_d_total t + use_len\<rparr>"
        have d: "put (in_data t) ?i (replicate ?n digit_0) = Some (?e @ drop ?m (in_data s))"
          unfolding td(1) using fits li by (simp add: put_fill fill_append)
        have "settings ?u = settings s" using td(3) by (simp add: settings_def)
        then have u: "good S G ?u" "progress s ?u"
          using progress_zeroed [OF less.prems z ne G, of ?u] td by simp_all
        show "ends (do {
               d \<leftarrow> put (in_data t) ?i (replicate ?n digit_0);
               norm_loop w set_len (set_pos + set_len)
                 (t\<lparr>in_data := d, changed_any := True, alpha_d_total := alpha_d_total t + use_len\<rparr>) })
            (stop_ok G) (\<lambda>t. good S G t \<and> progress s t)"
          by (rule ends_bind [OF d]) (rule go_on [OF u], simp add: td)
      next
        fix t assume t: "run_kept ?s t" "good S G t" "R (take (unat (in_len s)) (tmp_buf ?s))"
        have "progress s t" "in_len t = in_len s" using t(1) by (simp_all add: run_kept_def progress_def input_def)
        then show "ends (norm_loop w set_len (set_pos + set_len) t) (stop_ok G) (\<lambda>t. good S G t \<and> progress s t)"
          by (rule go_on [OF t(2)])
      qed
      show ?thesis
        using \<open>set_pos < in_len s\<close> blk False t1 t2 att
        by (subst norm_loop.simps) (simp add: use_len_def [symmetric] Let_def)
    qed
  qed
qed

lemma zeroed_map: "zeroed xs (map (\<lambda>b. if P b then digit_0 else b) xs)"
  by (simp add: zeroed_def)

lemma zeroed_update: "zeroed xs (xs[i := digit_0])"
  by (cases "i < length xs") (auto simp: zeroed_def nth_list_update)

lemma good_tmp:
  assumes "good S G s" and "length t = length (tmp_buf s)"
  shows "good S G (s\<lparr>tmp_buf := t\<rparr>)"
  using assms by (simp add: good_def bufs_ok_def input_def settings_def)

lemma progress_tmp: "progress s (t\<lparr>tmp_buf := x\<rparr>) = progress s t"
  by (simp add: progress_def input_def)

section \<open>Symbols\<close>

lemma alpha_loop_ends:
  assumes "judges w S G R" and "good S G s" and "distinct is"
    and "\<And>j. j \<in> set is \<Longrightarrow> am j \<noteq> 0 \<Longrightarrow> \<exists>b \<in> set (input s). unat b = j"
  shows "ends (alpha_loop w am is s) (stop_ok G) (\<lambda>t. good S G t \<and> progress s t)"
  using assms(2-)
proof (induction "is" arbitrary: s)
  case Nil
  then show ?case by simp
next
  case (Cons i "is")
  have ok: "bufs_ok s" using Cons.prems(1) by (simp add: good_def)
  let ?m = "unat (in_len s)"
  have li: "length (input s) = ?m" by (rule length_input [OF ok])
  have le: "?m \<le> length (in_data s)" "?m \<le> length (tmp_buf s)" "length (tmp_buf s) = length (in_data s)"
    using ok by (simp_all add: bufs_ok_def)
  have go_on: "ends (alpha_loop w am is t) (stop_ok G) (\<lambda>u. good S G u \<and> progress s u)"
    if "good S G t" "progress s t" "\<And>b. b \<in> set (input s) \<Longrightarrow> unat b \<noteq> i \<Longrightarrow> b \<in> set (input t)" for t
  proof (rule ends_weaken [OF Cons.IH [OF that(1)]])
    show "distinct is" using Cons.prems(2) by simp
    fix j assume j: "j \<in> set is" "am j \<noteq> 0"
    then show "\<exists>b \<in> set (input t). unat b = j" using Cons.prems(2) Cons.prems(3) [of j] that(3) by fastforce
  qed (auto intro: progress_trans [OF that(2)])
  show ?case
  proof (cases "i = unat digit_0 \<or> am i = 0")
    case True
    then show ?thesis using go_on [OF Cons.prems(1) progress_refl] by simp
  next
    case False
    let ?e = "map (\<lambda>b. if unat b = i then digit_0 else b) (input s)"
    let ?t = "?e @ drop ?m (tmp_buf s)"
    obtain b where b: "b \<in> set (input s)" "unat b = i" using Cons.prems(3) [of i] False by auto
    have ne: "?e \<noteq> input s"
    proof
      assume "?e = input s"
      then have "map (\<lambda>b. if unat b = i then digit_0 else b) (input s) = map (\<lambda>b. b) (input s)" by simp
      then have "(if unat b = i then digit_0 else b) = b" using b(1) unfolding map_eq_conv by (rule bspec)
      then show False using b(2) False by auto
    qed
    have d: "slice (in_data s) 0 ?m = Some (input s)" using le by (simp add: slice_def input_def)
    have p: "put (tmp_buf s) 0 ?e = Some ?t" using le li by (simp add: put_def)
    have lt: "length ?t = length (tmp_buf s)" using li le by simp
    have att: "ends (try_tmp w (in_len s) (s\<lparr>tmp_buf := ?t\<rparr>)
          (\<lambda>s1. do {
             e \<leftarrow> copy_front (in_data s1) (tmp_buf s1) (unat (in_len s1));
             alpha_loop w am is (s1\<lparr>in_data := e, changed_any := True, alpha_d_total := alpha_d_total s1 + am i\<rparr>) })
          (alpha_loop w am is)) (stop_ok G) (\<lambda>t. good S G t \<and> progress s t)"
    proof (rule try_tmp_ends [OF assms(1) good_tmp [OF Cons.prems(1) lt]])
      show "unat (in_len s) \<le> length (tmp_buf (s\<lparr>tmp_buf := ?t\<rparr>))" using lt le by simp
    next
      fix t assume t: "run_kept (s\<lparr>tmp_buf := ?t\<rparr>) t" "good S G t"
        "G (take (unat (in_len s)) (tmp_buf (s\<lparr>tmp_buf := ?t\<rparr>)))"
      have G: "G ?e" using t(3) li by simp
      have td: "in_data t = input s @ drop ?m (in_data s)" "in_len t = in_len s" "settings t = settings s"
        "tmp_buf t = ?t" "cur_pass t = cur_pass s"
        using t(1) input_split [OF ok] by (simp_all add: run_kept_def settings_def)
      let ?u = "t\<lparr>in_data := ?e @ drop ?m (in_data s), changed_any := True, alpha_d_total := alpha_d_total t + am i\<rparr>"
      have c: "copy_front (in_data t) (tmp_buf t) (unat (in_len t)) = Some (?e @ drop ?m (in_data s))"
        using td le li by (simp add: copy_front_Some)
      have "settings ?u = settings s" using td(3) by (simp add: settings_def)
      then have u: "good S G ?u" "progress s ?u" "input ?u = ?e"
        using progress_zeroed [OF Cons.prems(1) zeroed_map ne G, of ?u] td lt by simp_all
      show "ends (do {
             e \<leftarrow> copy_front (in_data t) (tmp_buf t) (unat (in_len t));
             alpha_loop w am is (t\<lparr>in_data := e, changed_any := True, alpha_d_total := alpha_d_total t + am i\<rparr>) })
          (stop_ok G) (\<lambda>t. good S G t \<and> progress s t)"
        by (rule ends_bind [OF c], rule go_on [OF u(1,2)]) (force simp: u(3) image_iff)
    next
      fix t assume t: "run_kept (s\<lparr>tmp_buf := ?t\<rparr>) t" "good S G t"
      have "progress s t" "input t = input s" using t(1) by (simp_all add: run_kept_def progress_def input_def)
      then show "ends (alpha_loop w am is t) (stop_ok G) (\<lambda>t. good S G t \<and> progress s t)"
        by (intro go_on [OF t(2)]) simp_all
    qed
    show ?thesis using False d p att by simp
  qed
qed

lemma alpha_map_Some:
  assumes "bufs_ok s"
  obtains am where "alpha_map s = Some am" and "\<And>j. am j \<noteq> 0 \<Longrightarrow> \<exists>b \<in> set (input s). unat b = j"
proof
  show "alpha_map s = Some (\<lambda>i. of_nat (length (filter (\<lambda>b. unat b = i) (input s))))"
    using assms by (simp add: alpha_map_def slice_def input_def bufs_ok_def)
  fix j assume "(of_nat (length (filter (\<lambda>b. unat b = j) (input s))) :: u32) \<noteq> 0"
  then have "filter (\<lambda>b. unat b = j) (input s) \<noteq> []" by auto
  then show "\<exists>b \<in> set (input s). unat b = j" by (auto simp: filter_empty_conv)
qed

section \<open>Single bytes\<close>

lemma char_loop_ends:
  assumes "judges w S G R" and "good S G s" and "take (unat (in_len s)) (tmp_buf s) = input s"
  shows "ends (char_loop w i s) (stop_ok G) (\<lambda>t. good S G t \<and> progress s t)"
  using assms(2,3)
proof (induction "unat (in_len s) - unat i" arbitrary: s i rule: less_induct)
  case less
  have ok: "bufs_ok s" using less.prems(1) by (simp add: good_def)
  let ?m = "unat (in_len s)" and ?i = "unat i"
  have li: "length (input s) = ?m" by (rule length_input [OF ok])
  have le: "?m \<le> length (in_data s)" "?m \<le> length (tmp_buf s)" "length (tmp_buf s) = length (in_data s)"
    using ok by (simp_all add: bufs_ok_def)
  show ?case
  proof (cases "i < in_len s")
    case False
    then show ?thesis using less.prems by (subst char_loop.simps) simp
  next
    case True
    have im: "?i < ?m" using True by (simp add: word_less_nat_alt)
    have nx: "unat (i + 1) = ?i + 1"
      using im in_len_small [OF ok] small_add [of i 1] by simp
    have go_on: "ends (char_loop w (i + 1) t) (stop_ok G) (\<lambda>u. good S G u \<and> progress s u)"
      if "good S G t" "progress s t" "in_len t = in_len s" "take (unat (in_len t)) (tmp_buf t) = input t" for t
    proof (rule ends_weaken [OF less.hyps [OF _ that(1,4)]])
      show "unat (in_len t) - unat (i + 1) < unat (in_len s) - unat i" using that(3) nx im by simp
    qed (auto intro: progress_trans [OF that(2)])
    have same: "tmp_buf s ! ?i = input s ! ?i" using im arg_cong [OF less.prems(2), of "\<lambda>x. x ! ?i"] by simp
    have g: "get_at (tmp_buf s) ?i = Some (input s ! ?i)" using im le same by (simp add: get_at_def)
    show ?thesis
    proof (cases "input s ! ?i = digit_0")
      case z: True
      then show ?thesis using True g go_on [OF less.prems(1) progress_refl _ less.prems(2)]
        by (subst char_loop.simps) simp
    next
      case False
      let ?e = "(input s)[?i := digit_0]" and ?t = "(tmp_buf s)[?i := digit_0]"
      have ne: "?e \<noteq> input s" using False im li by (metis nth_list_update_eq)
      have p: "set_at (tmp_buf s) ?i digit_0 = Some ?t" using im le by (simp add: set_at_def)
      have lt: "length ?t = length (tmp_buf s)" by simp
      have tt: "take ?m ?t = ?e" using less.prems(2) by (simp add: take_update_swap)
      have att: "ends (try_tmp w (in_len s) (s\<lparr>tmp_buf := ?t\<rparr>)
            (\<lambda>s1. do {
               d \<leftarrow> set_at (in_data s1) ?i digit_0;
               char_loop w (i + 1) (s1\<lparr>in_data := d, changed_any := True, alpha_d_total := alpha_d_total s1 + 1\<rparr>) })
            (\<lambda>s1. do { t1 \<leftarrow> set_at (tmp_buf s1) ?i (input s ! ?i); char_loop w (i + 1) (s1\<lparr>tmp_buf := t1\<rparr>) }))
          (stop_ok G) (\<lambda>t. good S G t \<and> progress s t)"
      proof (rule try_tmp_ends [OF assms(1) good_tmp [OF less.prems(1) lt]])
        show "unat (in_len s) \<le> length (tmp_buf (s\<lparr>tmp_buf := ?t\<rparr>))" using le by simp
      next
        fix t assume t: "run_kept (s\<lparr>tmp_buf := ?t\<rparr>) t" "good S G t"
          "G (take (unat (in_len s)) (tmp_buf (s\<lparr>tmp_buf := ?t\<rparr>)))"
        have G: "G ?e" using t(3) tt by simp
        have td: "in_data t = input s @ drop ?m (in_data s)" "in_len t = in_len s" "settings t = settings s"
          "tmp_buf t = ?t" "cur_pass t = cur_pass s"
          using t(1) input_split [OF ok] by (simp_all add: run_kept_def settings_def)
        let ?u = "t\<lparr>in_data := ?e @ drop ?m (in_data s), changed_any := True, alpha_d_total := alpha_d_total t + 1\<rparr>"
        have c: "set_at (in_data t) ?i digit_0 = Some (?e @ drop ?m (in_data s))"
          using td le li im by (simp add: set_at_def list_update_append)
        have "settings ?u = settings s" using td(3) by (simp add: settings_def)
        then have u: "good S G ?u" "progress s ?u" "input ?u = ?e"
          using progress_zeroed [OF less.prems(1) zeroed_update ne G, of ?u] td lt by simp_all
        show "ends (do {
               d \<leftarrow> set_at (in_data t) ?i digit_0;
               char_loop w (i + 1) (t\<lparr>in_data := d, changed_any := True, alpha_d_total := alpha_d_total t + 1\<rparr>) })
            (stop_ok G) (\<lambda>t. good S G t \<and> progress s t)"
          by (rule ends_bind [OF c], rule go_on [OF u(1,2)]) (simp_all add: u(3) td tt)
      next
        fix t assume t: "run_kept (s\<lparr>tmp_buf := ?t\<rparr>) t" "good S G t"
        let ?u = "t\<lparr>tmp_buf := tmp_buf s\<rparr>"
        have td: "tmp_buf t = ?t" "in_len t = in_len s" using t(1) by (simp_all add: run_kept_def)
        have c: "set_at (tmp_buf t) ?i (input s ! ?i) = Some (tmp_buf s)"
          using td im le same by (simp add: set_at_def list_update_same_conv)
        have "good S G ?u" using good_tmp [OF t(2), of "tmp_buf s"] td by simp
        moreover have "progress s ?u" "input ?u = input s" "in_len ?u = in_len s"
          using t(1) by (simp_all add: run_kept_def progress_def input_def)
        ultimately show "ends (do { t1 \<leftarrow> set_at (tmp_buf t) ?i (input s ! ?i); char_loop w (i + 1) (t\<lparr>tmp_buf := t1\<rparr>) })
            (stop_ok G) (\<lambda>t. good S G t \<and> progress s t)"
          by (intro ends_bind [OF c] go_on) (simp_all add: less.prems(2))
      qed
      show ?thesis using True g False p att by (subst char_loop.simps) simp
    qed
  qed
qed

section \<open>Removing blocks\<close>

definition rem_block :: "nat \<Rightarrow> nat \<Rightarrow> 'a list \<Rightarrow> 'a list" where
  "rem_block i n xs = take i xs @ drop (i + n) xs"

lemma length_rem_block: "i \<le> length xs \<Longrightarrow> length (rem_block i n xs) = i + (length xs - i - n)"
  by (simp add: rem_block_def)

lemma weight_append: "weight (xs @ ys) = weight xs + weight ys"
  by (simp add: weight_def)

lemma weight_rem_block:
  assumes "i < length d" and "0 < n"
  shows "weight (rem_block i n d) < weight d"
proof -
  have d: "d = take i d @ take n (drop i d) @ drop (i + n) d" by (metis append_take_drop_id drop_drop add.commute)
  have "take n (drop i d) \<noteq> []" using assms by simp
  then have "0 < weight (take n (drop i d))" unfolding weight_def length_0_conv [symmetric] by linarith
  then have "weight (rem_block i n d) < weight (take i d @ take n (drop i d) @ drop (i + n) d)"
    unfolding rem_block_def weight_append by simp
  then show ?thesis by (simp only: d [symmetric])
qed

text \<open>Removing a block or an equal one before it comes to the same.\<close>

lemma rem_block_same:
  assumes "n \<le> i" and "i + n \<le> length d" and "take n (drop (i - n) d) = take n (drop i d)"
  shows "rem_block (i - n) n d = rem_block i n d"
proof -
  have "take i d = take (i - n) d @ take n (drop (i - n) d)"
    using assms(1) take_add [of "i - n" n d] by simp
  moreover have "drop i d = take n (drop i d) @ drop (i + n) d" by (metis append_take_drop_id drop_drop add.commute)
  ultimately show ?thesis using assms unfolding rem_block_def by simp
qed

lemma sint_small: "- (2 ^ 30) \<le> x \<Longrightarrow> x < 2 ^ 24 \<Longrightarrow> sint (word_of_int x :: u32) = x"
  by (simp add: signed_of_int signed_take_bit_int_eq_self)

lemma unat_small: "0 \<le> x \<Longrightarrow> x < 2 ^ 24 \<Longrightarrow> unat (word_of_int x :: u32) = nat x"
  by (simp add: unsigned_of_int take_bit_int_eq_self)

lemma tail_of_value:
  assumes "del_pos < in_len s" and "bufs_ok s" and "unat del_len \<le> 2 ^ 30"
  shows "unat (tail_of del_len del_pos s) = unat (in_len s) - unat del_pos - unat del_len"
proof -
  define m i n where mdef: "m = unat (in_len s)" and idef: "i = unat del_pos" and ndef: "n = unat del_len"
  define x where "x = int m - int i - int n"
  have lt: "i < m" using assms(1) by (simp add: word_less_nat_alt mdef idef)
  have b: "m < 2 ^ 24" using in_len_small [OF assms(2)] by (simp add: mdef)
  have r: "- (2 ^ 30) \<le> x" "x < 2 ^ 24" using lt b assms(3) by (simp_all add: x_def ndef [symmetric])
  have t: "in_len s - del_pos - del_len = word_of_int x" by (simp add: x_def mdef idef ndef)
  have "unat (tail_of del_len del_pos s) = nat x"
    unfolding tail_of_def Let_def t sint_small [OF r] using unat_small [OF _ r(2)] by simp
  then show ?thesis by (simp add: x_def mdef [symmetric] idef [symmetric] ndef [symmetric])
qed

lemma without_block_Some:
  assumes "del_pos < in_len s" and "bufs_ok s" and "unat del_len \<le> 2 ^ 30"
  obtains t where "without_block del_len del_pos s = Some t" and "length t = length (tmp_buf s)"
    and "take (unat (del_pos + tail_of del_len del_pos s)) t = rem_block (unat del_pos) (unat del_len) (input s)"
    and "unat (del_pos + tail_of del_len del_pos s) = length (rem_block (unat del_pos) (unat del_len) (input s))"
proof -
  let ?i = "unat del_pos" and ?n = "unat del_len" and ?m = "unat (in_len s)"
  let ?rest = "drop (?i + ?n) (input s)"
  have lt: "?i < ?m" using assms(1) by (simp add: word_less_nat_alt)
  have b: "?m < 2 ^ 24" by (rule in_len_small [OF assms(2)])
  have le: "?m \<le> length (in_data s)" "length (tmp_buf s) = length (in_data s)" using assms(2) by (simp_all add: bufs_ok_def)
  have li: "length (input s) = ?m" by (rule length_input [OF assms(2)])
  note tl = tail_of_value [OF assms]
  have sum: "unat (del_pos + tail_of del_len del_pos s) = ?i + (?m - ?i - ?n)"
    using small_add [of del_pos "tail_of del_len del_pos s"] tl lt b by simp
  have lr: "length (rem_block ?i ?n (input s)) = ?i + (?m - ?i - ?n)" using lt li by (simp add: length_rem_block)
  have c: "copy_front (tmp_buf s) (in_data s) ?i = Some (take ?i (input s) @ drop ?i (tmp_buf s))"
    using lt le by (simp add: copy_front_Some input_def min_def)
  have d: "(if tail_of del_len del_pos s = 0 then Some [] else slice (in_data s) (?i + ?n) (unat (tail_of del_len del_pos s))) =
      Some ?rest"
  proof (cases "tail_of del_len del_pos s = 0")
    case True
    then show ?thesis using tl li by simp
  next
    case False
    then have "0 < ?m - ?i - ?n" using tl by (metis unat_gt_0)
    then show ?thesis using False tl le by (simp add: slice_def input_def take_drop)
  qed
  let ?t = "rem_block ?i ?n (input s) @ drop (?i + length ?rest) (tmp_buf s)"
  have p: "put (take ?i (input s) @ drop ?i (tmp_buf s)) ?i ?rest = Some ?t"
    using lt le li by (simp add: put_def rem_block_def add.commute)
  have lt': "length ?t = length (tmp_buf s)" using lr li lt le by simp
  have "without_block del_len del_pos s = Some ?t"
    unfolding without_block_def c bind.bind_lunit Let_def d p ..
  then show thesis using that [of ?t] lt' sum lr by simp
qed

text \<open>
  The loop over one block length.  When it removes nothing, each single byte has been tried (a byte that
  equals the one before it has been tried as that one).
\<close>

definition tried :: "(u8 list \<Rightarrow> bool) \<Rightarrow> u32 \<Rightarrow> nat \<Rightarrow> minimizer \<Rightarrow> minimizer \<Rightarrow> bool" where
  "tried R del_len pos s t \<longleftrightarrow> (input t = input s \<and> del_len = 1 \<longrightarrow>
     (\<forall>k. pos \<le> k \<and> k < length (input s) \<longrightarrow> R (rem_block k 1 (input s))))"

lemma del_loop_ends:
  assumes "judges w S G R" and "good S G s" and "1 \<le> unat del_len" and "unat del_len \<le> 2 ^ 30"
    and "\<not> prev \<Longrightarrow> unat del_len \<le> unat del_pos \<and> R (rem_block (unat del_pos - unat del_len) (unat del_len) (input s))"
  shows "ends (del_loop w del_len prev del_pos s) (stop_ok G)
    (\<lambda>t. good S G t \<and> progress s t \<and> tried R del_len (unat del_pos) s t)"
  using assms(2,5)
proof (induction "unat (in_len s) - unat del_pos" arbitrary: s prev del_pos rule: less_induct)
  case less
  have ok: "bufs_ok s" using less.prems(1) by (simp add: good_def)
  let ?m = "unat (in_len s)" and ?i = "unat del_pos" and ?n = "unat del_len"
  have li: "length (input s) = ?m" by (rule length_input [OF ok])
  show ?case
  proof (cases "del_pos < in_len s")
    case False
    then have "tried R del_len ?i s s" using li by (auto simp: tried_def word_less_nat_alt)
    then show ?thesis using False less.prems by (subst del_loop.simps) simp
  next
    case True
    have im: "?i < ?m" using True by (simp add: word_less_nat_alt)
    have b: "?m < 2 ^ 24" by (rule in_len_small [OF ok])
    have nx: "unat (del_pos + del_len) = ?i + ?n" using small_add [of del_pos del_len] im b assms(4) by simp
    note tl = tail_of_value [OF True ok assms(4)]
    let ?cut = "rem_block ?i ?n (input s)"
    text \<open>Going on with the next block, once this one is known to be needed.\<close>
    have next_block: "ends (del_loop w del_len False (del_pos + del_len) t) (stop_ok G)
        (\<lambda>u. good S G u \<and> progress s u \<and> tried R del_len ?i s u)"
      if t: "good S G t" "progress s t" "input t = input s" "in_len t = in_len s" and R: "R ?cut" for t
    proof (rule ends_weaken [OF less.hyps [of t "del_pos + del_len" False]])
      show "unat (in_len t) - unat (del_pos + del_len) < ?m - ?i" using t(4) nx im assms(3) by simp
      show "good S G t" by (rule t(1))
      show "?n \<le> unat (del_pos + del_len) \<and> R (rem_block (unat (del_pos + del_len) - ?n) ?n (input t))"
        using R nx t(3) by simp
    next
      fix u assume u: "good S G u \<and> progress t u \<and> tried R del_len (unat (del_pos + del_len)) t u"
      have "tried R del_len ?i s u"
        unfolding tried_def
      proof (intro impI allI)
        fix k assume h: "input u = input s \<and> del_len = 1" and k: "?i \<le> k \<and> k < length (input s)"
        then have "R (rem_block k 1 (input s))" if "?i + 1 \<le> k"
          using u t(3) nx that by (simp add: tried_def)
        then show "R (rem_block k 1 (input s))" using R k h by (cases "k = ?i") auto
      qed
      then show "good S G u \<and> progress s u \<and> tried R del_len ?i s u" using u progress_trans [OF t(2)] by blast
    qed
    define skip where "skip = (if \<not> prev \<and> tail_of del_len del_pos s \<noteq> 0 then same_as_previous del_len del_pos s else Some False)"
    have skip: "skip = Some False \<or> (skip = Some True \<and> \<not> prev \<and> R ?cut)"
    proof (cases "\<not> prev \<and> tail_of del_len del_pos s \<noteq> 0")
      case cmp: True
      then have n: "?n \<le> ?i" and Rp: "R (rem_block (?i - ?n) ?n (input s))" using less.prems(2) by simp_all
      have "0 < unat (tail_of del_len del_pos s)" using cmp by (simp add: unat_gt_0)
      then have fit: "?i + ?n \<le> ?m" using tl by simp
      have le: "?m \<le> length (in_data s)" using ok by (simp add: bufs_ok_def)
      have eq: "take ?n (drop (?i - ?n) (in_data s)) = take ?n (drop (?i - ?n) (input s))"
        "take ?n (drop ?i (in_data s)) = take ?n (drop ?i (input s))"
        using fit n by (simp_all add: input_def take_drop min_def)
      have "same_as_previous del_len del_pos s =
          Some (take ?n (drop (?i - ?n) (input s)) = take ?n (drop ?i (input s)))"
        using n fit le by (simp add: same_as_previous_def slice_def eq word_le_nat_alt)
      moreover have "R ?cut" if "take ?n (drop (?i - ?n) (input s)) = take ?n (drop ?i (input s))"
        using Rp rem_block_same [OF n _ that] fit li by simp
      ultimately show ?thesis using cmp unfolding skip_def by auto
    qed (auto simp: skip_def)
    show ?thesis
    proof (cases "skip = Some True")
      case yes: True
      then have R: "R ?cut" and np: "\<not> prev" using skip by auto
      have "del_loop w del_len prev del_pos s = del_loop w del_len False (del_pos + del_len) s"
        using True yes np unfolding skip_def by (subst del_loop.simps) (simp add: Let_def)
      then show ?thesis using next_block [OF less.prems(1) progress_refl _ _ R] by simp
    next
      case False
      then have no: "skip = Some False" using skip by auto
      obtain t where t: "without_block del_len del_pos s = Some t" "length t = length (tmp_buf s)"
        "take (unat (del_pos + tail_of del_len del_pos s)) t = ?cut"
        "unat (del_pos + tail_of del_len del_pos s) = length ?cut"
        by (rule without_block_Some [OF True ok assms(4)])
      let ?l = "del_pos + tail_of del_len del_pos s"
      have lc: "length ?cut < ?m" "length ?cut \<le> length (in_data s)" "length (tmp_buf s) = length (in_data s)"
        using im li assms(3) ok by (auto simp: length_rem_block bufs_ok_def)
      have att: "ends (try_tmp w ?l (s\<lparr>tmp_buf := t\<rparr>)
            (\<lambda>s1. do {
               d \<leftarrow> copy_front (in_data s1) (tmp_buf s1) (unat ?l);
               del_loop w del_len True del_pos (s1\<lparr>in_data := d, in_len := ?l, changed_any := True\<rparr>) })
            (\<lambda>s1. del_loop w del_len False (del_pos + del_len) s1)) (stop_ok G)
          (\<lambda>t. good S G t \<and> progress s t \<and> tried R del_len ?i s t)"
      proof (rule try_tmp_ends [OF assms(1) good_tmp [OF less.prems(1) t(2)]])
        show "unat ?l \<le> length (tmp_buf (s\<lparr>tmp_buf := t\<rparr>))" using t(2,4) lc by simp
      next
        fix u assume u: "run_kept (s\<lparr>tmp_buf := t\<rparr>) u" "good S G u" "G (take (unat ?l) (tmp_buf (s\<lparr>tmp_buf := t\<rparr>)))"
        have G: "G ?cut" using u(3) t(3) by simp
        have ud: "in_data u = in_data s" "settings u = settings s" "tmp_buf u = t" "cur_pass u = cur_pass s"
          using u(1) by (simp_all add: run_kept_def settings_def)
        let ?d = "?cut @ drop (length ?cut) (in_data s)"
        let ?v = "u\<lparr>in_data := ?d, in_len := ?l, changed_any := True\<rparr>"
        have c: "copy_front (in_data u) (tmp_buf u) (unat ?l) = Some ?d"
          using t lc unfolding ud by (simp add: copy_front_Some)
        have inp: "input ?v = ?cut" using t(4) by (simp add: input_def)
        have "good S G ?v"
          using less.prems(1) G inp t(2,4) lc ud by (simp add: good_def bufs_ok_def settings_def)
        moreover have w: "weight (input ?v) < weight (input s)"
          unfolding inp using weight_rem_block [of ?i "input s" ?n] im li assms(3) by simp
        moreover have "?l \<le> in_len s" using t(4) lc(1) by (simp add: word_le_nat_alt)
        ultimately have v: "good S G ?v" "progress s ?v" using ud by (simp_all add: progress_def)
        have "ends (del_loop w del_len True del_pos ?v) (stop_ok G)
            (\<lambda>t. good S G t \<and> progress s t \<and> tried R del_len ?i s t)"
        proof (rule ends_weaken [OF less.hyps [of ?v del_pos True]])
          show "unat (in_len ?v) - ?i < ?m - ?i" using t(4) lc(1) im by simp
        next
          fix x assume x: "good S G x \<and> progress ?v x \<and> tried R del_len ?i ?v x"
          then have "weight (input x) < weight (input s)" using progress_weight [of ?v x] w by simp
          then have "tried R del_len ?i s x" by (auto simp: tried_def)
          then show "good S G x \<and> progress s x \<and> tried R del_len ?i s x" using x progress_trans [OF v(2)] by blast
        qed (use v(1) in simp_all)
        then show "ends (do {
               d \<leftarrow> copy_front (in_data u) (tmp_buf u) (unat ?l);
               del_loop w del_len True del_pos (u\<lparr>in_data := d, in_len := ?l, changed_any := True\<rparr>) })
            (stop_ok G) (\<lambda>t. good S G t \<and> progress s t \<and> tried R del_len ?i s t)"
          by (rule ends_bind [OF c])
      next
        fix u assume u: "run_kept (s\<lparr>tmp_buf := t\<rparr>) u" "good S G u" "R (take (unat ?l) (tmp_buf (s\<lparr>tmp_buf := t\<rparr>)))"
        have "progress s u" "input u = input s" "in_len u = in_len s" "R ?cut"
          using u(1,3) t(3) by (simp_all add: run_kept_def progress_def input_def)
        then show "ends (del_loop w del_len False (del_pos + del_len) u) (stop_ok G)
            (\<lambda>t. good S G t \<and> progress s t \<and> tried R del_len ?i s t)"
          by (rule next_block [OF u(2)])
      qed
      show ?thesis
        using True no t(1) att unfolding skip_def by (subst del_loop.simps) (simp add: Let_def)
    qed
  qed
qed

section \<open>Whole passes\<close>

lemma progress_same: "progress s t \<Longrightarrow> progress t u \<Longrightarrow> input u = input s \<Longrightarrow> input t = input s"
  unfolding progress_def by auto

abbreviation all_needed :: "(u8 list \<Rightarrow> bool) \<Rightarrow> u8 list \<Rightarrow> bool" where
  "all_needed R d \<equiv> \<forall>k<length d. R (rem_block k 1 d)"

lemma del_sizes_ends:
  assumes "judges w S G R" and "good S G s" and "unat len \<le> 2 ^ 30"
  shows "ends (del_sizes w len s) (stop_ok G)
    (\<lambda>t. good S G t \<and> progress s t \<and> (input t = input s \<longrightarrow> all_needed R (input s)))"
  using assms(2,3)
proof (induction "unat len" arbitrary: s len rule: less_induct)
  case less
  let ?l = "if len = 0 then 1 else len"
  have l: "1 \<le> unat ?l" "unat ?l \<le> 2 ^ 30" using less.prems(2) by (auto simp: Suc_le_eq unat_gt_0)
  have "ends (andthen (del_loop w ?l True 0 s)
        (\<lambda>s1. if ?l > 1 \<and> in_len s1 \<ge> 1 then del_sizes w (?l div 2) s1 else Some (Inr s1))) (stop_ok G)
      (\<lambda>t. good S G t \<and> progress s t \<and> (input t = input s \<longrightarrow> all_needed R (input s)))"
  proof (rule ends_andthen [OF del_loop_ends [OF assms(1) less.prems(1) l]])
    fix t assume "good S G t \<and> progress s t \<and> tried R ?l (unat 0) s t"
    then have t: "good S G t" "progress s t" "tried R ?l 0 s t" by simp_all
    show "ends (if ?l > 1 \<and> in_len t \<ge> 1 then del_sizes w (?l div 2) t else Some (Inr t)) (stop_ok G)
      (\<lambda>t. good S G t \<and> progress s t \<and> (input t = input s \<longrightarrow> all_needed R (input s)))"
    proof (cases "?l > 1 \<and> in_len t \<ge> 1")
      case True
      have half: "unat (?l div 2) < unat len" "unat (?l div 2) \<le> 2 ^ 30"
        using True l by (auto simp: unat_div word_less_nat_alt)
      have "ends (del_sizes w (?l div 2) t) (stop_ok G)
        (\<lambda>t. good S G t \<and> progress s t \<and> (input t = input s \<longrightarrow> all_needed R (input s)))"
      proof (rule ends_weaken [OF less.hyps [OF half(1) t(1) half(2)]])
        fix u assume u: "good S G u \<and> progress t u \<and> (input u = input t \<longrightarrow> all_needed R (input t))"
        then have "progress s u" using progress_trans [OF t(2)] by blast
        moreover have "input t = input s" if "input u = input s" using progress_same [OF t(2) _ that] u by blast
        ultimately show "good S G u \<and> progress s u \<and> (input u = input s \<longrightarrow> all_needed R (input s))" using u by auto
      qed
      then show ?thesis using True by simp
    next
      case False
      have "all_needed R (input s)" if same: "input t = input s"
      proof (cases "in_len t = 0")
        case True
        then have "input s = []" using same by (simp add: input_def)
        then show ?thesis by simp
      next
        case nz: False
        have "1 \<le> in_len t" using nz by (simp add: word_le_nat_alt Suc_le_eq unat_gt_0)
        then have "?l = 1" using False l(1) by (intro word_unat_eq_iff [THEN iffD2]) (simp add: word_less_nat_alt)
        then show ?thesis using t(3) same by (simp add: tried_def)
      qed
      then show ?thesis using False t by auto
    qed
  qed simp
  then show ?case by (subst del_sizes.simps) (simp add: Let_def)
qed

lemma p2_small:
  assumes "bufs_ok s" and "0 < unat k"
  obtains r where "next_p2 (in_len s div k) = Some r" and "1 \<le> unat r" and "unat r \<le> 2 ^ 30"
proof -
  have "unat (in_len s) div unat k \<le> unat (in_len s)" by (rule div_le_dividend)
  then have v: "unat (in_len s div k) < 2 ^ 24" using in_len_small [OF assms(1)] unfolding unat_div by linarith
  obtain j where j: "j \<le> 31" "next_p2 (in_len s div k) = Some (2 ^ j)" "j = 0 \<or> 2 ^ (j - 1) < unat (in_len s div k)"
    using next_p2_value [of "in_len s div k"] v by auto
  have "j \<le> 24"
  proof (rule ccontr)
    assume "\<not> j \<le> 24"
    then have "(2 :: nat) ^ 24 \<le> 2 ^ (j - 1)" by (intro power_increasing) simp_all
    then show False using j(3) v \<open>\<not> j \<le> 24\<close> by linarith
  qed
  then have "(2 :: nat) ^ j \<le> 2 ^ 24" by (intro power_increasing) simp_all
  moreover have "unat (2 ^ j :: u32) = 2 ^ j" using j(1) by (intro unat_two_power) simp
  ultimately show thesis using that [OF j(2)] by simp
qed

lemma passes_ends:
  assumes "judges w S G R" and "good S G s"
  shows "ends (passes w s) (stop_ok G) (\<lambda>t. good S G t \<and> in_len t \<le> in_len s \<and> all_needed R (input t))"
  using assms(2)
proof (induction "weight (input s)" arbitrary: s rule: less_induct)
  case less
  have ok: "bufs_ok s" using less.prems by (simp add: good_def)
  let ?s0 = "s\<lparr>cur_pass := cur_pass s + 1, changed_any := False\<rparr>"
  have g0: "good S G ?s0" and i0: "input ?s0 = input s" and l0: "in_len ?s0 = in_len s" and c0: "\<not> changed_any ?s0"
    using less.prems by (simp_all add: good_def bufs_ok_def input_def settings_def)
  obtain del_len where p2: "next_p2 (in_len s div TRIM_START_STEPS) = Some del_len" "unat del_len \<le> 2 ^ 30"
    by (rule p2_small [OF ok, of TRIM_START_STEPS]) (simp_all add: TRIM_START_STEPS_def)
  let ?Q = "\<lambda>t. good S G t \<and> in_len t \<le> in_len s \<and> all_needed R (input t)"
  have "ends (andthen (del_sizes w del_len ?s0) (\<lambda>s1.
            if cur_pass s1 > 1 \<and> \<not> changed_any s1 then Some (Inr s1)
            else do {
              am \<leftarrow> alpha_map s1;
              andthen (alpha_loop w am [0..<256] s1) (\<lambda>s2. do {
                t \<leftarrow> copy_front (tmp_buf s2) (in_data s2) (unat (in_len s2));
                andthen (char_loop w 0 (s2\<lparr>tmp_buf := t\<rparr>)) (\<lambda>s3.
                  if changed_any s3 then passes w s3 else Some (Inr s3)) }) })) (stop_ok G) ?Q"
  proof (rule ends_andthen [OF del_sizes_ends [OF assms(1) g0 p2(2)]])
    fix s1 assume "good S G s1 \<and> progress ?s0 s1 \<and> (input s1 = input ?s0 \<longrightarrow> all_needed R (input ?s0))"
    then have s1: "good S G s1" "progress ?s0 s1" "input s1 = input s \<Longrightarrow> all_needed R (input s)" using i0 by simp_all
    obtain am where am: "alpha_map s1 = Some am" "\<And>j. am j \<noteq> 0 \<Longrightarrow> \<exists>b \<in> set (input s1). unat b = j"
      using alpha_map_Some [of s1] s1(1) unfolding good_def by blast
    have rest: "ends (andthen (alpha_loop w am [0..<256] s1) (\<lambda>s2. do {
                t \<leftarrow> copy_front (tmp_buf s2) (in_data s2) (unat (in_len s2));
                andthen (char_loop w 0 (s2\<lparr>tmp_buf := t\<rparr>)) (\<lambda>s3.
                  if changed_any s3 then passes w s3 else Some (Inr s3)) })) (stop_ok G) ?Q"
    proof (rule ends_andthen [OF alpha_loop_ends [OF assms(1) s1(1) distinct_upt am(2)]])
      fix s2 assume s2: "good S G s2 \<and> progress s1 s2"
      let ?t = "input s2 @ drop (unat (in_len s2)) (tmp_buf s2)"
      have le: "unat (in_len s2) \<le> length (in_data s2)" "length (tmp_buf s2) = length (in_data s2)"
        "length (input s2) = unat (in_len s2)"
        using s2 length_input [of s2] by (simp_all add: good_def bufs_ok_def)
      have c: "copy_front (tmp_buf s2) (in_data s2) (unat (in_len s2)) = Some ?t"
        using le by (simp add: copy_front_Some input_def)
      have g2: "good S G (s2\<lparr>tmp_buf := ?t\<rparr>)" using s2 le by (intro good_tmp) simp_all
      have "ends (andthen (char_loop w 0 (s2\<lparr>tmp_buf := ?t\<rparr>)) (\<lambda>s3.
                  if changed_any s3 then passes w s3 else Some (Inr s3))) (stop_ok G) ?Q"
      proof (rule ends_andthen [OF char_loop_ends [OF assms(1) g2]])
        show "take (unat (in_len (s2\<lparr>tmp_buf := ?t\<rparr>))) (tmp_buf (s2\<lparr>tmp_buf := ?t\<rparr>)) = input (s2\<lparr>tmp_buf := ?t\<rparr>)"
          using le(3) by (simp add: input_def)
        fix s3 assume s3: "good S G s3 \<and> progress (s2\<lparr>tmp_buf := ?t\<rparr>) s3"
        have p: "progress s2 s3" using s3 by (simp add: progress_def input_def)
        have p13: "progress s1 s3" using s2 p by (blast intro: progress_trans)
        have p03: "progress ?s0 s3" by (rule progress_trans [OF s1(2) p13])
        have shorter: "in_len s3 \<le> in_len s" using p03 l0 by (simp add: progress_def)
        show "ends (if changed_any s3 then passes w s3 else Some (Inr s3)) (stop_ok G) ?Q"
        proof (cases "changed_any s3")
          case True
          then have "weight (input s3) < weight (input s)" using p03 i0 by (auto simp: progress_def)
          then have "ends (passes w s3) (stop_ok G) (\<lambda>t. good S G t \<and> in_len t \<le> in_len s3 \<and> all_needed R (input t))"
            by (rule less.hyps) (use s3 in simp)
          then have "ends (passes w s3) (stop_ok G) ?Q" by (rule ends_weaken) (use shorter in auto)
          then show ?thesis using True by simp
        next
          case False
          then have eq: "input s3 = input s" using p03 i0 by (auto simp: progress_def)
          then have "all_needed R (input s)" using progress_same [OF s1(2) p13] i0 s1(3) by simp
          then show ?thesis using False s3 shorter eq by simp
        qed
      qed
      then show "ends (do {
                t \<leftarrow> copy_front (tmp_buf s2) (in_data s2) (unat (in_len s2));
                andthen (char_loop w 0 (s2\<lparr>tmp_buf := t\<rparr>)) (\<lambda>s3.
                  if changed_any s3 then passes w s3 else Some (Inr s3)) }) (stop_ok G) ?Q"
        by (rule ends_bind [OF c])
    qed
    show "ends (if cur_pass s1 > 1 \<and> \<not> changed_any s1 then Some (Inr s1)
            else do {
              am \<leftarrow> alpha_map s1;
              andthen (alpha_loop w am [0..<256] s1) (\<lambda>s2. do {
                t \<leftarrow> copy_front (tmp_buf s2) (in_data s2) (unat (in_len s2));
                andthen (char_loop w 0 (s2\<lparr>tmp_buf := t\<rparr>)) (\<lambda>s3.
                  if changed_any s3 then passes w s3 else Some (Inr s3)) }) }) (stop_ok G) ?Q"
    proof (rule ends_if)
      assume "cur_pass s1 > 1 \<and> \<not> changed_any s1"
      then have "input s1 = input s" "in_len s1 \<le> in_len s" using s1(2) i0 l0 by (auto simp: progress_def)
      then show "ends (Some (Inr s1)) (stop_ok G) ?Q" using s1(1,3) by simp
    next
      show "ends (do {
              am \<leftarrow> alpha_map s1;
              andthen (alpha_loop w am [0..<256] s1) (\<lambda>s2. do {
                t \<leftarrow> copy_front (tmp_buf s2) (in_data s2) (unat (in_len s2));
                andthen (char_loop w 0 (s2\<lparr>tmp_buf := t\<rparr>)) (\<lambda>s3.
                  if changed_any s3 then passes w s3 else Some (Inr s3)) }) }) (stop_ok G) ?Q"
        using rest by (simp only: am(1) bind.bind_lunit)
    qed
  qed
  then show ?case by (subst passes.simps) (simp only: p2 bind.bind_lunit)
qed

section \<open>The whole run\<close>

lemma begin_min_simps:
  "in_data (begin_min junk s) = in_data s" "in_len (begin_min junk s) = in_len s"
  "tmp_buf (begin_min junk s) = map junk [0..<unat (in_len s)]" "settings (begin_min junk s) = settings s"
  by (simp_all add: begin_min_def settings_def tmin_state.defs minimizer.defs)

lemma minimize_ends:
  assumes "judges w (settings s) G R" and "G (in_data s)" and "unat (in_len s) = length (in_data s)"
    and "length (in_data s) < TMIN_MAX_FILE"
  shows "ends (minimize w junk s) (stop_ok G)
    (\<lambda>t. good (settings s) G t \<and> length (input t) \<le> length (in_data s) \<and> all_needed R (input t))"
proof -
  let ?s1 = "begin_min junk s"
  note f = begin_min_simps
  have "bufs_ok ?s1" "input ?s1 = in_data s" using assms(3,4) by (simp_all add: bufs_ok_def input_def f)
  then have g: "good (settings s) G ?s1" using assms(2) f(4) by (simp only: good_def)
  have ok: "bufs_ok ?s1" using g by (simp add: good_def)
  obtain r where r: "next_p2 (in_len s div TMIN_SET_STEPS) = Some r" "1 \<le> unat r" "unat r \<le> 2 ^ 30"
    by (rule p2_small [OF ok, of TMIN_SET_STEPS]) (simp_all add: TMIN_SET_STEPS_def f)
  let ?l = "if r < TMIN_SET_MIN_SIZE then TMIN_SET_MIN_SIZE else r"
  have l: "1 \<le> unat ?l" "unat ?l \<le> 2 ^ 30" using r by (simp_all add: TMIN_SET_MIN_SIZE_def)
  have "ends (andthen (norm_loop w ?l 0 ?s1) (passes w)) (stop_ok G)
    (\<lambda>t. good (settings s) G t \<and> length (input t) \<le> length (in_data s) \<and> all_needed R (input t))"
  proof (rule ends_andthen [OF norm_loop_ends [OF assms(1) g l]])
    fix t assume t: "good (settings s) G t \<and> progress ?s1 t"
    then have tl: "in_len t \<le> in_len s" and gt: "good (settings s) G t" by (simp_all add: progress_def f)
    show "ends (passes w t) (stop_ok G)
        (\<lambda>t. good (settings s) G t \<and> length (input t) \<le> length (in_data s) \<and> all_needed R (input t))"
    proof (rule ends_weaken [OF passes_ends [OF assms(1) gt]])
      fix u assume u: "good (settings s) G u \<and> in_len u \<le> in_len t \<and> all_needed R (input u)"
      then have "length (input u) = unat (in_len u)" by (simp add: good_def length_input)
      then show "good (settings s) G u \<and> length (input u) \<le> length (in_data s) \<and> all_needed R (input u)"
        using u tl assms(3) by (simp add: word_le_nat_alt)
    qed
  qed
  then show ?thesis by (simp only: minimize_def r bind.bind_lunit Let_def)
qed

text \<open>Two runs that \<^verbatim>\<open>afl-tmin\<close> takes for the same behaviour.\<close>

definition same_behaviour :: "'a tmin_state_scheme \<Rightarrow> tool_report \<Rightarrow> tool_report \<Rightarrow> bool" where
  "same_behaviour s r0 r =
     (\<not> t_timed_out r \<and> crashes s r = crashes s r0 \<and>
      (crashes s r0 \<and> \<not> exact_mode s \<or> map_cksum s r = map_cksum s r0))"

lemma crashes_cong: "exit_crash t = exit_crash s \<Longrightarrow> crashes t r = crashes s r"
  unfolding crashes_def by (simp only:)

lemma map_cksum_cong:
  "edges_only t = edges_only s \<Longrightarrow> mask_bitmap t = mask_bitmap s \<Longrightarrow> length (trace_bits t) = length (trace_bits s) \<Longrightarrow>
   map_cksum t r = map_cksum s r"
  unfolding map_cksum_def final_map_def by (simp only:)

text \<open>The first run fixes what the later ones are compared with.\<close>

definition first_run_done :: "tmin_state \<Rightarrow> tool_report \<Rightarrow> tmin_state \<Rightarrow> bool" where
  "first_run_done s r t \<longleftrightarrow> in_data t = in_data s \<and> in_len t = in_len s \<and> child_timed_out t = t_timed_out r \<and>
     edges_only t = edges_only s \<and> mask_bitmap t = mask_bitmap s \<and> exit_crash t = exit_crash s \<and>
     exact_mode t = exact_mode s \<and> length (trace_bits t) = length (trace_bits s) \<and>
     (\<not> t_timed_out r \<longrightarrow> crash_mode t = crashes s r \<and> (crashes s r \<and> \<not> exact_mode s \<or> orig_cksum t = map_cksum s r))"

lemma first_run_ends:
  fixes s :: tmin_state
  assumes "unat (in_len s) = length (in_data s)" and "\<not> crash_mode s"
  shows "ends (tmin_run_target w (in_data s) (in_len s) True s) (stop_ok (\<lambda>out. out = in_data s))
    (\<lambda>(res, t). first_run_done s (x_run w (total_execs s) (in_data s)) t)"
proof -
  let ?d = "in_data s"
  let ?r = "x_run w (total_execs s) ?d"
  have d: "slice ?d 0 (unat (in_len s)) = Some ?d" using assms(1) by (simp add: slice_def)
  show ?thesis
  proof (cases "t_created ?r \<and> t_forked ?r")
    case False
    then show ?thesis by (auto simp: tmin_run_target_def d Let_def)
  next
    case True
    show ?thesis
    proof (cases "t_wait ?r")
      case None
      then show ?thesis using True by (simp add: tmin_run_target_def d Let_def)
    next
      case (Some status)
      let ?s1 = "s\<lparr>prog_in := ?d, child_timed_out := t_timed_out ?r, stop_soon := (stop_soon s \<or> t_stop ?r),
        trace_bits := final_map s ?r, total_execs := total_execs s + 1\<rparr>"
      have run: "tmin_run_target w ?d (in_len s) True s =
          (if (le_word (take 4 (shm (length (trace_bits s)) (t_map ?r))) :: u32) = EXEC_FAIL_SIG
           then Some (Inl (TMIN_FATAL ''Unable to execute''))
           else if stop_soon s \<or> t_stop ?r
           then Some (Inl (if x_out w then TMIN_STOPPED ?d else TMIN_PFATAL ''Unable to create''))
           else if t_timed_out ?r then Some (Inr (False, ?s1\<lparr>missed_hangs := missed_hangs s + 1\<rparr>))
           else Some (Inr (tmin_verdict True status ?s1)))"
        using True Some d by (simp add: tmin_run_target_def final_map_def Let_def)
      have l: "length (final_map s ?r) = length (trace_bits s)" by (simp add: final_map_def)
      have c: "crashes s ?r = tmin_crashed (exit_crash s) status" using Some by (simp add: crashes_def)
      have "first_run_done s ?r (snd (tmin_verdict True status ?s1))" if "\<not> t_timed_out ?r"
        using that assms(2) by (auto simp: first_run_done_def tmin_verdict_def Let_def c l map_cksum_def)
      moreover have "first_run_done s ?r (?s1\<lparr>missed_hangs := missed_hangs s + 1\<rparr>)" if "t_timed_out ?r"
        using that l by (simp add: first_run_done_def)
      ultimately show ?thesis unfolding run by (auto split: prod.split)
    qed
  qed
qed

lemma accepted_first_run:
  assumes "first_run_done s r0 t" and "\<not> t_timed_out r0"
  shows "accepted t r = same_behaviour s r0 r"
proof -
  have "crashes t q = crashes s q" for q
    using assms(1) unfolding first_run_done_def by (intro crashes_cong) (elim conjE)
  moreover have "map_cksum t q = map_cksum s q" for q
    using assms(1) unfolding first_run_done_def by (elim conjE) (rule map_cksum_cong)
  ultimately show ?thesis using assms unfolding accepted_def same_behaviour_def first_run_done_def by auto
qed

lemma tmin_main_ends:
  assumes det: "\<And>n d. x_run w n d = x_run w 0 d" and "\<not> crash_mode s"
  shows "ends (tmin_main w junk contents s)
     (stop_ok (\<lambda>out. \<exists>d. contents = Some d \<and> (out = d \<or> same_behaviour s (x_run w 0 d) (x_run w 0 out))))
     (\<lambda>out. \<exists>d. contents = Some d \<and> length out \<le> length d \<and> same_behaviour s (x_run w 0 d) (x_run w 0 out) \<and>
        (\<forall>k<length out. \<not> same_behaviour s (x_run w 0 d) (x_run w 0 (rem_block k 1 out))))"
proof (cases "\<exists>d. contents = Some d \<and> d \<noteq> [] \<and> length d < TMIN_MAX_FILE")
  case False
  then show ?thesis by (auto simp: tmin_main_def read_initial_file_def split: option.split)
next
  case True
  then obtain d where d: "contents = Some d" "d \<noteq> []" "length d < TMIN_MAX_FILE" by blast
  let ?s1 = "s\<lparr>in_data := d, in_len := of_nat (length d)\<rparr>"
  let ?r0 = "x_run w 0 d"
  let ?G = "\<lambda>out. same_behaviour s ?r0 (x_run w 0 out)"
  let ?E = "stop_ok (\<lambda>out. \<exists>d. contents = Some d \<and> (out = d \<or> same_behaviour s (x_run w 0 d) (x_run w 0 out)))"
  let ?Q = "\<lambda>out. \<exists>d. contents = Some d \<and> length out \<le> length d \<and> same_behaviour s (x_run w 0 d) (x_run w 0 out) \<and>
        (\<forall>k<length out. \<not> same_behaviour s (x_run w 0 d) (x_run w 0 (rem_block k 1 out)))"
  have len: "unat (in_len ?s1) = length (in_data ?s1)"
    using d(3) by (simp add: TMIN_MAX_FILE_def unsigned_of_nat take_bit_nat_eq_self)
  have rd: "read_initial_file contents s = Inr ?s1" using d by (simp add: read_initial_file_def not_le [symmetric])
  have "ends (andthen (tmin_run_target w (in_data ?s1) (in_len ?s1) True ?s1) (\<lambda>(res, s2).
       if child_timed_out s2 then Some (Inl (TMIN_FATAL ''Target binary times out (adjusting -t may help).''))
       else if \<not> crash_mode s2 \<and> \<not> anything_set s2 then Some (Inl (TMIN_FATAL ''No instrumentation detected.''))
       else andthen (minimize w junk s2) (\<lambda>s3. do {
         out \<leftarrow> slice (in_data s3) 0 (unat (in_len s3));
         Some (if x_out w then Inr out else Inl (TMIN_PFATAL ''Unable to create'')) }))) ?E ?Q"
  proof (rule ends_andthen)
    show "ends (tmin_run_target w (in_data ?s1) (in_len ?s1) True ?s1) ?E
        (\<lambda>(res, t). first_run_done ?s1 (x_run w (total_execs ?s1) (in_data ?s1)) t)"
      by (rule ends_weaken [OF first_run_ends [OF len]]) (use assms(2) d(1) in \<open>auto simp: stop_ok_def split: tmin_end.splits\<close>)
  next
    fix x :: "bool \<times> tmin_state"
    obtain res t where x: "x = (res, t)" by (cases x)
    assume "case x of (res, t) \<Rightarrow> first_run_done ?s1 (x_run w (total_execs ?s1) (in_data ?s1)) t"
    then have t: "first_run_done ?s1 ?r0 t" using x det [of "total_execs s" d] by simp
    then have td: "in_data t = d" "unat (in_len t) = length (in_data t)" using len by (simp_all add: first_run_done_def)
    have main: "ends (andthen (minimize w junk t) (\<lambda>s3. do {
         out \<leftarrow> slice (in_data s3) 0 (unat (in_len s3));
         Some (if x_out w then Inr out else Inl (TMIN_PFATAL ''Unable to create'')) })) ?E ?Q"
      if alive: "\<not> child_timed_out t"
    proof (rule ends_andthen)
      have nt: "\<not> t_timed_out ?r0" using alive t by (simp add: first_run_done_def)
      have sb: "same_behaviour ?s1 = same_behaviour s"
        by (intro ext) (simp add: same_behaviour_def crashes_cong [of ?s1 s] map_cksum_cong [of ?s1 s])
      have acc: "accepted t r = same_behaviour s ?r0 r" for r using accepted_first_run [OF t nt] sb by simp
      have j: "judges w (settings t) ?G (\<lambda>e. \<not> ?G e)"
        unfolding judges_def
      proof (intro allI impI)
        fix m :: minimizer and n e assume "settings m = settings t"
        then have "accepted m (x_run w n e) = ?G e" using accepted_settings [of m t] acc det [of n e] by simp
        then show "if accepted m (x_run w n e) then ?G e else \<not> ?G e" by simp
      qed
      have "?G (in_data t)" using nt td(1) by (simp add: same_behaviour_def)
      then show "ends (minimize w junk t) ?E
          (\<lambda>u. good (settings t) ?G u \<and> length (input u) \<le> length (in_data t) \<and> all_needed (\<lambda>e. \<not> ?G e) (input u))"
        using d(1,3) td by (intro ends_weaken [OF minimize_ends [OF j]]) (auto simp: stop_ok_def split: tmin_end.splits)
    next
      fix u assume u: "good (settings t) ?G u \<and> length (input u) \<le> length (in_data t) \<and> all_needed (\<lambda>e. \<not> ?G e) (input u)"
      then have "slice (in_data u) 0 (unat (in_len u)) = Some (input u)"
        by (simp add: slice_def input_def good_def bufs_ok_def)
      then show "ends (do {
         out \<leftarrow> slice (in_data u) 0 (unat (in_len u));
         Some (if x_out w then Inr out else Inl (TMIN_PFATAL ''Unable to create'')) }) ?E ?Q"
        using u td(1) d(1) by (simp add: good_def)
    qed
    show "ends (case x of (res, s2) \<Rightarrow>
       if child_timed_out s2 then Some (Inl (TMIN_FATAL ''Target binary times out (adjusting -t may help).''))
       else if \<not> crash_mode s2 \<and> \<not> anything_set s2 then Some (Inl (TMIN_FATAL ''No instrumentation detected.''))
       else andthen (minimize w junk s2) (\<lambda>s3. do {
         out \<leftarrow> slice (in_data s3) 0 (unat (in_len s3));
         Some (if x_out w then Inr out else Inl (TMIN_PFATAL ''Unable to create'')) })) ?E ?Q"
      unfolding x prod.case
      by (intro ends_if) (simp, simp, rule main)
  qed
  then show ?thesis by (simp only: tmin_main_def rd andthen_simps)
qed

section \<open>The properties\<close>

text \<open>
  C26: however the target behaves, even differently each time, \<^verbatim>\<open>minimize\<close> comes to an end and never reads or
  writes outside its buffers; what it leaves, or writes when the user stops it, is the input as it
  was or an input with which a run has just been accepted, and it is not longer than before.
\<close>

theorem minimize_returns:
  assumes "unat (in_len s) = length (in_data s)" and "length (in_data s) < TMIN_MAX_FILE"
  shows "ends (minimize w junk s)
    (stop_ok (\<lambda>out. out = in_data s \<or> (\<exists>n. accepted s (x_run w n out))))
    (\<lambda>t. length (input t) \<le> length (in_data s) \<and> (input t = in_data s \<or> (\<exists>n. accepted s (x_run w n (input t)))))"
proof -
  let ?G = "\<lambda>out. out = in_data s \<or> (\<exists>n. accepted s (x_run w n out))"
  have "judges w (settings s) ?G (\<lambda>_. True)"
    unfolding judges_def using accepted_settings by metis
  then show ?thesis by (rule ends_weaken [OF minimize_ends]) (use assms in \<open>auto simp: good_def\<close>)
qed

text \<open>
  C25: when the target behaves the same way each time, the file that \<^verbatim>\<open>afl-tmin\<close> writes makes the target
  behave as the original file did (the same kind of end and, unless any crash will do, the same trace
  checksum), it is not longer, and it is minimal: without any one of its bytes the behaviour is another.
  A file written because the user stopped the tool behaves like the original, too.
\<close>

theorem tmin_result_minimal:
  assumes "\<And>n d. x_run w n d = x_run w 0 d" and "\<not> crash_mode s"
  shows "ends (tmin_main w junk contents s)
     (stop_ok (\<lambda>out. \<exists>d. contents = Some d \<and> (out = d \<or> same_behaviour s (x_run w 0 d) (x_run w 0 out))))
     (\<lambda>out. \<exists>d. contents = Some d \<and> length out \<le> length d \<and> same_behaviour s (x_run w 0 d) (x_run w 0 out) \<and>
        (\<forall>k<length out. \<not> same_behaviour s (x_run w 0 d) (x_run w 0 (rem_block k 1 out))))"
  by (rule tmin_main_ends [OF assms])

text \<open>
  The passes over machine words do what they say for each byte: the mask clears the bits that are set in
  it, and \<^verbatim>\<open>anything_set\<close> tells whether a byte of the trace is not zero.
\<close>

theorem tmin_maps_bytewise:
  assumes "length (trace_bits s) = 4 * i" and "length m = 4 * i"
  shows "apply_mask (trace_bits s) (Some m) = map2 (\<lambda>x y. x AND NOT y) (trace_bits s) m \<and>
    (anything_set s \<longleftrightarrow> (\<exists>b \<in> set (trace_bits s). b \<noteq> 0))"
  using assms by (simp add: apply_mask_def mask_loop_bytes anything_set_def anything_set_bytes)

section \<open>Examples\<close>

text \<open>A target that crashes when it finds the byte \<open>X\<close>, and a minimizer for it with a small map.\<close>

definition find_x :: tmin_world where
  "find_x = \<lparr>x_run = (\<lambda>n d. \<lparr>t_created = True, t_forked = True, t_wait = Some (if 0x58 \<in> set d then Signaled 11 else Exited 0),
      t_map = [1, 9], t_timed_out = False, t_stop = False\<rparr>), x_out = True\<rparr>"

definition demo_tmin :: tmin_state where
  "demo_tmin = \<lparr>in_data = [0x41, 0x58, 0x42], in_len = 3, orig_cksum = 0, total_execs = 0, missed_hangs = 0, missed_crashes = 0,
     missed_paths = 0, trace_bits = replicate 8 0, mask_bitmap = None, crash_mode = False, exit_crash = False,
     edges_only = False, exact_mode = False, stop_soon = False, child_timed_out = False, prog_in = []\<rparr>"

lemma find_x_behaviour:
  "same_behaviour demo_tmin (x_run find_x 0 [0x41, 0x58, 0x42]) (x_run find_x 0 out) \<longleftrightarrow> 0x58 \<in> set out"
  by (simp add: same_behaviour_def crashes_def find_x_def demo_tmin_def MSAN_ERROR_def)

theorem minimize_returns_witness:
  "\<exists>r. minimize find_x (\<lambda>_. 0) demo_tmin = Some r"
  using minimize_returns [of demo_tmin find_x "\<lambda>_. 0"]
  by (cases "minimize find_x (\<lambda>_. 0) demo_tmin") (simp_all add: demo_tmin_def TMIN_MAX_FILE_def)

theorem tmin_result_minimal_witness:
  "ends (tmin_main find_x (\<lambda>_. 0) (Some [0x41, 0x58, 0x42]) demo_tmin)
     (\<lambda>e. case e of TMIN_STOPPED out \<Rightarrow> 0x58 \<in> set out | _ \<Rightarrow> True) (\<lambda>out. out = [0x58])"
proof -
  have "x_run find_x n d = x_run find_x 0 d" for n d by (simp add: find_x_def)
  moreover have "\<not> crash_mode demo_tmin" by (simp add: demo_tmin_def)
  ultimately have e: "ends (tmin_main find_x (\<lambda>_. 0) (Some [0x41, 0x58, 0x42]) demo_tmin)
      (stop_ok (\<lambda>out. \<exists>d. Some [0x41, 0x58, 0x42] = Some d \<and>
         (out = d \<or> same_behaviour demo_tmin (x_run find_x 0 d) (x_run find_x 0 out))))
      (\<lambda>out. \<exists>d. Some [0x41, 0x58, 0x42] = Some d \<and> length out \<le> length d \<and>
         same_behaviour demo_tmin (x_run find_x 0 d) (x_run find_x 0 out) \<and>
         (\<forall>k<length out. \<not> same_behaviour demo_tmin (x_run find_x 0 d) (x_run find_x 0 (rem_block k 1 out))))"
    by (rule tmin_result_minimal)
  have one: "out = [0x58]" if x: "0x58 \<in> set out" and min: "\<forall>k<length out. 0x58 \<notin> set (rem_block k 1 out)" for out :: "u8 list"
  proof -
    obtain a b where ab: "out = a @ 0x58 # b" using x by (meson split_list)
    have "a = []" using min ab by (cases a) (auto simp: rem_block_def dest: spec [of _ 0])
    moreover have "b = []"
      using min ab \<open>a = []\<close> by (cases b) (auto simp: rem_block_def dest: spec [of _ 1])
    ultimately show ?thesis using ab by simp
  qed
  show ?thesis
    by (rule ends_weaken [OF e]) (auto simp: find_x_behaviour stop_ok_def one split: tmin_end.splits)
qed

theorem tmin_maps_bytewise_witness:
  "apply_mask (trace_bits (demo_tmin\<lparr>trace_bits := [1, 3, 0, 9]\<rparr>)) (Some [1, 1, 0, 8]) = [0, 2, 0, 1]"
proof -
  have "length (trace_bits (demo_tmin\<lparr>trace_bits := [1, 3, 0, 9]\<rparr>)) = 4 * 1" "length [1, 1, 0, 8 :: u8] = 4 * 1" by simp_all
  note tmin_maps_bytewise [OF this]
  then show ?thesis by simp
qed

end
