(* ===== verification/Afl_Analyze.thy ===== *)
theory Afl_Analyze
  imports Afl_Tools Afl_Similar
begin

text \<open>
  The file format analyzer \<^verbatim>\<open>afl-analyze.c\<close>: each byte of the input is changed in four ways, the
  reactions of the target are classified, and stretches of bytes that react together are reported.
\<close>

section \<open>State and runs\<close>

text \<open>The globals that matter here; \<open>b_data\<close> is a local of \<^verbatim>\<open>analyze\<close>.\<close>

record analyzer =
  in_data :: "u8 list"
  in_len :: u32
  orig_cksum :: u32
  total_execs :: u32
  exec_hangs :: u32
  trace_bits :: "u8 list"
  edges_only :: bool
  stop_soon :: bool
  child_timed_out :: bool

datatype analyze_end = AN_FATAL string | AN_PFATAL string | AN_ABORTED

type_synonym an_world = "u32 \<Rightarrow> u8 list \<Rightarrow> tool_report"

definition RESP_NONE :: u8 where "RESP_NONE = 0x00"
definition RESP_MINOR :: u8 where "RESP_MINOR = 0x01"
definition RESP_VARIABLE :: u8 where "RESP_VARIABLE = 0x02"
definition RESP_FIXED :: u8 where "RESP_FIXED = 0x03"
definition RESP_LEN :: u8 where "RESP_LEN = 0x04"
definition RESP_CKSUM :: u8 where "RESP_CKSUM = 0x05"
definition RESP_SUSPECT :: u8 where "RESP_SUSPECT = 0x06"

text \<open>Any way to end but a plain exit with code 0.\<close>

fun an_failed :: "wait_status \<Rightarrow> bool" where
  "an_failed (Signaled sig) = True"
| "an_failed (Exited code) = (code = MSAN_ERROR \<or> code \<noteq> 0)"
| "an_failed (Stopped sig) = False"

definition an_cksum :: "u8 list \<Rightarrow> wait_status \<Rightarrow> u32" where
  "an_cksum tb status =
     (let c = hash32 tb (of_nat (length tb)) HASH_CONST in if an_failed status then c XOR 0xffffffff else c)"

definition an_run_target ::
  "an_world \<Rightarrow> bool \<Rightarrow> analyzer \<Rightarrow> (analyze_end + u32 \<times> analyzer) option" where
  "an_run_target w first_run s =
     do {
       d \<leftarrow> slice (in_data s) 0 (unat (in_len s));
       let r = w (total_execs s) d;
       if \<not> t_created r then Some (Inl (AN_PFATAL ''Unable to create''))
       else if \<not> t_forked r then Some (Inl (AN_PFATAL ''fork() failed''))
       else case t_wait r of
         None \<Rightarrow> Some (Inl (AN_FATAL ''waitpid() failed''))
       | Some status \<Rightarrow>
           let tb = shm (length (trace_bits s)) (t_map r) in
           if (le_word (take 4 tb) :: u32) = EXEC_FAIL_SIG then Some (Inl (AN_FATAL ''Unable to execute''))
           else
             let s1 = s\<lparr>child_timed_out := t_timed_out r, stop_soon := (stop_soon s \<or> t_stop r),
                        trace_bits := slow_classify_counts (edges_only s) tb, total_execs := total_execs s + 1\<rparr>
             in if stop_soon s1 then Some (Inl AN_ABORTED)
                else if child_timed_out s1 then Some (Inr (0, s1\<lparr>exec_hangs := exec_hangs s1 + 1\<rparr>))
                else
                  let cksum = an_cksum (trace_bits s1) status
                  in Some (Inr (cksum, if first_run then s1\<lparr>orig_cksum := cksum\<rparr> else s1)) }"

section \<open>Walking over the bytes\<close>

text \<open>One change of byte \<open>i\<close> and the run after it.\<close>

definition poke :: "an_world \<Rightarrow> nat \<Rightarrow> (u8 \<Rightarrow> u8) \<Rightarrow> analyzer \<Rightarrow> (analyze_end + u32 \<times> analyzer) option" where
  "poke w i f s =
     do { b \<leftarrow> get_at (in_data s) i;
          d \<leftarrow> set_at (in_data s) i (f b);
          an_run_target w False (s\<lparr>in_data := d\<rparr>) }"

text \<open>What one byte's four checksums say.\<close>

definition classify_byte :: "u32 \<Rightarrow> u32 \<Rightarrow> u32 \<Rightarrow> u32 \<Rightarrow> u32 \<Rightarrow> u8" where
  "classify_byte orig xor_ff xor_01 sub_10 add_10 =
     (let xff_orig = (xor_ff = orig); x01_orig = (xor_01 = orig); s10_orig = (sub_10 = orig); a10_orig = (add_10 = orig)
      in if xff_orig \<and> x01_orig \<and> s10_orig \<and> a10_orig then RESP_NONE
         else if xff_orig \<or> x01_orig \<or> s10_orig \<or> a10_orig then RESP_MINOR
         else if xor_ff = xor_01 \<and> xor_ff = sub_10 \<and> xor_ff = add_10 then RESP_FIXED
         else RESP_VARIABLE)"

text \<open>The locals of the loop: \<^verbatim>\<open>boring_len\<close>, \<^verbatim>\<open>prev_xff\<close>, \<^verbatim>\<open>prev_x01\<close>, \<^verbatim>\<open>prev_s10\<close>, \<^verbatim>\<open>prev_a10\<close>, \<^verbatim>\<open>seq_byte\<close>.\<close>

record an_locals =
  boring_len :: u32
  prev_xff :: u32
  prev_x01 :: u32
  prev_s10 :: u32
  prev_a10 :: u32
  seq_byte :: u8
  b_data :: "u8 list"

text \<open>The byte is put back, and its entry made, from the checksums of the four runs.\<close>

definition finish_byte ::
  "nat \<Rightarrow> an_locals \<Rightarrow> u32 \<Rightarrow> u32 \<Rightarrow> u32 \<Rightarrow> u32 \<Rightarrow> analyzer \<Rightarrow> (analyze_end + an_locals \<times> analyzer) option" where
  "finish_byte i l xor_ff xor_01 sub_10 add_10 s =
     do { b \<leftarrow> get_at (in_data s) i;
          d \<leftarrow> set_at (in_data s) i (b - 0x10);
          let c = classify_byte (orig_cksum s) xor_ff xor_01 sub_10 add_10;
          let sq = (if prev_xff l \<noteq> xor_ff \<and> prev_x01 l \<noteq> xor_01 \<and> prev_s10 l \<noteq> sub_10 \<and> prev_a10 l \<noteq> add_10
                    then seq_byte l XOR 0x80 else seq_byte l);
          bd \<leftarrow> set_at (b_data l) i (c OR sq);
          Some (Inr (l\<lparr>boring_len := (if c = RESP_NONE \<or> c = RESP_MINOR then boring_len l + 1 else boring_len l),
                       prev_xff := xor_ff, prev_x01 := xor_01, prev_s10 := sub_10, prev_a10 := add_10,
                       seq_byte := sq, b_data := bd\<rparr>, s\<lparr>in_data := d\<rparr>)) }"

definition analyze_byte ::
  "an_world \<Rightarrow> nat \<Rightarrow> an_locals \<Rightarrow> analyzer \<Rightarrow> (analyze_end + an_locals \<times> analyzer) option" where
  "analyze_byte w i l s =
     andthen (poke w i (\<lambda>b. b XOR 0xff) s) (\<lambda>(xor_ff, s1).
     andthen (poke w i (\<lambda>b. b XOR 0xfe) s1) (\<lambda>(xor_01, s2).
     andthen (poke w i (\<lambda>b. (b XOR 0x01) - 0x10) s2) (\<lambda>(sub_10, s3).
     andthen (poke w i (\<lambda>b. b + 0x20) s3) (\<lambda>(add_10, s4).
       finish_byte i l xor_ff xor_01 sub_10 add_10 s4))))"

fun analyze_loop ::
  "an_world \<Rightarrow> nat list \<Rightarrow> an_locals \<Rightarrow> analyzer \<Rightarrow> (analyze_end + an_locals \<times> analyzer) option" where
  "analyze_loop w [] l s = Some (Inr (l, s))"
| "analyze_loop w (i # is) l s = andthen (analyze_byte w i l s) (\<lambda>(l1, s1). analyze_loop w is l1 s1)"

section \<open>The report\<close>

text \<open>The run of bytes that starts at \<open>i\<close>: how far it goes and the largest code in it.\<close>

function look_ahead :: "u8 list \<Rightarrow> nat \<Rightarrow> nat \<Rightarrow> nat \<Rightarrow> u8 \<Rightarrow> (nat \<times> u8) option" where
  "look_ahead bd len i rlen rtype =
     (if i + rlen < len
      then do { a \<leftarrow> get_at bd i; b \<leftarrow> get_at bd (i + rlen);
                if drop_bit 7 a = drop_bit 7 b
                then look_ahead bd len i (rlen + 1) (if rtype < b AND 0x0f then b AND 0x0f else rtype)
                else Some (rlen, rtype) }
      else Some (rlen, rtype))"
  by pat_completeness auto
termination by (relation "measure (\<lambda>(bd, len, i, rlen, rtype). len - (i + rlen))") auto

text \<open>The further look at a stretch of fixed reactions.\<close>

definition refine_fixed :: "u8 list \<Rightarrow> u32 \<Rightarrow> nat \<Rightarrow> nat \<Rightarrow> u8 option" where
  "refine_fixed d len i rlen =
     (if rlen = 2
      then do { v \<leftarrow> load 2 d i; a \<leftarrow> get_at d i; b \<leftarrow> get_at d (i + 1);
                Some (if (v :: u16) \<noteq> 0 \<and> (ucast v \<le> len \<or> ucast (SWAP16 v) \<le> len) then RESP_LEN
                      else if v \<noteq> 0 \<and> \<bar>uint a - uint b\<bar> > 32 then RESP_CKSUM else RESP_FIXED) }
      else if rlen = 4
      then do { v \<leftarrow> load 4 d i; a \<leftarrow> get_at d i; b \<leftarrow> get_at d (i + 1); c \<leftarrow> get_at d (i + 2); e \<leftarrow> get_at d (i + 3);
                Some (if (v :: u32) \<noteq> 0 \<and> (v \<le> len \<or> SWAP32 v \<le> len) then RESP_LEN
                      else if v \<noteq> 0 \<and> (drop_bit 7 a \<noteq> drop_bit 7 b \<or> drop_bit 7 a \<noteq> drop_bit 7 c \<or> drop_bit 7 a \<noteq> drop_bit 7 e)
                      then RESP_CKSUM else RESP_FIXED) }
      else Some (if rlen < MAX_AUTO_EXTRA then RESP_FIXED else RESP_SUSPECT))"

lemma look_ahead_ge: "look_ahead bd len i rlen rtype = Some (n, t) \<Longrightarrow> rlen \<le> n"
proof (induction bd len i rlen rtype rule: look_ahead.induct)
  case (1 bd len i rlen rtype)
  show ?case
  proof (cases "i + rlen < len")
    case True
    then obtain a b where "get_at bd i = Some a" "get_at bd (i + rlen) = Some b"
      using 1(2) by (auto simp: look_ahead.simps [of bd len i rlen rtype] bind_eq_Some_conv)
    then show ?thesis using True 1 by (auto simp: look_ahead.simps [of bd len i rlen rtype] Suc_leD split: if_splits)
  next
    case False
    then show ?thesis using 1(2) by (simp add: look_ahead.simps [of bd len i rlen rtype])
  qed
qed

declare look_ahead.simps [simp del]

text \<open>Offset, length and kind of each reported stretch.\<close>

function dump_hex :: "u8 list \<Rightarrow> u32 \<Rightarrow> u8 list \<Rightarrow> nat \<Rightarrow> (nat \<times> nat \<times> u8) list option" where
  "dump_hex d len bd i =
     (if i < unat len
      then do { b \<leftarrow> get_at bd i;
                (rlen, rtype) \<leftarrow> look_ahead bd (unat len) i 1 (b AND 0x0f);
                kind \<leftarrow> (if rtype = RESP_FIXED then refine_fixed d len i rlen else Some rtype);
                rest \<leftarrow> dump_hex d len bd (i + rlen);
                Some ((i, rlen, kind) # rest) }
      else Some [])"
  by pat_completeness auto
termination by (relation "measure (\<lambda>(d, len, bd, i). unat len - i)") (auto dest: look_ahead_ge)

definition analyze :: "an_world \<Rightarrow> analyzer \<Rightarrow> (analyze_end + (nat \<times> nat \<times> u8) list \<times> an_locals \<times> analyzer) option" where
  "analyze w s =
     (let n = unat (in_len s);
          l = \<lparr>boring_len = 0, prev_xff = 0, prev_x01 = 0, prev_s10 = 0, prev_a10 = 0, seq_byte = 0,
               b_data = (replicate (n + 1) 0)[n := 0xff]\<rparr>
      in andthen (analyze_loop w [0..<n] l s) (\<lambda>(l1, s1).
           do { out \<leftarrow> dump_hex (in_data s1) (in_len s1) (b_data l1) 0; Some (Inr (out, l1, s1)) }))"

definition an_main :: "an_world \<Rightarrow> u8 list option \<Rightarrow> analyzer \<Rightarrow> (analyze_end + (nat \<times> nat \<times> u8) list) option" where
  "an_main w contents s =
     (case contents of
        None \<Rightarrow> Some (Inl (AN_PFATAL ''Unable to open''))
      | Some d \<Rightarrow>
          if d = [] then Some (Inl (AN_FATAL ''Zero-sized input file.''))
          else if length d \<ge> TMIN_MAX_FILE then Some (Inl (AN_FATAL ''Input file is too large''))
          else andthen (an_run_target w True (s\<lparr>in_data := d, in_len := of_nat (length d)\<rparr>)) (\<lambda>(c, s1).
            if child_timed_out s1 then Some (Inl (AN_FATAL ''Target binary times out (adjusting -t may help).''))
            else if \<not> anything_set_loop (length (trace_bits s1) div 4) (trace_bits s1)
            then Some (Inl (AN_FATAL ''No instrumentation detected.''))
            else andthen (analyze w s1) (\<lambda>(out, l, s2). Some (Inr out))))"

section \<open>The stretches of the report\<close>

definition top_bit :: "u8 \<Rightarrow> u8" where "top_bit b = drop_bit 7 b"
definition code :: "u8 \<Rightarrow> u8" where "code b = b AND 0x0f"

text \<open>A stretch: its bytes have the same top bit, the next one another, and \<open>t\<close> is the largest code in it.\<close>

definition stretch :: "u8 list \<Rightarrow> nat \<Rightarrow> nat \<Rightarrow> nat \<Rightarrow> u8 \<Rightarrow> bool" where
  "stretch bd len i n t \<longleftrightarrow> 0 < n \<and> i + n \<le> len \<and> (\<forall>k<n. top_bit (bd ! (i + k)) = top_bit (bd ! i)) \<and>
     (i + n < len \<longrightarrow> top_bit (bd ! (i + n)) \<noteq> top_bit (bd ! i)) \<and>
     (\<forall>k<n. code (bd ! (i + k)) \<le> t) \<and> (\<exists>k<n. code (bd ! (i + k)) = t)"

lemma look_ahead_stretch:
  assumes "i + rlen \<le> len" and "len \<le> length bd" and "0 < rlen"
    and "\<forall>k<rlen. top_bit (bd ! (i + k)) = top_bit (bd ! i)"
    and "\<forall>k<rlen. code (bd ! (i + k)) \<le> rtype" and "\<exists>k<rlen. code (bd ! (i + k)) = rtype"
  shows "\<exists>n t. look_ahead bd len i rlen rtype = Some (n, t) \<and> stretch bd len i n t"
  using assms
proof (induction bd len i rlen rtype rule: look_ahead.induct)
  case (1 bd len i rlen rtype)
  show ?case
  proof (cases "i + rlen < len")
    case False
    then have "stretch bd len i rlen rtype" using 1(2-) by (auto simp: stretch_def)
    then show ?thesis using False by (simp add: look_ahead.simps [of bd len i rlen rtype])
  next
    case True
    let ?a = "bd ! i" and ?b = "bd ! (i + rlen)"
    have g: "get_at bd i = Some ?a" "get_at bd (i + rlen) = Some ?b" using True 1(3) by (simp_all add: get_at_def)
    show ?thesis
    proof (cases "top_bit ?a = top_bit ?b")
      case False
      then have "stretch bd len i rlen rtype" using 1(2-) by (auto simp: stretch_def)
      then show ?thesis using False True g by (simp add: look_ahead.simps [of bd len i rlen rtype] top_bit_def)
    next
      case eq: True
      let ?t = "if rtype < code ?b then code ?b else rtype"
      have all: "\<forall>k<rlen + 1. top_bit (bd ! (i + k)) = top_bit ?a" using 1(5) eq by (auto simp: less_Suc_eq)
      have le: "\<forall>k<rlen + 1. code (bd ! (i + k)) \<le> ?t" using 1(6) by (auto simp: less_Suc_eq)
      have ex: "\<exists>k<rlen + 1. code (bd ! (i + k)) = ?t"
      proof (cases "rtype < code ?b")
        case False
        obtain k where "k < rlen" "code (bd ! (i + k)) = rtype" using 1(7) by blast
        then show ?thesis using False by (intro exI [of _ k]) simp
      qed auto
      have "look_ahead bd len i rlen rtype = look_ahead bd len i (rlen + 1) ?t"
        using True g eq by (simp add: look_ahead.simps [of bd len i rlen rtype] top_bit_def code_def)
      moreover have "\<exists>n t. look_ahead bd len i (rlen + 1) ?t = Some (n, t) \<and> stretch bd len i n t"
        unfolding code_def
      proof (rule 1(1) [OF True g(1,2), unfolded code_def])
        show "drop_bit 7 ?a = drop_bit 7 ?b" using eq by (simp add: top_bit_def)
        show "\<forall>k<rlen + 1. bd ! (i + k) AND 0x0f \<le> (if rtype < ?b AND 0x0f then ?b AND 0x0f else rtype)"
          by (rule le [unfolded code_def])
        show "\<exists>k<rlen + 1. bd ! (i + k) AND 0x0f = (if rtype < ?b AND 0x0f then ?b AND 0x0f else rtype)"
          by (rule ex [unfolded code_def])
        show "\<forall>k<rlen + 1. top_bit (bd ! (i + k)) = top_bit (bd ! i)" by (rule all)
      qed (use True 1(3) in simp_all)
      ultimately show ?thesis by simp
    qed
  qed
qed

lemma refine_fixed_kinds:
  assumes "i + n \<le> length d" and "0 < n"
  shows "\<exists>k. refine_fixed d len i n = Some k \<and> k \<in> {RESP_FIXED, RESP_LEN, RESP_CKSUM, RESP_SUSPECT} \<and>
    (k = RESP_SUSPECT \<longleftrightarrow> MAX_AUTO_EXTRA \<le> n)"
proof -
  have ne: "RESP_FIXED \<noteq> RESP_SUSPECT" "RESP_LEN \<noteq> RESP_SUSPECT" "RESP_CKSUM \<noteq> RESP_SUSPECT"
    by (simp_all add: RESP_FIXED_def RESP_SUSPECT_def RESP_LEN_def RESP_CKSUM_def)
  show ?thesis
  proof (cases "n = 2 \<or> n = 4")
    case True
    then have "load 2 d i \<noteq> None" and "n = 4 \<longrightarrow> load 4 d i \<noteq> None" and "i + 1 < length d" and "n = 4 \<longrightarrow> i + 3 < length d"
      using assms by (auto simp: load_def slice_def)
    moreover have "\<not> MAX_AUTO_EXTRA \<le> n" using True by (auto simp: MAX_AUTO_EXTRA_def)
    ultimately show ?thesis using True ne by (auto simp: refine_fixed_def get_at_def load_def slice_def)
  next
    case False
    then show ?thesis using ne by (auto simp: refine_fixed_def)
  qed
qed

text \<open>The stretches follow each other without a gap, up to the end.\<close>

fun covers :: "nat \<Rightarrow> (nat \<times> nat \<times> u8) list \<Rightarrow> nat \<Rightarrow> bool" where
  "covers i [] len = (i = len)"
| "covers i ((j, n, k) # rs) len = (j = i \<and> 0 < n \<and> covers (i + n) rs len)"

definition reported :: "u8 list \<Rightarrow> nat \<Rightarrow> nat \<times> nat \<times> u8 \<Rightarrow> bool" where
  "reported bd len r = (case r of (i, n, k) \<Rightarrow> \<exists>t. stretch bd len i n t \<and>
     (if t = RESP_FIXED then k \<in> {RESP_FIXED, RESP_LEN, RESP_CKSUM, RESP_SUSPECT} \<and> (k = RESP_SUSPECT \<longleftrightarrow> MAX_AUTO_EXTRA \<le> n)
      else k = t))"

lemma dump_hex_covers:
  assumes "unat len \<le> length bd" and "unat len \<le> length d" and "i \<le> unat len"
  shows "\<exists>rs. dump_hex d len bd i = Some rs \<and> covers i rs (unat len) \<and> (\<forall>r \<in> set rs. reported bd (unat len) r)"
  using assms
proof (induction d len bd i rule: dump_hex.induct)
  case (1 d len bd i)
  show ?case
  proof (cases "i < unat len")
    case False
    then show ?thesis using 1(4) by (simp add: dump_hex.simps [of d len bd i])
  next
    case True
    have g: "get_at bd i = Some (bd ! i)" using True 1(2) by (simp add: get_at_def)
    have "\<exists>n t. look_ahead bd (unat len) i 1 (code (bd ! i)) = Some (n, t) \<and> stretch bd (unat len) i n t"
      by (rule look_ahead_stretch) (use True 1(2) in auto)
    then obtain n t where la: "look_ahead bd (unat len) i 1 (bd ! i AND 0x0f) = Some (n, t)" and st: "stretch bd (unat len) i n t"
      unfolding code_def by blast
    have n: "0 < n" "i + n \<le> unat len" using st by (simp_all add: stretch_def)
    have "\<exists>k. (if t = RESP_FIXED then refine_fixed d len i n else Some t) = Some k \<and> reported bd (unat len) (i, n, k)"
    proof (cases "t = RESP_FIXED")
      case True
      obtain k where "refine_fixed d len i n = Some k" "k \<in> {RESP_FIXED, RESP_LEN, RESP_CKSUM, RESP_SUSPECT}"
        "k = RESP_SUSPECT \<longleftrightarrow> MAX_AUTO_EXTRA \<le> n"
        using refine_fixed_kinds [of i n d len] n 1(3) by auto
      then show ?thesis using True st unfolding reported_def by auto
    next
      case False
      then show ?thesis using st unfolding reported_def by auto
    qed
    then obtain k where k: "(if t = RESP_FIXED then refine_fixed d len i n else Some t) = Some k" "reported bd (unat len) (i, n, k)"
      by blast
    obtain rs where rs: "dump_hex d len bd (i + n) = Some rs" "covers (i + n) rs (unat len)" "\<forall>r \<in> set rs. reported bd (unat len) r"
      using 1(1) [OF True g la refl k(1) 1(2,3)] n by auto
    have "dump_hex d len bd i = Some ((i, n, k) # rs)"
      using True g la k(1) rs(1) by (simp add: dump_hex.simps [of d len bd i])
    then show ?thesis using n rs k by auto
  qed
qed

declare dump_hex.simps [simp del]

section \<open>The reactions\<close>

text \<open>The checksum of a run of a target that behaves the same each time.\<close>

definition reaction :: "an_world \<Rightarrow> analyzer \<Rightarrow> u8 list \<Rightarrow> u32" where
  "reaction w s d =
     (let r = w 0 d in
      if t_timed_out r then 0
      else case t_wait r of None \<Rightarrow> 0
      | Some status \<Rightarrow> an_cksum (slow_classify_counts (edges_only s) (shm (length (trace_bits s)) (t_map r))) status)"

definition same_setup :: "analyzer \<Rightarrow> analyzer \<Rightarrow> bool" where
  "same_setup s t \<longleftrightarrow> in_len t = in_len s \<and> orig_cksum t = orig_cksum s \<and> edges_only t = edges_only s \<and>
     length (trace_bits t) = length (trace_bits s) \<and> length (in_data t) = length (in_data s)"

lemma same_setup_refl [simp]: "same_setup s s"
  by (simp add: same_setup_def)

lemma same_setup_trans: "same_setup s t \<Longrightarrow> same_setup t u \<Longrightarrow> same_setup s u"
  by (simp add: same_setup_def)

lemma reaction_same_setup: "same_setup s t \<Longrightarrow> reaction w t = reaction w s"
  unfolding same_setup_def reaction_def by (intro ext) (elim conjE, simp only:)

lemma an_run_ends:
  assumes det: "\<And>n d. w n d = w 0 d" and "unat (in_len s) = length (in_data s)"
  shows "ends (an_run_target w False s) (\<lambda>_. True)
    (\<lambda>(c, t). c = reaction w s (in_data s) \<and> in_data t = in_data s \<and> same_setup s t)"
proof -
  have d: "slice (in_data s) 0 (unat (in_len s)) = Some (in_data s)" using assms(2) by (simp add: slice_def)
  have r: "w (total_execs s) (in_data s) = w 0 (in_data s)" by (rule det)
  show ?thesis
    by (cases "t_created (w 0 (in_data s)) \<and> t_forked (w 0 (in_data s))"; cases "t_wait (w 0 (in_data s))")
      (auto simp: an_run_target_def d r Let_def reaction_def same_setup_def)
qed

lemma poke_ends:
  assumes det: "\<And>n d. w n d = w 0 d" and "unat (in_len s) = length (in_data s)" and "i < length (in_data s)"
  shows "ends (poke w i f s) (\<lambda>_. True)
    (\<lambda>(c, t). c = reaction w s ((in_data s)[i := f (in_data s ! i)]) \<and> in_data t = (in_data s)[i := f (in_data s ! i)] \<and> same_setup s t)"
proof -
  let ?d = "(in_data s)[i := f (in_data s ! i)]"
  let ?s = "s\<lparr>in_data := ?d\<rparr>"
  have len: "unat (in_len ?s) = length (in_data ?s)" using assms(2) by simp
  have ss: "same_setup s ?s" by (simp add: same_setup_def)
  have "poke w i f s = an_run_target w False ?s" using assms(3) by (simp add: poke_def get_at_def set_at_def)
  then show ?thesis
    using ends_weaken [OF an_run_ends [of w ?s, OF det len]] reaction_same_setup [OF ss] same_setup_trans [OF ss] by fastforce
qed

text \<open>The four changed inputs for one byte.\<close>

definition byte_class :: "an_world \<Rightarrow> analyzer \<Rightarrow> u8 list \<Rightarrow> nat \<Rightarrow> u8" where
  "byte_class w s d i =
     (let b = d ! i in
      classify_byte (orig_cksum s) (reaction w s (d[i := b XOR 0xff])) (reaction w s (d[i := b XOR 0x01]))
        (reaction w s (d[i := b - 0x10])) (reaction w s (d[i := b + 0x10])))"

lemma classify_small: "classify_byte og a b c d \<in> {0, 1, 2, 3}"
  by (simp add: classify_byte_def RESP_NONE_def RESP_MINOR_def RESP_FIXED_def RESP_VARIABLE_def Let_def)

lemma class_bits:
  assumes "c \<in> {0, 1, 2, 3 :: u8}" and "q \<in> {0, 0x80}"
  shows "(c OR q) AND 0x7f = c"
  using assms by auto

lemma there_and_back: "((x :: u8) XOR 0xff) XOR 0xfe = x XOR 1" "(x XOR 1) XOR 1 = x" "x - 0x10 + 0x20 = x + 0x10" "x + 0x10 - 0x10 = x"
proof -
  have "(0xff :: u8) XOR 0xfe = 1" by simp
  then show "(x XOR 0xff) XOR 0xfe = x XOR 1" by (simp only: xor.assoc)
  show "(x XOR 1) XOR 1 = x" by (simp add: xor.assoc)
qed simp_all

lemma poke_then:
  assumes det: "\<And>n d. w n d = w 0 d" and "unat (in_len s) = length (in_data s)" and "i < length (in_data s)"
    and t: "in_data t = (in_data s)[i := x]" "same_setup s t"
    and go_on: "\<And>u. in_data u = (in_data s)[i := f x] \<Longrightarrow> same_setup s u \<Longrightarrow>
      ends (F (reaction w s ((in_data s)[i := f x]), u)) (\<lambda>_. True) Q"
  shows "ends (andthen (poke w i f t) F) (\<lambda>_. True) Q"
proof (rule ends_andthen)
  have "unat (in_len t) = length (in_data t)" "i < length (in_data t)"
    using t assms(2,3) by (simp_all add: same_setup_def)
  from poke_ends [of w t i f, OF det this]
  show "ends (poke w i f t) (\<lambda>_. True)
      (\<lambda>(c, u). c = reaction w s ((in_data s)[i := f x]) \<and> in_data u = (in_data s)[i := f x] \<and> same_setup s u)"
    by (rule ends_weaken)
      (use t assms(3) reaction_same_setup [OF t(2)] same_setup_trans [OF t(2)] in auto)
next
  fix y :: "u32 \<times> analyzer"
  assume "case y of (c, u) \<Rightarrow> c = reaction w s ((in_data s)[i := f x]) \<and> in_data u = (in_data s)[i := f x] \<and> same_setup s u"
  then show "ends (F y) (\<lambda>_. True) Q" using go_on by (cases y) auto
qed

definition byte_done :: "an_world \<Rightarrow> analyzer \<Rightarrow> nat \<Rightarrow> an_locals \<Rightarrow> an_locals \<times> analyzer \<Rightarrow> bool" where
  "byte_done w s i l r = (case r of (m, t) \<Rightarrow>
     in_data t = in_data s \<and> same_setup s t \<and> seq_byte m \<in> {0, 0x80} \<and> length (b_data m) = length (b_data l) \<and>
     (\<forall>k<length (in_data s). b_data m ! k AND 0x7f = (if k = i then byte_class w s (in_data s) i else b_data l ! k AND 0x7f)))"

lemma analyze_byte_ends:
  assumes det: "\<And>n d. w n d = w 0 d" and len: "unat (in_len s) = length (in_data s)" and i: "i < length (in_data s)"
    and bd: "length (in_data s) < length (b_data l)" and sq: "seq_byte l \<in> {0, 0x80}"
  shows "ends (analyze_byte w i l s) (\<lambda>_. True) (byte_done w s i l)"
proof -
  let ?b = "in_data s ! i"
  have fin: "ends (finish_byte i l (reaction w s ((in_data s)[i := ?b XOR 0xff])) (reaction w s ((in_data s)[i := ?b XOR 1]))
        (reaction w s ((in_data s)[i := ?b - 0x10])) (reaction w s ((in_data s)[i := ?b + 0x10])) u) (\<lambda>_. True) (byte_done w s i l)"
    if u: "in_data u = (in_data s)[i := ?b + 0x10]" "same_setup s u" for u
  proof -
    have "same_setup s (u\<lparr>in_data := in_data s\<rparr>)" "orig_cksum u = orig_cksum s" using u(2) by (simp_all add: same_setup_def)
    moreover have "(c OR q) AND 0x7f = c" if "c = classify_byte og x y z v" "q \<in> {0, 0x80}" for c q og x y z v
      using class_bits [OF classify_small that(2)] that(1) by simp
    moreover have "classify_byte og x y z v AND 0x7f = classify_byte og x y z v" for og x y z v
      using class_bits [OF classify_small, of 0 og x y z v] by simp
    ultimately show ?thesis
      using u i bd sq by (auto simp: finish_byte_def get_at_def set_at_def Let_def byte_done_def byte_class_def nth_list_update)
  qed
  show ?thesis
    unfolding analyze_byte_def
    apply (rule poke_then [where w = w and s = s and i = i and t = s and x = ?b, OF det len i])
      apply simp
     apply simp
    apply (unfold prod.case)
    apply (rule poke_then [where w = w and s = s and i = i, OF det len i], assumption, assumption, unfold prod.case)
    apply (rule poke_then [where w = w and s = s and i = i, OF det len i], assumption, assumption, unfold prod.case)
    apply (rule poke_then [where w = w and s = s and i = i, OF det len i], assumption, assumption, unfold prod.case)
    apply (unfold there_and_back)
    apply (rule fin)
     apply assumption+
    done
qed

lemma analyze_loop_ends:
  assumes det: "\<And>n d. w n d = w 0 d" and len: "unat (in_len s) = length (in_data s)" and "\<forall>i \<in> set is. i < length (in_data s)"
    and bd: "length (in_data s) < length (b_data l)" and sq: "seq_byte l \<in> {0, 0x80}"
    and t: "in_data t = in_data s" "same_setup s t"
  shows "ends (analyze_loop w is l t) (\<lambda>_. True) (\<lambda>(m, u). in_data u = in_data s \<and> same_setup s u \<and>
     length (b_data m) = length (b_data l) \<and>
     (\<forall>k<length (in_data s). b_data m ! k AND 0x7f = (if k \<in> set is then byte_class w s (in_data s) k else b_data l ! k AND 0x7f)))"
  using assms(3) bd sq t
proof (induction "is" arbitrary: l t)
  case Nil
  then show ?case by simp
next
  case (Cons i "is")
  have cls: "byte_class w t = byte_class w s"
    using reaction_same_setup [OF Cons.prems(5)] Cons.prems(5) by (intro ext) (simp add: byte_class_def same_setup_def Let_def)
  have lt: "unat (in_len t) = length (in_data t)" "i < length (in_data t)" "length (in_data t) < length (b_data l)"
    using Cons.prems len by (simp_all add: same_setup_def)
  have "ends (andthen (analyze_byte w i l t) (\<lambda>(l1, s1). analyze_loop w is l1 s1)) (\<lambda>_. True) (\<lambda>(m, u). in_data u = in_data s \<and>
     same_setup s u \<and> length (b_data m) = length (b_data l) \<and>
     (\<forall>k<length (in_data s). b_data m ! k AND 0x7f = (if k \<in> set (i # is) then byte_class w s (in_data s) k else b_data l ! k AND 0x7f)))"
  proof (rule ends_andthen [OF analyze_byte_ends [where w = w and s = t and i = i, OF det lt Cons.prems(3)]])
    fix x assume "byte_done w t i l x"
    then obtain m u where x: "x = (m, u)" and d: "in_data u = in_data s" "same_setup t u" "seq_byte m \<in> {0, 0x80}"
      "length (b_data m) = length (b_data l)"
      "\<forall>k<length (in_data s). b_data m ! k AND 0x7f = (if k = i then byte_class w s (in_data s) i else b_data l ! k AND 0x7f)"
      unfolding byte_done_def cls using Cons.prems(4) by (cases x) auto
    have "ends (analyze_loop w is m u) (\<lambda>_. True) (\<lambda>(n, v). in_data v = in_data s \<and> same_setup s v \<and>
       length (b_data n) = length (b_data m) \<and>
       (\<forall>k<length (in_data s). b_data n ! k AND 0x7f = (if k \<in> set is then byte_class w s (in_data s) k else b_data m ! k AND 0x7f)))"
      by (rule Cons.IH) (use Cons.prems d same_setup_trans [OF Cons.prems(5) d(2)] in auto)
    then show "ends (case x of (l1, s1) \<Rightarrow> analyze_loop w is l1 s1) (\<lambda>_. True) (\<lambda>(m, u). in_data u = in_data s \<and>
       same_setup s u \<and> length (b_data m) = length (b_data l) \<and>
       (\<forall>k<length (in_data s). b_data m ! k AND 0x7f = (if k \<in> set (i # is) then byte_class w s (in_data s) k else b_data l ! k AND 0x7f)))"
      unfolding x prod.case by (rule ends_weaken) (use d in \<open>auto split: prod.splits\<close>)
  qed
  then show ?case by simp
qed

section \<open>The properties\<close>

text \<open>
  C27: \<^verbatim>\<open>analyze\<close> leaves the input as it found it, and what it notes for a byte is the classification of the
  target's reactions to the four inputs in which only that byte differs: inverted, with its lowest
  bit flipped, and with 16 subtracted and added.
\<close>

theorem analyze_reactions:
  assumes "\<And>n d. w n d = w 0 d" and "unat (in_len s) = length (in_data s)"
  shows "ends (analyze w s) (\<lambda>_. True) (\<lambda>(out, l, t). in_data t = in_data s \<and>
     dump_hex (in_data s) (in_len s) (b_data l) 0 = Some out \<and>
     (\<forall>i<length (in_data s). b_data l ! i AND 0x7f = byte_class w s (in_data s) i))"
proof -
  let ?n = "length (in_data s)"
  define l0 where "l0 = \<lparr>boring_len = 0, prev_xff = 0, prev_x01 = 0, prev_s10 = 0, prev_a10 = 0, seq_byte = 0,
               b_data = (replicate (unat (in_len s) + 1) 0)[unat (in_len s) := 0xff]\<rparr>"
  have l0: "seq_byte l0 \<in> {0, 0x80}" "length (b_data l0) = ?n + 1"
    by (simp_all only: l0_def an_locals.simps length_list_update length_replicate assms(2)) simp
  have "ends (andthen (analyze_loop w [0..<unat (in_len s)] l0 s) (\<lambda>(l1, s1).
           do { out \<leftarrow> dump_hex (in_data s1) (in_len s1) (b_data l1) 0; Some (Inr (out, l1, s1)) })) (\<lambda>_. True)
      (\<lambda>(out, l, t). in_data t = in_data s \<and> dump_hex (in_data s) (in_len s) (b_data l) 0 = Some out \<and>
        (\<forall>i<?n. b_data l ! i AND 0x7f = byte_class w s (in_data s) i))"
  proof (rule ends_andthen [OF analyze_loop_ends [where w = w and s = s, OF assms]])
    fix x :: "an_locals \<times> analyzer"
    obtain m u where x: "x = (m, u)" by (cases x)
    assume "case x of (m, u) \<Rightarrow> in_data u = in_data s \<and> same_setup s u \<and> length (b_data m) = length (b_data l0) \<and>
       (\<forall>k<?n. b_data m ! k AND 0x7f = (if k \<in> set [0..<unat (in_len s)] then byte_class w s (in_data s) k else b_data l0 ! k AND 0x7f))"
    then have u: "in_data u = in_data s" "same_setup s u" "length (b_data m) = ?n + 1"
      "\<forall>k<?n. b_data m ! k AND 0x7f = byte_class w s (in_data s) k"
      unfolding x using assms(2) l0(2) by simp_all
    obtain rs where rs: "dump_hex (in_data s) (in_len s) (b_data m) 0 = Some rs"
      using dump_hex_covers [of "in_len s" "b_data m" "in_data s" 0] u(3) assms(2) by auto
    have "in_len u = in_len s" using u(2) by (simp add: same_setup_def)
    then show "ends (case x of (l1, s1) \<Rightarrow> do { out \<leftarrow> dump_hex (in_data s1) (in_len s1) (b_data l1) 0; Some (Inr (out, l1, s1)) })
        (\<lambda>_. True) (\<lambda>(out, l, t). in_data t = in_data s \<and> dump_hex (in_data s) (in_len s) (b_data l) 0 = Some out \<and>
          (\<forall>i<?n. b_data l ! i AND 0x7f = byte_class w s (in_data s) i))"
      unfolding x using u rs by simp
  qed (use assms(2) l0 in simp_all)
  then show ?thesis by (simp only: analyze_def l0_def Let_def)
qed

text \<open>
  The report is a partition of the input: the stretches follow each other without a gap from the first
  byte to the last, each is as long as the marks of its bytes agree, and its kind is the strongest
  reaction in it, or for stretches of fixed reactions one of the refined kinds, where the checksummed
  blocks are exactly those of at least 32 bytes; nothing outside the buffers is looked at.
\<close>

theorem report_partitions_input:
  assumes "unat len \<le> length bd" and "unat len \<le> length d"
  shows "\<exists>rs. dump_hex d len bd 0 = Some rs \<and> covers 0 rs (unat len) \<and> (\<forall>r \<in> set rs. reported bd (unat len) r)"
  by (rule dump_hex_covers [OF assms]) simp

section \<open>Examples\<close>

text \<open>A target that takes another path when its first byte is not a zero.\<close>

definition first_byte :: an_world where
  "first_byte = (\<lambda>n d. \<lparr>t_created = True, t_forked = True, t_wait = Some (Exited (if take 1 d = [0x30] then 0 else 1)),
     t_map = [1], t_timed_out = False, t_stop = False\<rparr>)"

definition demo_analyzer :: analyzer where
  "demo_analyzer = \<lparr>in_data = [0x30, 0x31], in_len = 2, orig_cksum = an_cksum [1, 0, 0, 0, 0, 0, 0, 0] (Exited 0), total_execs = 0,
     exec_hangs = 0, trace_bits = replicate 8 0, edges_only = False, stop_soon = False, child_timed_out = False\<rparr>"

theorem analyze_reactions_witness:
  "ends (analyze first_byte demo_analyzer) (\<lambda>_. True)
     (\<lambda>(out, l, t). b_data l ! 0 AND 0x7f = RESP_FIXED \<and> b_data l ! 1 AND 0x7f = RESP_NONE)"
proof -
  have d: "first_byte n x = first_byte 0 x" for n x by (simp add: first_byte_def)
  have l: "unat (in_len demo_analyzer) = length (in_data demo_analyzer)" by (simp add: demo_analyzer_def)
  have "byte_class first_byte demo_analyzer (in_data demo_analyzer) 0 = RESP_FIXED"
    "byte_class first_byte demo_analyzer (in_data demo_analyzer) 1 = RESP_NONE" by code_simp+
  then show ?thesis
    by (intro ends_weaken [OF analyze_reactions [where w = first_byte, OF d l]]) (auto simp: demo_analyzer_def)
qed

theorem report_partitions_input_witness:
  "\<exists>rs. dump_hex [1, 2, 3] 3 [0x03, 0x83, 0x80] 0 = Some rs \<and> covers 0 rs 3"
  using report_partitions_input [of 3 "[0x03, 0x83, 0x80]" "[1, 2, 3]"] by auto

end
