(* ===== verification/Afl_As.thy ===== *)
theory Afl_As
  imports Afl_Target
begin

text \<open>
  The assembler wrapper \<^verbatim>\<open>afl-as.c\<close>: the parameters for the real assembler, and the pass over the
  assembly file that puts the instrumentation into it (the build for systems other than MacOS).
\<close>

section \<open>C strings\<close>

abbreviation nul :: char where "nul \<equiv> CHR 0x00"
abbreviation newline :: char where "newline \<equiv> CHR 0x0A"
abbreviation tab :: char where "tab \<equiv> CHR 0x09"

definition isdigit :: "char \<Rightarrow> bool" where
  "isdigit c \<longleftrightarrow> c \<in> set ''0123456789''"

definition isalpha :: "char \<Rightarrow> bool" where
  "isalpha c \<longleftrightarrow> c \<in> set ''ABCDEFGHIJKLMNOPQRSTUVWXYZabcdefghijklmnopqrstuvwxyz''"

text \<open>A line buffer holds what was read and a terminator; library functions stop at the first one.\<close>

definition char_at :: "string \<Rightarrow> nat \<Rightarrow> char" where
  "char_at line i = (if i < length line then line ! i else nul)"

definition c_str :: "string \<Rightarrow> string" where
  "c_str line = takeWhile (\<lambda>c. c \<noteq> nul) line"

fun starts :: "string \<Rightarrow> string \<Rightarrow> bool" where
  "starts [] s = True"
| "starts (p # ps) [] = False"
| "starts (p # ps) (c # s) = (p = c \<and> starts ps s)"

fun strstr :: "string \<Rightarrow> string \<Rightarrow> bool" where
  "strstr [] pat = starts pat []"
| "strstr (c # s) pat = (starts pat (c # s) \<or> strstr s pat)"

section \<open>Parameters for the real assembler\<close>

record as_setup =
  as_params :: "string list"
  use_64bit :: bool
  input_file :: "string option"
  modified_file :: string
  just_version :: bool
  pass_thru :: bool

text \<open>The environment, and the name \<^verbatim>\<open>alloc_printf\<close> makes from the directory, the pid and the time.\<close>

definition first_set :: "string option list \<Rightarrow> string \<Rightarrow> string" where
  "first_set xs dflt = (case concat (map (\<lambda>x. case x of None \<Rightarrow> [] | Some y \<Rightarrow> [y]) xs) of [] \<Rightarrow> dflt | y # _ \<Rightarrow> y)"

definition bits_of :: "bool \<Rightarrow> string list \<Rightarrow> bool" where
  "bits_of dflt args = foldl (\<lambda>b a. if a = ''--64'' then True else if a = ''--32'' then False else b) dflt args"

definition as_edit_params ::
  "(string \<Rightarrow> string option) \<Rightarrow> bool \<Rightarrow> (string \<Rightarrow> string) \<Rightarrow> string list \<Rightarrow> string + as_setup" where
  "as_edit_params getenv word_size_64 temp_name argv =
     (let tmp_dir = first_set [getenv ''TMPDIR'', getenv ''TEMP'', getenv ''TMP''] ''/tmp'';
          mid = butlast (tl argv);
          inp = last argv;
          fin = (\<lambda>inf modf jv pt. \<lparr>as_params = first_set [getenv ''AFL_AS''] ''as'' # mid @ [modf],
                   use_64bit = bits_of word_size_64 mid, input_file = inf, modified_file = modf,
                   just_version = jv, pass_thru = pt\<rparr>)
      in if char_at inp 0 = CHR ''-''
         then if tl inp = ''-version'' then Inr (fin (Some inp) inp True False)
              else if tl inp \<noteq> [] then Inl ''Incorrect use (not called through afl-gcc?)''
              else Inr (fin None (temp_name tmp_dir) False False)
         else Inr (fin (Some inp) (temp_name tmp_dir) False
                (\<not> starts tmp_dir inp \<and> \<not> starts ''/var/tmp/'' inp \<and> \<not> starts ''/tmp/'' inp)))"

section \<open>Instrumenting the file\<close>

text \<open>What is written: lines of the input, calls with a random location, and the code they call.\<close>

datatype out_item = LINE string | TRAMPOLINE bool nat | MAIN_PAYLOAD bool

text \<open>The settings, and the locals of the loop; \<open>draws\<close> counts the calls of \<^verbatim>\<open>random\<close>.\<close>

record as_opts =
  o_pass_thru :: bool
  o_64bit :: bool
  o_clang :: bool
  inst_ratio :: u32
  o_random :: "nat \<Rightarrow> nat"

record as_state =
  instr_ok :: bool
  skip_csect :: bool
  skip_next_label :: bool
  skip_intel :: bool
  skip_app :: bool
  instrument_next :: bool
  ins_lines :: u32
  draws :: nat

definition MAX_LINE_as :: nat where "MAX_LINE_as = 8192"
definition AS_MAP_SIZE :: nat where "AS_MAP_SIZE = 65536"

definition RAND :: "as_opts \<Rightarrow> nat \<Rightarrow> as_state \<Rightarrow> nat \<times> as_state" where
  "RAND v n st = (o_random v (draws st) mod n, st\<lparr>draws := draws st + 1\<rparr>)"

text \<open>\<^verbatim>\<open>fgets\<close>: up to and with the next newline, but at most \<open>MAX_LINE_as - 1\<close> characters.\<close>

definition fgets_as :: "string \<Rightarrow> string \<times> string" where
  "fgets_as s = (let k = min (length (takeWhile (\<lambda>c. c \<noteq> newline) s) + 1) (MAX_LINE_as - 1) in (take k s, drop k s))"

function file_lines :: "string \<Rightarrow> string list" where
  "file_lines s = (if s = [] then [] else let (l, rest) = fgets_as s in l # file_lines rest)"
  by pat_completeness auto
termination by (relation "measure length") (auto simp: fgets_as_def MAX_LINE_as_def Let_def)

declare file_lines.simps [simp del]

definition trampoline :: "as_opts \<Rightarrow> as_state \<Rightarrow> out_item list \<times> as_state" where
  "trampoline v st =
     (let (r, st1) = RAND v AS_MAP_SIZE st in ([TRAMPOLINE (o_64bit v) r], st1\<lparr>ins_lines := ins_lines st1 + 1\<rparr>))"

text \<open>The directives that open the text section and those that open another one.\<close>

definition text_directive :: "string \<Rightarrow> bool" where
  "text_directive s \<longleftrightarrow> starts (''text'' @ [newline]) s \<or> starts (''section'' @ [tab] @ ''.text'') s \<or>
     starts (''section'' @ [tab] @ ''__TEXT,__text'') s \<or> starts ''section __TEXT,__text'' s"

definition other_directive :: "string \<Rightarrow> bool" where
  "other_directive s \<longleftrightarrow> starts (''section'' @ [tab]) s \<or> starts ''section '' s \<or>
     starts (''bss'' @ [newline]) s \<or> starts (''data'' @ [newline]) s"

text \<open>A directive line; the flag tells that the rest of the loop body is skipped.\<close>

definition section_step :: "as_opts \<Rightarrow> string \<Rightarrow> as_state \<Rightarrow> bool \<times> as_state" where
  "section_step v line st =
     (let s = drop 2 (c_str line);
          st1 = (if \<not> o_clang v \<and> instr_ok st \<and> starts ''p2align '' s \<and> isdigit (char_at line 10) \<and> char_at line 11 = newline
                 then st\<lparr>skip_next_label := True\<rparr> else st)
      in if char_at line 0 = tab \<and> char_at line 1 = CHR ''.''
         then if text_directive s then (True, st1\<lparr>instr_ok := True\<rparr>)
              else if other_directive s then (True, st1\<lparr>instr_ok := False\<rparr>)
              else (False, st1)
         else (False, st))"

definition mode_step :: "as_opts \<Rightarrow> string \<Rightarrow> as_state \<Rightarrow> as_state" where
  "mode_step v line st =
     (let s = c_str line;
          st1 = (if strstr s ''.code'' \<and> strstr s ''.code32'' then st\<lparr>skip_csect := o_64bit v\<rparr> else st);
          st2 = (if strstr s ''.code'' \<and> strstr s ''.code64'' then st1\<lparr>skip_csect := \<not> o_64bit v\<rparr> else st1);
          st3 = (if strstr s ''.intel_syntax'' then st2\<lparr>skip_intel := True\<rparr> else st2);
          st4 = (if strstr s ''.att_syntax'' then st3\<lparr>skip_intel := False\<rparr> else st3);
          hash = (char_at line 0 = CHR ''#'' \<or> char_at line 1 = CHR ''#'');
          st5 = (if hash \<and> strstr s ''#APP'' then st4\<lparr>skip_app := True\<rparr> else st4)
      in if hash \<and> strstr s ''#NO_APP'' then st5\<lparr>skip_app := False\<rparr> else st5)"

text \<open>Labels: branch destinations by chance, function labels always, both deferred to the next instruction.\<close>

definition label_step :: "as_opts \<Rightarrow> string \<Rightarrow> as_state \<Rightarrow> as_state" where
  "label_step v line st =
     (if strstr (c_str line) '':''
      then if char_at line 0 = CHR ''.''
           then if isdigit (char_at line 2) \<or> (o_clang v \<and> starts ''LBB'' (drop 1 (c_str line)))
                then let (r, st1) = RAND v 100 st in
                     if of_nat r < inst_ratio v
                     then if \<not> skip_next_label st1 then st1\<lparr>instrument_next := True\<rparr> else st1\<lparr>skip_next_label := False\<rparr>
                     else st1
                else st
           else st\<lparr>instrument_next := True\<rparr>
      else st)"

text \<open>Conditional branches, by chance, and labels.\<close>

definition code_step :: "as_opts \<Rightarrow> string \<Rightarrow> as_state \<Rightarrow> out_item list \<times> as_state" where
  "code_step v line st =
     (if skip_intel st \<or> skip_app st \<or> skip_csect st \<or> \<not> instr_ok st \<or> char_at line 0 = CHR ''#'' \<or> char_at line 0 = CHR '' ''
      then ([], st)
      else if char_at line 0 = tab
      then if char_at line 1 = CHR ''j'' \<and> char_at line 2 \<noteq> CHR ''m''
           then let (r, st1) = RAND v 100 st in
                if of_nat r < inst_ratio v then trampoline v st1 else ([], st1)
           else ([], st)
      else ([], label_step v line st))"

definition deferred_step :: "as_opts \<Rightarrow> string \<Rightarrow> as_state \<Rightarrow> out_item list \<times> as_state" where
  "deferred_step v line st =
     (if \<not> o_pass_thru v \<and> \<not> skip_intel st \<and> \<not> skip_app st \<and> \<not> skip_csect st \<and> instr_ok st \<and>
         instrument_next st \<and> char_at line 0 = tab \<and> isalpha (char_at line 1)
      then let (r, st1) = RAND v AS_MAP_SIZE st in
           ([TRAMPOLINE (o_64bit v) r], st1\<lparr>instrument_next := False, ins_lines := ins_lines st1 + 1\<rparr>)
      else ([], st))"

definition line_step :: "as_opts \<Rightarrow> string \<Rightarrow> as_state \<Rightarrow> out_item list \<times> as_state" where
  "line_step v line st =
     (let (pre, st1) = deferred_step v line st;
          out = pre @ [LINE (c_str line)]
      in if o_pass_thru v then (out, st1)
         else let (stop, st2) = section_step v line st1 in
              if stop then (out, st2)
              else let (post, st3) = code_step v line (mode_step v line st2) in (out @ post, st3))"

fun as_lines :: "as_opts \<Rightarrow> string list \<Rightarrow> as_state \<Rightarrow> out_item list \<times> as_state" where
  "as_lines v [] st = ([], st)"
| "as_lines v (l # ls) st =
     (let (out, st1) = line_step v l st; (outs, st2) = as_lines v ls st1 in (out @ outs, st2))"

definition as_init :: "as_state" where
  "as_init = \<lparr>instr_ok = False, skip_csect = False, skip_next_label = False, skip_intel = False, skip_app = False,
     instrument_next = False, ins_lines = 0, draws = 0\<rparr>"

definition add_instrumentation :: "as_opts \<Rightarrow> string \<Rightarrow> out_item list" where
  "add_instrumentation v contents =
     (let (out, st) = as_lines v (file_lines contents) as_init
      in if ins_lines st \<noteq> 0 then out @ [MAIN_PAYLOAD (o_64bit v)] else out)"

text \<open>The ratio: \<^verbatim>\<open>sscanf\<close> has read a number from \<^verbatim>\<open>AFL_INST_RATIO\<close>, or not.\<close>

definition set_ratio :: "u32 option option \<Rightarrow> bool \<Rightarrow> string + u32" where
  "set_ratio given sanitizer =
     (case given of
        Some None \<Rightarrow> Inl ''Bad value of AFL_INST_RATIO (must be between 0 and 100)''
      | Some (Some r) \<Rightarrow> if r > 100 then Inl ''Bad value of AFL_INST_RATIO (must be between 0 and 100)''
                         else Inr (if sanitizer then r div 3 else r)
      | None \<Rightarrow> Inr (if sanitizer then 100 div 3 else 100))"

text \<open>\<^verbatim>\<open>main\<close> up to the call of the real assembler: what the file becomes, when there is one to instrument.\<close>

definition as_main ::
  "(string \<Rightarrow> string option) \<Rightarrow> bool \<Rightarrow> (string \<Rightarrow> string) \<Rightarrow> (nat \<Rightarrow> nat) \<Rightarrow> u32 option option \<Rightarrow> (string option \<Rightarrow> string) \<Rightarrow>
   string list \<Rightarrow> string + as_setup \<times> out_item list option" where
  "as_main getenv word_size_64 temp_name rnd ratio contents argv =
     (case as_edit_params getenv word_size_64 temp_name argv of
        Inl e \<Rightarrow> Inl e
      | Inr p \<Rightarrow>
          (case set_ratio ratio (getenv ''AFL_USE_ASAN'' \<noteq> None \<or> getenv ''AFL_USE_MSAN'' \<noteq> None) of
             Inl e \<Rightarrow> Inl e
           | Inr r \<Rightarrow>
               if getenv ''__AFL_AS_LOOPCHECK'' \<noteq> None then Inl ''Endless loop when calling 'as' (remove '.' from your PATH)''
               else Inr (p, if just_version p then None
                            else Some (add_instrumentation
                              \<lparr>o_pass_thru = pass_thru p, o_64bit = use_64bit p, o_clang = (getenv ''__AFL_CLANG_MODE'' \<noteq> None),
                               inst_ratio = r, o_random = rnd\<rparr> (contents (input_file p))))))"

section \<open>What the output looks like\<close>

fun out_lines :: "out_item list \<Rightarrow> string list" where
  "out_lines [] = []"
| "out_lines (LINE s # xs) = s # out_lines xs"
| "out_lines (x # xs) = out_lines xs"

definition calls :: "out_item list \<Rightarrow> nat" where
  "calls xs = length (filter (\<lambda>x. case x of TRAMPOLINE b r \<Rightarrow> True | _ \<Rightarrow> False) xs)"

definition payloads :: "out_item list \<Rightarrow> nat" where
  "payloads xs = length (filter (\<lambda>x. case x of MAIN_PAYLOAD b \<Rightarrow> True | _ \<Rightarrow> False) xs)"

lemma out_lines_append [simp]: "out_lines (xs @ ys) = out_lines xs @ out_lines ys"
  by (induction xs rule: out_lines.induct) auto

lemma calls_simps [simp]: "calls [] = 0" "calls (xs @ ys) = calls xs + calls ys" "calls (LINE s # xs) = calls xs"
  "calls (TRAMPOLINE b r # xs) = Suc (calls xs)" "calls (MAIN_PAYLOAD b # xs) = calls xs"
  by (simp_all add: calls_def)

lemma payloads_simps [simp]: "payloads [] = 0" "payloads (xs @ ys) = payloads xs + payloads ys" "payloads (LINE s # xs) = payloads xs"
  "payloads (TRAMPOLINE b r # xs) = payloads xs" "payloads (MAIN_PAYLOAD b # xs) = Suc (payloads xs)"
  by (simp_all add: payloads_def)

text \<open>The parts of a step, each with what it writes and what it does to the counter and the section.\<close>

lemma deferred_step_cases:
  "deferred_step v line st = ([], st) \<or>
   (\<exists>r st1. deferred_step v line st = ([TRAMPOLINE (o_64bit v) r], st1) \<and> ins_lines st1 = ins_lines st + 1 \<and>
      instr_ok st \<and> instr_ok st1 \<and> \<not> o_pass_thru v)"
  by (simp add: deferred_step_def RAND_def)

lemma label_step_frame: "ins_lines (label_step v l st) = ins_lines st" "instr_ok (label_step v l st) = instr_ok st"
  by (simp_all add: label_step_def RAND_def Let_def)

lemma code_step_cases:
  "(\<exists>st1. code_step v line st = ([], st1) \<and> ins_lines st1 = ins_lines st \<and> instr_ok st1 = instr_ok st) \<or>
   (\<exists>r st1. code_step v line st = ([TRAMPOLINE (o_64bit v) r], st1) \<and> ins_lines st1 = ins_lines st + 1 \<and>
      instr_ok st \<and> instr_ok st1)"
  by (simp add: code_step_def trampoline_def label_step_frame RAND_def Let_def)

lemma mode_step_frame: "ins_lines (mode_step v l st) = ins_lines st" "instr_ok (mode_step v l st) = instr_ok st"
  by (simp_all add: mode_step_def Let_def)

text \<open>Directives that open the text section, and that leave it.\<close>

definition opens_text :: "string \<Rightarrow> bool" where
  "opens_text l \<longleftrightarrow> char_at l 0 = tab \<and> char_at l 1 = CHR ''.'' \<and> text_directive (drop 2 (c_str l))"

definition leaves_text :: "string \<Rightarrow> bool" where
  "leaves_text l \<longleftrightarrow> char_at l 0 = tab \<and> char_at l 1 = CHR ''.'' \<and>
     \<not> text_directive (drop 2 (c_str l)) \<and> other_directive (drop 2 (c_str l))"

lemma section_step_spec:
  "ins_lines (snd (section_step v l st)) = ins_lines st"
  "instr_ok (snd (section_step v l st)) = (if opens_text l then True else if leaves_text l then False else instr_ok st)"
  "fst (section_step v l st) \<longleftrightarrow> opens_text l \<or> leaves_text l"
  by (auto simp: section_step_def opens_text_def leaves_text_def Let_def)

text \<open>The section that is open after some lines, by the last directive among them.\<close>

definition in_text :: "string list \<Rightarrow> bool" where
  "in_text ls \<longleftrightarrow> (\<exists>pre d post. ls = pre @ d # post \<and> opens_text d \<and> (\<forall>l \<in> set post. \<not> leaves_text l))"

lemma in_text_snoc: "in_text (ls @ [l]) \<longleftrightarrow> opens_text l \<or> (\<not> leaves_text l \<and> in_text ls)"
proof
  assume "in_text (ls @ [l])"
  then obtain pre d post where s: "ls @ [l] = pre @ d # post" "opens_text d" "\<forall>l \<in> set post. \<not> leaves_text l"
    unfolding in_text_def by blast
  show "opens_text l \<or> (\<not> leaves_text l \<and> in_text ls)"
  proof (cases post rule: rev_cases)
    case Nil
    then show ?thesis using s by simp
  next
    case (snoc q x)
    then have "ls = pre @ d # q" "x = l" using s(1) by simp_all
    then show ?thesis using s snoc unfolding in_text_def by auto
  qed
next
  assume r: "opens_text l \<or> (\<not> leaves_text l \<and> in_text ls)"
  show "in_text (ls @ [l])"
  proof (cases "opens_text l")
    case True
    then show ?thesis unfolding in_text_def by (intro exI [of _ ls] exI [of _ l] exI [of _ "[]"]) simp
  next
    case False
    then obtain pre d post where "ls = pre @ d # post" "opens_text d" "\<forall>l \<in> set post. \<not> leaves_text l" "\<not> leaves_text l"
      using r unfolding in_text_def by blast
    then show ?thesis unfolding in_text_def
      by (intro exI [of _ pre] exI [of _ d] exI [of _ "post @ [l]"]) simp
  qed
qed

text \<open>A written line is taken for the same directive as the line that was read.\<close>

lemma c_str_idem [simp]: "c_str (c_str l) = c_str l"
  by (simp add: c_str_def)

lemma char_at_c_str: "char_at l 0 \<noteq> nul \<Longrightarrow> char_at (c_str l) 1 = char_at l 1" "char_at (c_str l) 0 = char_at l 0"
proof -
  show "char_at (c_str l) 0 = char_at l 0" by (cases l) (simp_all add: char_at_def c_str_def)
  show "char_at l 0 \<noteq> nul \<Longrightarrow> char_at (c_str l) 1 = char_at l 1"
    by (cases l; cases "tl l") (simp_all add: char_at_def c_str_def)
qed

lemma opens_text_c_str [simp]: "opens_text (c_str l) = opens_text l" "leaves_text (c_str l) = leaves_text l"
  using char_at_c_str(1) [of l] by (auto simp: opens_text_def leaves_text_def char_at_c_str(2))

text \<open>One line, at the level of the whole output so far.\<close>

definition only_in_text :: "string list \<Rightarrow> out_item list \<Rightarrow> bool" where
  "only_in_text before xs \<longleftrightarrow> (\<forall>a b r c. xs = a @ TRAMPOLINE b r # c \<longrightarrow> in_text (before @ out_lines a))"

lemma only_in_text_Nil [simp]: "only_in_text before []"
  by (simp add: only_in_text_def)

lemma only_in_text_append:
  assumes "only_in_text before xs" and "only_in_text (before @ out_lines xs) ys"
  shows "only_in_text before (xs @ ys)"
  unfolding only_in_text_def
proof (intro allI impI)
  fix a b r c assume eq: "xs @ ys = a @ TRAMPOLINE b r # c"
  then consider us where "xs = a @ us" "us @ ys = TRAMPOLINE b r # c" | us where "a = xs @ us" "ys = us @ TRAMPOLINE b r # c"
    by (auto simp: append_eq_append_conv2)
  then show "in_text (before @ out_lines a)"
  proof cases
    case (1 us)
    show ?thesis
    proof (cases us)
      case Nil
      then show ?thesis using 1 assms(2) unfolding only_in_text_def by (metis append_Nil append_Nil2 out_lines.simps(1))
    next
      case (Cons x zs)
      then have "xs = a @ TRAMPOLINE b r # zs" using 1 by simp
      then show ?thesis using assms(1) unfolding only_in_text_def by blast
    qed
  next
    case (2 us)
    then show ?thesis using assms(2) unfolding only_in_text_def by (metis append_assoc out_lines_append)
  qed
qed

lemma only_in_text_one: "only_in_text before [LINE s]" "in_text before \<Longrightarrow> only_in_text before [TRAMPOLINE b r]"
  by (auto simp: only_in_text_def Cons_eq_append_conv)

lemma line_step_spec:
  assumes "line_step v l st = (out, st1)" and "\<not> o_pass_thru v \<Longrightarrow> instr_ok st = in_text before"
  shows "out_lines out = [c_str l]" and "calls out \<le> 2" and "payloads out = 0"
    and "ins_lines st1 = ins_lines st + of_nat (calls out)"
    and "only_in_text before out" and "\<not> o_pass_thru v \<Longrightarrow> instr_ok st1 = in_text (before @ [c_str l])"
    and "o_pass_thru v \<Longrightarrow> out = [LINE (c_str l)]"
proof -
  obtain pre sa where d: "deferred_step v l st = (pre, sa)" by (cases "deferred_step v l st")
  obtain stop sb where s: "section_step v l sa = (stop, sb)" by (cases "section_step v l sa")
  obtain post sc where c: "code_step v l (mode_step v l sb) = (post, sc)" by (cases "code_step v l (mode_step v l sb)")
  have sec: "ins_lines sb = ins_lines sa" "instr_ok sb = (if opens_text l then True else if leaves_text l then False else instr_ok sa)"
    "stop \<longleftrightarrow> opens_text l \<or> leaves_text l"
    using section_step_spec [of v l sa] s by simp_all
  have pre: "pre = [] \<and> sa = st \<or> (\<exists>r. pre = [TRAMPOLINE (o_64bit v) r] \<and> ins_lines sa = ins_lines st + 1 \<and>
      instr_ok st \<and> instr_ok sa \<and> \<not> o_pass_thru v)"
    using deferred_step_cases [of v l st] d by auto
  have post: "post = [] \<and> ins_lines sc = ins_lines sb \<and> instr_ok sc = instr_ok sb \<or>
      (\<exists>r. post = [TRAMPOLINE (o_64bit v) r] \<and> ins_lines sc = ins_lines sb + 1 \<and> instr_ok sb \<and> instr_ok sc)"
    using code_step_cases [of v l "mode_step v l sb"] c mode_step_frame by auto
  have out: "out = pre @ [LINE (c_str l)] @ (if o_pass_thru v \<or> stop then [] else post)"
    "st1 = (if o_pass_thru v then sa else if stop then sb else sc)"
    using assms(1) d s c by (auto simp: line_step_def Let_def split: if_splits)
  show "out_lines out = [c_str l]" "calls out \<le> 2" "payloads out = 0" "o_pass_thru v \<Longrightarrow> out = [LINE (c_str l)]"
    using pre post unfolding out by auto
  show "ins_lines st1 = ins_lines st + of_nat (calls out)" using pre post sec(1) unfolding out by auto
  show text_after: "\<not> o_pass_thru v \<Longrightarrow> instr_ok st1 = in_text (before @ [c_str l])"
  proof -
    assume np: "\<not> o_pass_thru v"
    have "instr_ok sb = in_text (before @ [c_str l])" using pre sec(2) assms(2) np by (auto simp: in_text_snoc)
    then show ?thesis using np post unfolding out by auto
  qed
  have "only_in_text before pre" using pre assms(2) by (auto intro: only_in_text_one)
  moreover have "only_in_text (before @ out_lines pre @ [c_str l]) (if o_pass_thru v \<or> stop then [] else post)"
  proof (cases "o_pass_thru v \<or> stop \<or> post = []")
    case False
    then have "instr_ok st1" "\<not> o_pass_thru v" "\<exists>r. post = [TRAMPOLINE (o_64bit v) r]" using post unfolding out by auto
    moreover have "out_lines pre = []" using pre by auto
    ultimately show ?thesis using text_after False by (auto intro: only_in_text_one)
  qed auto
  ultimately show "only_in_text before out"
    unfolding out by (intro only_in_text_append) (auto intro: only_in_text_one)
qed

lemma as_lines_spec:
  assumes "as_lines v ls st = (out, st1)" and "\<not> o_pass_thru v \<Longrightarrow> instr_ok st = in_text before"
  shows "out_lines out = map c_str ls \<and> calls out \<le> 2 * length ls \<and> payloads out = 0 \<and>
    ins_lines st1 = ins_lines st + of_nat (calls out) \<and> only_in_text before out \<and>
    (o_pass_thru v \<longrightarrow> out = map (\<lambda>l. LINE (c_str l)) ls)"
  using assms
proof (induction ls arbitrary: st before out)
  case (Cons l ls)
  obtain o1 sa where 1: "line_step v l st = (o1, sa)" by (cases "line_step v l st")
  obtain o2 where 2: "as_lines v ls sa = (o2, st1)" and out: "out = o1 @ o2"
    using Cons.prems(1) 1 by (auto split: prod.splits)
  note h = line_step_spec [OF 1, of before, OF Cons.prems(2)]
  have ih: "out_lines o2 = map c_str ls \<and> calls o2 \<le> 2 * length ls \<and> payloads o2 = 0 \<and>
    ins_lines st1 = ins_lines sa + of_nat (calls o2) \<and> only_in_text (before @ [c_str l]) o2 \<and>
    (o_pass_thru v \<longrightarrow> o2 = map (\<lambda>l. LINE (c_str l)) ls)"
    by (rule Cons.IH [OF 2]) (rule h(6))
  show ?case
    using h(1-5,7) ih unfolding out by (auto intro: only_in_text_append)
qed auto

lemma fgets_as_parts: "fst (fgets_as s) @ snd (fgets_as s) = s" "s \<noteq> [] \<Longrightarrow> fst (fgets_as s) \<noteq> []"
  by (simp_all add: fgets_as_def Let_def MAX_LINE_as_def)

lemma file_lines_Nil [simp]: "file_lines [] = []"
  by (simp add: file_lines.simps)

lemma file_lines_concat: "concat (file_lines s) = s \<and> length (file_lines s) \<le> length s"
proof (induction s rule: file_lines.induct)
  case (1 s)
  show ?case
  proof (cases "s = []")
    case False
    obtain l r where lr: "fgets_as s = (l, r)" by (cases "fgets_as s")
    then have ih: "concat (file_lines r) = r \<and> length (file_lines r) \<le> length r" using 1 [OF False] by simp
    have p: "l @ r = s" "l \<noteq> []" using fgets_as_parts [of s] False lr by simp_all
    then have "length r < length s" by (cases l) auto
    then show ?thesis using False lr ih p(1) by (simp add: file_lines.simps [of s])
  qed simp
qed

lemma file_lines_chars: "l \<in> set (file_lines s) \<Longrightarrow> set l \<subseteq> set s"
  using file_lines_concat [of s] by (metis UN_upper set_concat)

lemma instrumented:
  assumes "length contents < 2 ^ 31"
  obtains out where "add_instrumentation v contents = out @ (if calls out = 0 then [] else [MAIN_PAYLOAD (o_64bit v)])"
    and "out_lines out = map c_str (file_lines contents)" and "payloads out = 0" and "only_in_text [] out"
    and "o_pass_thru v \<Longrightarrow> calls out = 0" and "out = fst (as_lines v (file_lines contents) as_init)"
proof -
  obtain out st where r: "as_lines v (file_lines contents) as_init = (out, st)" by (cases "as_lines v (file_lines contents) as_init")
  have "\<not> in_text []" by (simp add: in_text_def)
  then have h: "out_lines out = map c_str (file_lines contents) \<and> calls out \<le> 2 * length (file_lines contents) \<and> payloads out = 0 \<and>
      ins_lines st = ins_lines as_init + of_nat (calls out) \<and> only_in_text [] out \<and>
      (o_pass_thru v \<longrightarrow> out = map (\<lambda>l. LINE (c_str l)) (file_lines contents))"
    by (intro as_lines_spec [OF r]) (simp add: as_init_def)
  have "2 * length (file_lines contents) < 2 ^ 32" using file_lines_concat [of contents] assms by simp
  then have "calls out < 2 ^ 32" using h by linarith
  moreover have "ins_lines st = of_nat (calls out)" using h by (simp add: as_init_def)
  ultimately have "unat (ins_lines st) = calls out" by (simp add: unsigned_of_nat take_bit_nat_eq_self)
  then have "ins_lines st = 0 \<longleftrightarrow> calls out = 0" by (metis unat_0 unat_eq_zero)
  then have "add_instrumentation v contents = out @ (if calls out = 0 then [] else [MAIN_PAYLOAD (o_64bit v)])"
    using r by (simp add: add_instrumentation_def)
  moreover have "calls (map (\<lambda>l. LINE (c_str l)) ls) = 0" for ls by (induction ls) simp_all
  moreover have "out = fst (as_lines v (file_lines contents) as_init)" using r by simp
  ultimately show thesis using that h by metis
qed

section \<open>Where the calls are\<close>

text \<open>
  Lines of the file by what the instrumentation makes of them: an instruction, a conditional
  branch, a function label, any label that may be a branch destination; and lines without the
  directives and markers that switch the instrumentation off for a while.
\<close>

definition instruction_line :: "string \<Rightarrow> bool" where
  "instruction_line l \<longleftrightarrow> char_at l 0 = tab \<and> isalpha (char_at l 1)"

definition branch_line :: "string \<Rightarrow> bool" where
  "branch_line l \<longleftrightarrow> char_at l 0 = tab \<and> char_at l 1 = CHR ''j'' \<and> char_at l 2 \<noteq> CHR ''m''"

definition function_label :: "string \<Rightarrow> bool" where
  "function_label l \<longleftrightarrow> char_at l 0 \<notin> {tab, CHR ''#'', CHR '' '', CHR ''.''} \<and> strstr l '':''"

definition any_label :: "as_opts \<Rightarrow> string \<Rightarrow> bool" where
  "any_label v l \<longleftrightarrow> function_label l \<or>
     char_at l 0 = CHR ''.'' \<and> strstr l '':'' \<and> (isdigit (char_at l 2) \<or> o_clang v \<and> starts ''LBB'' (drop 1 l))"

definition plain_line :: "string \<Rightarrow> bool" where
  "plain_line l \<longleftrightarrow> \<not> strstr l ''.code32'' \<and> \<not> strstr l ''.code64'' \<and> \<not> strstr l ''.intel_syntax'' \<and> \<not> strstr l ''#APP''"

definition one_call :: "as_opts \<Rightarrow> out_item list \<Rightarrow> bool" where
  "one_call v xs \<longleftrightarrow> xs = [] \<or> (\<exists>r < AS_MAP_SIZE. xs = [TRAMPOLINE (o_64bit v) r])"

text \<open>What a step writes before and after its line.\<close>

definition pre_call :: "as_opts \<Rightarrow> string \<Rightarrow> as_state \<Rightarrow> out_item list" where
  "pre_call v l st = fst (deferred_step v l st)"

definition post_call :: "as_opts \<Rightarrow> string \<Rightarrow> as_state \<Rightarrow> out_item list" where
  "post_call v l st = (let st1 = snd (deferred_step v l st); (stop, st2) = section_step v l st1
     in if o_pass_thru v \<or> stop then [] else fst (code_step v l (mode_step v l st2)))"

lemma line_step_parts: "fst (line_step v l st) = pre_call v l st @ [LINE (c_str l)] @ post_call v l st"
  by (simp add: line_step_def pre_call_def post_call_def Let_def split: prod.splits)

definition no_skip :: "as_state \<Rightarrow> bool" where
  "no_skip st \<longleftrightarrow> \<not> skip_intel st \<and> \<not> skip_app st \<and> \<not> skip_csect st"

lemma RAND_bound: "0 < n \<Longrightarrow> fst (RAND v n st) < n"
  by (simp add: RAND_def)

lemma pre_call_facts:
  "one_call v (pre_call v l st)" "o_pass_thru v \<Longrightarrow> pre_call v l st = []"
  "pre_call v l st \<noteq> [] \<Longrightarrow> instruction_line l \<and> instr_ok st \<and> instrument_next st"
  "no_skip st \<Longrightarrow> \<not> o_pass_thru v \<Longrightarrow> instrument_next st \<Longrightarrow> instruction_line l \<Longrightarrow> instr_ok st \<Longrightarrow> pre_call v l st \<noteq> []"
  by (auto simp: pre_call_def deferred_step_def one_call_def instruction_line_def no_skip_def RAND_def AS_MAP_SIZE_def Let_def
      split: if_splits)

lemma deferred_step_keeps:
  "no_skip (snd (deferred_step v l st)) = no_skip st" "instr_ok (snd (deferred_step v l st)) = instr_ok st"
  "instrument_next (snd (deferred_step v l st)) \<longleftrightarrow> instrument_next st \<and> pre_call v l st = []"
  by (simp_all add: pre_call_def deferred_step_def no_skip_def RAND_def Let_def)

lemma section_step_keeps:
  "no_skip (snd (section_step v l st)) = no_skip st" "instrument_next (snd (section_step v l st)) = instrument_next st"
  by (simp_all add: section_step_def no_skip_def Let_def)

lemma mode_step_keeps:
  "instrument_next (mode_step v l st) = instrument_next st"
  "nul \<notin> set l \<Longrightarrow> plain_line l \<Longrightarrow> no_skip st \<Longrightarrow> no_skip (mode_step v l st)"
proof -
  show "instrument_next (mode_step v l st) = instrument_next st" by (simp add: mode_step_def Let_def)
  assume l: "nul \<notin> set l" "plain_line l" "no_skip st"
  then have "c_str l = l" by (auto simp: c_str_def takeWhile_eq_all_conv)
  then show "no_skip (mode_step v l st)" using l(2,3) by (simp add: mode_step_def no_skip_def plain_line_def Let_def)
qed

lemma code_step_call:
  assumes "nul \<notin> set l"
  shows "one_call v (fst (code_step v l st))"
    and "fst (code_step v l st) \<noteq> [] \<Longrightarrow> branch_line l \<and> instr_ok st"
    and "no_skip st \<Longrightarrow> 100 \<le> inst_ratio v \<Longrightarrow> branch_line l \<Longrightarrow> instr_ok st \<Longrightarrow> fst (code_step v l st) \<noteq> []"
proof -
  show "one_call v (fst (code_step v l st))"
    by (simp add: code_step_def trampoline_def one_call_def RAND_def AS_MAP_SIZE_def Let_def)
  show "fst (code_step v l st) \<noteq> [] \<Longrightarrow> branch_line l \<and> instr_ok st"
    by (simp add: code_step_def branch_line_def split: if_splits)
  assume a: "no_skip st" "100 \<le> inst_ratio v" "branch_line l" "instr_ok st"
  have "of_nat (x mod 100) < (100 :: u32)" for x :: nat
  proof -
    have "unat (of_nat (x mod 100) :: u32) = x mod 100" by (simp add: unsigned_of_nat take_bit_nat_eq_self)
    then show ?thesis by (simp add: word_less_nat_alt)
  qed
  then have "of_nat (x mod 100) < inst_ratio v" for x :: nat using a(2) less_le_trans by blast
  then show "fst (code_step v l st) \<noteq> []"
    using a by (simp add: code_step_def trampoline_def branch_line_def no_skip_def RAND_def Let_def)
qed

lemma code_step_next:
  assumes "nul \<notin> set l"
  shows "no_skip (snd (code_step v l st)) = no_skip st"
    and "instrument_next (snd (code_step v l st)) \<Longrightarrow> instrument_next st \<or> any_label v l \<and> instr_ok st"
    and "instrument_next st \<Longrightarrow> instrument_next (snd (code_step v l st))"
    and "no_skip st \<Longrightarrow> function_label l \<Longrightarrow> instr_ok st \<Longrightarrow> instrument_next (snd (code_step v l st))"
proof -
  have l: "c_str l = l" using assms by (auto simp: c_str_def takeWhile_eq_all_conv)
  note defs = code_step_def trampoline_def label_step_def no_skip_def any_label_def function_label_def RAND_def Let_def l
  show "no_skip (snd (code_step v l st)) = no_skip st" by (simp add: defs)
  show "instrument_next st \<Longrightarrow> instrument_next (snd (code_step v l st))" by (simp add: defs)
  show "no_skip st \<Longrightarrow> function_label l \<Longrightarrow> instr_ok st \<Longrightarrow> instrument_next (snd (code_step v l st))" by (simp add: defs)
  show "instrument_next (snd (code_step v l st)) \<Longrightarrow> instrument_next st \<or> any_label v l \<and> instr_ok st"
    by (simp add: defs split: if_splits)
qed

text \<open>A line that is no directive goes through to the last part of the step.\<close>

lemma no_directive:
  assumes "char_at l 0 \<noteq> tab \<or> char_at l 1 \<noteq> CHR ''.''"
  shows "section_step v l st = (False, st)" and "\<not> opens_text l" and "\<not> leaves_text l"
  using assms by (auto simp: section_step_def opens_text_def leaves_text_def Let_def)

lemma line_step_next:
  "snd (line_step v l st) =
     (let st1 = snd (deferred_step v l st); (stop, st2) = section_step v l st1
      in if o_pass_thru v then st1 else if stop then st2 else snd (code_step v l (mode_step v l st2)))"
  by (simp add: line_step_def Let_def split: prod.splits)

lemma post_call_facts:
  assumes "nul \<notin> set l"
  shows "one_call v (post_call v l st)" and "o_pass_thru v \<Longrightarrow> post_call v l st = []"
    and "post_call v l st \<noteq> [] \<Longrightarrow> branch_line l \<and> instr_ok st"
    and "no_skip st \<Longrightarrow> plain_line l \<Longrightarrow> \<not> o_pass_thru v \<Longrightarrow> 100 \<le> inst_ratio v \<Longrightarrow> branch_line l \<Longrightarrow> instr_ok st \<Longrightarrow>
      post_call v l st \<noteq> []"
proof -
  note call = code_step_call [OF assms, where v = v]
  show "one_call v (post_call v l st)"
    using call(1) by (simp add: post_call_def Let_def one_call_def split: prod.split)
  show "o_pass_thru v \<Longrightarrow> post_call v l st = []" by (simp add: post_call_def Let_def split: prod.split)
  have dir: "char_at l 0 \<noteq> tab \<or> char_at l 1 \<noteq> CHR ''.''" if "branch_line l" using that by (simp add: branch_line_def)
  show "branch_line l \<and> instr_ok st" if ne: "post_call v l st \<noteq> []"
  proof -
    obtain stop st2 where s: "section_step v l (snd (deferred_step v l st)) = (stop, st2)"
      by (cases "section_step v l (snd (deferred_step v l st))")
    then have "fst (code_step v l (mode_step v l st2)) \<noteq> []" using ne by (simp add: post_call_def split: if_splits)
    then have b: "branch_line l" "instr_ok (mode_step v l st2)" using call(2) by blast+
    then have "st2 = snd (deferred_step v l st)" using no_directive(1) [OF dir] s by simp
    then show ?thesis using b by (simp add: mode_step_frame deferred_step_keeps)
  qed
  show "post_call v l st \<noteq> []"
    if "no_skip st" "plain_line l" "\<not> o_pass_thru v" "100 \<le> inst_ratio v" "branch_line l" "instr_ok st"
    using call(3) [OF mode_step_keeps(2) [OF assms that(2)]] that no_directive(1) [OF dir [OF that(5)]]
    by (simp add: post_call_def deferred_step_keeps mode_step_frame)
qed

lemma line_step_state:
  assumes "nul \<notin> set l"
  shows "no_skip st \<Longrightarrow> plain_line l \<Longrightarrow> no_skip (snd (line_step v l st))"
    and "instrument_next (snd (line_step v l st)) \<Longrightarrow>
      instrument_next st \<and> pre_call v l st = [] \<or> any_label v l \<and> instr_ok st"
    and "instrument_next st \<Longrightarrow> pre_call v l st = [] \<Longrightarrow> instrument_next (snd (line_step v l st))"
    and "no_skip st \<Longrightarrow> plain_line l \<Longrightarrow> \<not> o_pass_thru v \<Longrightarrow> function_label l \<Longrightarrow> instr_ok st \<Longrightarrow>
      instrument_next (snd (line_step v l st))"
    and "\<not> o_pass_thru v \<Longrightarrow> instr_ok (snd (line_step v l st)) = (opens_text l \<or> \<not> leaves_text l \<and> instr_ok st)"
proof -
  obtain stop st2 where s: "section_step v l (snd (deferred_step v l st)) = (stop, st2)"
    by (cases "section_step v l (snd (deferred_step v l st))")
  have s2: "no_skip st2 = no_skip st" "instrument_next st2 \<longleftrightarrow> instrument_next st \<and> pre_call v l st = []"
    "instr_ok st2 = (opens_text l \<or> \<not> leaves_text l \<and> instr_ok st)"
    using section_step_keeps [of v l "snd (deferred_step v l st)"] section_step_spec(2) [of v l "snd (deferred_step v l st)"] s
    by (auto simp: deferred_step_keeps)
  have stopped: "stop \<longleftrightarrow> opens_text l \<or> leaves_text l" using section_step_spec(3) [of v l "snd (deferred_step v l st)"] s by simp
  have nxt: "snd (line_step v l st) = (if o_pass_thru v then snd (deferred_step v l st) else if stop then st2
      else snd (code_step v l (mode_step v l st2)))" by (simp add: line_step_next s)
  note nx = code_step_next [OF assms, where v = v]
  show "no_skip st \<Longrightarrow> plain_line l \<Longrightarrow> no_skip (snd (line_step v l st))"
    using nx(1) mode_step_keeps(2) [OF assms] s2(1) by (simp add: nxt deferred_step_keeps)
  show "instrument_next st \<Longrightarrow> pre_call v l st = [] \<Longrightarrow> instrument_next (snd (line_step v l st))"
    using nx(3) s2(2) by (simp add: nxt deferred_step_keeps mode_step_keeps)
  have label: "char_at l 0 \<noteq> tab" if "any_label v l" using that by (auto simp: any_label_def function_label_def)
  show "instrument_next st \<and> pre_call v l st = [] \<or> any_label v l \<and> instr_ok st"
    if "instrument_next (snd (line_step v l st))"
  proof -
    have "instrument_next st2 \<or> any_label v l \<and> instr_ok st2 \<or> instrument_next st \<and> pre_call v l st = []"
      using that nx(2) [of "mode_step v l st2"]
      by (auto simp: nxt deferred_step_keeps mode_step_keeps mode_step_frame split: if_splits)
    then show ?thesis using s2(2,3) no_directive(2,3) [of l] label by blast
  qed
  show "instrument_next (snd (line_step v l st))"
    if "no_skip st" "plain_line l" "\<not> o_pass_thru v" "function_label l" "instr_ok st"
  proof -
    have "\<not> opens_text l" "\<not> leaves_text l" using no_directive(2,3) [of l] that(4) by (auto simp: function_label_def)
    then have "\<not> stop" "instr_ok st2" using stopped s2(3) that(5) by auto
    then show ?thesis
      using nx(4) [OF mode_step_keeps(2) [OF assms that(2)]] that s2(1) by (simp add: nxt mode_step_frame)
  qed
  show "instr_ok (snd (line_step v l st)) = (opens_text l \<or> \<not> leaves_text l \<and> instr_ok st)" if "\<not> o_pass_thru v"
    using that s2(3) code_step_cases [of v l "mode_step v l st2"] by (auto simp: nxt mode_step_frame)
qed

text \<open>The state in front of each line.\<close>

definition state_at :: "as_opts \<Rightarrow> string list \<Rightarrow> nat \<Rightarrow> as_state" where
  "state_at v ls i = snd (as_lines v (take i ls) as_init)"

lemma as_lines_append:
  "as_lines v (xs @ ys) st = (fst (as_lines v xs st) @ fst (as_lines v ys (snd (as_lines v xs st))),
     snd (as_lines v ys (snd (as_lines v xs st))))"
  by (induction xs arbitrary: st) (simp_all add: Let_def split: prod.splits)

lemma state_at_Suc: "i < length ls \<Longrightarrow> state_at v ls (Suc i) = snd (line_step v (ls ! i) (state_at v ls i))"
  by (simp add: state_at_def take_Suc_conv_app_nth as_lines_append split: prod.splits)

lemma as_lines_woven:
  "n \<le> length ls \<Longrightarrow> fst (as_lines v (take n ls) as_init) =
     concat (map (\<lambda>i. pre_call v (ls ! i) (state_at v ls i) @ [LINE (c_str (ls ! i))] @ post_call v (ls ! i) (state_at v ls i)) [0..<n])"
proof (induction n)
  case (Suc n)
  have "fst (as_lines v (take (Suc n) ls) as_init) =
      fst (as_lines v (take n ls) as_init) @ fst (line_step v (ls ! n) (state_at v ls n))"
    using Suc.prems by (simp add: take_Suc_conv_app_nth as_lines_append state_at_def split: prod.splits)
  then show ?case using Suc by (simp add: line_step_parts)
qed simp

text \<open>What is known about the state in front of a line.\<close>

lemma state_at_text:
  assumes "nul \<notin> \<Union> (set ` set ls)" and "\<not> o_pass_thru v"
  shows "i \<le> length ls \<Longrightarrow> instr_ok (state_at v ls i) = in_text (take i ls)"
proof (induction i)
  case 0
  then show ?case by (simp add: state_at_def as_init_def in_text_def)
next
  case (Suc i)
  then have "nul \<notin> set (ls ! i)" using assms(1) nth_mem [of i ls] by auto
  then show ?case
    using Suc line_step_state(5) assms(2) by (simp add: state_at_Suc take_Suc_conv_app_nth in_text_snoc)
qed

lemma state_at_armed:
  assumes "nul \<notin> \<Union> (set ` set ls)" and "\<not> o_pass_thru v"
  shows "i \<le> length ls \<Longrightarrow> instrument_next (state_at v ls i) \<Longrightarrow>
    \<exists>k < i. any_label v (ls ! k) \<and> in_text (take k ls) \<and> (\<forall>j. k < j \<and> j < i \<longrightarrow> pre_call v (ls ! j) (state_at v ls j) = [])"
proof (induction i)
  case 0
  then show ?case by (simp add: state_at_def as_init_def)
next
  case (Suc i)
  then have i: "i < length ls" "nul \<notin> set (ls ! i)" using assms(1) nth_mem [of i ls] by auto
  then have "instrument_next (snd (line_step v (ls ! i) (state_at v ls i)))" using Suc.prems(2) by (simp add: state_at_Suc)
  from line_step_state(2) [OF i(2) this] show ?case
  proof
    assume "instrument_next (state_at v ls i) \<and> pre_call v (ls ! i) (state_at v ls i) = []"
    then show ?thesis using Suc.IH i(1) by (metis Suc_leD Suc.prems(1) less_Suc_eq)
  next
    assume "any_label v (ls ! i) \<and> instr_ok (state_at v ls i)"
    then show ?thesis using state_at_text [OF assms, of i] i(1) by (intro exI [of _ i]) auto
  qed
qed

lemma state_at_plain:
  assumes "nul \<notin> \<Union> (set ` set ls)" and "\<forall>l \<in> set ls. plain_line l"
  shows "i \<le> length ls \<Longrightarrow> no_skip (state_at v ls i)"
proof (induction i)
  case 0
  then show ?case by (simp add: state_at_def as_init_def no_skip_def)
next
  case (Suc i)
  then have "nul \<notin> set (ls ! i)" "plain_line (ls ! i)" using assms nth_mem [of i ls] by auto
  then show ?case using Suc line_step_state(1) by (simp add: state_at_Suc)
qed

lemma state_at_label:
  assumes "nul \<notin> \<Union> (set ` set ls)" and "\<forall>l \<in> set ls. plain_line l" and "\<not> o_pass_thru v"
    and "function_label (ls ! k)" and "in_text (take k ls)"
  shows "k < i \<Longrightarrow> i \<le> length ls \<Longrightarrow> (\<forall>j. k < j \<and> j < i \<longrightarrow> \<not> (instruction_line (ls ! j) \<and> in_text (take j ls))) \<Longrightarrow>
    instrument_next (state_at v ls i)"
proof (induction i)
  case (Suc i)
  then have i: "i < length ls" "nul \<notin> set (ls ! i)" "plain_line (ls ! i)" using assms(1,2) nth_mem [of i ls] by auto
  note sect = state_at_text [OF assms(1,3), of i]
  show ?case
  proof (cases "k = i")
    case True
    then show ?thesis
      using line_step_state(4) [OF i(2) state_at_plain [OF assms(1,2)] i(3) assms(3)] assms(4,5) i(1) sect by (simp add: state_at_Suc)
  next
    case False
    then have "instrument_next (state_at v ls i)" "\<not> (instruction_line (ls ! i) \<and> in_text (take i ls))" using Suc by auto
    moreover from this(2) have "pre_call v (ls ! i) (state_at v ls i) = []" using pre_call_facts(3) sect i(1) by fastforce
    ultimately show ?thesis using line_step_state(3) [OF i(2)] i(1) by (simp add: state_at_Suc)
  qed
qed simp

section \<open>The properties\<close>

text \<open>
  The output as the input lines with something before and after each of them, and the code that the
  calls call at the very end, if there is a call at all.
\<close>

definition woven :: "as_opts \<Rightarrow> string list \<Rightarrow> (nat \<Rightarrow> out_item list) \<Rightarrow> (nat \<Rightarrow> out_item list) \<Rightarrow> out_item list" where
  "woven v ls pre post =
     concat (map (\<lambda>i. pre i @ [LINE (ls ! i)] @ post i) [0..<length ls]) @
     (if list_all (\<lambda>i. pre i = [] \<and> post i = []) [0..<length ls] then [] else [MAIN_PAYLOAD (o_64bit v)])"

lemma calls_concat: "calls (concat (map f xs)) = sum_list (map (\<lambda>x. calls (f x)) xs)"
  by (induction xs) simp_all

lemma instrumented_woven:
  assumes "nul \<notin> set contents" and "length contents < 2 ^ 31"
  defines "ls \<equiv> file_lines contents"
  shows "add_instrumentation v contents =
    woven v ls (\<lambda>i. pre_call v (ls ! i) (state_at v ls i)) (\<lambda>i. post_call v (ls ! i) (state_at v ls i))"
proof -
  define pre where "pre = (\<lambda>i. pre_call v (ls ! i) (state_at v ls i))"
  define post where "post = (\<lambda>i. post_call v (ls ! i) (state_at v ls i))"
  have clean: "nul \<notin> set (ls ! i)" if "i < length ls" for i
    using file_lines_chars [of "ls ! i" contents] assms(1) that unfolding ls_def by auto
  have "c_str (ls ! i) = ls ! i" if "i < length ls" for i
    using clean [OF that] by (auto simp: c_str_def takeWhile_eq_all_conv)
  then have body: "fst (as_lines v ls as_init) = concat (map (\<lambda>i. pre i @ [LINE (ls ! i)] @ post i) [0..<length ls])"
    using as_lines_woven [of "length ls" ls v] unfolding pre_def post_def
    by (simp del: append_Cons append_Nil) (intro arg_cong [where f = concat] map_cong refl, simp)
  obtain out where out: "add_instrumentation v contents = out @ (if calls out = 0 then [] else [MAIN_PAYLOAD (o_64bit v)])"
    "out = fst (as_lines v ls as_init)"
    using instrumented [OF assms(2)] unfolding ls_def by metis
  from this(2) have out2: "out = concat (map (\<lambda>i. pre i @ [LINE (ls ! i)] @ post i) [0..<length ls])" using body by simp
  have "calls (pre i @ [LINE (ls ! i)] @ post i) = 0 \<longleftrightarrow> pre i = [] \<and> post i = []" if "i < length ls" for i
    using pre_call_facts(1) [of v "ls ! i" "state_at v ls i"] post_call_facts(1) [OF clean [OF that], of v "state_at v ls i"]
    by (auto simp: one_call_def pre_def post_def)
  then have "calls out = 0 \<longleftrightarrow> list_all (\<lambda>i. pre i = [] \<and> post i = []) [0..<length ls]"
    unfolding out2 calls_concat by (simp add: list_all_iff)
  then show ?thesis unfolding woven_def pre_def [symmetric] post_def [symmetric] using out(1) out2 by simp
qed

lemma woven_lines: "out_lines (concat (map (\<lambda>i. pre i @ [LINE (ls ! i)] @ post i) is)) = map (\<lambda>i. ls ! i) is"
  if "\<forall>i \<in> set is. one_call v (pre i) \<and> one_call v (post i)"
  using that by (induction "is") (auto simp: one_call_def)

text \<open>
  C28: the instrumented file is the input file, line for line and character for character, with at most
  one call of the instrumentation before and one after each line, and the code that they call once, as
  the last thing, if and only if there is a call. A call comes before an instruction only, in the text
  section, and only for a label since which no such call has been written; a call comes after a
  conditional branch in the text section only. A file that is only to be passed through gets none. With a
  ratio of 100 and no line that switches the instrumentation off, every conditional branch of the text
  section is followed by a call, and the first instruction after a function label has one before it.
\<close>

theorem as_keeps_program:
  assumes "nul \<notin> set contents" and "length contents < 2 ^ 31" and "ls = file_lines contents"
  shows "concat ls = contents \<and>
    (\<exists>pre post. add_instrumentation v contents = woven v ls pre post \<and>
      (\<forall>i < length ls. one_call v (pre i) \<and> one_call v (post i)) \<and>
      (\<forall>i < length ls. pre i \<noteq> [] \<longrightarrow> \<not> o_pass_thru v \<and> instruction_line (ls ! i) \<and> in_text (take i ls) \<and>
         (\<exists>k < i. any_label v (ls ! k) \<and> in_text (take k ls) \<and> (\<forall>j. k < j \<and> j < i \<longrightarrow> pre j = []))) \<and>
      (\<forall>i < length ls. post i \<noteq> [] \<longrightarrow> \<not> o_pass_thru v \<and> branch_line (ls ! i) \<and> in_text (take i ls)) \<and>
      (\<not> o_pass_thru v \<and> 100 \<le> inst_ratio v \<and> (\<forall>l \<in> set ls. plain_line l) \<longrightarrow>
        (\<forall>i < length ls. branch_line (ls ! i) \<and> in_text (take i ls) \<longrightarrow> post i \<noteq> []) \<and>
        (\<forall>k i. k < i \<and> i < length ls \<and> function_label (ls ! k) \<and> in_text (take k ls) \<and>
           instruction_line (ls ! i) \<and> in_text (take i ls) \<and>
           (\<forall>j. k < j \<and> j < i \<longrightarrow> \<not> (instruction_line (ls ! j) \<and> in_text (take j ls))) \<longrightarrow> pre i \<noteq> [])))"
proof -
  define pre where "pre = (\<lambda>i. pre_call v (ls ! i) (state_at v ls i))"
  define post where "post = (\<lambda>i. post_call v (ls ! i) (state_at v ls i))"
  have clean: "nul \<notin> \<Union> (set ` set ls)" using file_lines_chars [of _ contents] assms(1) unfolding assms(3) by auto
  then have clean_i: "nul \<notin> set (ls ! i)" if "i < length ls" for i using nth_mem [OF that] by auto
  note pf = pre_call_facts [where v = v] and qf = post_call_facts [OF clean_i, where v = v]
  have 1: "add_instrumentation v contents = woven v ls pre post"
    unfolding pre_def post_def assms(3) by (rule instrumented_woven [OF assms(1,2)])
  have 2: "\<forall>i < length ls. one_call v (pre i) \<and> one_call v (post i)" using pf(1) qf(1) by (simp add: pre_def post_def)
  have 3: "\<not> o_pass_thru v \<and> instruction_line (ls ! i) \<and> in_text (take i ls) \<and>
         (\<exists>k < i. any_label v (ls ! k) \<and> in_text (take k ls) \<and> (\<forall>j. k < j \<and> j < i \<longrightarrow> pre j = []))"
    if "i < length ls" "pre i \<noteq> []" for i
  proof -
    have np: "\<not> o_pass_thru v" using pf(2) that(2) by (auto simp: pre_def)
    then show ?thesis using pf(3) that state_at_text [OF clean np, of i] state_at_armed [OF clean np, of i]
      unfolding pre_def by fastforce
  qed
  have 4: "\<not> o_pass_thru v \<and> branch_line (ls ! i) \<and> in_text (take i ls)" if "i < length ls" "post i \<noteq> []" for i
  proof -
    have np: "\<not> o_pass_thru v" using qf(2) [OF that(1)] that(2) by (auto simp: post_def)
    then show ?thesis using qf(3) [OF that(1)] that state_at_text [OF clean np, of i] by (simp add: post_def)
  qed
  have 5: "(branch_line (ls ! i) \<and> in_text (take i ls) \<longrightarrow> post i \<noteq> []) \<and>
        (function_label (ls ! k) \<and> k < i \<and> in_text (take k ls) \<and> instruction_line (ls ! i) \<and> in_text (take i ls) \<and>
           (\<forall>j. k < j \<and> j < i \<longrightarrow> \<not> (instruction_line (ls ! j) \<and> in_text (take j ls))) \<longrightarrow> pre i \<noteq> [])"
    if full: "\<not> o_pass_thru v" "100 \<le> inst_ratio v" "\<forall>l \<in> set ls. plain_line l" and i: "i < length ls" for i k
  proof -
    note sect = state_at_text [OF clean full(1), of i] and skip = state_at_plain [OF clean full(3), of i v]
    have "plain_line (ls ! i)" using full(3) nth_mem [OF i] by blast
    then show ?thesis
      using qf(4) [OF i skip _ full(1,2)] pf(4) [OF skip full(1)] sect i
        state_at_label [OF clean full(3,1), of k i] by (auto simp: pre_def post_def)
  qed
  have "concat ls = contents" using file_lines_concat [of contents] by (simp add: assms(3))
  moreover have "\<forall>i < length ls. pre i \<noteq> [] \<longrightarrow> \<not> o_pass_thru v \<and> instruction_line (ls ! i) \<and> in_text (take i ls) \<and>
         (\<exists>k < i. any_label v (ls ! k) \<and> in_text (take k ls) \<and> (\<forall>j. k < j \<and> j < i \<longrightarrow> pre j = []))"
    using 3 by (intro allI impI) blast
  moreover have "\<forall>i < length ls. post i \<noteq> [] \<longrightarrow> \<not> o_pass_thru v \<and> branch_line (ls ! i) \<and> in_text (take i ls)"
    using 4 by (intro allI impI) blast
  moreover have "\<not> o_pass_thru v \<and> 100 \<le> inst_ratio v \<and> (\<forall>l \<in> set ls. plain_line l) \<longrightarrow>
        (\<forall>i < length ls. branch_line (ls ! i) \<and> in_text (take i ls) \<longrightarrow> post i \<noteq> []) \<and>
        (\<forall>k i. k < i \<and> i < length ls \<and> function_label (ls ! k) \<and> in_text (take k ls) \<and>
           instruction_line (ls ! i) \<and> in_text (take i ls) \<and>
           (\<forall>j. k < j \<and> j < i \<longrightarrow> \<not> (instruction_line (ls ! j) \<and> in_text (take j ls))) \<longrightarrow> pre i \<noteq> [])"
    using 5 by (intro impI conjI allI) blast+
  ultimately show ?thesis using 1 2 by (intro conjI exI [of _ pre] exI [of _ post]) assumption+
qed

text \<open>
  C29: a call of the instrumentation is only ever inserted where the text section is open: of the lines
  written before it, the last one that opens or leaves the text section opens it.
\<close>

theorem as_instruments_text_only:
  assumes "length contents < 2 ^ 31" and "add_instrumentation v contents = xs @ TRAMPOLINE b r # ys"
  shows "in_text (out_lines xs)"
proof -
  obtain out where out: "add_instrumentation v contents = out @ (if calls out = 0 then [] else [MAIN_PAYLOAD (o_64bit v)])"
    "only_in_text [] out"
    using instrumented [OF assms(1)] by metis
  show ?thesis
  proof (cases ys rule: rev_cases)
    case Nil
    then have "out = xs @ TRAMPOLINE b r # ys" using out(1) assms(2) by (auto split: if_splits)
    then show ?thesis using out(2) unfolding only_in_text_def by fastforce
  next
    case (snoc zs z)
    then have "out = xs @ TRAMPOLINE b r # (if calls out = 0 then ys else zs)"
      using out(1) assms(2) by (auto split: if_splits)
    then show ?thesis using out(2) unfolding only_in_text_def by (metis append_Nil)
  qed
qed

section \<open>Examples\<close>

definition demo_as :: as_opts where
  "demo_as = \<lparr>o_pass_thru = False, o_64bit = True, o_clang = False, inst_ratio = 100, o_random = (\<lambda>n. n)\<rparr>"

text \<open>A function with one conditional branch, and some data that looks like it.\<close>

definition demo_asm :: string where
  "demo_asm = tab # ''.text'' @ [newline] @ ''f:'' @ [newline, tab] @ ''cmp'' @ [newline, tab] @ ''je .L1'' @ [newline, tab] @
     ''.data'' @ [newline] @ ''g:'' @ [newline, tab] @ ''je'' @ [newline]"

lemma demo_asm_lines: "file_lines demo_asm =
  [tab # ''.text'' @ [newline], ''f:'' @ [newline], tab # ''cmp'' @ [newline], tab # ''je .L1'' @ [newline],
   tab # ''.data'' @ [newline], ''g:'' @ [newline], tab # ''je'' @ [newline]]"
  by (simp add: file_lines.simps fgets_as_def MAX_LINE_as_def demo_asm_def Let_def)

lemma demo_asm_out: "add_instrumentation demo_as demo_asm =
  [LINE (tab # ''.text'' @ [newline]), LINE (''f:'' @ [newline]), TRAMPOLINE True 0, LINE (tab # ''cmp'' @ [newline]),
   LINE (tab # ''je .L1'' @ [newline]), TRAMPOLINE True 2, LINE (tab # ''.data'' @ [newline]), LINE (''g:'' @ [newline]),
   LINE (tab # ''je'' @ [newline]), MAIN_PAYLOAD True]"
  unfolding add_instrumentation_def demo_asm_lines
  by (simp add: line_step_def deferred_step_def section_step_def mode_step_def code_step_def label_step_def trampoline_def
    RAND_def as_init_def demo_as_def char_at_def c_str_def isalpha_def isdigit_def text_directive_def other_directive_def
    AS_MAP_SIZE_def Let_def)

text \<open>The branch of the example, at line 3 of the file, is followed by its call; the data is left alone.\<close>

theorem as_keeps_program_witness:
  "\<exists>pre post r. add_instrumentation demo_as demo_asm = woven demo_as (file_lines demo_asm) pre post \<and>
     post 3 = [TRAMPOLINE True r] \<and> pre 2 \<noteq> [] \<and> pre 6 = [] \<and> post 6 = []"
proof -
  let ?ls = "file_lines demo_asm"
  have pre: "nul \<notin> set demo_asm" "length demo_asm < 2 ^ 31" by (simp_all add: demo_asm_def)
  have len: "length ?ls = 7" by (simp add: demo_asm_lines)
  have sect: "\<not> in_text (take 6 ?ls)" "in_text (take 3 ?ls)" "in_text (take 2 ?ls)" "in_text (take 1 ?ls)"
    using in_text_snoc [of "[]"] in_text_snoc [of "take 1 ?ls"] in_text_snoc [of "take 2 ?ls"] in_text_snoc [of "take 3 ?ls"]
      in_text_snoc [of "take 4 ?ls"] in_text_snoc [of "take 5 ?ls"]
    by (simp_all add: demo_asm_lines opens_text_def leaves_text_def char_at_def c_str_def text_directive_def other_directive_def)
  have kinds: "branch_line (?ls ! 3)" "function_label (?ls ! 1)" "instruction_line (?ls ! 2)"
    by (simp_all add: demo_asm_lines branch_line_def function_label_def instruction_line_def char_at_def isalpha_def)
  have plain: "\<forall>l \<in> set ?ls. plain_line l" by (simp add: demo_asm_lines plain_line_def)
  have opts: "\<not> o_pass_thru demo_as" "100 \<le> inst_ratio demo_as" "o_64bit demo_as" by (simp_all add: demo_as_def)
  obtain f g where r: "add_instrumentation demo_as demo_asm = woven demo_as ?ls f g"
    "\<forall>i < length ?ls. one_call demo_as (f i) \<and> one_call demo_as (g i)"
    "\<forall>i < length ?ls. f i \<noteq> [] \<longrightarrow> \<not> o_pass_thru demo_as \<and> instruction_line (?ls ! i) \<and> in_text (take i ?ls) \<and>
         (\<exists>k < i. any_label demo_as (?ls ! k) \<and> in_text (take k ?ls) \<and> (\<forall>j. k < j \<and> j < i \<longrightarrow> f j = []))"
    "\<forall>i < length ?ls. g i \<noteq> [] \<longrightarrow> \<not> o_pass_thru demo_as \<and> branch_line (?ls ! i) \<and> in_text (take i ?ls)"
    and full: "\<not> o_pass_thru demo_as \<and> 100 \<le> inst_ratio demo_as \<and> (\<forall>l \<in> set ?ls. plain_line l) \<longrightarrow>
        (\<forall>i < length ?ls. branch_line (?ls ! i) \<and> in_text (take i ?ls) \<longrightarrow> g i \<noteq> []) \<and>
        (\<forall>k i. k < i \<and> i < length ?ls \<and> function_label (?ls ! k) \<and> in_text (take k ?ls) \<and>
           instruction_line (?ls ! i) \<and> in_text (take i ?ls) \<and>
           (\<forall>j. k < j \<and> j < i \<longrightarrow> \<not> (instruction_line (?ls ! j) \<and> in_text (take j ?ls))) \<longrightarrow> f i \<noteq> [])"
    using as_keeps_program [OF pre refl, of demo_as] by (elim conjE exE) (rule that)
  have all: "\<forall>i < length ?ls. branch_line (?ls ! i) \<and> in_text (take i ?ls) \<longrightarrow> g i \<noteq> []"
    "\<And>k i. k < i \<Longrightarrow> i < length ?ls \<Longrightarrow> function_label (?ls ! k) \<Longrightarrow> in_text (take k ?ls) \<Longrightarrow>
           instruction_line (?ls ! i) \<Longrightarrow> in_text (take i ?ls) \<Longrightarrow>
           (\<forall>j. k < j \<and> j < i \<longrightarrow> \<not> (instruction_line (?ls ! j) \<and> in_text (take j ?ls))) \<Longrightarrow> f i \<noteq> []"
    using full opts(1,2) plain by blast+
  have "f 2 \<noteq> []" by (rule all(2) [of 1 2]) (use len kinds(2,3) sect(3,4) in auto)
  moreover have "f 6 = []" "g 6 = []" using r(3,4) [rule_format, of 6] len sect(1) by fastforce+
  moreover have "g 3 \<noteq> []" using all(1) len kinds(1) sect(2) by simp
  then have "\<exists>n. g 3 = [TRAMPOLINE True n]" using r(2) [rule_format, of 3] len opts(3) by (auto simp: one_call_def)
  ultimately show ?thesis using r(1) by blast
qed

theorem as_instruments_text_only_witness:
  "in_text [tab # ''.text'' @ [newline], ''f:'' @ [newline]]"
proof -
  have "length demo_asm < 2 ^ 31" by (simp add: demo_asm_def)
  moreover have "add_instrumentation demo_as demo_asm =
      [LINE (tab # ''.text'' @ [newline]), LINE (''f:'' @ [newline])] @ TRAMPOLINE True 0 # [LINE (tab # ''cmp'' @ [newline]),
       LINE (tab # ''je .L1'' @ [newline]), TRAMPOLINE True 2, LINE (tab # ''.data'' @ [newline]), LINE (''g:'' @ [newline]),
       LINE (tab # ''je'' @ [newline]), MAIN_PAYLOAD True]"
    by (simp add: demo_asm_out)
  ultimately have "in_text (out_lines [LINE (tab # ''.text'' @ [newline]), LINE (''f:'' @ [newline])])"
    by (rule as_instruments_text_only)
  then show ?thesis by simp
qed

end
