(* ===== verification/Afl_Links.thy ===== *)
theory Afl_Links
  imports Afl_Frame
begin

text \<open>
  What a fuzzing session does to the queue as a list and to the marks of a cycle.  Almost every routine
  leaves the links and the marks alone; a find is linked in unmarked, and then the pointer to the first
  entry without a mark is set anew.
\<close>

section \<open>Links and marks\<close>

definition link_of :: "queue_entry \<Rightarrow> bool \<times> nat option" where
  "link_of e = (q_handled_in_cycle e, q_next e)"

definition links_in :: "entry_heap \<Rightarrow> nat \<Rightarrow> (bool \<times> nat option) option" where
  "links_in h = (\<lambda>p. map_option link_of (h p))"

definition links :: "'a fuzz_state_scheme \<Rightarrow>
    (nat \<Rightarrow> (bool \<times> nat option) option) \<times> nat option \<times> nat option \<times> nat option \<times> nat \<times> nat" where
  "links s = (links_in (entries s), queue s, queue_cur s, first_unhandled s, next_alloc s, length (shortcut_per_100 s))"

lemma links_in_upd [simp]: "h p = Some e \<Longrightarrow> link_of e' = link_of e \<Longrightarrow> links_in (h(p \<mapsto> e')) = links_in h"
  by (auto simp: links_in_def fun_eq_iff)

lemma qpath_links: "links_in h' = links_in h \<Longrightarrow> qpath h' p xs = qpath h p xs"
proof (induction xs arbitrary: p)
  case (Cons x xs)
  have "map_option link_of (h' x) = map_option link_of (h x)"
    using Cons.prems by (simp add: links_in_def fun_eq_iff)
  then show ?case
    using Cons by (cases "h x"; cases "h' x") (simp_all add: link_of_def)
qed simp

lemma unhandled_links: "links_in h' = links_in h \<Longrightarrow> unhandled h' = unhandled h"
proof
  fix p assume "links_in h' = links_in h"
  then have "map_option link_of (h' p) = map_option link_of (h p)" by (simp add: links_in_def fun_eq_iff)
  then show "unhandled h' p = unhandled h p"
    by (cases "h p"; cases "h' p") (simp_all add: link_of_def unhandled_def)
qed

lemma dom_links: "links_in h' = links_in h \<Longrightarrow> (h' p = None) = (h p = None)"
  by (metis links_in_def option.map_disc_iff)

section \<open>Growth\<close>

text \<open>The queue as the list \<open>xs\<close>; new entries are allocated beyond all others.\<close>

definition listed :: "'a fuzz_state_scheme \<Rightarrow> nat list \<Rightarrow> bool" where
  "listed s xs \<longleftrightarrow> xs \<noteq> [] \<and> qpath (entries s) (queue s) xs \<and> distinct xs \<and> length (shortcut_per_100 s) = 1024 \<and>
     (\<forall>p. next_alloc s \<le> p \<longrightarrow> entries s p = None) \<and> next_alloc s < 2 ^ 32"

definition grew :: "'a fuzz_state_scheme \<Rightarrow> 'a fuzz_state_scheme \<Rightarrow> bool" where
  "grew s s' \<longleftrightarrow> (\<forall>xs. listed s xs \<and> next_alloc s' < 2 ^ 32 \<longrightarrow>
     (\<exists>xs'. listed s' xs' \<and> set xs \<subseteq> set xs' \<and>
        (\<forall>p \<in> set xs. unhandled (entries s') p = unhandled (entries s) p) \<and>
        (\<forall>p \<in> set xs' - set xs. unhandled (entries s') p) \<and>
        (xs' = xs \<and> first_unhandled s' = first_unhandled s \<or>
         first_unhandled s' = find (unhandled (entries s')) xs'))) \<and>
   queue_cur s' = queue_cur s \<and> next_alloc s \<le> next_alloc s'"

lemma grew_links:
  assumes "links s' = links s"
  shows "grew s s'"
proof -
  have l: "links_in (entries s') = links_in (entries s)" using assms by (simp add: links_def)
  have "listed s' xs = listed s xs" for xs
    using assms dom_links [OF l] unfolding listed_def qpath_links [OF l] by (simp add: links_def qpath_links [OF l])
  then show ?thesis
    using assms unhandled_links [OF l] by (auto simp: grew_def links_def)
qed

lemma grew_refl [simp, intro]: "grew s s"
  by (rule grew_links) simp

lemma grew_trans:
  assumes "grew s t" and "grew t u"
  shows "grew s u"
proof -
  have cur: "queue_cur u = queue_cur s" "next_alloc s \<le> next_alloc u"
    using assms by (auto simp: grew_def)
  have "\<exists>xs'. listed u xs' \<and> set xs \<subseteq> set xs' \<and>
        (\<forall>p \<in> set xs. unhandled (entries u) p = unhandled (entries s) p) \<and>
        (\<forall>p \<in> set xs' - set xs. unhandled (entries u) p) \<and>
        (xs' = xs \<and> first_unhandled u = first_unhandled s \<or>
         first_unhandled u = find (unhandled (entries u)) xs')"
    if s: "listed s xs" and n: "next_alloc u < 2 ^ 32" for xs
  proof -
    have nt: "next_alloc t < 2 ^ 32" using n assms(2) by (auto simp: grew_def)
    obtain ys where y: "listed t ys" "set xs \<subseteq> set ys"
      "\<forall>p \<in> set xs. unhandled (entries t) p = unhandled (entries s) p"
      "\<forall>p \<in> set ys - set xs. unhandled (entries t) p"
      "ys = xs \<and> first_unhandled t = first_unhandled s \<or> first_unhandled t = find (unhandled (entries t)) ys"
      using assms(1) s nt unfolding grew_def by blast
    obtain zs where z: "listed u zs" "set ys \<subseteq> set zs"
      "\<forall>p \<in> set ys. unhandled (entries u) p = unhandled (entries t) p"
      "\<forall>p \<in> set zs - set ys. unhandled (entries u) p"
      "zs = ys \<and> first_unhandled u = first_unhandled t \<or> first_unhandled u = find (unhandled (entries u)) zs"
      using assms(2) y(1) n unfolding grew_def by blast
    have "find (unhandled (entries u)) ys = find (unhandled (entries t)) ys"
      using z(3) by (simp cong: find_cong)
    then have "zs = xs \<and> first_unhandled u = first_unhandled s \<or> first_unhandled u = find (unhandled (entries u)) zs"
      using y(5) z(5) by auto
    then show ?thesis using y(2,3,4) z(1,2,3,4) by (intro exI [of _ zs]) auto
  qed
  then show ?thesis using cur unfolding grew_def by blast
qed

section \<open>Routines that keep the links\<close>

lemma links_bitmap: "bitmap_state.more s' = bitmap_state.more s \<Longrightarrow> links s' = links s"
  by (cases s; cases s') (simp add: links_def)

lemma links_new_bits: "has_new_bits vm s = (r, s') \<Longrightarrow> links s' = links s"
  using more_has_new_bits [of vm s] by (intro links_bitmap) simp

lemma links_entries [simp]: "links_in h = links_in (entries s) \<Longrightarrow> links (s\<lparr>entries := h\<rparr>) = links s"
  by (simp add: links_def)

lemma links_store:
  assumes "entries u p = Some e" and "links u = links s" and "links t = links s" and "link_of e' = link_of e"
  shows "links (t\<lparr>entries := (entries t)(p \<mapsto> e')\<rparr>) = links s"
proof -
  have "links_in (entries t) = links_in (entries u)" using assms(2,3) by (simp add: links_def)
  then have "map_option link_of (entries t p) = Some (link_of e')"
    using assms(1,4) by (metis links_in_def option.simps(9))
  then obtain e1 where "entries t p = Some e1" "link_of e' = link_of e1" by auto
  then have "links (t\<lparr>entries := (entries t)(p \<mapsto> e')\<rparr>) = links t" by simp
  then show ?thesis using assms(3) by simp
qed

lemma links_write: "write_to_testcase mem len s = Some s' \<Longrightarrow> links s' = links s"
  by (auto simp: write_to_testcase_def Let_def links_def split: bind_splits)

lemma links_gap: "write_with_gap mem len a b s = Some s' \<Longrightarrow> links s' = links s"
  unfolding write_with_gap_def Let_def links_def by (auto split: bind_splits)

lemma links_outcome: "run_outcome t ms tb st s = (f, s') \<Longrightarrow> links s' = links s"
  using run_outcome_frame [of t ms tb st s f s'] by (auto simp: links_def)

lemma links_run_target: "run_target w t s = Inr (f, s') \<Longrightarrow> links s' = links s"
  by (auto simp: run_target_def Let_def fork_server_lost_def links_def
      dest!: links_outcome split: option.splits if_splits)

lemma links_upd [simp]:
  "links (s\<lparr>stop_soon := n\<rparr>) = links s" "links (s\<lparr>ticks := m\<rparr>) = links s"
  "links (s\<lparr>run_over10m := b\<rparr>) = links s" "links (s\<lparr>last_ms := t\<rparr>) = links s"
  "links (s\<lparr>stats_update_freq := f\<rparr>) = links s" "links (s\<lparr>last_stats_ms := t\<rparr>) = links s"
  "links (s\<lparr>total_cal_us := u\<rparr>) = links s" "links (s\<lparr>total_cal_cycles := u\<rparr>) = links s"
  "links (s\<lparr>total_bitmap_size := u\<rparr>) = links s" "links (s\<lparr>total_bitmap_entries := u\<rparr>) = links s"
  "links (s\<lparr>total_prox_score := u\<rparr>) = links s" "links (s\<lparr>avg_prox_score := u\<rparr>) = links s"
  "links (s\<lparr>min_prox_score := u\<rparr>) = links s" "links (s\<lparr>max_prox_score := u\<rparr>) = links s"
  "links (s\<lparr>queued_with_cov := v\<rparr>) = links s" "links (s\<lparr>queued_variable := v\<rparr>) = links s"
  "links (s\<lparr>var_byte_count := v\<rparr>) = links s" "links (s\<lparr>stage_name := nm\<rparr>) = links s"
  "links (s\<lparr>stage_cur := c\<rparr>) = links s" "links (s\<lparr>stage_max := c\<rparr>) = links s"
  "links (s\<lparr>forksrv_pid := p\<rparr>) = links s" "links (s\<lparr>first_trace := tr\<rparr>) = links s"
  "links (s\<lparr>total_crashes := u\<rparr>) = links s" "links (s\<lparr>unique_crashes := u\<rparr>) = links s"
  "links (s\<lparr>total_tmouts := u\<rparr>) = links s" "links (s\<lparr>unique_tmouts := u\<rparr>) = links s"
  "links (s\<lparr>unique_hangs := u\<rparr>) = links s" "links (s\<lparr>last_hang_time := u\<rparr>) = links s"
  "links (s\<lparr>last_crash_time := u\<rparr>) = links s" "links (s\<lparr>last_crash_execs := u\<rparr>) = links s"
  "links (s\<lparr>trace_bits := tr\<rparr>) = links s" "links (s\<lparr>subseq_tmouts := v\<rparr>) = links s"
  "links (s\<lparr>cur_skipped_paths := v\<rparr>) = links s" "links (s\<lparr>skip_requested := b\<rparr>) = links s"
  "links (s\<lparr>queued_discovered := v\<rparr>) = links s" "links (s\<lparr>disk := d\<rparr>) = links s"
  "links (s\<lparr>trim_execs := u\<rparr>) = links s" "links (s\<lparr>bytes_trim_in := u\<rparr>) = links s"
  "links (s\<lparr>bytes_trim_out := u\<rparr>) = links s" "links (s\<lparr>rand_cnt := v\<rparr>) = links s"
  "links (s\<lparr>draws := m\<rparr>) = links s" "links (s\<lparr>stage_cur_byte := c\<rparr>) = links s"
  "links (s\<lparr>stage_cur_val := c\<rparr>) = links s" "links (s\<lparr>stage_val_type := vt\<rparr>) = links s"
  "links (s\<lparr>stage_short := nm\<rparr>) = links s" "links (s\<lparr>splicing_with := c\<rparr>) = links s"
  "links (s\<lparr>stage_finds := g\<rparr>) = links s" "links (s\<lparr>stage_cycles := g\<rparr>) = links s"
  "links (s\<lparr>blocks_eff_total := u\<rparr>) = links s" "links (s\<lparr>blocks_eff_select := u\<rparr>) = links s"
  "links (s\<lparr>cur_depth := v\<rparr>) = links s" "links (s\<lparr>pending_not_fuzzed := v\<rparr>) = links s"
  "links (s\<lparr>pending_favored := v\<rparr>) = links s" "links (s\<lparr>queue_cycle := u\<rparr>) = links s"
  "links (s\<lparr>queued_favored := v\<rparr>) = links s" "links (s\<lparr>score_changed := b\<rparr>) = links s"
  "links (s\<lparr>redundant_edges := sd\<rparr>) = links s" "links (s\<lparr>deterministic_done := sd\<rparr>) = links s"
  "links (s\<lparr>syncing_party := sp\<rparr>) = links s" "links (s\<lparr>syncing_case := v\<rparr>) = links s"
  "links (s\<lparr>cycles_wo_finds := u\<rparr>) = links s" "links (s\<lparr>use_splicing := b\<rparr>) = links s"
  "links (s\<lparr>current_entry := v\<rparr>) = links s" "links (s\<lparr>top_rated := tops\<rparr>) = links s"
  by (simp_all add: links_def)

lemma links_save_auto: "save_auto s = Some s' \<Longrightarrow> links s' = links s"
  by (auto simp: save_auto_def links_def split: if_splits bind_splits)

lemma links_write_bitmap [simp]: "links (write_bitmap s) = links s"
  by (simp add: write_bitmap_def links_def)

lemma links_show_stats: "show_stats w s = Some s' \<Longrightarrow> links s' = links s"
  unfolding show_stats_def get_cur_time_def Let_def prod.case
  by (auto dest!: links_save_auto split: if_split_asm bind_splits)

lemma links_create_file: "create_file fn d s = Inr s' \<Longrightarrow> links s' = links s"
  by (auto simp: create_file_def split: if_split_asm)

lemma links_crash_readme [simp]: "links (write_crash_readme w s) = links s"
  by (simp add: write_crash_readme_def)

lemma links_note_variable [simp]: "links (note_variable s) = links s"
  by (simp add: links_def note_variable_def Let_def)

section \<open>Ranking and marks\<close>

lemma drop_ref_link [simp]: "link_of (drop_ref e) = link_of e"
  by (simp add: drop_ref_def Let_def link_of_def)

lemma take_ref_link: "take_ref tr e = Some e' \<Longrightarrow> link_of e' = link_of e"
  by (auto simp: take_ref_def Let_def link_of_def split: option.splits bind_splits)

lemma score_loop_links:
  "score_loop n q ff i s = Some s' \<Longrightarrow> links_in (entries s') = links_in (entries s) \<and>
     queue s' = queue s \<and> queue_cur s' = queue_cur s \<and> first_unhandled s' = first_unhandled s \<and>
     shortcut_per_100 s' = shortcut_per_100 s"
proof (induction n arbitrary: i s)
  case (Suc n)
  obtain t where t: "get_at (trace_bits s) i = Some t" using Suc.prems by (auto split: bind_splits)
  show ?case
  proof (cases "t = 0")
    case True
    then show ?thesis using Suc.prems t Suc.IH by simp
  next
    case False
    obtain slot where sl: "get_at (top_rated s) i = Some slot" using Suc.prems t False by (auto split: bind_splits)
    obtain lost where lost: "(case slot of None \<Rightarrow> Some False
        | Some p \<Rightarrow> do { ep \<leftarrow> entries s p; Some (ff > fav_factor ep) }) = Some lost"
      using Suc.prems t False sl by (auto split: bind_splits)
    show ?thesis
    proof (cases lost)
      case True
      then show ?thesis using Suc.prems t False sl lost Suc.IH by simp
    next
      case won: False
      obtain h1 where h1: "(case slot of None \<Rightarrow> Some (entries s) | Some p \<Rightarrow> upd_entry p drop_ref (entries s)) = Some h1"
        using Suc.prems t False sl lost won by (auto split: bind_splits)
      obtain e e1 where e: "h1 q = Some e" "take_ref (trace_bits s) e = Some e1"
        using Suc.prems t False sl lost won h1 by (auto split: bind_splits)
      obtain h2 where h2: "h1(q \<mapsto> e1) = h2" "links_in h2 = links_in (entries s)"
        using h1 e by (auto simp: upd_entry_def take_ref_link split: option.splits)
      show ?thesis
        using Suc.IH [of "Suc i" "s\<lparr>entries := h2, top_rated := (top_rated s)[i := Some q], score_changed := True\<rparr>"]
          Suc.prems t False sl lost won h1 e h2 by simp
    qed
  qed
qed simp

lemma links_fav:
  assumes "links_in (entries s') = links_in (entries s)" "queue s' = queue s" "queue_cur s' = queue_cur s"
    "first_unhandled s' = first_unhandled s" "shortcut_per_100 s' = shortcut_per_100 s" "fav_state.more s' = fav_state.more s"
  shows "links s' = links s"
  using assms by (cases s; cases s') (simp add: links_def)

lemma links_update_bitmap_score:
  assumes "update_bitmap_score q s = Some s'"
  shows "links s' = links s"
proof (rule links_fav)
  show "fav_state.more s' = fav_state.more s" by (rule more_update_bitmap_score [OF assms])
qed (use assms in \<open>auto simp: update_bitmap_score_def split: bind_splits dest!: score_loop_links\<close>)

lemma links_mark_as_variable: "mark_as_variable b q s = Some (Inr s') \<Longrightarrow> links s' = links s"
  by (rule links_fav)
     (auto simp: mark_as_variable_def links_in_upd link_of_def split: bind_splits if_splits)

lemma links_mark_as_det_done: "mark_as_det_done q s = Some (Inr s') \<Longrightarrow> links s' = links s"
  by (rule links_fav)
     (auto simp: mark_as_det_done_def links_in_upd link_of_def split: bind_splits if_splits)

lemma links_mark_as_redundant: "mark_as_redundant q b s = Some (Inr s') \<Longrightarrow> links s' = links s"
  by (rule links_fav)
     (auto simp: mark_as_redundant_def Let_def links_in_upd link_of_def split: bind_splits if_splits)

section \<open>Calibration\<close>

lemma links_cal_round:
  "cal_round w q mem t fr nb vd s = Some (Inr (r, s')) \<Longrightarrow> links s' = links s"
  by (auto simp: cal_round_def Let_def split: bind_splits if_split_asm sum.splits prod.splits
        dest!: links_show_stats links_write links_run_target links_new_bits;
      erule links_store; simp add: link_of_def)

lemma links_cal_loop:
  "cal_loop w q mem t fr f nb vd s = Some x \<Longrightarrow> x = Inr (r, s') \<Longrightarrow> links s' = links s"
proof (induction arbitrary: r s' rule: cal_loop.raw_induct [rotated 1, consumes 1, case_names body])
  case (body g w q mem t fr f nb vd s x)
  from body(2,3) show ?case
    by (auto simp: andthen_Some_Inr split: if_splits dest!: body(1) links_cal_round)
qed

lemma links_cal_finish: "cal_finish w q hc us s = Some s' \<Longrightarrow> links s' = links s"
  by (auto simp: cal_finish_def Let_def get_cur_time_us_def link_of_def
      split: bind_splits if_split_asm dest!: links_update_bitmap_score)

lemma links_cal_exit: "cal_exit w q n c m fr nb vd s = Some (Inr s') \<Longrightarrow> links s' = links s"
  by (auto simp: cal_exit_def Let_def andthen_Some_Inr link_of_def split: bind_splits if_split_asm
      dest!: links_show_stats links_mark_as_variable)

lemma links_cal_start: "cal_start w fr s = Inr (nb, us, s') \<Longrightarrow> links s' = links s"
  by (auto simp: cal_start_def Let_def get_cur_time_us_def init_forkserver_def
      split: if_split_asm prod.split_asm dest!: links_new_bits)

lemma links_calibrate_case:
  assumes "calibrate_case w q mem hc fq s = Some (Inr (f, s'))"
  shows "links s' = links s"
  using assms
  by (auto simp: calibrate_case_def Let_def andthen_Some_Inr bind_eq_Some_conv link_of_def split: if_split_asm
      dest!: links_cal_exit links_cal_finish links_cal_loop [OF _ refl] links_cal_start)

section \<open>Saving\<close>

lemma listed_length: "listed s xs \<Longrightarrow> length xs \<le> next_alloc s"
proof -
  assume l: "listed s xs"
  have "set xs \<subseteq> {..<next_alloc s}"
  proof
    fix p assume "p \<in> set xs"
    then have "entries s p \<noteq> None" using l qpath_in_dom by (auto simp: listed_def)
    then show "p \<in> {..<next_alloc s}" using l by (force simp: listed_def not_less [symmetric])
  qed
  then have "card (set xs) \<le> next_alloc s" using card_mono [of "{..<next_alloc s}" "set xs"] by simp
  then show ?thesis using l by (simp add: listed_def distinct_card)
qed

lemma cur_insert_loop: "insert_loop q ins i p s = Some s' \<Longrightarrow> queue_cur s' = queue_cur s"
proof (induction arbitrary: rule: insert_loop.raw_induct [rotated 1, consumes 1, case_names body])
  case (body f q ins i p s s')
  then show ?case
    by (auto simp: Let_def note_position_def split: option.splits bind_splits if_splits)
qed

lemma cur_sorted_insert: "sorted_insert_to_queue p s = Some s' \<Longrightarrow> queue_cur s' = queue_cur s"
  by (auto simp: sorted_insert_to_queue_def Let_def split: option.splits bind_splits if_splits dest!: cur_insert_loop)

text \<open>A find is linked in, without a mark, and the pointer to the first entry without one is set anew.\<close>

lemma grew_add:
  assumes "add_to_queue (next_alloc s) now fn len pd score (s\<lparr>next_alloc := next_alloc s + 1\<rparr>) = Some s'"
  shows "grew s s'"
proof -
  let ?q = "next_alloc s"
  define e where "e = zero_entry\<lparr>q_fname := fn, q_len := len, q_depth := ucast (cur_depth s + 1),
                q_passed_det := pd, q_prox_score := score, q_entry_id := queued_paths s\<rparr>"
  define s1 where "s1 = s\<lparr>next_alloc := ?q + 1, entries := (entries s)(?q \<mapsto> e),
                 max_depth := (if q_depth e > ucast (max_depth s) then ucast (q_depth e) else max_depth s)\<rparr>"
  obtain s2 where s2: "sorted_insert_to_queue ?q s1 = Some s2"
    "s' = s2\<lparr>queue_last := Some ?q, queued_paths := queued_paths s2 + 1,
                 pending_not_fuzzed := pending_not_fuzzed s2 + 1, cycles_wo_finds := 0, last_path_time := now\<rparr>"
  proof -
    have "do { s2 \<leftarrow> sorted_insert_to_queue ?q s1; Some (s2\<lparr>queue_last := Some ?q, queued_paths := queued_paths s2 + 1,
        pending_not_fuzzed := pending_not_fuzzed s2 + 1, cycles_wo_finds := 0, last_path_time := now\<rparr>) } = Some s'"
      using assms by (simp add: add_to_queue_def Let_def s1_def e_def cong: if_cong)
    then show thesis using that by (auto split: bind_splits)
  qed
  have more: "next_alloc s' = ?q + 1"
    using more_sorted_insert [OF s2(1)] s2(2) by (cases s2; cases s) (simp add: s1_def)
  have cur: "queue_cur s' = queue_cur s"
    using cur_sorted_insert [OF s2(1)] s2(2) by (simp add: s1_def)
  have "\<exists>xs'. listed s' xs' \<and> set xs \<subseteq> set xs' \<and>
        (\<forall>p \<in> set xs. unhandled (entries s') p = unhandled (entries s) p) \<and>
        (\<forall>p \<in> set xs' - set xs. unhandled (entries s') p) \<and>
        first_unhandled s' = find (unhandled (entries s')) xs'"
    if l: "listed s xs" and n: "next_alloc s' < 2 ^ 32" for xs
  proof -
    define ys where "ys = insert_by_score (score_in (entries s1)) ?q xs"
    have fresh: "?q \<notin> set xs" using l by (metis listed_def order_refl qpath_in_dom)
    have path: "qpath (entries s1) (queue s1) xs"
      unfolding s1_def by (rule qpath_agree [of "entries s"]) (use l fresh in \<open>auto simp: listed_def\<close>)
    have e1: "entries s1 ?q = Some e" "q_next e = None" by (simp_all add: s1_def e_def zero_entry_def)
    have d: "distinct xs" "length (shortcut_per_100 s1) = 1024" "length xs + 1 < 2 ^ 32"
      using l n listed_length [OF l] more by (simp_all add: listed_def s1_def)
    from sorted_insert_spec [OF path d(1) fresh e1 d(2,3)] obtain t where
      "sorted_insert_to_queue ?q s1 = Some t" "qpath (entries t) (queue t) ys"
      "unlinked (entries t) = unlinked (entries s1)"
      "\<forall>p. p \<notin> insert ?q (set xs) \<longrightarrow> entries t p = entries s1 p" "shortcuts_ok t ys"
      "first_unhandled t = (if xs = [] then first_unhandled s1 else find (unhandled (entries s1)) ys)"
      unfolding ys_def by blast
    moreover then have "t = s2" using s2(1) by simp
    ultimately have t: "qpath (entries s') (queue s') ys" "unlinked (entries s') = unlinked (entries s1)"
      "\<forall>p. p \<notin> insert ?q (set xs) \<longrightarrow> entries s' p = entries s1 p" "length (shortcut_per_100 s') = 1024"
      "first_unhandled s' = find (unhandled (entries s1)) ys"
      using l by (simp_all add: s2(2) shortcuts_ok_def listed_def)
    have un: "unhandled (entries s') = unhandled (entries s1)" by (rule unhandled_unlinked [OF t(2)])
    have new: "unhandled (entries s1) ?q" by (simp add: unhandled_def e1 e_def zero_entry_def)
    have old: "unhandled (entries s1) p = unhandled (entries s) p" if "p \<in> set xs" for p
      using that fresh by (auto simp: unhandled_def s1_def)
    have set: "set ys = insert ?q (set xs)" by (simp add: ys_def insert_by_score_set)
    have "distinct ys" using d(1) fresh by (simp add: ys_def insert_by_score_distinct)
    moreover have "entries s' p = None" if "next_alloc s' \<le> p" for p
    proof -
      have "p \<notin> insert ?q (set xs)"
        using that more l qpath_in_dom [of "entries s" "queue s" xs p] by (auto simp: listed_def)
      then have "entries s' p = entries s1 p" using t(3) by blast
      then show ?thesis using that more l by (simp add: listed_def s1_def)
    qed
    moreover have "ys \<noteq> []" using set by auto
    ultimately have "listed s' ys" using t(1,4) n by (simp add: listed_def)
    then show ?thesis using set t(5) un old new by (intro exI [of _ ys]) auto
  qed
  then show ?thesis unfolding grew_def using cur more by (metis le_add1)
qed

lemma grew_then: "links s' = links t \<Longrightarrow> grew s t \<Longrightarrow> grew s s'"
  using grew_links grew_trans by blast

lemma grew_before: "links t = links s \<Longrightarrow> grew t s' \<Longrightarrow> grew s s'"
  using grew_links grew_trans by blast

lemma grew_keep_in_queue:
  assumes "keep_in_queue w mem len s = Some (Inr (k, s'))"
  shows "grew s s'"
proof -
  obtain hnb s1 where h: "has_new_bits Virgin_bits s = (hnb, s1)" by fastforce
  note l1 = links_new_bits [OF h]
  show ?thesis
  proof (cases "hnb = 0")
    case True
    then have "links s' = links s" using assms h l1 by (auto simp: keep_in_queue_def split: if_splits)
    then show ?thesis by (rule grew_links)
  next
    case False
    obtain now s2 where t: "get_cur_time w s1 = (now, s2)" by fastforce
    have l2: "links s2 = links s" "next_alloc s2 = next_alloc s1" using t l1 by (auto simp: get_cur_time_def)
    obtain op where op: "describe_op hnb s1 = Some op"
      using assms h False by (auto simp: keep_in_queue_def Let_def split: bind_splits)
    define score where "score = compute_proximity_score (dfg_bits s1)"
    define fn where "fn = queue_name score op s1"
    obtain s3 where s3: "add_to_queue (next_alloc s1) now fn len False score (s2\<lparr>next_alloc := next_alloc s1 + 1\<rparr>) = Some s3"
      using assms h False op t by (auto simp: keep_in_queue_def Let_def fn_def score_def split: bind_splits)
    have g3: "grew s s3"
      by (rule grew_before [OF l2(1)], rule grew_add) (use s3 l2(2) in simp)
    obtain e where e: "entries s3 (next_alloc s1) = Some e"
      using assms h False op t s3 by (auto simp: keep_in_queue_def Let_def fn_def score_def split: bind_splits)
    define s4 where "s4 = s3\<lparr>entries := (entries s3)(next_alloc s1 \<mapsto> e\<lparr>q_has_new_cov := (q_has_new_cov e \<or> hnb = 2),
                                                  q_exec_cksum := trace_cksum s3\<rparr>),
                    queued_with_cov := (if hnb = 2 then queued_with_cov s3 + 1 else queued_with_cov s3)\<rparr>"
    have l4: "links s4 = links s3" using e by (simp add: s4_def link_of_def)
    obtain res s5 d s6 where r: "calibrate_case w (next_alloc s1) mem (ucast (queue_cycle s3 - 1)) False s4 = Some (Inr (res, s5))"
      "create_file fn d s5 = Inr s6" "s' = s6"
      using assms h False op t s3 e
      by (auto simp: keep_in_queue_def Let_def andthen_Some_Inr map_sum_Inr s4_def [symmetric] fn_def [symmetric]
          score_def [symmetric] split: bind_splits if_split_asm)
    have "links s' = links s3"
      using links_calibrate_case [OF r(1)] links_create_file [OF r(2)] l4 r(3) by simp
    then show ?thesis using g3 by (rule grew_then)
  qed
qed

lemma links_keep_crash: "keep_crash w s = Some (fn, s') \<Longrightarrow> links s' = links s"
  by (auto simp: keep_crash_def Let_def get_cur_time_def split: bind_splits if_split_asm prod.splits
      dest!: links_new_bits)

lemma links_record_hang: "record_hang w s = Some (fn, s') \<Longrightarrow> links s' = links s"
  by (auto simp: record_hang_def Let_def get_cur_time_def split: bind_splits)

lemma links_keep_hang: "keep_hang w mem len s = Some (Inr (fn, s')) \<Longrightarrow> links s' = links s"
  by (auto simp: keep_hang_def Let_def split: bind_splits if_split_asm prod.splits sum.splits
      dest!: links_new_bits links_write links_run_target links_keep_crash links_record_hang)

lemma grew_save_if_interesting:
  assumes "save_if_interesting w mem len fault s = Some (Inr (k, s'))"
  shows "grew s s'"
  using assms
  by (auto simp: save_if_interesting_def andthen_Some_Inr map_sum_Inr bind_eq_Some_conv
      split: if_split_asm fault.split_asm option.split_asm
      dest!: grew_keep_in_queue links_keep_crash [THEN grew_links] links_keep_hang [THEN grew_links]
        links_create_file [THEN grew_links] intro: grew_trans)

section \<open>Runs\<close>

lemma grew_after_run:
  fixes s :: "'a fuzz_state_scheme"
  assumes "after_run w b n f s = Some (Inr (stop, s'))"
  shows "grew s s'"
proof -
  have early: "grew s s'" if "links s' = links s" using that by (rule grew_links)
  show ?thesis
  proof (cases "stop_soon s \<noteq> 0 \<or> f = FAULT_TMOUT \<and> subseq_tmouts s > TMOUT_LIMIT \<or> skip_requested s")
    case True
    then show ?thesis using assms by (intro early) (auto simp: after_run_def Let_def split: if_splits)
  next
    case False
    define s3 where "s3 = s\<lparr>subseq_tmouts := if f = FAULT_TMOUT then subseq_tmouts s + 1 else 0\<rparr>"
    define go where "go = (\<lambda>(k :: bool, s4 :: 'a fuzz_state_scheme). do {
             let s5 = s4\<lparr>queued_discovered := queued_discovered s4 + (if k then 1 else 0)\<rparr>;
             due \<leftarrow> stats_due (stage_cur s5) s5;
             s6 \<leftarrow> (if due \<or> stage_cur s5 + 1 = stage_max s5 then show_stats w s5 else Some s5);
             Some (Inr (False, s6) :: fatal + bool \<times> 'a fuzz_state_scheme) })"
    have "andthen (save_if_interesting w b n f s3) go = Some (Inr (stop, s'))"
      using assms False unfolding after_run_def go_def by (cases "f = FAULT_TMOUT") (simp_all add: Let_def s3_def)
    then obtain y where r0: "save_if_interesting w b n f s3 = Some (Inr y)" and rest: "go y = Some (Inr (stop, s'))"
      unfolding andthen_Some_Inr by blast
    obtain k s4 where y: "y = (k, s4)" by fastforce
    define s5 where "s5 = s4\<lparr>queued_discovered := queued_discovered s4 + (if k then 1 else 0)\<rparr>"
    note r = r0 [unfolded y]
    have "s' = s5 \<or> show_stats w s5 = Some s'"
      using rest by (auto simp: y go_def Let_def s5_def split: if_split_asm bind_splits)
    then have s6: "links s' = links s5" by (auto dest: links_show_stats)
    have "links s' = links s4" using s6 by (simp add: s5_def)
    moreover have "grew s s4"
      by (rule grew_before [OF _ grew_save_if_interesting [OF r]]) (simp add: s3_def)
    ultimately show ?thesis by (rule grew_then)
  qed
qed

lemma grew_common_fuzz_stuff:
  assumes "common_fuzz_stuff w b n s = Some (Inr (stop, s'))"
  shows "grew s s'"
proof (cases "post_process w b n")
  case None
  then show ?thesis using assms by (simp add: common_fuzz_stuff_def)
next
  case (Some bl)
  obtain b1 n1 where bl: "bl = (b1, n1)" by fastforce
  obtain s1 fault s2 where r: "write_to_testcase b1 n1 s = Some s1" "run_target w (exec_tmout s1) s1 = Inr (fault, s2)"
    "after_run w b1 n1 fault s2 = Some (Inr (stop, s'))"
    using assms Some bl by (auto simp: common_fuzz_stuff_def andthen_Some_Inr split: bind_splits)
  have "links s2 = links s" using links_write [OF r(1)] links_run_target [OF r(2)] by simp
  then show ?thesis using grew_after_run [OF r(3)] by (rule grew_before)
qed

end
