(* ===== verification/Afl_Grow.thy ===== *)
theory Afl_Grow
  imports Afl_Links Afl_FuzzOne
begin

text \<open>
  Fuzzing an entry lets the queue grow and does nothing else to its links and marks.
\<close>

section \<open>Steps\<close>

definition steps :: "'a fuzz_step \<Rightarrow> bool" where
  "steps f \<longleftrightarrow> (\<forall>l s b l' s'. f l s = Some (Inr (b, l', s')) \<longrightarrow> grew s s')"

named_theorems step_rules \<open>steps in which the queue grows\<close>

lemma stepsI: "(\<And>l s b l' s'. f l s = Some (Inr (b, l', s')) \<Longrightarrow> grew s s') \<Longrightarrow> steps f"
  by (simp add: steps_def)

lemma stepsD: "steps f \<Longrightarrow> f l s = Some (Inr (b, l', s')) \<Longrightarrow> grew s s'"
  by (simp add: steps_def)

lemma steps_continue [step_rules]:
  "(\<And>l s. links (h l s) = links s) \<Longrightarrow> steps (\<lambda>l s. continue (g l s) (h l s))"
  "steps continue"
  by (auto simp: steps_def continue_def intro: grew_links)

lemma steps_set_buf [step_rules]:
  "(\<And>l s. links (h l s) = links s) \<Longrightarrow> steps (\<lambda>l s. set_buf (b l s) (g l s) (h l s))"
  "steps (\<lambda>l. set_buf (b' l) (g' l))"
  by (auto simp: steps_def set_buf_def continue_def intro: grew_links split: bind_splits)

lemma steps_if [step_rules]:
  "steps f \<Longrightarrow> steps g \<Longrightarrow> steps (\<lambda>l s. if c l s then f l s else g l s)"
  "steps f \<Longrightarrow> steps g \<Longrightarrow> steps (\<lambda>l. if c' l then f l else g l)"
  "steps f' \<Longrightarrow> steps g' \<Longrightarrow> steps (if c'' then f' else g')"
  by (auto simp: steps_def)

lemma steps_bind [step_rules]: "(\<And>x. steps (f x)) \<Longrightarrow> steps (\<lambda>l s. m l s \<bind> (\<lambda>x. f x l s))"
  by (auto simp: steps_def split: bind_splits)

lemma steps_let [step_rules]:
  "(\<And>x. steps (f x)) \<Longrightarrow> steps (\<lambda>l s. let x = m l s in f x l s)"
  "(\<And>x. steps (f' x)) \<Longrightarrow> steps (\<lambda>l. let x = m' l in f' x l)"
  "(\<And>x. steps (f'' x)) \<Longrightarrow> steps (let x = m'' in f'' x)" "steps (\<lambda>l s. None)" "steps (\<lambda>l. continue (g l))"
  by (auto simp: steps_def continue_def)

lemma steps_at: "steps f \<Longrightarrow> (\<And>l s. links (h l s) = links s) \<Longrightarrow> steps (\<lambda>l s. f (g l s) (h l s))"
  unfolding steps_def by (blast intro: grew_before)

lemma bail_grew:
  assumes "bail f g l s = Some (Inr (b, l', s'))" and "steps f" and "steps g"
  shows "grew s s'"
proof -
  obtain stop l1 s1 where f: "f l s = Some (Inr (stop, l1, s1))"
    and g: "(if stop then Some (Inr (True, l1, s1)) else g l1 s1) = Some (Inr (b, l', s'))"
    using assms(1) by (auto simp: bail_def andthen_Some_Inr)
  have "grew s s1" by (rule stepsD [OF assms(2) f])
  moreover have "grew s1 s'" using g stepsD [OF assms(3)] by (auto split: if_splits)
  ultimately show ?thesis by (rule grew_trans)
qed

lemma steps_bail [step_rules]:
  assumes "\<And>l s. steps (f l s)" and "\<And>l s. steps (g l s)" and "\<And>l s. links (h l s) = links s"
  shows "steps (\<lambda>l s. bail (f l s) (g l s) (k l s) (h l s))"
  by (rule stepsI, rule grew_before [OF _ bail_grew]) (use assms in simp_all)

lemma steps_bail1 [step_rules]:
  assumes "\<And>l. steps (f l)" and "\<And>l. steps (g l)"
  shows "steps (\<lambda>l. bail (f l) (g l) (k l))"
  by (rule stepsI, rule bail_grew) (use assms in simp_all)

lemma steps_bail2 [step_rules]: "steps f \<Longrightarrow> steps g \<Longrightarrow> steps (bail f g)"
  by (rule stepsI, rule bail_grew)

lemma for_loop_grew: "(\<And>i. steps (f i)) \<Longrightarrow> for_loop is f l s = Some (Inr (b, l', s')) \<Longrightarrow> grew s s'"
proof (induction "is" arbitrary: l s b l' s')
  case Nil
  then show ?case by (simp add: continue_def)
next
  case (Cons i "is")
  have "steps (for_loop is f)" by (rule stepsI) (rule Cons.IH [OF Cons.prems(1)])
  then show ?case using Cons.prems by (auto intro: bail_grew)
qed

lemma steps_for_loop [step_rules]:
  assumes "\<And>l s i. steps (f l s i)" and "\<And>l s. links (h l s) = links s"
  shows "steps (\<lambda>l s. for_loop (n l s) (f l s) (k l s) (h l s))"
  by (rule stepsI, rule grew_before [OF _ for_loop_grew]) (use assms in simp_all)

lemma steps_for_loop1 [step_rules]: "(\<And>l i. steps (f l i)) \<Longrightarrow> steps (\<lambda>l. for_loop (n l) (f l) (k l))"
  by (rule stepsI, rule for_loop_grew)

lemma steps_for_loop2 [step_rules]: "(\<And>i. steps (f i)) \<Longrightarrow> steps (for_loop n f)"
  by (rule stepsI, rule for_loop_grew)

lemma stage_loop_grew:
  "stage_loop f l s = Some x \<Longrightarrow> steps f \<Longrightarrow> x = Inr (b, l', s') \<Longrightarrow> grew s s'"
proof (induction arbitrary: b l' s' rule: stage_loop.raw_induct [rotated 1, consumes 1, case_names body])
  case (body g f l s x)
  show ?case
  proof (cases "stage_cur s < stage_max s")
    case False
    then show ?thesis using body(2,4) by simp
  next
    case True
    then obtain stop l1 s1 where f: "f l s = Some (Inr (stop, l1, s1))"
      and r: "(if stop then Some (Inr (True, l1, s1)) else g f l1 (s1\<lparr>stage_cur := stage_cur s1 + 1\<rparr>)) = Some (Inr (b, l', s'))"
      using body(2,4) by (auto simp: andthen_Some_Inr)
    have 1: "grew s s1" by (rule stepsD [OF body(3) f])
    have "grew s1 s'"
    proof (cases stop)
      case True
      then show ?thesis using r by simp
    next
      case False
      then have "grew (s1\<lparr>stage_cur := stage_cur s1 + 1\<rparr>) s'" using r body(1) body(3) by auto
      then show ?thesis by (rule grew_before [rotated]) simp
    qed
    with 1 show ?thesis by (rule grew_trans)
  qed
qed

lemma steps_stage_loop [step_rules]: "steps f \<Longrightarrow> steps (stage_loop f)"
  by (rule stepsI) (rule stage_loop_grew [OF _ _ refl]; assumption)

lemma steps_run_buf [step_rules]: "steps (run_buf w)"
  by (rule stepsI) (auto simp: run_buf_def andthen_Some_Inr dest: grew_common_fuzz_stuff)

section \<open>Deterministic stages\<close>

lemma links_dict [simp]:
  "links (s\<lparr>a_extras := x\<rparr>) = links s" "links (s\<lparr>auto_changed := b\<rparr>) = links s"
  by (simp_all add: links_def)

lemma links_UR: "UR w n s = Some (r, s') \<Longrightarrow> links s' = links s"
  by (auto simp: UR_def Let_def split: if_splits)

lemma links_add_auto: "maybe_add_auto w mem s = Some s' \<Longrightarrow> links s' = links s"
  by (auto simp: maybe_add_auto_def Let_def bind_eq_Some_conv dest!: links_UR split: if_split_asm option.split_asm)

lemma steps_add_collected [step_rules]: "steps (add_collected w)"
  by (rule stepsI) (auto simp: add_collected_def continue_def split: bind_splits if_splits
      dest!: links_add_auto intro: grew_links)

lemmas steps_add_collected_at [step_rules] = steps_at [OF steps_add_collected]

lemma steps_simple [step_rules]:
  "steps (stage_begin a b m)" "steps (stage_end n)" "steps (flip_bits k)" "steps (collect_token w q)"
  by (simp_all add: stage_begin_def [abs_def] stage_end_def [abs_def] flip_bits_def [abs_def]
      collect_token_def [abs_def] step_rules)

lemma steps_begin_at [step_rules]: "steps (\<lambda>l. stage_begin a b (m l) l)"
  by (simp add: stage_begin_def [abs_def] step_rules)

lemma steps_walk_bits [step_rules]: "steps f \<Longrightarrow> steps (walk_bits w n f)"
  by (simp add: walk_bits_def [abs_def] step_rules)

lemma steps_flip_stages [step_rules]:
  "steps (flip1_stage w q)" "steps (flip2_stage w)" "steps (flip4_stage w)"
  by (simp_all add: flip1_stage_def [abs_def] flip2_stage_def [abs_def] flip4_stage_def [abs_def] step_rules)

lemma steps_bytes [step_rules]:
  "steps eff_setup" "steps (flip_bytes n i)" "steps (note_effect q)" "steps eff_finish" "steps (skip_runs z)"
  by (simp_all add: eff_setup_def [abs_def] flip_bytes_def [abs_def] note_effect_def [abs_def]
      eff_finish_def [abs_def] skip_runs_def [abs_def] step_rules)

lemma steps_at_effective [step_rules]: "steps f \<Longrightarrow> steps (at_effective n k i f)"
  by (simp add: at_effective_def [abs_def] step_rules steps_at [of f])

lemma steps_runs [step_rules]:
  "steps (count_run w)" "steps (set_val_type t)" "steps (set_cur_val v)" "steps (try_value w ok v f)" "steps (try_wide w ok t f)"
  by (simp_all add: count_run_def set_val_type_def [abs_def] set_cur_val_def [abs_def] try_value_def [abs_def]
      try_wide_def [abs_def] step_rules)

lemma steps_byte_stages [step_rules]:
  "steps (flip8_stage w q)" "steps (flip16_stage w)" "steps (flip32_stage w)" "steps (bitflip_stages w q)"
  by (simp_all add: flip8_stage_def [abs_def] flip16_stage_def [abs_def] flip32_stage_def [abs_def]
      bitflip_stages_def [abs_def] step_rules)

lemma steps_arith_at [step_rules]: "steps (arith8_at w i)" "steps (arith16_at w i)" "steps (arith32_at w i)"
  unfolding arith8_at_def [abs_def] arith16_at_def [abs_def] arith32_at_def [abs_def] by (simp_all add: step_rules)

lemma steps_arith [step_rules]: "steps (arith_stages w)"
  by (simp add: arith8_stage_def [abs_def] arith16_stage_def [abs_def] arith32_stage_def [abs_def]
      arith_stages_def [abs_def] step_rules)

lemma steps_interest_at [step_rules]: "steps (interest8_at w i)" "steps (interest16_at w i)" "steps (interest32_at w i)"
  unfolding interest8_at_def [abs_def] interest16_at_def [abs_def] interest32_at_def [abs_def] by (simp_all add: step_rules)

lemma steps_interest [step_rules]: "steps (interest_stages w)"
  by (simp add: interest8_stage_def [abs_def] interest16_stage_def [abs_def] interest32_stage_def [abs_def]
      interest_stages_def [abs_def] step_rules)

lemma links_token_skipped: "token_skipped w n s = Some (z, s') \<Longrightarrow> links s' = links s"
  by (auto simp: token_skipped_def split: if_splits bind_splits dest!: links_UR)

lemma steps_over_token [step_rules]: "steps (over_token w i e skip)" "steps (restore_span i)" "steps (start_span i)"
  by (simp_all add: over_token_def [abs_def] restore_span_def [abs_def] start_span_def [abs_def] step_rules)

lemma steps_run_copy [step_rules]:
  "steps (\<lambda>l s. andthen (common_fuzz_stuff w (b l) (n l) s)
     (\<lambda>(stop, s1). Some (Inr (stop, g l, if stop then s1 else s1\<lparr>stage_cur := stage_cur s1 + 1\<rparr>))))"
proof (rule stepsI)
  fix l s stop l' s'
  assume "andthen (common_fuzz_stuff w (b l) (n l) s)
      (\<lambda>(stop, s1). Some (Inr (stop, g l, if stop then s1 else s1\<lparr>stage_cur := stage_cur s1 + 1\<rparr>))) = Some (Inr (stop, l', s'))"
  then obtain s1 where "common_fuzz_stuff w (b l) (n l) s = Some (Inr (stop, s1))" and l: "links s' = links s1"
    unfolding andthen_Some_Inr by force
  then have "grew s s1" by (intro grew_common_fuzz_stuff)
  then show "grew s s'" by (rule grew_then [OF l])
qed

lemma steps_insert_token [step_rules]: "steps (insert_token w i e)" "steps (copy_head i)"
  unfolding insert_token_def [abs_def] copy_head_def [abs_def] by (simp_all add: step_rules)

lemma steps_skippable [step_rules]:
  "steps (\<lambda>l s. token_skipped w n s \<bind> (\<lambda>(skip, s1). get_at (extras s1) j \<bind> (\<lambda>e. over_token w i e skip l s1)))"
proof (rule stepsI)
  fix l s b l' s'
  assume "token_skipped w n s \<bind> (\<lambda>(skip, s1). get_at (extras s1) j \<bind> (\<lambda>e. over_token w i e skip l s1)) = Some (Inr (b, l', s'))"
  then obtain skip s1 e where 1: "token_skipped w n s = Some (skip, s1)" and 2: "over_token w i e skip l s1 = Some (Inr (b, l', s'))"
    by (auto split: bind_splits)
  show "grew s s'" by (rule grew_before [OF links_token_skipped [OF 1]]) (rule stepsD [OF steps_over_token(1) 2])
qed

lemma steps_tokens [step_rules]: "steps (token_stages w)"
  by (simp add: ext_UO_stage_def [abs_def] ext_UI_stage_def [abs_def] ext_AO_stage_def [abs_def] token_stages_def [abs_def]
      step_rules)

lemma steps_det_done [step_rules]: "steps (det_done q)"
  by (rule stepsI) (auto simp: det_done_def continue_def andthen_Some_Inr split: bind_splits if_splits
      dest!: links_mark_as_det_done intro: grew_links)

lemma steps_det_stages [step_rules]: "steps (det_stages w q)"
  by (simp add: det_stages_def [abs_def] step_rules)

section \<open>Random edits\<close>

definition draws_only :: "'a edit \<Rightarrow> bool" where
  "draws_only f \<longleftrightarrow> (\<forall>l s l' s'. f l s = Some (l', s') \<longrightarrow> links s' = links s)"

lemma draws_onlyI: "(\<And>l s l' s'. f l s = Some (l', s') \<Longrightarrow> links s' = links s) \<Longrightarrow> draws_only f"
  by (simp add: draws_only_def)

lemma links_draw: "draw w n s = Some (r, s') \<Longrightarrow> links s' = links s"
  by (auto simp: draw_def split: bind_splits dest!: links_UR)

lemma links_edit_buf: "edit_buf b l s = Some (l', s') \<Longrightarrow> s' = s"
  by (auto simp: edit_buf_def split: bind_splits)

lemma links_block_len: "block_len w n s = Some (r, s') \<Longrightarrow> links s' = links s"
  by (auto simp: block_len_def choose_block_len_def Let_def split: bind_splits if_splits dest!: links_UR)

lemma links_filler: "filler w l s = Some (r, s') \<Longrightarrow> links s' = links s"
  by (auto simp: filler_def split: bind_splits if_splits dest!: links_draw)

lemma links_insert_part: "insert_part i d l s = Some (l', s') \<Longrightarrow> s' = s"
  by (auto simp: insert_part_def split: bind_splits)

lemma links_choose_token: "choose_token w s = Some (e, s') \<Longrightarrow> links s' = links s"
  by (auto simp: choose_token_def Let_def split: bind_splits if_splits dest!: links_draw)

lemma draws_simple:
  "draws_only (havoc_flip w)" "draws_only (havoc_set8 w)" "draws_only (havoc_set16 w)" "draws_only (havoc_set32 w)"
  "draws_only (havoc_arith8 b w)" "draws_only (havoc_arith16 b w)" "draws_only (havoc_arith32 b w)" "draws_only (havoc_xor w)"
  by (rule draws_onlyI, force simp: havoc_flip_def havoc_set8_def havoc_set16_def havoc_set32_def havoc_arith8_def
      havoc_arith16_def havoc_arith32_def havoc_xor_def split: bind_splits if_splits dest!: links_draw links_edit_buf)+

lemma draws_blocks:
  "draws_only (havoc_delete w)" "draws_only (havoc_clone w)" "draws_only (havoc_overwrite w)"
  "draws_only (havoc_over_extra w)" "draws_only (havoc_insert_extra w)"
  by (rule draws_onlyI, force simp: havoc_delete_def havoc_clone_def havoc_overwrite_def havoc_over_extra_def
      havoc_insert_extra_def Let_def split: bind_splits if_splits
      dest!: links_draw links_edit_buf links_block_len links_filler links_insert_part links_choose_token)+

lemma draws_edit: "draws_only (havoc_edit w k)"
  by (simp add: havoc_edit_def draws_simple draws_blocks)

lemma draws_stack: "havoc_stack w n l s = Some (l', s') \<Longrightarrow> links s' = links s"
proof (induction n arbitrary: l s)
  case (Suc n)
  then obtain k s1 l1 s2 where "draw w (if extras s = [] \<and> a_extras s = [] then 15 else 17) s = Some (k, s1)"
    "havoc_edit w k l s1 = Some (l1, s2)" "havoc_stack w n l1 s2 = Some (l', s')"
    by (auto split: bind_splits)
  then show ?case
    using Suc.IH [of l1 s2] draws_edit [of w k, unfolded draws_only_def, rule_format, of l s1 l1 s2] links_draw [of w _ s k s1]
    by metis
qed simp

lemma steps_prolong [step_rules]: "steps prolong"
  unfolding prolong_def [abs_def] by (simp add: step_rules)

lemma steps_havoc_round [step_rules]: "steps (havoc_round w)"
proof (rule stepsI)
  fix l s b l' s'
  assume "havoc_round w l s = Some (Inr (b, l', s'))"
  note run = this [unfolded havoc_round_def Let_def]
  obtain p s1 where 1: "draw w HAVOC_STACK_POW2 s = Some (p, s1)"
    using run by (cases "draw w HAVOC_STACK_POW2 s") auto
  define u where "u = s1\<lparr>stage_cur_val := int ((2 :: nat) ^ (1 + p))\<rparr>"
  define n where "n = (2 :: nat) ^ (1 + p)"
  note run = run [unfolded 1 bind.bind_lunit prod.case, folded u_def n_def]
  obtain l1 s2 where 2: "havoc_stack w n l u = Some (l1, s2)"
    using run by (cases "havoc_stack w n l u") auto
  note run = run [unfolded 2 bind.bind_lunit prod.case]
  obtain stop s3 where 3: "common_fuzz_stuff w (out_buf l1) (of_nat (temp_len l1)) s2 = Some (Inr (stop, s3))"
    and 4: "(if stop then Some (Inr (True, l1, s3)) else do { l2 \<leftarrow> restore_buf l1; prolong l2 s3 }) = Some (Inr (b, l', s'))"
    using run by (auto simp only: andthen_Some_Inr prod.case)
  have "links s2 = links s" using draws_stack [OF 2] links_draw [OF 1] by (simp add: u_def)
  moreover have "grew s2 s3" by (rule grew_common_fuzz_stuff [OF 3])
  ultimately have "grew s s3" by (rule grew_before)
  moreover have "grew s3 s'"
    using 4 stepsD [OF steps_prolong] by (auto split: if_splits bind_splits)
  ultimately show "grew s s'" by (rule grew_trans)
qed

lemma links_calculate_factor: "calculate_factor w p s = (f, s') \<Longrightarrow> links s' = links s"
  by (auto simp: calculate_factor_def get_cur_time_def Let_def split: if_splits)

lemma bind_SomeE: "m \<bind> f = Some y \<Longrightarrow> (\<And>x. m = Some x \<Longrightarrow> f x = Some y \<Longrightarrow> thesis) \<Longrightarrow> thesis"
  by (cases m) simp_all

lemma links_snd_factor: "links (snd (calculate_factor w p s)) = links s"
  by (rule links_calculate_factor [OF prod.collapse [symmetric]])

lemma havoc_begin_tail:
  "(if havoc_div s1 = 0 then None
    else continue f (s1\<lparr>stage_name := c, stage_short := d, stage_max := m, stage_cur := z\<rparr>)) = Some (Inr (b, l', s')) \<Longrightarrow>
   links s' = links s1"
  by (auto simp: continue_def split: if_splits)

lemma steps_havoc_begin [step_rules]: "steps (havoc_begin w q)"
proof (rule stepsI)
  fix l s0 b l' s'
  assume run: "havoc_begin w q l s0 = Some (Inr (b, l', s'))"
  obtain e where e: "entries s0 q = Some e"
    using run unfolding havoc_begin_def by (cases "entries s0 q") simp_all
  have "links s' = links s0"
    using run unfolding havoc_begin_def e bind.bind_lunit Let_def case_prod_beta
    by (elim bind_SomeE) (drule havoc_begin_tail, erule trans, simp (no_asm) only: links_snd_factor links_upd)
  then show "grew s0 s'" by (rule grew_links)
qed

lemma steps_end_at [step_rules]: "steps (\<lambda>l. stage_end (n l) l)"
  by (simp add: stage_end_def [abs_def] step_rules)

lemma steps_havoc [step_rules]: "steps (havoc_stage w q)"
  unfolding havoc_stage_def by (simp add: step_rules)

section \<open>Splicing\<close>

lemma links_pick_target: "pick_target w q s = Some (t, s') \<Longrightarrow> links s' = links s"
  by (auto simp: pick_target_def Let_def split: bind_splits if_splits dest!: links_UR)

lemma links_splice_with: "splice_with w t l s = Some (Inr (r, s')) \<Longrightarrow> links s' = links s"
  by (auto simp: splice_with_def Let_def split: bind_splits if_splits option.splits dest!: links_draw)

text \<open>The recursion alternates between the random stage and the choice of another partner.\<close>

lemma havoc_and_splice_grew:
  "havoc_and_splice w q h l s = Some x \<Longrightarrow> x = Inr (b, l', s') \<Longrightarrow> grew s s'"
proof (induction arbitrary: b l' s' rule: havoc_and_splice.raw_induct [rotated 1, consumes 1, case_names body])
  case (body g w q h l s x)
  note run = body(2) [unfolded body(3) andthen_Some_Inr]
  then obtain stop l1 s1 where 1: "(if h then havoc_stage w q l s else continue l s) = Some (Inr (stop, l1, s1))"
    by fastforce
  note run = body(2) [unfolded 1 body(3), simplified andthen_def option.case sum.case prod.case]
  have g1: "grew s s1"
    using 1 stepsD [OF steps_havoc, of w q l s] by (auto simp: continue_def split: if_splits)
  have "grew s1 s'"
  proof (cases stop)
    case True
    then show ?thesis using run by simp
  next
    case False
    note run = run [simplified False simp_thms if_False]
    obtain e where e: "entries s1 q = Some e" using run by (cases "entries s1 q") simp_all
    note run = run [unfolded e bind.bind_lunit]
    show ?thesis
    proof (cases "use_splicing s1 \<and> splice_cycle l1 < SPLICE_CYCLES \<and> queued_paths s1 > 1 \<and> q_len e > 1")
      case False
      then show ?thesis using run by (simp only: False if_False) simp
    next
      case True
      note run = run [simplified True simp_thms if_True Let_def]
      obtain t s2 where t: "pick_target w q s1 = Some (t, s2)" using run by (cases "pick_target w q s1") auto
      note run = run [unfolded t bind.bind_lunit prod.case]
      have l2: "links s2 = links s1" by (rule links_pick_target [OF t])
      show ?thesis
      proof (cases t)
        case None
        then have "grew s2 s'" using run by (auto intro: body(1))
        then show ?thesis by (rule grew_before [OF l2])
      next
        case (Some p)
        note run = run [unfolded Some option.case]
        obtain r s3 where r: "splice_with w p (l1\<lparr>splice_cycle := splice_cycle l1 + 1, in_buf := orig_in l1, f_len := unat (q_len e)\<rparr>) s2
          = Some (Inr (r, s3))"
          using run by (auto split: option.splits sum.splits)
        have "grew s3 s'" using run unfolding r by (auto intro: body(1) split: option.splits)
        then show ?thesis by (rule grew_before [rotated]) (simp add: links_splice_with [OF r] l2)
      qed
    qed
  qed
  with g1 show ?case by (rule grew_trans)
qed

lemma steps_havoc_and_splice [step_rules]: "steps (havoc_and_splice w q h)"
  by (rule stepsI, rule havoc_and_splice_grew [OF _ refl])

section \<open>Preparation and the whole\<close>

lemma links_trim_step:
  assumes "trim_step w q rl rp l s = Some (Inr (stop, pos, l', s'))"
  shows "links s' = links s"
proof -
  obtain e where e: "entries s q = Some e" using assms unfolding trim_step_def by (cases "entries s q") simp_all
  define avail where "avail = min rl (q_len e - rp)"
  obtain s1 where s1: "write_with_gap (tr_buf l) (q_len e) rp avail s = Some s1"
    using assms unfolding trim_step_def e avail_def [symmetric] Let_def
    by (cases "write_with_gap (tr_buf l) (q_len e) rp avail s") (simp_all add: avail_def)
  obtain fault s2 where s2: "run_target w (exec_tmout s1) s1 = Inr (fault, s2)"
    using assms s1 unfolding trim_step_def e bind.bind_lunit Let_def avail_def [symmetric] s1
    by (cases "run_target w (exec_tmout s1) s1") auto
  define s3 where "s3 = s2\<lparr>trim_execs := trim_execs s2 + 1\<rparr>"
  have l3: "links s3 = links s" using links_gap [OF s1] links_run_target [OF s2] by (simp add: s3_def)
  note run = assms [unfolded trim_step_def e bind.bind_lunit Let_def, folded avail_def,
      unfolded s1 bind.bind_lunit s2 sum.case prod.case, folded s3_def]
  show ?thesis
  proof (cases "stop_soon s3 \<noteq> 0 \<or> fault = FAULT_ERROR")
    case True
    then show ?thesis using run l3 by auto
  next
    case False
    have store: "links (s3\<lparr>entries := (entries s3)(q \<mapsto> e\<lparr>q_len := n\<rparr>)\<rparr>) = links s" for n
      by (rule links_store [OF e refl l3]) (simp add: link_of_def)
    show ?thesis
      using run False store l3
      by (auto split: bind_splits if_split_asm dest!: links_show_stats)
  qed
qed

lemma links_trim_inner:
  "trim_inner w q rl rp l s = Some x \<Longrightarrow> x = Inr (stop, l', s') \<Longrightarrow> links s' = links s"
proof (induction arbitrary: stop l' s' rule: trim_inner.raw_induct [rotated 1, consumes 1, case_names body])
  case (body g w q rl rp l s x)
  from body(2,3) show ?case
    by (auto simp: andthen_Some_Inr split: if_splits bind_splits dest!: body(1) [OF _ refl] links_trim_step)
qed

lemma links_trim_outer:
  "trim_outer w q rl l s = Some x \<Longrightarrow> x = Inr (stop, l', s') \<Longrightarrow> links s' = links s"
proof (induction arbitrary: stop l' s' rule: trim_outer.raw_induct [rotated 1, consumes 1, case_names body])
  case (body g w q rl l s x)
  from body(2,3) show ?case
    by (auto simp: andthen_Some_Inr Let_def split: if_splits bind_splits dest!: body(1) [OF _ refl] links_trim_inner [OF _ refl])
qed

lemma links_trim_case:
  fixes s :: "'a fuzz_state_scheme"
  assumes "trim_case w q buf s = Some (Inr (r, s'))"
  shows "links s' = links s"
proof -
  obtain e where e: "entries s q = Some e" using assms unfolding trim_case_def by (cases "entries s q") simp_all
  show ?thesis
  proof (cases "q_len e < 5")
    case True
    then show ?thesis using assms by (simp add: trim_case_def e)
  next
    case False
    obtain p2 where p2: "next_p2 (q_len e) = Some p2"
      using assms False unfolding trim_case_def e by (cases "next_p2 (q_len e)") simp_all
    note run = assms [unfolded trim_case_def e bind.bind_lunit, simplified False if_False, unfolded p2 bind.bind_lunit Let_def andthen_Some_Inr]
    then obtain stop l1 s1 where o: "trim_outer w q (max (p2 div TRIM_START_STEPS) TRIM_MIN_BYTES)
        \<lparr>tr_buf = buf, tr_len_p2 = p2, tr_exec = 0, tr_clean = None, tr_fault = FAULT_NONE\<rparr>
        (s\<lparr>bytes_trim_in := bytes_trim_in s + ucast (q_len e)\<rparr>) = Some (Inr (stop, l1, s1))"
      and t: "(do {
                 e1 \<leftarrow> entries s1 q;
                 s3 \<leftarrow> (if stop then Some s1
                       else case tr_clean l1 of
                         None \<Rightarrow> Some s1
                       | Some t \<Rightarrow> do {
                           d \<leftarrow> slice (tr_buf l1) 0 (unat (q_len e1));
                           update_bitmap_score q
                             (s1\<lparr>disk := (disk s1)(q_fname e1 \<mapsto> d), trace_bits := t\<rparr>) });
                 e3 \<leftarrow> entries s3 q;
                 Some (Inr ((tr_fault l1, tr_buf l1),
                            s3\<lparr>bytes_trim_out := bytes_trim_out s3 + ucast (q_len e3)\<rparr>) :: fatal + (fault \<times> u8 list) \<times> 'a fuzz_state_scheme) }) = Some (Inr (r, s'))"
      by (elim exE conjE) (simp only: split_paired_all prod.case)
    have "links s1 = links s" using links_trim_outer [OF o refl] by simp
    moreover have "links s' = links s1"
      using t by (elim bind_SomeE) (auto split: if_split_asm option.split_asm bind_splits dest!: links_update_bitmap_score)
    ultimately show ?thesis by simp
  qed
qed

lemma links_skip_entry: "skip_entry w e s = Some (b, s') \<Longrightarrow> links s' = links s"
  by (auto simp: skip_entry_def skip_by_chance_def split: if_splits bind_splits dest!: links_UR)

lemma links_late_calibration:
  assumes "late_calibration w q buf s = Some (Inr (b, s'))"
  shows "links s' = links s"
proof -
  obtain e where e: "entries s q = Some e" using assms unfolding late_calibration_def by (cases "entries s q") simp_all
  have "links (s\<lparr>entries := (entries s)(q \<mapsto> e\<lparr>q_exec_cksum := 0\<rparr>)\<rparr>) = links s"
    using e by (simp add: link_of_def)
  then show ?thesis
    using assms unfolding late_calibration_def e bind.bind_lunit
    by (auto simp: andthen_Some_Inr split: if_split_asm dest!: links_calibrate_case)
qed

lemma links_trim_entry:
  assumes "trim_entry w q buf s = Some (Inr (r, s'))"
  shows "links s' = links s"
proof -
  obtain e where e: "entries s q = Some e" using assms unfolding trim_entry_def by (cases "entries s q") simp_all
  show ?thesis
    using assms unfolding trim_entry_def e bind.bind_lunit
    by (auto simp: andthen_Some_Inr upd_entry_def link_of_def split: if_split_asm bind_splits option.split_asm
        dest!: links_trim_case)
qed

lemma links_calculate_score: "calculate_score q s = Some (p, s') \<Longrightarrow> links s' = links s"
  by (auto simp: calculate_score_def Let_def link_of_def split: if_splits bind_splits prod.split_asm)

lemma links_abandon_entry: "abandon_entry q s = Some s' \<Longrightarrow> links s' = links s"
  by (auto simp: abandon_entry_def Let_def link_of_def split: bind_splits if_split_asm)

lemma grew_fuzz_stages:
  assumes "fuzz_stages w q buf n s = Some (Inr (r, s'))"
  shows "grew s s'"
proof -
  obtain p s1 where p: "calculate_score q s = Some (p, s1)"
    using assms unfolding fuzz_stages_def by (cases "calculate_score q s") auto
  obtain e where e: "entries s1 q = Some e"
    using assms unfolding fuzz_stages_def p bind.bind_lunit prod.case by (cases "entries s1 q") simp_all
  let ?f = "if skip_det e s1 then continue else det_stages w q"
  obtain b l1 s2 where "bail ?f (havoc_and_splice w q True) (start_locals buf n (unat (q_len e)) p) s1 = Some (Inr (b, l1, s2))"
    and "s' = s2"
    using assms unfolding fuzz_stages_def p bind.bind_lunit prod.case e Let_def andthen_Some_Inr by auto
  moreover have "steps ?f" by (simp add: step_rules)
  ultimately have "grew s1 s'" using bail_grew steps_havoc_and_splice by blast
  then show ?thesis by (rule grew_before [OF links_calculate_score [OF p]])
qed

lemma grew_fuzz_one:
  assumes "fuzz_one w s = Some (Inr (r, s'))"
  shows "grew s s'"
proof -
  obtain q where q: "queue_cur s = Some q" using assms unfolding fuzz_one_def by (cases "queue_cur s") simp_all
  obtain e where e: "entries s q = Some e"
    using assms unfolding fuzz_one_def q bind.bind_lunit by (cases "entries s q") simp_all
  obtain skip s1 where k: "skip_entry w e s = Some (skip, s1)"
    using assms unfolding fuzz_one_def q bind.bind_lunit e by (cases "skip_entry w e s") auto
  note l1 = links_skip_entry [OF k]
  note run = assms [unfolded fuzz_one_def q bind.bind_lunit e k prod.case]
  show ?thesis
  proof (cases skip)
    case True
    then show ?thesis using run l1 by (auto intro: grew_links)
  next
    case False
    obtain f buf where f: "disk s1 (q_fname e) = Some f" "q_len e \<noteq> 0" "slice f 0 (unat (q_len e)) = Some buf"
      using run False by (auto split: option.splits if_split_asm bind_splits)
    define u where "u = s1\<lparr>subseq_tmouts := 0, cur_depth := ucast (q_depth e)\<rparr>"
    have lu: "links u = links s" using l1 by (simp add: u_def)
    obtain give s2 where c: "late_calibration w q buf u = Some (Inr (give, s2))"
      and r2: "andthen (if give then Some (Inr (True, s2))
                        else andthen (trim_entry w q buf s2)
                          (\<lambda>((give_up1, buf1), s3).
                             if give_up1 then Some (Inr (True, s3))
                             else fuzz_stages w q buf1 (unat (q_len e)) s3))
                       (\<lambda>(ret, s4). map_option (\<lambda>s5. Inr (ret, s5)) (abandon_entry q s4)) = Some (Inr (r, s'))"
      using run False f by (auto simp: andthen_Some_Inr u_def)
    have l2: "links s2 = links s" using links_late_calibration [OF c] lu by simp
    obtain s4 where s4: "(if give then Some (Inr (True, s2))
                        else andthen (trim_entry w q buf s2)
                          (\<lambda>((give_up1, buf1), s3).
                             if give_up1 then Some (Inr (True, s3))
                             else fuzz_stages w q buf1 (unat (q_len e)) s3)) = Some (Inr (r, s4))"
      and s': "abandon_entry q s4 = Some s'"
      using r2 unfolding andthen_Some_Inr by auto
    have "grew s2 s4"
    proof (cases give)
      case True
      then show ?thesis using s4 by simp
    next
      case False
      obtain g b1 s3 where t: "trim_entry w q buf s2 = Some (Inr ((g, b1), s3))"
        and r4: "(if g then Some (Inr (True, s3)) else fuzz_stages w q b1 (unat (q_len e)) s3) = Some (Inr (r, s4))"
        using s4 False by (auto simp: andthen_Some_Inr)
      have "grew s3 s4" using r4 grew_fuzz_stages [of w q b1 "unat (q_len e)" s3 r s4] by (auto split: if_split_asm)
      then show ?thesis by (rule grew_before [OF links_trim_entry [OF t]])
    qed
    then have "grew s s4" by (rule grew_before [OF l2])
    then show ?thesis by (rule grew_then [OF links_abandon_entry [OF s']])
  qed
qed

end
