(* ===== verification/Afl_Main.thy ===== *)
theory Afl_Main
  imports Afl_Grow Afl_Dry
begin

text \<open>
  The main loop of \<^verbatim>\<open>afl-fuzz.c\<close>: cycles over the queue, the import of test cases from other fuzzers
  (\<^verbatim>\<open>sync_fuzzers\<close>), the choice of the next entry, and the end of the session.
\<close>

section \<open>State\<close>

text \<open>
  \<open>w_sync_dir\<close> is what \<^verbatim>\<open>readdir\<close> shows of the synchronisation directory at a point in time: the names
  in it, and for those with a queue directory the files there, with their contents if they can be
  opened.  The last five fields of the state are locals of \<^verbatim>\<open>main\<close>, or constant during a session.
\<close>

record sync_world = fuzz_world +
  w_sync_dir :: "nat \<Rightarrow> (string \<times> (string \<times> u8 list option) list option) list option"

record main_state = fuzz_state +
  queued_imported :: u32
  sync_id :: "string option"
  sync_dir :: string
  sync_interval_cnt :: u32
  prev_queued :: u64
  exit_1 :: bool

section \<open>Import from other fuzzers\<close>

definition SYNC_INTERVAL :: u32 where "SYNC_INTERVAL = 5"

text \<open>\<^verbatim>\<open>sscanf(name, "id:%06u", ...)\<close>, for names without a dot in front.\<close>

definition case_id :: "string \<Rightarrow> u32 option" where
  "case_id fname = (if take 1 fname = ''.'' \<or> take 3 fname \<noteq> ''id:'' then None else scan_u6 (drop 3 fname))"

text \<open>Running one test case; the result is \<open>True\<close> when the user is stopping the fuzzer.\<close>

definition import_case ::
  "'w sync_world_scheme \<Rightarrow> string \<Rightarrow> u8 list \<Rightarrow> 'a main_state_scheme \<Rightarrow>
   (fatal + bool \<times> 'a main_state_scheme) option" where
  "import_case w party mem s =
     (let len = of_nat (length mem) in do {
        s1 \<leftarrow> write_to_testcase mem len s;
        andthen (Some (run_target w (exec_tmout s1) s1))
          (\<lambda>(fault, s2).
             if stop_soon s2 \<noteq> 0 then Some (Inr (True, s2))
             else andthen (save_if_interesting w mem len fault (s2\<lparr>syncing_party := Some party\<rparr>))
               (\<lambda>(keeping, s3). do {
                  let s4 = s3\<lparr>queued_imported := queued_imported s3 + (if keeping then 1 else 0), syncing_party := None\<rparr>;
                  due \<leftarrow> stats_due (stage_cur s4) s4;
                  let s5 = s4\<lparr>stage_cur := stage_cur s4 + 1\<rparr>;
                  s6 \<leftarrow> (if due then show_stats w s5 else Some s5);
                  Some (Inr (False, s6)) })) })"

text \<open>The files of one queue; the result also has \<^verbatim>\<open>next_min_accept\<close>.\<close>

fun sync_queue ::
  "'w sync_world_scheme \<Rightarrow> string \<Rightarrow> u32 \<Rightarrow> (string \<times> u8 list option) list \<Rightarrow> u32 \<Rightarrow> 'a main_state_scheme \<Rightarrow>
   (fatal + bool \<times> u32 \<times> 'a main_state_scheme) option" where
  "sync_queue w party min_accept [] nx s = Some (Inr (False, nx, s))"
| "sync_queue w party min_accept ((fname, contents) # fs) nx s =
     (case case_id fname of
        None \<Rightarrow> sync_queue w party min_accept fs nx s
      | Some k \<Rightarrow>
          let s1 = s\<lparr>syncing_case := k\<rparr> in
          if k < min_accept then sync_queue w party min_accept fs nx s1
          else
            let nx1 = (if k \<ge> nx then k + 1 else nx) in
            case contents of
              None \<Rightarrow> sync_queue w party min_accept fs nx1 s1
            | Some mem \<Rightarrow>
                if mem = [] \<or> length mem > MAX_FILE then sync_queue w party min_accept fs nx1 s1
                else andthen (import_case w party mem s1)
                  (\<lambda>(stop, s2). if stop then Some (Inr (True, nx1, s2))
                               else sync_queue w party min_accept fs nx1 s2))"

text \<open>
  One entry of the synchronisation directory.  The file in \<^verbatim>\<open>.synced\<close> holds the first id that has not
  been looked at; it is created when it is missing, and written when the queue has been seen to the end.
\<close>

definition sync_party ::
  "'w sync_world_scheme \<Rightarrow> string \<Rightarrow> (string \<times> u8 list option) list \<Rightarrow> u32 \<Rightarrow> 'a main_state_scheme \<Rightarrow>
   (fatal + bool \<times> 'a main_state_scheme) option" where
  "sync_party w party files sync_cnt s =
     (let path = ''.synced/'' @ party;
          old = (case disk s path of None \<Rightarrow> [] | Some d \<Rightarrow> d);
          min_accept = le_word (take 4 old);
          s1 = s\<lparr>disk := (disk s)(path \<mapsto> old), stage_name := ''sync '' @ dec (unat sync_cnt),
                 stage_cur := 0, stage_max := 0\<rparr>
      in andthen (sync_queue w party min_accept files min_accept s1)
           (\<lambda>(stop, nx, s2).
              if stop then Some (Inr (True, s2))
              else Some (Inr (False, s2\<lparr>disk := (disk s2)(path \<mapsto> le_bytes 4 nx @ drop 4 old)\<rparr>))))"

fun sync_parties ::
  "'w sync_world_scheme \<Rightarrow> string \<Rightarrow> (string \<times> (string \<times> u8 list option) list option) list \<Rightarrow> u32 \<Rightarrow>
   'a main_state_scheme \<Rightarrow> (fatal + 'a main_state_scheme) option" where
  "sync_parties w me [] sync_cnt s = Some (Inr s)"
| "sync_parties w me ((party, queue_dir) # ps) sync_cnt s =
     (if take 1 party = ''.'' \<or> party = me then sync_parties w me ps sync_cnt s
      else case queue_dir of
        None \<Rightarrow> sync_parties w me ps sync_cnt s
      | Some files \<Rightarrow> andthen (sync_party w party files (sync_cnt + 1) s)
          (\<lambda>(stop, s1). if stop then Some (Inr s1) else sync_parties w me ps (sync_cnt + 1) s1))"

definition sync_fuzzers ::
  "'w sync_world_scheme \<Rightarrow> 'a main_state_scheme \<Rightarrow> (fatal + 'a main_state_scheme) option" where
  "sync_fuzzers w s =
     (case w_sync_dir w (ticks s) of
        None \<Rightarrow> Some (Inl (PFATAL ''Unable to open'' (sync_dir s)))
      | Some ps \<Rightarrow> do {
          me \<leftarrow> sync_id s;
          sync_parties w me ps 0 (s\<lparr>stage_max := 0, stage_cur := 0, cur_depth := 0\<rparr>) })"

section \<open>Cycles\<close>

text \<open>\<^verbatim>\<open>for (q_tmp = queue; q_tmp; q_tmp = q_tmp->next) q_tmp->handled_in_cycle = 0;\<close>\<close>

partial_function (option) clear_handled :: "nat option \<Rightarrow> entry_heap \<Rightarrow> entry_heap option" where
  "clear_handled q h =
     (case q of None \<Rightarrow> Some h
      | Some p \<Rightarrow> do { e \<leftarrow> h p; clear_handled (q_next e) (h(p \<mapsto> e\<lparr>q_handled_in_cycle := False\<rparr>)) })"

definition begin_cycle ::
  "'w sync_world_scheme \<Rightarrow> 'a main_state_scheme \<Rightarrow> (fatal + 'a main_state_scheme) option" where
  "begin_cycle w s =
     do { h \<leftarrow> clear_handled (queue s) (entries s);
          s1 \<leftarrow> show_stats w (s\<lparr>queue_cycle := queue_cycle s + 1, cur_skipped_paths := 0, queue_cur := queue s, entries := h\<rparr>);
          let s2 = (if ucast (queued_paths s1) = prev_queued s1
                    then (if use_splicing s1 then s1\<lparr>cycles_wo_finds := cycles_wo_finds s1 + 1\<rparr>
                          else s1\<lparr>use_splicing := True\<rparr>)
                    else s1\<lparr>cycles_wo_finds := 0\<rparr>);
          let s3 = s2\<lparr>prev_queued := ucast (queued_paths s2)\<rparr>;
          if sync_id s3 \<noteq> None \<and> queue_cycle s3 = 1 \<and> w_getenv w ''AFL_IMPORT_FIRST''
          then sync_fuzzers w s3 else Some (Inr s3) }"

text \<open>One entry is marked and fuzzed; now and then the other fuzzers' finds are imported.\<close>

definition mark_current :: "nat \<Rightarrow> queue_entry \<Rightarrow> 'a main_state_scheme \<Rightarrow> 'a main_state_scheme" where
  "mark_current q e s =
     s\<lparr>entries := (entries s)(q \<mapsto> e\<lparr>q_handled_in_cycle := True\<rparr>), current_entry := q_entry_id e\<rparr>"

definition sync_now ::
  "'w sync_world_scheme \<Rightarrow> bool \<Rightarrow> 'a main_state_scheme \<Rightarrow> (fatal + 'a main_state_scheme) option" where
  "sync_now w skipped s =
     (if stop_soon s = 0 \<and> sync_id s \<noteq> None \<and> \<not> skipped
      then (let s1 = s\<lparr>sync_interval_cnt := sync_interval_cnt s + 1\<rparr> in
            if sync_interval_cnt s mod SYNC_INTERVAL = 0 then sync_fuzzers w s1 else Some (Inr s1))
      else Some (Inr s))"

definition fuzz_current ::
  "'w sync_world_scheme \<Rightarrow> 'a main_state_scheme \<Rightarrow> (fatal + 'a main_state_scheme) option" where
  "fuzz_current w s =
     do { q \<leftarrow> queue_cur s;
          e \<leftarrow> entries s q;
          andthen (fuzz_one w (mark_current q e s)) (\<lambda>(skipped, s1). andthen (sync_now w skipped s1)
            (\<lambda>s2. Some (Inr (if stop_soon s2 = 0 \<and> exit_1 s2 then s2\<lparr>stop_soon := 2\<rparr> else s2)))) }"

text \<open>The next entry: the first one without a mark after a find, otherwise the next one.\<close>

partial_function (option) skip_handled :: "nat option \<Rightarrow> entry_heap \<Rightarrow> nat option option" where
  "skip_handled q h =
     (case q of None \<Rightarrow> Some None
      | Some p \<Rightarrow> do { e \<leftarrow> h p; if q_handled_in_cycle e then skip_handled (q_next e) h else Some (Some p) })"

definition pick_next :: "'a main_state_scheme \<Rightarrow> 'a main_state_scheme option" where
  "pick_next s =
     (case first_unhandled s of
        Some p \<Rightarrow> Some (s\<lparr>queue_cur := Some p, first_unhandled := None\<rparr>)
      | None \<Rightarrow> do { q \<leftarrow> skip_handled (queue_cur s) (entries s); Some (s\<lparr>queue_cur := q\<rparr>) })"

text \<open>One round of \<^verbatim>\<open>while (1)\<close>; the result is \<open>True\<close> for \<^verbatim>\<open>break\<close>.\<close>

definition main_iter ::
  "'w sync_world_scheme \<Rightarrow> 'a main_state_scheme \<Rightarrow> (fatal + bool \<times> 'a main_state_scheme) option" where
  "main_iter w s =
     andthen (cull_queue s) (\<lambda>s1.
       andthen (if queue_cur s1 = None then begin_cycle w s1 else Some (Inr s1)) (\<lambda>s2.
         andthen (fuzz_current w s2) (\<lambda>s3.
           if stop_soon s3 \<noteq> 0 then Some (Inr (True, s3))
           else do { s4 \<leftarrow> pick_next s3; Some (Inr (False, s4)) })))"

partial_function (option) main_loop ::
  "'w sync_world_scheme \<Rightarrow> 'a main_state_scheme \<Rightarrow> (fatal + 'a main_state_scheme) option" where
  "main_loop w s =
     andthen (main_iter w s) (\<lambda>(stop, s1). if stop then Some (Inr s1) else main_loop w s1)"

text \<open>After the loop, and from the label \<^verbatim>\<open>stop_fuzzing\<close> on.\<close>

definition end_session :: "'w sync_world_scheme \<Rightarrow> 'a main_state_scheme \<Rightarrow> 'a main_state_scheme option" where
  "end_session w s =
     do { s1 \<leftarrow> (if queue_cur s \<noteq> None then show_stats w s else Some s);
          save_auto (write_bitmap s1) }"

definition stop_fuzzing :: "'a main_state_scheme \<Rightarrow> 'a main_state_scheme option" where
  "stop_fuzzing s = do { s1 \<leftarrow> destroy_queue s; Some (destroy_extras s1) }"

text \<open>
  From the dry run to the end.  The pause before the loop on a terminal, and the first statistics, are
  left out.
\<close>

definition run_session :: "'w sync_world_scheme \<Rightarrow> 'a main_state_scheme \<Rightarrow> (fatal + 'a main_state_scheme) option" where
  "run_session w s =
     andthen (perform_dry_run w s) (\<lambda>s1. andthen (cull_queue s1) (\<lambda>s2. do {
       s3 \<leftarrow> sort_queue s2;
       s4 \<leftarrow> save_auto s3;
       andthen (if stop_soon s4 \<noteq> 0 then Some (Inr s4)
                else andthen (main_loop w s4) (\<lambda>s5. map_option Inr (end_session w s5)))
         (\<lambda>s6. map_option Inr (stop_fuzzing s6)) }))"

end
