(* ===== verification/Afl_Cycle.thy ===== *)
theory Afl_Cycle
  imports Afl_Main
begin

text \<open>
  A cycle of the main loop gives every entry of the queue to \<^verbatim>\<open>fuzz_one\<close>, also those that are found or
  imported on the way, and none of them twice but, in the first cycle of a session, the first one.
\<close>

section \<open>Imports\<close>

lemma links_main [simp]:
  "links (s\<lparr>queued_imported := v\<rparr>) = links s" "links (s\<lparr>sync_interval_cnt := v\<rparr>) = links s"
  "links (s\<lparr>prev_queued := u\<rparr>) = links s"
  by (simp_all add: links_def)

lemma grew_import_case:
  fixes s :: "'a main_state_scheme"
  assumes "import_case w party mem s = Some (Inr (b, s'))"
  shows "grew s s'"
proof -
  let ?len = "of_nat (length mem) :: u32"
  obtain s1 where s1: "write_to_testcase mem ?len s = Some s1"
    using assms unfolding import_case_def Let_def by (cases "write_to_testcase mem ?len s") simp_all
  obtain fault s2 where s2: "run_target w (exec_tmout s1) s1 = Inr (fault, s2)"
    using assms unfolding import_case_def Let_def s1 bind.bind_lunit
    by (cases "run_target w (exec_tmout s1) s1") (auto simp: andthen_def)
  have l2: "links s2 = links s" using links_write [OF s1] links_run_target [OF s2] by simp
  note run = assms [unfolded import_case_def Let_def s1 bind.bind_lunit s2 andthen_def option.case sum.case prod.case,
      folded andthen_def]
  show ?thesis
  proof (cases "stop_soon s2 = 0")
    case False
    then show ?thesis using run l2 by (auto intro: grew_links)
  next
    case True
    define s3 where "s3 = s2\<lparr>syncing_party := Some party\<rparr>"
    obtain k s4 where k: "save_if_interesting w mem ?len fault s3 = Some (Inr (k, s4))"
      using run True unfolding s3_def
      by (cases "save_if_interesting w mem ?len fault (s2\<lparr>syncing_party := Some party\<rparr>)")
        (auto simp: andthen_def split: sum.splits)
    have "links s' = links s4"
      using run True unfolding s3_def [symmetric] k
      by (auto simp: andthen_def split: bind_splits if_split_asm dest!: links_show_stats)
    moreover have "grew s3 s4" by (rule grew_save_if_interesting [OF k])
    moreover have "links s3 = links s" using l2 by (simp add: s3_def)
    ultimately show ?thesis by (meson grew_then grew_before)
  qed
qed

lemma grew_sync_queue: "sync_queue w party m fs nx s = Some (Inr (b, nx', s')) \<Longrightarrow> grew s s'"
proof (induction fs arbitrary: nx s)
  case (Cons f fs)
  obtain fname contents where f: "f = (fname, contents)" by fastforce
  show ?case
  proof (cases "case_id fname")
    case None
    then show ?thesis using Cons f by simp
  next
    case (Some k)
    define s1 where "s1 = s\<lparr>syncing_case := k\<rparr>"
    have l1: "links s1 = links s" by (simp add: s1_def)
    have rest: "grew s s'" if "sync_queue w party m fs n s1 = Some (Inr (b, nx', s'))" for n
      using Cons.IH [OF that] by (rule grew_before [OF l1])
    have imported: "grew s s'" if "import_case w party mem s1 = Some (Inr (z, s2))"
      and "(if z then Some (Inr (True, n, s2)) else sync_queue w party m fs n s2) = Some (Inr (b, nx', s'))" for mem z s2 n
    proof -
      have "grew s2 s'" using that(2) Cons.IH by (auto split: if_split_asm)
      then have "grew s1 s'" using grew_import_case [OF that(1)] by (blast intro: grew_trans)
      then show ?thesis by (rule grew_before [OF l1])
    qed
    show ?thesis
      using Cons.prems unfolding f sync_queue.simps Some option.case Let_def s1_def [symmetric]
      by (auto simp: andthen_Some_Inr split: if_split_asm option.split_asm intro: rest imported)
  qed
qed simp

lemma grew_sync_party:
  assumes "sync_party w party fs n s = Some (Inr (b, s'))"
  shows "grew s s'"
proof -
  define s1 where "s1 = s\<lparr>disk := (disk s)(''.synced/'' @ party \<mapsto> (case disk s (''.synced/'' @ party) of None \<Rightarrow> [] | Some d \<Rightarrow> d)),
    stage_name := ''sync '' @ dec (unat n), stage_cur := 0, stage_max := 0\<rparr>"
  have l1: "links s1 = links s" by (simp add: s1_def)
  obtain m stop nx s2 where q: "sync_queue w party m fs m s1 = Some (Inr (stop, nx, s2))" and l2: "links s' = links s2"
    using assms unfolding sync_party_def Let_def s1_def [symmetric] by (auto simp: andthen_Some_Inr split: if_split_asm)
  show ?thesis by (rule grew_then [OF l2 grew_before [OF l1 grew_sync_queue [OF q]]])
qed

lemma grew_sync_parties: "sync_parties w me ps n s = Some (Inr s') \<Longrightarrow> grew s s'"
proof (induction ps arbitrary: n s)
  case (Cons p ps)
  obtain party qd where p: "p = (party, qd)" by fastforce
  show ?case
    using Cons.prems unfolding p sync_parties.simps
    by (auto simp: andthen_Some_Inr split: if_split_asm option.split_asm
        intro: Cons.IH grew_sync_party grew_trans [OF grew_sync_party])
qed simp

lemma grew_sync_fuzzers: "sync_fuzzers w s = Some (Inr s') \<Longrightarrow> grew s s'"
  by (auto simp: sync_fuzzers_def split: option.split_asm bind_splits
      dest!: grew_sync_parties intro: grew_before [rotated])

lemma grew_sync_now: "sync_now w b s = Some (Inr s') \<Longrightarrow> grew s s'"
  by (auto simp: sync_now_def Let_def split: if_split_asm dest!: grew_sync_fuzzers intro: grew_before [rotated])

section \<open>Culling\<close>

lemma links_unfavor: "unfavor_loop q h = Some h' \<Longrightarrow> links_in h' = links_in h"
proof (induction rule: unfavor_loop.raw_induct [rotated 1, consumes 1, case_names body])
  case (body f q h h')
  show ?case
  proof (cases q)
    case None
    then show ?thesis using body(2) by simp
  next
    case (Some p)
    then obtain e where e: "h p = Some e" "f (q_next e) (h(p \<mapsto> e\<lparr>q_favored := False\<rparr>)) = Some h'"
      using body(2) by (auto split: bind_splits)
    have "links_in (h(p \<mapsto> e\<lparr>q_favored := False\<rparr>)) = links_in h" using e(1) by (simp add: link_of_def)
    then show ?thesis by (rule trans [OF body(1) [OF e(2)]])
  qed
qed

lemma links_grab_loop:
  fixes s :: "'a fuzz_state_scheme"
  shows "grab_loop n i v s = Some s' \<Longrightarrow> links s' = links s"
proof (induction n arbitrary: i v s)
  case (Suc n)
  then show ?case
    by (auto simp: link_of_def Let_def split: option.split_asm bind_splits if_split_asm dest!: Suc.IH)
qed simp

lemma links_redundant_loop:
  fixes s :: "'a fuzz_state_scheme"
  shows "redundant_loop q s = Some x \<Longrightarrow> x = Inr s' \<Longrightarrow> links s' = links s"
proof (induction arbitrary: s' rule: redundant_loop.raw_induct [rotated 1, consumes 1, case_names body])
  case (body f q s x s')
  from body(2,3) show ?case
    by (auto split: option.split_asm bind_splits sum.split_asm dest!: body(1) [OF _ refl] links_mark_as_redundant)
qed

lemma links_cull_queue:
  fixes s :: "'a fuzz_state_scheme"
  assumes "cull_queue s = Some (Inr s')"
  shows "links s' = links s"
  using assms
  by (auto simp: cull_queue_def split: if_split_asm bind_splits
      dest!: links_redundant_loop [OF _ refl] links_grab_loop links_unfavor)

section \<open>Marks\<close>

lemma qpath_next: "(\<And>p. map_option q_next (h' p) = map_option q_next (h p)) \<Longrightarrow> qpath h' p xs = qpath h p xs"
proof (induction xs arbitrary: p)
  case (Cons x xs)
  have "map_option q_next (h' x) = map_option q_next (h x)" by (rule Cons.prems)
  then show ?case using Cons by (cases "h x"; cases "h' x") simp_all
qed simp

lemma clear_handled_spec:
  "qpath h p xs \<Longrightarrow> distinct xs \<Longrightarrow>
   clear_handled p h = Some (\<lambda>q. if q \<in> set xs then map_option (q_handled_in_cycle_update (\<lambda>_. False)) (h q) else h q)"
proof (induction xs arbitrary: p h)
  case Nil
  then show ?case by (simp add: clear_handled.simps)
next
  case (Cons x xs)
  then obtain e where e: "p = Some x" "h x = Some e" "qpath h (q_next e) xs" by (auto split: option.splits)
  let ?h = "h(x \<mapsto> e\<lparr>q_handled_in_cycle := False\<rparr>)"
  have "qpath ?h (q_next e) xs" by (rule qpath_agree [OF e(3)]) (use Cons.prems in auto)
  from Cons.IH [OF this] have "clear_handled (q_next e) ?h =
      Some (\<lambda>q. if q \<in> set xs then map_option (q_handled_in_cycle_update (\<lambda>_. False)) (?h q) else ?h q)"
    using Cons.prems(2) by (simp only: distinct.simps simp_thms)
  moreover have "(\<lambda>q. if q \<in> set xs then map_option (q_handled_in_cycle_update (\<lambda>_. False)) (?h q) else ?h q) =
      (\<lambda>q. if q \<in> set (x # xs) then map_option (q_handled_in_cycle_update (\<lambda>_. False)) (h q) else h q)"
    using Cons.prems e by (auto simp: fun_eq_iff)
  ultimately show ?case using e(1,2) by (subst clear_handled.simps) (simp only: option.case bind.bind_lunit)
qed

lemma skip_handled_spec: "qpath h p xs \<Longrightarrow> skip_handled p h = Some (find (unhandled h) xs)"
proof (induction xs arbitrary: p)
  case (Cons x xs)
  then obtain e where "p = Some x" "h x = Some e" "qpath h (q_next e) xs" by (auto split: option.splits)
  then show ?case using Cons.IH by (subst skip_handled.simps) (simp add: unhandled_def [of h x])
qed (simp add: skip_handled.simps)

lemma qpath_drop: "qpath h p (ys @ x # zs) \<Longrightarrow> qpath h (Some x) (x # zs)"
proof (induction ys arbitrary: p)
  case (Cons y ys)
  then obtain e where "h y = Some e" and "qpath h (q_next e) (ys @ x # zs)" by (auto split: option.split_asm)
  then show ?case by (intro Cons.IH)
qed simp

lemma find_after: "(\<forall>y \<in> set ys. \<not> P y) \<Longrightarrow> find P (ys @ zs) = find P zs"
  by (induction ys) auto

lemma find_SomeD: "find P xs = Some c \<Longrightarrow> \<exists>ys zs. xs = ys @ c # zs \<and> (\<forall>y \<in> set ys. \<not> P y) \<and> P c"
proof (induction xs)
  case (Cons x xs)
  show ?case
  proof (cases "P x")
    case True
    then show ?thesis using Cons.prems by (intro exI [of _ "[]"] exI [of _ xs]) simp
  next
    case False
    then obtain ys zs where "xs = ys @ c # zs" "\<forall>y \<in> set ys. \<not> P y" "P c" using Cons by auto
    then show ?thesis using False by (intro exI [of _ "x # ys"] exI [of _ zs]) simp
  qed
qed simp

section \<open>One entry\<close>

text \<open>Where the loop stands: the first entry without a mark is next, and the marked ones are \<open>done\<close>.\<close>

definition at_head :: "'a fuzz_state_scheme \<Rightarrow> nat list \<Rightarrow> nat set \<Rightarrow> bool" where
  "at_head s xs D \<longleftrightarrow> listed s xs \<and> first_unhandled s = None \<and> queue_cur s = find (unhandled (entries s)) xs \<and>
     {p \<in> set xs. \<not> unhandled (entries s) p} = D"

lemma at_head_links: "links s' = links s \<Longrightarrow> at_head s xs D \<Longrightarrow> at_head s' xs D"
proof -
  assume l: "links s' = links s"
  then have h: "links_in (entries s') = links_in (entries s)" by (simp add: links_def)
  show "at_head s xs D \<Longrightarrow> at_head s' xs D"
    using l dom_links [OF h] unhandled_links [OF h]
    by (auto simp: at_head_def listed_def links_def qpath_links [OF h])
qed

text \<open>After the entry has been fuzzed, whatever has been found, the next one is the first without a mark.\<close>

lemma pick_next_first:
  assumes l: "listed s xs" and c: "queue_cur s = Some c" "c \<in> set xs" "\<not> unhandled (entries s) c"
    and f: "first_unhandled s = find (unhandled (entries s)) xs \<or>
      first_unhandled s = None \<and> (\<exists>ys zs. xs = ys @ c # zs \<and> (\<forall>y \<in> set ys. \<not> unhandled (entries s) y))"
  shows "pick_next s = Some (s\<lparr>queue_cur := find (unhandled (entries s)) xs, first_unhandled := None\<rparr>)"
proof (cases "first_unhandled s")
  case (Some p)
  then have "find (unhandled (entries s)) xs = Some p" using f by auto
  then show ?thesis using Some by (simp add: pick_next_def)
next
  case None
  have same: "s\<lparr>queue_cur := q, first_unhandled := None\<rparr> = s\<lparr>queue_cur := q\<rparr>" for q
    using None by simp
  obtain ys zs where x: "xs = ys @ c # zs" using c(2) by (auto simp: in_set_conv_decomp)
  have "\<exists>ys zs. xs = ys @ c # zs \<and> (\<forall>y \<in> set ys. \<not> unhandled (entries s) y)"
  proof (cases "find (unhandled (entries s)) xs")
    case None
    then show ?thesis using x by (auto simp: find_None_iff)
  next
    case (Some p)
    then show ?thesis using f None by simp
  qed
  then obtain ys zs where x: "xs = ys @ c # zs" "\<forall>y \<in> set ys. \<not> unhandled (entries s) y" by blast
  have "qpath (entries s) (Some c) (c # zs)" using l x(1) qpath_drop by (auto simp: listed_def)
  from skip_handled_spec [OF this] have "skip_handled (Some c) (entries s) = Some (find (unhandled (entries s)) xs)"
    using x find_after [OF x(2)] by simp
  then show ?thesis using None c(1) same by (simp add: pick_next_def)
qed

lemma unhandled_mark:
  "entries s c = Some e \<Longrightarrow> unhandled (entries (mark_current c e s)) p \<longleftrightarrow> p \<noteq> c \<and> unhandled (entries s) p"
  by (auto simp: mark_current_def unhandled_def)

lemma listed_mark: "entries s c = Some e \<Longrightarrow> listed (mark_current c e s) xs = listed s xs"
proof -
  assume e: "entries s c = Some e"
  have "map_option q_next (entries (mark_current c e s) p) = map_option q_next (entries s p)" for p
    using e by (simp add: mark_current_def)
  then have q: "qpath (entries (mark_current c e s)) (queue s) xs = qpath (entries s) (queue s) xs" by (rule qpath_next)
  have "entries (mark_current c e s) p = None \<longleftrightarrow> entries s p = None" for p using e by (simp add: mark_current_def)
  with q show ?thesis by (simp add: listed_def) (simp add: mark_current_def)
qed

text \<open>Fuzzing the current entry marks it, and nothing that was there before.\<close>

lemma fuzz_current_marks:
  assumes l: "listed s xs" and c: "queue_cur s = Some c" "c \<in> set xs"
    and run: "fuzz_current w s = Some (Inr s1)" and n: "next_alloc s1 < 2 ^ 32"
  obtains xs' where "listed s1 xs'" and "set xs \<subseteq> set xs'" and "queue_cur s1 = Some c"
    and "\<forall>p \<in> set xs. unhandled (entries s1) p \<longleftrightarrow> p \<noteq> c \<and> unhandled (entries s) p"
    and "{p \<in> set xs'. \<not> unhandled (entries s1) p} = insert c {p \<in> set xs. \<not> unhandled (entries s) p}"
    and "xs' = xs \<and> first_unhandled s1 = first_unhandled s \<or> first_unhandled s1 = find (unhandled (entries s1)) xs'"
    and "next_alloc s \<le> next_alloc s1"
proof -
  obtain e where e: "entries s c = Some e" using run unfolding fuzz_current_def c by (cases "entries s c") simp_all
  define m where "m = mark_current c e s"
  obtain skipped t u where f: "fuzz_one w m = Some (Inr (skipped, t))" and y: "sync_now w skipped t = Some (Inr u)"
    and s1: "s1 = (if stop_soon u = 0 \<and> exit_1 u then u\<lparr>stop_soon := 2\<rparr> else u)"
    using run unfolding fuzz_current_def c e bind.bind_lunit m_def [symmetric] by (auto simp: andthen_Some_Inr)
  have "links s1 = links u" using s1 by simp
  then have g: "grew m s1" using grew_trans [OF grew_fuzz_one [OF f] grew_sync_now [OF y]] by (rule grew_then)
  have lm: "listed m xs" using l e by (simp add: m_def listed_mark)
  have um: "unhandled (entries m) p \<longleftrightarrow> p \<noteq> c \<and> unhandled (entries s) p" for p
    using e by (simp add: m_def unhandled_mark)
  have fm: "first_unhandled m = first_unhandled s" "queue_cur m = Some c" "next_alloc m = next_alloc s"
    using c by (simp_all add: m_def mark_current_def)
  obtain xs' where x': "listed s1 xs'" "set xs \<subseteq> set xs'"
    "\<forall>p \<in> set xs. unhandled (entries s1) p = unhandled (entries m) p"
    "\<forall>p \<in> set xs' - set xs. unhandled (entries s1) p"
    "xs' = xs \<and> first_unhandled s1 = first_unhandled m \<or> first_unhandled s1 = find (unhandled (entries s1)) xs'"
    and q: "queue_cur s1 = Some c" "next_alloc s \<le> next_alloc s1"
    using g lm n fm unfolding grew_def by metis
  have "{p \<in> set xs'. \<not> unhandled (entries s1) p} = insert c {p \<in> set xs. \<not> unhandled (entries s) p}"
    using x'(2,3,4) um c(2) by auto
  then show thesis using that x' q um fm(1) by simp
qed

lemma fuzz_current_next:
  assumes head: "listed s xs" "first_unhandled s = None" "queue_cur s = find (unhandled (entries s)) xs"
    and run: "fuzz_current w s = Some (Inr s1)" and n: "next_alloc s1 < 2 ^ 32"
  obtains c xs' where "queue_cur s = Some c" and "listed s1 xs'" and "set xs \<subseteq> set xs'"
    and "{p \<in> set xs'. \<not> unhandled (entries s1) p} = insert c {p \<in> set xs. \<not> unhandled (entries s) p}"
    and "c \<in> set xs" and "unhandled (entries s) c" and "next_alloc s \<le> next_alloc s1"
    and "pick_next s1 = Some (s1\<lparr>queue_cur := find (unhandled (entries s1)) xs', first_unhandled := None\<rparr>)"
proof -
  obtain c where c: "queue_cur s = Some c" using run unfolding fuzz_current_def by (cases "queue_cur s") simp_all
  obtain ys zs where x: "xs = ys @ c # zs" "\<forall>y \<in> set ys. \<not> unhandled (entries s) y" "unhandled (entries s) c"
    using find_SomeD [of "unhandled (entries s)" xs c] head(3) c by auto
  then have cs: "c \<in> set xs" by simp
  obtain xs' where x': "listed s1 xs'" "set xs \<subseteq> set xs'" "queue_cur s1 = Some c"
    "\<forall>p \<in> set xs. unhandled (entries s1) p \<longleftrightarrow> p \<noteq> c \<and> unhandled (entries s) p"
    "{p \<in> set xs'. \<not> unhandled (entries s1) p} = insert c {p \<in> set xs. \<not> unhandled (entries s) p}"
    "xs' = xs \<and> first_unhandled s1 = first_unhandled s \<or> first_unhandled s1 = find (unhandled (entries s1)) xs'"
    "next_alloc s \<le> next_alloc s1"
    by (rule fuzz_current_marks [OF head(1) c cs run n])
  have before: "\<not> unhandled (entries s1) y" if "y \<in> set ys" for y using that x(1,2) x'(4) by auto
  have "first_unhandled s1 = find (unhandled (entries s1)) xs' \<or>
      first_unhandled s1 = None \<and> (\<exists>ys zs. xs' = ys @ c # zs \<and> (\<forall>y \<in> set ys. \<not> unhandled (entries s1) y))"
    using x'(6) x(1) head(2) before by auto
  from pick_next_first [OF x'(1,3) _ _ this] x'(2,4) cs have
    "pick_next s1 = Some (s1\<lparr>queue_cur := find (unhandled (entries s1)) xs', first_unhandled := None\<rparr>)" by auto
  with that show thesis using c x'(1,2,5,7) cs x(3) by blast
qed

section \<open>The start of a cycle\<close>

text \<open>All marks are taken back, unless an import at the very start comes in between.\<close>

definition importing :: "'w sync_world_scheme \<Rightarrow> 'a main_state_scheme \<Rightarrow> bool" where
  "importing w s \<longleftrightarrow> sync_id s \<noteq> None \<and> queue_cycle s = 0 \<and> w_getenv w ''AFL_IMPORT_FIRST''"

lemma importing_fav: "fav_state.more s' = fav_state.more s \<Longrightarrow> importing w s' = importing w s"
  by (cases s; cases s') (simp add: importing_def)

lemma save_auto_session:
  fixes s :: "'a main_state_scheme"
  shows "save_auto s = Some s' \<Longrightarrow> sync_id s' = sync_id s \<and> queue_cycle s' = queue_cycle s"
  by (auto simp: save_auto_def split: if_splits bind_splits)

lemma show_stats_session:
  fixes s :: "'a main_state_scheme"
  shows "show_stats w s = Some s' \<Longrightarrow> sync_id s' = sync_id s \<and> queue_cycle s' = queue_cycle s"
  unfolding show_stats_def get_cur_time_def Let_def prod.case
  by (auto simp: write_bitmap_def dest!: save_auto_session split: if_split_asm bind_splits)

lemma begin_cycle_parts:
  assumes run: "begin_cycle w s = Some (Inr s')" and l: "listed s xs"
  obtains h s3 where "links s3 = links (s\<lparr>queue_cycle := queue_cycle s + 1, cur_skipped_paths := 0, queue_cur := queue s, entries := h\<rparr>)"
    and "clear_handled (queue s) (entries s) = Some h"
    and "if importing w s then sync_fuzzers w s3 = Some (Inr s') else s' = s3"
proof -
  obtain h where h: "clear_handled (queue s) (entries s) = Some h"
    using run unfolding begin_cycle_def by (cases "clear_handled (queue s) (entries s)") simp_all
  define s0 where "s0 = s\<lparr>queue_cycle := queue_cycle s + 1, cur_skipped_paths := 0, queue_cur := queue s, entries := h\<rparr>"
  obtain s1 where s1: "show_stats w s0 = Some s1"
    using run unfolding begin_cycle_def h bind.bind_lunit s0_def [symmetric] by (cases "show_stats w s0") simp_all
  define s2 where "s2 = (if ucast (queued_paths s1) = prev_queued s1
                    then (if use_splicing s1 then s1\<lparr>cycles_wo_finds := cycles_wo_finds s1 + 1\<rparr>
                          else s1\<lparr>use_splicing := True\<rparr>)
                    else s1\<lparr>cycles_wo_finds := 0\<rparr>)"
  define s3 where "s3 = s2\<lparr>prev_queued := ucast (queued_paths s2)\<rparr>"
  have r: "(if sync_id s3 \<noteq> None \<and> queue_cycle s3 = 1 \<and> w_getenv w ''AFL_IMPORT_FIRST''
          then sync_fuzzers w s3 else Some (Inr s3)) = Some (Inr s')"
    using run unfolding begin_cycle_def h bind.bind_lunit s0_def [symmetric] s1 Let_def s2_def [symmetric] s3_def [symmetric] .
  have "sync_id s3 = sync_id s" "queue_cycle s3 = queue_cycle s + 1"
    using show_stats_session [OF s1] by (simp_all add: s3_def s2_def s0_def)
  moreover have "queue_cycle s + 1 = 1 \<longleftrightarrow> queue_cycle s = 0" by simp
  ultimately have "if importing w s then sync_fuzzers w s3 = Some (Inr s') else s' = s3"
    using r by (auto simp: importing_def split: if_split_asm)
  moreover have "links s3 = links s0" using links_show_stats [OF s1] by (simp add: s3_def s2_def)
  ultimately show thesis using that h unfolding s0_def by blast
qed

lemma begin_cycle_head:
  assumes l: "listed s xs" and f: "first_unhandled s = None"
    and run: "begin_cycle w s = Some (Inr s')" and no: "\<not> importing w s"
  shows "at_head s' xs {}"
proof -
  from run l obtain h s3 where p: "clear_handled (queue s) (entries s) = Some h"
    "links s3 = links (s\<lparr>queue_cycle := queue_cycle s + 1, cur_skipped_paths := 0, queue_cur := queue s, entries := h\<rparr>)"
    "if importing w s then sync_fuzzers w s3 = Some (Inr s') else s' = s3"
    by (rule begin_cycle_parts)
  let ?s = "s\<lparr>queue_cycle := queue_cycle s + 1, cur_skipped_paths := 0, queue_cur := queue s, entries := h\<rparr>"
  have q: "qpath (entries s) (queue s) xs" "distinct xs" "xs \<noteq> []" using l by (simp_all add: listed_def)
  have h: "h = (\<lambda>q. if q \<in> set xs then map_option (q_handled_in_cycle_update (\<lambda>_. False)) (entries s q) else entries s q)"
    using clear_handled_spec [OF q(1,2)] p(1) by simp
  have "qpath h (queue s) xs"
    by (subst qpath_next [of h "entries s"]) (simp_all add: q(1) h option.map_comp o_def)
  then have "listed ?s xs" using l by (auto simp: listed_def h)
  moreover have u: "unhandled h x" if "x \<in> set xs" for x
    using that qpath_in_dom [OF q(1) that] by (auto simp: unhandled_def h)
  moreover have "queue s = find (unhandled h) xs" using q(1,3) u by (cases xs) auto
  ultimately have "at_head ?s xs {}" using f by (auto simp: at_head_def)
  then show ?thesis using at_head_links [OF p(2)] p(3) no by simp
qed

lemma begin_cycle_alloc: "begin_cycle w s = Some (Inr s') \<Longrightarrow> listed s xs \<Longrightarrow> next_alloc s \<le> next_alloc s'"
  by (erule (1) begin_cycle_parts) (auto simp: links_def grew_def split: if_split_asm dest!: grew_sync_fuzzers)

lemma more_grab_loop: "grab_loop n i v s = Some s' \<Longrightarrow> fav_state.more s' = fav_state.more s"
  by (induction n i v s rule: grab_loop.induct) (auto split: option.split_asm bind_splits if_split_asm)

lemma more_redundant_loop: "redundant_loop q s = Some x \<Longrightarrow> x = Inr s' \<Longrightarrow> fav_state.more s' = fav_state.more s"
proof (induction arbitrary: s' rule: redundant_loop.raw_induct [rotated 1, consumes 1, case_names body])
  case (body f q s x s')
  have mark: "fav_state.more t = fav_state.more s" if "mark_as_redundant p b s = Some (Inr t)" for p b t
    using that by (auto simp: mark_as_redundant_def Let_def split: bind_splits if_splits)
  from body(2,3) show ?case
    by (auto split: option.split_asm bind_splits sum.split_asm dest!: body(1) [OF _ refl] mark)
qed

lemma more_cull_queue: "cull_queue s = Some (Inr s') \<Longrightarrow> fav_state.more s' = fav_state.more s"
  by (auto simp: cull_queue_def split: if_split_asm bind_splits dest!: more_redundant_loop [OF _ refl] more_grab_loop)

section \<open>A cycle\<close>

text \<open>The entry the next round of the loop gives to \<^verbatim>\<open>fuzz_one\<close>.\<close>

definition current_of :: "'a main_state_scheme \<Rightarrow> nat option" where
  "current_of s = (case queue_cur s of None \<Rightarrow> queue s | Some q \<Rightarrow> Some q)"

text \<open>
  \<open>cycle_from w s ps s'\<close>: from \<open>s\<close> the rounds give the entries \<open>ps\<close> to \<^verbatim>\<open>fuzz_one\<close>, one by one, until
  \<^verbatim>\<open>queue_cur\<close> is \<^verbatim>\<open>NULL\<close> again.
\<close>

inductive cycle_from ::
  "'w sync_world_scheme \<Rightarrow> 'a main_state_scheme \<Rightarrow> nat list \<Rightarrow> 'a main_state_scheme \<Rightarrow> bool" for w where
  last: "\<lbrakk>main_iter w s = Some (Inr (False, s')); current_of s = Some p; queue_cur s' = None\<rbrakk> \<Longrightarrow>
     cycle_from w s [p] s'"
| more: "\<lbrakk>main_iter w s = Some (Inr (False, t)); current_of s = Some p; queue_cur t \<noteq> None; cycle_from w t ps s'\<rbrakk> \<Longrightarrow>
     cycle_from w s (p # ps) s'"

inductive_cases main_iter_cycle: "cycle_from w s ps s'"

lemma main_iter_parts:
  assumes "main_iter w s = Some (Inr (False, s'))"
  obtains s1 s2 s3 where "cull_queue s = Some (Inr s1)"
    and "if queue_cur s1 = None then begin_cycle w s1 = Some (Inr s2) else s2 = s1"
    and "fuzz_current w s2 = Some (Inr s3)" and "pick_next s3 = Some s'"
proof -
  obtain s1 where 1: "cull_queue s = Some (Inr s1)"
    using assms unfolding main_iter_def andthen_Some_Inr by blast
  note run = assms [unfolded main_iter_def 1 andthen_def option.case sum.case, folded andthen_def]
  obtain s2 where 2: "(if queue_cur s1 = None then begin_cycle w s1 else Some (Inr s1)) = Some (Inr s2)"
    using run unfolding andthen_Some_Inr by blast
  note run = run [unfolded 2 andthen_def option.case sum.case, folded andthen_def]
  obtain s3 where 3: "fuzz_current w s2 = Some (Inr s3)"
    using run unfolding andthen_Some_Inr by blast
  note run = run [unfolded 3 andthen_def option.case sum.case]
  have "pick_next s3 = Some s'" using run by (auto split: if_split_asm bind_splits)
  with that 1 2 3 show thesis by (auto split: if_split_asm)
qed

lemma fuzz_current_alloc: "fuzz_current w s = Some (Inr s') \<Longrightarrow> next_alloc s \<le> next_alloc s'"
proof -
  assume run: "fuzz_current w s = Some (Inr s')"
  obtain c where c: "queue_cur s = Some c" using run unfolding fuzz_current_def by (cases "queue_cur s") simp_all
  obtain e where e: "entries s c = Some e" using run unfolding fuzz_current_def c by (cases "entries s c") simp_all
  obtain skipped t u where "fuzz_one w (mark_current c e s) = Some (Inr (skipped, t))" "sync_now w skipped t = Some (Inr u)"
    and s': "s' = (if stop_soon u = 0 \<and> exit_1 u then u\<lparr>stop_soon := 2\<rparr> else u)"
    using run unfolding fuzz_current_def c e bind.bind_lunit by (auto simp: andthen_Some_Inr)
  then have "next_alloc (mark_current c e s) \<le> next_alloc u"
    using grew_fuzz_one grew_sync_now unfolding grew_def by (meson le_trans)
  then show ?thesis by (simp add: s' mark_current_def)
qed

lemma iter_from_head:
  assumes "at_head s2 xs D" and "fuzz_current w s2 = Some (Inr s3)" and "pick_next s3 = Some s'" and "next_alloc s' < 2 ^ 32"
  shows "\<exists>xs' c. queue_cur s2 = Some c \<and> c \<notin> D \<and> at_head s' xs' (insert c D) \<and> set xs \<subseteq> set xs'"
proof -
  have "next_alloc s' = next_alloc s3"
    using assms(3) by (auto simp: pick_next_def split: option.splits bind_splits)
  then have n: "next_alloc s3 < 2 ^ 32" using assms(4) by simp
  note h = assms(1) [unfolded at_head_def]
  obtain c xs' where c: "queue_cur s2 = Some c" "listed s3 xs'" "set xs \<subseteq> set xs'"
    "{p \<in> set xs'. \<not> unhandled (entries s3) p} = insert c {p \<in> set xs. \<not> unhandled (entries s2) p}"
    "c \<in> set xs" "unhandled (entries s2) c"
    "pick_next s3 = Some (s3\<lparr>queue_cur := find (unhandled (entries s3)) xs', first_unhandled := None\<rparr>)"
    by (rule fuzz_current_next [OF _ _ _ assms(2) n]) (use h in auto)
  have s': "s' = s3\<lparr>queue_cur := find (unhandled (entries s3)) xs', first_unhandled := None\<rparr>" using c(7) assms(3) by simp
  have "at_head s' xs' (insert c D)" using c(2,4) h by (simp add: at_head_def s' listed_def)
  moreover have "c \<notin> D" using h c(5,6) by auto
  ultimately show ?thesis using c(1,3) by blast
qed

lemma mid_round:
  assumes "main_iter w s = Some (Inr (False, s'))" and "at_head s xs D" and "queue_cur s \<noteq> None" and "next_alloc s' < 2 ^ 32"
  shows "\<exists>xs' c. current_of s = Some c \<and> c \<notin> D \<and> at_head s' xs' (insert c D) \<and> set xs \<subseteq> set xs'"
proof -
  obtain s1 s2 s3 where p: "cull_queue s = Some (Inr s1)"
    "if queue_cur s1 = None then begin_cycle w s1 = Some (Inr s2) else s2 = s1"
    "fuzz_current w s2 = Some (Inr s3)" "pick_next s3 = Some s'"
    using assms(1) by (rule main_iter_parts)
  have l: "links s1 = links s" by (rule links_cull_queue [OF p(1)])
  then have q: "queue_cur s1 = queue_cur s" by (simp add: links_def)
  then have s2: "s2 = s1" using p(2) assms(3) by simp
  have "at_head s1 xs D" by (rule at_head_links [OF l assms(2)])
  from iter_from_head [OF this p(3,4) [unfolded s2] assms(4)] show ?thesis
    using q assms(3) by (auto simp: current_of_def)
qed

lemma first_round:
  assumes "main_iter w s = Some (Inr (False, s'))" and "listed s xs" and "first_unhandled s = None"
    and "queue_cur s = None" and "\<not> importing w s" and "next_alloc s' < 2 ^ 32"
  shows "\<exists>xs' c. current_of s = Some c \<and> at_head s' xs' {c} \<and> set xs \<subseteq> set xs'"
proof -
  obtain s1 s2 s3 where p: "cull_queue s = Some (Inr s1)"
    "if queue_cur s1 = None then begin_cycle w s1 = Some (Inr s2) else s2 = s1"
    "fuzz_current w s2 = Some (Inr s3)" "pick_next s3 = Some s'"
    using assms(1) by (rule main_iter_parts)
  have l: "links s1 = links s" by (rule links_cull_queue [OF p(1)])
  then have h: "links_in (entries s1) = links_in (entries s)" by (simp add: links_def)
  have s1: "listed s1 xs" "first_unhandled s1 = None" "queue_cur s1 = None" "queue s1 = queue s"
    using l assms(2,3,4) dom_links [OF h] by (auto simp: listed_def links_def qpath_links [OF h])
  have "\<not> importing w s1" using importing_fav [where w = w, OF more_cull_queue [OF p(1)]] assms(5) by simp
  then have b: "at_head s2 xs {}" using begin_cycle_head [OF s1(1,2)] p(2) s1(3) by simp
  from iter_from_head [OF this p(3,4) assms(6)] obtain xs' c where
    c: "queue_cur s2 = Some c" "at_head s' xs' {c}" "set xs \<subseteq> set xs'" by auto
  have "queue s = Some (hd xs)" using assms(2) by (cases xs) (auto simp: listed_def)
  moreover have "c = hd xs" using b c(1) assms(2) by (cases xs) (auto simp: at_head_def listed_def split: if_split_asm)
  ultimately show ?thesis using c assms(4) by (auto simp: current_of_def)
qed

lemma mid_alloc: "main_iter w s = Some (Inr (False, s')) \<Longrightarrow> queue_cur s \<noteq> None \<Longrightarrow> next_alloc s \<le> next_alloc s'"
proof -
  assume run: "main_iter w s = Some (Inr (False, s'))" and c: "queue_cur s \<noteq> None"
  obtain s1 s2 s3 where p: "cull_queue s = Some (Inr s1)"
    "if queue_cur s1 = None then begin_cycle w s1 = Some (Inr s2) else s2 = s1"
    "fuzz_current w s2 = Some (Inr s3)" "pick_next s3 = Some s'"
    using run by (rule main_iter_parts)
  have l: "links s1 = links s" by (rule links_cull_queue [OF p(1)])
  then have "s2 = s1" "next_alloc s1 = next_alloc s" using p(2) c by (simp_all add: links_def)
  then show ?thesis
    using fuzz_current_alloc [OF p(3)] p(4) by (auto simp: pick_next_def split: option.split_asm bind_splits)
qed

lemma cycle_alloc: "cycle_from w s ps s' \<Longrightarrow> queue_cur s \<noteq> None \<Longrightarrow> next_alloc s \<le> next_alloc s'"
  by (induction rule: cycle_from.induct) (use mid_alloc le_trans in blast)+

lemma cycle_rest:
  "cycle_from w s ps s' \<Longrightarrow> at_head s xs D \<Longrightarrow> queue_cur s \<noteq> None \<Longrightarrow> next_alloc s' < 2 ^ 32 \<Longrightarrow>
   \<exists>xs'. distinct ps \<and> set ps \<inter> D = {} \<and> at_head s' xs' (D \<union> set ps) \<and> queue_cur s' = None \<and> set xs \<subseteq> set xs'"
proof (induction arbitrary: xs D rule: cycle_from.induct)
  case (last s s' p)
  then show ?case using mid_round [OF last(1,4,5,6)] by (auto simp: insert_commute)
next
  case (more s t p ps s')
  have "next_alloc t < 2 ^ 32" using cycle_alloc [OF more(4,3)] more.prems(3) by simp
  from mid_round [OF more(1) more.prems(1,2) this] more(2) obtain ys where
    y: "p \<notin> D" "at_head t ys (insert p D)" "set xs \<subseteq> set ys" by auto
  from more.IH [OF y(2) more(3) more.prems(3)] y(1,3) show ?case
    by (auto simp: insert_commute)
qed

text \<open>
  A cycle may begin with \<^verbatim>\<open>first_unhandled\<close> set: \<^verbatim>\<open>sort_queue\<close> leaves it at the head of the queue, and the
  import at the start of the first cycle may set it. \<open>begun\<close> is such a state once all marks have been taken
  back. After the first round the pointer sends the loop to the first entry again, unless there has been
  a find; \<open>again\<close> is the state then.
\<close>

definition begun :: "'a fuzz_state_scheme \<Rightarrow> nat list \<Rightarrow> nat \<Rightarrow> bool" where
  "begun s xs c \<longleftrightarrow> listed s xs \<and> queue_cur s = Some c \<and> c \<in> set xs \<and> (\<forall>p \<in> set xs. unhandled (entries s) p) \<and>
     (first_unhandled s = Some (hd xs) \<or> first_unhandled s = None \<and> c = hd xs)"

definition again :: "'a fuzz_state_scheme \<Rightarrow> nat list \<Rightarrow> nat \<Rightarrow> bool" where
  "again s xs c \<longleftrightarrow> listed s xs \<and> queue_cur s = Some c \<and> c = hd xs \<and> first_unhandled s = None \<and>
     {p \<in> set xs. \<not> unhandled (entries s) p} = {c}"

lemma again_links: "links s' = links s \<Longrightarrow> again s xs c \<Longrightarrow> again s' xs c"
proof -
  assume l: "links s' = links s"
  then have h: "links_in (entries s') = links_in (entries s)" by (simp add: links_def)
  show "again s xs c \<Longrightarrow> again s' xs c"
    using l dom_links [OF h] unhandled_links [OF h] by (auto simp: again_def listed_def links_def qpath_links [OF h])
qed

lemma find_hd: "xs \<noteq> [] \<Longrightarrow> P (hd xs) \<Longrightarrow> find P xs = Some (hd xs)"
  by (cases xs) simp_all

lemma hd_split: "xs \<noteq> [] \<Longrightarrow> \<exists>ys zs. xs = ys @ hd xs # zs \<and> (\<forall>y \<in> set ys. P y)"
  by (intro exI [of _ "[]"] exI [of _ "tl xs"]) simp

lemma picked_head:
  assumes "listed s3 xs'" and "queue_cur s3 = Some c" "c \<in> set xs'" and "{p \<in> set xs'. \<not> unhandled (entries s3) p} = {c}"
    and "first_unhandled s3 = find (unhandled (entries s3)) xs' \<or> first_unhandled s3 = None \<and> c = hd xs'"
    and "pick_next s3 = Some s'"
  shows "at_head s' xs' {c}"
proof -
  have "\<not> unhandled (entries s3) c" "xs' \<noteq> []" using assms(1,4) by (auto simp: listed_def)
  then have "pick_next s3 = Some (s3\<lparr>queue_cur := find (unhandled (entries s3)) xs', first_unhandled := None\<rparr>)"
    using assms(5) hd_split [of xs'] by (intro pick_next_first [OF assms(1-3)]) auto
  then have "s' = s3\<lparr>queue_cur := find (unhandled (entries s3)) xs', first_unhandled := None\<rparr>" using assms(6) by simp
  then show ?thesis using assms(1,4) by (simp add: at_head_def listed_def)
qed

lemma iter_from_begun:
  assumes b: "begun s2 xs c" and run: "fuzz_current w s2 = Some (Inr s3)" "pick_next s3 = Some s'" and n: "next_alloc s' < 2 ^ 32"
  shows "\<exists>xs'. set xs \<subseteq> set xs' \<and> (at_head s' xs' {c} \<or> again s' xs' c)"
proof -
  have n3: "next_alloc s3 < 2 ^ 32" using run(2) n by (auto simp: pick_next_def split: option.splits bind_splits)
  have l: "listed s2 xs" "queue_cur s2 = Some c" "c \<in> set xs" using b by (simp_all add: begun_def)
  then have ne: "xs \<noteq> []" by auto
  obtain xs' where x': "listed s3 xs'" "set xs \<subseteq> set xs'" "queue_cur s3 = Some c"
    "\<forall>p \<in> set xs. unhandled (entries s3) p \<longleftrightarrow> p \<noteq> c \<and> unhandled (entries s2) p"
    "{p \<in> set xs'. \<not> unhandled (entries s3) p} = insert c {p \<in> set xs. \<not> unhandled (entries s2) p}"
    "xs' = xs \<and> first_unhandled s3 = first_unhandled s2 \<or> first_unhandled s3 = find (unhandled (entries s3)) xs'"
    by (rule fuzz_current_marks [OF l run(1) n3])
  have marks: "{p \<in> set xs'. \<not> unhandled (entries s3) p} = {c}" using x'(5) b by (auto simp: begun_def)
  have cs: "c \<in> set xs'" using l(3) x'(2) by auto
  show ?thesis
  proof (cases "first_unhandled s3 = find (unhandled (entries s3)) xs' \<or> first_unhandled s3 = None \<and> c = hd xs'")
    case True
    then show ?thesis using picked_head [OF x'(1,3) cs marks _ run(2)] x'(2) by blast
  next
    case False
    then have same: "xs' = xs" "first_unhandled s3 = Some (hd xs)" using x'(6) b by (auto simp: begun_def)
    have "c = hd xs"
    proof (rule ccontr)
      assume "c \<noteq> hd xs"
      then have "unhandled (entries s3) (hd xs)" using x'(4) ne b by (simp add: begun_def)
      then show False using False same find_hd [OF ne] by simp
    qed
    moreover have "s' = s3\<lparr>queue_cur := Some (hd xs), first_unhandled := None\<rparr>"
      using run(2) same(2) by (simp add: pick_next_def)
    ultimately have "again s' xs c" using x'(1) marks same(1) by (simp add: again_def listed_def)
    then show ?thesis by blast
  qed
qed

lemma iter_again:
  assumes b: "again s2 xs c" and run: "fuzz_current w s2 = Some (Inr s3)" "pick_next s3 = Some s'" and n: "next_alloc s' < 2 ^ 32"
  shows "\<exists>xs'. set xs \<subseteq> set xs' \<and> at_head s' xs' {c}"
proof -
  have n3: "next_alloc s3 < 2 ^ 32" using run(2) n by (auto simp: pick_next_def split: option.splits bind_splits)
  have l: "listed s2 xs" "queue_cur s2 = Some c" "c \<in> set xs" using b by (auto simp: again_def)
  obtain xs' where x': "listed s3 xs'" "set xs \<subseteq> set xs'" "queue_cur s3 = Some c"
    "\<forall>p \<in> set xs. unhandled (entries s3) p \<longleftrightarrow> p \<noteq> c \<and> unhandled (entries s2) p"
    "{p \<in> set xs'. \<not> unhandled (entries s3) p} = insert c {p \<in> set xs. \<not> unhandled (entries s2) p}"
    "xs' = xs \<and> first_unhandled s3 = first_unhandled s2 \<or> first_unhandled s3 = find (unhandled (entries s3)) xs'"
    by (rule fuzz_current_marks [OF l run(1) n3])
  have "at_head s' xs' {c}"
    by (rule picked_head [OF x'(1,3) _ _ _ run(2)]) (use x'(2,5,6) l(3) b in \<open>auto simp: again_def\<close>)
  then show ?thesis using x'(2) by blast
qed

lemma begin_cycle_begun:
  assumes l: "listed s xs" and f: "first_unhandled s = None \<or> first_unhandled s = Some (hd xs)"
    and run: "begin_cycle w s = Some (Inr s')" and n: "next_alloc s' < 2 ^ 32"
  shows "\<exists>xs'. begun s' xs' (hd xs) \<and> set xs \<subseteq> set xs'"
proof -
  from run l obtain h s3 where p: "clear_handled (queue s) (entries s) = Some h"
    "links s3 = links (s\<lparr>queue_cycle := queue_cycle s + 1, cur_skipped_paths := 0, queue_cur := queue s, entries := h\<rparr>)"
    "if importing w s then sync_fuzzers w s3 = Some (Inr s') else s' = s3"
    by (rule begin_cycle_parts)
  let ?s = "s\<lparr>queue_cycle := queue_cycle s + 1, cur_skipped_paths := 0, queue_cur := queue s, entries := h\<rparr>"
  have q: "qpath (entries s) (queue s) xs" "distinct xs" "xs \<noteq> []" using l by (simp_all add: listed_def)
  have h: "h = (\<lambda>q. if q \<in> set xs then map_option (q_handled_in_cycle_update (\<lambda>_. False)) (entries s q) else entries s q)"
    using clear_handled_spec [OF q(1,2)] p(1) by simp
  have "qpath h (queue s) xs"
    by (subst qpath_next [of h "entries s"]) (simp_all add: q(1) h option.map_comp o_def)
  then have "listed ?s xs" using l by (auto simp: listed_def h)
  moreover have "unhandled h x" if "x \<in> set xs" for x
    using that qpath_in_dom [OF q(1) that] by (auto simp: unhandled_def h)
  moreover have "queue s = Some (hd xs)" using q(1,3) by (cases xs) auto
  ultimately have b: "listed ?s xs \<and> queue_cur ?s = Some (hd xs) \<and> (\<forall>p \<in> set xs. unhandled (entries ?s) p) \<and>
      first_unhandled ?s = first_unhandled s" by simp
  have "grew s3 s'" using p(3) by (auto split: if_split_asm dest: grew_sync_fuzzers)
  then have g: "grew ?s s'" by (rule grew_before [OF p(2)])
  obtain xs' where x': "listed s' xs'" "set xs \<subseteq> set xs'"
    "\<forall>p \<in> set xs. unhandled (entries s') p = unhandled (entries ?s) p"
    "\<forall>p \<in> set xs' - set xs. unhandled (entries s') p"
    "xs' = xs \<and> first_unhandled s' = first_unhandled ?s \<or> first_unhandled s' = find (unhandled (entries s')) xs'"
    and c: "queue_cur s' = queue_cur ?s"
    using g b n unfolding grew_def by blast
  have un: "\<forall>p \<in> set xs'. unhandled (entries s') p" using x'(3,4) b by blast
  have ne: "xs' \<noteq> []" using x'(1) by (simp add: listed_def)
  have "find (unhandled (entries s')) xs' = Some (hd xs')" using un ne by (intro find_hd) auto
  then have "first_unhandled s' = Some (hd xs') \<or> first_unhandled s' = None \<and> hd xs = hd xs'" using x'(5) b f by auto
  moreover have "hd xs \<in> set xs'" using hd_in_set [OF q(3)] x'(2) by blast
  ultimately have "begun s' xs' (hd xs)" using x'(1) c b un unfolding begun_def by simp
  then show ?thesis using x'(2) by blast
qed

lemma begun_round:
  assumes "main_iter w s = Some (Inr (False, s'))" and "listed s xs"
    and "first_unhandled s = None \<or> first_unhandled s = Some (hd xs)"
    and "queue_cur s = None" and "next_alloc s' < 2 ^ 32"
  shows "\<exists>xs'. current_of s = Some (hd xs) \<and> set xs \<subseteq> set xs' \<and> (at_head s' xs' {hd xs} \<or> again s' xs' (hd xs))"
proof -
  obtain s1 s2 s3 where p: "cull_queue s = Some (Inr s1)"
    "if queue_cur s1 = None then begin_cycle w s1 = Some (Inr s2) else s2 = s1"
    "fuzz_current w s2 = Some (Inr s3)" "pick_next s3 = Some s'"
    using assms(1) by (rule main_iter_parts)
  have l: "links s1 = links s" by (rule links_cull_queue [OF p(1)])
  then have h: "links_in (entries s1) = links_in (entries s)" by (simp add: links_def)
  have s1: "listed s1 xs" "first_unhandled s1 = first_unhandled s" "queue_cur s1 = None"
    using l assms(2,4) dom_links [OF h] by (auto simp: listed_def links_def qpath_links [OF h])
  have "next_alloc s' = next_alloc s3"
    using p(4) by (auto simp: pick_next_def split: option.splits bind_splits)
  then have n2: "next_alloc s2 < 2 ^ 32" using fuzz_current_alloc [OF p(3)] assms(5) by simp
  obtain ys where y: "begun s2 ys (hd xs)" "set xs \<subseteq> set ys"
    using begin_cycle_begun [OF s1(1) _ _ n2] p(2) s1(2,3) assms(3) by auto
  have "queue s = Some (hd xs)" using assms(2) by (cases xs) (auto simp: listed_def)
  then have "current_of s = Some (hd xs)" using assms(4) by (simp add: current_of_def)
  then show ?thesis using iter_from_begun [OF y(1) p(3,4) assms(5)] y(2) by blast
qed

lemma again_round:
  assumes "main_iter w s = Some (Inr (False, s'))" and "again s xs c" and "next_alloc s' < 2 ^ 32"
  shows "\<exists>xs'. current_of s = Some c \<and> set xs \<subseteq> set xs' \<and> at_head s' xs' {c}"
proof -
  obtain s1 s2 s3 where p: "cull_queue s = Some (Inr s1)"
    "if queue_cur s1 = None then begin_cycle w s1 = Some (Inr s2) else s2 = s1"
    "fuzz_current w s2 = Some (Inr s3)" "pick_next s3 = Some s'"
    using assms(1) by (rule main_iter_parts)
  have a: "again s1 xs c" by (rule again_links [OF links_cull_queue [OF p(1)] assms(2)])
  then have "s2 = s1" using p(2) by (simp add: again_def)
  then show ?thesis using iter_again [OF a _ p(4) assms(3)] p(3) assms(2) by (auto simp: again_def current_of_def)
qed

text \<open>
  C30: in a cycle of the main loop that runs to its end, every entry of the queue is given to
  \<^verbatim>\<open>fuzz_one\<close>: the ones that were there when it started and the ones that were found or imported on
  the way; and the queue is in a state to start the next cycle. When the cycle starts with
  \<^verbatim>\<open>first_unhandled\<close> empty, as every cycle leaves it, and without the import that \<^verbatim>\<open>AFL_IMPORT_FIRST\<close> asks
  for, every entry is given exactly once. When \<^verbatim>\<open>first_unhandled\<close> is still at the head of the queue, as
  \<^verbatim>\<open>sort_queue\<close> leaves it for the first cycle of a session with two seeds or more, or when there is such an
  import, the first entry may be given twice in a row, and every other entry is still given exactly
  once.
\<close>

theorem cycle_fuzzes_every_entry:
  assumes "cycle_from w s ps s'" and "listed s xs" and "queue_cur s = None"
    and "first_unhandled s = None \<or> first_unhandled s = Some (hd xs)" and "next_alloc s' < 2 ^ 32"
  shows "\<exists>xs'. listed s' xs' \<and> set xs \<subseteq> set xs' \<and> set ps = set xs' \<and>
    queue_cur s' = None \<and> first_unhandled s' = None \<and>
    (distinct ps \<or> (\<exists>qs. ps = hd xs # hd xs # qs \<and> distinct (hd xs # qs))) \<and>
    (first_unhandled s = None \<and> \<not> importing w s \<longrightarrow> distinct ps)"
proof -
  have fin: "\<exists>xs'. listed s' xs' \<and> set xs \<subseteq> set xs' \<and> set ps = set xs' \<and> queue_cur s' = None \<and> first_unhandled s' = None"
    if h: "at_head s' xs' (set ps)" "queue_cur s' = None" "set xs \<subseteq> set xs'" for xs'
  proof -
    have "find (unhandled (entries s')) xs' = None" using h(1,2) by (simp add: at_head_def)
    then have "set ps = set xs'" using h(1) by (auto simp: at_head_def find_None_iff)
    then show ?thesis using h by (auto simp: at_head_def)
  qed
  from assms(1) show ?thesis
  proof (cases rule: cycle_from.cases)
    case (last p)
    obtain xs' where "current_of s = Some (hd xs)" "set xs \<subseteq> set xs'" "at_head s' xs' {hd xs} \<or> again s' xs' (hd xs)"
      using begun_round [OF last(2) assms(2,4,3,5)] by blast
    then have "at_head s' xs' (set ps)" "set xs \<subseteq> set xs'" using last(1,3,4) by (auto simp: again_def)
    from fin [OF this(1) last(4) this(2)] show ?thesis using last(1) by simp
  next
    case (more t p qs)
    have n: "next_alloc t < 2 ^ 32" using cycle_alloc [OF more(5,4)] assms(5) by simp
    obtain ys where y: "current_of s = Some (hd xs)" "set xs \<subseteq> set ys" "at_head t ys {hd xs} \<or> again t ys (hd xs)"
      using begun_round [OF more(2) assms(2,4,3) n] by blast
    have p: "p = hd xs" using y(1) more(3) by simp
    have straight: "set xs \<subseteq> set ys \<Longrightarrow> at_head t ys {p} \<Longrightarrow> ?thesis" for ys
    proof -
      assume at: "set xs \<subseteq> set ys" "at_head t ys {p}"
      obtain xs' where z: "distinct qs" "set qs \<inter> {p} = {}" "at_head s' xs' ({p} \<union> set qs)" "queue_cur s' = None" "set ys \<subseteq> set xs'"
        using cycle_rest [OF more(5) at(2) more(4) assms(5)] by blast
      have "at_head s' xs' (set ps)" "set xs \<subseteq> set xs'" using z(3,5) more(1) at(1) by auto
      from fin [OF this(1) z(4) this(2)] show ?thesis using z(1,2) more(1) by simp
    qed
    show ?thesis
    proof (cases "first_unhandled s = None \<and> \<not> importing w s")
      case True
      then show ?thesis using first_round [OF more(2) assms(2) _ assms(3) _ n] more(3) straight by auto
    next
      case False
      show ?thesis
      proof (cases "at_head t ys {hd xs}")
        case True
        then show ?thesis using straight [OF y(2)] p by simp
      next
        case ag: False
        then have ag: "again t ys (hd xs)" using y(3) by blast
        from more(5) show ?thesis
        proof (cases rule: cycle_from.cases)
          case (last p2)
          obtain xs' where "current_of t = Some (hd xs)" "set ys \<subseteq> set xs'" "at_head s' xs' {hd xs}"
            using again_round [OF last(2) ag assms(5)] by blast
          then have "at_head s' xs' (set ps)" "set xs \<subseteq> set xs'" "ps = [hd xs, hd xs]" using last(1,3) more(1) p y(2) by auto
          from fin [OF this(1) last(4) this(2)] this(3) show ?thesis using False by auto
        next
          case (more u p2 rs)
          have nu: "next_alloc u < 2 ^ 32" using cycle_alloc [OF more(5,4)] assms(5) by simp
          obtain zs where at: "current_of t = Some (hd xs)" "set ys \<subseteq> set zs" "at_head u zs {hd xs}"
            using again_round [OF more(2) ag nu] by blast
          obtain xs' where z: "distinct rs" "set rs \<inter> {hd xs} = {}" "at_head s' xs' ({hd xs} \<union> set rs)" "queue_cur s' = None" "set zs \<subseteq> set xs'"
            using cycle_rest [OF more(5) at(3) more(4) assms(5)] by blast
          have ps: "ps = hd xs # hd xs # rs" using \<open>ps = p # qs\<close> p more(1,3) at(1) by simp
          have "at_head s' xs' (set ps)" "set xs \<subseteq> set xs'" using z(3,5) ps at(2) y(2) by auto
          from fin [OF this(1) z(4) this(2)] show ?thesis using z(1,2) ps False by auto
        qed
      qed
    qed
  qed
qed

text \<open>Two entries that have been fuzzed before, and dice that skip them.\<close>

definition demo_main :: main_state where
  "demo_main = fuzz_state.extend (demo_fuzz\<lparr>entries :=
       [1 \<mapsto> zero_entry\<lparr>q_fname := ''q/a'', q_len := 4, q_was_fuzzed := True, q_next := Some 2\<rparr>,
        2 \<mapsto> zero_entry\<lparr>q_fname := ''q/b'', q_len := 4, q_was_fuzzed := True, q_entry_id := 1\<rparr>],
       pending_favored := 1\<rparr>)
     \<lparr>queued_imported = 0, sync_id = None, sync_dir = ''..'', sync_interval_cnt = 0, prev_queued = 0, exit_1 = False\<rparr>"

definition demo_sync_world :: sync_world where
  "demo_sync_world = fuzz_world.extend demo_fuzz_world \<lparr>w_sync_dir = (\<lambda>_. None)\<rparr>"

lemmas demo_main_defs = demo_main_def demo_defs demo_sync_world_def demo_fuzz_world_def
  demo_exec_world_def demo_world_def fuzz_state.defs fuzz_world.defs exec_world.defs world.defs

lemmas demo_round_defs = main_iter_def cull_queue_def andthen_def begin_cycle_def show_stats_def get_cur_time_def
  fuzz_current_def mark_current_def fuzz_one_def skip_entry_def skip_by_chance_def UR_def sync_now_def pick_next_def
  skip_handled.simps clear_handled.simps zero_entry_def SKIP_TO_NEW_PROB_def RESEED_RNG_def UI_TARGET_HZ_def
  demo_main_defs Let_def current_of_def

lemma demo_cycle:
  "\<exists>t u. main_iter demo_sync_world demo_main = Some (Inr (False, t)) \<and> current_of demo_main = Some 1 \<and> queue_cur t \<noteq> None \<and>
     main_iter demo_sync_world t = Some (Inr (False, u)) \<and> current_of t = Some 2 \<and> queue_cur u = None \<and> next_alloc u = 10"
  by (simp add: demo_round_defs)

text \<open>
  When \<^verbatim>\<open>first_unhandled\<close> still points to the head, as \<^verbatim>\<open>sort_queue\<close> leaves it, the first entry is fuzzed
  twice in a cycle.
\<close>

lemma demo_stale:
  "\<exists>t u v. main_iter demo_sync_world (demo_main\<lparr>first_unhandled := Some 1\<rparr>) = Some (Inr (False, t)) \<and> queue_cur t = Some 1 \<and>
     main_iter demo_sync_world t = Some (Inr (False, u)) \<and> queue_cur u = Some 2 \<and>
     main_iter demo_sync_world u = Some (Inr (False, v)) \<and> queue_cur v = None"
  by (simp add: demo_round_defs)

theorem cycle_fuzzes_every_entry_witness:
  "\<exists>s' xs'. cycle_from demo_sync_world demo_main [1, 2] s' \<and> listed s' xs' \<and> set xs' = {1, 2} \<and> first_unhandled s' = None"
proof -
  obtain t u where r: "main_iter demo_sync_world demo_main = Some (Inr (False, t))" "current_of demo_main = Some 1"
    "queue_cur t \<noteq> None" "main_iter demo_sync_world t = Some (Inr (False, u))" "current_of t = Some 2"
    "queue_cur u = None" "next_alloc u = 10"
    using demo_cycle by blast
  have c: "cycle_from demo_sync_world demo_main [1, 2] u"
    by (rule cycle_from.more [OF r(1,2,3) cycle_from.last [OF r(4,5,6)]])
  have "listed demo_main [1, 2]" by (simp add: listed_def demo_main_defs zero_entry_def)
  moreover have "queue_cur demo_main = None" "first_unhandled demo_main = None" by (simp_all add: demo_main_defs)
  ultimately obtain xs' where "listed u xs'" "set [1, 2] = set xs'" "first_unhandled u = None"
    using cycle_fuzzes_every_entry [OF c, of "[1, 2]"] r(7) by auto
  then show ?thesis using c by force
qed

end
