(* ===== verification/Afl_TokenCap.thy ===== *)
theory Afl_TokenCap
  imports Afl_Extras
begin

text \<open>
  The companion library \<^verbatim>\<open>libtokencap/libtokencap.so.c\<close>: replacements for the string comparison
  functions that write every argument found in read-only memory to a file, one quoted token a line,
  for use as a dictionary of the fuzzer.  A pointer argument is its address and the bytes that can be
  read from there on; \<open>None\<close> is a read past them.
\<close>

section \<open>State\<close>

record cap_arg =
  arg_at :: u64
  arg_mem :: "u8 list"

record tokencap =
  ro_maps :: "(u64 \<times> u64) list"
  ro_loaded :: bool
  cap_out :: "u8 list option"

definition MAX_MAPPINGS :: nat where "MAX_MAPPINGS = 1024"

section \<open>Read-only mappings\<close>

text \<open>\<^verbatim>\<open>%p\<close> of \<^verbatim>\<open>sscanf\<close>: white space, an optional prefix \<^verbatim>\<open>0x\<close>, hexadecimal digits.\<close>

definition scan_pointer :: "u8 list \<Rightarrow> (u64 \<times> u8 list) option" where
  "scan_pointer l =
     (let l1 = dropWhile isspace l;
          l2 = (case l1 of z # x # h # _ \<Rightarrow> if z = 48 \<and> tolower x = 120 \<and> isxdigit h then drop 2 l1 else l1
                | _ \<Rightarrow> l1);
          ds = takeWhile isxdigit l2;
          v = foldl (\<lambda>v d. 16 * v + unat (hexdigit (tolower d))) 0 ds
      in if ds = [] then None
         else Some (if v < 2 ^ 64 then of_nat v else - 1, drop (length ds) l2))"

text \<open>\<^verbatim>\<open>"%p-%p %c%c"\<close>: the four values, or \<open>None\<close> when fewer are matched.\<close>

definition scan_mapping :: "u8 list \<Rightarrow> (u64 \<times> u64 \<times> u8 \<times> u8) option" where
  "scan_mapping l =
     do { (st, r) \<leftarrow> scan_pointer l;
          r1 \<leftarrow> (case r of c # r1 \<Rightarrow> if c = 45 then Some r1 else None | [] \<Rightarrow> None);
          (en, r2) \<leftarrow> scan_pointer r1;
          (case dropWhile isspace r2 of rd # wr # _ \<Rightarrow> Some (st, en, rd, wr) | _ \<Rightarrow> None) }"

function load_mappings_loop :: "u8 list \<Rightarrow> (u64 \<times> u64) list \<Rightarrow> (u64 \<times> u64) list" where
  "load_mappings_loop f ro =
     (if f = [] then ro
      else case scan_mapping (takeWhile (\<lambda>c. c \<noteq> 0) (fst (fgets f))) of
          None \<Rightarrow> load_mappings_loop (snd (fgets f)) ro
        | Some (st, en, rd, wr) \<Rightarrow>
            if wr = 119 \<or> rd \<noteq> 114 then load_mappings_loop (snd (fgets f)) ro
            else if length ro + 1 = MAX_MAPPINGS then ro @ [(st, en)]
            else load_mappings_loop (snd (fgets f)) (ro @ [(st, en)]))"
  by pat_completeness auto
termination by (relation "measure (\<lambda>(f, _). length f)") (auto dest: fgets_shorter)

declare load_mappings_loop.simps [simp del]

text \<open>\<open>maps\<close> is what \<^verbatim>\<open>/proc/self/maps\<close> holds, if it can be opened.\<close>

definition tokencap_load_mappings :: "u8 list option \<Rightarrow> tokencap \<Rightarrow> tokencap" where
  "tokencap_load_mappings maps s =
     (let s1 = s\<lparr>ro_loaded := True\<rparr>
      in case maps of None \<Rightarrow> s1 | Some f \<Rightarrow> s1\<lparr>ro_maps := load_mappings_loop f (ro_maps s1)\<rparr>)"

definition tokencap_is_ro :: "u8 list option \<Rightarrow> u64 \<Rightarrow> tokencap \<Rightarrow> bool \<times> tokencap" where
  "tokencap_is_ro maps p s =
     (let s1 = (if ro_loaded s then s else tokencap_load_mappings maps s)
      in (list_ex (\<lambda>(st, en). st \<le> p \<and> p \<le> en) (ro_maps s1), s1))"

section \<open>Writing a token\<close>

text \<open>The local buffer, as the bytes up to \<^verbatim>\<open>pos\<close>: \<open>None\<close> is a write past its end.\<close>

definition dump_room :: "u8 list \<Rightarrow> nat \<Rightarrow> bool" where
  "dump_room buf n \<longleftrightarrow> length buf + n \<le> MAX_AUTO_EXTRA * 4 + 1"

fun dump_loop :: "u8 list \<Rightarrow> nat \<Rightarrow> bool \<Rightarrow> u8 list \<Rightarrow> u8 list option" where
  "dump_loop p 0 is_text buf = Some buf"
| "dump_loop [] (Suc n) is_text buf = None"
| "dump_loop (b # p) (Suc n) is_text buf =
     (if is_text \<and> b = 0 then Some buf
      else if b \<le> 31 \<or> 127 \<le> b \<or> b = 34 \<or> b = 92
      then (if dump_room buf 5
            then dump_loop p n is_text (buf @ [92, 120, hexchar (drop_bit 4 b), hexchar (b AND 15)])
            else None)
      else (if dump_room buf 1 then dump_loop p n is_text (buf @ [b]) else None))"

definition tokencap_dump :: "u8 list \<Rightarrow> nat \<Rightarrow> bool \<Rightarrow> tokencap \<Rightarrow> tokencap option" where
  "tokencap_dump p len is_text s =
     (if len < MIN_AUTO_EXTRA \<or> len > MAX_AUTO_EXTRA then Some s
      else case cap_out s of
          None \<Rightarrow> Some s
        | Some out \<Rightarrow>
            do { buf \<leftarrow> dump_loop p len is_text [];
                 if dump_room buf 1
                 then Some (s\<lparr>cap_out := Some (out @ [34] @ takeWhile (\<lambda>c. c \<noteq> 0) buf @ [34, 10])\<rparr>)
                 else None })"

definition strlen :: "u8 list \<Rightarrow> nat option" where
  "strlen p = (let n = length (takeWhile (\<lambda>c. c \<noteq> 0) p) in if n < length p then Some n else None)"

text \<open>The two lines at the start of each replacement; \<open>len\<close> is \<open>None\<close> where \<^verbatim>\<open>strlen\<close> is used.\<close>

definition dump_arg ::
  "u8 list option \<Rightarrow> cap_arg \<Rightarrow> nat option \<Rightarrow> bool \<Rightarrow> tokencap \<Rightarrow> tokencap option" where
  "dump_arg maps a len is_text s =
     (let (ro, s1) = tokencap_is_ro maps (arg_at a) s
      in if \<not> ro then Some s1
         else do { n \<leftarrow> (case len of Some n \<Rightarrow> Some n | None \<Rightarrow> strlen (arg_mem a));
                   tokencap_dump (arg_mem a) n is_text s1 })"

definition dump_args ::
  "u8 list option \<Rightarrow> cap_arg \<Rightarrow> cap_arg \<Rightarrow> nat option \<Rightarrow> bool \<Rightarrow> tokencap \<Rightarrow> tokencap option" where
  "dump_args maps a b len is_text s =
     do { s1 \<leftarrow> dump_arg maps a len is_text s; dump_arg maps b len is_text s1 }"

section \<open>The comparisons\<close>

fun strcmp_loop :: "(u8 \<Rightarrow> u8) \<Rightarrow> u8 list \<Rightarrow> u8 list \<Rightarrow> int option" where
  "strcmp_loop f (a # p) (b # q) =
     (let c1 = f a; c2 = f b
      in if c1 \<noteq> c2 then Some (if c1 > c2 then 1 else - 1)
         else if c1 = 0 then Some 0
         else strcmp_loop f p q)"
| "strcmp_loop f _ _ = None"

fun strncmp_loop :: "(u8 \<Rightarrow> u8) \<Rightarrow> u8 list \<Rightarrow> u8 list \<Rightarrow> nat \<Rightarrow> int option" where
  "strncmp_loop f p q 0 = Some 0"
| "strncmp_loop f (a # p) (b # q) (Suc len) =
     (let c1 = f a; c2 = f b
      in if c1 = 0 then Some 0
         else if c1 \<noteq> c2 then Some (if c1 > c2 then 1 else - 1)
         else strncmp_loop f p q len)"
| "strncmp_loop f _ _ (Suc len) = None"

fun memcmp_loop :: "u8 list \<Rightarrow> u8 list \<Rightarrow> nat \<Rightarrow> int option" where
  "memcmp_loop p q 0 = Some 0"
| "memcmp_loop (a # p) (b # q) (Suc len) =
     (if a \<noteq> b then Some (if a > b then 1 else - 1) else memcmp_loop p q len)"
| "memcmp_loop _ _ (Suc len) = None"

text \<open>What is left of the needle when the inner loop stops; then the offset of the first match.\<close>

fun match_loop :: "(u8 \<Rightarrow> u8) \<Rightarrow> u8 list \<Rightarrow> u8 list \<Rightarrow> u8 list option" where
  "match_loop f [] h = None"
| "match_loop f (a # n) h =
     (if a = 0 then Some (a # n)
      else case h of
          [] \<Rightarrow> None
        | b # h1 \<Rightarrow> if b \<noteq> 0 \<and> f a = f b then match_loop f n h1 else Some (a # n))"

fun strstr_loop :: "(u8 \<Rightarrow> u8) \<Rightarrow> u8 list \<Rightarrow> u8 list \<Rightarrow> nat \<Rightarrow> nat option option" where
  "strstr_loop f needle [] k =
     do { n \<leftarrow> match_loop f needle []; if hd n = 0 then Some (Some k) else None }"
| "strstr_loop f needle (b # h) k =
     do { n \<leftarrow> match_loop f needle (b # h);
          if hd n = 0 then Some (Some k)
          else if b \<noteq> 0 then strstr_loop f needle h (k + 1)
          else Some None }"

definition tokencap_strcmp ::
  "u8 list option \<Rightarrow> cap_arg \<Rightarrow> cap_arg \<Rightarrow> tokencap \<Rightarrow> (int \<times> tokencap) option" where
  "tokencap_strcmp maps a b s =
     do { s1 \<leftarrow> dump_args maps a b None True s;
          r \<leftarrow> strcmp_loop (\<lambda>c. c) (arg_mem a) (arg_mem b); Some (r, s1) }"

definition tokencap_strncmp ::
  "u8 list option \<Rightarrow> cap_arg \<Rightarrow> cap_arg \<Rightarrow> nat \<Rightarrow> tokencap \<Rightarrow> (int \<times> tokencap) option" where
  "tokencap_strncmp maps a b len s =
     do { s1 \<leftarrow> dump_args maps a b (Some len) True s;
          r \<leftarrow> strncmp_loop (\<lambda>c. c) (arg_mem a) (arg_mem b) len; Some (r, s1) }"

definition tokencap_strcasecmp ::
  "u8 list option \<Rightarrow> cap_arg \<Rightarrow> cap_arg \<Rightarrow> tokencap \<Rightarrow> (int \<times> tokencap) option" where
  "tokencap_strcasecmp maps a b s =
     do { s1 \<leftarrow> dump_args maps a b None True s;
          r \<leftarrow> strcmp_loop tolower (arg_mem a) (arg_mem b); Some (r, s1) }"

definition tokencap_strncasecmp ::
  "u8 list option \<Rightarrow> cap_arg \<Rightarrow> cap_arg \<Rightarrow> nat \<Rightarrow> tokencap \<Rightarrow> (int \<times> tokencap) option" where
  "tokencap_strncasecmp maps a b len s =
     do { s1 \<leftarrow> dump_args maps a b (Some len) True s;
          r \<leftarrow> strncmp_loop tolower (arg_mem a) (arg_mem b) len; Some (r, s1) }"

definition tokencap_memcmp ::
  "u8 list option \<Rightarrow> cap_arg \<Rightarrow> cap_arg \<Rightarrow> nat \<Rightarrow> tokencap \<Rightarrow> (int \<times> tokencap) option" where
  "tokencap_memcmp maps a b len s =
     do { s1 \<leftarrow> dump_args maps a b (Some len) False s;
          r \<leftarrow> memcmp_loop (arg_mem a) (arg_mem b) len; Some (r, s1) }"

definition tokencap_strstr ::
  "u8 list option \<Rightarrow> cap_arg \<Rightarrow> cap_arg \<Rightarrow> tokencap \<Rightarrow> (nat option \<times> tokencap) option" where
  "tokencap_strstr maps haystack needle s =
     do { s1 \<leftarrow> dump_args maps haystack needle None True s;
          r \<leftarrow> strstr_loop (\<lambda>c. c) (arg_mem needle) (arg_mem haystack) 0; Some (r, s1) }"

definition tokencap_strcasestr ::
  "u8 list option \<Rightarrow> cap_arg \<Rightarrow> cap_arg \<Rightarrow> tokencap \<Rightarrow> (nat option \<times> tokencap) option" where
  "tokencap_strcasestr maps haystack needle s =
     do { s1 \<leftarrow> dump_args maps haystack needle None True s;
          r \<leftarrow> strstr_loop tolower (arg_mem needle) (arg_mem haystack) 0; Some (r, s1) }"

text \<open>\<open>existing\<close> is what the file named in the environment holds, if one is named and can be opened for
  appending; otherwise the output goes to the standard error stream, which starts empty here.\<close>

definition tokencap_init :: "u8 list option \<Rightarrow> tokencap" where
  "tokencap_init existing =
     \<lparr>ro_maps = [], ro_loaded = False,
      cap_out = (case existing of Some c \<Rightarrow> Some c | None \<Rightarrow> Some [])\<rparr>"

section \<open>A session of the target\<close>

datatype cap_call =
  Strcmp cap_arg cap_arg
| Strncmp cap_arg cap_arg nat
| Strcasecmp cap_arg cap_arg
| Strncasecmp cap_arg cap_arg nat
| Memcmp cap_arg cap_arg nat
| Strstr cap_arg cap_arg
| Strcasestr cap_arg cap_arg

fun cap_step :: "u8 list option \<Rightarrow> cap_call \<Rightarrow> tokencap \<Rightarrow> tokencap option" where
  "cap_step maps (Strcmp a b) s = map_option snd (tokencap_strcmp maps a b s)"
| "cap_step maps (Strncmp a b n) s = map_option snd (tokencap_strncmp maps a b n s)"
| "cap_step maps (Strcasecmp a b) s = map_option snd (tokencap_strcasecmp maps a b s)"
| "cap_step maps (Strncasecmp a b n) s = map_option snd (tokencap_strncasecmp maps a b n s)"
| "cap_step maps (Memcmp a b n) s = map_option snd (tokencap_memcmp maps a b n s)"
| "cap_step maps (Strstr a b) s = map_option snd (tokencap_strstr maps a b s)"
| "cap_step maps (Strcasestr a b) s = map_option snd (tokencap_strcasestr maps a b s)"

fun cap_run :: "u8 list option \<Rightarrow> cap_call list \<Rightarrow> tokencap \<Rightarrow> tokencap option" where
  "cap_run maps [] s = Some s"
| "cap_run maps (c # cs) s = do { s1 \<leftarrow> cap_step maps c s; cap_run maps cs s1 }"

section \<open>What is written for one argument\<close>

definition cap_escape :: "u8 \<Rightarrow> u8 list" where
  "cap_escape b = (if b \<le> 31 \<or> 127 \<le> b \<or> b = 34 \<or> b = 92
                   then [92, 120, hexchar (drop_bit 4 b), hexchar (b AND 15)] else [b])"

definition cap_line :: "u8 list \<Rightarrow> u8 list" where
  "cap_line k = [34] @ concat (map cap_escape k) @ [34, 10]"

definition text_of :: "bool \<Rightarrow> u8 list \<Rightarrow> u8 list" where
  "text_of is_text k = (if is_text then takeWhile (\<lambda>c. c \<noteq> 0) k else k)"

lemma length_cap_escape: "length (cap_escape b) \<le> 4" by (simp add: cap_escape_def)

lemma length_cap_escapes: "length (concat (map cap_escape k)) \<le> 4 * length k"
  by (induction k) (use length_cap_escape in \<open>auto intro: add_mono simp: add.commute\<close>)

lemma hexchar_nonzero:
  assumes "n < 16"
  shows "hexchar n \<noteq> 0 \<and> hexchar n \<noteq> 10"
  by (rule nibble_cases [where P = "\<lambda>n. hexchar n \<noteq> 0 \<and> hexchar n \<noteq> 10", OF _ assms]) code_simp

lemma cap_escape_plain: "c \<in> set (cap_escape b) \<Longrightarrow> c \<noteq> 0 \<and> c \<noteq> 10"
  using hexchar_nonzero [OF nibbles_small(1), of b] hexchar_nonzero [OF nibbles_small(2), of b]
  by (auto simp: cap_escape_def split: if_splits)

lemma decode_cap_escape: "decode_keyword (cap_escape b @ s) = map_sum id (\<lambda>t. b # t) (decode_keyword s)"
proof (cases "b \<le> 31 \<or> 127 \<le> b \<or> b = 34 \<or> b = 92")
  case True
  then show ?thesis
    using hexchar_digit [OF nibbles_small(1), of b] hexchar_digit [OF nibbles_small(2), of b]
    by (simp add: cap_escape_def nibbles_join)
next
  case False
  then have "\<not> b \<le> 31" "\<not> 128 \<le> b" by (auto simp: word_le_nat_alt)
  with False show ?thesis by (auto simp: cap_escape_def)
qed

lemma decode_cap_escapes: "decode_keyword (concat (map cap_escape k)) = Inr k"
  by (induction k) (simp_all add: decode_cap_escape)

text \<open>The buffer of 129 bytes always suffices, terminator included.\<close>

lemma text_of_take: "text_of t (take (Suc n) (b # p)) = (if t \<and> b = 0 then [] else b # text_of t (take n p))"
  by (auto simp: text_of_def)

lemma text_of_Cons: "text_of t (b # p) = (if t \<and> b = 0 then [] else b # text_of t p)"
  by (auto simp: text_of_def)

lemma length_text_of: "length (text_of t k) \<le> length k"
  by (simp add: text_of_def length_takeWhile_le)

lemma dump_loop_room:
  assumes "length buf + 4 * Suc n \<le> 128"
  shows "dump_room buf 5" "dump_room buf 1"
  using assms by (auto simp: dump_room_def MAX_AUTO_EXTRA_def)

lemma dump_loop_writes:
  assumes "n \<le> length p \<or> t \<and> 0 \<in> set p" and "length buf + 4 * n \<le> 128"
  shows "dump_loop p n t buf = Some (buf @ concat (map cap_escape (text_of t (take n p))))"
  using assms
proof (induction p n t buf rule: dump_loop.induct)
  case (3 b p n t buf)
  note room = dump_loop_room [OF 3(4)]
  show ?case
  proof (cases "t \<and> b = 0")
    case True
    then show ?thesis by (simp add: text_of_Cons)
  next
    case False
    then have "n \<le> length p \<or> t \<and> 0 \<in> set p" using 3(3) by auto
    then show ?thesis using 3(1,2) 3(4) False room
      by (auto simp: text_of_Cons cap_escape_def)
  qed
qed (simp_all add: text_of_def)

lemma dump_loop_content:
  assumes "dump_loop p n t buf = Some r" and "length buf + 4 * n \<le> 128"
  shows "n \<le> length p \<or> t \<and> 0 \<in> set p"
  using assms by (induction p n t buf rule: dump_loop.induct) (auto split: if_splits)

definition dumped :: "bool \<Rightarrow> nat \<Rightarrow> u8 list \<Rightarrow> u8 list list" where
  "dumped t n p = (if n < 3 \<or> 32 < n then [] else [text_of t (take n p)])"

lemma tokencap_dump_writes:
  assumes run: "tokencap_dump p n t s = Some s1" and out: "cap_out s = Some out"
  shows "s1 = s\<lparr>cap_out := Some (out @ concat (map cap_line (dumped t n p)))\<rparr>"
proof (cases "n < 3 \<or> 32 < n")
  case True
  with run have "s1 = s" by (auto simp: tokencap_dump_def MIN_AUTO_EXTRA_def MAX_AUTO_EXTRA_def)
  then show ?thesis using True out by (simp add: dumped_def)
next
  case False
  let ?buf = "concat (map cap_escape (text_of t (take n p)))"
  have lenbuf: "length ([] :: u8 list) + 4 * n \<le> 128" using False by simp
  have "length (text_of t (take n p)) \<le> n" using length_text_of [of t "take n p"] by simp
  with length_cap_escapes [of "text_of t (take n p)"] have "length ?buf \<le> 4 * n" by linarith
  then have room: "dump_room ?buf 1" using False by (simp add: dump_room_def MAX_AUTO_EXTRA_def)
  have "takeWhile (\<lambda>c. c \<noteq> 0) ?buf = ?buf"
    using cap_escape_plain by (auto simp: takeWhile_eq_all_conv)
  moreover obtain r where r: "dump_loop p n t [] = Some r"
    using run False out unfolding tokencap_dump_def
    by (cases "dump_loop p n t []") (auto simp: MIN_AUTO_EXTRA_def MAX_AUTO_EXTRA_def)
  then have "dump_loop p n t [] = Some ?buf"
    using dump_loop_writes [OF dump_loop_content [OF r lenbuf] lenbuf] by simp
  ultimately show ?thesis using False out run room
    by (simp add: tokencap_dump_def MIN_AUTO_EXTRA_def MAX_AUTO_EXTRA_def cap_line_def dumped_def
        del: takeWhile_eq_all_conv)
qed

section \<open>What a session writes\<close>

definition cap_maps :: "u8 list option \<Rightarrow> (u64 \<times> u64) list" where
  "cap_maps maps = (case maps of None \<Rightarrow> [] | Some f \<Rightarrow> load_mappings_loop f [])"

definition in_maps :: "(u64 \<times> u64) list \<Rightarrow> u64 \<Rightarrow> bool" where
  "in_maps ms p \<longleftrightarrow> (\<exists>(st, en) \<in> set ms. st \<le> p \<and> p \<le> en)"

definition arg_tokens :: "(u64 \<times> u64) list \<Rightarrow> nat option \<Rightarrow> bool \<Rightarrow> cap_arg \<Rightarrow> u8 list list" where
  "arg_tokens ms len t a =
     (if in_maps ms (arg_at a)
      then dumped t (case len of Some n \<Rightarrow> n | None \<Rightarrow> length (takeWhile (\<lambda>c. c \<noteq> 0) (arg_mem a))) (arg_mem a)
      else [])"

text \<open>The tokens of one call, in the order of its arguments.\<close>

fun call_tokens :: "(u64 \<times> u64) list \<Rightarrow> cap_call \<Rightarrow> u8 list list" where
  "call_tokens ms (Strcmp a b) = concat (map (arg_tokens ms None True) [a, b])"
| "call_tokens ms (Strncmp a b n) = concat (map (arg_tokens ms (Some n) True) [a, b])"
| "call_tokens ms (Strcasecmp a b) = concat (map (arg_tokens ms None True) [a, b])"
| "call_tokens ms (Strncasecmp a b n) = concat (map (arg_tokens ms (Some n) True) [a, b])"
| "call_tokens ms (Memcmp a b n) = concat (map (arg_tokens ms (Some n) False) [a, b])"
| "call_tokens ms (Strstr a b) = concat (map (arg_tokens ms None True) [a, b])"
| "call_tokens ms (Strcasestr a b) = concat (map (arg_tokens ms None True) [a, b])"

text \<open>The mappings are read once, before the first look-up.\<close>

definition cap_inv :: "u8 list option \<Rightarrow> u8 list \<Rightarrow> tokencap \<Rightarrow> bool" where
  "cap_inv maps out s \<longleftrightarrow> cap_out s = Some out \<and>
     (if ro_loaded s then ro_maps s = cap_maps maps else ro_maps s = [])"

lemma is_ro_inv:
  assumes "cap_inv maps out s"
  shows "\<exists>s1. tokencap_is_ro maps p s = (in_maps (cap_maps maps) p, s1) \<and> cap_inv maps out s1 \<and> ro_loaded s1"
proof -
  let ?s1 = "if ro_loaded s then s else tokencap_load_mappings maps s"
  have "cap_inv maps out ?s1 \<and> ro_loaded ?s1 \<and> ro_maps ?s1 = cap_maps maps"
    using assms by (auto simp: cap_inv_def tokencap_load_mappings_def cap_maps_def Let_def split: option.splits)
  then show ?thesis
    by (auto simp: tokencap_is_ro_def Let_def in_maps_def list_ex_iff)
qed

lemma dump_arg_inv:
  assumes inv: "cap_inv maps out s" and run: "dump_arg maps a len t s = Some s1"
  shows "cap_inv maps (out @ concat (map cap_line (arg_tokens (cap_maps maps) len t a))) s1"
proof -
  obtain s0 where s0: "tokencap_is_ro maps (arg_at a) s = (in_maps (cap_maps maps) (arg_at a), s0)"
    "cap_inv maps out s0" "ro_loaded s0" using is_ro_inv [OF inv] by blast
  show ?thesis
  proof (cases "in_maps (cap_maps maps) (arg_at a)")
    case False
    then show ?thesis using run s0 by (simp add: dump_arg_def arg_tokens_def)
  next
    case True
    let ?n = "case len of Some n \<Rightarrow> n | None \<Rightarrow> length (takeWhile (\<lambda>c. c \<noteq> 0) (arg_mem a))"
    have "tokencap_dump (arg_mem a) ?n t s0 = Some s1"
      using run s0(1) True by (auto simp: dump_arg_def strlen_def Let_def split: option.splits if_splits)
    from tokencap_dump_writes [OF this, of out] show ?thesis
      using s0(2,3) True by (simp add: cap_inv_def arg_tokens_def)
  qed
qed

lemma dump_args_inv:
  assumes inv: "cap_inv maps out s" and run: "dump_args maps a b len t s = Some s1"
  shows "cap_inv maps (out @ concat (map cap_line (concat (map (arg_tokens (cap_maps maps) len t) [a, b])))) s1"
proof -
  obtain s0 where s0: "dump_arg maps a len t s = Some s0" "dump_arg maps b len t s0 = Some s1"
    using run unfolding dump_args_def by (cases "dump_arg maps a len t s") auto
  show ?thesis using dump_arg_inv [OF dump_arg_inv [OF inv s0(1)] s0(2)] by simp
qed

lemma cap_step_inv:
  assumes inv: "cap_inv maps out s" and run: "cap_step maps c s = Some s1"
  shows "cap_inv maps (out @ concat (map cap_line (call_tokens (cap_maps maps) c))) s1"
proof -
  note defs = tokencap_strcmp_def tokencap_strncmp_def tokencap_strcasecmp_def tokencap_strncasecmp_def
    tokencap_memcmp_def tokencap_strstr_def tokencap_strcasestr_def
  have "\<exists>a b len t. dump_args maps a b len t s = Some s1 \<and>
      call_tokens (cap_maps maps) c = concat (map (arg_tokens (cap_maps maps) len t) [a, b])"
    using run by (cases c) (auto simp: defs bind_eq_Some_conv simp del: map_append; blast)+
  then show ?thesis using dump_args_inv [OF inv] by metis
qed

lemma cap_run_inv:
  assumes "cap_inv maps out s" and "cap_run maps cs s = Some s1"
  shows "cap_inv maps (out @ concat (map cap_line (concat (map (call_tokens (cap_maps maps)) cs)))) s1"
  using assms
proof (induction cs arbitrary: out s)
  case Nil
  then show ?case by simp
next
  case (Cons c cs)
  then obtain s0 where "cap_step maps c s = Some s0" "cap_run maps cs s0 = Some s1"
    by (cases "cap_step maps c s") auto
  with cap_step_inv [OF Cons.prems(1)] Cons.IH show ?case by fastforce
qed

section \<open>What the fuzzer reads\<close>

lemma cap_line_plain:
  assumes "length k \<le> 32"
  shows "fgets (cap_line k @ rest) = (cap_line k, rest)"
proof -
  let ?body = "concat (map cap_escape k)"
  have "\<forall>c \<in> set ?body. c \<noteq> 10" using cap_escape_plain by auto
  then have "takeWhile (\<lambda>c. c \<noteq> 10) (?body @ 34 # 10 # rest) = ?body @ [34]"
    by (subst takeWhile_append2) auto
  then have "takeWhile (\<lambda>c. c \<noteq> 10) (cap_line k @ rest) = 34 # ?body @ [34]"
    by (simp add: cap_line_def)
  moreover have "length ?body \<le> 128" using length_cap_escapes [of k] assms by simp
  ultimately show ?thesis by (simp add: fgets_def cap_line_def MAX_LINE_def min_def)
qed

lemma parse_cap_line:
  assumes "length k \<le> 32"
  shows "parse_dict_line lvl (cap_line k) =
    (if k = [] then Inl (FATAL ''Empty keyword'') else Inr (Some k))"
proof -
  let ?body = "concat (map cap_escape k)"
  have nz: "takeWhile (\<lambda>c. c \<noteq> 0) (cap_line k) = cap_line k"
    using cap_escape_plain by (auto simp: cap_line_def takeWhile_eq_all_conv)
  have left: "dropWhile isspace (cap_line k) = cap_line k" by (simp add: cap_line_def isspace_def)
  have right: "rev (dropWhile isspace (rev (cap_line k))) = 34 # ?body @ [34]"
    by (simp add: cap_line_def isspace_def)
  have q: "\<not> isalnum 34" "\<not> isspace 34" by (simp_all add: isalnum_def isdigit_def isspace_def)
  have "parse_dict_line lvl (cap_line k) = parse_keyword (34 # ?body)"
    unfolding parse_dict_line_def nz left right Let_def using q by (simp add: butlast_append)
  moreover have "?body = [] \<longleftrightarrow> k = []" by (cases k) (auto simp: cap_escape_def)
  ultimately show ?thesis using assms by (auto simp: parse_keyword_def decode_cap_escapes MAX_DICT_FILE_def)
qed

definition token_entry :: "u8 list \<Rightarrow> extra_data" where
  "token_entry k = \<lparr>x_data = k, x_len = of_nat (length k), x_hit_cnt = 0\<rparr>"

lemma load_cap_lines:
  assumes "\<forall>k \<in> set ks. length k \<le> 32"
  shows "map_sum id (\<lambda>(_, _, xs). xs) (load_extras_lines lvl (concat (map cap_line ks)) mn mx xs) =
    (if [] \<in> set ks then Inl (FATAL ''Empty keyword'') else Inr (xs @ map token_entry ks))"
  using assms
proof (induction ks arbitrary: mn mx xs)
  case Nil
  then show ?case by simp
next
  case (Cons k ks)
  have ne: "cap_line k @ rest \<noteq> []" for rest by (simp add: cap_line_def)
  have fg: "fgets (cap_line k @ rest) = (cap_line k, rest)" for rest
    using Cons.prems by (intro cap_line_plain) simp
  have parse: "parse_dict_line lvl (cap_line k) =
      (if k = [] then Inl (FATAL ''Empty keyword'') else Inr (Some k))"
    using Cons.prems by (intro parse_cap_line) simp
  have run: "load_extras_lines lvl (cap_line k @ rest) mn mx xs =
      (if k = [] then Inl (FATAL ''Empty keyword'')
       else load_extras_lines lvl rest (min mn (of_nat (length k))) (max mx (of_nat (length k))) (xs @ [token_entry k]))"
    for rest
    by (subst load_extras_lines.simps) (simp only: ne fg parse token_entry_def if_False fst_conv snd_conv split: if_splits sum.splits option.splits; simp)
  have "map_sum id (\<lambda>(_, _, xs). xs) (load_extras_lines lvl (concat (map cap_line ks)) mn mx xs) =
      (if [] \<in> set ks then Inl (FATAL ''Empty keyword'') else Inr (xs @ map token_entry ks))" for mn mx xs
    using Cons.prems by (intro Cons.IH) simp
  note ih = this
  show ?case
  proof (cases "k = []")
    case True
    then show ?thesis using run [of "concat (map cap_line ks)"] by (simp del: load_extras_lines.simps)
  next
    case False
    have "map_sum id (\<lambda>(_, _, xs). xs) (load_extras_lines lvl (concat (map cap_line (k # ks))) mn mx xs) =
        (if [] \<in> set ks then Inl (FATAL ''Empty keyword'') else Inr ((xs @ [token_entry k]) @ map token_entry ks))"
      by (simp only: list.map concat.simps run False if_False ih)
    then show ?thesis by (rule trans) (use False in auto)
  qed
qed

lemma call_tokens_short: "k \<in> set (call_tokens ms c) \<Longrightarrow> length k \<le> 32"
proof -
  have d: "length k \<le> 32" if "k \<in> set (dumped t n p)" for t n p
    using that length_text_of [of t "take n p"] by (auto simp: dumped_def split: if_splits)
  have a: "length k \<le> 32" if "k \<in> set (arg_tokens ms len t x)" for len t x
    using that d by (auto simp: arg_tokens_def split: if_splits)
  show "k \<in> set (call_tokens ms c) \<Longrightarrow> length k \<le> 32" using a by (cases c) auto
qed

section \<open>What the replacements return\<close>

definition cstr :: "u8 list \<Rightarrow> u8 list" where "cstr p = takeWhile (\<lambda>c. c \<noteq> 0) p"

lemma cstr_Cons [simp]: "cstr [] = []" "cstr (a # p) = (if a = 0 then [] else a # cstr p)"
  by (simp_all add: cstr_def)

text \<open>What the two loops need of the function applied to both characters.\<close>

locale char_fold =
  fixes f :: "u8 \<Rightarrow> u8"
  assumes f: "f c = 0 \<longleftrightarrow> c = 0"
begin

lemma strcmp_loop_spec:
  assumes "0 \<in> set p" and "0 \<in> set q"
  shows "strcmp_loop f p q = Some (if map f (cstr p) = map f (cstr q) then 0
           else if ord_class.lexordp (map f (cstr p)) (map f (cstr q)) then - 1 else 1)"
  using assms
proof (induction p arbitrary: q)
  case (Cons a p)
  then obtain b q' where q: "q = b # q'" by (cases q) auto
  have pos: "0 < f c" if "c \<noteq> 0" for c using f [of c] that by (simp add: word_gt_0)
  have f0: "f 0 = 0" using f by simp
  show ?case
  proof (cases "a = 0 \<or> b = 0")
    case True
    then consider "a = 0" "b = 0" | "a = 0" "b \<noteq> 0" | "a \<noteq> 0" "b = 0" by blast
    then show ?thesis
    proof cases
      case 2
      have "\<not> f b < 0" by simp
      then show ?thesis using 2 pos [of b] f0 f [of b] by (simp add: q Let_def not_less)
    next
      case 3
      then show ?thesis using pos [of a] f0 f [of a] by (simp add: q Let_def)
    qed (simp add: q f0)
  next
    case False
    then have "0 \<in> set p" "0 \<in> set q'" using Cons.prems q by auto
    with Cons.IH have "strcmp_loop f p q' = Some (if map f (cstr p) = map f (cstr q') then 0
           else if ord_class.lexordp (map f (cstr p)) (map f (cstr q')) then - 1 else 1)" by blast
    moreover have "f a \<noteq> 0" "f b \<noteq> 0" using False f by auto
    ultimately show ?thesis using False by (cases "f a" "f b" rule: linorder_cases) (auto simp: q Let_def)
  qed
qed simp

lemma strncmp_loop_spec:
  assumes "0 \<in> set p" and "0 \<in> set q"
  shows "\<exists>r. strncmp_loop f p q n = Some r \<and>
    (r = 0 \<longleftrightarrow> (\<exists>t. map f (cstr q) = map f (take n (cstr p)) @ t))"
  using assms
proof (induction p arbitrary: q n)
  case (Cons a p)
  then obtain b q' where q: "q = b # q'" by (cases q) auto
  show ?case
  proof (cases n)
    case 0
    then show ?thesis by simp
  next
    case (Suc m)
    have f0: "f 0 = 0" using f by simp
    show ?thesis
    proof (cases "a = 0 \<or> b = 0")
      case True
      then show ?thesis using f0 f [of a] f [of b] by (auto simp: q Suc Let_def)
    next
      case False
      then have "0 \<in> set p" "0 \<in> set q'" using Cons.prems q by auto
      from Cons.IH [OF this] have "\<exists>r. strncmp_loop f p q' m = Some r \<and>
        (r = 0 \<longleftrightarrow> (\<exists>t. map f (cstr q') = map f (take m (cstr p)) @ t))" .
      moreover have "f a \<noteq> 0" "f b \<noteq> 0" using False f by auto
      ultimately show ?thesis using False by (cases "f a = f b") (auto simp: q Suc Let_def)
    qed
  qed
qed simp

end

lemma tolower_zero: "tolower c = 0 \<longleftrightarrow> c = 0"
  by (rule all_u8_cases) code_simp

interpretation exact: char_fold "\<lambda>c. c" by unfold_locales simp
interpretation nocase: char_fold tolower by unfold_locales (rule tolower_zero)

section \<open>The replacements return\<close>

lemma memcmp_loop_returns: "n \<le> length p \<Longrightarrow> n \<le> length q \<Longrightarrow> \<exists>r. memcmp_loop p q n = Some r"
  by (induction p q n rule: memcmp_loop.induct) auto

lemma match_loop_returns: "0 \<in> set n \<Longrightarrow> 0 \<in> set h \<Longrightarrow> \<exists>r. match_loop f n h = Some r"
proof (induction n arbitrary: h)
  case (Cons a n)
  then show ?case by (cases h) auto
qed simp

lemma strstr_loop_returns: "0 \<in> set n \<Longrightarrow> 0 \<in> set h \<Longrightarrow> \<exists>r. strstr_loop f n h k = Some r"
proof (induction h arbitrary: k)
  case (Cons b h)
  then obtain m where m: "match_loop f n (b # h) = Some m" using match_loop_returns by blast
  show ?case using Cons m by (cases "b = 0") auto
qed simp

text \<open>Arguments as the C standard wants them: terminated strings, and areas as long as stated.\<close>

definition c_string :: "cap_arg \<Rightarrow> bool" where "c_string a \<longleftrightarrow> 0 \<in> set (arg_mem a)"

fun call_ok :: "cap_call \<Rightarrow> bool" where
  "call_ok (Strcmp a b) = (c_string a \<and> c_string b)"
| "call_ok (Strncmp a b n) = (c_string a \<and> c_string b)"
| "call_ok (Strcasecmp a b) = (c_string a \<and> c_string b)"
| "call_ok (Strncasecmp a b n) = (c_string a \<and> c_string b)"
| "call_ok (Memcmp a b n) = (n \<le> length (arg_mem a) \<and> n \<le> length (arg_mem b))"
| "call_ok (Strstr a b) = (c_string a \<and> c_string b)"
| "call_ok (Strcasestr a b) = (c_string a \<and> c_string b)"

lemma tokencap_dump_returns:
  assumes "n \<le> length p \<or> t \<and> 0 \<in> set p"
  shows "\<exists>s1. tokencap_dump p n t s = Some s1"
proof (cases "n < 3 \<or> 32 < n \<or> cap_out s = None")
  case True
  then show ?thesis by (auto simp: tokencap_dump_def MIN_AUTO_EXTRA_def MAX_AUTO_EXTRA_def)
next
  case False
  let ?buf = "concat (map cap_escape (text_of t (take n p)))"
  have "length (text_of t (take n p)) \<le> n" using length_text_of [of t "take n p"] by simp
  with length_cap_escapes [of "text_of t (take n p)"] have "length ?buf \<le> 4 * n" by linarith
  then have "dump_room ?buf 1" using False by (simp add: dump_room_def MAX_AUTO_EXTRA_def)
  moreover have "dump_loop p n t [] = Some ?buf" using dump_loop_writes [OF assms, of "[]"] False by simp
  ultimately show ?thesis using False by (auto simp: tokencap_dump_def)
qed

lemma dump_arg_returns:
  assumes "case len of None \<Rightarrow> c_string a | Some n \<Rightarrow> n \<le> length (arg_mem a) \<or> t \<and> c_string a"
  shows "\<exists>s1. dump_arg maps a len t s = Some s1"
proof -
  have l: "length (takeWhile (\<lambda>c. c \<noteq> 0) p) < length p" if "0 \<in> set p" for p :: "u8 list"
    using that by (induction p) auto
  obtain ro s0 where r: "tokencap_is_ro maps (arg_at a) s = (ro, s0)" by fastforce
  show ?thesis
  proof (cases len)
    case None
    then have n: "length (takeWhile (\<lambda>c. c \<noteq> 0) (arg_mem a)) < length (arg_mem a)"
      using assms l by (simp add: c_string_def)
    then show ?thesis using r None tokencap_dump_returns [of "length (takeWhile (\<lambda>c. c \<noteq> 0) (arg_mem a))" "arg_mem a" t s0]
      by (auto simp: dump_arg_def strlen_def Let_def)
  next
    case (Some n)
    then show ?thesis using r assms tokencap_dump_returns [of n "arg_mem a" t s0]
      by (auto simp: dump_arg_def c_string_def)
  qed
qed

lemma dump_args_returns:
  assumes "case len of None \<Rightarrow> c_string a \<and> c_string b
    | Some n \<Rightarrow> n \<le> length (arg_mem a) \<and> n \<le> length (arg_mem b) \<or> t \<and> c_string a \<and> c_string b"
  shows "\<exists>s1. dump_args maps a b len t s = Some s1"
proof -
  obtain s0 where "dump_arg maps a len t s = Some s0"
    using dump_arg_returns [where len = len and a = a and t = t and maps = maps and s = s] assms by (cases len) auto
  moreover obtain s1 where "dump_arg maps b len t s0 = Some s1"
    using dump_arg_returns [where len = len and a = b and t = t and maps = maps and s = s0] assms by (cases len) auto
  ultimately show ?thesis by (simp add: dump_args_def)
qed

lemma cap_step_returns:
  assumes "call_ok c"
  shows "\<exists>s1. cap_step maps c s = Some s1"
proof -
  note defs = tokencap_strcmp_def tokencap_strncmp_def tokencap_strcasecmp_def tokencap_strncasecmp_def
    tokencap_memcmp_def tokencap_strstr_def tokencap_strcasestr_def
  have d1: "\<exists>s1. dump_args maps a b None True s = Some s1" if "c_string a" "c_string b" for a b
    using dump_args_returns [where len = None] that by simp
  have d2: "\<exists>s1. dump_args maps a b (Some n) True s = Some s1" if "c_string a" "c_string b" for a b n
    using dump_args_returns [where len = "Some n"] that by simp
  show ?thesis
  proof (cases c)
    case (Strcmp a b)
    then show ?thesis using assms d1 [of a b] exact.strcmp_loop_spec [of "arg_mem a" "arg_mem b"]
      by (auto simp: defs c_string_def)
  next
    case (Strncmp a b n)
    then show ?thesis using assms d2 [of a b n] exact.strncmp_loop_spec [of "arg_mem a" "arg_mem b" n]
      by (auto simp: defs c_string_def)
  next
    case (Strcasecmp a b)
    then show ?thesis using assms d1 [of a b] nocase.strcmp_loop_spec [of "arg_mem a" "arg_mem b"]
      by (auto simp: defs c_string_def)
  next
    case (Strncasecmp a b n)
    then show ?thesis using assms d2 [of a b n] nocase.strncmp_loop_spec [of "arg_mem a" "arg_mem b" n]
      by (auto simp: defs c_string_def)
  next
    case (Memcmp a b n)
    then show ?thesis using assms dump_args_returns [where len = "Some n" and a = a and b = b and t = False and maps = maps and s = s]
        memcmp_loop_returns [of n "arg_mem a" "arg_mem b"] by (auto simp: defs)
  next
    case (Strstr a b)
    then show ?thesis using assms d1 [of a b] strstr_loop_returns [of "arg_mem b" "arg_mem a" "\<lambda>c. c" 0]
      by (auto simp: defs c_string_def)
  next
    case (Strcasestr a b)
    then show ?thesis using assms d1 [of a b] strstr_loop_returns [of "arg_mem b" "arg_mem a" tolower 0]
      by (auto simp: defs c_string_def)
  qed
qed

lemma cap_run_returns: "\<forall>c \<in> set cs. call_ok c \<Longrightarrow> \<exists>s1. cap_run maps cs s = Some s1"
proof (induction cs arbitrary: s)
  case (Cons c cs)
  then obtain s0 where "cap_step maps c s = Some s0" using cap_step_returns [of c maps s] by auto
  then show ?case using Cons by simp
qed simp

text \<open>
  C31: a target that calls the replacements on terminated strings and on areas as long as stated
  never faults in them, and afterwards the file holds the tokens of all arguments
  in read-only memory with a length of 3 to 32, in the order of the calls.  Given to \<^verbatim>\<open>afl-fuzz -x\<close> it is
  read back as exactly these tokens, byte for byte, unless one of them is the empty string, which
  only \<^verbatim>\<open>strncmp\<close> and \<^verbatim>\<open>strncasecmp\<close> write: then the fuzzer refuses the whole file.
\<close>

theorem tokencap_file_loads:
  assumes "\<forall>c \<in> set calls. call_ok c"
  shows "\<exists>s out. cap_run maps calls (tokencap_init (Some [])) = Some s \<and> cap_out s = Some out \<and>
    map_sum id (\<lambda>(_, _, xs). xs) (load_extras_lines lvl out mn mx xs) =
      (let ks = concat (map (call_tokens (cap_maps maps)) calls)
       in if [] \<in> set ks then Inl (FATAL ''Empty keyword'') else Inr (xs @ map token_entry ks))"
proof -
  let ?ks = "concat (map (call_tokens (cap_maps maps)) calls)"
  obtain s where s: "cap_run maps calls (tokencap_init (Some [])) = Some s"
    using cap_run_returns [OF assms] by blast
  have "cap_inv maps [] (tokencap_init (Some []))" by (simp add: cap_inv_def tokencap_init_def)
  from cap_run_inv [OF this s] have out: "cap_out s = Some (concat (map cap_line ?ks))"
    by (simp add: cap_inv_def)
  have "\<forall>k \<in> set ?ks. length k \<le> 32" using call_tokens_short by auto
  from load_cap_lines [OF this] out s show ?thesis by (simp add: Let_def del: load_extras_lines.simps)
qed

definition demo_arg :: "u64 \<Rightarrow> u8 list \<Rightarrow> cap_arg" where
  "demo_arg p k = \<lparr>arg_at = p, arg_mem = k @ [0]\<rparr>"

text \<open>The line \<^verbatim>\<open>10-20 r-xp\<close> of \<^verbatim>\<open>/proc/self/maps\<close>, and \<^verbatim>\<open>20-30 rw-p\<close>.\<close>

definition demo_maps :: "u8 list" where
  "demo_maps = [49,48,45,50,48,32,114,45,120,112,10] @ [50,49,45,51,48,32,114,119,45,112,10]"

definition demo_calls :: "cap_call list" where
  "demo_calls = [Strcmp (demo_arg 18 [60, 34, 47, 128]) (demo_arg 40 [60]),
                 Memcmp (demo_arg 40 [1, 2, 3]) (demo_arg 32 [0, 92, 9]) 3]"

lemma demo_maps_loaded: "cap_maps (Some demo_maps) = [(16, 32)]"
proof -
  note d = scan_mapping_def scan_pointer_def Let_def isspace_def isxdigit_def isdigit_def hexdigit_def
    tolower_def demo_maps_def fgets_def MAX_LINE_def MAX_MAPPINGS_def
  let ?a = "[49,48,45,50,48,32,114,45,120,112,10] :: u8 list"
  let ?b = "[50,49,45,51,48,32,114,119,45,112,10] :: u8 list"
  have f: "fgets demo_maps = (?a, ?b)" "fgets ?b = (?b, [])" by (simp_all add: d)
  have m: "scan_mapping ?a = Some (16, 32, 114, 45)" "scan_mapping ?b = Some (33, 48, 114, 119)"
    by (simp_all add: d)
  have "load_mappings_loop ?b [(16, 32)] = [(16, 32)]"
    by (subst load_mappings_loop.simps) (simp add: f m load_mappings_loop.simps [of "[]"])
  moreover have "demo_maps \<noteq> []" "takeWhile (\<lambda>c. c \<noteq> 0) ?a = ?a" by (simp_all add: demo_maps_def)
  then have "load_mappings_loop demo_maps [] = load_mappings_loop ?b [(16, 32)]"
    by (subst load_mappings_loop.simps) (simp only: f m MAX_MAPPINGS_def fst_conv snd_conv, simp)
  ultimately show ?thesis by (simp add: cap_maps_def)
qed

theorem tokencap_file_loads_witness:
  "\<exists>s out. cap_run (Some demo_maps) demo_calls (tokencap_init (Some [])) = Some s \<and> cap_out s = Some out \<and>
    map_sum id (\<lambda>(_, _, xs). xs) (load_extras_lines 0 out 128 0 []) =
      Inr (map token_entry [[60, 34, 47, 128], [0, 92, 9]])"
proof -
  have ks: "concat (map (call_tokens (cap_maps (Some demo_maps))) demo_calls) = [[60, 34, 47, 128], [0, 92, 9]]"
    by (simp add: demo_maps_loaded demo_calls_def demo_arg_def arg_tokens_def in_maps_def dumped_def text_of_def)
  have "\<forall>c \<in> set demo_calls. call_ok c" by (simp add: demo_calls_def demo_arg_def c_string_def)
  from tokencap_file_loads [OF this, of "Some demo_maps" 0 128 0 "[]"] show ?thesis
    unfolding ks Let_def by (simp del: load_extras_lines.simps)
qed

text \<open>
  C32: on terminated strings \<^verbatim>\<open>strcmp\<close> returns 0, -1 or 1 as the first string equals, precedes or follows
  the second in the order of unsigned bytes, and so does \<^verbatim>\<open>strcasecmp\<close> up to the case of letters.
  \<^verbatim>\<open>strncmp\<close> and \<^verbatim>\<open>strncasecmp\<close> test for the end of the first string before they compare, so they
  return 0 exactly when the first string, cut to the length, is a prefix of the second: a proper
  prefix counts as equal.
\<close>

theorem tokencap_comparisons:
  assumes "f = (\<lambda>c. c) \<or> f = tolower" and "0 \<in> set p" and "0 \<in> set q"
  shows "strcmp_loop f p q = Some (if map f (cstr p) = map f (cstr q) then 0
           else if ord_class.lexordp (map f (cstr p)) (map f (cstr q)) then - 1 else 1) \<and>
    (\<exists>r. strncmp_loop f p q n = Some r \<and>
      (r = 0 \<longleftrightarrow> (\<exists>t. map f (cstr q) = map f (take n (cstr p)) @ t)))"
  using assms(1)
proof
  assume "f = (\<lambda>c. c)"
  then show ?thesis using conjI [OF exact.strcmp_loop_spec [OF assms(2,3)] exact.strncmp_loop_spec [OF assms(2,3)]] by (simp only:)
next
  assume "f = tolower"
  then show ?thesis using conjI [OF nocase.strcmp_loop_spec [OF assms(2,3)] nocase.strncmp_loop_spec [OF assms(2,3)]] by (simp only:)
qed

theorem tokencap_comparisons_witness:
  "strcmp_loop tolower [65, 0] [97, 66, 0] = Some (- 1) \<and>
   (\<exists>r. strncmp_loop tolower [65, 0] [97, 66, 0] 8 = Some r \<and> r = 0)"
proof -
  have c: "tolower 65 = 97" "tolower 97 = 97" "tolower 66 = 98" by (simp_all add: tolower_def)
  have f: "tolower = (\<lambda>c. c) \<or> tolower = tolower" "0 \<in> set [65, 0 :: u8]" "0 \<in> set [97, 66, 0 :: u8]" by simp_all
  note t = tokencap_comparisons [OF f]
  have "strcmp_loop tolower [65, 0] [97, 66, 0] = Some (- 1)"
    unfolding t [THEN conjunct1] by (simp add: c ord_class.lexordp_simps)
  moreover have "map tolower (cstr [97, 66, 0]) = map tolower (take 8 (cstr [65, 0])) @ [98]" by (simp add: c)
  ultimately show ?thesis using t [of 8, THEN conjunct2] by blast
qed

end
