(* ===== verification/Afl_Dislocator.thy ===== *)
theory Afl_Dislocator
  imports Afl_Target
begin

text \<open>
  The allocator of \<^verbatim>\<open>libdislocator/libdislocator.so.c\<close>, which puts every block right in front of a page
  that cannot be accessed and takes away the pages of a block that is freed.  Memory is the
  permission of each page and the byte at each address.  \<^verbatim>\<open>mmap\<close> and \<^verbatim>\<open>mprotect\<close> are the kernel's; the
  messages for \<^verbatim>\<open>AFL_LD_VERBOSE\<close> are left out.
\<close>

section \<open>Memory\<close>

definition PAGE_SIZE :: nat where "PAGE_SIZE = 4096"

datatype prot = PROT_RW | PROT_NONE

record dmem =
  page :: "nat \<rightharpoonup> prot"
  byte :: "nat \<Rightarrow> u8"

text \<open>\<^verbatim>\<open>total_mem\<close> is a thread-local variable.\<close>

record dstate = dmem +
  total_mem :: "nat \<Rightarrow> u64"

text \<open>Where \<^verbatim>\<open>mmap\<close> puts a number of pages (\<open>None\<close> when it fails) and whether \<^verbatim>\<open>mprotect\<close> succeeds.\<close>

record dconf =
  max_mem :: u32
  hard_fail :: bool
  no_calloc_over :: bool
  c_mmap :: "(nat \<rightharpoonup> prot) \<Rightarrow> nat \<Rightarrow> nat option"
  c_mprotect :: "(nat \<rightharpoonup> prot) \<Rightarrow> nat \<Rightarrow> nat \<Rightarrow> bool"

datatype dstop = Segv | Abort string

definition ok_at :: "('a) dmem_scheme \<Rightarrow> nat \<Rightarrow> bool" where
  "ok_at s a \<longleftrightarrow> page s (a div PAGE_SIZE) = Some PROT_RW"

definition read_at :: "('a) dmem_scheme \<Rightarrow> nat \<Rightarrow> nat \<Rightarrow> dstop + u8 list" where
  "read_at s a n = (if list_all (ok_at s) [a..<a + n] then Inr (map (byte s) [a..<a + n]) else Inl Segv)"

definition write_at :: "('a) dmem_scheme \<Rightarrow> nat \<Rightarrow> u8 list \<Rightarrow> dstop + ('a) dmem_scheme" where
  "write_at s a bs =
     (if list_all (ok_at s) [a..<a + length bs]
      then Inr (s\<lparr>byte := (\<lambda>x. if a \<le> x \<and> x < a + length bs then bs ! (x - a) else byte s x)\<rparr>)
      else Inl Segv)"

definition set_pages :: "prot \<Rightarrow> nat \<Rightarrow> nat \<Rightarrow> (nat \<rightharpoonup> prot) \<Rightarrow> (nat \<rightharpoonup> prot)" where
  "set_pages p a n m = (\<lambda>k. if a \<le> k \<and> k < a + n then Some p else m k)"

section \<open>The allocator\<close>

definition PG_COUNT :: "nat \<Rightarrow> nat" where "PG_COUNT l = (l + (PAGE_SIZE - 1)) div PAGE_SIZE"

definition DL_CANARY :: u32 where "DL_CANARY = 0xAACCAACC"
definition ALLOC_CLOBBER :: u8 where "ALLOC_CLOBBER = 0xCC"

definition MB :: u32 where "MB = 1024 * 1024"

text \<open>\<open>None\<close> is the null pointer.\<close>

definition over_limit :: "dconf \<Rightarrow> nat \<Rightarrow> u64 \<Rightarrow> dstate \<Rightarrow> bool" where
  "over_limit c t len s \<longleftrightarrow> total_mem s t + len > ucast (max_mem c) \<or> total_mem s t + len < total_mem s t"

definition dislocator_alloc :: "dconf \<Rightarrow> nat \<Rightarrow> u64 \<Rightarrow> dstate \<Rightarrow> dstop + nat option \<times> dstate" where
  "dislocator_alloc c t len s =
     (if over_limit c t len s
      then (if hard_fail c then Inl (Abort ''total allocs exceed limit'') else Inr (None, s))
      else
        let n = PG_COUNT (unat (len + 8)) in
        case c_mmap c (page s) (1 + n) of
          None \<Rightarrow> if hard_fail c then Inl (Abort ''mmap() failed on alloc (OOM?)'') else Inr (None, s)
        | Some k \<Rightarrow>
            let s1 = s\<lparr>page := set_pages PROT_RW k (1 + n) (page s),
                       byte := (\<lambda>x. if k * PAGE_SIZE \<le> x \<and> x < (k + 1 + n) * PAGE_SIZE then 0 else byte s x)\<rparr>
            in if \<not> c_mprotect c (page s1) (k + n) 1
               then Inl (Abort ''mprotect() failed when allocating memory'')
               else
                 let s2 = s1\<lparr>page := set_pages PROT_NONE (k + n) 1 (page s1)\<rparr>;
                     ret = k * PAGE_SIZE + PAGE_SIZE * n - unat len - 8 + 8
                 in case write_at s2 (ret - 8) (le_bytes 4 (ucast len :: u32)) of
                      Inl e \<Rightarrow> Inl e
                    | Inr s3 \<Rightarrow>
                        case write_at s3 (ret - 4) (le_bytes 4 DL_CANARY) of
                          Inl e \<Rightarrow> Inl e
                        | Inr s4 \<Rightarrow> Inr (Some ret, s4\<lparr>total_mem := (total_mem s4)(t := total_mem s4 t + len)\<rparr>))"

definition dl_calloc :: "dconf \<Rightarrow> nat \<Rightarrow> u64 \<Rightarrow> u64 \<Rightarrow> dstate \<Rightarrow> dstop + nat option \<times> dstate" where
  "dl_calloc c t elem_len elem_cnt s =
     (let len = elem_len * elem_cnt
      in if elem_cnt \<noteq> 0 \<and> len div elem_cnt \<noteq> elem_len
         then (if no_calloc_over c then Inr (None, s) else Inl (Abort ''calloc() would overflow''))
         else dislocator_alloc c t len s)"

definition dl_malloc :: "dconf \<Rightarrow> nat \<Rightarrow> u64 \<Rightarrow> dstate \<Rightarrow> dstop + nat option \<times> dstate" where
  "dl_malloc c t len s =
     (case dislocator_alloc c t len s of
        Inl e \<Rightarrow> Inl e
      | Inr (None, s1) \<Rightarrow> Inr (None, s1)
      | Inr (Some p, s1) \<Rightarrow>
          if len = 0 then Inr (Some p, s1)
          else map_sum id (\<lambda>s2. (Some p, s2)) (write_at s1 p (replicate (unat len) ALLOC_CLOBBER)))"

text \<open>\<^verbatim>\<open>PTR_C\<close> and \<^verbatim>\<open>PTR_L\<close>.\<close>

definition PTR_C :: "('a) dmem_scheme \<Rightarrow> nat \<Rightarrow> dstop + u32" where
  "PTR_C s p = map_sum id le_word (read_at s (p - 4) 4)"

definition PTR_L :: "('a) dmem_scheme \<Rightarrow> nat \<Rightarrow> dstop + u32" where
  "PTR_L s p = map_sum id le_word (read_at s (p - 8) 4)"

text \<open>\<^verbatim>\<open>len\<close> is 32 bits wide here, and so is the arithmetic on it.\<close>

definition dl_free :: "dconf \<Rightarrow> nat \<Rightarrow> nat option \<Rightarrow> dstate \<Rightarrow> dstop + dstate" where
  "dl_free c t ptr s =
     (case ptr of
        None \<Rightarrow> Inr s
      | Some p \<Rightarrow>
          case PTR_C s p of
            Inl e \<Rightarrow> Inl e
          | Inr cn \<Rightarrow>
              if cn \<noteq> DL_CANARY then Inl (Abort ''bad allocator canary on free()'')
              else case PTR_L s p of
                  Inl e \<Rightarrow> Inl e
                | Inr len \<Rightarrow>
                    let s1 = s\<lparr>total_mem := (total_mem s)(t := total_mem s t - ucast len)\<rparr>;
                        n = (len + 8 + (of_nat PAGE_SIZE - 1)) div of_nat PAGE_SIZE;
                        start = p - unat (of_nat PAGE_SIZE * n - len - 8) - 8
                    in if \<not> c_mprotect c (page s1) (start div PAGE_SIZE) (unat n)
                       then Inl (Abort ''mprotect() failed when freeing memory'')
                       else Inr (s1\<lparr>page := set_pages PROT_NONE (start div PAGE_SIZE) (unat n) (page s1)\<rparr>))"

definition dl_realloc :: "dconf \<Rightarrow> nat \<Rightarrow> nat option \<Rightarrow> u64 \<Rightarrow> dstate \<Rightarrow> dstop + nat option \<times> dstate" where
  "dl_realloc c t ptr len s =
     (case dl_malloc c t len s of
        Inl e \<Rightarrow> Inl e
      | Inr (ret, s1) \<Rightarrow>
          (case (ret, ptr) of
             (Some q, Some p) \<Rightarrow>
               (case PTR_C s1 p of
                  Inl e \<Rightarrow> Inl e
                | Inr cn \<Rightarrow>
                    if cn \<noteq> DL_CANARY then Inl (Abort ''bad allocator canary on realloc()'')
                    else case PTR_L s1 p of
                        Inl e \<Rightarrow> Inl e
                      | Inr l \<Rightarrow>
                          case read_at s1 p (min (unat len) (unat l)) of
                            Inl e \<Rightarrow> Inl e
                          | Inr bs \<Rightarrow>
                              case write_at s1 q bs of
                                Inl e \<Rightarrow> Inl e
                              | Inr s2 \<Rightarrow> map_sum id (\<lambda>s3. (ret, s3)) (dl_free c t ptr s2))
           | _ \<Rightarrow> Inr (ret, s1)))"

text \<open>\<open>limit\<close> is the value of \<^verbatim>\<open>atoi\<close> for \<^verbatim>\<open>AFL_LD_LIMIT_MB\<close>, if that is set.\<close>

definition dislocator_init :: "u32 option \<Rightarrow> bool \<Rightarrow> bool \<Rightarrow> dconf \<Rightarrow> dstop + dconf" where
  "dislocator_init limit hard no_over c =
     (let m = (case limit of Some v \<Rightarrow> v * 1024 * 1024 | None \<Rightarrow> 0x40000000)
      in if m = 0 then Inl (Abort ''Bad value for AFL_LD_LIMIT_MB'')
         else Inr (c\<lparr>max_mem := m, hard_fail := hard, no_calloc_over := no_over\<rparr>))"

section \<open>What the kernel promises\<close>

text \<open>\<^verbatim>\<open>mmap\<close> gives pages that are not mapped, away from the first page.\<close>

definition mmap_ok :: "dconf \<Rightarrow> bool" where
  "mmap_ok c \<longleftrightarrow> (\<forall>m n k. c_mmap c m n = Some k \<longrightarrow> 0 < k \<and> (\<forall>i. k \<le> i \<and> i < k + n \<longrightarrow> m i = None))"

text \<open>The limit is a multiple of 1 MB that is not 0.\<close>

definition limit_ok :: "dconf \<Rightarrow> bool" where
  "limit_ok c \<longleftrightarrow> unat (max_mem c) \<le> 2 ^ 32 - 2 ^ 20"

section \<open>Blocks\<close>

text \<open>
  A block is known by its first page \<open>k\<close>; \<open>blks k\<close> is its length and whether it is live.  It takes
  \<open>PG_COUNT (n + 8)\<close> pages and the page behind them.
\<close>

type_synonym blks = "nat \<rightharpoonup> nat \<times> bool"

definition blk_pages :: "nat \<Rightarrow> nat" where "blk_pages n = PG_COUNT (n + 8)"

definition blk_ptr :: "nat \<Rightarrow> nat \<Rightarrow> nat" where
  "blk_ptr k n = (k + blk_pages n) * PAGE_SIZE - n"

definition blk_own :: "nat \<Rightarrow> nat \<Rightarrow> nat set" where
  "blk_own k n = {k..k + blk_pages n}"

definition blk_ok :: "dstate \<Rightarrow> nat \<Rightarrow> nat \<Rightarrow> bool \<Rightarrow> bool" where
  "blk_ok s k n l \<longleftrightarrow> 0 < k \<and> n \<le> 2 ^ 32 - 2 ^ 20 \<and> page s (k + blk_pages n) = Some PROT_NONE \<and>
     (\<forall>i < blk_pages n. page s (k + i) = Some (if l then PROT_RW else PROT_NONE)) \<and>
     (l \<longrightarrow> map (byte s) [blk_ptr k n - 8..<blk_ptr k n] = le_bytes 4 (of_nat n :: u32) @ le_bytes 4 DL_CANARY)"

definition dl_inv :: "dstate \<Rightarrow> blks \<Rightarrow> bool" where
  "dl_inv s B \<longleftrightarrow> (\<forall>k n l. B k = Some (n, l) \<longrightarrow> blk_ok s k n l) \<and>
     (\<forall>k n l k' n' l'. B k = Some (n, l) \<longrightarrow> B k' = Some (n', l') \<longrightarrow> k \<noteq> k' \<longrightarrow> blk_own k n \<inter> blk_own k' n' = {})"

lemma blk_pages_bounds: "n + 8 \<le> blk_pages n * PAGE_SIZE" "blk_pages n * PAGE_SIZE < n + 8 + PAGE_SIZE"
  by (auto simp: blk_pages_def PG_COUNT_def PAGE_SIZE_def)

lemma blk_ptr_bounds: "k * PAGE_SIZE + 8 \<le> blk_ptr k n" "blk_ptr k n + n = (k + blk_pages n) * PAGE_SIZE"
  using blk_pages_bounds(1) [of n] by (auto simp: blk_ptr_def add_mult_distrib)

lemma blk_ptr_page:
  assumes "blk_ptr k n - 8 \<le> x" and "x < blk_ptr k n + n"
  shows "k \<le> x div PAGE_SIZE \<and> x div PAGE_SIZE < k + blk_pages n"
proof -
  have "k * PAGE_SIZE \<le> x" "x < (k + blk_pages n) * PAGE_SIZE"
    using assms blk_ptr_bounds [of k n] by linarith+
  then show ?thesis by (simp add: less_eq_div_iff_mult_less_eq PAGE_SIZE_def div_less_iff_less_mult)
qed

lemma blk_ptr_own: "blk_ptr k n - 8 \<le> x \<Longrightarrow> x < blk_ptr k n + n \<Longrightarrow> x div PAGE_SIZE \<in> blk_own k n"
  using blk_ptr_page [of k n x] by (auto simp: blk_own_def)

lemma blk_guard_page: "i < PAGE_SIZE \<Longrightarrow> (blk_ptr k n + n + i) div PAGE_SIZE = k + blk_pages n"
  unfolding blk_ptr_bounds(2) by (simp add: PAGE_SIZE_def)

lemma blk_ok_live:
  "blk_ok s k n True \<Longrightarrow> blk_ptr k n - 8 \<le> x \<Longrightarrow> x < blk_ptr k n + n \<Longrightarrow> ok_at s x"
  using blk_ptr_page [of k n x] unfolding blk_ok_def ok_at_def by (metis le_Suc_ex nat_add_left_cancel_less)

lemma blk_ok_guard: "blk_ok s k n l \<Longrightarrow> i < PAGE_SIZE \<Longrightarrow> \<not> ok_at s (blk_ptr k n + n + i)"
  by (simp add: blk_ok_def ok_at_def blk_guard_page)

lemma blk_ok_dead:
  assumes "blk_ok s k n False" and "blk_ptr k n - 8 \<le> x" and "x < blk_ptr k n + n"
  shows "\<not> ok_at s x"
proof -
  obtain i where "x div PAGE_SIZE = k + i" "i < blk_pages n"
    using blk_ptr_page [OF assms(2,3)] by (metis le_Suc_ex nat_add_left_cancel_less)
  then show ?thesis using assms(1) by (simp add: blk_ok_def ok_at_def)
qed

text \<open>A block only depends on its own pages and its header.\<close>

lemma blk_ok_frame:
  assumes "blk_ok s k n l" and "\<And>j. j \<in> blk_own k n \<Longrightarrow> page s1 j = page s j"
    and "\<And>x. l \<Longrightarrow> blk_ptr k n - 8 \<le> x \<Longrightarrow> x < blk_ptr k n \<Longrightarrow> byte s1 x = byte s x"
  shows "blk_ok s1 k n l"
proof -
  have "map (byte s1) [blk_ptr k n - 8..<blk_ptr k n] = map (byte s) [blk_ptr k n - 8..<blk_ptr k n]" if l
    using assms(3) that by (intro map_cong refl) auto
  then show ?thesis using assms(1,2) unfolding blk_ok_def blk_own_def by simp
qed

lemma write_at_ok:
  assumes "\<And>x. a \<le> x \<Longrightarrow> x < a + length bs \<Longrightarrow> ok_at s x"
  shows "write_at s a bs =
    Inr (s\<lparr>byte := (\<lambda>x. if a \<le> x \<and> x < a + length bs then bs ! (x - a) else byte s x)\<rparr>)"
  using assms by (auto simp: write_at_def list_all_iff)

lemma read_at_ok:
  assumes "\<And>x. a \<le> x \<Longrightarrow> x < a + n \<Longrightarrow> ok_at s x"
  shows "read_at s a n = Inr (map (byte s) [a..<a + n])"
  using assms by (auto simp: read_at_def list_all_iff)

lemma ok_at_simps [simp]: "ok_at (s\<lparr>byte := b\<rparr>) x = ok_at s x" "ok_at (s\<lparr>total_mem := t\<rparr>) x = ok_at s x"
  by (simp_all add: ok_at_def)

section \<open>Allocating\<close>

lemma unat_ucast64: "unat (ucast (w :: u32) :: u64) = unat w"
proof -
  have "unat w < 2 ^ 64" using unsigned_less [of w, where 'a = nat] by simp
  then show ?thesis by (simp add: unsigned_ucast_eq take_bit_nat_eq_self_iff)
qed

lemma not_over_limit:
  assumes "\<not> over_limit c t len s" and "limit_ok c"
  shows "unat len \<le> 2 ^ 32 - 2 ^ 20"
proof -
  have "total_mem s t \<le> total_mem s t + len" "total_mem s t + len \<le> ucast (max_mem c)"
    using assms(1) by (auto simp: over_limit_def not_less)
  then have "unat (total_mem s t + len) = unat (total_mem s t) + unat len"
    by (simp only: unat_plus_simple)
  then have "unat len \<le> unat (total_mem s t + len)" by simp
  also have "\<dots> \<le> unat (ucast (max_mem c) :: u64)"
    using \<open>total_mem s t + len \<le> ucast (max_mem c)\<close> by (simp only: word_le_nat_alt)
  also have "\<dots> = unat (max_mem c)" by (rule unat_ucast64)
  also have "\<dots> \<le> 2 ^ 32 - 2 ^ 20" using assms(2) by (simp add: limit_ok_def)
  finally show ?thesis .
qed

definition fresh :: "blks \<Rightarrow> nat \<Rightarrow> nat \<Rightarrow> bool" where
  "fresh B k n \<longleftrightarrow> (\<forall>k' n' l'. B k' = Some (n', l') \<longrightarrow> blk_own k n \<inter> blk_own k' n' = {})"

text \<open>What a new block leaves alone: the pages and bytes of everything else.\<close>

definition outside_same :: "nat \<Rightarrow> nat \<Rightarrow> dstate \<Rightarrow> dstate \<Rightarrow> bool" where
  "outside_same k n s s1 \<longleftrightarrow> (\<forall>j. j \<notin> blk_own k n \<longrightarrow> page s1 j = page s j) \<and>
     (\<forall>x. x div PAGE_SIZE \<notin> blk_own k n \<longrightarrow> byte s1 x = byte s x)"

lemma dl_inv_new:
  assumes "dl_inv s B" and "fresh B k n" and "outside_same k n s s1" and "blk_ok s1 k n True"
  shows "dl_inv s1 (B(k \<mapsto> (n, True)))"
proof -
  have old: "blk_ok s1 k' n' l'" if b: "B k' = Some (n', l')" "k' \<noteq> k" for k' n' l'
  proof (rule blk_ok_frame)
    have dis: "blk_own k n \<inter> blk_own k' n' = {}" using assms(2) b(1) by (simp add: fresh_def)
    show "blk_ok s k' n' l'" using assms(1) b(1) by (simp add: dl_inv_def)
    show "page s1 j = page s j" if "j \<in> blk_own k' n'" for j
      using that dis assms(3) by (auto simp: outside_same_def)
    show "byte s1 x = byte s x" if "blk_ptr k' n' - 8 \<le> x" "x < blk_ptr k' n'" for x
      using blk_ptr_own [of k' n' x] that dis assms(3) by (auto simp: outside_same_def)
  qed
  show ?thesis unfolding dl_inv_def
  proof (intro conjI allI impI)
    fix k' n' l' assume "(B(k \<mapsto> (n, True))) k' = Some (n', l')"
    then show "blk_ok s1 k' n' l'" using old assms(4) by (auto split: if_splits)
  next
    fix k1 n1 l1 k2 n2 l2
    assume "(B(k \<mapsto> (n, True))) k1 = Some (n1, l1)" "(B(k \<mapsto> (n, True))) k2 = Some (n2, l2)" "k1 \<noteq> k2"
    then show "blk_own k1 n1 \<inter> blk_own k2 n2 = {}"
      using assms(1,2) unfolding dl_inv_def fresh_def by (auto split: if_splits)
  qed
qed

text \<open>The state after the pages are mapped and protected, and after the header is written.\<close>

definition mapped :: "nat \<Rightarrow> nat \<Rightarrow> dstate \<Rightarrow> dstate" where
  "mapped k n s = s\<lparr>page := set_pages PROT_NONE (k + n) 1 (set_pages PROT_RW k (1 + n) (page s)),
     byte := (\<lambda>x. if k * PAGE_SIZE \<le> x \<and> x < (k + 1 + n) * PAGE_SIZE then 0 else byte s x)\<rparr>"

definition headed :: "nat \<Rightarrow> u64 \<Rightarrow> dstate \<Rightarrow> dstate" where
  "headed p len s = s\<lparr>byte := (\<lambda>x. if p - 8 \<le> x \<and> x < p
     then (le_bytes 4 (ucast len :: u32) @ le_bytes 4 DL_CANARY) ! (x - (p - 8)) else byte s x)\<rparr>"

lemma mapped_ok_at:
  assumes "k * PAGE_SIZE \<le> x" and "x < (k + n) * PAGE_SIZE"
  shows "ok_at (mapped k n s) x"
proof -
  have "k \<le> x div PAGE_SIZE" "x div PAGE_SIZE < k + n"
    using assms by (simp_all add: less_eq_div_iff_mult_less_eq PAGE_SIZE_def div_less_iff_less_mult)
  then show ?thesis by (simp add: ok_at_def mapped_def set_pages_def)
qed

lemma dislocator_alloc_run:
  assumes lim: "limit_ok c"
  shows "dislocator_alloc c t len s =
    (if over_limit c t len s
     then (if hard_fail c then Inl (Abort ''total allocs exceed limit'') else Inr (None, s))
     else case c_mmap c (page s) (1 + blk_pages (unat len)) of
         None \<Rightarrow> if hard_fail c then Inl (Abort ''mmap() failed on alloc (OOM?)'') else Inr (None, s)
       | Some k \<Rightarrow>
           if \<not> c_mprotect c (set_pages PROT_RW k (1 + blk_pages (unat len)) (page s)) (k + blk_pages (unat len)) 1
           then Inl (Abort ''mprotect() failed when allocating memory'')
           else Inr (Some (blk_ptr k (unat len)),
                  (headed (blk_ptr k (unat len)) len (mapped k (blk_pages (unat len)) s))
                    \<lparr>total_mem := (total_mem s)(t := total_mem s t + len)\<rparr>))"
proof (cases "over_limit c t len s")
  case True
  then show ?thesis by (simp add: dislocator_alloc_def)
next
  case False
  let ?n = "unat len" and ?m = "blk_pages (unat len)"
  have small: "?n \<le> 2 ^ 32 - 2 ^ 20" using not_over_limit [OF False lim] .
  then have "unat (len + 8) = ?n + 8" by (subst unat_add_lem [THEN iffD1]) simp_all
  then have pg: "PG_COUNT (unat (len + 8)) = ?m" by (simp add: blk_pages_def)
  have ptr: "k * PAGE_SIZE + PAGE_SIZE * ?m - ?n - 8 + 8 = blk_ptr k ?n" for k
    using blk_pages_bounds(1) [of ?n] by (simp add: blk_ptr_def algebra_simps)
  have w: "write_at (mapped k ?m s) (blk_ptr k ?n - 8) (le_bytes 4 (ucast len :: u32)) =
      Inr ((mapped k ?m s)\<lparr>byte := (\<lambda>x. if blk_ptr k ?n - 8 \<le> x \<and> x < blk_ptr k ?n - 8 + 4
        then le_bytes 4 (ucast len :: u32) ! (x - (blk_ptr k ?n - 8)) else byte (mapped k ?m s) x)\<rparr>)" for k
    using blk_ptr_bounds [of k ?n] by (subst write_at_ok) (auto intro: mapped_ok_at)
  have w2: "write_at ((mapped k ?m s)\<lparr>byte := b\<rparr>) (blk_ptr k ?n - 4) (le_bytes 4 DL_CANARY) =
      Inr ((mapped k ?m s)\<lparr>byte := (\<lambda>x. if blk_ptr k ?n - 4 \<le> x \<and> x < blk_ptr k ?n - 4 + 4
        then le_bytes 4 DL_CANARY ! (x - (blk_ptr k ?n - 4)) else b x)\<rparr>)" for k b
    using blk_ptr_bounds [of k ?n] by (subst write_at_ok) (auto intro: mapped_ok_at cong: if_cong)
  have both: "(\<lambda>x. if p - 4 \<le> x \<and> x < p - 4 + 4 then le_bytes 4 DL_CANARY ! (x - (p - 4))
        else if p - 8 \<le> x \<and> x < p - 8 + 4 then le_bytes 4 (ucast len :: u32) ! (x - (p - 8)) else b x) =
      (\<lambda>x. if p - 8 \<le> x \<and> x < p then (le_bytes 4 (ucast len :: u32) @ le_bytes 4 DL_CANARY) ! (x - (p - 8)) else b x)"
    if "8 \<le> p" for p and b :: "nat \<Rightarrow> u8"
    using that by (intro ext) (auto simp: nth_append intro!: arg_cong [where f = "(!) (le_bytes 4 DL_CANARY)"])
  have p8: "8 \<le> blk_ptr k ?n" for k using blk_ptr_bounds(1) [of k ?n] by simp
  have m: "(s\<lparr>page := set_pages PROT_RW k (1 + ?m) (page s),
       byte := (\<lambda>x. if k * PAGE_SIZE \<le> x \<and> x < (k + 1 + ?m) * PAGE_SIZE then 0 else byte s x)\<rparr>)
      \<lparr>page := set_pages PROT_NONE (k + ?m) 1 (page (s\<lparr>page := set_pages PROT_RW k (1 + ?m) (page s),
       byte := (\<lambda>x. if k * PAGE_SIZE \<le> x \<and> x < (k + 1 + ?m) * PAGE_SIZE then 0 else byte s x)\<rparr>))\<rparr>
      = mapped k ?m s" for k
    by (simp add: mapped_def)
  have h: "(mapped k ?m s)\<lparr>byte := (\<lambda>x. if blk_ptr k ?n - 4 \<le> x \<and> x < blk_ptr k ?n - 4 + 4
        then le_bytes 4 DL_CANARY ! (x - (blk_ptr k ?n - 4))
        else if blk_ptr k ?n - 8 \<le> x \<and> x < blk_ptr k ?n - 8 + 4
        then le_bytes 4 (ucast len :: u32) ! (x - (blk_ptr k ?n - 8)) else byte (mapped k ?m s) x)\<rparr> =
      headed (blk_ptr k ?n) len (mapped k ?m s)" for k
    unfolding headed_def both [OF p8] ..
  have pg1: "page (s\<lparr>page := P, byte := b\<rparr>) = P" for P b by simp
  have tot: "total_mem (headed p len (mapped k ?m s)) = total_mem s" for p k
    by (simp add: headed_def mapped_def)
  show ?thesis
    unfolding dislocator_alloc_def Let_def if_not_P [OF False] pg ptr pg1 m [unfolded pg1] w sum.case w2 h tot ..
qed

text \<open>The outcome of a request for \<open>n\<close> bytes filled with \<open>b\<close>.\<close>

definition alloc_result :: "nat \<Rightarrow> u8 \<Rightarrow> dstate \<Rightarrow> blks \<Rightarrow> dstop + nat option \<times> dstate \<Rightarrow> bool" where
  "alloc_result n b s B r \<longleftrightarrow>
     (case r of
        Inl e \<Rightarrow> e \<noteq> Segv
      | Inr (None, s1) \<Rightarrow> s1 = s
      | Inr (Some p, s1) \<Rightarrow> \<exists>k. p = blk_ptr k n \<and> B k = None \<and> dl_inv s1 (B(k \<mapsto> (n, True))) \<and>
          (\<forall>i < n. byte s1 (p + i) = b) \<and> outside_same k n s s1)"

lemma blk_own_known:
  assumes "dl_inv s B" and "B k = Some (n, l)" and "j \<in> blk_own k n"
  shows "page s j \<noteq> None"
proof -
  have ok: "blk_ok s k n l" using assms(1,2) by (simp add: dl_inv_def)
  obtain i where i: "j = k + i" "i \<le> blk_pages n" using assms(3) by (auto simp: blk_own_def le_iff_add)
  show ?thesis using ok i by (cases "i = blk_pages n") (auto simp: blk_ok_def)
qed

lemma header_bytes:
  assumes "8 \<le> p"
  shows "map (byte (headed p len s)) [p - 8..<p] = le_bytes 4 (ucast len :: u32) @ le_bytes 4 DL_CANARY"
  by (rule nth_equalityI) (use assms in \<open>auto simp: headed_def nth_append\<close>)

lemma mapped_headed_ok:
  assumes "0 < k" and "n \<le> 2 ^ 32 - 2 ^ 20" and "n = unat len"
  shows "blk_ok ((headed (blk_ptr k n) len (mapped k (blk_pages n) s))\<lparr>total_mem := tm\<rparr>) k n True"
proof -
  have "8 \<le> blk_ptr k n" using blk_ptr_bounds(1) [of k n] by simp
  from header_bytes [OF this, of len "mapped k (blk_pages n) s"]
  have "map (byte (headed (blk_ptr k n) len (mapped k (blk_pages n) s))) [blk_ptr k n - 8..<blk_ptr k n] =
      le_bytes 4 (of_nat n :: u32) @ le_bytes 4 DL_CANARY"
    by (simp add: assms(3))
  moreover have "page (headed (blk_ptr k n) len (mapped k (blk_pages n) s)) =
      set_pages PROT_NONE (k + blk_pages n) 1 (set_pages PROT_RW k (1 + blk_pages n) (page s))"
    by (simp add: headed_def mapped_def)
  ultimately show ?thesis using assms(1,2) by (simp add: blk_ok_def set_pages_def)
qed

lemma mapped_headed_outside:
  "outside_same k n s ((headed (blk_ptr k n) len (mapped k (blk_pages n) s))\<lparr>total_mem := tm\<rparr>)"
proof -
  let ?s1 = "(headed (blk_ptr k n) len (mapped k (blk_pages n) s))\<lparr>total_mem := tm\<rparr>"
  have "page ?s1 j = page s j" if "j \<notin> blk_own k n" for j
    using that by (auto simp: headed_def mapped_def set_pages_def blk_own_def)
  moreover have "byte ?s1 x = byte s x" if x: "x div PAGE_SIZE \<notin> blk_own k n" for x
  proof -
    have "\<not> (blk_ptr k n - 8 \<le> x \<and> x < blk_ptr k n)" using x blk_ptr_own [of k n x] by auto
    moreover have "\<not> (k * PAGE_SIZE \<le> x \<and> x < (k + 1 + blk_pages n) * PAGE_SIZE)"
      using x by (auto simp: blk_own_def less_eq_div_iff_mult_less_eq PAGE_SIZE_def div_less_iff_less_mult not_le)
    ultimately show ?thesis by (auto simp: headed_def mapped_def)
  qed
  ultimately show ?thesis by (simp add: outside_same_def)
qed

lemma dislocator_alloc_spec:
  assumes inv: "dl_inv s B" and lim: "limit_ok c" and mm: "mmap_ok c"
  shows "alloc_result (unat len) 0 s B (dislocator_alloc c t len s)"
proof (cases "over_limit c t len s \<or> c_mmap c (page s) (1 + blk_pages (unat len)) = None")
  case True
  then show ?thesis by (auto simp: dislocator_alloc_run [OF lim] alloc_result_def)
next
  case False
  let ?n = "unat len"
  obtain k where k: "c_mmap c (page s) (1 + blk_pages ?n) = Some k" using False by auto
  let ?s1 = "(headed (blk_ptr k ?n) len (mapped k (blk_pages ?n) s))\<lparr>total_mem := (total_mem s)(t := total_mem s t + len)\<rparr>"
  have new: "0 < k" "\<And>j. j \<in> blk_own k ?n \<Longrightarrow> page s j = None"
    using mm k unfolding mmap_ok_def blk_own_def by fastforce+
  have small: "?n \<le> 2 ^ 32 - 2 ^ 20" using False not_over_limit [OF _ lim] by blast
  have fr: "fresh B k ?n" using blk_own_known [OF inv] new(2) by (fastforce simp: fresh_def)
  have ok: "blk_ok ?s1 k ?n True" using new(1) small by (intro mapped_headed_ok) simp_all
  have out: "outside_same k ?n s ?s1" by (rule mapped_headed_outside)
  have "B k = None"
  proof (rule ccontr)
    assume "B k \<noteq> None"
    then obtain n l where b: "B k = Some (n, l)" by auto
    have "k \<in> blk_own k ?n" "k \<in> blk_own k n" by (auto simp: blk_own_def)
    then show False using blk_own_known [OF inv b, of k] new(2) [of k] by auto
  qed
  moreover have "byte ?s1 (blk_ptr k ?n + i) = 0" if "i < ?n" for i
  proof -
    have "k * PAGE_SIZE \<le> blk_ptr k ?n + i" "blk_ptr k ?n + i < (k + 1 + blk_pages ?n) * PAGE_SIZE"
      using blk_ptr_bounds [of k ?n] that by simp_all
    then show ?thesis by (simp add: headed_def mapped_def)
  qed
  ultimately show ?thesis using False k dl_inv_new [OF inv fr out ok] out
    by (auto simp: dislocator_alloc_run [OF lim] alloc_result_def)
qed

lemma outside_same_write:
  assumes "outside_same k n s s1" and "blk_ptr k n - 8 \<le> a" and "a + length bs \<le> blk_ptr k n + n"
  shows "outside_same k n s
    (s1\<lparr>byte := (\<lambda>x. if a \<le> x \<and> x < a + length bs then bs ! (x - a) else byte s1 x)\<rparr>)"
proof -
  have "\<not> (a \<le> x \<and> x < a + length bs)" if "x div PAGE_SIZE \<notin> blk_own k n" for x
    using that blk_ptr_own [of k n x] assms(2,3) by auto
  then show ?thesis using assms(1) by (auto simp: outside_same_def)
qed

text \<open>Writing into a live block keeps everything.\<close>

lemma dl_inv_write:
  assumes inv: "dl_inv s B" and b: "B k = Some (n, True)" and "blk_ptr k n \<le> a" and "a + length bs \<le> blk_ptr k n + n"
  shows "write_at s a bs = Inr (s\<lparr>byte := (\<lambda>x. if a \<le> x \<and> x < a + length bs then bs ! (x - a) else byte s x)\<rparr>)"
    and "dl_inv (s\<lparr>byte := (\<lambda>x. if a \<le> x \<and> x < a + length bs then bs ! (x - a) else byte s x)\<rparr>) B"
proof -
  have ok: "blk_ok s k n True" using inv b by (simp add: dl_inv_def)
  show "write_at s a bs = Inr (s\<lparr>byte := (\<lambda>x. if a \<le> x \<and> x < a + length bs then bs ! (x - a) else byte s x)\<rparr>)"
    by (rule write_at_ok) (rule blk_ok_live [OF ok], use assms(3,4) in auto)
  let ?s1 = "s\<lparr>byte := (\<lambda>x. if a \<le> x \<and> x < a + length bs then bs ! (x - a) else byte s x)\<rparr>"
  have "blk_ok ?s1 k' n' l'" if b': "B k' = Some (n', l')" for k' n' l'
  proof (rule blk_ok_frame [of s])
    show "blk_ok s k' n' l'" using inv b' by (simp add: dl_inv_def)
    show "byte ?s1 x = byte s x" if x: "blk_ptr k' n' - 8 \<le> x" "x < blk_ptr k' n'" for x
    proof (cases "k' = k")
      case True
      then show ?thesis using x b b' assms(3) by auto
    next
      case False
      then have "blk_own k n \<inter> blk_own k' n' = {}" using inv b b' unfolding dl_inv_def by metis
      moreover have "x div PAGE_SIZE \<in> blk_own k' n'" using blk_ptr_own [of k' n' x] x by simp
      ultimately have "x div PAGE_SIZE \<notin> blk_own k n" by auto
      then have "\<not> (blk_ptr k n - 8 \<le> x \<and> x < blk_ptr k n + n)" using blk_ptr_own [of k n x] by auto
      then have "\<not> (a \<le> x \<and> x < a + length bs)" using assms(3,4) by linarith
      then show ?thesis by auto
    qed
  qed simp
  then show "dl_inv ?s1 B" using inv unfolding dl_inv_def by blast
qed

lemma dl_malloc_spec:
  assumes inv: "dl_inv s B" and lim: "limit_ok c" and mm: "mmap_ok c"
  shows "alloc_result (unat len) ALLOC_CLOBBER s B (dl_malloc c t len s)"
proof -
  note spec = dislocator_alloc_spec [OF inv lim mm, of len t]
  consider (stop) e where "dislocator_alloc c t len s = Inl e"
    | (null) s1 where "dislocator_alloc c t len s = Inr (None, s1)"
    | (block) p s1 where "dislocator_alloc c t len s = Inr (Some p, s1)"
    by (cases "dislocator_alloc c t len s") (auto, metis option.exhaust)
  then show ?thesis
  proof cases
    case (block p s1)
    then obtain k where k: "p = blk_ptr k (unat len)" "B k = None" "dl_inv s1 (B(k \<mapsto> (unat len, True)))"
      "outside_same k (unat len) s s1" using spec by (auto simp: alloc_result_def)
    show ?thesis
    proof (cases "len = 0")
      case True
      then show ?thesis using block k by (auto simp: dl_malloc_def alloc_result_def)
    next
      case False
      let ?bs = "replicate (unat len) ALLOC_CLOBBER"
      let ?s2 = "s1\<lparr>byte := (\<lambda>x. if p \<le> x \<and> x < p + length ?bs then ?bs ! (x - p) else byte s1 x)\<rparr>"
      have "write_at s1 p ?bs = Inr ?s2" "dl_inv ?s2 (B(k \<mapsto> (unat len, True)))"
        using dl_inv_write [OF k(3), of k "unat len" p ?bs] k(1) by simp_all
      moreover have "outside_same k (unat len) s ?s2" using outside_same_write [OF k(4), of p ?bs] k(1) by simp
      ultimately show ?thesis using block k(1,2) False by (auto simp: dl_malloc_def alloc_result_def)
    qed
  qed (use spec in \<open>simp_all add: dl_malloc_def alloc_result_def\<close>)
qed

lemma calloc_overflow:
  fixes a b :: u64
  assumes "b \<noteq> 0"
  shows "(a * b) div b = a \<longleftrightarrow> unat a * unat b < 2 ^ 64"
proof
  assume "(a * b) div b = a"
  then have "unat (a * b) div unat b = unat a" by (metis unat_div)
  then have "unat a * unat b \<le> unat (a * b)" by (metis div_times_less_eq_dividend)
  also have "\<dots> < 2 ^ 64" using unsigned_less [of "a * b", where 'a = nat] by simp
  finally show "unat a * unat b < 2 ^ 64" .
next
  assume "unat a * unat b < 2 ^ 64"
  then have "unat (a * b) = unat a * unat b" by (simp add: unat_word_ariths)
  then have "unat (a * b) div unat b = unat a" using assms by (simp add: unat_eq_0)
  then show "(a * b) div b = a" by (metis unat_div word_unat_eq_iff)
qed

lemma dl_calloc_spec:
  assumes inv: "dl_inv s B" and lim: "limit_ok c" and mm: "mmap_ok c"
  shows "alloc_result (unat a * unat b) 0 s B (dl_calloc c t a b s)"
proof (cases "b \<noteq> 0 \<and> (a * b) div b \<noteq> a")
  case True
  then show ?thesis by (simp add: dl_calloc_def alloc_result_def)
next
  case False
  then have "unat a * unat b < 2 ^ 64" using calloc_overflow [of b a] by (cases "b = 0") auto
  then have "unat (a * b) = unat a * unat b" by (simp add: unat_word_ariths)
  then show ?thesis using dislocator_alloc_spec [OF inv lim mm, of "a * b" t]
    unfolding dl_calloc_def Let_def if_not_P [OF False] by simp
qed

section \<open>Freeing\<close>

lemma read_header:
  assumes ok: "blk_ok s k n True"
  shows "PTR_C s (blk_ptr k n) = Inr DL_CANARY" "PTR_L s (blk_ptr k n) = Inr (of_nat n)"
proof -
  let ?p = "blk_ptr k n"
  have p8: "8 \<le> ?p" using blk_ptr_bounds(1) [of k n] by simp
  have h: "map (byte s) [?p - 8..<?p] = le_bytes 4 (of_nat n :: u32) @ le_bytes 4 DL_CANARY"
    using ok by (simp add: blk_ok_def)
  have "[?p - 8..<?p] = [?p - 8..<?p - 4] @ [?p - 4..<?p]"
    using p8 upt_add_eq_append [of "?p - 8" "?p - 4" 4] by simp
  with h have parts: "map (byte s) [?p - 8..<?p - 4] = le_bytes 4 (of_nat n :: u32)"
    "map (byte s) [?p - 4..<?p] = le_bytes 4 DL_CANARY"
    using p8 by (simp_all add: append_eq_append_conv)
  have le: "le_word (le_bytes 4 w) = w" for w :: u32 by (rule le_word_le_bytes) simp
  have "read_at s (?p - 4) 4 = Inr (map (byte s) [?p - 4..<?p])"
    using p8 by (subst read_at_ok) (auto intro!: blk_ok_live [OF ok])
  then show "PTR_C s ?p = Inr DL_CANARY" by (simp add: PTR_C_def parts le)
  have "read_at s (?p - 8) 4 = Inr (map (byte s) [?p - 8..<?p - 4])"
    using p8 by (subst read_at_ok) (auto intro!: blk_ok_live [OF ok])
  then show "PTR_L s ?p = Inr (of_nat n)" by (simp add: PTR_L_def parts le)
qed

text \<open>The 32-bit arithmetic of \<^verbatim>\<open>free\<close> finds the first page and the number of pages.\<close>

lemma free_arith:
  assumes "n \<le> 2 ^ 32 - 2 ^ 20"
  defines "m \<equiv> (of_nat n + 8 + (of_nat PAGE_SIZE - 1)) div of_nat PAGE_SIZE :: u32"
  shows "unat m = blk_pages n" and "blk_ptr k n - unat (of_nat PAGE_SIZE * m - of_nat n - 8) - 8 = k * PAGE_SIZE"
proof -
  have u: "unat (of_nat n :: u32) = n" using assms(1) by (simp add: unat_of_nat)
  have "unat (of_nat n + 8 + (of_nat PAGE_SIZE - 1) :: u32) = n + 8 + 4095"
    using assms(1) u by (simp add: PAGE_SIZE_def unat_word_ariths)
  then show m: "unat m = blk_pages n"
    unfolding m_def unat_div by (simp add: PAGE_SIZE_def blk_pages_def PG_COUNT_def)
  have b: "n + 8 \<le> blk_pages n * 4096" "blk_pages n * 4096 < n + 8 + 4096"
    using blk_pages_bounds [of n] by (simp_all add: PAGE_SIZE_def)
  have pm: "unat (of_nat PAGE_SIZE * m) = 4096 * blk_pages n"
    using m b assms(1) by (simp add: PAGE_SIZE_def unat_word_ariths)
  have "unat (of_nat PAGE_SIZE * m - of_nat n) = 4096 * blk_pages n - n"
    using pm u b by (subst unat_sub) (simp_all add: word_le_nat_alt)
  then have "unat (of_nat PAGE_SIZE * m - of_nat n - 8) = 4096 * blk_pages n - n - 8"
    using b by (subst unat_sub) (simp_all add: word_le_nat_alt)
  then show "blk_ptr k n - unat (of_nat PAGE_SIZE * m - of_nat n - 8) - 8 = k * PAGE_SIZE"
    using b by (simp add: blk_ptr_def PAGE_SIZE_def add_mult_distrib)
qed

lemma dl_inv_free:
  assumes inv: "dl_inv s B" and b: "B k = Some (n, True)"
  shows "dl_inv (s\<lparr>total_mem := tm, page := set_pages PROT_NONE k (blk_pages n) (page s)\<rparr>) (B(k \<mapsto> (n, False)))"
proof -
  let ?s1 = "s\<lparr>total_mem := tm, page := set_pages PROT_NONE k (blk_pages n) (page s)\<rparr>"
  have "blk_ok ?s1 k' n' l'" if b': "(B(k \<mapsto> (n, False))) k' = Some (n', l')" for k' n' l'
  proof (cases "k' = k")
    case True
    then have n: "n' = n" "l' = False" using b' by simp_all
    have "blk_ok s k n True" using inv b by (simp add: dl_inv_def)
    then show ?thesis unfolding True n by (simp add: blk_ok_def set_pages_def)
  next
    case False
    then have b': "B k' = Some (n', l')" using b' by simp
    have dis: "blk_own k n \<inter> blk_own k' n' = {}" using inv b b' False unfolding dl_inv_def by metis
    show ?thesis
    proof (rule blk_ok_frame [of s])
      show "blk_ok s k' n' l'" using inv b' by (simp add: dl_inv_def)
      show "page ?s1 j = page s j" if "j \<in> blk_own k' n'" for j
      proof -
        have "j \<notin> blk_own k n" using that dis by auto
        then show ?thesis by (auto simp: set_pages_def blk_own_def)
      qed
    qed simp
  qed
  moreover have "blk_own k1 n1 \<inter> blk_own k2 n2 = {}"
    if known: "(B(k \<mapsto> (n, False))) k1 = Some (n1, l1)" "(B(k \<mapsto> (n, False))) k2 = Some (n2, l2)" "k1 \<noteq> k2" for k1 n1 l1 k2 n2 l2
  proof -
    obtain l1' l2' where "B k1 = Some (n1, l1')" "B k2 = Some (n2, l2')"
      using known(1,2) b by (auto split: if_splits)
    then show ?thesis using inv known(3) unfolding dl_inv_def by blast
  qed
  ultimately show ?thesis unfolding dl_inv_def by blast
qed

lemma dl_free_live:
  assumes inv: "dl_inv s B" and b: "B k = Some (n, True)"
  shows "dl_free c t (Some (blk_ptr k n)) s =
    (if c_mprotect c (page s) k (blk_pages n)
     then Inr (s\<lparr>total_mem := (total_mem s)(t := total_mem s t - of_nat n),
                 page := set_pages PROT_NONE k (blk_pages n) (page s)\<rparr>)
     else Inl (Abort ''mprotect() failed when freeing memory''))"
proof -
  have ok: "blk_ok s k n True" using inv b by (simp add: dl_inv_def)
  then have n: "n \<le> 2 ^ 32 - 2 ^ 20" by (simp add: blk_ok_def)
  have c: "ucast (of_nat n :: u32) = (of_nat n :: u64)"
    using n by (intro word_unat_eq_iff [THEN iffD2]) (simp add: unat_ucast64 unat_of_nat)
  have d: "k * PAGE_SIZE div PAGE_SIZE = k" by (simp add: PAGE_SIZE_def)
  show ?thesis
    unfolding dl_free_def Let_def option.case read_header [OF ok] sum.case free_arith [OF n] c d by simp
qed

lemma dl_free_dead:
  assumes inv: "dl_inv s B" and b: "B k = Some (n, False)"
  shows "dl_free c t (Some (blk_ptr k n)) s = Inl Segv"
proof -
  have ok: "blk_ok s k n False" using inv b by (simp add: dl_inv_def)
  have "8 \<le> blk_ptr k n" using blk_ptr_bounds(1) [of k n] by simp
  then have "\<not> ok_at s (blk_ptr k n - 4)" by (intro blk_ok_dead [OF ok]) auto
  moreover have "blk_ptr k n - 4 \<in> set [blk_ptr k n - 4..<blk_ptr k n - 4 + 4]" by simp
  ultimately have "read_at s (blk_ptr k n - 4) 4 = Inl Segv"
    unfolding read_at_def list_all_iff by meson
  then show ?thesis by (simp add: dl_free_def PTR_C_def)
qed

section \<open>Resizing\<close>

text \<open>
  The outcome of \<^verbatim>\<open>realloc\<close> of a live block of \<open>n\<close> bytes to \<open>n'\<close>: what fits of the old contents, the rest
  clobbered, and the old block freed.
\<close>

definition realloc_result :: "nat \<Rightarrow> nat \<Rightarrow> nat \<Rightarrow> dstate \<Rightarrow> blks \<Rightarrow> dstop + nat option \<times> dstate \<Rightarrow> bool" where
  "realloc_result k n n' s B r \<longleftrightarrow>
     (case r of
        Inl e \<Rightarrow> e \<noteq> Segv
      | Inr (None, s1) \<Rightarrow> s1 = s
      | Inr (Some q, s1) \<Rightarrow> \<exists>k'. q = blk_ptr k' n' \<and> B k' = None \<and>
          dl_inv s1 (B(k' \<mapsto> (n', True), k \<mapsto> (n, False))) \<and>
          map (byte s1) [q..<q + n'] =
            take n' (map (byte s) [blk_ptr k n..<blk_ptr k n + n]) @ replicate (n' - n) ALLOC_CLOBBER \<and>
          (\<forall>x. x div PAGE_SIZE \<notin> blk_own k' n' \<longrightarrow> byte s1 x = byte s x))"

lemma dl_realloc_spec:
  assumes inv: "dl_inv s B" and lim: "limit_ok c" and mm: "mmap_ok c" and b: "B k = Some (n, True)"
  shows "realloc_result k n (unat len) s B (dl_realloc c t (Some (blk_ptr k n)) len s)"
proof -
  let ?p = "blk_ptr k n" and ?n' = "unat len"
  note spec = dl_malloc_spec [OF inv lim mm, of len t]
  consider (stop) e where "dl_malloc c t len s = Inl e"
    | (null) s1 where "dl_malloc c t len s = Inr (None, s1)"
    | (block) q s1 where "dl_malloc c t len s = Inr (Some q, s1)"
    by (cases "dl_malloc c t len s") (auto, metis option.exhaust)
  then show ?thesis
  proof cases
    case (block q s1)
    then obtain k' where k': "q = blk_ptr k' ?n'" "B k' = None" "dl_inv s1 (B(k' \<mapsto> (?n', True)))"
      "\<forall>i < ?n'. byte s1 (q + i) = ALLOC_CLOBBER" "outside_same k' ?n' s s1"
      using spec by (auto simp: alloc_result_def)
    let ?B = "B(k' \<mapsto> (?n', True))"
    have ne: "k \<noteq> k'" using k'(2) b by auto
    have bk: "?B k = Some (n, True)" "?B k' = Some (?n', True)" using ne b by simp_all
    have ok: "blk_ok s1 k n True" using k'(3) bk(1) by (simp add: dl_inv_def)
    have n32: "unat (of_nat n :: u32) = n" using ok by (simp add: blk_ok_def unat_of_nat)
    have old: "byte s1 x = byte s x" if "?p \<le> x" "x < ?p + n" for x
    proof -
      have "x div PAGE_SIZE \<in> blk_own k n" using blk_ptr_own [of k n x] that by simp
      moreover have "blk_own k n \<inter> blk_own k' ?n' = {}" using k'(3) bk ne unfolding dl_inv_def by blast
      ultimately show ?thesis using k'(5) by (auto simp: outside_same_def)
    qed
    define bs where "bs = map (byte s) [?p..<?p + min ?n' n]"
    have lbs: "length bs = min ?n' n" by (simp add: bs_def)
    have rd: "read_at s1 ?p (min ?n' n) = Inr bs"
      unfolding bs_def by (subst read_at_ok) (auto intro!: blk_ok_live [OF ok] old)
    define s2 where "s2 = s1\<lparr>byte := (\<lambda>x. if q \<le> x \<and> x < q + length bs then bs ! (x - q) else byte s1 x)\<rparr>"
    have room: "blk_ptr k' ?n' \<le> q" "q + length bs \<le> blk_ptr k' ?n' + ?n'" using k'(1) lbs by simp_all
    have w: "write_at s1 q bs = Inr s2" and inv2: "dl_inv s2 ?B"
      unfolding s2_def by (rule dl_inv_write [OF k'(3) bk(2) room])+
    define s3 where "s3 = s2\<lparr>total_mem := (total_mem s2)(t := total_mem s2 t - of_nat n),
                 page := set_pages PROT_NONE k (blk_pages n) (page s2)\<rparr>"
    have fr: "dl_free c t (Some ?p) s2 =
        (if c_mprotect c (page s2) k (blk_pages n) then Inr s3 else Inl (Abort ''mprotect() failed when freeing memory''))"
      unfolding s3_def by (rule dl_free_live [OF inv2 bk(1)])
    have inv3: "dl_inv s3 (?B(k \<mapsto> (n, False)))"
      unfolding s3_def by (rule dl_inv_free [OF inv2 bk(1)])
    have byte3: "byte s3 = (\<lambda>x. if q \<le> x \<and> x < q + length bs then bs ! (x - q) else byte s1 x)"
      by (simp add: s3_def s2_def)
    have content: "map (byte s3) [q..<q + ?n'] =
        take ?n' (map (byte s) [?p..<?p + n]) @ replicate (?n' - n) ALLOC_CLOBBER"
      by (rule nth_equalityI) (use k'(4) in \<open>auto simp: byte3 lbs nth_append bs_def min_def\<close>)
    have outside: "byte s3 x = byte s x" if x: "x div PAGE_SIZE \<notin> blk_own k' ?n'" for x
    proof -
      have "\<not> (blk_ptr k' ?n' - 8 \<le> x \<and> x < blk_ptr k' ?n' + ?n')" using blk_ptr_own [of k' ?n' x] x by auto
      then have "\<not> (q \<le> x \<and> x < q + length bs)" using k'(1) lbs by auto
      then show ?thesis using x k'(5) by (auto simp: byte3 outside_same_def)
    qed
    have "dl_realloc c t (Some ?p) len s =
        (if c_mprotect c (page s2) k (blk_pages n) then Inr (Some q, s3)
         else Inl (Abort ''mprotect() failed when freeing memory''))"
      unfolding dl_realloc_def block sum.case prod.case option.case read_header [OF ok] n32 rd w fr
      by simp
    then show ?thesis using k'(1,2) inv3 content outside by (auto simp: realloc_result_def)
  qed (use spec in \<open>simp_all add: dl_realloc_def alloc_result_def realloc_result_def split: sum.splits\<close>)
qed

section \<open>A program that uses the allocator\<close>

definition blk_base :: "nat \<Rightarrow> nat" where "blk_base p = (p - 8) div PAGE_SIZE"

text \<open>
  The states a program reaches, in any threads, that frees and resizes only live blocks and writes
  only within them.  A request that returns a null pointer changes nothing.
\<close>

inductive dl_run :: "dconf \<Rightarrow> dstate \<Rightarrow> blks \<Rightarrow> bool" for c where
  dl_start: "dl_run c s (\<lambda>k. None)"
| dl_new: "dl_run c s B \<Longrightarrow> dl_malloc c t len s = Inr (Some p, s1) \<Longrightarrow>
    dl_run c s1 (B(blk_base p \<mapsto> (unat len, True)))"
| dl_zeroed: "dl_run c s B \<Longrightarrow> dl_calloc c t a b s = Inr (Some p, s1) \<Longrightarrow>
    dl_run c s1 (B(blk_base p \<mapsto> (unat a * unat b, True)))"
| dl_resized: "dl_run c s B \<Longrightarrow> B k = Some (n, True) \<Longrightarrow>
    dl_realloc c t (Some (blk_ptr k n)) len s = Inr (Some p, s1) \<Longrightarrow>
    dl_run c s1 (B(blk_base p \<mapsto> (unat len, True), k \<mapsto> (n, False)))"
| dl_freed: "dl_run c s B \<Longrightarrow> B k = Some (n, True) \<Longrightarrow> dl_free c t (Some (blk_ptr k n)) s = Inr s1 \<Longrightarrow>
    dl_run c s1 (B(k \<mapsto> (n, False)))"
| dl_used: "dl_run c s B \<Longrightarrow> B k = Some (n, True) \<Longrightarrow> blk_ptr k n \<le> a \<Longrightarrow> a + length bs \<le> blk_ptr k n + n \<Longrightarrow>
    write_at s a bs = Inr s1 \<Longrightarrow> dl_run c s1 B"

lemma blk_base_ptr: "blk_base (blk_ptr k n) = k"
proof -
  have "k * PAGE_SIZE \<le> blk_ptr k n - 8" using blk_ptr_bounds(1) [of k n] by simp
  moreover have "blk_ptr k n - 8 < (k + 1) * PAGE_SIZE"
    using blk_pages_bounds [of n] by (simp add: blk_ptr_def add_mult_distrib PAGE_SIZE_def)
  ultimately show ?thesis unfolding blk_base_def
    by (intro div_nat_eqI) (simp_all add: mult.commute)
qed

lemma realloc_null: "dl_realloc c t None len s = dl_malloc c t len s"
  by (simp add: dl_realloc_def split: sum.splits option.splits)

lemma dl_run_inv:
  assumes "dl_run c s B" and lim: "limit_ok c" and mm: "mmap_ok c"
  shows "dl_inv s B"
  using assms(1)
proof (induction rule: dl_run.induct)
  case (dl_start s)
  then show ?case by (simp add: dl_inv_def)
next
  case (dl_new s B t len p s1)
  obtain k where "p = blk_ptr k (unat len)" "dl_inv s1 (B(k \<mapsto> (unat len, True)))"
    using dl_malloc_spec [OF dl_new.IH lim mm, of len t] dl_new.hyps(2) by (auto simp: alloc_result_def)
  then show ?case by (simp only: blk_base_ptr)
next
  case (dl_zeroed s B t a b p s1)
  obtain k where "p = blk_ptr k (unat a * unat b)" "dl_inv s1 (B(k \<mapsto> (unat a * unat b, True)))"
    using dl_calloc_spec [OF dl_zeroed.IH lim mm, of a b t] dl_zeroed.hyps(2) by (auto simp: alloc_result_def)
  then show ?case by (simp only: blk_base_ptr)
next
  case (dl_resized s B k n t len p s1)
  obtain k' where "p = blk_ptr k' (unat len)" "dl_inv s1 (B(k' \<mapsto> (unat len, True), k \<mapsto> (n, False)))"
    using dl_realloc_spec [OF dl_resized.IH lim mm dl_resized.hyps(2), of len t] dl_resized.hyps(3)
    by (auto simp: realloc_result_def)
  then show ?case by (simp only: blk_base_ptr)
next
  case (dl_freed s B k n t s1)
  have "s1 = s\<lparr>total_mem := (total_mem s)(t := total_mem s t - of_nat n),
      page := set_pages PROT_NONE k (blk_pages n) (page s)\<rparr>"
    using dl_free_live [OF dl_freed.IH dl_freed.hyps(2), of c t] dl_freed.hyps(3) by (simp split: if_splits)
  then show ?case using dl_inv_free [OF dl_freed.IH dl_freed.hyps(2)] by (simp only:)
next
  case (dl_used s B k n a bs s1)
  then show ?case using dl_inv_write [OF dl_used.IH dl_used.hyps(2-4)] by simp
qed

lemma init_limit_ok:
  assumes "dislocator_init lim h no c = Inr c1"
  shows "limit_ok c1"
proof -
  have "unat (v * 1024 * 1024 :: u32) \<le> 2 ^ 32 - 2 ^ 20" for v :: u32
  proof -
    have "unat (v * (1024 * 1024)) = unat v * 2 ^ 20 mod 2 ^ 32"
      unfolding unat_word_ariths by simp
    then have "unat (v * 1024 * 1024) = unat v * 2 ^ 20 mod 2 ^ 32" by (simp only: mult.assoc)
    also have "\<dots> = 2 ^ 20 * (unat v mod 2 ^ 12)"
      using mult_mod_right [of "2 ^ 20" "unat v" "2 ^ 12"] by (simp add: mult.commute)
    also have "\<dots> \<le> 2 ^ 20 * (2 ^ 12 - 1)" by (intro mult_left_mono) (simp_all add: less_Suc_eq_le [symmetric])
    finally show ?thesis by simp
  qed
  then show ?thesis using assms
    by (auto simp: dislocator_init_def Let_def limit_ok_def split: option.splits if_splits)
qed

text \<open>
  C33: however a program has allocated, resized, freed and written its blocks before, every byte of a
  live block can be accessed and the whole page behind it cannot; of a freed block no byte can be
  accessed again, whatever is allocated later, and freeing it once more faults.
\<close>

theorem dislocator_isolates:
  assumes "dl_run c s B" and "mmap_ok c" and "dislocator_init lim h no c0 = Inr c" and "B k = Some (n, l)"
  shows "(\<forall>i < n. ok_at s (blk_ptr k n + i) = l) \<and> (\<forall>i < PAGE_SIZE. \<not> ok_at s (blk_ptr k n + n + i)) \<and>
    (\<not> l \<longrightarrow> dl_free c t (Some (blk_ptr k n)) s = Inl Segv)"
proof -
  note inv = dl_run_inv [OF assms(1) init_limit_ok [OF assms(3)] assms(2)]
  have ok: "blk_ok s k n l" using inv assms(4) by (simp add: dl_inv_def)
  have "ok_at s (blk_ptr k n + i) = l" if "i < n" for i
    using blk_ok_live [of s k n "blk_ptr k n + i"] blk_ok_dead [of s k n "blk_ptr k n + i"] ok that by (cases l) auto
  moreover have "dl_free c t (Some (blk_ptr k n)) s = Inl Segv" if "\<not> l"
    using dl_free_dead [OF inv] assms(4) that by simp
  ultimately show ?thesis using blk_ok_guard [OF ok] by blast
qed

text \<open>
  C34: in every such state \<^verbatim>\<open>malloc\<close>, \<^verbatim>\<open>calloc\<close> and \<^verbatim>\<open>realloc\<close> never fault; they return a null pointer and
  change nothing, stop with a message, or return a new block of the size asked for, filled with 0xCC, with
  0, or with what fits of the old contents and 0xCC behind it.  All bytes outside of the new block are as before.
\<close>

theorem dislocator_results:
  assumes "dl_run c s B" and "mmap_ok c" and "dislocator_init lim h no c0 = Inr c" and "B k = Some (n, True)"
  shows "alloc_result (unat len) ALLOC_CLOBBER s B (dl_malloc c t len s) \<and>
    alloc_result (unat a * unat b) 0 s B (dl_calloc c t a b s) \<and>
    realloc_result k n (unat len) s B (dl_realloc c t (Some (blk_ptr k n)) len s)"
proof -
  note lim = init_limit_ok [OF assms(3)]
  note inv = dl_run_inv [OF assms(1) lim assms(2)]
  show ?thesis using dl_malloc_spec [OF inv lim assms(2)] dl_calloc_spec [OF inv lim assms(2)]
      dl_realloc_spec [OF inv lim assms(2) assms(4)] by blast
qed

text \<open>A kernel that maps areas from page 5 on while they are free.\<close>

definition demo_mmap :: "(nat \<rightharpoonup> prot) \<Rightarrow> nat \<Rightarrow> nat option" where
  "demo_mmap m n = (if list_all (\<lambda>i. m i = None) [5..<5 + n] then Some 5 else None)"

definition demo_dconf :: dconf where
  "demo_dconf = \<lparr>max_mem = 0x40000000, hard_fail = False, no_calloc_over = False,
     c_mmap = demo_mmap, c_mprotect = (\<lambda>m k n. True)\<rparr>"

definition demo_dstate :: dstate where
  "demo_dstate = \<lparr>page = (\<lambda>k. None), byte = (\<lambda>x. 0), total_mem = (\<lambda>t. 0)\<rparr>"

lemma demo_dconf_ok: "mmap_ok demo_dconf" "dislocator_init None False False demo_dconf = Inr demo_dconf"
  by (auto simp: mmap_ok_def demo_dconf_def demo_mmap_def list_all_iff dislocator_init_def split: if_splits)

lemma demo_dl_run: "\<exists>s B. dl_run demo_dconf s B \<and> B 5 = Some (4, True)"
proof -
  note lim = init_limit_ok [OF demo_dconf_ok(2)]
  have nl: "\<not> over_limit demo_dconf 0 4 demo_dstate"
    by (simp add: over_limit_def demo_dconf_def demo_dstate_def)
  have "c_mmap demo_dconf (page demo_dstate) (1 + blk_pages (unat (4 :: u64))) = Some 5"
    by (simp add: demo_dconf_def demo_dstate_def demo_mmap_def list_all_iff)
  moreover have "c_mprotect demo_dconf m i j" for m i j by (simp add: demo_dconf_def)
  ultimately obtain s1 where a: "dislocator_alloc demo_dconf 0 4 demo_dstate = Inr (Some (blk_ptr 5 4), s1)"
    using nl by (simp add: dislocator_alloc_run [OF lim])
  obtain r where "dl_malloc demo_dconf 0 4 demo_dstate = r" "r = Inl Segv \<or> (\<exists>s2. r = Inr (Some (blk_ptr 5 4), s2))"
    using a by (auto simp: dl_malloc_def write_at_def)
  moreover have "alloc_result 4 ALLOC_CLOBBER demo_dstate (\<lambda>k. None) (dl_malloc demo_dconf 0 4 demo_dstate)"
    using dl_malloc_spec [OF _ lim demo_dconf_ok(1), of demo_dstate "\<lambda>k. None" 4 0] by (simp add: dl_inv_def)
  ultimately obtain s2 where "dl_malloc demo_dconf 0 4 demo_dstate = Inr (Some (blk_ptr 5 4), s2)"
    by (auto simp: alloc_result_def)
  from dl_new [OF dl_start this] have "dl_run demo_dconf s2 [5 \<mapsto> (unat (4 :: u64), True)]"
    by (simp only: blk_base_ptr)
  moreover have "[5 \<mapsto> (unat (4 :: u64), True)] 5 = Some (4, True)" by simp
  ultimately show ?thesis by blast
qed

theorem dislocator_isolates_witness:
  "\<exists>s B. dl_run demo_dconf s B \<and> ok_at s (blk_ptr 5 4 + 3) \<and> \<not> ok_at s (blk_ptr 5 4 + 4)"
proof -
  obtain s B where r: "dl_run demo_dconf s B" "B 5 = Some (4, True)" using demo_dl_run by blast
  from dislocator_isolates [OF r(1) demo_dconf_ok r(2)]
  have "ok_at s (blk_ptr 5 4 + 3)" "\<forall>i < PAGE_SIZE. \<not> ok_at s (blk_ptr 5 4 + 4 + i)" by simp_all
  moreover from this(2) have "\<not> ok_at s (blk_ptr 5 4 + 4 + 0)" by (rule allE [of _ 0]) (simp add: PAGE_SIZE_def)
  ultimately show ?thesis using r(1) by auto
qed

theorem dislocator_results_witness:
  "\<exists>s B. dl_run demo_dconf s B \<and>
     realloc_result 5 4 2 s B (dl_realloc demo_dconf 0 (Some (blk_ptr 5 4)) 2 s)"
proof -
  obtain s B where r: "dl_run demo_dconf s B" "B 5 = Some (4, True)" using demo_dl_run by blast
  from dislocator_results [OF r(1) demo_dconf_ok r(2), of 2 0] r(1) show ?thesis by auto
qed

text \<open>A block freed by another thread leaves that thread's counter below 0: it can allocate nothing more.\<close>

lemma other_thread_free:
  assumes "0 < n" and "n \<le> 2 ^ 32 - 2 ^ 20" and "total_mem s t = 0 - of_nat n"
  shows "over_limit c t len s"
proof -
  let ?t = "0 - of_nat n :: u64"
  have "of_nat (2 ^ 64 - n) + of_nat n = (of_nat (2 ^ 64 - n + n) :: u64)" by (rule of_nat_add [symmetric])
  also have "\<dots> = 0" using assms(2) by (intro word_of_nat_eq_0_iff [THEN iffD2]) simp
  finally have "of_nat (2 ^ 64 - n) = ?t" by (simp only: eq_neg_iff_add_eq_0 diff_0)
  then have t: "unat ?t = 2 ^ 64 - n" using assms(1) unat_of_nat [of "2 ^ 64 - n", where 'a = 64] by simp
  have m: "unat (ucast (max_mem c) :: u64) < 2 ^ 32"
    unfolding unat_ucast64 using unsigned_less [of "max_mem c", where 'a = nat] by simp
  have s: "unat (?t + len) = (2 ^ 64 - n + unat len) mod 2 ^ 64"
    unfolding unat_word_ariths(1) t by simp
  have len: "unat len < 2 ^ 64" using unsigned_less [of len, where 'a = nat] by simp
  show ?thesis
  proof (cases "unat len < n")
    case True
    then have "2 ^ 64 - n + unat len < 2 ^ 64" using assms(2) by simp
    then have "unat (?t + len) = 2 ^ 64 - n + unat len" unfolding s by (rule mod_less)
    then have "ucast (max_mem c) < ?t + len" using m assms(2) by (simp add: word_less_nat_alt)
    then show ?thesis by (simp add: over_limit_def assms(3))
  next
    case False
    have "unat (?t + len) = unat len - n"
    proof -
      have e: "2 ^ 64 - n + unat len = 2 ^ 64 + (unat len - n)" using False assms(2) by simp
      have "unat len - n < 2 ^ 64" using len by simp
      then show ?thesis unfolding s e mod_add_self1 by (rule mod_less)
    qed
    then have "?t + len < ?t" using t len False assms(1,2) by (simp add: word_less_nat_alt)
    then show ?thesis by (simp add: over_limit_def assms(3))
  qed
qed

end
