(* ===== verification/Afl_ForkServer.thy ===== *)
theory Afl_ForkServer
  imports Afl_Target
begin

text \<open>
  The fork server of \<^verbatim>\<open>llvm_mode/afl-llvm-rt.o.c\<close>, the side of the fuzzer in \<^verbatim>\<open>run_target\<close> and its timeout
  handler, and the processes that run the target, as three parties that take steps in any order.
  They share two pipes and the table of the children of the server.
\<close>

section \<open>The parties\<close>

text \<open>A child runs, is stopped (and the stop may have been reported to \<^verbatim>\<open>waitpid\<close>), or has ended
  and waits to be reaped.\<close>

datatype pstate = P_running | P_stopped bool | P_zombie wait_status

text \<open>Where the server is in its loop, and the fuzzer in a run.\<close>

datatype srv_pc = S_read | S_reap | S_fork | S_cont | S_pid | S_wait | S_status | S_exit
datatype fz_pc = F_idle | F_pid | F_status | F_timer | F_dead

datatype fmsg = M_pid nat | M_status wait_status

text \<open>
  \<open>ctl\<close> and \<open>stp\<close> are the pipes; \<open>s_log\<close> and \<open>f_log\<close> record the outcomes the server has seen and the fuzzer
  has received.
\<close>

record fsys =
  procs :: "nat \<rightharpoonup> pstate"
  ctl :: "bool list"
  stp :: "fmsg list"
  srv :: srv_pc
  s_child :: nat
  s_stopped :: bool
  s_killed :: bool
  s_status :: wait_status
  s_log :: "(nat \<times> wait_status) list"
  fz :: fz_pc
  f_child :: nat
  f_timed :: bool
  f_prev :: bool
  f_status :: wait_status
  f_log :: "(nat \<times> wait_status) list"

fun is_stopped :: "wait_status \<Rightarrow> bool" where
  "is_stopped (Stopped _) = True"
| "is_stopped _ = False"

definition STOP_SIGNAL :: u8 where "STOP_SIGNAL = 19"
definition KILL_SIGNAL :: u8 where "KILL_SIGNAL = 9"

section \<open>Steps\<close>

text \<open>\<open>None\<close>: the call blocks.  \<open>np\<close> is what \<^verbatim>\<open>fork\<close> returns to the server, \<open>None\<close> for a failure.\<close>

definition server_read :: "fsys \<Rightarrow> fsys option" where
  "server_read s =
     (case ctl s of
        [] \<Rightarrow> None
      | k # ks \<Rightarrow> Some (s\<lparr>ctl := ks, s_killed := k,
                    srv := (if s_stopped s \<and> k then S_reap else if \<not> s_stopped s then S_fork else S_cont)\<rparr>))"

definition server_reap :: "fsys \<Rightarrow> fsys option" where
  "server_reap s =
     (case procs s (s_child s) of
        None \<Rightarrow> Some (s\<lparr>srv := S_exit\<rparr>)
      | Some (P_zombie w) \<Rightarrow> Some (s\<lparr>procs := (procs s)(s_child s := None), s_stopped := False, srv := S_fork\<rparr>)
      | _ \<Rightarrow> None)"

definition server_fork :: "nat option \<Rightarrow> fsys \<Rightarrow> fsys" where
  "server_fork np s =
     (case np of
        None \<Rightarrow> s\<lparr>srv := S_exit\<rparr>
      | Some p \<Rightarrow> s\<lparr>procs := (procs s)(p \<mapsto> P_running), s_child := p, srv := S_pid\<rparr>)"

definition server_cont :: "fsys \<Rightarrow> fsys" where
  "server_cont s =
     s\<lparr>procs := (case procs s (s_child s) of
                  Some (P_stopped _) \<Rightarrow> (procs s)(s_child s \<mapsto> P_running) | _ \<Rightarrow> procs s),
       s_stopped := False, srv := S_pid\<rparr>"

definition server_wait :: "bool \<Rightarrow> fsys \<Rightarrow> fsys option" where
  "server_wait persistent s =
     (case procs s (s_child s) of
        None \<Rightarrow> Some (s\<lparr>srv := S_exit\<rparr>)
      | Some (P_zombie w) \<Rightarrow>
          Some (s\<lparr>procs := (procs s)(s_child s := None), s_status := w, s_stopped := (is_stopped w \<or> s_stopped s),
                  s_log := s_log s @ [(s_child s, w)], srv := S_status\<rparr>)
      | Some (P_stopped False) \<Rightarrow>
          if persistent
          then Some (s\<lparr>procs := (procs s)(s_child s \<mapsto> P_stopped True), s_status := Stopped STOP_SIGNAL,
                       s_stopped := True, s_log := s_log s @ [(s_child s, Stopped STOP_SIGNAL)], srv := S_status\<rparr>)
          else None
      | _ \<Rightarrow> None)"

definition server_step :: "bool \<Rightarrow> nat option \<Rightarrow> fsys \<Rightarrow> fsys option" where
  "server_step persistent np s =
     (case srv s of
        S_read \<Rightarrow> server_read s
      | S_reap \<Rightarrow> server_reap s
      | S_fork \<Rightarrow> Some (server_fork np s)
      | S_cont \<Rightarrow> Some (server_cont s)
      | S_pid \<Rightarrow> Some (s\<lparr>stp := stp s @ [M_pid (s_child s)], srv := S_wait\<rparr>)
      | S_wait \<Rightarrow> server_wait persistent s
      | S_status \<Rightarrow> Some (s\<lparr>stp := stp s @ [M_status (s_status s)], srv := S_read\<rparr>)
      | S_exit \<Rightarrow> None)"

text \<open>The fuzzer; it gives up when the server is gone, or sends something else than is due.\<close>

definition fuzz_read :: "fsys \<Rightarrow> (fmsg \<Rightarrow> fsys option) \<Rightarrow> fsys option" where
  "fuzz_read s go =
     (case stp s of
        [] \<Rightarrow> if srv s = S_exit then Some (s\<lparr>fz := F_dead\<rparr>) else None
      | m # ms \<Rightarrow> Some (case go m of None \<Rightarrow> s\<lparr>fz := F_dead\<rparr> | Some s1 \<Rightarrow> s1\<lparr>stp := ms\<rparr>))"

definition fuzz_step :: "fsys \<Rightarrow> fsys option" where
  "fuzz_step s =
     (case fz s of
        F_idle \<Rightarrow> Some (s\<lparr>f_timed := False, ctl := ctl s @ [f_prev s], fz := F_pid\<rparr>)
      | F_pid \<Rightarrow> fuzz_read s (\<lambda>m. case m of
            M_pid p \<Rightarrow> if p = 0 then None else Some (s\<lparr>f_child := p, fz := F_status\<rparr>)
          | M_status w \<Rightarrow> None)
      | F_status \<Rightarrow> fuzz_read s (\<lambda>m. case m of
            M_pid p \<Rightarrow> None
          | M_status w \<Rightarrow> Some (s\<lparr>f_status := w, f_log := f_log s @ [(f_child s, w)],
                                f_child := (if is_stopped w then f_child s else 0), fz := F_timer\<rparr>))
      | F_timer \<Rightarrow> Some (s\<lparr>f_prev := f_timed s, fz := F_idle\<rparr>)
      | F_dead \<Rightarrow> None)"

text \<open>\<^verbatim>\<open>handle_timeout\<close>, and \<^verbatim>\<open>SIGKILL\<close> to a process that may be gone.\<close>

definition send_kill :: "nat \<Rightarrow> fsys \<Rightarrow> fsys" where
  "send_kill p s =
     (case procs s p of
        Some P_running \<Rightarrow> s\<lparr>procs := (procs s)(p \<mapsto> P_zombie (Signaled KILL_SIGNAL))\<rparr>
      | Some (P_stopped _) \<Rightarrow> s\<lparr>procs := (procs s)(p \<mapsto> P_zombie (Signaled KILL_SIGNAL))\<rparr>
      | _ \<Rightarrow> s)"

definition handle_timeout :: "fsys \<Rightarrow> fsys" where
  "handle_timeout s = (if f_child s > 0 then send_kill (f_child s) (s\<lparr>f_timed := True\<rparr>) else s)"

text \<open>
  One step of one party.  A new process gets a positive number that no child has; a running child may
  end, by itself or by a signal, or stop.  The timer is armed from the answer to the request on.
\<close>

inductive fs_step :: "bool \<Rightarrow> fsys \<Rightarrow> fsys \<Rightarrow> bool" for persistent where
  fs_server: "server_step persistent np s = Some s1 \<Longrightarrow>
    (\<And>p. np = Some p \<Longrightarrow> 0 < p \<and> procs s p = None) \<Longrightarrow> fs_step persistent s s1"
| fs_fuzzer: "fuzz_step s = Some s1 \<Longrightarrow> fs_step persistent s s1"
| fs_ends: "procs s p = Some P_running \<Longrightarrow> \<not> is_stopped w \<Longrightarrow>
    fs_step persistent s (s\<lparr>procs := (procs s)(p \<mapsto> P_zombie w)\<rparr>)"
| fs_stops: "procs s p = Some P_running \<Longrightarrow>
    fs_step persistent s (s\<lparr>procs := (procs s)(p \<mapsto> P_stopped False)\<rparr>)"

inductive fs_alarm :: "fsys \<Rightarrow> fsys \<Rightarrow> bool" where
  fs_alarm: "fz s = F_status \<or> fz s = F_timer \<Longrightarrow> fs_alarm s (handle_timeout s)"

text \<open>After the handshake; the number of the child is not read before it is set.\<close>

definition fs_init :: "nat \<Rightarrow> fsys" where
  "fs_init c = \<lparr>procs = (\<lambda>p. None), ctl = [], stp = [], srv = S_read, s_child = Suc c, s_stopped = False,
     s_killed = False, s_status = Exited 0, s_log = [], fz = F_idle, f_child = 0, f_timed = False, f_prev = False,
     f_status = Exited 0, f_log = []\<rparr>"

inductive fs_reach :: "bool \<Rightarrow> fsys \<Rightarrow> bool" for persistent where
  reach_init: "fs_reach persistent (fs_init c)"
| reach_step: "fs_reach persistent s \<Longrightarrow> fs_step persistent s s1 \<Longrightarrow> fs_reach persistent s1"
| reach_alarm: "fs_reach persistent s \<Longrightarrow> fs_alarm s s1 \<Longrightarrow> fs_reach persistent s1"

section \<open>The invariant\<close>

text \<open>What the pipes hold, for each pair of positions.\<close>

definition no_msgs :: "fsys \<Rightarrow> bool" where
  "no_msgs s \<longleftrightarrow> ctl s = [] \<and> stp s = [] \<and> s_log s = f_log s"

definition fs_shape :: "fsys \<Rightarrow> bool" where
  "fs_shape s =
     (case (fz s, srv s) of
        (F_idle, S_read) \<Rightarrow> no_msgs s
      | (F_pid, S_read) \<Rightarrow> (\<exists>k. ctl s = [k]) \<and> stp s = [] \<and> s_log s = f_log s \<or>
          ctl s = [] \<and> \<not> f_timed s \<and> (\<exists>w. stp s = [M_pid (s_child s), M_status w] \<and> is_stopped w = s_stopped s \<and>
            s_log s = f_log s @ [(s_child s, w)])
      | (F_pid, S_reap) \<Rightarrow> no_msgs s | (F_pid, S_fork) \<Rightarrow> no_msgs s | (F_pid, S_cont) \<Rightarrow> no_msgs s
      | (F_pid, S_pid) \<Rightarrow> no_msgs s | (F_pid, S_exit) \<Rightarrow> no_msgs s
      | (F_pid, S_wait) \<Rightarrow> ctl s = [] \<and> stp s = [M_pid (s_child s)] \<and> s_log s = f_log s
      | (F_pid, S_status) \<Rightarrow> ctl s = [] \<and> stp s = [M_pid (s_child s)] \<and> is_stopped (s_status s) = s_stopped s \<and>
          s_log s = f_log s @ [(s_child s, s_status s)]
      | (F_status, S_wait) \<Rightarrow> no_msgs s \<and> f_child s = s_child s
      | (F_status, S_status) \<Rightarrow> ctl s = [] \<and> stp s = [] \<and> f_child s = s_child s \<and> is_stopped (s_status s) = s_stopped s \<and>
          s_log s = f_log s @ [(s_child s, s_status s)]
      | (F_status, S_read) \<Rightarrow> ctl s = [] \<and> f_child s = s_child s \<and> (\<exists>w. stp s = [M_status w] \<and>
          is_stopped w = s_stopped s \<and> s_log s = f_log s @ [(s_child s, w)])
      | (F_timer, S_read) \<Rightarrow> no_msgs s \<and> f_child s = (if s_stopped s then s_child s else 0)
      | (F_dead, S_exit) \<Rightarrow> True
      | _ \<Rightarrow> False)"

text \<open>Whether the child was killed after it had stopped: the flag that the next request carries.\<close>

definition killed_flag :: "fsys \<Rightarrow> bool" where
  "killed_flag s = (case fz s of F_idle \<Rightarrow> f_prev s | F_pid \<Rightarrow> ctl s \<noteq> [] \<and> hd (ctl s) | _ \<Rightarrow> f_timed s)"

definition fs_child_ok :: "fsys \<Rightarrow> bool" where
  "fs_child_ok s =
     (let c = procs s (s_child s); parked = (if \<not> s_stopped s then c = None
             else if killed_flag s then \<exists>w. c = Some (P_zombie w) else c = Some (P_stopped True))
      in case srv s of
        S_read \<Rightarrow> parked
      | S_status \<Rightarrow> parked
      | S_reap \<Rightarrow> s_stopped s \<and> (\<exists>w. c = Some (P_zombie w))
      | S_fork \<Rightarrow> \<not> s_stopped s \<and> c = None
      | S_cont \<Rightarrow> s_stopped s \<and> c = Some (P_stopped True)
      | S_pid \<Rightarrow> \<not> s_stopped s \<and> \<not> f_timed s \<and> c \<noteq> None \<and> c \<noteq> Some (P_stopped True) \<and> (\<forall>w. c = Some (P_zombie w) \<longrightarrow> \<not> is_stopped w)
      | S_wait \<Rightarrow> \<not> s_stopped s \<and> c \<noteq> None \<and> c \<noteq> Some (P_stopped True) \<and> (\<forall>w. c = Some (P_zombie w) \<longrightarrow> \<not> is_stopped w) \<and>
          (f_timed s \<longrightarrow> (\<exists>w. c = Some (P_zombie w)))
      | S_exit \<Rightarrow> c = None)"

definition fs_inv :: "fsys \<Rightarrow> bool" where
  "fs_inv s \<longleftrightarrow> 0 < s_child s \<and> (\<forall>p. p \<noteq> s_child s \<longrightarrow> procs s p = None) \<and>
     (fz s = F_pid \<longrightarrow> \<not> f_timed s) \<and> fs_shape s \<and> fs_child_ok s"

lemmas fs_inv_defs = fs_inv_def fs_shape_def fs_child_ok_def killed_flag_def no_msgs_def

lemma fs_init_inv: "fs_inv (fs_init c)"
  by (simp add: fs_inv_defs fs_init_def)

lemmas server_defs = server_step_def server_read_def server_reap_def server_fork_def server_cont_def server_wait_def

lemma server_step_inv:
  assumes inv: "fs_inv s" and run: "server_step pers np s = Some s1"
    and new: "\<And>p. np = Some p \<Longrightarrow> 0 < p \<and> procs s p = None"
  shows "fs_inv s1"
proof (cases "srv s")
  case S_read
  show ?thesis using inv run S_read
    by (cases "fz s") (auto simp: fs_inv_defs server_defs Let_def split: if_splits)
next
  case S_reap
  show ?thesis using inv run S_reap
    by (cases "fz s") (auto simp: fs_inv_defs server_defs Let_def split: if_splits)
next
  case S_fork
  have none: "procs s p = None" for p
    using inv S_fork by (cases "p = s_child s") (auto simp: fs_inv_def fs_child_ok_def Let_def)
  show ?thesis using inv run S_fork new none
    by (cases "fz s"; cases np) (auto simp: fs_inv_defs server_defs Let_def split: if_splits)
next
  case S_cont
  show ?thesis using inv run S_cont
    by (cases "fz s") (auto simp: fs_inv_defs server_defs Let_def split: if_splits)
next
  case S_pid
  show ?thesis using inv run S_pid
    by (cases "fz s") (auto simp: fs_inv_defs server_defs Let_def split: if_splits)
next
  case S_wait
  show ?thesis using inv run S_wait
    by (cases "fz s")
      (auto simp: fs_inv_defs server_defs Let_def split: if_splits option.splits pstate.splits bool.splits)
next
  case S_status
  show ?thesis using inv run S_status
    by (cases "fz s") (auto simp: fs_inv_defs server_defs Let_def split: if_splits)
next
  case S_exit
  then show ?thesis using run by (simp add: server_step_def)
qed

lemma fuzz_step_inv:
  assumes inv: "fs_inv s" and run: "fuzz_step s = Some s1"
  shows "fs_inv s1"
proof (cases "fz s")
  case F_idle
  show ?thesis using inv run F_idle
    by (cases "srv s") (auto simp: fs_inv_defs fuzz_step_def Let_def split: if_splits)
next
  case F_pid
  show ?thesis using inv run F_pid
    by (cases "srv s") (auto simp: fs_inv_defs fuzz_step_def fuzz_read_def Let_def split: if_splits)
next
  case F_status
  show ?thesis using inv run F_status
    by (cases "srv s") (auto simp: fs_inv_defs fuzz_step_def fuzz_read_def Let_def split: if_splits)
next
  case F_timer
  show ?thesis using inv run F_timer
    by (cases "srv s") (auto simp: fs_inv_defs fuzz_step_def Let_def split: if_splits)
next
  case F_dead
  then show ?thesis using run by (simp add: fuzz_step_def)
qed

lemma child_step_inv:
  assumes inv: "fs_inv s" and p: "procs s p = Some P_running"
    and new: "q = P_stopped False \<or> (\<exists>w. q = P_zombie w \<and> \<not> is_stopped w)"
  shows "fs_inv (s\<lparr>procs := (procs s)(p \<mapsto> q)\<rparr>)"
proof -
  have "p = s_child s" using inv p by (cases "p = s_child s") (auto simp: fs_inv_def)
  then show ?thesis using inv p new
    by (cases "srv s"; cases "fz s") (auto simp: fs_inv_defs Let_def split: if_splits)
qed

lemma alarm_inv:
  assumes inv: "fs_inv s" and arm: "fz s = F_status \<or> fz s = F_timer"
  shows "fs_inv (handle_timeout s)"
proof -
  consider "f_child s = 0" | "f_child s = s_child s" "0 < f_child s"
    using inv arm by (cases "srv s") (auto simp: fs_inv_defs split: if_splits)
  then show ?thesis
  proof cases
    case 1
    then show ?thesis using inv by (simp add: handle_timeout_def)
  next
    case 2
    show ?thesis
    proof (cases "procs s (s_child s)")
      case None
      then show ?thesis using inv arm 2
        by (cases "srv s") (auto simp: fs_inv_defs handle_timeout_def send_kill_def Let_def split: if_splits)
    next
      case (Some q)
      then show ?thesis using inv arm 2
        by (cases "srv s"; cases q) (auto simp: fs_inv_defs handle_timeout_def send_kill_def Let_def split: if_splits)
    qed
  qed
qed

lemma fs_step_inv: "fs_step pers s s1 \<Longrightarrow> fs_inv s \<Longrightarrow> fs_inv s1"
proof (induction rule: fs_step.induct)
  case (fs_server np s s1)
  then show ?case using server_step_inv by blast
next
  case (fs_fuzzer s s1)
  then show ?case using fuzz_step_inv by blast
next
  case (fs_ends s p w)
  then show ?case using child_step_inv by blast
next
  case (fs_stops s p)
  then show ?case using child_step_inv by blast
qed

lemma fs_reach_inv: "fs_reach pers s \<Longrightarrow> fs_inv s"
proof (induction rule: fs_reach.induct)
  case (reach_init c)
  show ?case by (rule fs_init_inv)
next
  case (reach_step s s1)
  then show ?case using fs_step_inv by blast
next
  case (reach_alarm s s1)
  then show ?case using alarm_inv by (auto elim: fs_alarm.cases)
qed

section \<open>The protocol\<close>

text \<open>
  C35: in whatever order server, fuzzer, timer and children take their steps, there is at most one
  child.  The server forks only when the last child has been reaped, waits at once for one that has ended
  when the fuzzer says it killed it, wakes only one that is stopped, and never waits for one that is
  gone.  When the fuzzer is between two runs it has received the outcome of every run exactly once, in order, with
  the right number of the process.  It gives up only when the server has.
\<close>

theorem forkserver_one_child:
  assumes "fs_reach persistent s"
  shows "(\<forall>p. p \<noteq> s_child s \<longrightarrow> procs s p = None) \<and>
    (srv s = S_fork \<longrightarrow> (\<forall>p. procs s p = None)) \<and>
    (srv s = S_reap \<longrightarrow> (\<exists>w. procs s (s_child s) = Some (P_zombie w))) \<and>
    (srv s = S_cont \<longrightarrow> procs s (s_child s) = Some (P_stopped True)) \<and>
    (srv s = S_wait \<longrightarrow> procs s (s_child s) \<noteq> None) \<and>
    (fz s = F_idle \<longrightarrow> f_log s = s_log s) \<and> (fz s = F_dead \<longrightarrow> srv s = S_exit)"
proof -
  have inv: "fs_inv s" using fs_reach_inv [OF assms] .
  then have one: "procs s p = None" if "p \<noteq> s_child s" for p using that by (simp add: fs_inv_def)
  have "procs s p = None" if "srv s = S_fork" for p
    using inv that one [of p] by (cases "p = s_child s") (auto simp: fs_inv_def fs_child_ok_def Let_def)
  moreover have "fz s = F_idle \<longrightarrow> f_log s = s_log s" "fz s = F_dead \<longrightarrow> srv s = S_exit"
    using inv by (cases "srv s"; auto simp: fs_inv_def fs_shape_def no_msgs_def)+
  moreover have "srv s = S_reap \<longrightarrow> (\<exists>w. procs s (s_child s) = Some (P_zombie w))"
    "srv s = S_cont \<longrightarrow> procs s (s_child s) = Some (P_stopped True)"
    "srv s = S_wait \<longrightarrow> procs s (s_child s) \<noteq> None"
    using inv by (auto simp: fs_inv_def fs_child_ok_def Let_def)
  ultimately show ?thesis using one by blast
qed

lemma step_by_server: "server_step pers np s = Some s1 \<Longrightarrow> (\<And>p. np = Some p \<Longrightarrow> 0 < p \<and> procs s p = None) \<Longrightarrow>
    \<exists>s1. fs_step pers s s1"
  using fs_server by blast

lemma step_by_fuzzer: "fuzz_step s = Some s1 \<Longrightarrow> \<exists>s1. fs_step pers s s1"
  using fs_fuzzer by blast

lemma wait_progress:
  assumes inv: "fs_inv s" and w: "srv s = S_wait"
  shows "(\<exists>s1. fs_step pers s s1) \<or> \<not> pers \<and> procs s (s_child s) = Some (P_stopped False)"
proof -
  obtain q where q: "procs s (s_child s) = Some q" "q \<noteq> P_stopped True"
    using inv w by (auto simp: fs_inv_def fs_child_ok_def Let_def)
  show ?thesis
  proof (cases q)
    case P_running
    have "fs_step pers s (s\<lparr>procs := (procs s)(s_child s \<mapsto> P_zombie (Exited 0))\<rparr>)"
      using q(1) P_running by (intro fs_ends) auto
    then show ?thesis by blast
  next
    case (P_zombie w')
    then show ?thesis using q w step_by_server [of pers None s] by (simp add: server_defs)
  next
    case (P_stopped r)
    then show ?thesis using q w step_by_server [of pers None s] by (cases pers) (auto simp: server_defs)
  qed
qed

text \<open>
  C36: the exchange never gets stuck: in every state that can be reached some party other than the timer
  can take a step, unless the fuzzer has given up, or a target that is not in persistent mode has stopped
  itself, which only the timer ends.
\<close>

theorem forkserver_progress:
  assumes "fs_reach persistent s" and "fz s \<noteq> F_dead"
  shows "(\<exists>s1. fs_step persistent s s1) \<or> \<not> persistent \<and> procs s (s_child s) = Some (P_stopped False)"
proof (cases "srv s = S_wait")
  case True
  then show ?thesis using wait_progress fs_reach_inv [OF assms(1)] by blast
next
  case False
  have inv: "fs_inv s" using fs_reach_inv [OF assms(1)] .
  have sh: "fs_shape s" "fs_child_ok s" "0 < s_child s" using inv by (simp_all add: fs_inv_def)
  have "(\<exists>s1. server_step persistent None s = Some s1) \<or> (\<exists>s1. fuzz_step s = Some s1)"
    using sh False assms(2)
    by (cases "fz s"; cases "srv s")
      (auto simp: fs_shape_def fs_child_ok_def no_msgs_def server_defs fuzz_step_def fuzz_read_def Let_def split: if_splits)
  then show ?thesis using step_by_server [of persistent None s] step_by_fuzzer [of s _ persistent] by blast
qed

text \<open>A request, a fork, the first child stops after its run, and is killed late by the timer.\<close>

lemma reach_by_server:
  "fs_reach pers s \<Longrightarrow> server_step pers np s = Some s1 \<Longrightarrow> (\<And>p. np = Some p \<Longrightarrow> 0 < p \<and> procs s p = None) \<Longrightarrow> fs_reach pers s1"
  by (rule reach_step [OF _ fs_server])

lemma reach_by_fuzzer: "fs_reach pers s \<Longrightarrow> fuzz_step s = Some s1 \<Longrightarrow> fs_reach pers s1"
  by (rule reach_step [OF _ fs_fuzzer])

lemma demo_request:
  "\<exists>s. fs_reach True s \<and> srv s = S_wait \<and> fz s = F_status \<and> s_child s = 5 \<and> f_child s = 5 \<and>
     procs s 5 = Some P_running \<and> stp s = [] \<and> ctl s = [] \<and> \<not> s_stopped s"
proof -
  let ?s0 = "fs_init 0"
  define s1 where "s1 = ?s0\<lparr>f_timed := False, ctl := ctl ?s0 @ [f_prev ?s0], fz := F_pid\<rparr>"
  define s2 where "s2 = s1\<lparr>ctl := [], s_killed := False, srv := S_fork\<rparr>"
  define s3 where "s3 = server_fork (Some 5) s2"
  define s4 where "s4 = s3\<lparr>stp := stp s3 @ [M_pid (s_child s3)], srv := S_wait\<rparr>"
  define s5 where "s5 = s4\<lparr>f_child := 5, fz := F_status, stp := []\<rparr>"
  note defs = s5_def s4_def s3_def s2_def s1_def fs_init_def server_defs fuzz_step_def fuzz_read_def
  have r1: "fs_reach True s1" by (rule reach_by_fuzzer [OF reach_init [of True 0]]) (simp add: defs)
  have r2: "fs_reach True s2" by (rule reach_by_server [OF r1, where np = None]) (simp_all add: defs)
  have r3: "fs_reach True s3" by (rule reach_by_server [OF r2, where np = "Some 5"]) (simp_all add: defs)
  have r4: "fs_reach True s4" by (rule reach_by_server [OF r3, where np = None]) (simp_all add: defs)
  have r5: "fs_reach True s5" by (rule reach_by_fuzzer [OF r4]) (simp add: defs)
  then show ?thesis by (intro exI [of _ s5] conjI) (simp_all add: defs)
qed

lemma demo_late_kill:
  "\<exists>s. fs_reach True s \<and> srv s = S_reap \<and> s_child s = 5 \<and> fz s = F_pid"
proof -
  obtain s where s: "fs_reach True s" "srv s = S_wait" "fz s = F_status" "s_child s = 5" "f_child s = 5"
    "procs s 5 = Some P_running" "stp s = []" "ctl s = []" "\<not> s_stopped s" using demo_request by blast
  define s1 where "s1 = s\<lparr>procs := (procs s)(5 \<mapsto> P_stopped False)\<rparr>"
  define s2 where "s2 = s1\<lparr>procs := (procs s1)(5 \<mapsto> P_stopped True), s_status := Stopped STOP_SIGNAL,
     s_stopped := True, s_log := s_log s1 @ [(5, Stopped STOP_SIGNAL)], srv := S_status\<rparr>"
  define s3 where "s3 = s2\<lparr>stp := [M_status (Stopped STOP_SIGNAL)], srv := S_read\<rparr>"
  define s4 where "s4 = s3\<lparr>f_status := Stopped STOP_SIGNAL, f_log := f_log s3 @ [(5, Stopped STOP_SIGNAL)],
     f_child := 5, fz := F_timer, stp := []\<rparr>"
  define s5 where "s5 = handle_timeout s4"
  define s6 where "s6 = s5\<lparr>f_prev := True, fz := F_idle\<rparr>"
  define s7 where "s7 = s6\<lparr>f_timed := False, ctl := [True], fz := F_pid\<rparr>"
  define s8 where "s8 = s7\<lparr>ctl := [], s_killed := True, srv := S_reap\<rparr>"
  note defs = s8_def s7_def s6_def s5_def s4_def s3_def s2_def s1_def s server_defs fuzz_step_def fuzz_read_def
    handle_timeout_def send_kill_def
  have r1: "fs_reach True s1" unfolding s1_def by (rule reach_step [OF s(1) fs_stops]) (rule s(6))
  have r2: "fs_reach True s2" by (rule reach_by_server [OF r1, where np = None]) (simp_all add: defs)
  have r3: "fs_reach True s3" by (rule reach_by_server [OF r2, where np = None]) (simp_all add: defs)
  have r4: "fs_reach True s4" by (rule reach_by_fuzzer [OF r3]) (simp add: defs)
  have r5: "fs_reach True s5" unfolding s5_def by (rule reach_alarm [OF r4 fs_alarm]) (simp add: s4_def)
  have r6: "fs_reach True s6" by (rule reach_by_fuzzer [OF r5]) (simp add: defs)
  have r7: "fs_reach True s7" by (rule reach_by_fuzzer [OF r6]) (simp add: defs)
  have r8: "fs_reach True s8" by (rule reach_by_server [OF r7, where np = None]) (simp_all add: defs)
  then show ?thesis by (intro exI [of _ s8] conjI) (simp_all add: defs)
qed

theorem forkserver_one_child_witness:
  "\<exists>s. fs_reach True s \<and> srv s = S_reap \<and> (\<exists>w. procs s 5 = Some (P_zombie w)) \<and> procs s 6 = None"
proof -
  obtain s where s: "fs_reach True s" "srv s = S_reap" "s_child s = 5" using demo_late_kill by blast
  from forkserver_one_child [OF s(1)] s show ?thesis by (intro exI [of _ s]) auto
qed

theorem forkserver_progress_witness:
  "\<exists>s s1. fs_reach True s \<and> srv s = S_reap \<and> fs_step True s s1"
proof -
  obtain s where s: "fs_reach True s" "srv s = S_reap" "fz s = F_pid" using demo_late_kill by blast
  from forkserver_progress [OF s(1)] s show ?thesis by auto
qed

end
