(* ===== verification/Afl_Runtime.thy ===== *)
theory Afl_Runtime
  imports Afl_Extras
begin

text \<open>
  The rest of \<^verbatim>\<open>llvm_mode/afl-llvm-rt.o.c\<close>, the library linked into the target: attaching to the shared
  memory, the loop of persistent mode and the counters of the \<^verbatim>\<open>trace-pc-guard\<close> mode.  The state is that of
  the process that runs the target; the fork server, which comes before it, is in \<open>Afl_ForkServer\<close>.
\<close>

section \<open>State\<close>

text \<open>Each map is either the dummy in the program or the shared one.\<close>

datatype region = Dummy | Shared

record rt_state =
  area_initial :: "u8 list"
  area_shared :: "u8 list"
  area_ptr :: region
  dfg_initial :: "u32 list"
  dfg_shared :: "u32 list"
  area_dfg_ptr :: region
  prev_loc :: u32
  is_persistent :: bool
  first_pass :: bool
  cycle_cnt :: u32
  init_done :: bool

definition area :: "rt_state \<Rightarrow> u8 list" where
  "area s = (case area_ptr s of Dummy \<Rightarrow> area_initial s | Shared \<Rightarrow> area_shared s)"

definition set_area :: "u8 list \<Rightarrow> rt_state \<Rightarrow> rt_state" where
  "set_area a s = (case area_ptr s of Dummy \<Rightarrow> s\<lparr>area_initial := a\<rparr> | Shared \<Rightarrow> s\<lparr>area_shared := a\<rparr>)"

definition area_dfg :: "rt_state \<Rightarrow> u32 list" where
  "area_dfg s = (case area_dfg_ptr s of Dummy \<Rightarrow> dfg_initial s | Shared \<Rightarrow> dfg_shared s)"

definition set_area_dfg :: "u32 list \<Rightarrow> rt_state \<Rightarrow> rt_state" where
  "set_area_dfg a s = (case area_dfg_ptr s of Dummy \<Rightarrow> s\<lparr>dfg_initial := a\<rparr> | Shared \<Rightarrow> s\<lparr>dfg_shared := a\<rparr>)"

text \<open>The environment of the process; \<open>e_attach\<close> says for which numbers \<^verbatim>\<open>shmat\<close> works.\<close>

record rt_env =
  e_shm :: "u8 list option"
  e_shm_dfg :: "u8 list option"
  e_attach :: "u32 \<Rightarrow> bool"
  e_persist :: bool
  e_defer :: bool
  e_inst_ratio :: "u8 list option"
  e_random :: "nat \<Rightarrow> nat"

datatype rt_exit = Exit_1 | Aborted string

section \<open>Setting up\<close>

text \<open>\<open>None\<close> is a fault: \<^verbatim>\<open>atoi\<close> of a null pointer, or a write past a map.\<close>

definition afl_map_shm :: "rt_env \<Rightarrow> rt_state \<Rightarrow> (rt_exit + rt_state) option" where
  "afl_map_shm e s =
     (case e_shm e of
        None \<Rightarrow> Some (Inr s)
      | Some id_str \<Rightarrow>
          (case e_shm_dfg e of
             None \<Rightarrow> None
           | Some id_str_dfg \<Rightarrow>
               let s1 = s\<lparr>area_ptr := Shared, area_dfg_ptr := Shared\<rparr>
               in if \<not> e_attach e (atoi id_str) then Some (Inl Exit_1)
                  else if \<not> e_attach e (atoi id_str_dfg) then Some (Inl Exit_1)
                  else do { a \<leftarrow> set_at (area s1) 0 1; Some (Inr (set_area a s1)) }))"

text \<open>The fork server returns in the process that is to run the target, and changes nothing there.\<close>

definition afl_manual_init :: "rt_env \<Rightarrow> rt_state \<Rightarrow> (rt_exit + rt_state) option" where
  "afl_manual_init e s =
     (if init_done s then Some (Inr s)
      else andthen (afl_map_shm e s) (\<lambda>s1. Some (Inr (s1\<lparr>init_done := True\<rparr>))))"

definition afl_auto_init :: "rt_env \<Rightarrow> rt_state \<Rightarrow> (rt_exit + rt_state) option" where
  "afl_auto_init e s =
     (let s1 = s\<lparr>is_persistent := e_persist e\<rparr>
      in if e_defer e then Some (Inr s1) else afl_manual_init e s1)"

section \<open>Persistent mode\<close>

text \<open>The result, whether the process stopped itself in the call, and the state; a map has at least one byte.\<close>

definition afl_persistent_loop :: "u32 \<Rightarrow> rt_state \<Rightarrow> bool \<times> bool \<times> rt_state" where
  "afl_persistent_loop max_cnt s =
     (if first_pass s
      then let s1 = (if is_persistent s
                     then let z = set_area_dfg (replicate (length (area_dfg s)) 0)
                                    (set_area (replicate (length (area s)) 0) s)
                          in (set_area ((area z)[0 := 1]) z)\<lparr>prev_loc := 0\<rparr>
                     else s)
           in (True, False, s1\<lparr>cycle_cnt := max_cnt, first_pass := False\<rparr>)
      else if is_persistent s
      then let s1 = s\<lparr>cycle_cnt := cycle_cnt s - 1\<rparr>
           in if cycle_cnt s1 \<noteq> 0
              then (True, True, (set_area ((area s1)[0 := 1]) s1)\<lparr>prev_loc := 0\<rparr>)
              else (False, False, s1\<lparr>area_ptr := Dummy, area_dfg_ptr := Dummy\<rparr>)
      else (False, False, s))"

text \<open>
  The use of \<^verbatim>\<open>__AFL_LOOP\<close> that the documentation describes, \<^verbatim>\<open>while (__AFL_LOOP(n)) body;\<close>: the states in which
  the passes begin, each with the stop before it, and the state after the loop.
\<close>

fun persist_while ::
  "nat \<Rightarrow> u32 \<Rightarrow> (rt_state \<Rightarrow> rt_state) \<Rightarrow> rt_state \<Rightarrow> ((bool \<times> rt_state) list \<times> rt_state) option" where
  "persist_while 0 n body s = None"
| "persist_while (Suc fuel) n body s =
     (case afl_persistent_loop n s of
        (False, _, s1) \<Rightarrow> Some ([], s1)
      | (True, stopped, s1) \<Rightarrow>
          map_option (\<lambda>(ps, s2). ((stopped, s1) # ps, s2)) (persist_while fuel n body (body s1)))"

section \<open>Counters for edges\<close>

definition RT_MAP_SIZE :: nat where "RT_MAP_SIZE = 65536"

definition trace_pc_guard :: "u32 \<Rightarrow> rt_state \<Rightarrow> rt_state option" where
  "trace_pc_guard guard s =
     do { v \<leftarrow> get_at (area s) (unat guard); a \<leftarrow> set_at (area s) (unat guard) (v + 1); Some (set_area a s) }"

text \<open>\<^verbatim>\<open>R(x)\<close>, with a count of the calls of \<^verbatim>\<open>random\<close>.\<close>

definition rt_R :: "rt_env \<Rightarrow> nat \<Rightarrow> nat \<Rightarrow> nat \<times> nat" where
  "rt_R e x k = (e_random e k mod x, k + 1)"

fun guard_loop :: "rt_env \<Rightarrow> u32 \<Rightarrow> u32 list \<Rightarrow> nat \<Rightarrow> u32 list" where
  "guard_loop e ratio [] k = []"
| "guard_loop e ratio (g # gs) k =
     (let (r, k1) = rt_R e 100 k
      in if of_nat r < ratio
         then let (v, k2) = rt_R e (RT_MAP_SIZE - 1) k1 in (of_nat v + 1) # guard_loop e ratio gs k2
         else 0 # guard_loop e ratio gs k1)"

definition trace_pc_guard_init :: "rt_env \<Rightarrow> u32 list \<Rightarrow> rt_exit + u32 list" where
  "trace_pc_guard_init e guards =
     (case guards of
        [] \<Rightarrow> Inr guards
      | g # gs \<Rightarrow>
          if g \<noteq> 0 then Inr guards
          else
            let inst_ratio = (case e_inst_ratio e of Some x \<Rightarrow> atoi x | None \<Rightarrow> 100)
            in if inst_ratio = 0 \<or> inst_ratio > 100 then Inl (Aborted ''Invalid AFL_INST_RATIO'')
               else let (v, k) = rt_R e (RT_MAP_SIZE - 1) 0
                    in Inr ((of_nat v + 1) # guard_loop e inst_ratio gs k))"

section \<open>What they guarantee\<close>

lemma guard_value: "unat (of_nat (x mod (RT_MAP_SIZE - 1)) + 1 :: u32) < RT_MAP_SIZE"
proof -
  have "x mod (RT_MAP_SIZE - 1) < 65535" by (simp add: RT_MAP_SIZE_def)
  then show ?thesis by (simp add: RT_MAP_SIZE_def unat_word_ariths unat_of_nat)
qed

lemma guard_loop_bounds: "\<forall>g \<in> set (guard_loop e ratio gs k). unat g < RT_MAP_SIZE"
proof (induction gs arbitrary: k)
  case (Cons g gs)
  then show ?case using guard_value by (auto simp: rt_R_def Let_def RT_MAP_SIZE_def)
qed simp

lemma guards_in_map:
  assumes "trace_pc_guard_init e guards = Inr gs" and "\<forall>g \<in> set guards. g = 0" and "g \<in> set gs"
    and "length (area s) = RT_MAP_SIZE"
  shows "\<exists>s1. trace_pc_guard g s = Some s1"
proof -
  have "unat g < RT_MAP_SIZE"
    using assms(1-3) guard_loop_bounds guard_value
    by (cases guards) (auto simp: trace_pc_guard_init_def rt_R_def Let_def RT_MAP_SIZE_def split: if_splits option.splits)
  then show ?thesis using assms(4) by (simp add: trace_pc_guard_def get_at_def set_at_def)
qed

lemma area_set [simp]: "area (set_area a s) = a" "area_ptr (set_area a s) = area_ptr s"
  "is_persistent (set_area a s) = is_persistent s" "first_pass (set_area a s) = first_pass s"
  "cycle_cnt (set_area a s) = cycle_cnt s"
  by (simp_all add: area_def set_area_def split: region.splits)

lemma area_set_dfg [simp]: "area (set_area_dfg a s) = area s" "area_ptr (set_area_dfg a s) = area_ptr s"
  "is_persistent (set_area_dfg a s) = is_persistent s"
  by (simp_all add: area_def set_area_dfg_def split: region.splits)

lemma area_other [simp]: "area (s\<lparr>prev_loc := p\<rparr>) = area s" "area (s\<lparr>cycle_cnt := c\<rparr>) = area s"
  "area (s\<lparr>first_pass := b\<rparr>) = area s"
  by (simp_all add: area_def split: region.splits)

lemma area_dfg_set [simp]: "area_dfg (set_area_dfg a s) = a" "area_dfg (set_area b s) = area_dfg s"
  "area_dfg_ptr (set_area_dfg a s) = area_dfg_ptr s" "area_dfg_ptr (set_area b s) = area_dfg_ptr s"
  by (simp_all add: area_dfg_def set_area_def set_area_dfg_def split: region.splits)

lemma area_dfg_other [simp]: "area_dfg (s\<lparr>prev_loc := p\<rparr>) = area_dfg s" "area_dfg (s\<lparr>cycle_cnt := c\<rparr>) = area_dfg s"
  "area_dfg (s\<lparr>first_pass := b\<rparr>) = area_dfg s"
  by (simp_all add: area_dfg_def split: region.splits)

text \<open>The code between two calls leaves the statics of the runtime alone.\<close>

definition body_ok :: "(rt_state \<Rightarrow> rt_state) \<Rightarrow> bool" where
  "body_ok body \<longleftrightarrow> (\<forall>s. first_pass (body s) = first_pass s \<and> cycle_cnt (body s) = cycle_cnt s \<and>
     is_persistent (body s) = is_persistent s \<and> length (area (body s)) = length (area s))"

text \<open>
  A pass that begins where the code before it left the maps: only the marker is set, and no location
  is remembered. \<open>marked a\<close> is the map \<open>a\<close> with the marker.
\<close>

definition marked :: "u8 list \<Rightarrow> u8 list" where
  "marked a = a[0 := 1]"

definition resumed :: "rt_state \<Rightarrow> rt_state \<Rightarrow> bool" where
  "resumed s s1 \<longleftrightarrow> area s1 = marked (area s) \<and> area_dfg s1 = area_dfg s \<and> prev_loc s1 = 0 \<and>
     area_ptr s1 = area_ptr s \<and> area_dfg_ptr s1 = area_dfg_ptr s"

text \<open>The passes after a state: each begins with a stop and resumes what the one before it left.\<close>

fun resume_chain :: "(rt_state \<Rightarrow> rt_state) \<Rightarrow> rt_state \<Rightarrow> (bool \<times> rt_state) list \<Rightarrow> rt_state \<Rightarrow> bool" where
  "resume_chain body s [] s2 = (s2 = s\<lparr>cycle_cnt := 0, area_ptr := Dummy, area_dfg_ptr := Dummy\<rparr>)"
| "resume_chain body s ((stopped, s1) # ps) s2 = (stopped \<and> resumed s s1 \<and> resume_chain body (body s1) ps s2)"

lemma later_passes:
  assumes body: "body_ok body"
  shows "is_persistent s \<Longrightarrow> \<not> first_pass s \<Longrightarrow> unat (cycle_cnt s - 1) = m \<Longrightarrow>
    \<exists>ps s2. persist_while (Suc m) n body s = Some (ps, s2) \<and> length ps = m \<and> resume_chain body s ps s2"
proof (induction m arbitrary: s)
  case 0
  then have "cycle_cnt s - 1 = 0" by (simp add: unat_eq_0)
  then show ?case using 0 by (simp add: afl_persistent_loop_def Let_def)
next
  case (Suc m)
  let ?c = "cycle_cnt s - 1"
  define s1 where "s1 = (set_area ((area s)[0 := 1]) (s\<lparr>cycle_cnt := ?c\<rparr>))\<lparr>prev_loc := 0\<rparr>"
  have "?c \<noteq> 0" using Suc.prems(3) by auto
  then have call: "afl_persistent_loop n s = (True, True, s1)"
    using Suc.prems(1,2) by (simp add: afl_persistent_loop_def Let_def s1_def)
  have s1: "is_persistent s1" "\<not> first_pass s1" "cycle_cnt s1 = ?c"
    using Suc.prems(1,2) by (simp_all add: s1_def)
  have b: "first_pass (body s1) = first_pass s1" "cycle_cnt (body s1) = cycle_cnt s1"
    "is_persistent (body s1) = is_persistent s1"
    using body unfolding body_ok_def by blast+
  have "is_persistent (body s1)" "\<not> first_pass (body s1)" "cycle_cnt (body s1) = ?c"
    using s1(1,2) unfolding b s1(3) by simp_all
  moreover have "unat (?c - 1) = m"
    by (simp only: unat_minus_one [OF \<open>?c \<noteq> 0\<close>] Suc.prems(3) diff_Suc_1)
  ultimately obtain ps s2 where ps: "persist_while (Suc m) n body (body s1) = Some (ps, s2)" "length ps = m"
    "resume_chain body (body s1) ps s2"
    using Suc.IH by metis
  have "resumed s s1" by (simp add: resumed_def marked_def s1_def)
  then show ?case using ps call by simp
qed

text \<open>
  C37: \<^verbatim>\<open>while (__AFL_LOOP(n)) body\<close> ends.  In persistent mode it makes \<open>n\<close> passes, 2 to the power of 32 for \<open>n = 0\<close>.  The first
  begins with a clean slate, whatever ran before the loop: a map that is zero but for the marker, a data-flow map
  that is zero throughout, and no previous location.  Each of the others comes after a stop of the
  process and begins with the maps as the pass before it left them, but for the marker, and no previous location.  Afterwards
  the dummy maps are in use, and the shared ones are as the last pass left them.  Outside of persistent mode there is
  one pass, and no map is touched.
\<close>

theorem persistent_loop_passes:
  assumes "first_pass s" and "body_ok body"
  shows "\<exists>ps s2. persist_while (unat (n - 1) + 2) n body s = Some (ps, s2) \<and>
    (if is_persistent s
     then length ps = (if n = 0 then 2 ^ 32 else unat n) \<and>
       (\<exists>s1 later. ps = (False, s1) # later \<and>
          area s1 = marked (replicate (length (area s)) 0) \<and> area_dfg s1 = replicate (length (area_dfg s)) 0 \<and>
          prev_loc s1 = 0 \<and> area_ptr s1 = area_ptr s \<and> area_dfg_ptr s1 = area_dfg_ptr s \<and>
          resume_chain body (body s1) later s2)
     else ps = [(False, s\<lparr>cycle_cnt := n, first_pass := False\<rparr>)] \<and> s2 = body (s\<lparr>cycle_cnt := n, first_pass := False\<rparr>))"
proof (cases "is_persistent s")
  case False
  define s1 where "s1 = s\<lparr>cycle_cnt := n, first_pass := False\<rparr>"
  have "afl_persistent_loop n s = (True, False, s1)"
    using assms(1) False by (simp add: afl_persistent_loop_def s1_def)
  moreover have "afl_persistent_loop n (body s1) = (False, False, body s1)"
    using assms(2) False by (simp add: afl_persistent_loop_def s1_def body_ok_def)
  ultimately show ?thesis using False by (simp add: numeral_2_eq_2 s1_def)
next
  case True
  let ?m = "unat (n - 1)"
  obtain s1 where call: "afl_persistent_loop n s = (True, False, s1)"
    and s1: "is_persistent s1" "\<not> first_pass s1" "cycle_cnt s1 = n"
    and maps: "area s1 = marked (replicate (length (area s)) 0)" "area_dfg s1 = replicate (length (area_dfg s)) 0"
      "prev_loc s1 = 0" "area_ptr s1 = area_ptr s" "area_dfg_ptr s1 = area_dfg_ptr s"
    using assms(1) True by (simp add: afl_persistent_loop_def Let_def marked_def)
  have b: "first_pass (body s1) = first_pass s1" "cycle_cnt (body s1) = cycle_cnt s1"
    "is_persistent (body s1) = is_persistent s1"
    using assms(2) unfolding body_ok_def by blast+
  have "is_persistent (body s1)" "\<not> first_pass (body s1)" "unat (cycle_cnt (body s1) - 1) = ?m"
    using s1(1,2) unfolding b s1(3) by simp_all
  from later_passes [OF assms(2) this] obtain ps s2 where
    ps: "persist_while (Suc ?m) n body (body s1) = Some (ps, s2)" "length ps = ?m" "resume_chain body (body s1) ps s2" by blast
  have "Suc ?m = (if n = 0 then 2 ^ 32 else unat n)"
    by (cases "n = 0") (simp_all add: unat_minus_one unat_gt_0 Suc_diff_Suc unsigned_minus_1_eq_mask mask_eq_exp_minus_1)
  moreover have "persist_while (unat (n - 1) + 2) n body s = Some ((False, s1) # ps, s2)"
    using ps(1) call by (simp add: numeral_2_eq_2)
  ultimately show ?thesis using ps(2,3) maps True by (intro exI [of _ "(False, s1) # ps"] exI [of _ s2]) simp
qed

definition demo_rt :: rt_state where
  "demo_rt = \<lparr>area_initial = [0, 0], area_shared = [7, 7], area_ptr = Shared, dfg_initial = [0], dfg_shared = [5],
     area_dfg_ptr = Shared, prev_loc = 9, is_persistent = True, first_pass = True, cycle_cnt = 0, init_done = True\<rparr>"

text \<open>A target that counts an edge and moves on.\<close>

definition demo_body :: "rt_state \<Rightarrow> rt_state" where
  "demo_body s = (set_area (map (\<lambda>v. v + 1) (area s)) s)\<lparr>prev_loc := 3\<rparr>"

theorem persistent_loop_passes_witness:
  "\<exists>ps s2. persist_while 4 3 demo_body demo_rt = Some (ps, s2) \<and> length ps = 3 \<and> area_ptr s2 = Dummy \<and>
     area (snd (hd ps)) = [1, 0] \<and> area_dfg (snd (hd ps)) = [0]"
proof -
  have ok: "first_pass demo_rt" "body_ok demo_body" by (simp_all add: demo_rt_def body_ok_def demo_body_def)
  have p: "is_persistent demo_rt" "length (area demo_rt) = 2" "length (area_dfg demo_rt) = 1"
    by (simp_all add: demo_rt_def area_def area_dfg_def)
  obtain ps s2 s1 later where r: "persist_while 4 3 demo_body demo_rt = Some (ps, s2)" "length ps = 3" "ps = (False, s1) # later"
    "area s1 = marked (replicate 2 0)" "area_dfg s1 = replicate 1 0" "resume_chain demo_body (demo_body s1) later s2"
    using persistent_loop_passes [OF ok, of 3] p by auto
  have "area_ptr s2 = Dummy" if "resume_chain demo_body s later s2" for s
    using that by (induction later arbitrary: s) auto
  then show ?thesis using r by (simp add: marked_def numeral_eq_Suc)
qed

end
