(* ===== verification/Afl_Cc.thy ===== *)
theory Afl_Cc
  imports Afl_As Afl_Favored "HOL-Library.Sublist"
begin

text \<open>
  The compiler wrappers \<^verbatim>\<open>afl-gcc.c\<close> and \<^verbatim>\<open>llvm_mode/afl-clang-fast.c\<close>: where they find their
  companion files, and the command line they build for the real compiler (the builds for systems other than
  FreeBSD, MacOS and Android).  The environment, and which files can be accessed, are parameters.
\<close>

section \<open>Names\<close>

type_synonym environment = "string \<Rightarrow> string option"

text \<open>The part behind the last slash, and the part before it.\<close>

definition cc_base_name :: "string \<Rightarrow> string" where
  "cc_base_name p = rev (takeWhile (\<lambda>c. c \<noteq> CHR ''/'') (rev p))"

definition dir_name :: "string \<Rightarrow> string option" where
  "dir_name p = (if CHR ''/'' \<in> set p then Some (rev (tl (dropWhile (\<lambda>c. c \<noteq> CHR ''/'') (rev p)))) else None)"

definition env_or :: "environment \<Rightarrow> string \<Rightarrow> string \<Rightarrow> string" where
  "env_or getenv v dflt = (case getenv v of Some x \<Rightarrow> x | None \<Rightarrow> dflt)"

definition is_set :: "environment \<Rightarrow> string \<Rightarrow> bool" where "is_set getenv v \<longleftrightarrow> getenv v \<noteq> None"

section \<open>The wrapper of gcc\<close>

definition find_as :: "environment \<Rightarrow> (string \<Rightarrow> bool) \<Rightarrow> string \<Rightarrow> string \<Rightarrow> fatal + string" where
  "find_as getenv access AFL_PATH argv0 =
     (case getenv ''AFL_PATH'' of
        Some p \<Rightarrow> if access (p @ ''/as'') then Inr p
                  else (case dir_name argv0 of
                          Some d \<Rightarrow> if access (d @ ''/afl-as'') then Inr d
                                    else if access (AFL_PATH @ ''/as'') then Inr AFL_PATH
                                    else Inl (FATAL ''Unable to find AFL wrapper binary for as. Please set AFL_PATH'')
                        | None \<Rightarrow> if access (AFL_PATH @ ''/as'') then Inr AFL_PATH
                                  else Inl (FATAL ''Unable to find AFL wrapper binary for as. Please set AFL_PATH''))
      | None \<Rightarrow> (case dir_name argv0 of
                   Some d \<Rightarrow> if access (d @ ''/afl-as'') then Inr d
                             else if access (AFL_PATH @ ''/as'') then Inr AFL_PATH
                             else Inl (FATAL ''Unable to find AFL wrapper binary for as. Please set AFL_PATH'')
                 | None \<Rightarrow> if access (AFL_PATH @ ''/as'') then Inr AFL_PATH
                           else Inl (FATAL ''Unable to find AFL wrapper binary for as. Please set AFL_PATH'')))"

definition gcc_compiler :: "environment \<Rightarrow> string \<Rightarrow> string" where
  "gcc_compiler getenv name =
     (if starts ''afl-clang'' name
      then (if name = ''afl-clang++'' then env_or getenv ''AFL_CXX'' ''clang++'' else env_or getenv ''AFL_CC'' ''clang'')
      else if name = ''afl-g++'' then env_or getenv ''AFL_CXX'' ''g++''
      else if name = ''afl-gcj'' then env_or getenv ''AFL_GCJ'' ''gcj''
      else env_or getenv ''AFL_CC'' ''gcc'')"

text \<open>The loop over the arguments: \<open>asan_set\<close>, \<open>fortify_set\<close>, and the arguments that are passed on.\<close>

function gcc_scan :: "string list \<Rightarrow> bool \<times> bool \<times> string list" where
  "gcc_scan [] = (False, False, [])"
| "gcc_scan (cur # rest) =
     (if starts ''-B'' cur then gcc_scan (if cur = ''-B'' \<and> rest \<noteq> [] then tl rest else rest)
      else if cur = ''-integrated-as'' then gcc_scan rest
      else if cur = ''-pipe'' then gcc_scan rest
      else let (asan, fort, ks) = gcc_scan rest
           in (asan \<or> cur = ''-fsanitize=address'' \<or> cur = ''-fsanitize=memory'',
               fort \<or> strstr cur ''FORTIFY_SOURCE'', cur # ks))"
  by pat_completeness auto
termination by (relation "measure length") auto

definition cc_harden :: "environment \<Rightarrow> bool \<Rightarrow> string list" where
  "cc_harden getenv fortify =
     (if is_set getenv ''AFL_HARDEN''
      then ''-fstack-protector-all'' # (if \<not> fortify then [''-D_FORTIFY_SOURCE=2''] else []) else [])"

text \<open>The sanitizers, the same in both wrappers when none is asked for on the command line.\<close>

definition cc_sanitize :: "environment \<Rightarrow> fatal + string list" where
  "cc_sanitize getenv =
     (if is_set getenv ''AFL_USE_ASAN'' then
        (if is_set getenv ''AFL_USE_MSAN'' then Inl (FATAL ''ASAN and MSAN are mutually exclusive'')
         else if is_set getenv ''AFL_HARDEN'' then Inl (FATAL ''ASAN and AFL_HARDEN are mutually exclusive'')
         else Inr [''-U_FORTIFY_SOURCE'', ''-fsanitize=address''])
      else if is_set getenv ''AFL_USE_MSAN'' then
        (if is_set getenv ''AFL_USE_ASAN'' then Inl (FATAL ''ASAN and MSAN are mutually exclusive'')
         else if is_set getenv ''AFL_HARDEN'' then Inl (FATAL ''MSAN and AFL_HARDEN are mutually exclusive'')
         else Inr [''-U_FORTIFY_SOURCE'', ''-fsanitize=memory''])
      else Inr [])"

definition gcc_optimize :: "environment \<Rightarrow> string list" where
  "gcc_optimize getenv =
     (if \<not> is_set getenv ''AFL_DONT_OPTIMIZE''
      then [''-g'', ''-O3'', ''-funroll-loops'', ''-D__AFL_COMPILER=1'', ''-DFUZZING_BUILD_MODE_UNSAFE_FOR_PRODUCTION=1'']
      else [])"

definition gcc_no_builtin :: "environment \<Rightarrow> string list" where
  "gcc_no_builtin getenv =
     (if is_set getenv ''AFL_NO_BUILTIN''
      then [''-fno-builtin-strcmp'', ''-fno-builtin-strncmp'', ''-fno-builtin-strcasecmp'', ''-fno-builtin-strncasecmp'',
            ''-fno-builtin-memcmp'', ''-fno-builtin-strstr'', ''-fno-builtin-strcasestr''] else [])"

text \<open>The parameters, and the environment that the compiler inherits.\<close>

definition gcc_edit_params :: "environment \<Rightarrow> string \<Rightarrow> string list \<Rightarrow> fatal + string list \<times> environment" where
  "gcc_edit_params getenv as_path argv =
     (let name = cc_base_name (hd argv);
          clang_mode = starts ''afl-clang'' name;
          env1 = (if clang_mode then getenv(''__AFL_CLANG_MODE'' \<mapsto> ''1'') else getenv);
          (asan_set, fortify_set, ks) = gcc_scan (tl argv);
          ps = gcc_compiler env1 name # ks @ [''-B'', as_path] @
               (if clang_mode then [''-no-integrated-as''] else []) @ cc_harden env1 fortify_set;
          env2 = (if asan_set then env1(''AFL_USE_ASAN'' \<mapsto> ''1'') else env1)
      in case (if asan_set then Inr [] else cc_sanitize env1) of
           Inl e \<Rightarrow> Inl e
         | Inr sn \<Rightarrow> Inr (ps @ sn @ gcc_optimize env2 @ gcc_no_builtin env2, env2))"

text \<open>\<open>Inr None\<close>: the usage message, and exit.\<close>

definition gcc_main ::
  "environment \<Rightarrow> (string \<Rightarrow> bool) \<Rightarrow> string \<Rightarrow> string list \<Rightarrow> fatal + (string list \<times> environment) option" where
  "gcc_main getenv access AFL_PATH argv =
     (if length argv < 2 then Inr None
      else case find_as getenv access AFL_PATH (hd argv) of
          Inl e \<Rightarrow> Inl e
        | Inr p \<Rightarrow> map_sum id Some (gcc_edit_params getenv p argv))"

section \<open>The wrapper of clang\<close>

definition find_obj :: "environment \<Rightarrow> (string \<Rightarrow> bool) \<Rightarrow> string \<Rightarrow> string \<Rightarrow> fatal + string" where
  "find_obj getenv access AFL_PATH argv0 =
     (let usual = (if access (AFL_PATH @ ''/afl-llvm-rt.o'') then Inr AFL_PATH
                   else Inl (FATAL ''Unable to find afl-llvm-rt.o or afl-llvm-pass.so. Please set AFL_PATH''));
          beside = (case dir_name argv0 of
                      Some d \<Rightarrow> if access (d @ ''/afl-llvm-rt.o'') then Inr d else usual
                    | None \<Rightarrow> usual)
      in case getenv ''AFL_PATH'' of
           Some p \<Rightarrow> if access (p @ ''/afl-llvm-rt.o'') then Inr p else beside
         | None \<Rightarrow> beside)"

record clang_scan =
  k_bits :: nat
  k_x :: bool
  k_asan :: bool
  k_fortify :: bool
  k_args :: "string list"

definition clang_scan_arg :: "string \<Rightarrow> clang_scan \<Rightarrow> clang_scan" where
  "clang_scan_arg cur k =
     (let k1 = k\<lparr>k_bits := (if cur = ''-m32'' then 32 else if cur = ''armv7a-linux-androideabi'' then 32
                           else if cur = ''-m64'' then 64 else k_bits k),
                 k_x := (k_x k \<or> cur = ''-x''),
                 k_asan := (k_asan k \<or> cur = ''-fsanitize=address'' \<or> cur = ''-fsanitize=memory''),
                 k_fortify := (k_fortify k \<or> strstr cur ''FORTIFY_SOURCE'')\<rparr>
      in if cur = ''-Wl,-z,defs'' \<or> cur = ''-Wl,--no-undefined'' then k1 else k1\<lparr>k_args := k_args k1 @ [cur]\<rparr>)"

definition clang_scan_args :: "string list \<Rightarrow> clang_scan" where
  "clang_scan_args args =
     foldl (\<lambda>k cur. clang_scan_arg cur k) \<lparr>k_bits = 0, k_x = False, k_asan = False, k_fortify = False, k_args = []\<rparr> args"

definition PERSIST_SIG :: string where "PERSIST_SIG = ''##SIG_AFL_PERSISTENT##''"
definition DEFER_SIG :: string where "DEFER_SIG = ''##SIG_AFL_DEFER_FORKSRV##''"

abbreviation dq :: string where "dq \<equiv> [CHR 0x22]"

definition AFL_LOOP_MACRO :: string where
  "AFL_LOOP_MACRO = ''-D__AFL_LOOP(_A)=({ static volatile char *_B __attribute__((used));  _B = (char*)'' @ dq @ PERSIST_SIG @ dq @
     ''; __attribute__((visibility('' @ dq @ ''default'' @ dq @ ''))) int _L(unsigned int) __asm__('' @ dq @
     ''__afl_persistent_loop'' @ dq @ ''); _L(_A); })''"

definition AFL_INIT_MACRO :: string where
  "AFL_INIT_MACRO = ''-D__AFL_INIT()=do { static volatile char *_A __attribute__((used));  _A = (char*)'' @ dq @ DEFER_SIG @ dq @
     ''; __attribute__((visibility('' @ dq @ ''default'' @ dq @ ''))) void _I(void) __asm__('' @ dq @
     ''__afl_manual_init'' @ dq @ ''); _I(); } while (0)''"

definition clang_compiler :: "environment \<Rightarrow> string \<Rightarrow> string" where
  "clang_compiler getenv name =
     (if name = ''afl-clang-fast++'' then env_or getenv ''AFL_CXX'' ''clang++'' else env_or getenv ''AFL_CC'' ''clang'')"

text \<open>\<open>trace_pc\<close> is the build option \<^verbatim>\<open>USE_TRACE_PC\<close>.\<close>

definition clang_front :: "bool \<Rightarrow> string \<Rightarrow> string list" where
  "clang_front trace_pc obj_path =
     (if trace_pc then [''-fsanitize-coverage=trace-pc-guard'', ''-mllvm'', ''-sanitizer-coverage-block-threshold=0'']
      else [''-Xclang'', ''-load'', ''-Xclang'', obj_path @ ''/afl-llvm-pass.so'']) @ [''-Qunused-arguments'']"

definition clang_options :: "environment \<Rightarrow> string list" where
  "clang_options getenv =
     (if \<not> is_set getenv ''AFL_DONT_OPTIMIZE'' then [''-g'', ''-O3'', ''-funroll-loops''] else []) @
     (if is_set getenv ''AFL_NO_BUILTIN''
      then [''-fno-builtin-strcmp'', ''-fno-builtin-strncmp'', ''-fno-builtin-strcasecmp'', ''-fno-builtin-strncasecmp'',
            ''-fno-builtin-memcmp''] else []) @
     [''-D__AFL_HAVE_MANUAL_CONTROL=1'', ''-D__AFL_COMPILER=1'', ''-DFUZZING_BUILD_MODE_UNSAFE_FOR_PRODUCTION=1'',
      AFL_LOOP_MACRO, AFL_INIT_MACRO]"

text \<open>The object file of the runtime for the word size asked for.\<close>

definition clang_runtime :: "(string \<Rightarrow> bool) \<Rightarrow> string \<Rightarrow> nat \<Rightarrow> fatal + string list" where
  "clang_runtime access obj_path bits =
     (if bits = 0 then Inr [obj_path @ ''/afl-llvm-rt.o'']
      else if bits = 32
      then (if access (obj_path @ ''/afl-llvm-rt-32.o'') then Inr [obj_path @ ''/afl-llvm-rt-32.o'']
            else Inl (FATAL ''-m32 is not supported by your compiler''))
      else if bits = 64
      then (if access (obj_path @ ''/afl-llvm-rt-64.o'') then Inr [obj_path @ ''/afl-llvm-rt-64.o'']
            else Inl (FATAL ''-m64 is not supported by your compiler''))
      else Inr [])"

definition clang_edit_params ::
  "bool \<Rightarrow> environment \<Rightarrow> (string \<Rightarrow> bool) \<Rightarrow> string \<Rightarrow> string list \<Rightarrow> fatal + string list" where
  "clang_edit_params trace_pc getenv access obj_path argv =
     (let k = clang_scan_args (tl argv);
          ps = clang_compiler getenv (cc_base_name (hd argv)) # clang_front trace_pc obj_path @ k_args k @
               cc_harden getenv (k_fortify k)
      in case (if k_asan k then Inr [] else cc_sanitize getenv) of
           Inl e \<Rightarrow> Inl e
         | Inr sn \<Rightarrow>
             if trace_pc \<and> is_set getenv ''AFL_INST_RATIO''
             then Inl (FATAL ''AFL_INST_RATIO not available at compile time with trace-pc.'')
             else case clang_runtime access obj_path (k_bits k) of
                 Inl e \<Rightarrow> Inl e
               | Inr rt \<Rightarrow> Inr (ps @ sn @ clang_options getenv @ (if k_x k then [''-x'', ''none''] else []) @ rt))"

definition clang_main ::
  "bool \<Rightarrow> environment \<Rightarrow> (string \<Rightarrow> bool) \<Rightarrow> string \<Rightarrow> string list \<Rightarrow> fatal + string list option" where
  "clang_main trace_pc getenv access AFL_PATH argv =
     (if length argv < 2 then Inr None
      else case find_obj getenv access AFL_PATH (hd argv) of
          Inl e \<Rightarrow> Inl e
        | Inr p \<Rightarrow> map_sum id Some (clang_edit_params trace_pc getenv access p argv))"

section \<open>What is passed on\<close>

text \<open>The options that the wrapper of gcc takes away are those that are not plain.\<close>

definition plain_option :: "string \<Rightarrow> bool" where
  "plain_option a \<longleftrightarrow> \<not> starts ''-B'' a \<and> a \<noteq> ''-integrated-as'' \<and> a \<noteq> ''-pipe''"

text \<open>The argument at a position is the directory of a lone \<^verbatim>\<open>-B\<close> before it.\<close>

fun operand :: "string list \<Rightarrow> nat \<Rightarrow> bool" where
  "operand args 0 = False"
| "operand args (Suc i) = (args ! i = ''-B'' \<and> \<not> operand args i)"

definition gcc_kept :: "string list \<Rightarrow> string list" where
  "gcc_kept args = nths args {i. \<not> operand args i \<and> plain_option (args ! i)}"

lemma operand_shift: "a \<noteq> ''-B'' \<Longrightarrow> operand (a # rest) (Suc i) = operand rest i"
  by (induction i) simp_all

lemma operand_skip: "operand (''-B'' # r # rest) (Suc (Suc i)) = operand rest i"
  by (induction i) simp_all

lemma gcc_kept_Cons:
  "a \<noteq> ''-B'' \<Longrightarrow> gcc_kept (a # rest) = (if plain_option a then [a] else []) @ gcc_kept rest"
proof -
  assume a: "a \<noteq> ''-B''"
  show ?thesis unfolding gcc_kept_def nths_Cons using operand_shift [OF a, of rest] by (simp del: operand.simps(2))
qed

lemma not_plain_B: "\<not> plain_option ''-B''"
  by (simp add: plain_option_def)

lemma gcc_kept_B: "gcc_kept [''-B''] = []" "gcc_kept (''-B'' # r # rest) = gcc_kept rest"
proof -
  show "gcc_kept [''-B''] = []" by (simp add: gcc_kept_def nths_singleton not_plain_B)
  have "operand (''-B'' # r # rest) (Suc 0)" by simp
  then show "gcc_kept (''-B'' # r # rest) = gcc_kept rest"
    unfolding gcc_kept_def nths_Cons using operand_skip [of r rest] by (simp add: not_plain_B del: operand.simps(2))
qed

lemma gcc_kept_Nil [simp]: "gcc_kept [] = []"
  by (simp add: gcc_kept_def)

lemma gcc_scan_kept:
  "gcc_scan args = (\<exists>a \<in> set (gcc_kept args). a = ''-fsanitize=address'' \<or> a = ''-fsanitize=memory'',
     \<exists>a \<in> set (gcc_kept args). strstr a ''FORTIFY_SOURCE'', gcc_kept args)"
proof (induction args rule: gcc_scan.induct)
  case 1
  then show ?case by simp
next
  case (2 cur rest)
  consider (alone) "cur = ''-B''" | (dir) "starts ''-B'' cur" "cur \<noteq> ''-B''"
    | (drop) "\<not> starts ''-B'' cur" "cur = ''-integrated-as'' \<or> cur = ''-pipe''"
    | (keep) "\<not> starts ''-B'' cur" "cur \<noteq> ''-integrated-as''" "cur \<noteq> ''-pipe''" by blast
  then show ?case
  proof cases
    case alone
    then have B: "starts ''-B'' cur" by simp
    have "gcc_kept (cur # rest) = gcc_kept (if cur = ''-B'' \<and> rest \<noteq> [] then tl rest else rest)"
      using alone by (cases rest) (simp_all add: gcc_kept_B)
    then show ?thesis using 2(1) [OF B] B by simp
  next
    case dir
    then have "gcc_kept (cur # rest) = gcc_kept rest" by (simp add: gcc_kept_Cons plain_option_def)
    then show ?thesis using 2(1) [OF dir(1)] dir by simp
  next
    case drop
    then have "cur \<noteq> ''-B''" "\<not> plain_option cur" by (auto simp: plain_option_def)
    then have "gcc_kept (cur # rest) = gcc_kept rest" by (simp add: gcc_kept_Cons)
    moreover have "gcc_scan (cur # rest) = gcc_scan rest" using drop by auto
    moreover have "gcc_scan rest = (\<exists>a \<in> set (gcc_kept rest). a = ''-fsanitize=address'' \<or> a = ''-fsanitize=memory'',
      \<exists>a \<in> set (gcc_kept rest). strstr a ''FORTIFY_SOURCE'', gcc_kept rest)"
      using 2(2,3) drop by blast
    ultimately show ?thesis by simp
  next
    case keep
    then have "cur \<noteq> ''-B''" "plain_option cur" by (auto simp: plain_option_def)
    then have "gcc_kept (cur # rest) = cur # gcc_kept rest" by (simp add: gcc_kept_Cons)
    then show ?thesis using 2(4) [OF keep] keep by auto
  qed
qed

lemma gcc_kept_plain: "a \<in> set (gcc_kept args) \<Longrightarrow> plain_option a"
  by (auto simp: gcc_kept_def set_nths)

lemma gcc_kept_length: "length (gcc_kept args) \<le> length args"
proof -
  have "length (nths xs I) \<le> length xs" for xs :: "string list" and I
    by (induction xs arbitrary: I) (simp_all add: nths_Cons le_SucI)
  then show ?thesis by (simp add: gcc_kept_def)
qed

lemma clang_scan_kept:
  "k_args (foldl (\<lambda>k cur. clang_scan_arg cur k) k args) =
   k_args k @ filter (\<lambda>a. a \<noteq> ''-Wl,-z,defs'' \<and> a \<noteq> ''-Wl,--no-undefined'') args"
proof (induction args arbitrary: k)
  case (Cons a args)
  have "k_args (clang_scan_arg a k) = k_args k @ (if a = ''-Wl,-z,defs'' \<or> a = ''-Wl,--no-undefined'' then [] else [a])"
    by (simp add: clang_scan_arg_def Let_def)
  then show ?case using Cons [of "clang_scan_arg a k"] by simp
qed simp

text \<open>The options that the wrappers add, all of them literals.\<close>

lemma cc_harden_plain: "(\<forall>a \<in> set (cc_harden getenv f). plain_option a) \<and> length (cc_harden getenv f) \<le> 2"
  by (simp add: cc_harden_def plain_option_def)

lemma cc_sanitize_plain: "cc_sanitize getenv = Inr sn \<Longrightarrow> (\<forall>a \<in> set sn. plain_option a) \<and> length sn \<le> 2"
  by (auto simp: cc_sanitize_def plain_option_def split: if_splits)

lemma gcc_optimize_plain: "(\<forall>a \<in> set (gcc_optimize getenv). plain_option a) \<and> length (gcc_optimize getenv) \<le> 5"
  by (simp add: gcc_optimize_def plain_option_def)

lemma gcc_no_builtin_plain: "(\<forall>a \<in> set (gcc_no_builtin getenv). plain_option a) \<and> length (gcc_no_builtin getenv) \<le> 7"
  by (simp add: gcc_no_builtin_def plain_option_def)

text \<open>Which options are added, by the environment and the arguments that are kept.\<close>

definition asks_sanitizer :: "string list \<Rightarrow> bool" where
  "asks_sanitizer args \<longleftrightarrow> ''-fsanitize=address'' \<in> set args \<or> ''-fsanitize=memory'' \<in> set args"

definition options_ok :: "environment \<Rightarrow> string list \<Rightarrow> string list \<Rightarrow> bool" where
  "options_ok getenv args opts \<longleftrightarrow>
     (''-fstack-protector-all'' \<in> set opts \<longleftrightarrow> is_set getenv ''AFL_HARDEN'') \<and>
     (''-D_FORTIFY_SOURCE=2'' \<in> set opts \<longleftrightarrow>
        is_set getenv ''AFL_HARDEN'' \<and> (\<forall>a \<in> set args. \<not> strstr a ''FORTIFY_SOURCE'')) \<and>
     (''-fsanitize=address'' \<in> set opts \<longleftrightarrow> is_set getenv ''AFL_USE_ASAN'' \<and> \<not> asks_sanitizer args) \<and>
     (''-fsanitize=memory'' \<in> set opts \<longleftrightarrow> is_set getenv ''AFL_USE_MSAN'' \<and> \<not> asks_sanitizer args) \<and>
     (''-O3'' \<in> set opts \<longleftrightarrow> \<not> is_set getenv ''AFL_DONT_OPTIMIZE'') \<and>
     (''-fno-builtin-strcmp'' \<in> set opts \<longleftrightarrow> is_set getenv ''AFL_NO_BUILTIN'')"

lemma cc_sanitize_cases:
  assumes "cc_sanitize getenv = Inr sn"
  shows "sn = (if is_set getenv ''AFL_USE_ASAN'' then [''-U_FORTIFY_SOURCE'', ''-fsanitize=address'']
      else if is_set getenv ''AFL_USE_MSAN'' then [''-U_FORTIFY_SOURCE'', ''-fsanitize=memory''] else [])"
    and "\<not> (is_set getenv ''AFL_USE_ASAN'' \<and> is_set getenv ''AFL_USE_MSAN'')"
  using assms by (auto simp: cc_sanitize_def split: if_splits)

lemma asks_ex: "asks_sanitizer args \<longleftrightarrow> (\<exists>a \<in> set args. a = ''-fsanitize=address'' \<or> a = ''-fsanitize=memory'')"
  by (auto simp: asks_sanitizer_def)

lemma gcc_params_shape:
  assumes "gcc_edit_params getenv as_path (a0 # args) = Inr (ps, env2)"
  shows "\<exists>opts. ps = gcc_compiler getenv (cc_base_name a0) # gcc_kept args @ [''-B'', as_path] @ opts \<and>
    options_ok getenv (gcc_kept args) opts \<and> (\<forall>a \<in> set opts. plain_option a) \<and>
    (''-no-integrated-as'' \<in> set opts \<longleftrightarrow> starts ''afl-clang'' (cc_base_name a0)) \<and> length ps < length args + 128"
proof -
  let ?ks = "gcc_kept args"
  let ?f = "\<exists>a \<in> set ?ks. strstr a ''FORTIFY_SOURCE''"
  define x where "x = asks_sanitizer ?ks"
  define env1 where "env1 = (if starts ''afl-clang'' (cc_base_name a0) then getenv(''__AFL_CLANG_MODE'' \<mapsto> ''1'') else getenv)"
  define front where "front = (if starts ''afl-clang'' (cc_base_name a0) then [''-no-integrated-as''] else [])"
  have scan: "gcc_scan args = (x, ?f, ?ks)" unfolding gcc_scan_kept x_def asks_ex ..
  define env3 where "env3 = (if x then env1(''AFL_USE_ASAN'' \<mapsto> ''1'') else env1)"
  obtain sn where sn: "(if x then Inr [] else cc_sanitize env1) = Inr sn"
    "ps = gcc_compiler env1 (cc_base_name a0) # ?ks @ [''-B'', as_path] @ (front @ cc_harden env1 ?f @ sn @
       gcc_optimize env3 @ gcc_no_builtin env3)"
    using assms
    unfolding gcc_edit_params_def Let_def list.sel scan prod.case env1_def [symmetric] front_def [symmetric] env3_def [symmetric]
    by (auto split: sum.splits)
  have env: "env1 v = getenv v" "is_set env1 v = is_set getenv v" if "v \<noteq> ''__AFL_CLANG_MODE''" for v
    using that by (simp_all add: env1_def is_set_def)
  have env3: "is_set env3 v = is_set getenv v" if "v \<noteq> ''__AFL_CLANG_MODE''" "v \<noteq> ''AFL_USE_ASAN''" for v
    using that by (simp add: env3_def env1_def is_set_def)
  have cc: "gcc_compiler env1 n = gcc_compiler getenv n" for n by (simp add: gcc_compiler_def env_or_def env)
  have san: "sn = (if x then [] else if is_set getenv ''AFL_USE_ASAN'' then [''-U_FORTIFY_SOURCE'', ''-fsanitize=address'']
      else if is_set getenv ''AFL_USE_MSAN'' then [''-U_FORTIFY_SOURCE'', ''-fsanitize=memory''] else [])"
    and one: "x \<or> \<not> (is_set getenv ''AFL_USE_ASAN'' \<and> is_set getenv ''AFL_USE_MSAN'')"
    using sn(1) cc_sanitize_cases [of env1 sn] by (auto simp: env split: if_split_asm)
  define opts where "opts = front @ cc_harden env1 ?f @ sn @ gcc_optimize env3 @ gcc_no_builtin env3"
  have "options_ok getenv ?ks opts"
    using one unfolding options_ok_def opts_def san x_def [symmetric]
    by (auto simp: front_def cc_harden_def gcc_optimize_def gcc_no_builtin_def env env3)
  moreover have "\<forall>a \<in> set opts. plain_option a"
  proof -
    have "\<forall>a \<in> set front. plain_option a" "\<forall>a \<in> set sn. plain_option a"
      by (auto simp: front_def san plain_option_def)
    then show ?thesis
      using cc_harden_plain [of env1 ?f] gcc_optimize_plain [of env3] gcc_no_builtin_plain [of env3]
      unfolding opts_def set_append ball_Un by blast
  qed
  moreover have "''-no-integrated-as'' \<in> set opts \<longleftrightarrow> starts ''afl-clang'' (cc_base_name a0)"
    unfolding opts_def san by (simp add: front_def cc_harden_def gcc_optimize_def gcc_no_builtin_def)
  moreover have "length opts \<le> 17"
    unfolding opts_def san by (simp add: front_def cc_harden_def gcc_optimize_def gcc_no_builtin_def)
  moreover have "ps = gcc_compiler getenv (cc_base_name a0) # ?ks @ [''-B'', as_path] @ opts" using sn(2) by (simp only: cc opts_def)
  ultimately show ?thesis using gcc_kept_length [of args] by (intro exI [of _ opts]) simp
qed

lemma clang_scan_flags:
  "k_bits (foldl (\<lambda>k cur. clang_scan_arg cur k) k args) \<in> {k_bits k, 32, 64}"
  "k_x (foldl (\<lambda>k cur. clang_scan_arg cur k) k args) \<longleftrightarrow> k_x k \<or> ''-x'' \<in> set args"
  "k_asan (foldl (\<lambda>k cur. clang_scan_arg cur k) k args) \<longleftrightarrow> k_asan k \<or> asks_sanitizer args"
  "k_fortify (foldl (\<lambda>k cur. clang_scan_arg cur k) k args) \<longleftrightarrow> k_fortify k \<or> (\<exists>a \<in> set args. strstr a ''FORTIFY_SOURCE'')"
  "''-m32'' \<notin> set args \<Longrightarrow> ''armv7a-linux-androideabi'' \<notin> set args \<Longrightarrow> ''-m64'' \<notin> set args \<Longrightarrow>
     k_bits (foldl (\<lambda>k cur. clang_scan_arg cur k) k args) = k_bits k"
proof (induction args arbitrary: k)
  case Nil
  { case 1 show ?case by simp }
  { case 2 show ?case by simp }
  { case 3 show ?case by (simp add: asks_sanitizer_def) }
  { case 4 show ?case by simp }
  { case 5 show ?case by simp }
next
  case (Cons a args)
  have step: "foldl (\<lambda>k cur. clang_scan_arg cur k) k (a # args) =
      foldl (\<lambda>k cur. clang_scan_arg cur k) (clang_scan_arg a k) args" for k
    by simp
  have k: "k_bits (clang_scan_arg a k) = (if a = ''-m32'' then 32 else if a = ''armv7a-linux-androideabi'' then 32
      else if a = ''-m64'' then 64 else k_bits k)"
    "k_x (clang_scan_arg a k) = (k_x k \<or> a = ''-x'')"
    "k_asan (clang_scan_arg a k) = (k_asan k \<or> a = ''-fsanitize=address'' \<or> a = ''-fsanitize=memory'')"
    "k_fortify (clang_scan_arg a k) = (k_fortify k \<or> strstr a ''FORTIFY_SOURCE'')" for k
    by (simp_all add: clang_scan_arg_def Let_def)
  { case (1 k)
    have "k_bits (clang_scan_arg a k) \<in> {k_bits k, 32, 64}" by (simp add: k(1))
    then show ?case unfolding step using Cons(1) [of "clang_scan_arg a k"] by auto }
  { case 2 show ?case unfolding step Cons(2) k(2) by auto }
  { case 3 show ?case unfolding step Cons(3) k(3) by (auto simp: asks_sanitizer_def) }
  { case 4 show ?case unfolding step Cons(4) k(4) by auto }
  { case (5 k) then show ?case using Cons(5) [of "clang_scan_arg a k"] unfolding step k(1) by auto }
qed

lemma clang_params_shape:
  assumes "clang_edit_params trace_pc getenv access obj_path (a0 # args) = Inr ps"
  shows "\<exists>opts rt. ps = clang_compiler getenv (cc_base_name a0) # clang_front trace_pc obj_path @
      filter (\<lambda>a. a \<noteq> ''-Wl,-z,defs'' \<and> a \<noteq> ''-Wl,--no-undefined'') args @ opts @
      (if ''-x'' \<in> set args then [''-x'', ''none''] else []) @ [obj_path @ rt] \<and>
    options_ok getenv args opts \<and>
    rt \<in> {''/afl-llvm-rt.o'', ''/afl-llvm-rt-32.o'', ''/afl-llvm-rt-64.o''} \<and>
    (rt \<noteq> ''/afl-llvm-rt.o'' \<longrightarrow> access (obj_path @ rt)) \<and>
    (''-m32'' \<notin> set args \<and> ''armv7a-linux-androideabi'' \<notin> set args \<and> ''-m64'' \<notin> set args \<longrightarrow> rt = ''/afl-llvm-rt.o'') \<and>
    length ps < length args + 128"
proof -
  define k where "k = clang_scan_args args"
  note flags = clang_scan_flags [where k = "\<lparr>k_bits = 0, k_x = False, k_asan = False, k_fortify = False, k_args = []\<rparr>" and args = args,
      folded clang_scan_args_def, folded k_def, simplified]
  have kept: "k_args k = filter (\<lambda>a. a \<noteq> ''-Wl,-z,defs'' \<and> a \<noteq> ''-Wl,--no-undefined'') args"
    unfolding k_def clang_scan_args_def clang_scan_kept by simp
  obtain sn rts where r: "(if k_asan k then Inr [] else cc_sanitize getenv) = Inr sn"
    "clang_runtime access obj_path (k_bits k) = Inr rts"
    "ps = clang_compiler getenv (cc_base_name a0) # clang_front trace_pc obj_path @ k_args k @ (cc_harden getenv (k_fortify k) @
       sn @ clang_options getenv) @ (if k_x k then [''-x'', ''none''] else []) @ rts"
    using assms unfolding clang_edit_params_def Let_def
    by (auto simp: k_def [symmetric] split: sum.splits if_splits)
  define opts where "opts = cc_harden getenv (k_fortify k) @ sn @ clang_options getenv"
  have san: "sn = (if asks_sanitizer args then [] else if is_set getenv ''AFL_USE_ASAN'' then [''-U_FORTIFY_SOURCE'', ''-fsanitize=address'']
      else if is_set getenv ''AFL_USE_MSAN'' then [''-U_FORTIFY_SOURCE'', ''-fsanitize=memory''] else [])"
    and one: "asks_sanitizer args \<or> \<not> (is_set getenv ''AFL_USE_ASAN'' \<and> is_set getenv ''AFL_USE_MSAN'')"
    using r(1) cc_sanitize_cases [of getenv sn] flags(3) by (auto split: if_split_asm)
  have macros: "AFL_LOOP_MACRO = CHR ''-'' # CHR ''D'' # CHR ''_'' # CHR ''_'' # drop 4 AFL_LOOP_MACRO"
    "AFL_INIT_MACRO = CHR ''-'' # CHR ''D'' # CHR ''_'' # CHR ''_'' # drop 4 AFL_INIT_MACRO"
    by (simp_all add: AFL_LOOP_MACRO_def AFL_INIT_MACRO_def)
  have "AFL_LOOP_MACRO \<noteq> ''-D_FORTIFY_SOURCE=2''" "AFL_INIT_MACRO \<noteq> ''-D_FORTIFY_SOURCE=2''"
    "AFL_LOOP_MACRO \<noteq> ''-O3''" "AFL_INIT_MACRO \<noteq> ''-O3''"
    "AFL_LOOP_MACRO \<noteq> ''-fstack-protector-all''" "AFL_INIT_MACRO \<noteq> ''-fstack-protector-all''"
    "AFL_LOOP_MACRO \<noteq> ''-fsanitize=address''" "AFL_INIT_MACRO \<noteq> ''-fsanitize=address''"
    "AFL_LOOP_MACRO \<noteq> ''-fsanitize=memory''" "AFL_INIT_MACRO \<noteq> ''-fsanitize=memory''"
    "AFL_LOOP_MACRO \<noteq> ''-fno-builtin-strcmp''" "AFL_INIT_MACRO \<noteq> ''-fno-builtin-strcmp''"
    by (subst macros; simp)+
  note macros = this this [symmetric]
  have "options_ok getenv args opts"
    using one unfolding options_ok_def opts_def san
    by (auto simp: cc_harden_def clang_options_def macros flags(4))
  moreover obtain rt where rt: "rts = [obj_path @ rt]" "rt \<in> {''/afl-llvm-rt.o'', ''/afl-llvm-rt-32.o'', ''/afl-llvm-rt-64.o''}"
    "rt \<noteq> ''/afl-llvm-rt.o'' \<longrightarrow> access (obj_path @ rt)"
    "''-m32'' \<notin> set args \<and> ''armv7a-linux-androideabi'' \<notin> set args \<and> ''-m64'' \<notin> set args \<longrightarrow> rt = ''/afl-llvm-rt.o''"
    using r(2) flags(1,5) unfolding clang_runtime_def by (auto split: if_splits)
  moreover have "length ps < length args + 128"
  proof -
    have "length sn \<le> 2" by (simp add: san)
    moreover have "length (clang_front trace_pc obj_path) \<le> 5" by (simp add: clang_front_def)
    moreover have "length (clang_options getenv) \<le> 13" by (simp add: clang_options_def)
    moreover have "length (k_args k) \<le> length args" unfolding kept by (rule length_filter_le)
    ultimately show ?thesis using r(3) rt(1) cc_harden_plain [of getenv "k_fortify k"] by simp
  qed
  ultimately show ?thesis
    using r(3) flags(2) by (intro exI [of _ opts] exI [of _ rt]) (simp add: opts_def kept)
qed


definition demo_env :: environment where
  "demo_env = (\<lambda>v. None)(''AFL_HARDEN'' \<mapsto> ''1'')"


end
