(* ===== verification/Afl_Start.thy ===== *)
theory Afl_Start
  imports Afl_Score Afl_Cc
begin

text \<open>
  The start of \<^verbatim>\<open>afl-fuzz\<close>: the command line and the environment, the names it derives from them, the
  search for the target and the look at its binary, the initial inputs, and the statistics file with what a
  resumed session reads from it.  \<^verbatim>\<open>getopt\<close> and the file system are parameters.
\<close>

section \<open>Numbers on the command line\<close>

text \<open>A string up to its terminator, for the parts of the library that stop there.\<close>

definition c_digit :: "char \<Rightarrow> bool" where "c_digit c \<longleftrightarrow> c \<in> set ''0123456789''"
definition c_space :: "char \<Rightarrow> bool" where "c_space c \<longleftrightarrow> c \<in> {CHR '' '', CHR 0x09, CHR 0x0A, CHR 0x0B, CHR 0x0C, CHR 0x0D}"

definition digits_nat :: "string \<Rightarrow> nat" where
  "digits_nat ds = foldl (\<lambda>v d. 10 * v + (of_char d - 48)) 0 ds"

text \<open>\<^verbatim>\<open>%llu\<close>: the value, clipped at the largest one and negated after a minus sign, and what follows.\<close>

definition scan_llu :: "string \<Rightarrow> (u64 \<times> string) option" where
  "scan_llu s =
     (let s1 = dropWhile c_space s;
          neg = (s1 \<noteq> [] \<and> hd s1 = CHR ''-'');
          s2 = (if s1 \<noteq> [] \<and> (hd s1 = CHR ''-'' \<or> hd s1 = CHR ''+'') then tl s1 else s1);
          ds = takeWhile c_digit s2;
          v = digits_nat ds
      in if ds = [] then None
         else Some (if v \<ge> 2 ^ 64 then - 1 else if neg then - of_nat v else of_nat v, drop (length ds) s2))"

text \<open>\<^verbatim>\<open>%u%c\<close> and \<^verbatim>\<open>%llu%c\<close>; \<^verbatim>\<open>%u\<close> keeps the low 32 bits.\<close>

definition scan_llu_c :: "char \<Rightarrow> string \<Rightarrow> (u64 \<times> char) option" where
  "scan_llu_c dflt s = do { (v, r) \<leftarrow> scan_llu s; Some (v, if r = [] then dflt else hd r) }"

definition scan_u_c :: "char \<Rightarrow> string \<Rightarrow> (u32 \<times> char) option" where
  "scan_u_c dflt s = do { (v, r) \<leftarrow> scan_llu_c dflt s; Some (ucast v, r) }"

definition scan_u_u :: "string \<Rightarrow> (u32 \<times> u32) option" where
  "scan_u_u s = do { (v, r) \<leftarrow> scan_llu s;
                     r1 \<leftarrow> (case r of c # r1 \<Rightarrow> if c = CHR ''/'' then Some r1 else None | [] \<Rightarrow> None);
                     (v2, _) \<leftarrow> scan_llu r1; Some (ucast v, ucast v2) }"

section \<open>Options\<close>

record fuzz_opts =
  o_in_dir :: "string option"
  o_out_dir :: "string option"
  o_sync_id :: "string option"
  o_sync_dir :: "string option"
  o_out_file :: "string option"
  o_extras_dir :: "string option"
  o_banner :: "string option"
  o_bitmap :: "string option"
  o_in_place :: bool
  o_force_det :: bool
  o_skip_det :: bool
  o_splicing :: bool
  o_crash :: bool
  o_dumb :: nat
  o_qemu :: bool
  o_no_dfg :: bool
  o_timeout_given :: nat
  o_mem_given :: bool
  o_master_id :: u32
  o_master_max :: u32
  o_exec_tmout :: u32
  o_hang_tmout :: u32
  o_mem_limit :: u64
  o_t_x :: u32

datatype start_end = Start_fatal string | Start_pfatal string | Start_usage

text \<open>The argument of \<^verbatim>\<open>-m\<close>.\<close>

definition parse_mem_limit :: "string \<Rightarrow> start_end + u64" where
  "parse_mem_limit arg =
     (if arg = ''none'' then Inr 0
      else case scan_llu_c (CHR ''M'') arg of
          None \<Rightarrow> Inl (Start_fatal ''Bad syntax used for -m'')
        | Some (v, sfx) \<Rightarrow>
            if arg \<noteq> [] \<and> hd arg = CHR ''-'' then Inl (Start_fatal ''Bad syntax used for -m'')
            else if sfx \<notin> {CHR ''T'', CHR ''G'', CHR ''k'', CHR ''M''}
            then Inl (Start_fatal ''Unsupported suffix or bad syntax for -m'')
            else
              let m = (if sfx = CHR ''T'' then v * (1024 * 1024) else if sfx = CHR ''G'' then v * 1024
                       else if sfx = CHR ''k'' then v div 1024 else v)
              in if m < 5 then Inl (Start_fatal ''Dangerously low value of -m'') else Inr m)"

definition MEM_LIMIT_QEMU :: u64 where "MEM_LIMIT_QEMU = 200"

definition opt_master :: "string \<Rightarrow> fuzz_opts \<Rightarrow> start_end + fuzz_opts" where
  "opt_master arg cf =
     (if o_sync_id cf \<noteq> None then Inl (Start_fatal ''Multiple -S or -M options not supported'')
      else
        let nm = takeWhile (\<lambda>c. c \<noteq> CHR '':'') arg; o1 = cf\<lparr>o_sync_id := Some nm, o_force_det := True\<rparr>
        in if CHR '':'' \<notin> set arg then Inr o1
           else case scan_u_u (drop (length nm + 1) arg) of
               None \<Rightarrow> Inl (Start_fatal ''Bogus master ID passed to -M'')
             | Some (m, mx) \<Rightarrow>
                 if m = 0 \<or> mx = 0 \<or> m > mx \<or> mx > 1000000
                 then Inl (Start_fatal ''Bogus master ID passed to -M'')
                 else Inr (o1\<lparr>o_master_id := m, o_master_max := mx\<rparr>))"

definition opt_timeout :: "string \<Rightarrow> fuzz_opts \<Rightarrow> start_end + fuzz_opts" where
  "opt_timeout arg cf =
     (if o_timeout_given cf \<noteq> 0 then Inl (Start_fatal ''Multiple -t options not supported'')
      else case scan_u_c (CHR 0x00) arg of
          None \<Rightarrow> Inl (Start_fatal ''Bad syntax used for -t'')
        | Some (v, sfx) \<Rightarrow>
            if arg \<noteq> [] \<and> hd arg = CHR ''-'' then Inl (Start_fatal ''Bad syntax used for -t'')
            else if v < 5 then Inl (Start_fatal ''Dangerously low value of -t'')
            else Inr (cf\<lparr>o_exec_tmout := v, o_timeout_given := (if sfx = CHR ''+'' then 2 else 1)\<rparr>))"

definition opt_cut_off :: "string \<Rightarrow> fuzz_opts \<Rightarrow> start_end + fuzz_opts" where
  "opt_cut_off arg cf =
     (case scan_u_c (CHR ''m'') arg of
        None \<Rightarrow> Inl (Start_fatal ''Bad syntax used for -c'')
      | Some (v, sfx) \<Rightarrow>
          if arg \<noteq> [] \<and> hd arg = CHR ''-'' then Inl (Start_fatal ''Bad syntax used for -c'')
          else if sfx = CHR ''s'' then Inr (cf\<lparr>o_t_x := v div 60\<rparr>)
          else if sfx = CHR ''m'' then Inr (cf\<lparr>o_t_x := v\<rparr>)
          else if sfx = CHR ''h'' then Inr (cf\<lparr>o_t_x := v * 60\<rparr>)
          else if sfx = CHR ''d'' then Inr (cf\<lparr>o_t_x := v * (60 * 24)\<rparr>)
          else Inl (Start_fatal ''Unsupported suffix or bad syntax for -c''))"

text \<open>One option; \<open>dumb_forksrv\<close> says whether \<^verbatim>\<open>AFL_DUMB_FORKSRV\<close> is set.\<close>

definition fuzz_opt :: "environment \<Rightarrow> char \<Rightarrow> string \<Rightarrow> fuzz_opts \<Rightarrow> start_end + fuzz_opts" where
  "fuzz_opt getenv c arg cf =
     (if c = CHR ''i'' then
        (if o_in_dir cf \<noteq> None then Inl (Start_fatal ''Multiple -i options not supported'')
         else Inr (cf\<lparr>o_in_dir := Some arg, o_in_place := (arg = ''-'')\<rparr>))
      else if c = CHR ''o'' then
        (if o_out_dir cf \<noteq> None then Inl (Start_fatal ''Multiple -o options not supported'') else Inr (cf\<lparr>o_out_dir := Some arg\<rparr>))
      else if c = CHR ''M'' then opt_master arg cf
      else if c = CHR ''S'' then
        (if o_sync_id cf \<noteq> None then Inl (Start_fatal ''Multiple -S or -M options not supported'') else Inr (cf\<lparr>o_sync_id := Some arg\<rparr>))
      else if c = CHR ''f'' then
        (if o_out_file cf \<noteq> None then Inl (Start_fatal ''Multiple -f options not supported'') else Inr (cf\<lparr>o_out_file := Some arg\<rparr>))
      else if c = CHR ''x'' then
        (if o_extras_dir cf \<noteq> None then Inl (Start_fatal ''Multiple -x options not supported'') else Inr (cf\<lparr>o_extras_dir := Some arg\<rparr>))
      else if c = CHR ''t'' then opt_timeout arg cf
      else if c = CHR ''m'' then
        (if o_mem_given cf then Inl (Start_fatal ''Multiple -m options not supported'')
         else map_sum id (\<lambda>m. cf\<lparr>o_mem_given := True, o_mem_limit := m\<rparr>) (parse_mem_limit arg))
      else if c = CHR ''d'' then
        (if o_skip_det cf then Inl (Start_fatal ''Multiple -d options not supported'') else Inr (cf\<lparr>o_skip_det := True, o_splicing := True\<rparr>))
      else if c = CHR ''B'' then
        (if o_bitmap cf \<noteq> None then Inl (Start_fatal ''Multiple -B options not supported'') else Inr (cf\<lparr>o_bitmap := Some arg\<rparr>))
      else if c = CHR ''C'' then
        (if o_crash cf then Inl (Start_fatal ''Multiple -C options not supported'') else Inr (cf\<lparr>o_crash := True\<rparr>))
      else if c = CHR ''n'' then
        (if o_dumb cf \<noteq> 0 then Inl (Start_fatal ''Multiple -n options not supported'')
         else Inr (cf\<lparr>o_dumb := (if is_set getenv ''AFL_DUMB_FORKSRV'' then 2 else 1)\<rparr>))
      else if c = CHR ''T'' then
        (if o_banner cf \<noteq> None then Inl (Start_fatal ''Multiple -T options not supported'') else Inr (cf\<lparr>o_banner := Some arg\<rparr>))
      else if c = CHR ''Q'' then
        (if o_qemu cf then Inl (Start_fatal ''Multiple -Q options not supported'')
         else Inr (cf\<lparr>o_qemu := True, o_mem_limit := (if \<not> o_mem_given cf then MEM_LIMIT_QEMU else o_mem_limit cf)\<rparr>))
      else if c = CHR ''N'' then Inr (cf\<lparr>o_no_dfg := True\<rparr>)
      else if c = CHR ''c'' then opt_cut_off arg cf
      else Inl Start_usage)"

fun fuzz_opt_loop :: "environment \<Rightarrow> (char \<times> string) list \<Rightarrow> fuzz_opts \<Rightarrow> start_end + fuzz_opts" where
  "fuzz_opt_loop getenv [] cf = Inr cf"
| "fuzz_opt_loop getenv ((c, arg) # opts) cf =
     (case fuzz_opt getenv c arg cf of Inl e \<Rightarrow> Inl e | Inr o1 \<Rightarrow> fuzz_opt_loop getenv opts o1)"

section \<open>Checks after the options\<close>

definition c_alnum :: "char \<Rightarrow> bool" where
  "c_alnum c \<longleftrightarrow> c_digit c \<or> c \<in> set ''ABCDEFGHIJKLMNOPQRSTUVWXYZabcdefghijklmnopqrstuvwxyz''"

definition fix_up_sync :: "string \<Rightarrow> fuzz_opts \<Rightarrow> start_end + fuzz_opts" where
  "fix_up_sync sid cf =
     (if o_dumb cf \<noteq> 0 then Inl (Start_fatal ''-S / -M and -n are mutually exclusive'')
      else if o_skip_det cf then
        Inl (Start_fatal (if o_force_det cf then ''use -S instead of -M -d'' else ''-S already implies -d''))
      else if \<not> list_all (\<lambda>c. c_alnum c \<or> c = CHR ''_'' \<or> c = CHR ''-'') sid
      then Inl (Start_fatal ''Non-alphanumeric fuzzer ID specified via -S or -M'')
      else if length sid > 32 then Inl (Start_fatal ''Fuzzer ID too long'')
      else
        let o1 = cf\<lparr>o_sync_dir := o_out_dir cf, o_out_dir := map_option (\<lambda>d. d @ ''/'' @ sid) (o_out_dir cf)\<rparr>
        in Inr (if \<not> o_force_det cf then o1\<lparr>o_skip_det := True, o_splicing := True\<rparr> else o1))"

text \<open>Of the checks of \<^verbatim>\<open>check_asan_opts\<close>.\<close>

definition check_asan_opts :: "environment \<Rightarrow> start_end + unit" where
  "check_asan_opts getenv =
     (case getenv ''ASAN_OPTIONS'' of
        Some x \<Rightarrow> if \<not> strstr x ''abort_on_error=1'' then Inl (Start_fatal ''Custom ASAN_OPTIONS set without abort_on_error=1 - please fix!'')
                  else if \<not> strstr x ''symbolize=0'' then Inl (Start_fatal ''Custom ASAN_OPTIONS set without symbolize=0 - please fix!'')
                  else Inr ()
      | None \<Rightarrow> Inr ())"

definition check_msan_opts :: "environment \<Rightarrow> start_end + unit" where
  "check_msan_opts getenv =
     (case getenv ''MSAN_OPTIONS'' of
        Some x \<Rightarrow> if \<not> strstr x ''exit_code=86'' then Inl (Start_fatal ''Custom MSAN_OPTIONS set without exit_code=86 - please fix!'')
                  else if \<not> strstr x ''symbolize=0'' then Inl (Start_fatal ''Custom MSAN_OPTIONS set without symbolize=0 - please fix!'')
                  else Inr ()
      | None \<Rightarrow> Inr ())"

text \<open>\<^verbatim>\<open>atoi\<close> on characters.\<close>

definition c_atoi :: "string \<Rightarrow> u32" where "c_atoi s = atoi (map of_char s)"

text \<open>What the environment switches.\<close>

record env_flags =
  e_no_forkserver :: bool
  e_no_arith :: bool
  e_shuffle :: bool
  e_fast_cal :: bool

definition env_flags_of :: "environment \<Rightarrow> env_flags" where
  "env_flags_of getenv = \<lparr>e_no_forkserver = is_set getenv ''AFL_NO_FORKSRV'', e_no_arith = is_set getenv ''AFL_NO_ARITH'',
     e_shuffle = is_set getenv ''AFL_SHUFFLE_QUEUE'', e_fast_cal = is_set getenv ''AFL_FAST_CAL''\<rparr>"

definition check_options :: "environment \<Rightarrow> fuzz_opts \<Rightarrow> start_end + fuzz_opts" where
  "check_options getenv cf =
     (if o_in_dir cf = o_out_dir cf then Inl (Start_fatal ''Input and output directories can't be the same'')
      else if o_dumb cf \<noteq> 0 \<and> o_crash cf then Inl (Start_fatal ''-C and -n are mutually exclusive'')
      else if o_dumb cf \<noteq> 0 \<and> o_qemu cf then Inl (Start_fatal ''-Q and -n are mutually exclusive'')
      else case (case getenv ''AFL_HANG_TMOUT'' of Some x \<Rightarrow> c_atoi x | None \<Rightarrow> o_hang_tmout cf) of
          h \<Rightarrow>
            if is_set getenv ''AFL_HANG_TMOUT'' \<and> h = 0 then Inl (Start_fatal ''Invalid value of AFL_HANG_TMOUT'')
            else if o_dumb cf = 2 \<and> is_set getenv ''AFL_NO_FORKSRV''
            then Inl (Start_fatal ''AFL_DUMB_FORKSRV and AFL_NO_FORKSRV are mutually exclusive'')
            else if is_set getenv ''AFL_LD_PRELOAD'' then Inl (Start_fatal ''Use AFL_PRELOAD instead of AFL_LD_PRELOAD'')
            else Inr (cf\<lparr>o_hang_tmout := h\<rparr>))"

text \<open>From the command line to the checked options: \<open>opts\<close> and \<open>rest\<close> are what \<^verbatim>\<open>getopt\<close> makes of it.\<close>

definition parse_command_line ::
  "environment \<Rightarrow> (char \<times> string) list \<Rightarrow> string list \<Rightarrow> fuzz_opts \<Rightarrow> start_end + fuzz_opts" where
  "parse_command_line getenv opts rest o0 =
     (case fuzz_opt_loop getenv opts o0 of
        Inl e \<Rightarrow> Inl e
      | Inr o1 \<Rightarrow>
          if rest = [] \<or> o_in_dir o1 = None \<or> o_out_dir o1 = None then Inl Start_usage
          else case check_asan_opts getenv of Inl e \<Rightarrow> Inl e | Inr _ \<Rightarrow>
            (case check_msan_opts getenv of Inl e \<Rightarrow> Inl e | Inr _ \<Rightarrow>
              (case (case o_sync_id o1 of Some sid \<Rightarrow> fix_up_sync sid o1 | None \<Rightarrow> Inr o1) of
                 Inl e \<Rightarrow> Inl e
               | Inr o2 \<Rightarrow> check_options getenv o2)))"

section \<open>Names\<close>

definition fix_up_banner :: "string \<Rightarrow> fuzz_opts \<Rightarrow> string" where
  "fix_up_banner nm cf =
     (let b = (case o_banner cf of Some b \<Rightarrow> b | None \<Rightarrow>
                 (case o_sync_id cf of Some s \<Rightarrow> s | None \<Rightarrow> cc_base_name nm))
      in if length b > 40 then take 40 b @ ''...'' else b)"

fun save_cmdline :: "string list \<Rightarrow> string" where
  "save_cmdline [] = []"
| "save_cmdline [a] = a"
| "save_cmdline (a # b # as) = a @ '' '' @ save_cmdline (b # as)"

text \<open>The first \<^verbatim>\<open>@@\<close> of an argument.\<close>

fun split_at_at :: "string \<Rightarrow> (string \<times> string) option" where
  "split_at_at (a # b # s) =
     (if a = CHR ''@'' \<and> b = CHR ''@'' then Some ([], s)
      else map_option (\<lambda>(p, q). (a # p, q)) (split_at_at (b # s)))"
| "split_at_at _ = None"

definition full_path :: "string \<Rightarrow> string \<Rightarrow> string" where
  "full_path cwd f = (if f \<noteq> [] \<and> hd f = CHR ''/'' then f else cwd @ ''/'' @ f)"

text \<open>The file for the input, and the new arguments.\<close>

fun detect_file_args ::
  "string \<Rightarrow> string \<Rightarrow> string list \<Rightarrow> string option \<Rightarrow> string option \<times> string list" where
  "detect_file_args cwd out_dir [] f = (f, [])"
| "detect_file_args cwd out_dir (a # as) f =
     (case split_at_at a of
        None \<Rightarrow> (let (f1, bs) = detect_file_args cwd out_dir as f in (f1, a # bs))
      | Some (p, q) \<Rightarrow>
          let g = (case f of Some g \<Rightarrow> g | None \<Rightarrow> out_dir @ ''/.cur_input'');
              (f1, bs) = detect_file_args cwd out_dir as (Some g)
          in (f1, (p @ full_path cwd g @ q) # bs))"

section \<open>The target\<close>

text \<open>What \<^verbatim>\<open>stat\<close> says of a path, as far as it is looked at: whether it is a regular file that can be
  executed by anyone, and its size.\<close>

type_synonym stats = "string \<Rightarrow> (bool \<times> nat) option"

definition program_at :: "stats \<Rightarrow> string \<Rightarrow> bool" where
  "program_at st p = (case st p of Some (x, n) \<Rightarrow> x \<and> 4 \<le> n | None \<Rightarrow> False)"

text \<open>The elements of \<^verbatim>\<open>PATH\<close>; an empty one stands for the current directory.\<close>

function path_elems :: "string \<Rightarrow> string list" where
  "path_elems p =
     (let e = takeWhile (\<lambda>c. c \<noteq> CHR '':'') p
      in if CHR '':'' \<in> set p then e # path_elems (drop (length e + 1) p) else [e])"
  by pat_completeness auto
termination by (relation "measure length") (auto simp: length_greater_0_conv intro: diff_less)

declare path_elems.simps [simp del]

definition find_program :: "environment \<Rightarrow> stats \<Rightarrow> string \<Rightarrow> start_end + string" where
  "find_program getenv st fname =
     (let cands = (case (CHR ''/'' \<in> set fname, getenv ''PATH'') of
                     (False, Some p) \<Rightarrow> map (\<lambda>e. if e \<noteq> [] then e @ ''/'' @ fname else fname) (path_elems p)
                   | _ \<Rightarrow> [fname])
      in case filter (program_at st) cands of
           [] \<Rightarrow> Inl (Start_fatal ''Program not found or not executable'')
         | p # _ \<Rightarrow> Inr p)"

text \<open>\<^verbatim>\<open>memmem\<close>.\<close>

fun memmem :: "u8 list \<Rightarrow> u8 list \<Rightarrow> bool" where
  "memmem [] pat = (pat = [])"
| "memmem (b # bs) pat = (take (length pat) (b # bs) = pat \<or> memmem bs pat)"

definition c_bytes :: "string \<Rightarrow> u8 list" where "c_bytes s = map of_char s"

record binary_info =
  b_asan :: bool
  b_persistent :: bool
  b_deferred :: bool

definition SHM_ENV_VAR :: string where "SHM_ENV_VAR = ''__AFL_SHM_ID''"

definition in_tmp :: "string \<Rightarrow> bool" where
  "in_tmp p \<longleftrightarrow> (starts ''/tmp/'' p \<and> CHR ''/'' \<notin> set (drop 5 p)) \<or>
     (starts ''/var/tmp/'' p \<and> CHR ''/'' \<notin> set (drop 9 p))"

text \<open>\<open>content\<close> is what the file holds, if it can be opened; \<open>Inr None\<close> is a check that is skipped.\<close>

definition check_binary ::
  "environment \<Rightarrow> stats \<Rightarrow> (string \<Rightarrow> u8 list option) \<Rightarrow> bool \<Rightarrow> bool \<Rightarrow> string \<Rightarrow>
   start_end + string \<times> binary_info option" where
  "check_binary getenv st content qemu dumb fname =
     (case find_program getenv st fname of
        Inl e \<Rightarrow> Inl e
      | Inr path \<Rightarrow>
          if is_set getenv ''AFL_SKIP_BIN_CHECK'' then Inr (path, None)
          else if in_tmp path then Inl (Start_fatal ''Please don't keep binaries in /tmp or /var/tmp'')
          else case content path of
              None \<Rightarrow> Inl (Start_pfatal ''Unable to open'')
            | Some f \<Rightarrow>
                let marked = memmem f (c_bytes SHM_ENV_VAR @ [0])
                in if take 2 f = [35, 33] then Inl (Start_fatal ''Program is a shell script'')
                   else if take 4 f \<noteq> [0x7f, 69, 76, 70] then Inl (Start_fatal ''Program is not an ELF binary'')
                   else if \<not> qemu \<and> \<not> dumb \<and> \<not> marked then Inl (Start_fatal ''No instrumentation detected'')
                   else if qemu \<and> marked then Inl (Start_fatal ''Instrumentation found in -Q mode'')
                   else Inr (path, Some \<lparr>b_asan = (memmem f (c_bytes ''libasan.so'') \<or> memmem f (c_bytes ''__msan_init'')),
                              b_persistent = memmem f (c_bytes PERSIST_SIG @ [0]),
                              b_deferred = memmem f (c_bytes DEFER_SIG @ [0])\<rparr>))"

text \<open>The new target and its arguments, for \<open>target\<close> the path found before; \<open>missing\<close> is the message when
  there is no emulator.\<close>

definition qemu_argv ::
  "string \<Rightarrow> environment \<Rightarrow> (string \<Rightarrow> bool) \<Rightarrow> string \<Rightarrow> string \<Rightarrow> string \<Rightarrow> string list \<Rightarrow> start_end + string \<times> string list" where
  "qemu_argv missing getenv access BIN_PATH own_loc target argv =
     (let result = (\<lambda>cp. Inr (cp, cp # ''--'' # target # tl argv));
          usual = (if access (BIN_PATH @ ''/afl-qemu-trace'') then result (BIN_PATH @ ''/afl-qemu-trace'')
                   else Inl (Start_fatal missing))
      in case getenv ''AFL_PATH'' of
           Some tmp \<Rightarrow> if access (tmp @ ''/afl-qemu-trace'') then result (tmp @ ''/afl-qemu-trace'')
                       else Inl (Start_fatal ''Unable to find'')
         | None \<Rightarrow>
             (case dir_name own_loc of
                Some d \<Rightarrow> if access (d @ ''/afl-qemu-trace'') then result (d @ ''/afl-qemu-trace'') else usual
              | None \<Rightarrow> usual))"

definition get_qemu_argv ::
  "environment \<Rightarrow> (string \<Rightarrow> bool) \<Rightarrow> string \<Rightarrow> string \<Rightarrow> string \<Rightarrow> string list \<Rightarrow> start_end + string \<times> string list" where
  "get_qemu_argv = qemu_argv ''Failed to locate 'afl-qemu-trace'.''"

section \<open>Initial inputs\<close>

text \<open>\<^verbatim>\<open>cnt - 2\<close> is a 32-bit number: the loop is for at least two pointers, and never moves the last two apart.\<close>

fun shuffle_loop ::
  "nat \<Rightarrow> nat \<Rightarrow> 'w world_scheme \<Rightarrow> 'b list \<Rightarrow> 'a extras_state_scheme \<Rightarrow> ('b list \<times> 'a extras_state_scheme) option" where
  "shuffle_loop 0 i w ptrs s = Some (ptrs, s)"
| "shuffle_loop (Suc n) i w ptrs s =
     do { (r, s1) \<leftarrow> UR w (of_nat (length ptrs) - of_nat i) s;
          let j = i + unat r;
          a \<leftarrow> get_at ptrs i;
          b \<leftarrow> get_at ptrs j;
          p1 \<leftarrow> set_at ptrs i b;
          p2 \<leftarrow> set_at p1 j a;
          shuffle_loop n (i + 1) w p2 s1 }"

definition shuffle_ptrs ::
  "'w world_scheme \<Rightarrow> 'b list \<Rightarrow> 'a extras_state_scheme \<Rightarrow> ('b list \<times> 'a extras_state_scheme) option" where
  "shuffle_ptrs w ptrs s = shuffle_loop (unat (of_nat (length ptrs) - 2 :: u32)) 0 w ptrs s"

text \<open>A name in the directory: whether it can be accessed, is a regular file, its size, and whether the
  mark of the deterministic stages exists for it.\<close>

record dir_entry =
  d_name :: string
  d_access :: bool
  d_regular :: bool
  d_size :: nat
  d_det_done :: bool

definition MAX_FILE_start :: nat where "MAX_FILE_start = 1024 * 1024"

fun read_entries ::
  "'w fuzz_world_scheme \<Rightarrow> string \<Rightarrow> dir_entry list \<Rightarrow> 'a fuzz_state_scheme \<Rightarrow> (start_end + 'a fuzz_state_scheme) option" where
  "read_entries w in_dir [] s = Some (Inr s)"
| "read_entries w in_dir (d # ds) s =
     (let fn = in_dir @ ''/'' @ d_name d
      in if \<not> d_access d then Some (Inl (Start_pfatal ''Unable to access''))
         else if \<not> d_regular d \<or> d_size d = 0 \<or> strstr fn ''/README.txt'' then read_entries w in_dir ds s
         else if d_size d > MAX_FILE_start then Some (Inl (Start_fatal ''Test case is too big''))
         else do {
           let (now, s1) = get_cur_time w s;
           s2 \<leftarrow> add_to_queue (next_alloc s1) now fn (of_nat (d_size d)) (d_det_done d) 0 s1;
           read_entries w in_dir ds (s2\<lparr>next_alloc := next_alloc s2 + 1\<rparr>) })"

text \<open>\<open>listing d\<close> is the sorted directory \<open>d\<close>, if it can be read; \<open>has_queue\<close> says whether \<^verbatim>\<open>in_dir/queue\<close> exists.\<close>

definition read_testcases ::
  "'w fuzz_world_scheme \<Rightarrow> (string \<Rightarrow> dir_entry list option) \<Rightarrow> bool \<Rightarrow> string \<Rightarrow> 'a fuzz_state_scheme \<Rightarrow>
   (start_end + u32 \<times> 'a fuzz_state_scheme) option" where
  "read_testcases w listing has_queue dir s =
     (let in_dir = (if has_queue then dir @ ''/queue'' else dir) in
      case listing in_dir of
        None \<Rightarrow> Some (Inl (Start_pfatal ''Unable to open''))
      | Some ds \<Rightarrow>
          do { (ds1, s1) \<leftarrow> (if shuffle_queue s \<and> length ds > 1 then shuffle_ptrs w ds s else Some (ds, s));
               andthen (read_entries w in_dir ds1 s1)
                 (\<lambda>s2. if queued_paths s2 = 0 then Some (Inl (Start_fatal ''No usable test cases''))
                       else Some (Inr (queued_paths s2, s2\<lparr>last_path_time := 0\<rparr>))) })"

section \<open>The statistics file\<close>

text \<open>The values that are printed: numbers, and percentages and speeds as they come out of \<^verbatim>\<open>%0.02f\<close>.\<close>

record stats_values =
  v_start :: nat
  v_update :: nat
  v_pid :: nat
  v_cycles :: nat
  v_execs :: nat
  v_eps :: string
  v_paths :: nat
  v_favored :: nat
  v_found :: nat
  v_imported :: nat
  v_depth :: nat
  v_cur :: nat
  v_pfavs :: nat
  v_ptotal :: nat
  v_variable :: nat
  v_stability :: string
  v_cvg :: string
  v_crashes :: nat
  v_hangs :: nat
  v_last_path :: nat
  v_last_crash :: nat
  v_last_hang :: nat
  v_since_crash :: nat
  v_tmout :: u32
  v_banner :: string
  v_mode :: string
  v_cmdline :: string
  v_slowest :: nat
  v_rss :: string

abbreviation nl :: string where "nl \<equiv> [CHR 0x0A]"

definition stats_head :: "stats_values \<Rightarrow> (string \<times> string) list" where
  "stats_head v =
     [(''start_time        : '', dec (v_start v)),
      (''last_update       : '', dec (v_update v)),
      (''fuzzer_pid        : '', dec (v_pid v)),
      (''cycles_done       : '', dec (v_cycles v)),
      (''execs_done        : '', dec (v_execs v)),
      (''execs_per_sec     : '', v_eps v),
      (''paths_total       : '', dec (v_paths v)),
      (''paths_favored     : '', dec (v_favored v)),
      (''paths_found       : '', dec (v_found v)),
      (''paths_imported    : '', dec (v_imported v)),
      (''max_depth         : '', dec (v_depth v)),
      (''cur_path          : '', dec (v_cur v)),
      (''pending_favs      : '', dec (v_pfavs v)),
      (''pending_total     : '', dec (v_ptotal v)),
      (''variable_paths    : '', dec (v_variable v)),
      (''stability         : '', v_stability v @ ''%''),
      (''bitmap_cvg        : '', v_cvg v @ ''%''),
      (''unique_crashes    : '', dec (v_crashes v)),
      (''unique_hangs      : '', dec (v_hangs v)),
      (''last_path         : '', dec (v_last_path v)),
      (''last_crash        : '', dec (v_last_crash v)),
      (''last_hang         : '', dec (v_last_hang v)),
      (''execs_since_crash : '', dec (v_since_crash v))]"

definition stats_tail :: "stats_values \<Rightarrow> (string \<times> string) list" where
  "stats_tail v =
     [(''afl_banner        : '', v_banner v),
      (''afl_version       : '', ''2.57b''),
      (''target_mode       : '', v_mode v),
      (''command_line      : '', v_cmdline v),
      (''slowest_exec_ms   : '', dec (v_slowest v)),
      (''peak_rss_mb       : '', v_rss v)]"

definition stats_lines :: "(string \<times> string) list \<Rightarrow> string" where
  "stats_lines ls = concat (map (\<lambda>(l, v). l @ v @ nl) ls)"

definition stats_text :: "stats_values \<Rightarrow> string" where
  "stats_text v = stats_lines (stats_head v) @
     (''exec_timeout      : '' @ dec (unat (v_tmout v)) @ nl) @ stats_lines (stats_tail v)"

text \<open>The first place where a string occurs.\<close>

fun find_sub :: "string \<Rightarrow> string \<Rightarrow> string option" where
  "find_sub pat [] = (if pat = [] then Some [] else None)"
| "find_sub pat (c # s) = (if starts pat (c # s) then Some (c # s) else find_sub pat s)"

text \<open>The new timeout, if one is taken over; the buffer has 4096 bytes, the last one 0.\<close>

definition find_timeout :: "bool \<Rightarrow> string option \<Rightarrow> u32 option" where
  "find_timeout resuming file =
     (if \<not> resuming then None
      else case file of
          None \<Rightarrow> None
        | Some text \<Rightarrow>
            (case find_sub ''exec_timeout      : '' (takeWhile (\<lambda>c. c \<noteq> CHR 0x00) (take 4095 text)) of
               None \<Rightarrow> None
             | Some off \<Rightarrow> let ret = c_atoi (drop 20 off) in if ret \<le> 4 then None else Some ret))"

section \<open>Decimal numbers\<close>

declare dec.simps [simp del]

definition digit_char :: "nat \<Rightarrow> char" where "digit_char d = char_of (48 + d)"

lemma digit_cases:
  fixes d :: nat
  assumes "d < 10" and "list_all P [0, 1, 2, 3, 4, 5, 6, 7, 8, 9]"
  shows "P d"
proof -
  have "d \<in> set [0, 1, 2, 3, 4, 5, 6, 7, 8, 9]" using assms(1) by (auto simp: less_Suc_eq numeral_eq_Suc)
  then show ?thesis using assms(2) by (simp only: list_all_iff)
qed

definition digit_prop :: "nat \<Rightarrow> bool" where
  "digit_prop d \<longleftrightarrow> digit_char d \<in> set ''0123456789'' \<and> Afl_Extras.isdigit (of_char (digit_char d)) \<and>
     \<not> isspace (of_char (digit_char d)) \<and> (of_char (digit_char d) :: u8) \<noteq> 45 \<and>
     (of_char (digit_char d) :: u8) \<noteq> 43 \<and> uint (of_char (digit_char d) :: u8) - 48 = int d"

lemma digit_prop: "d < 10 \<Longrightarrow> digit_prop d"
  by (erule digit_cases) code_simp

lemmas digit_char_props = digit_prop [unfolded digit_prop_def, THEN conjunct1]
  digit_prop [unfolded digit_prop_def, THEN conjunct2]

lemma dec_unfold: "dec n = (if n < 10 then [digit_char n] else dec (n div 10) @ [digit_char (n mod 10)])"
  by (subst dec.simps) (simp add: digit_char_def)

lemma dec_induct [case_names small big]:
  fixes n :: nat
  assumes "\<And>n. n < 10 \<Longrightarrow> P n" and "\<And>n. \<not> n < 10 \<Longrightarrow> P (n div 10) \<Longrightarrow> P n"
  shows "P n"
proof (induction n rule: less_induct)
  case (less n)
  show ?case
  proof (cases "n < 10")
    case False
    then have "n div 10 < n" by simp
    then show ?thesis using assms(2) [OF False] less by blast
  qed (rule assms(1))
qed

lemma dec_digits: "set (dec n) \<subseteq> set ''0123456789''"
proof (induction n rule: dec_induct)
  case (small n)
  then show ?case using digit_char_props(1) [of n] by (subst dec_unfold) auto
next
  case (big n)
  then show ?case using digit_char_props(1) [of "n mod 10"] by (subst dec_unfold) auto
qed

lemma dec_nonempty: "dec n \<noteq> []"
  by (subst dec_unfold) simp

lemma length_dec: "n < 10 ^ Suc k \<Longrightarrow> length (dec n) \<le> Suc k"
proof (induction k arbitrary: n)
  case 0
  then show ?case by (subst dec_unfold) simp
next
  case (Suc k)
  then have "n div 10 < 10 ^ Suc k" by (simp add: div_less_iff_less_mult mult.commute)
  from Suc.IH [OF this] show ?case by (subst dec_unfold) simp
qed

lemma dec_bytes:
  "(\<forall>b \<in> set (map of_char (dec n) :: u8 list). Afl_Extras.isdigit b \<and> \<not> isspace b \<and> b \<noteq> 45 \<and> b \<noteq> 43) \<and>
   digits_value (map of_char (dec n)) = int n"
proof (induction n rule: dec_induct)
  case (small n)
  then show ?case using digit_char_props [of n] by (subst (1 2) dec_unfold) (simp add: digits_value_def)
next
  case (big n)
  have "n mod 10 < 10" by simp
  from digit_char_props [OF this] have r: "uint (of_char (digit_char (n mod 10)) :: u8) - 48 = int (n mod 10)" by simp
  have dv: "digits_value (ds @ [d]) = 10 * digits_value ds + (uint d - 48)" for ds and d :: u8
    by (simp add: digits_value_def)
  have "digits_value (map of_char (dec n)) = 10 * digits_value (map of_char (dec (n div 10))) + int (n mod 10)"
    using big(1) r by (subst dec_unfold) (simp add: dv)
  also have "\<dots> = 10 * int (n div 10) + int (n mod 10)" using big(2) by simp
  also have "\<dots> = int (10 * (n div 10) + n mod 10)" by (simp only: of_nat_add of_nat_mult of_nat_numeral)
  also have "\<dots> = int n" by (simp only: mult_div_mod_eq)
  finally have v: "digits_value (map of_char (dec n)) = int n" .
  have "map of_char (dec n) = (map of_char (dec (n div 10)) @ [of_char (digit_char (n mod 10))] :: u8 list)"
    using big(1) by (subst dec_unfold) simp
  then show ?case using big(2) v digit_char_props [OF \<open>n mod 10 < 10\<close>] by simp
qed

lemma atoi_dec:
  assumes "n < 2 ^ 63" and "\<not> Afl_Extras.isdigit (of_char c :: u8)"
  shows "c_atoi (dec n @ c # rest) = of_nat n"
proof -
  let ?ds = "map of_char (dec n) :: u8 list" and ?tl = "of_char c # map of_char rest :: u8 list"
  note p = dec_bytes [of n]
  obtain d ds where d: "?ds = d # ds" using dec_nonempty [of n] by (cases "dec n") auto
  then have first: "\<not> isspace d" "d \<noteq> 45" "d \<noteq> 43" using p by auto
  have "dropWhile isspace (?ds @ ?tl) = ?ds @ ?tl" using d first by simp
  moreover have "takeWhile Afl_Extras.isdigit (?ds @ ?tl) = ?ds" using p assms(2) by (subst takeWhile_append2) auto
  moreover have "int n \<le> 2 ^ 63 - 1" using assms(1) by simp
  ultimately show ?thesis using first p d unfolding c_atoi_def atoi_def Let_def
    by (simp add: min_absorb2)
qed

section \<open>A resumed session finds its timeout\<close>

lemma starts_take: "starts p s \<longleftrightarrow> take (length p) s = p"
  by (induction p s rule: starts.induct) auto

lemma find_sub_skip:
  assumes "pat \<noteq> []" and "\<And>j. j < length a \<Longrightarrow> \<not> starts pat (drop j (a @ b))"
  shows "find_sub pat (a @ b) = find_sub pat b"
  using assms(2)
proof (induction a)
  case (Cons c a)
  have "\<not> starts pat (c # a @ b)" using Cons.prems [of 0] by simp
  moreover have "\<not> starts pat (drop j (a @ b))" if "j < length a" for j using Cons.prems [of "Suc j"] that by simp
  ultimately show ?case using Cons.IH by simp
qed simp

text \<open>Labels of 20 characters with their only colon behind 18 of them.\<close>

definition label_ok :: "string \<Rightarrow> bool" where
  "label_ok l \<longleftrightarrow> length l = 20 \<and> CHR 0x0A \<notin> set l \<and> CHR 0x00 \<notin> set l \<and>
     list_all (\<lambda>i. (l ! i = CHR '':'') = (i = 18)) [0..<20]"

definition value_ok :: "string \<Rightarrow> bool" where
  "value_ok v \<longleftrightarrow> CHR '':'' \<notin> set v \<and> CHR 0x00 \<notin> set v \<and> length v \<le> 100"

lemma find_sub_line:
  assumes key: "label_ok key" and lab: "label_ok lab" "lab \<noteq> key" and v: "value_ok v"
  shows "find_sub key (lab @ v @ nl @ rest) = find_sub key rest"
proof -
  let ?a = "lab @ v @ nl"
  have klen: "length key = 20" "key ! 18 = CHR '':''" "CHR 0x0A \<notin> set key"
    using key by (auto simp: label_ok_def list_all_iff)
  have llen: "length lab = 20" using lab(1) by (simp add: label_ok_def)
  have "\<not> starts key (drop j (?a @ rest))" if j: "j < length ?a" for j
  proof
    assume "starts key (drop j (?a @ rest))"
    then have t: "take 20 (drop j (?a @ rest)) = key" using klen by (simp add: starts_take)
    have k: "key ! i = (?a @ rest) ! (j + i)" if "i < 20" for i
    proof -
      have "key ! i = take 20 (drop j (?a @ rest)) ! i" by (simp only: t)
      also have "\<dots> = drop j (?a @ rest) ! i" using that by (rule nth_take)
      also have "\<dots> = (?a @ rest) ! (j + i)" using j by (intro nth_drop) simp
      finally show ?thesis .
    qed
    have e: "(?a @ rest) ! i = ?a ! i" if "i < length ?a" for i using that by (simp add: nth_append)
    have last: "?a ! (length ?a - 1) = CHR 0x0A" by (simp add: nth_append)
    show False
    proof (cases "j + 18 < length ?a")
      case True
      then have c: "?a ! (j + 18) = CHR '':''" using k [of 18] klen(2) e [OF True] by simp
      have "j = 0"
      proof (cases "j + 18 < 20")
        case True
        then have "lab ! (j + 18) = CHR '':''" using c llen by (simp add: nth_append)
        then show ?thesis using lab(1) True by (simp add: label_ok_def list_all_iff)
      next
        case False
        have "?a ! (j + 18) = (v @ nl) ! (j - 2)" using False llen by (simp add: nth_append)
        moreover have "j - 2 < length (v @ nl)" using \<open>j + 18 < length ?a\<close> llen False by simp
        ultimately have "CHR '':'' \<in> set (v @ nl)" using c by (metis nth_mem)
        then show ?thesis using v by (simp add: value_ok_def)
      qed
      then have "key = lab" using t llen by simp
      then show False using lab(2) by simp
    next
      case False
      define i where "i = length ?a - 1 - j"
      have "i < 20" "j + i = length ?a - 1" using False j by (auto simp: i_def)
      then have "key ! i = CHR 0x0A" using k [of i] e [of "j + i"] last j by simp
      then show False using klen \<open>i < 20\<close> by (metis nth_mem)
    qed
  qed
  moreover have "key \<noteq> []" using klen by auto
  ultimately show ?thesis using find_sub_skip [of key ?a rest] by simp
qed

lemma find_sub_lines:
  assumes "label_ok key" and "\<forall>(l, v) \<in> set ls. label_ok l \<and> l \<noteq> key \<and> value_ok v"
  shows "find_sub key (stats_lines ls @ rest) = find_sub key rest"
  using assms(2)
proof (induction ls)
  case (Cons x ls)
  obtain l v where x: "x = (l, v)" by fastforce
  then have "find_sub key (l @ v @ nl @ stats_lines ls @ rest) = find_sub key (stats_lines ls @ rest)"
    using Cons.prems by (intro find_sub_line [OF assms(1)]) auto
  then show ?case using Cons x by (simp add: stats_lines_def)
qed (simp add: stats_lines_def)

lemma stats_lines_length:
  "\<forall>(l, v) \<in> set ls. label_ok l \<and> value_ok v \<Longrightarrow> length (stats_lines ls) \<le> 121 * length ls"
proof (induction ls)
  case (Cons x ls)
  then show ?case by (cases x) (auto simp: stats_lines_def label_ok_def value_ok_def)
qed (simp add: stats_lines_def)

lemma stats_lines_nul:
  "\<forall>(l, v) \<in> set ls. label_ok l \<and> value_ok v \<Longrightarrow> CHR 0x00 \<notin> set (stats_lines ls)"
  by (auto simp: stats_lines_def label_ok_def value_ok_def)

text \<open>The printed numbers are 64 bits wide; the texts of the floating point values have no colon.\<close>

definition stats_ok :: "stats_values \<Rightarrow> bool" where
  "stats_ok v \<longleftrightarrow> (\<forall>(l, x) \<in> set (stats_head v). value_ok x)"

lemma head_labels: "list_all (\<lambda>(l, x). label_ok l \<and> l \<noteq> ''exec_timeout      : '') (stats_head v)"
  by (simp add: stats_head_def label_ok_def upt_rec)

lemma take_fit: "length a \<le> n \<Longrightarrow> take n (a @ b) = a @ take (n - length a) b"
  by simp

lemma value_dec: "n < 10 ^ 99 \<Longrightarrow> value_ok (dec n)"
  using dec_digits [of n] length_dec [of n 98] by (auto simp: value_ok_def)

lemma head_length: "length (stats_head v) = 23"
  by (simp add: stats_head_def)

lemma key_label: "label_ok ''exec_timeout      : ''"
  by (simp add: label_ok_def upt_rec)

lemma find_sub_self: "pat \<noteq> [] \<Longrightarrow> find_sub pat (pat @ r) = Some (pat @ r)"
  by (cases pat) (auto simp: starts_take)

text \<open>
  C40: A session that is resumed without a timeout of its own finds the one the last session ran with in its
  statistics file, whatever its counters, its banner and its command line are: the line with the timeout is within
  the 4095 bytes that are looked at, and no line before it can be mistaken for it.
\<close>
theorem resumed_timeout:
  assumes "stats_ok v" and "4 < v_tmout v"
  shows "find_timeout True (Some (stats_text v)) = Some (v_tmout v)"
proof -
  let ?key = "''exec_timeout      : ''" and ?t = "unat (v_tmout v)"
  let ?head = "stats_lines (stats_head v)" and ?line = "?key @ dec ?t @ nl" and ?rest = "stats_lines (stats_tail v)"
  have h: "\<forall>(l, x) \<in> set (stats_head v). label_ok l \<and> l \<noteq> ?key \<and> value_ok x"
    using head_labels [of v] assms(1) by (auto simp: stats_ok_def list_all_iff)
  have h2: "\<forall>(l, x) \<in> set (stats_head v). label_ok l \<and> value_ok x" using h by blast
  have t32: "?t < 2 ^ 32" using unsigned_less [of "v_tmout v"] by simp
  have "length (dec ?t) \<le> Suc 9" using t32 by (intro length_dec) simp
  then have fit: "length (?head @ ?line) \<le> 4095"
    using stats_lines_length [OF h2] by (simp add: head_length)
  define r where "r = takeWhile (\<lambda>c. c \<noteq> CHR 0x00) (take (4095 - length (?head @ ?line)) ?rest)"
  have no0: "CHR 0x00 \<notin> set (?head @ ?line)"
    using stats_lines_nul [OF h2] dec_digits [of ?t] by auto
  have "take 4095 (stats_text v) = (?head @ ?line) @ take (4095 - length (?head @ ?line)) ?rest"
    using take_fit [OF fit, of ?rest] by (simp only: stats_text_def append_assoc)
  then have buf: "takeWhile (\<lambda>c. c \<noteq> CHR 0x00) (take 4095 (stats_text v)) = ?head @ ?key @ dec ?t @ CHR 0x0A # r"
    using no0 unfolding r_def by (subst \<open>take 4095 _ = _\<close>, subst takeWhile_append2) auto
  have off: "find_sub ?key (?head @ ?key @ dec ?t @ CHR 0x0A # r) = Some (?key @ dec ?t @ CHR 0x0A # r)"
    using find_sub_lines [OF key_label h] find_sub_self [of ?key "dec ?t @ CHR 0x0A # r"] by simp
  have "c_atoi (dec ?t @ CHR 0x0A # r) = of_nat ?t"
    using t32 by (intro atoi_dec) (auto simp: Afl_Extras.isdigit_def)
  then have num: "c_atoi (drop 20 (?key @ dec ?t @ CHR 0x0A # r)) = v_tmout v" by simp
  show ?thesis unfolding find_timeout_def using assms(2)
    by (simp only: buf off num option.case Let_def not_le if_True if_False simp_thms)  (simp add: not_le)
qed

definition sample_stats :: stats_values where
  "sample_stats = \<lparr>v_start = 1500000000, v_update = 1500000060, v_pid = 4242, v_cycles = 0, v_execs = 1000,
     v_eps = ''16.67'', v_paths = 3, v_favored = 2, v_found = 1, v_imported = 0, v_depth = 2, v_cur = 1, v_pfavs = 1,
     v_ptotal = 2, v_variable = 0, v_stability = ''100.00'', v_cvg = ''0.05'', v_crashes = 0, v_hangs = 0,
     v_last_path = 1500000030, v_last_crash = 0, v_last_hang = 0, v_since_crash = 1000, v_tmout = 120,
     v_banner = ''exec_timeout      : 7'', v_mode = ''default'', v_cmdline = ''afl-fuzz -i in -o out ./prog'',
     v_slowest = 9, v_rss = ''5''\<rparr>"

lemma resumed_timeout_witness: "find_timeout True (Some (stats_text sample_stats)) = Some 120"
proof -
  have "stats_ok sample_stats"
    unfolding stats_ok_def stats_head_def sample_stats_def by (simp add: value_dec) (simp add: value_ok_def)
  then show ?thesis using resumed_timeout [of sample_stats] by (simp add: sample_stats_def)
qed

text \<open>Two pointers are never shuffled.\<close>

lemma shuffle_two: "shuffle_ptrs w [a, b] s = Some ([a, b], s)"
  by (simp add: shuffle_ptrs_def)

section \<open>The initial queue\<close>

abbreviation with_rng :: "u32 \<Rightarrow> nat \<Rightarrow> 'a extras_state_scheme \<Rightarrow> 'a extras_state_scheme" where
  "with_rng c d s \<equiv> extras_state.draws_update (\<lambda>_. d) (s\<lparr>rand_cnt := c\<rparr>)"

lemma UR_state: "UR w n s = Some (r, s') \<Longrightarrow> \<exists>c d. s' = with_rng c d s"
  by (cases s) (auto simp: UR_def Let_def extras_state.defs split: if_splits)

lemma shuffle_loop_permutes:
  assumes "i + n < length ptrs" and "length ptrs < 2 ^ 32"
  shows "\<exists>ptrs' c d. shuffle_loop n i w ptrs s = Some (ptrs', with_rng c d s) \<and> mset ptrs' = mset ptrs"
  using assms
proof (induction n arbitrary: i ptrs s)
  case 0
  have "s = with_rng (rand_cnt s) (extras_state.draws s) s" by simp
  then show ?case by (metis shuffle_loop.simps(1))
next
  case (Suc n)
  let ?lim = "of_nat (length ptrs) - of_nat i :: u32"
  have lim: "unat ?lim = length ptrs - i"
    using Suc.prems by (subst unat_sub) (simp_all add: word_le_nat_alt unat_of_nat)
  then have "?lim \<noteq> 0" using Suc.prems(1) by (metis add_Suc_right less_add_Suc1 order_less_trans unat_0 zero_less_diff less_irrefl)
  then obtain r s1 where r: "UR w ?lim s = Some (r, s1)" "r < ?lim"
    using UR_defined [of ?lim w s] UR_less [of w ?lim s] by blast
  obtain c d where s1: "s1 = with_rng c d s" using UR_state [OF r(1)] by blast
  have j: "i + unat r < length ptrs" "i < length ptrs"
    using r(2) lim Suc.prems(1) by (auto simp: word_less_nat_alt)
  let ?p = "ptrs[i := ptrs ! (i + unat r), i + unat r := ptrs ! i]"
  have m: "mset ?p = mset ptrs" using mset_swap [OF j(1) j(2)] by simp
  obtain p' c' d' where IH: "shuffle_loop n (i + 1) w ?p s1 = Some (p', with_rng c' d' s1)" "mset p' = mset ?p"
    using Suc.IH [of "i + 1" ?p s1] Suc.prems by auto
  have "shuffle_loop (Suc n) i w ptrs s = Some (p', with_rng c' d' s)"
    using r(1) j IH(1) s1 by (simp add: get_at_def set_at_def)
  then show ?case using m IH(2) by (metis (no_types))
qed

lemma shuffle_permutes:
  assumes "2 \<le> length ptrs" and "length ptrs < 2 ^ 32"
  shows "\<exists>ptrs' c d. shuffle_ptrs w ptrs s = Some (ptrs', with_rng c d s) \<and> mset ptrs' = mset ptrs"
proof -
  have "unat (of_nat (length ptrs) - 2 :: u32) = length ptrs - 2"
    using assms by (subst unat_sub) (simp_all add: word_le_nat_alt unat_of_nat)
  then show ?thesis using shuffle_loop_permutes [of 0 "length ptrs - 2" ptrs w s] assms by (simp add: shuffle_ptrs_def)
qed

text \<open>What is known of an entry before it has been run.\<close>

definition data_of :: "entry_heap \<Rightarrow> nat \<Rightarrow> (string \<times> u32 \<times> bool \<times> u64) option" where
  "data_of h p = map_option (\<lambda>e. (q_fname e, q_len e, q_passed_det e, q_prox_score e)) (h p)"

definition usable :: "string \<Rightarrow> dir_entry \<Rightarrow> bool" where
  "usable in_dir d \<longleftrightarrow> d_regular d \<and> d_size d \<noteq> 0 \<and> \<not> strstr (in_dir @ ''/'' @ d_name d) ''/README.txt''"

definition readable :: "string \<Rightarrow> dir_entry \<Rightarrow> bool" where
  "readable in_dir d \<longleftrightarrow> d_access d \<and> (usable in_dir d \<longrightarrow> d_size d \<le> MAX_FILE_start)"

definition loaded :: "string \<Rightarrow> dir_entry \<Rightarrow> string \<times> u32 \<times> bool \<times> u64" where
  "loaded in_dir d = (in_dir @ ''/'' @ d_name d, of_nat (d_size d), d_det_done d, 0)"

definition queue_of :: "string \<Rightarrow> 'a fuzz_state_scheme \<Rightarrow> nat list \<Rightarrow> dir_entry list \<Rightarrow> bool" where
  "queue_of in_dir s xs ds \<longleftrightarrow> queue_ok s xs \<and> length (shortcut_per_100 s) = 1024 \<and>
     map (data_of (entries s)) xs = map (\<lambda>d. Some (loaded in_dir d)) ds \<and>
     queued_paths s = of_nat (length ds) \<and> (\<forall>p \<ge> next_alloc s. entries s p = None)"

lemma data_of_unlinked: "unlinked h = unlinked h' \<Longrightarrow> data_of h = data_of h'"
proof -
  have "data_of (unlinked h) = data_of h" for h by (rule ext) (simp add: data_of_def unlinked_def option.map_comp comp_def)
  then show "unlinked h = unlinked h' \<Longrightarrow> data_of h = data_of h'" by metis
qed

lemma next_alloc_more: "queue_state.more s' = queue_state.more s \<Longrightarrow> next_alloc s' = next_alloc s"
  by (cases s'; cases s) simp

lemma queue_of_add:
  assumes q: "queue_of in_dir s xs ds" and n: "length ds + 1 < 2 ^ 32"
  shows "\<exists>s'. add_to_queue (next_alloc s) now (in_dir @ ''/'' @ d_name d) (of_nat (d_size d)) (d_det_done d) 0 s = Some s' \<and>
    queue_of in_dir (s'\<lparr>next_alloc := next_alloc s' + 1\<rparr>) (xs @ [next_alloc s]) (ds @ [d])"
proof -
  let ?p = "next_alloc s"
  define e where "e = new_entry (in_dir @ ''/'' @ d_name d) (of_nat (d_size d)) (d_det_done d) 0 s"
  define h where "h = (entries s)(?p \<mapsto> e)"
  have ok: "queue_ok s xs" and sc: "length (shortcut_per_100 s) = 1024" and free: "\<forall>p \<ge> ?p. entries s p = None"
    and dat: "map (data_of (entries s)) xs = map (\<lambda>d. Some (loaded in_dir d)) ds"
    and cnt: "queued_paths s = of_nat (length ds)" using q by (auto simp: queue_of_def)
  have len: "length xs + 1 < 2 ^ 32" using n map_eq_imp_length_eq [OF dat] by simp
  obtain s' where s': "add_to_queue ?p now (in_dir @ ''/'' @ d_name d) (of_nat (d_size d)) (d_det_done d) 0 s = Some s'"
      "queue_ok s' (insert_by_score (score_in h) ?p xs)" "shortcuts_ok s' (insert_by_score (score_in h) ?p xs)"
      "unlinked (entries s') = unlinked h" "queued_paths s' = queued_paths s + 1"
      "queue_state.more s' = queue_state.more s"
    using add_to_queue_run [OF ok free [rule_format, OF order_refl] sc len, where fname = "in_dir @ ''/'' @ d_name d" and
        flen = "of_nat (d_size d)" and passed_det = "d_det_done d" and prox_score = 0 and now = now]
    unfolding e_def [symmetric] h_def [symmetric] by (elim exE conjE) (rule that)
  have old: "x \<noteq> ?p \<and> data_of h x = data_of (entries s) x \<and> score_in h x = 0" if x: "x \<in> set xs" for x
  proof -
    obtain d where d: "data_of (entries s) x = Some (loaded in_dir d)"
      using arg_cong [OF dat, of set] x by (auto simp: image_iff set_eq_iff)
    then have "x \<noteq> ?p" using free by (auto simp: data_of_def)
    then show ?thesis using d by (auto simp: h_def data_of_def score_in_def loaded_def)
  qed
  have new: "data_of h ?p = Some (loaded in_dir d)" "score_in h ?p = 0"
    by (simp_all add: h_def data_of_def loaded_def score_in_def e_def new_entry_def)
  have "takeWhile (\<lambda>x. score_in h ?p \<le> score_in h x) xs = xs" using old new by (simp add: takeWhile_eq_all_conv)
  moreover have "dropWhile (\<lambda>x. score_in h ?p \<le> score_in h x) xs = []" using old new by (simp add: dropWhile_eq_Nil_conv)
  ultimately have ys: "insert_by_score (score_in h) ?p xs = xs @ [?p]" by (simp add: insert_by_score_def)
  have da: "data_of (entries s') = data_of h" by (rule data_of_unlinked [OF s'(4)])
  have "map (data_of h) xs = map (data_of (entries s)) xs" using old by simp
  then have "map (data_of (entries s')) (xs @ [?p]) = map (\<lambda>d. Some (loaded in_dir d)) (ds @ [d])"
    using dat new da by simp
  moreover have "entries s' p = None" if "p \<ge> ?p + 1" for p
    using unlinked_eqD(1) [OF s'(4), of p] that free by (simp add: h_def)
  ultimately show ?thesis using s' cnt ys next_alloc_more [OF s'(6)]
    by (auto simp: queue_of_def queue_ok_def shortcuts_ok_def)
qed

lemma read_entries_queue:
  assumes "queue_of in_dir s xs acc" and "length acc + length ds < 2 ^ 32"
  shows "if list_all (readable in_dir) ds
    then \<exists>s' ys. read_entries w in_dir ds s = Some (Inr s') \<and> queue_of in_dir s' ys (acc @ filter (usable in_dir) ds)
    else \<exists>e. read_entries w in_dir ds s = Some (Inl e)"
  using assms
proof (induction ds arbitrary: s xs acc)
  case (Cons d ds)
  show ?case
  proof (cases "d_access d \<and> usable in_dir d \<and> d_size d \<le> MAX_FILE_start")
    case True
    let ?s1 = "s\<lparr>ticks := ticks s + 1\<rparr>"
    have "queue_of in_dir ?s1 xs acc" using Cons.prems(1) by (simp add: queue_of_def queue_ok_def)
    from queue_of_add [OF this] obtain s2 where
      s2: "add_to_queue (next_alloc ?s1) (fst (get_cur_time w s)) (in_dir @ ''/'' @ d_name d) (of_nat (d_size d)) (d_det_done d) 0 ?s1 = Some s2"
        "queue_of in_dir (s2\<lparr>next_alloc := next_alloc s2 + 1\<rparr>) (xs @ [next_alloc ?s1]) (acc @ [d])"
      using Cons.prems(2) by fastforce
    define s3 where "s3 = s2\<lparr>next_alloc := next_alloc s2 + 1\<rparr>"
    have step: "read_entries w in_dir (d # ds) s = read_entries w in_dir ds s3"
      using True s2(1) unfolding s3_def by (simp add: usable_def get_cur_time_def)
    have "readable in_dir d" "acc @ filter (usable in_dir) (d # ds) = (acc @ [d]) @ filter (usable in_dir) ds"
      using True by (auto simp: readable_def)
    then show ?thesis using Cons.IH [OF s2(2) [folded s3_def]] Cons.prems(2)
      unfolding step list.pred_inject by (simp split: if_splits)
  next
    case False
    show ?thesis
    proof (cases "readable in_dir d")
      case True
      then have u: "\<not> usable in_dir d" "d_access d" using False by (auto simp: readable_def)
      then have step: "read_entries w in_dir (d # ds) s = read_entries w in_dir ds s" by (auto simp: usable_def)
      show ?thesis using Cons.IH [OF Cons.prems(1)] Cons.prems(2) u True unfolding step by (simp split: if_splits)
    qed (use False in \<open>auto simp: readable_def usable_def Let_def\<close>)
  qed
qed auto

text \<open>
  C39: The session starts with the usable files of the input directory, in the order of the directory or, when the
  queue is to be shuffled, in some order: each once, with its size and the mark of the deterministic stages.  It
  does not start when a file cannot be read, one is too big, or none is usable.
\<close>
theorem read_testcases_queue:
  fixes dir :: string and has_queue :: bool and s :: "'a fuzz_state_scheme"
  defines "in_dir \<equiv> (if has_queue then dir @ ''/queue'' else dir)"
  assumes ds: "listing in_dir = Some ds" "length ds < 2 ^ 32"
    and fresh: "queue s = None" "queued_paths s = 0" "length (shortcut_per_100 s) = 1024"
      "\<forall>p \<ge> next_alloc s. entries s p = None"
  shows "if list_all (readable in_dir) ds \<and> list_ex (usable in_dir) ds
    then \<exists>ds' s' xs. mset ds' = mset ds \<and> (\<not> shuffle_queue s \<longrightarrow> ds' = ds) \<and>
      read_testcases w listing has_queue dir s = Some (Inr (of_nat (length xs), s')) \<and> queue_ok s' xs \<and>
      map (data_of (entries s')) xs = map (\<lambda>d. Some (loaded in_dir d)) (filter (usable in_dir) ds')
    else \<exists>e. read_testcases w listing has_queue dir s = Some (Inl e)"
proof -
  obtain ds' s1 where ord: "(if shuffle_queue s \<and> length ds > 1 then shuffle_ptrs w ds s else Some (ds, s)) = Some (ds', s1)"
      "mset ds' = mset ds" "\<not> shuffle_queue s \<longrightarrow> ds' = ds" and s1: "queue_of in_dir s1 [] []"
  proof (cases "shuffle_queue s \<and> length ds > 1")
    case True
    then obtain ds' c d where "shuffle_ptrs w ds s = Some (ds', with_rng c d s)" "mset ds' = mset ds"
      using shuffle_permutes [of ds w s] ds(2) by auto
    then show thesis using True fresh that [of ds' "with_rng c d s"] by (simp add: queue_of_def queue_ok_def)
  next
    case False
    then show thesis using fresh that [of ds s] by (auto simp: queue_of_def queue_ok_def)
  qed
  have same: "list_all P ds' = list_all P ds" "list_ex P ds' = list_ex P ds" for P
    using arg_cong [OF ord(2), of set_mset] by (simp_all add: list_all_iff list_ex_iff)
  have len: "length ds' = length ds" using arg_cong [OF ord(2), of size] by simp
  have run: "read_testcases w listing has_queue dir s =
      andthen (read_entries w in_dir ds' s1)
        (\<lambda>s2. if queued_paths s2 = 0 then Some (Inl (Start_fatal ''No usable test cases''))
              else Some (Inr (queued_paths s2, s2\<lparr>last_path_time := 0\<rparr>)))"
    unfolding read_testcases_def in_dir_def [symmetric] Let_def using ds(1) ord(1) by simp
  note re = read_entries_queue [OF s1, of ds' w]
  show ?thesis
  proof (cases "list_all (readable in_dir) ds")
    case True
    then obtain s' ys where s': "read_entries w in_dir ds' s1 = Some (Inr s')"
        "queue_of in_dir s' ys (filter (usable in_dir) ds')"
      using re ds(2) len same by auto
    let ?n = "length (filter (usable in_dir) ds')"
    have q: "queue_ok s' ys" "map (data_of (entries s')) ys = map (\<lambda>d. Some (loaded in_dir d)) (filter (usable in_dir) ds')"
        "queued_paths s' = of_nat ?n" using s'(2) by (auto simp: queue_of_def)
    have n: "length ys = ?n" using map_eq_imp_length_eq [OF q(2)] .
    have "?n < 2 ^ 32" using ds(2) len length_filter_le [of "usable in_dir" ds'] by linarith
    then have "unat (queued_paths s') = ?n" using q(3) by (simp add: unat_of_nat)
    moreover have "?n = 0 \<longleftrightarrow> \<not> list_ex (usable in_dir) ds'" by (simp add: filter_empty_conv list_ex_iff)
    ultimately have z: "queued_paths s' = 0 \<longleftrightarrow> \<not> list_ex (usable in_dir) ds" using same(2) by (metis unat_eq_zero)
    show ?thesis
    proof (cases "list_ex (usable in_dir) ds")
      case True
      have "read_testcases w listing has_queue dir s = Some (Inr (of_nat (length ys), s'\<lparr>last_path_time := 0\<rparr>))"
        using run s'(1) z True q(3) n by (simp add: andthen_def)
      then show ?thesis using \<open>list_all _ ds\<close> True ord(2,3) q(1,2)
        by (auto simp: queue_ok_def intro!: exI [of _ ds'] exI [of _ "s'\<lparr>last_path_time := 0\<rparr>"] exI [of _ ys])
    next
      case False
      then show ?thesis using run s'(1) z by (simp add: andthen_def)
    qed
  next
    case False
    then show ?thesis using re ds(2) len same run by (auto simp: andthen_def)
  qed
qed

definition sample_dir :: "dir_entry list" where
  "sample_dir =
     [\<lparr>d_name = ''.'', d_access = True, d_regular = False, d_size = 4096, d_det_done = False\<rparr>,
      \<lparr>d_name = ''..'', d_access = True, d_regular = False, d_size = 4096, d_det_done = False\<rparr>,
      \<lparr>d_name = ''README.txt'', d_access = True, d_regular = True, d_size = 70, d_det_done = False\<rparr>,
      \<lparr>d_name = ''a'', d_access = True, d_regular = True, d_size = 5, d_det_done = False\<rparr>,
      \<lparr>d_name = ''b'', d_access = True, d_regular = True, d_size = 9, d_det_done = True\<rparr>]"

definition empty_session :: fuzz_state where
  "empty_session = demo_fuzz\<lparr>queue := None, queued_paths := 0, shortcut_per_100 := replicate 1024 None, entries := Map.empty\<rparr>"

lemma read_testcases_queue_witness:
  "\<exists>s' xs. read_testcases demo_fuzz_world [''in'' \<mapsto> sample_dir] False ''in'' empty_session = Some (Inr (of_nat (length xs), s')) \<and>
     queue_ok s' xs \<and> map (data_of (entries s')) xs = [Some (''in/a'', 5, False, 0), Some (''in/b'', 9, True, 0)]"
proof -
  have u: "filter (usable ''in'') sample_dir = drop 3 sample_dir" "list_all (readable ''in'') sample_dir" "list_ex (usable ''in'') sample_dir"
    by (simp_all add: usable_def readable_def sample_dir_def MAX_FILE_start_def)
  have "queue empty_session = None" "queued_paths empty_session = 0" "length (shortcut_per_100 empty_session) = 1024"
    "\<forall>p \<ge> next_alloc empty_session. entries empty_session p = None" "\<not> shuffle_queue empty_session"
    by (simp_all add: empty_session_def demo_fuzz_def exec_state.defs)
  then show ?thesis
    using read_testcases_queue [of "[''in'' \<mapsto> sample_dir]" False "''in''" sample_dir empty_session demo_fuzz_world] u
    by (simp add: sample_dir_def loaded_def)
qed

end
