(* ===== verification/Afl_ToolStart.thy ===== *)
theory Afl_ToolStart
  imports Afl_Start
begin

text \<open>
  The start of the three tools beside the fuzzer: \<^verbatim>\<open>afl-tmin\<close>, \<^verbatim>\<open>afl-analyze\<close> and
  \<^verbatim>\<open>afl-showmap\<close>.  Each has its own options, and a copy of the code that prepares the environment, finds the
  program and writes the arguments.
\<close>

section \<open>Options\<close>

record tool_opts =
  to_in_file :: "string option"
  to_out_file :: "string option"
  to_prog_in :: "string option"
  to_at_file :: "string option"
  to_edges_only :: bool
  to_exit_crash :: bool
  to_mem_given :: bool
  to_mem_limit :: u64
  to_tmout_given :: bool
  to_exec_tmout :: u32
  to_qemu :: bool
  to_mask :: "u8 list option"
  to_quiet :: bool
  to_cmin :: bool
  to_binary :: bool
  to_keep_cores :: bool

definition MEM_LIMIT :: u64 where "MEM_LIMIT = 50"
definition EXEC_TIMEOUT_start :: u32 where "EXEC_TIMEOUT_start = 1000"

definition no_opts :: tool_opts where
  "no_opts = \<lparr>to_in_file = None, to_out_file = None, to_prog_in = None, to_at_file = None, to_edges_only = False,
     to_exit_crash = False, to_mem_given = False, to_mem_limit = MEM_LIMIT, to_tmout_given = False,
     to_exec_tmout = EXEC_TIMEOUT_start, to_qemu = False, to_mask = None, to_quiet = False, to_cmin = False,
     to_binary = False, to_keep_cores = False\<rparr>"

definition multiple :: "char \<Rightarrow> start_end" where
  "multiple c = Start_fatal (''Multiple -'' @ [c] @ '' options not supported'')"

text \<open>What \<^verbatim>\<open>-m\<close>, \<^verbatim>\<open>-Q\<close> and, for two of them, \<^verbatim>\<open>-t\<close> do in every tool.\<close>

definition tool_mem :: "string \<Rightarrow> tool_opts \<Rightarrow> start_end + tool_opts" where
  "tool_mem arg cf =
     (if to_mem_given cf then Inl (multiple CHR ''m'')
      else map_sum id (\<lambda>m. cf\<lparr>to_mem_given := True, to_mem_limit := m\<rparr>) (parse_mem_limit arg))"

definition tool_qemu :: "tool_opts \<Rightarrow> start_end + tool_opts" where
  "tool_qemu cf =
     (if to_qemu cf then Inl (multiple CHR ''Q'')
      else Inr (cf\<lparr>to_mem_limit := (if \<not> to_mem_given cf then MEM_LIMIT_QEMU else to_mem_limit cf), to_qemu := True\<rparr>))"

definition tool_tmout :: "string \<Rightarrow> tool_opts \<Rightarrow> start_end + tool_opts" where
  "tool_tmout arg cf =
     (if to_tmout_given cf then Inl (multiple CHR ''t'')
      else if c_atoi arg < 10 \<or> (arg \<noteq> [] \<and> hd arg = CHR ''-'') then Inl (Start_fatal ''Dangerously low value of -t'')
      else Inr (cf\<lparr>to_tmout_given := True, to_exec_tmout := c_atoi arg\<rparr>))"

text \<open>\<open>content\<close> is what a file holds, if it can be opened.\<close>

definition tmin_bitmap :: "(string \<Rightarrow> u8 list option) \<Rightarrow> string \<Rightarrow> start_end + u8 list" where
  "tmin_bitmap content f =
     (case content f of
        None \<Rightarrow> Inl (Start_pfatal ''Unable to open'')
      | Some d \<Rightarrow> if length d < 2 ^ 16 then Inl (Start_fatal ''Short read'') else Inr (take (2 ^ 16) d))"

definition tmin_opt :: "(string \<Rightarrow> u8 list option) \<Rightarrow> char \<Rightarrow> string \<Rightarrow> tool_opts \<Rightarrow> start_end + tool_opts" where
  "tmin_opt content c arg cf =
     (if c = CHR ''i'' then
        (if to_in_file cf \<noteq> None then Inl (multiple c) else Inr (cf\<lparr>to_in_file := Some arg\<rparr>))
      else if c = CHR ''o'' then
        (if to_out_file cf \<noteq> None then Inl (multiple c) else Inr (cf\<lparr>to_out_file := Some arg\<rparr>))
      else if c = CHR ''f'' then
        (if to_prog_in cf \<noteq> None then Inl (multiple c) else Inr (cf\<lparr>to_prog_in := Some arg\<rparr>))
      else if c = CHR ''e'' then
        (if to_edges_only cf then Inl (multiple c) else Inr (cf\<lparr>to_edges_only := True\<rparr>))
      else if c = CHR ''x'' then
        (if to_exit_crash cf then Inl (multiple c) else Inr (cf\<lparr>to_exit_crash := True\<rparr>))
      else if c = CHR ''m'' then tool_mem arg cf
      else if c = CHR ''t'' then tool_tmout arg cf
      else if c = CHR ''Q'' then tool_qemu cf
      else if c = CHR ''B'' then
        (if to_mask cf \<noteq> None then Inl (multiple c)
         else map_sum id (\<lambda>b. cf\<lparr>to_mask := Some b\<rparr>) (tmin_bitmap content arg))
      else Inl Start_usage)"

definition analyze_opt :: "char \<Rightarrow> string \<Rightarrow> tool_opts \<Rightarrow> start_end + tool_opts" where
  "analyze_opt c arg cf =
     (if c = CHR ''i'' then
        (if to_in_file cf \<noteq> None then Inl (multiple c) else Inr (cf\<lparr>to_in_file := Some arg\<rparr>))
      else if c = CHR ''f'' then
        (if to_prog_in cf \<noteq> None then Inl (multiple c) else Inr (cf\<lparr>to_prog_in := Some arg\<rparr>))
      else if c = CHR ''e'' then
        (if to_edges_only cf then Inl (multiple c) else Inr (cf\<lparr>to_edges_only := True\<rparr>))
      else if c = CHR ''m'' then tool_mem arg cf
      else if c = CHR ''t'' then tool_tmout arg cf
      else if c = CHR ''Q'' then tool_qemu cf
      else Inl Start_usage)"

text \<open>\<^verbatim>\<open>afl-showmap\<close> has no timeout unless one is asked for.\<close>

definition showmap_tmout :: "string \<Rightarrow> tool_opts \<Rightarrow> start_end + tool_opts" where
  "showmap_tmout arg cf =
     (if to_tmout_given cf then Inl (multiple CHR ''t'')
      else if arg = ''none'' then Inr (cf\<lparr>to_tmout_given := True\<rparr>)
      else if c_atoi arg < 20 \<or> (arg \<noteq> [] \<and> hd arg = CHR ''-'') then Inl (Start_fatal ''Dangerously low value of -t'')
      else Inr (cf\<lparr>to_tmout_given := True, to_exec_tmout := c_atoi arg\<rparr>))"

definition showmap_opt :: "char \<Rightarrow> string \<Rightarrow> tool_opts \<Rightarrow> start_end + tool_opts" where
  "showmap_opt c arg cf =
     (if c = CHR ''o'' then
        (if to_out_file cf \<noteq> None then Inl (multiple c) else Inr (cf\<lparr>to_out_file := Some arg\<rparr>))
      else if c = CHR ''m'' then tool_mem arg cf
      else if c = CHR ''t'' then showmap_tmout arg cf
      else if c = CHR ''e'' then
        (if to_edges_only cf then Inl (multiple c) else Inr (cf\<lparr>to_edges_only := True\<rparr>))
      else if c = CHR ''q'' then
        (if to_quiet cf then Inl (multiple c) else Inr (cf\<lparr>to_quiet := True\<rparr>))
      else if c = CHR ''Z'' then Inr (cf\<lparr>to_cmin := True, to_quiet := True\<rparr>)
      else if c = CHR ''A'' then Inr (cf\<lparr>to_at_file := Some arg\<rparr>)
      else if c = CHR ''Q'' then tool_qemu cf
      else if c = CHR ''b'' then Inr (cf\<lparr>to_binary := True\<rparr>)
      else if c = CHR ''c'' then
        (if to_keep_cores cf then Inl (multiple c) else Inr (cf\<lparr>to_keep_cores := True\<rparr>))
      else Inl Start_usage)"

fun tool_options ::
  "(char \<Rightarrow> string \<Rightarrow> tool_opts \<Rightarrow> start_end + tool_opts) \<Rightarrow> (char \<times> string) list \<Rightarrow> tool_opts \<Rightarrow> start_end + tool_opts" where
  "tool_options opt [] cf = Inr cf"
| "tool_options opt ((c, arg) # opts) cf =
     (case opt c arg cf of Inl e \<Rightarrow> Inl e | Inr cf1 \<Rightarrow> tool_options opt opts cf1)"

section \<open>Environment\<close>

text \<open>\<^verbatim>\<open>setenv\<close> with and without overwriting.\<close>

definition setenv :: "string \<Rightarrow> string \<Rightarrow> environment \<Rightarrow> environment" where
  "setenv k v env = env(k := Some v)"

definition setenv_default :: "string \<Rightarrow> string \<Rightarrow> environment \<Rightarrow> environment" where
  "setenv_default k v env = (if env k = None then env(k := Some v) else env)"

definition sanitizer_defaults :: "environment \<Rightarrow> environment" where
  "sanitizer_defaults env =
     setenv_default ''MSAN_OPTIONS'' (''exit_code=86:symbolize=0:abort_on_error=1:allocator_may_return_null=1:'' @
         ''msan_track_origins=0'')
       (setenv_default ''ASAN_OPTIONS'' ''abort_on_error=1:detect_leaks=0:symbolize=0:allocator_may_return_null=1'' env)"

definition preload :: "environment \<Rightarrow> environment" where
  "preload env =
     (case env ''AFL_PRELOAD'' of
        None \<Rightarrow> env
      | Some x \<Rightarrow> setenv ''DYLD_INSERT_LIBRARIES'' x (setenv ''LD_PRELOAD'' x env))"

text \<open>What a tool sees of its surroundings; \<open>tw_here\<close> says whether it may use the current directory.\<close>

record tool_world =
  tw_env :: environment
  tw_here :: bool
  tw_pid :: nat
  tw_cwd :: string
  tw_stat :: stats
  tw_exec :: "string \<Rightarrow> bool"
  tw_content :: "string \<Rightarrow> u8 list option"
  tw_bin_path :: string
  tw_argv0 :: string

text \<open>The file for the input, and the new environment; \<open>nm\<close> is the name of the tool.\<close>

definition temp_name :: "string \<Rightarrow> 'w tool_world_scheme \<Rightarrow> string option \<Rightarrow> string" where
  "temp_name nm w prog_in =
     (case prog_in of
        Some f \<Rightarrow> f
      | None \<Rightarrow>
          let use_dir = (if tw_here w then ''.''
                         else case tw_env w ''TMPDIR'' of Some d \<Rightarrow> d | None \<Rightarrow> ''/tmp'')
          in use_dir @ ''/.'' @ nm @ ''-temp-'' @ dec (tw_pid w))"

definition tool_environment ::
  "string \<Rightarrow> 'w tool_world_scheme \<Rightarrow> string option \<Rightarrow> start_end + string \<times> environment" where
  "tool_environment nm w prog_in =
     (case check_asan_opts (tw_env w) of
        Inl e \<Rightarrow> Inl e
      | Inr _ \<Rightarrow> (case check_msan_opts (tw_env w) of
            Inl e \<Rightarrow> Inl e
          | Inr _ \<Rightarrow> Inr (temp_name nm w prog_in, preload (sanitizer_defaults (tw_env w)))))"

definition tmin_environment :: "'w tool_world_scheme \<Rightarrow> string option \<Rightarrow> start_end + string \<times> environment" where
  "tmin_environment = tool_environment ''afl-tmin''"

definition analyze_environment :: "'w tool_world_scheme \<Rightarrow> string option \<Rightarrow> start_end + string \<times> environment" where
  "analyze_environment = tool_environment ''afl-analyze''"

definition showmap_environment :: "environment \<Rightarrow> environment" where
  "showmap_environment env = preload (sanitizer_defaults env)"

section \<open>Program and arguments\<close>

definition file_arg :: "string \<Rightarrow> string \<Rightarrow> string \<Rightarrow> string" where
  "file_arg cwd f a = (case split_at_at a of None \<Rightarrow> a | Some (p, q) \<Rightarrow> p @ full_path cwd f @ q)"

definition tmin_file_args :: "string \<Rightarrow> string \<Rightarrow> string list \<Rightarrow> string list" where
  "tmin_file_args cwd prog_in as = map (file_arg cwd prog_in) as"

definition analyze_file_args :: "string \<Rightarrow> string \<Rightarrow> string list \<Rightarrow> string list" where
  "analyze_file_args cwd prog_in as = map (file_arg cwd prog_in) as"

fun showmap_file_args :: "string \<Rightarrow> string option \<Rightarrow> string list \<Rightarrow> start_end + string list" where
  "showmap_file_args cwd at_file [] = Inr []"
| "showmap_file_args cwd at_file (a # as) =
     (case (split_at_at a, at_file) of
        (Some _, None) \<Rightarrow> Inl (Start_fatal ''@@ syntax is not supported by this tool.'')
      | (None, _) \<Rightarrow> map_sum id (\<lambda>bs. a # bs) (showmap_file_args cwd at_file as)
      | (Some _, Some f) \<Rightarrow> map_sum id (\<lambda>bs. file_arg cwd f a # bs) (showmap_file_args cwd at_file as))"

definition tmin_find_binary :: "environment \<Rightarrow> stats \<Rightarrow> string \<Rightarrow> start_end + string" where
  "tmin_find_binary getenv st fname = find_program getenv st fname"

definition analyze_find_binary :: "environment \<Rightarrow> stats \<Rightarrow> string \<Rightarrow> start_end + string" where
  "analyze_find_binary getenv st fname = find_program getenv st fname"

definition showmap_find_binary :: "environment \<Rightarrow> stats \<Rightarrow> string \<Rightarrow> start_end + string" where
  "showmap_find_binary getenv st fname = find_program getenv st fname"

definition tool_qemu_argv ::
  "environment \<Rightarrow> 'w tool_world_scheme \<Rightarrow> string \<Rightarrow> string list \<Rightarrow> start_end + string \<times> string list" where
  "tool_qemu_argv env w target argv =
     qemu_argv ''Unable to find 'afl-qemu-trace'.'' env (tw_exec w) (tw_bin_path w) (tw_argv0 w) target argv"

definition tmin_qemu_argv ::
  "environment \<Rightarrow> 'w tool_world_scheme \<Rightarrow> string \<Rightarrow> string list \<Rightarrow> start_end + string \<times> string list" where
  "tmin_qemu_argv = tool_qemu_argv"

definition analyze_qemu_argv ::
  "environment \<Rightarrow> 'w tool_world_scheme \<Rightarrow> string \<Rightarrow> string list \<Rightarrow> start_end + string \<times> string list" where
  "analyze_qemu_argv = tool_qemu_argv"

definition showmap_qemu_argv ::
  "environment \<Rightarrow> 'w tool_world_scheme \<Rightarrow> string \<Rightarrow> string list \<Rightarrow> start_end + string \<times> string list" where
  "showmap_qemu_argv = tool_qemu_argv"

text \<open>How a tool is about to run: its settings, the target, its arguments, its input file and environment.\<close>

record tool_setup =
  ts_opts :: tool_opts
  ts_target :: string
  ts_argv :: "string list"
  ts_prog_in :: string
  ts_env :: environment

definition tmin_start ::
  "'w tool_world_scheme \<Rightarrow> (char \<times> string) list \<Rightarrow> string list \<Rightarrow> start_end + tool_setup" where
  "tmin_start w opts rest =
     (case tool_options (tmin_opt (tw_content w)) opts no_opts of
        Inl e \<Rightarrow> Inl e
      | Inr cf \<Rightarrow>
          if rest = [] \<or> to_in_file cf = None \<or> to_out_file cf = None then Inl Start_usage
          else case tmin_environment w (to_prog_in cf) of Inl e \<Rightarrow> Inl e | Inr (f, env) \<Rightarrow>
            (case tmin_find_binary env (tw_stat w) (hd rest) of Inl e \<Rightarrow> Inl e | Inr t \<Rightarrow>
              (let argv = tmin_file_args (tw_cwd w) f rest in
               case (if to_qemu cf then tmin_qemu_argv env w t argv else Inr (t, argv)) of Inl e \<Rightarrow> Inl e | Inr (t1, argv1) \<Rightarrow>
                 Inr \<lparr>ts_opts = cf, ts_target = t1, ts_argv = argv1, ts_prog_in = f, ts_env = env\<rparr>)))"

definition analyze_start ::
  "'w tool_world_scheme \<Rightarrow> (char \<times> string) list \<Rightarrow> string list \<Rightarrow> start_end + tool_setup" where
  "analyze_start w opts rest =
     (case tool_options analyze_opt opts no_opts of
        Inl e \<Rightarrow> Inl e
      | Inr cf \<Rightarrow>
          if rest = [] \<or> to_in_file cf = None then Inl Start_usage
          else case analyze_environment w (to_prog_in cf) of Inl e \<Rightarrow> Inl e | Inr (f, env) \<Rightarrow>
            (case analyze_find_binary env (tw_stat w) (hd rest) of Inl e \<Rightarrow> Inl e | Inr t \<Rightarrow>
              (let argv = analyze_file_args (tw_cwd w) f rest in
               case (if to_qemu cf then analyze_qemu_argv env w t argv else Inr (t, argv)) of Inl e \<Rightarrow> Inl e | Inr (t1, argv1) \<Rightarrow>
                 Inr \<lparr>ts_opts = cf, ts_target = t1, ts_argv = argv1, ts_prog_in = f, ts_env = env\<rparr>)))"

definition showmap_start ::
  "'w tool_world_scheme \<Rightarrow> (char \<times> string) list \<Rightarrow> string list \<Rightarrow> start_end + tool_setup" where
  "showmap_start w opts rest =
     (case tool_options showmap_opt opts (no_opts\<lparr>to_exec_tmout := 0\<rparr>) of
        Inl e \<Rightarrow> Inl e
      | Inr cf \<Rightarrow>
          if rest = [] \<or> to_out_file cf = None then Inl Start_usage
          else let env = showmap_environment (tw_env w) in
            (case showmap_find_binary env (tw_stat w) (hd rest) of Inl e \<Rightarrow> Inl e | Inr t \<Rightarrow>
              (case showmap_file_args (tw_cwd w) (to_at_file cf) rest of Inl e \<Rightarrow> Inl e | Inr argv \<Rightarrow>
                (case (if to_qemu cf then showmap_qemu_argv env w t argv else Inr (t, argv)) of Inl e \<Rightarrow> Inl e | Inr (t1, argv1) \<Rightarrow>
                   Inr \<lparr>ts_opts = cf, ts_target = t1, ts_argv = argv1,
                        ts_prog_in = (case to_at_file cf of Some f \<Rightarrow> f | None \<Rightarrow> []), ts_env = env\<rparr>))))"

text \<open>The fuzzer and the tools write the same arguments once the file is known.\<close>

lemma detect_file_args_map: "snd (detect_file_args cwd out_dir as (Some f)) = map (file_arg cwd f) as"
  by (induction as) (auto simp: file_arg_def split: option.splits prod.splits)

lemma showmap_file_args_some: "showmap_file_args cwd (Some f) as = Inr (map (file_arg cwd f) as)"
  by (induction as) (auto simp: file_arg_def split: option.splits)

end
