(* ===== verification/Afl_Showmap.thy ===== *)
theory Afl_Showmap
  imports Afl_ToolStart
begin

text \<open>
  \<^verbatim>\<open>afl-showmap\<close>: one run of the target, and the trace as text or as a map.  \<^verbatim>\<open>afl-cmin\<close> compares
  the lines of such texts, so each line has to determine its byte of the map and the class of its count.
\<close>

section \<open>Classes\<close>

definition count_class_human :: "u8 \<Rightarrow> u8" where
  "count_class_human b =
     (if b = 0 then 0 else if b = 1 then 1 else if b = 2 then 2 else if b = 3 then 3 else if b \<le> 7 then 4
      else if b \<le> 15 then 5 else if b \<le> 31 then 6 else if b \<le> 127 then 7 else 8)"

definition count_class_binary :: "u8 \<Rightarrow> u8" where
  "count_class_binary b =
     (if b = 0 then 0 else if b = 1 then 1 else if b = 2 then 2 else if b = 3 then 4 else if b \<le> 7 then 8
      else if b \<le> 15 then 16 else if b \<le> 31 then 32 else if b \<le> 127 then 64 else 128)"

fun showmap_classify :: "bool \<Rightarrow> (u8 \<Rightarrow> u8) \<Rightarrow> u8 list \<Rightarrow> u8 list" where
  "showmap_classify edges cls [] = []"
| "showmap_classify edges cls (b # mem) =
     (if edges then (if b \<noteq> 0 then 1 else b) else cls b) # showmap_classify edges cls mem"

section \<open>The run\<close>

text \<open>What the run leaves: the map, and how the child ended.\<close>

record showmap_run =
  sr_trace :: "u8 list"
  sr_timed_out :: bool
  sr_stopped :: bool
  sr_signaled :: bool

definition showmap_run_target :: "tool_opts \<Rightarrow> showmap_run \<Rightarrow> start_end + u8 list \<times> bool" where
  "showmap_run_target cf r =
     (if le_word (take 4 (sr_trace r)) = EXEC_FAIL_SIG then Inl (Start_fatal ''Unable to execute'')
      else Inr (showmap_classify (to_edges_only cf) (if to_binary cf then count_class_binary else count_class_human) (sr_trace r),
                \<not> sr_timed_out r \<and> \<not> sr_stopped r \<and> sr_signaled r))"

section \<open>The result\<close>

datatype showmap_dest = To_device string | To_stdout | To_new_file string

definition showmap_open :: "(string \<Rightarrow> bool) \<Rightarrow> string \<Rightarrow> start_end + showmap_dest" where
  "showmap_open can_open f =
     (if starts ''/dev/'' f then (if can_open f then Inr (To_device f) else Inl (Start_pfatal ''Unable to open''))
      else if f = ''-'' then (if can_open f then Inr To_stdout else Inl (Start_pfatal ''Unable to open stdout''))
      else if can_open f then Inr (To_new_file f) else Inl (Start_pfatal ''Unable to create''))"

text \<open>The lines from byte \<open>i\<close> of the map on, and how many bytes they are for; \<open>skip\<close> says that the run is
  not one \<^verbatim>\<open>afl-cmin\<close> asks for.\<close>

fun showmap_lines :: "bool \<Rightarrow> bool \<Rightarrow> nat \<Rightarrow> u8 list \<Rightarrow> string \<times> u32" where
  "showmap_lines cmin skip i [] = ([], 0)"
| "showmap_lines cmin skip i (b # bs) =
     (if b = 0 then showmap_lines cmin skip (i + 1) bs
      else if cmin \<and> skip then ([], 1)
      else
        let line = (if cmin then dec (unat b) @ dec i else pad_to 6 i @ '':'' @ dec (unat b));
            (ls, n) = showmap_lines cmin skip (i + 1) bs
        in (line @ nl @ ls, n + 1))"

datatype showmap_out = Out_map "u8 list" | Out_text string

definition write_results ::
  "environment \<Rightarrow> tool_opts \<Rightarrow> bool \<Rightarrow> bool \<Rightarrow> u8 list \<Rightarrow> showmap_out \<times> u32" where
  "write_results getenv cf timed_out crashed trace =
     (let cco = is_set getenv ''AFL_CMIN_CRASHES_ONLY''; caa = is_set getenv ''AFL_CMIN_ALLOW_ANY'' in
      if to_binary cf then (Out_map trace, of_nat (length (filter (\<lambda>b. b \<noteq> 0) trace)))
      else let (text, n) = showmap_lines (to_cmin cf) (timed_out \<or> \<not> caa \<and> crashed \<noteq> cco) 0 trace in (Out_text text, n))"

text \<open>The run of the tool: where the result goes, what it is, and the exit code.\<close>

definition showmap_main ::
  "'w tool_world_scheme \<Rightarrow> (string \<Rightarrow> bool) \<Rightarrow> (tool_setup \<Rightarrow> showmap_run) \<Rightarrow> (char \<times> string) list \<Rightarrow> string list \<Rightarrow>
   start_end + (showmap_dest \<times> showmap_out) \<times> nat" where
  "showmap_main w can_open run opts rest =
     (case showmap_start w opts rest of Inl e \<Rightarrow> Inl e | Inr setup \<Rightarrow>
        let r = run setup; cf = ts_opts setup in
        (case showmap_run_target cf r of Inl e \<Rightarrow> Inl e | Inr (trace, crashed) \<Rightarrow>
           (case showmap_open can_open (case to_out_file cf of Some f \<Rightarrow> f | None \<Rightarrow> []) of Inl e \<Rightarrow> Inl e | Inr dest \<Rightarrow>
              (let (out, tcnt) = write_results (ts_env setup) cf (sr_timed_out r) crashed trace in
               if \<not> to_quiet cf \<and> tcnt = 0 then Inl (Start_fatal ''No instrumentation detected'')
               else Inr ((dest, out), (if crashed then 2 else 0) + (if sr_timed_out r then 1 else 0))))))"

section \<open>Reading the lines back\<close>

fun split_lines :: "string \<Rightarrow> string \<Rightarrow> string list" where
  "split_lines l [] = []"
| "split_lines l (c # s) = (if c = CHR 0x0A then rev l # split_lines [] s else split_lines (c # l) s)"

text \<open>The byte of the map and the class a line is for.\<close>

definition read_tuple :: "bool \<Rightarrow> string \<Rightarrow> nat \<times> nat" where
  "read_tuple cmin l =
     (if cmin then (digits_nat (tl l), digits_nat [hd l])
      else (digits_nat (takeWhile (\<lambda>c. c \<noteq> CHR '':'') l), digits_nat (tl (dropWhile (\<lambda>c. c \<noteq> CHR '':'') l))))"

definition read_tuples :: "bool \<Rightarrow> string \<Rightarrow> (nat \<times> nat) list" where
  "read_tuples cmin s = map (read_tuple cmin) (split_lines [] s)"

lemma digits_nat_snoc: "digits_nat (ds @ [d]) = 10 * digits_nat ds + (of_char d - 48)"
  by (simp add: digits_nat_def)

lemma digits_nat_digit: "d < 10 \<Longrightarrow> of_char (digit_char d) - 48 = (d :: nat)"
  by (simp add: digit_char_def)

lemma digits_nat_dec: "digits_nat (dec n) = n"
proof (induction n rule: dec_induct)
  case (small n)
  then show ?case by (subst dec_unfold) (simp add: digits_nat_def digits_nat_digit)
next
  case (big n)
  then show ?case by (subst dec_unfold) (simp add: digits_nat_snoc digits_nat_digit)
qed

lemma digits_nat_pad: "digits_nat (pad_to k n) = n"
proof -
  have "digits_nat (replicate m (CHR ''0'') @ ds) = digits_nat ds" for m ds
    by (induction m) (simp_all add: digits_nat_def)
  then show ?thesis by (simp add: pad_to_def digits_nat_dec)
qed

lemma pad_digits: "set (pad_to k n) \<subseteq> set ''0123456789''"
  using dec_digits [of n] by (auto simp: pad_to_def)

lemma split_lines_line: "CHR 0x0A \<notin> set l \<Longrightarrow> split_lines a (l @ nl @ s) = (rev a @ l) # split_lines [] s"
  by (induction l arbitrary: a) auto

lemma read_line:
  assumes "b < 10"
  shows "read_tuple True (dec b @ dec i) = (i, b)"
proof -
  have "dec b = [digit_char b]" using assms by (subst dec_unfold) simp
  moreover have "digits_nat [digit_char b] = b" using digits_nat_digit [OF assms] by (simp add: digits_nat_def)
  ultimately show ?thesis by (simp add: read_tuple_def digits_nat_dec)
qed

lemma read_line_human: "read_tuple False (pad_to 6 i @ '':'' @ dec b) = (i, b)"
proof -
  have c: "CHR '':'' \<notin> set (pad_to 6 i)" using pad_digits [of 6 i] by auto
  then have "takeWhile (\<lambda>c. c \<noteq> CHR '':'') (pad_to 6 i @ '':'' @ dec b) = pad_to 6 i"
    by (subst takeWhile_append2) auto
  moreover have "dropWhile (\<lambda>c. c \<noteq> CHR '':'') (pad_to 6 i @ '':'' @ dec b) = '':'' @ dec b"
    using c by (subst dropWhile_append2) auto
  ultimately show ?thesis by (simp add: read_tuple_def digits_nat_pad digits_nat_dec)
qed

text \<open>The tuples of a map, from byte \<open>i\<close> on.\<close>

definition tuples_from :: "nat \<Rightarrow> u8 list \<Rightarrow> (nat \<times> nat) list" where
  "tuples_from i bs = filter (\<lambda>(j, v). v \<noteq> 0) (enumerate i (map unat bs))"

lemma tuples_from_Cons:
  "tuples_from i (b # bs) = (if b = 0 then [] else [(i, unat b)]) @ tuples_from (i + 1) bs"
  by (simp add: tuples_from_def unat_eq_zero)

lemma showmap_lines_tuples:
  assumes "\<forall>b \<in> set bs. unat b < 10" and "\<not> (cmin \<and> skip)"
  shows "read_tuples cmin (fst (showmap_lines cmin skip i bs)) = tuples_from i bs"
  using assms(1)
proof (induction bs arbitrary: i)
  case Nil
  then show ?case by (simp add: read_tuples_def tuples_from_def)
next
  case (Cons b bs)
  obtain ls n where r: "showmap_lines cmin skip (i + 1) bs = (ls, n)" by fastforce
  have IH: "read_tuples cmin ls = tuples_from (i + 1) bs" using Cons r by (metis fst_conv list.set_intros(2))
  show ?case
  proof (cases "b = 0")
    case False
    define l where "l = (if cmin then dec (unat b) @ dec i else pad_to 6 i @ '':'' @ dec (unat b))"
    have "CHR 0x0A \<notin> set l"
      using dec_digits [of "unat b"] dec_digits [of i] pad_digits [of 6 i] by (auto simp: l_def)
    then have "split_lines [] (l @ nl @ ls) = l # split_lines [] ls" using split_lines_line [of l "[]" ls] by simp
    moreover have "read_tuple cmin l = (i, unat b)"
      using read_line [of "unat b" i] read_line_human [of i "unat b"] Cons.prems by (simp add: l_def)
    moreover have "fst (showmap_lines cmin skip i (b # bs)) = l @ nl @ ls" using False assms(2) r by (auto simp: l_def)
    ultimately show ?thesis using False IH by (simp add: read_tuples_def tuples_from_Cons)
  qed (use IH r in \<open>simp add: tuples_from_Cons\<close>)
qed

lemma showmap_lines_skipped: "fst (showmap_lines True True i bs) = []"
  by (induction bs arbitrary: i) auto

lemma class_human: "unat (count_class_human b) < 10 \<and>
    (count_class_human b = 0 \<longleftrightarrow> b = 0) \<and>
    (b \<noteq> 0 \<longrightarrow> count_class_lookup8 b = 2 ^ (unat (count_class_human b) - 1))"
  by (auto simp: count_class_human_def count_class_lookup8_def)

lemma class_binary: "count_class_binary b = count_class_lookup8 b"
  by (simp add: count_class_binary_def count_class_lookup8_def)

lemma showmap_classify_map:
  "showmap_classify edges cls mem = map (if edges then (\<lambda>b. of_bool (b \<noteq> 0)) else cls) mem"
  by (induction mem) auto

text \<open>What is shown of a byte of the map, and the runs that \<^verbatim>\<open>afl-cmin\<close> asks for.\<close>

definition shown_class :: "tool_opts \<Rightarrow> u8 \<Rightarrow> u8" where
  "shown_class cf b =
     (if to_edges_only cf then of_bool (b \<noteq> 0)
      else if to_binary cf then count_class_lookup8 b else count_class_human b)"

definition cmin_wants :: "environment \<Rightarrow> bool \<Rightarrow> bool \<Rightarrow> bool" where
  "cmin_wants env timed_out crashed \<longleftrightarrow> \<not> timed_out \<and>
     (is_set env ''AFL_CMIN_ALLOW_ANY'' \<or> crashed = is_set env ''AFL_CMIN_CRASHES_ONLY'')"

definition shown_as :: "environment \<Rightarrow> tool_opts \<Rightarrow> showmap_run \<Rightarrow> bool \<Rightarrow> showmap_out \<Rightarrow> bool" where
  "shown_as env cf r crashed out \<longleftrightarrow>
     (let shown = map (shown_class cf) (sr_trace r) in
      case out of
        Out_map m \<Rightarrow> to_binary cf \<and> m = shown
      | Out_text text \<Rightarrow> \<not> to_binary cf \<and>
          (if to_cmin cf \<and> \<not> cmin_wants env (sr_timed_out r) crashed then text = []
           else read_tuples (to_cmin cf) text = filter (\<lambda>(i, v). v \<noteq> 0) (enumerate 0 (map unat shown))))"

lemma write_results_shows:
  "shown_as env cf r crashed
     (fst (write_results env cf (sr_timed_out r) crashed
        (showmap_classify (to_edges_only cf) (if to_binary cf then count_class_binary else count_class_human) (sr_trace r))))"
proof -
  have m: "showmap_classify (to_edges_only cf) (if to_binary cf then count_class_binary else count_class_human) (sr_trace r)
      = map (shown_class cf) (sr_trace r)"
    by (auto simp: showmap_classify_map shown_class_def class_binary)
  show ?thesis
  proof (cases "to_binary cf")
    case False
    let ?shown = "map (shown_class cf) (sr_trace r)"
    define skip where "skip \<longleftrightarrow> \<not> cmin_wants env (sr_timed_out r) crashed"
    have sk: "(sr_timed_out r \<or> \<not> is_set env ''AFL_CMIN_ALLOW_ANY'' \<and> crashed \<noteq> is_set env ''AFL_CMIN_CRASHES_ONLY'') = skip"
      by (auto simp: skip_def cmin_wants_def)
    have small: "\<forall>b \<in> set ?shown. unat b < 10"
      using False class_human by (auto simp: shown_class_def)
    obtain tx n where t: "showmap_lines (to_cmin cf) skip 0 ?shown = (tx, n)" by fastforce
    have "tx = []" if "to_cmin cf" "skip" using t that showmap_lines_skipped by (metis fst_conv)
    moreover have "read_tuples (to_cmin cf) tx = tuples_from 0 ?shown" if "\<not> (to_cmin cf \<and> skip)"
      using showmap_lines_tuples [OF small that, of 0] t by simp
    moreover have "fst (write_results env cf (sr_timed_out r) crashed ?shown) = Out_text tx"
      unfolding write_results_def Let_def sk t by (simp add: False)
    ultimately show ?thesis unfolding m shown_as_def Let_def skip_def [symmetric]
      using False by (simp only: showmap_out.case tuples_from_def) simp
  next
    case True
    then show ?thesis unfolding m by (simp add: shown_as_def write_results_def Let_def)
  qed
qed

text \<open>
  When \<^verbatim>\<open>afl-showmap\<close> succeeds, its exit code tells a crash from a timeout, and from the lines it has
  written the class of every byte of the map can be read back, also in the form for \<^verbatim>\<open>afl-cmin\<close>, where
  nothing stands between the two numbers; that form is empty for a run that was not asked for.  The classes are the
  buckets of the fuzzer, numbered; with \<^verbatim>\<open>-b\<close> they are the buckets themselves.
\<close>
theorem showmap_reads_back:
  assumes "showmap_main w can_open run opts rest = Inr ((dest, out), code)"
  shows "(\<exists>su crashed. showmap_start w opts rest = Inr su \<and>
      crashed = (\<not> sr_timed_out (run su) \<and> \<not> sr_stopped (run su) \<and> sr_signaled (run su)) \<and>
      code = (if crashed then 2 else if sr_timed_out (run su) then 1 else 0) \<and>
      shown_as (ts_env su) (ts_opts su) (run su) crashed out) \<and>
    (\<forall>b. b \<noteq> 0 \<longrightarrow> count_class_lookup8 b = 2 ^ (unat (count_class_human b) - 1))"
proof -
  obtain su where start: "showmap_start w opts rest = Inr su"
    using assms by (cases "showmap_start w opts rest") (auto simp: showmap_main_def)
  define r where "r = run su"
  define cf where "cf = ts_opts su"
  define crashed where "crashed = (\<not> sr_timed_out r \<and> \<not> sr_stopped r \<and> sr_signaled r)"
  define trace where "trace = showmap_classify (to_edges_only cf)
    (if to_binary cf then count_class_binary else count_class_human) (sr_trace r)"
  have run: "showmap_run_target cf r = Inr (trace, crashed)"
    using assms start unfolding showmap_main_def
    by (auto simp: showmap_run_target_def crashed_def trace_def r_def cf_def Let_def split: if_splits)
  have "out = fst (write_results (ts_env su) cf (sr_timed_out r) crashed trace)"
    and "code = (if crashed then 2 else 0) + (if sr_timed_out r then 1 else 0)"
    using assms run unfolding showmap_main_def start
    by (auto simp: r_def [symmetric] cf_def [symmetric] Let_def split: if_splits sum.splits prod.splits)
  then have "shown_as (ts_env su) cf r crashed out" "code = (if crashed then 2 else if sr_timed_out r then 1 else 0)"
    using write_results_shows [of "ts_env su" cf r crashed] by (auto simp: trace_def crashed_def)
  then show ?thesis using start class_human by (auto simp: r_def cf_def crashed_def)
qed

definition demo_tool_world :: tool_world where
  "demo_tool_world = \<lparr>tw_env = Map.empty, tw_here = True, tw_pid = 7, tw_cwd = ''/w'', tw_stat = (\<lambda>_. Some (True, 100)),
     tw_exec = (\<lambda>_. True), tw_content = Map.empty, tw_bin_path = ''/b'', tw_argv0 = ''afl-showmap''\<rparr>"

definition demo_showmap_run :: "tool_setup \<Rightarrow> showmap_run" where
  "demo_showmap_run _ = \<lparr>sr_trace = [0, 0, 0, 0, 1, 200, 0, 3], sr_timed_out = False, sr_stopped = False, sr_signaled = True\<rparr>"

lemma pad5: "replicate 5 c = [c, c, c, c, c]"
  by (simp add: numeral_eq_Suc)

lemma digits: "char_of (49 :: nat) = CHR ''1''" "char_of (51 :: nat) = CHR ''3''" "char_of (52 :: nat) = CHR ''4''"
  "char_of (53 :: nat) = CHR ''5''" "char_of (55 :: nat) = CHR ''7''" "char_of (56 :: nat) = CHR ''8''"
  by code_simp+

lemma showmap_reads_back_witness:
  "\<exists>su. showmap_start demo_tool_world [(CHR ''o'', ''out''), (CHR ''q'', [])] [''/bin/t'', ''@''] = Inr su \<and>
     shown_as (ts_env su) (ts_opts su) (demo_showmap_run su) True
       (Out_text (''000004:1'' @ nl @ ''000005:8'' @ nl @ ''000007:3'' @ nl))"
proof -
  have "showmap_main demo_tool_world (\<lambda>_. True) demo_showmap_run [(CHR ''o'', ''out''), (CHR ''q'', [])] [''/bin/t'', ''@''] =
      Inr ((To_new_file ''out'', Out_text (''000004:1'' @ nl @ ''000005:8'' @ nl @ ''000007:3'' @ nl)), 2)"
    by (simp add: showmap_main_def showmap_start_def demo_tool_world_def demo_showmap_run_def no_opts_def showmap_opt_def
        showmap_environment_def preload_def sanitizer_defaults_def setenv_default_def showmap_find_binary_def
        find_program_def program_at_def showmap_run_target_def showmap_open_def write_results_def is_set_def
        count_class_human_def EXEC_FAIL_SIG_def le_word_def pad_to_def dec.simps Let_def pad5 digits)
  then show ?thesis
    using showmap_reads_back [of demo_tool_world "\<lambda>_. True" demo_showmap_run "[(CHR ''o'', ''out''), (CHR ''q'', [])]"
        "[''/bin/t'', ''@'']" "To_new_file ''out''" "Out_text (''000004:1'' @ nl @ ''000005:8'' @ nl @ ''000007:3'' @ nl)" 2]
    by (auto simp: demo_showmap_run_def)
qed

end
