(* ===== verification/Spec2Isabelle.thy ===== *)
theory Spec2Isabelle
  imports Afl_FuzzOne Afl_Dry Afl_HavocSafe Afl_UndoDet Afl_Track Afl_TminGood Afl_Analyze Afl_As Afl_Cycle
    Afl_TokenCap Afl_Dislocator Afl_ForkServer Afl_Runtime Afl_Cc Afl_Start Afl_Showmap
begin

text \<open>
  A model of the C programs of \<^verbatim>\<open>src/DAFL\<close>, a directed grey-box fuzzer that grew out of AFL.

  \<^bold>\<open>The program.\<close>  \<^verbatim>\<open>afl-gcc\<close>, \<^verbatim>\<open>afl-as\<close> and \<^verbatim>\<open>afl-clang-fast\<close> build a target with a runtime
  (\<^verbatim>\<open>afl-llvm-rt.o.c\<close>) that writes two maps in shared memory: \<^verbatim>\<open>trace_bits\<close> counts the edges of a run,
  \<^verbatim>\<open>dfg_bits\<close> holds the scores of the data-flow nodes that were reached.  \<^verbatim>\<open>afl-fuzz\<close> asks the fork server
  in the target for a run, looks at the maps, and keeps an input that shows something new in a queue that is
  ordered by the sum of the second map, the proximity to the target of the campaign.  Its main loop gives one
  entry after another to \<^verbatim>\<open>fuzz_one\<close>, which calibrates, trims and scores it and then tries changes of it,
  first systematic and then random ones.  \<^verbatim>\<open>afl-tmin\<close>, \<^verbatim>\<open>afl-analyze\<close> and \<^verbatim>\<open>afl-showmap\<close> look at a single
  input, two libraries to be preloaded (\<^verbatim>\<open>libtokencap\<close>, \<^verbatim>\<open>libdislocator\<close>) observe or check the target, and
  \<^verbatim>\<open>alloc-inl.h\<close> is the allocator of all the programs.

  \<^bold>\<open>How the code is modelled.\<close>  The globals of the fuzzer are a record that grows from theory to theory by
  extension: \<^verbatim>\<open>bitmap_state\<close>, then the queue, the favorites, the dictionaries, the run, the rest.  A function
  takes the state and returns the new one.  An index or pointer that goes astray, and a loop without end, is
  \<open>None\<close>; an end of the process by \<^verbatim>\<open>FATAL\<close> or \<^verbatim>\<open>PFATAL\<close> is an \<open>Inl\<close>.  Integers have the width
  of the C type and wrap; \<^verbatim>\<open>double\<close> values are computed exactly, since each is a small multiple of an integer
  or compared with one.  Linked lists are heaps, maps from addresses to records.  What the fuzzer asks of its surroundings is a record
  called the world: the runs of the target, the clock, the random generator, \<^verbatim>\<open>qsort\<close>, the directories.  Loops whose
  end is not evident are \<^verbatim>\<open>partial_function (option)\<close>, so that an equation with \<open>Some\<close> on its right also says that they
  return.
\<close>

text \<open>
  \<^bold>\<open>The fuzzer, afl-fuzz.c.\<close>

  \<^item> \<^verbatim>\<open>Afl_Prelude\<close>, \<^verbatim>\<open>Afl_Popcount\<close>: words and the bytes they are made of, and the two interfaces for code that
    works on whole words of a map, one for passes (\<^verbatim>\<open>bytewise\<close>) and one for counters (\<^verbatim>\<open>byte_count\<close>); the shift-and-add
    population count.
  \<^item> \<^verbatim>\<open>Afl_Bitmap\<close>: \<^verbatim>\<open>has_new_bits\<close> in both builds behind the interface \<^verbatim>\<open>new_bits_flavour\<close>, the counters,
    \<^verbatim>\<open>compute_proximity_score\<close>, \<^verbatim>\<open>simplify_trace\<close>.  \<^verbatim>\<open>Afl_Trace\<close>: \<^verbatim>\<open>classify_counts\<close>, \<^verbatim>\<open>minimize_bits\<close>, \<^verbatim>\<open>hash32\<close>.
    Both word-wise passes act on each byte through its table.
  \<^item> \<^verbatim>\<open>Afl_Queue\<close>: \<^verbatim>\<open>sorted_insert_to_queue\<close>, \<^verbatim>\<open>add_to_queue\<close>, \<^verbatim>\<open>sort_queue\<close>, \<^verbatim>\<open>destroy_queue\<close>.  The heap holds a list without
    repetition in descending order; sorting is stable; each entry is released once.
  \<^item> \<^verbatim>\<open>Afl_Favored\<close>: \<^verbatim>\<open>update_bitmap_score\<close> and \<^verbatim>\<open>cull_queue\<close>: reference counts of the compact traces, and a cover of the
    map by favorites.
  \<^item> \<^verbatim>\<open>Afl_Similar\<close>: \<^verbatim>\<open>could_be_bitflip\<close>, \<^verbatim>\<open>could_be_arith\<close>, \<^verbatim>\<open>could_be_interest\<close>, each shown equal to the set of
    changes that it recognises.
  \<^item> \<^verbatim>\<open>Afl_Extras\<close>: the parser of dictionaries, \<^verbatim>\<open>maybe_add_auto\<close>, saving and loading of tokens.
  \<^item> \<^verbatim>\<open>Afl_Target\<close>, \<^verbatim>\<open>Afl_Exec\<close>: sequencing with errors, the end of a child, \<^verbatim>\<open>run_target\<close>, \<^verbatim>\<open>write_to_testcase\<close>, \<^verbatim>\<open>init_forkserver\<close>.
  \<^item> \<^verbatim>\<open>Afl_State\<close>, \<^verbatim>\<open>Afl_Case\<close>, \<^verbatim>\<open>Afl_Save\<close>: the other globals, \<^verbatim>\<open>calibrate_case\<close>, \<^verbatim>\<open>describe_op\<close>, \<^verbatim>\<open>save_if_interesting\<close>,
    \<^verbatim>\<open>common_fuzz_stuff\<close>.
  \<^item> \<^verbatim>\<open>Afl_Score\<close>, \<^verbatim>\<open>Afl_Trim\<close>: \<^verbatim>\<open>calculate_score\<close>, the proximity factor, \<^verbatim>\<open>choose_block_len\<close>, \<^verbatim>\<open>trim_case\<close>.
  \<^item> \<^verbatim>\<open>Afl_Stages\<close>, \<^verbatim>\<open>Afl_Det\<close>, \<^verbatim>\<open>Afl_Havoc\<close>, \<^verbatim>\<open>Afl_FuzzOne\<close>: the stages of \<^verbatim>\<open>fuzz_one\<close> in their order, and \<^verbatim>\<open>fuzz_one\<close> itself.
  \<^item> \<^verbatim>\<open>Afl_Frame\<close>, \<^verbatim>\<open>Afl_Hoare\<close>, \<^verbatim>\<open>Afl_Flip\<close>, \<^verbatim>\<open>Afl_Undo\<close>, \<^verbatim>\<open>Afl_UndoDet\<close>: triples for the pieces of \<^verbatim>\<open>fuzz_one\<close>; the systematic
    stages end and take each edit back.  \<^verbatim>\<open>Afl_HavocSafe\<close>: the random edits stay inside the buffer.
  \<^item> \<^verbatim>\<open>Afl_Dry\<close>, \<^verbatim>\<open>Afl_Start\<close>: the command line, the input directory, the dry run, the names in the queue directory, the
    statistics file.
  \<^item> \<^verbatim>\<open>Afl_Main\<close>, \<^verbatim>\<open>Afl_Links\<close>, \<^verbatim>\<open>Afl_Grow\<close>, \<^verbatim>\<open>Afl_Cycle\<close>: the loop of \<^verbatim>\<open>main\<close> with \<^verbatim>\<open>sync_fuzzers\<close>; what the routines do to the
    links and the marks of the queue; each cycle visits every entry.
\<close>

text \<open>
  \<^bold>\<open>The other programs.\<close>

  \<^item> \<^verbatim>\<open>Afl_Alloc\<close>, \<^verbatim>\<open>Afl_Track\<close> (\<^verbatim>\<open>alloc-inl.h\<close>): blocks between guard values; resizing as an operation on the map from pointers
    to their bytes; the table of live allocations as a refinement of such a map.
  \<^item> \<^verbatim>\<open>Afl_Tools\<close>, \<^verbatim>\<open>Afl_Tmin\<close>, \<^verbatim>\<open>Afl_TminGood\<close> (\<^verbatim>\<open>afl-tmin.c\<close>): the minimizer ends, and no single byte of its result can be left
    out.  \<^verbatim>\<open>Afl_Analyze\<close> (\<^verbatim>\<open>afl-analyze.c\<close>): the four changes of each byte and what they say.
  \<^item> \<^verbatim>\<open>Afl_ToolStart\<close> (the start of both and of \<^verbatim>\<open>afl-showmap.c\<close>), \<^verbatim>\<open>Afl_Showmap\<close>: the map can be read back from the text.
  \<^item> \<^verbatim>\<open>Afl_As\<close> (\<^verbatim>\<open>afl-as.c\<close>), \<^verbatim>\<open>Afl_Cc\<close> (\<^verbatim>\<open>afl-gcc.c\<close>, \<^verbatim>\<open>llvm_mode/afl-clang-fast.c\<close>): where the instrumentation is inserted and
    which arguments are passed on.
  \<^item> \<^verbatim>\<open>Afl_ForkServer\<close>, \<^verbatim>\<open>Afl_Runtime\<close> (\<^verbatim>\<open>llvm_mode/afl-llvm-rt.o.c\<close> and the side of \<^verbatim>\<open>run_target\<close>): the exchange as a step
    relation of fork server, fuzzer, timer and child, with an invariant of the reachable states; the loop of the persistent mode.
  \<^item> \<^verbatim>\<open>Afl_TokenCap\<close> (\<^verbatim>\<open>libtokencap\<close>), with the interface \<^verbatim>\<open>char_fold\<close> for the comparisons with and without case, and \<^verbatim>\<open>Afl_Dislocator\<close>
    (\<^verbatim>\<open>libdislocator\<close>), where a block ends at a page that faults.

  \<^bold>\<open>Bounds.\<close>  There is fuel in one place: \<^verbatim>\<open>persist_while\<close> is the loop of a user around \<^verbatim>\<open>__AFL_LOOP\<close>, not code of the
  repository; two more than \<open>unat (n - 1)\<close> steps are enough for every \<open>n\<close>, as its theorem says.  The score is exact for
  execution times below 2 to the power of 62 microseconds and bitmaps below 2 to the power of 30 bytes; the length of a
  case is below \<^verbatim>\<open>MAX_FILE\<close>, a mebibyte.  \<^verbatim>\<open>next_p2\<close> does not return above 2 to the power of 31, which such a length excludes.

  \<^bold>\<open>Not modelled.\<close>  The screen; the locks and the removal of directories; signal handlers (but the one for the timeout) and
  processor binding; the child's side between \<^verbatim>\<open>fork\<close> and \<^verbatim>\<open>execv\<close>; the assembly text of \<^verbatim>\<open>afl-as.h\<close>;
  \<^verbatim>\<open>afl-gotcpu.c\<close> and \<^verbatim>\<open>android-ashmem.h\<close>: operating system calls or output without a decision in them.  The pass of LLVM is C++, the
  static analyzer \<^verbatim>\<open>sparrow\<close> is OCaml, QEMU is not in the repository, and the examples under \<^verbatim>\<open>experimental\<close> are for users.
  Messages that are only printed are left out.
\<close>

end
